(* ===== verification/Prelude.thy ===== *)
theory Prelude
  imports Main "HOL-Library.Word"
begin

unbundle bit_operations_syntax

text \<open>
  Shared vocabulary of the development.

  \<^item> C integers: \<open>unsigned int\<close>, \<open>unsigned short\<close> and \<open>unsigned char\<close> are words of 32,
    16 and 8 bits, so that \<open>+\<close> and \<open>-\<close> wrap as they do in C.
  \<^item> C strings: a NUL-terminated string is the \<^typ>\<open>string\<close> of the characters before its
    terminator. \<open>rd s i\<close> is the read \<open>s[i]\<close>: the terminator is readable, one past it is not,
    and such a read is the value \<open>None\<close>. A model that performs one has no defined result.
  \<^item> The collections of simplification rules the component theories extend.
\<close>

named_theorems chattr_simps \<open>character classes and case folding on concrete characters\<close>
named_theorems cstr_simps \<open>reads of C strings\<close>

type_synonym u8 = "8 word"
type_synonym u16 = "16 word"
type_synonym u32 = "32 word"

text \<open>
  Why a piece of C has no defined result: an access outside an array or string, a null
  dereference, a failed assertion or an \<open>exit\<close>, the use of a value that was never written, or,
  set apart where a theorem tells the two, a write past the end of a message buffer.
  Partial operations return \<open>'a res\<close>; those that may also run forever return \<open>'a run\<close>, where
  \<open>None\<close> stands for not returning.
\<close>

datatype cfault = OutOfBounds | NullDeref | Aborted | Indeterminate | Overrun

type_synonym 'a res = "cfault + 'a"

definition res_bind :: "'a res \<Rightarrow> ('a \<Rightarrow> 'b res) \<Rightarrow> 'b res" where
  "res_bind r f = (case r of Inl e \<Rightarrow> Inl e | Inr x \<Rightarrow> f x)"

lemma res_bind_simps [simp]:
  "res_bind (Inl e) f = Inl e"
  "res_bind (Inr x) f = f x"
  by (simp_all add: res_bind_def)

lemma res_bind_Inr_iff: "res_bind r f = Inr y \<longleftrightarrow> (\<exists>x. r = Inr x \<and> f x = Inr y)"
  by (cases r) auto

type_synonym 'a run = "'a res option"

definition run_bind :: "'a run \<Rightarrow> ('a \<Rightarrow> 'b run) \<Rightarrow> 'b run" where
  "run_bind r f = (case r of None \<Rightarrow> None | Some (Inl e) \<Rightarrow> Some (Inl e) | Some (Inr x) \<Rightarrow> f x)"

definition returning :: "'a \<Rightarrow> 'a run" where
  "returning x = Some (Inr x)"

lemma returning_inject [simp]: "returning x = returning y \<longleftrightarrow> x = y"
  by (simp add: returning_def)

lemma run_bind_simps [simp]:
  "run_bind None f = None"
  "run_bind (Some (Inl e)) f = Some (Inl e)"
  "run_bind (Some (Inr x)) f = f x"
  by (simp_all add: run_bind_def)

lemma run_bind_returning [simp]: "run_bind (returning x) f = f x"
  by (simp add: returning_def)

lemma run_bind_Inr_iff: "run_bind r f = Some (Inr y) \<longleftrightarrow> (\<exists>x. r = Some (Inr x) \<and> f x = Some (Inr y))"
  by (auto simp: run_bind_def split: option.splits sum.splits)

lemma run_bind_as_bind: "run_bind r g = Option.bind r (case_sum (\<lambda>e. Some (Inl e)) g)"
  by (cases r) (auto split: sum.splits)

lemma run_bind_mono [partial_function_mono]:
  assumes "mono_option B" "\<And>y. mono_option (\<lambda>f. C y f)"
  shows "mono_option (\<lambda>f. run_bind (B f) (\<lambda>y. C y f))"
proof -
  have "mono_option (\<lambda>f. case_sum (\<lambda>e. Some (Inl e)) (\<lambda>y. C y f) x)" for x
    by (cases x) (simp_all add: assms(2) option.const_mono)
  then show ?thesis
    unfolding run_bind_as_bind by (rule bind_mono [OF assms(1)])
qed

type_synonym client = nat

section \<open>C strings\<close>

abbreviation NUL :: char where
  "NUL \<equiv> CHR 0x00"

definition rd :: "string \<Rightarrow> nat \<Rightarrow> char option" where
  "rd s i = (if i < length s then Some (s ! i)
             else if i = length s then Some NUL else None)"

text \<open>A C string holds no NUL before its terminator.\<close>

definition cstring :: "string \<Rightarrow> bool" where
  "cstring s \<longleftrightarrow> NUL \<notin> set s"

lemma rd_Some_iff [cstr_simps]: "rd s i = None \<longleftrightarrow> length s < i"
  by (auto simp: rd_def)

lemma rd_less [cstr_simps]: "i < length s \<Longrightarrow> rd s i = Some (s ! i)"
  by (simp add: rd_def)

lemma rd_length [cstr_simps]: "rd s (length s) = Some NUL"
  by (simp add: rd_def)

lemma rd_NUL_iff [cstr_simps]:
  "cstring s \<Longrightarrow> rd s i = Some NUL \<longleftrightarrow> i = length s"
  by (auto simp: rd_def cstring_def in_set_conv_nth split: if_splits)

lemma cstring_Nil [simp]: "cstring []"
  by (simp add: cstring_def)

lemma cstring_Cons [simp]: "cstring (c # s) \<longleftrightarrow> c \<noteq> NUL \<and> cstring s"
  by (auto simp: cstring_def)

lemma cstring_append [simp]: "cstring (s @ t) \<longleftrightarrow> cstring s \<and> cstring t"
  by (auto simp: cstring_def)

lemma cstring_drop: "cstring s \<Longrightarrow> cstring (drop n s)"
  by (auto simp: cstring_def dest: in_set_dropD)

lemma cstring_take: "cstring s \<Longrightarrow> cstring (take n s)"
  by (auto simp: cstring_def dest: in_set_takeD)

lemma cstring_nth: "cstring s \<Longrightarrow> i < length s \<Longrightarrow> s ! i \<noteq> NUL"
  by (auto simp: cstring_def in_set_conv_nth)

section \<open>Lists\<close>

lemma takeWhile_full: "length xs \<le> length (takeWhile P xs) \<Longrightarrow> takeWhile P xs = xs"
  by (induction xs) (auto split: if_splits)

lemma takeWhile_short: "length (takeWhile P xs) < length xs \<Longrightarrow> \<exists>x \<in> set xs. \<not> P x"
  by (metis less_irrefl takeWhile_eq_all_conv)

section \<open>Character codes\<close>

text \<open>The code of a character as an \<open>unsigned char\<close>, and back.\<close>

abbreviation ord :: "char \<Rightarrow> nat" where
  "ord c \<equiv> of_char c"

lemma ord_less [simp]: "(of_char c :: nat) < 256"
  by (cases c) (simp add: of_char_def)

lemma ord_inject: "ord c = ord d \<longleftrightarrow> c = d"
  by (metis char_of_char)

lemma ord_char_of: "n < 256 \<Longrightarrow> ord (char_of n) = n"
  by (simp add: of_char_of)

section \<open>Word bounds\<close>

lemma unat_u8_less: "unat (a :: u8) < 256"
  using unsigned_less [of a, where 'a = nat] by simp

lemma unat_u32_less: "unat (a :: u32) < 4294967296"
  using unsigned_less [of a, where 'a = nat] by simp

lemma unat_u16_less: "unat (a :: u16) < 65536"
  using unsigned_less [of a, where 'a = nat] by simp

end
