(* ===== verification/Chattr.thy ===== *)
theory Chattr
  imports Prelude
begin

text \<open>
  Character classes and RFC 1459 case folding (\<open>include/ircd_chattr.h\<close>,
  \<open>ircd/table_gen.c\<close>). The daemon reads three tables that \<open>table_gen.c\<close> prints at build
  time; the model runs the generator's \<open>makeTables\<close> and reads the tables it makes. A table
  is a function of the unsigned character code; a loop of the generator over all codes is a
  pointwise update, since its iterations write distinct entries.
\<close>

section \<open>The attribute bits\<close>

definition NTL_ALNUM :: u32 where "NTL_ALNUM = 0x0001"
definition NTL_ALPHA :: u32 where "NTL_ALPHA = 0x0002"
definition NTL_CNTRL :: u32 where "NTL_CNTRL = 0x0004"
definition NTL_DIGIT :: u32 where "NTL_DIGIT = 0x0008"
definition NTL_GRAPH :: u32 where "NTL_GRAPH = 0x0010"
definition NTL_LOWER :: u32 where "NTL_LOWER = 0x0020"
definition NTL_PRINT :: u32 where "NTL_PRINT = 0x0040"
definition NTL_PUNCT :: u32 where "NTL_PUNCT = 0x0080"
definition NTL_SPACE :: u32 where "NTL_SPACE = 0x0100"
definition NTL_UPPER :: u32 where "NTL_UPPER = 0x0200"
definition NTL_IRCCH :: u32 where "NTL_IRCCH = 0x0400"
definition NTL_IRCCL :: u32 where "NTL_IRCCL = 0x0800"
definition NTL_IRCNK :: u32 where "NTL_IRCNK = 0x1000"
definition NTL_IRCUI :: u32 where "NTL_IRCUI = 0x2000"
definition NTL_IRCHN :: u32 where "NTL_IRCHN = 0x4000"
definition NTL_IRCIP :: u32 where "NTL_IRCIP = 0x8000"
definition NTL_EOL :: u32 where "NTL_EOL = 0x10000"
definition NTL_KTIME :: u32 where "NTL_KTIME = 0x20000"
definition NTL_CHPFX :: u32 where "NTL_CHPFX = 0x40000"

lemmas NTL_defs = NTL_ALNUM_def NTL_ALPHA_def NTL_CNTRL_def NTL_DIGIT_def NTL_GRAPH_def
  NTL_LOWER_def NTL_PRINT_def NTL_PUNCT_def NTL_SPACE_def NTL_UPPER_def NTL_IRCCH_def
  NTL_IRCCL_def NTL_IRCNK_def NTL_IRCUI_def NTL_IRCHN_def NTL_IRCIP_def NTL_EOL_def
  NTL_KTIME_def NTL_CHPFX_def

section \<open>The table generator\<close>

record tables =
  NTL_tolower_tab :: "nat \<Rightarrow> nat"
  NTL_toupper_tab :: "nat \<Rightarrow> nat"
  NTL_char_attrib :: "nat \<Rightarrow> u32"

definition zeroTables :: tables where
  "zeroTables = \<lparr>NTL_tolower_tab = (\<lambda>i. i), NTL_toupper_tab = (\<lambda>i. i),
     NTL_char_attrib = (\<lambda>_. 0)\<rparr>"

definition markString :: "u32 \<Rightarrow> nat list \<Rightarrow> tables \<Rightarrow> tables" where
  "markString macro s t = t\<lparr>NTL_char_attrib := (\<lambda>c.
     if c \<in> set s then NTL_char_attrib t c OR macro else NTL_char_attrib t c)\<rparr>"

definition unMarkString :: "u32 \<Rightarrow> nat list \<Rightarrow> tables \<Rightarrow> tables" where
  "unMarkString macro s t = t\<lparr>NTL_char_attrib := (\<lambda>c.
     if c \<in> set s then NTL_char_attrib t c AND NOT macro else NTL_char_attrib t c)\<rparr>"

definition markRange :: "u32 \<Rightarrow> nat \<Rightarrow> nat \<Rightarrow> tables \<Rightarrow> tables" where
  "markRange macro from_c to_c t = t\<lparr>NTL_char_attrib := (\<lambda>c.
     if c \<ge> from_c \<and> c \<le> to_c then NTL_char_attrib t c OR macro
     else NTL_char_attrib t c)\<rparr>"

definition moveMacro :: "u32 \<Rightarrow> u32 \<Rightarrow> tables \<Rightarrow> tables" where
  "moveMacro from_m to_m t = t\<lparr>NTL_char_attrib := (\<lambda>c.
     if NTL_char_attrib t c AND from_m \<noteq> 0 then NTL_char_attrib t c OR to_m
     else NTL_char_attrib t c)\<rparr>"

text \<open>
  For each \<open>i\<close> from \<open>firstlow\<close> to \<open>lastlow\<close> the loop writes \<open>tolower[j] = i\<close> and
  \<open>toupper[i] = j\<close> with \<open>j\<close> the code \<open>i + (firsthi - firstlow)\<close> taken back to a
  \<open>char\<close>; the code \<open>i\<close> that writes entry \<open>j\<close> is \<open>j + (firstlow - firsthi)\<close>.
\<close>

definition setLowHi :: "nat \<Rightarrow> nat \<Rightarrow> nat \<Rightarrow> tables \<Rightarrow> tables" where
  "setLowHi firstlow lastlow firsthi t = t\<lparr>
     NTL_tolower_tab := (\<lambda>j. let i = (j + 256 + firstlow - firsthi) mod 256
        in if i \<ge> firstlow \<and> i \<le> lastlow then i else NTL_tolower_tab t j),
     NTL_toupper_tab := (\<lambda>i. if i \<ge> firstlow \<and> i \<le> lastlow
        then (i + 256 + firsthi - firstlow) mod 256 else NTL_toupper_tab t i)\<rparr>"

abbreviation codes :: "string \<Rightarrow> nat list" where
  "codes s \<equiv> map of_char s"

text \<open>\<open>makeTables\<close>: each line is one call of the source, the first call innermost.\<close>

definition makeTables_elementary :: "tables \<Rightarrow> tables" where
  "makeTables_elementary =
     markString NTL_SPACE [0x09, 0x0a, 0x0b, 0x0c, 0x0d, 0x20]
   \<circ> markString NTL_PUNCT (0x22 # 0x27 # codes ''!#$%&()*+,-./:;<=>?@_'' @ [0x60])
   \<circ> markRange NTL_CNTRL 0 0x1f
   \<circ> markRange NTL_DIGIT (ord CHR ''0'') (ord CHR ''9'')
   \<circ> markString NTL_UPPER [0x5B, 0x5C, 0x5D, 0x5E]
   \<circ> markRange NTL_UPPER (ord CHR ''A'') (ord CHR ''Z'')
   \<circ> markString NTL_LOWER (codes ''{|}~'')
   \<circ> markRange NTL_LOWER (ord CHR ''a'') (ord CHR ''z'')"

definition makeTables_derived :: "tables \<Rightarrow> tables" where
  "makeTables_derived =
     markString NTL_KTIME (codes '' ,-0123456789'')
   \<circ> markString NTL_CHPFX (codes ''#&'')
   \<circ> markString NTL_EOL [10, 13]
   \<circ> markString NTL_IRCUI (codes ''.-_^'' @ [0x27, 0x60] @ codes ''~'')
   \<circ> markRange NTL_IRCUI 0xd8 0xde
   \<circ> markRange NTL_IRCUI 0xc0 0xd6
   \<circ> markRange NTL_IRCUI 0xf8 0xfe
   \<circ> markRange NTL_IRCUI 0xe0 0xf6
   \<circ> moveMacro NTL_ALNUM NTL_IRCUI
   \<circ> markString NTL_IRCNK (codes ''-_'' @ [0x60])
   \<circ> moveMacro (NTL_DIGIT OR NTL_ALPHA) NTL_IRCNK
   \<circ> markString NTL_IRCIP (codes ''.'')
   \<circ> moveMacro NTL_DIGIT NTL_IRCIP
   \<circ> markString NTL_IRCHN (codes ''-_.'')
   \<circ> moveMacro NTL_ALNUM NTL_IRCHN
   \<circ> markRange NTL_IRCCL 0xd8 0xde
   \<circ> markRange NTL_IRCCL 0xc0 0xd6
   \<circ> unMarkString NTL_IRCCH [0x07, 0x20, 0x2c, 0xa0, ord CHR ''*'']
   \<circ> markRange NTL_IRCCH 0 255
   \<circ> markString NTL_PRINT (codes '' '')
   \<circ> moveMacro NTL_GRAPH NTL_PRINT
   \<circ> moveMacro (NTL_ALNUM OR NTL_PUNCT) NTL_GRAPH
   \<circ> moveMacro (NTL_ALPHA OR NTL_DIGIT) NTL_ALNUM
   \<circ> moveMacro (NTL_LOWER OR NTL_UPPER) NTL_ALPHA"

definition makeTables_case :: "tables \<Rightarrow> tables" where
  "makeTables_case =
     setLowHi 0x7B 0x7E 0x5B
   \<circ> setLowHi 0xf8 0xfe 0xd8
   \<circ> setLowHi 0xe0 0xf6 0xc0
   \<circ> setLowHi (ord CHR ''a'') (ord CHR ''z'') (ord CHR ''A'')"

definition makeTables :: tables where
  "makeTables = (makeTables_case \<circ> makeTables_derived \<circ> makeTables_elementary) zeroTables"

section \<open>The macros of ircd_chattr.h\<close>

definition ToLower :: "char \<Rightarrow> char" where
  "ToLower c = char_of (NTL_tolower_tab makeTables (ord c))"

definition ToUpper :: "char \<Rightarrow> char" where
  "ToUpper c = char_of (NTL_toupper_tab makeTables (ord c))"

definition CharAttr :: "char \<Rightarrow> u32" where
  "CharAttr c = NTL_char_attrib makeTables (ord c)"

definition IsAlnum :: "char \<Rightarrow> bool" where "IsAlnum c \<longleftrightarrow> CharAttr c AND NTL_ALNUM \<noteq> 0"
definition IsAlpha :: "char \<Rightarrow> bool" where "IsAlpha c \<longleftrightarrow> CharAttr c AND NTL_ALPHA \<noteq> 0"
definition IsDigit :: "char \<Rightarrow> bool" where "IsDigit c \<longleftrightarrow> CharAttr c AND NTL_DIGIT \<noteq> 0"
definition IsLower :: "char \<Rightarrow> bool" where "IsLower c \<longleftrightarrow> CharAttr c AND NTL_LOWER \<noteq> 0"
definition IsSpace :: "char \<Rightarrow> bool" where "IsSpace c \<longleftrightarrow> CharAttr c AND NTL_SPACE \<noteq> 0"
definition IsUpper :: "char \<Rightarrow> bool" where "IsUpper c \<longleftrightarrow> CharAttr c AND NTL_UPPER \<noteq> 0"
definition IsCntrl :: "char \<Rightarrow> bool" where "IsCntrl c \<longleftrightarrow> CharAttr c AND NTL_CNTRL \<noteq> 0"
definition IsPunct :: "char \<Rightarrow> bool" where "IsPunct c \<longleftrightarrow> CharAttr c AND NTL_PUNCT \<noteq> 0"
definition IsChannelChar :: "char \<Rightarrow> bool" where
  "IsChannelChar c \<longleftrightarrow> CharAttr c AND NTL_IRCCH \<noteq> 0"
definition IsChannelLower :: "char \<Rightarrow> bool" where
  "IsChannelLower c \<longleftrightarrow> CharAttr c AND NTL_IRCCL \<noteq> 0"
definition IsChannelPrefix :: "char \<Rightarrow> bool" where
  "IsChannelPrefix c \<longleftrightarrow> CharAttr c AND NTL_CHPFX \<noteq> 0"
definition IsNickChar :: "char \<Rightarrow> bool" where "IsNickChar c \<longleftrightarrow> CharAttr c AND NTL_IRCNK \<noteq> 0"
definition IsUserChar :: "char \<Rightarrow> bool" where "IsUserChar c \<longleftrightarrow> CharAttr c AND NTL_IRCUI \<noteq> 0"
definition IsHostChar :: "char \<Rightarrow> bool" where "IsHostChar c \<longleftrightarrow> CharAttr c AND NTL_IRCHN \<noteq> 0"
definition IsIPChar :: "char \<Rightarrow> bool" where "IsIPChar c \<longleftrightarrow> CharAttr c AND NTL_IRCIP \<noteq> 0"
definition IsEol :: "char \<Rightarrow> bool" where "IsEol c \<longleftrightarrow> CharAttr c AND NTL_EOL \<noteq> 0"
definition IsKTimeChar :: "char \<Rightarrow> bool" where
  "IsKTimeChar c \<longleftrightarrow> CharAttr c AND NTL_KTIME \<noteq> 0"

section \<open>Case folding\<close>

lemma case_tabs_frame [simp]:
  "NTL_tolower_tab (markString m s t) = NTL_tolower_tab t"
  "NTL_tolower_tab (unMarkString m s t) = NTL_tolower_tab t"
  "NTL_tolower_tab (markRange m a b t) = NTL_tolower_tab t"
  "NTL_tolower_tab (moveMacro m m' t) = NTL_tolower_tab t"
  "NTL_toupper_tab (markString m s t) = NTL_toupper_tab t"
  "NTL_toupper_tab (unMarkString m s t) = NTL_toupper_tab t"
  "NTL_toupper_tab (markRange m a b t) = NTL_toupper_tab t"
  "NTL_toupper_tab (moveMacro m m' t) = NTL_toupper_tab t"
  by (simp_all add: markString_def unMarkString_def markRange_def moveMacro_def)

lemma attrib_case_frame [simp]:
  "NTL_char_attrib (setLowHi a b c t) = NTL_char_attrib t"
  by (simp add: setLowHi_def)

text \<open>Every range of the source pairs codes that lie 32 apart.\<close>

lemma tolower_setLowHi:
  assumes "lo = hi + 32" "32 \<le> hi" "lo \<le> hl" "hl < 256" "c < 256"
  shows "NTL_tolower_tab (setLowHi lo hl hi t) c =
    (if hi \<le> c \<and> c \<le> hl - 32 then c + 32 else NTL_tolower_tab t c)"
proof -
  have "(c + 256 + lo - hi) mod 256 = (c + 32) mod 256"
    using assms by (simp add: mod_if)
  then show ?thesis
    using assms by (auto simp: setLowHi_def Let_def mod_if)
qed

lemma toupper_setLowHi:
  assumes "lo = hi + 32" "32 \<le> hi" "lo \<le> hl" "hl < 256" "c < 256"
  shows "NTL_toupper_tab (setLowHi lo hl hi t) c =
    (if lo \<le> c \<and> c \<le> hl then c - 32 else NTL_toupper_tab t c)"
proof -
  have "lo \<le> c \<Longrightarrow> (c + 256 + hi - lo) mod 256 = c - 32"
    using assms by (simp add: mod_if)
  then show ?thesis
    by (auto simp: setLowHi_def)
qed

lemma ToLower_code:
  "ToLower c = (let n = ord c in
     if 0x41 \<le> n \<and> n \<le> 0x5E \<or> 0xc0 \<le> n \<and> n \<le> 0xd6 \<or> 0xd8 \<le> n \<and> n \<le> 0xde
     then char_of (n + 32) else c)"
  using ord_less [of c]
  by (simp add: ToLower_def makeTables_def makeTables_case_def makeTables_derived_def
      makeTables_elementary_def tolower_setLowHi zeroTables_def Let_def)

lemma ToUpper_code:
  "ToUpper c = (let n = ord c in
     if 0x61 \<le> n \<and> n \<le> 0x7E \<or> 0xe0 \<le> n \<and> n \<le> 0xf6 \<or> 0xf8 \<le> n \<and> n \<le> 0xfe
     then char_of (n - 32) else c)"
  using ord_less [of c]
  by (simp add: ToUpper_def makeTables_def makeTables_case_def makeTables_derived_def
      makeTables_elementary_def toupper_setLowHi zeroTables_def Let_def)

lemma bit_Suc_0 [chattr_simps]: "bit (Suc 0) 0"
  by (simp add: bit_0)

lemmas [chattr_simps] = ToLower_code ToUpper_code Let_def char_of_def

text \<open>The codes the two maps give, as arithmetic.\<close>

lemma ord_ToLower: "ord (ToLower c) =
   (if 0x41 \<le> ord c \<and> ord c \<le> 0x5E \<or> 0xc0 \<le> ord c \<and> ord c \<le> 0xd6
      \<or> 0xd8 \<le> ord c \<and> ord c \<le> 0xde
    then ord c + 32 else ord c)"
  by (simp add: ToLower_code Let_def of_char_of mod_if)

lemma ord_ToUpper: "ord (ToUpper c) =
   (if 0x61 \<le> ord c \<and> ord c \<le> 0x7E \<or> 0xe0 \<le> ord c \<and> ord c \<le> 0xf6
      \<or> 0xf8 \<le> ord c \<and> ord c \<le> 0xfe
    then ord c - 32 else ord c)"
  using ord_less [of c] by (auto simp: ToUpper_code Let_def of_char_of mod_if)

lemma ToLower_idem [simp]: "ToLower (ToLower c) = ToLower c"
  by (simp flip: ord_inject add: ord_ToLower)

lemma ToLower_NUL_iff [simp]: "ToLower c = NUL \<longleftrightarrow> c = NUL"
  by (simp flip: ord_inject add: ord_ToLower)

lemma ToLower_NUL [simp]: "ToLower NUL = NUL"
  by simp

lemma ToLower_NUL_iff' [simp]: "NUL = ToLower c \<longleftrightarrow> c = NUL"
  by (metis ToLower_NUL_iff)

lemma ToLower_ToUpper: "ToLower (ToUpper c) = ToLower c"
  unfolding ord_inject [symmetric] by (auto simp: ord_ToLower ord_ToUpper)

lemma ToUpper_ToLower: "ToUpper (ToLower c) = ToUpper c"
  by (simp flip: ord_inject add: ord_ToLower ord_ToUpper)

lemma ToLower_ToUpper_eq_iff: "ToLower c = ToLower d \<longleftrightarrow> ToUpper c = ToUpper d"
  by (metis ToLower_ToUpper ToUpper_ToLower)

section \<open>The character classes\<close>

text \<open>Each attribute is one bit of the table entry; \<open>attr k\<close> names the mask of bit \<open>k\<close>.\<close>

definition attr :: "nat \<Rightarrow> u32" where
  "attr k = push_bit k 1"

lemma bit_attr [simp]: "bit (attr k) n \<longleftrightarrow> n = k \<and> n < 32"
  by (auto simp: attr_def bit_simps)

lemma and_attr: "x AND attr k \<noteq> 0 \<longleftrightarrow> bit x k"
proof -
  have "x AND attr k \<noteq> 0 \<longleftrightarrow> (\<exists>n. bit x n \<and> n = k \<and> n < 32)"
    by (auto simp: bit_eq_iff bit_simps)
  then show ?thesis
    using bit_imp_le_length [of x k] by auto
qed

lemma and_attr_or: "x AND (a OR b) \<noteq> 0 \<longleftrightarrow> x AND a \<noteq> 0 \<or> x AND b \<noteq> 0"
  for x a b :: u32
  by (auto simp: bit.conj_disj_distrib or_eq_0_iff)

lemma NTL_attr:
  "NTL_ALNUM = attr 0"
  "NTL_ALPHA = attr 1"
  "NTL_CNTRL = attr 2"
  "NTL_DIGIT = attr 3"
  "NTL_GRAPH = attr 4"
  "NTL_LOWER = attr 5"
  "NTL_PRINT = attr 6"
  "NTL_PUNCT = attr 7"
  "NTL_SPACE = attr 8"
  "NTL_UPPER = attr 9"
  "NTL_IRCCH = attr 10"
  "NTL_IRCCL = attr 11"
  "NTL_IRCNK = attr 12"
  "NTL_IRCUI = attr 13"
  "NTL_IRCHN = attr 14"
  "NTL_IRCIP = attr 15"
  "NTL_EOL = attr 16"
  "NTL_KTIME = attr 17"
  "NTL_CHPFX = attr 18"
  by (simp_all add: NTL_defs attr_def)

text \<open>
  Stated with \<open>if\<close>, so that a call that marks another attribute is dropped before its
  character set is looked at.
\<close>

lemma bit_attrib:
  "bit (NTL_char_attrib (markString m s t) c) n \<longleftrightarrow>
     (if bit m n then bit (NTL_char_attrib t c) n \<or> c \<in> set s
      else bit (NTL_char_attrib t c) n)"
  "bit (NTL_char_attrib (unMarkString m s t) c) n \<longleftrightarrow>
     (if bit m n then bit (NTL_char_attrib t c) n \<and> c \<notin> set s
      else bit (NTL_char_attrib t c) n)"
  "bit (NTL_char_attrib (markRange m a b t) c) n \<longleftrightarrow>
     (if bit m n then bit (NTL_char_attrib t c) n \<or> a \<le> c \<and> c \<le> b
      else bit (NTL_char_attrib t c) n)"
  "bit (NTL_char_attrib (moveMacro m m' t) c) n \<longleftrightarrow>
     (if bit m' n then bit (NTL_char_attrib t c) n \<or> NTL_char_attrib t c AND m \<noteq> 0
      else bit (NTL_char_attrib t c) n)"
  using bit_imp_le_length [of "NTL_char_attrib t c" n]
  by (auto simp: markString_def unMarkString_def markRange_def moveMacro_def bit_simps)

lemma bit_zeroTables: "\<not> bit (NTL_char_attrib zeroTables c) n"
  by (simp add: zeroTables_def)

lemmas class_simps = CharAttr_def makeTables_def makeTables_case_def makeTables_derived_def
  makeTables_elementary_def NTL_attr and_attr and_attr_or bit_attrib bit_zeroTables

lemma IsEol_iff: "IsEol c \<longleftrightarrow> ord c = 10 \<or> ord c = 13"
  by (auto simp: IsEol_def class_simps)

lemma IsDigit_iff: "IsDigit c \<longleftrightarrow> 0x30 \<le> ord c \<and> ord c \<le> 0x39"
  by (auto simp: IsDigit_def class_simps)

lemma IsSpace_iff: "IsSpace c \<longleftrightarrow> 9 \<le> ord c \<and> ord c \<le> 13 \<or> ord c = 32"
  by (auto simp: IsSpace_def class_simps)

lemma IsAlpha_iff: "IsAlpha c \<longleftrightarrow> 0x41 \<le> ord c \<and> ord c \<le> 0x5E \<or> 0x61 \<le> ord c \<and> ord c \<le> 0x7E"
  by (auto simp: IsAlpha_def class_simps)

lemma IsAlnum_iff: "IsAlnum c \<longleftrightarrow> IsAlpha c \<or> IsDigit c"
  by (simp add: IsAlnum_def IsAlpha_def IsDigit_def class_simps)

lemma IsNickChar_iff: "IsNickChar c \<longleftrightarrow> IsAlpha c \<or> IsDigit c \<or> ord c \<in> {0x2D, 0x5F, 0x60}"
  by (simp add: IsNickChar_def IsAlpha_def IsDigit_def class_simps) blast

lemma IsHostChar_iff: "IsHostChar c \<longleftrightarrow> IsAlnum c \<or> ord c \<in> {0x2D, 0x2E, 0x5F}"
  by (simp add: IsHostChar_def IsAlnum_def class_simps) blast

lemma IsChannelChar_iff: "IsChannelChar c \<longleftrightarrow> ord c \<notin> {7, 0x20, 0x2A, 0x2C, 0xA0}"
  using less_Suc_eq_le [of "ord c" 255] by (simp add: IsChannelChar_def class_simps) auto

lemma IsChannelPrefix_iff: "IsChannelPrefix c \<longleftrightarrow> ord c = 0x23 \<or> ord c = 0x26"
  by (auto simp: IsChannelPrefix_def class_simps)

lemma IsIPChar_iff: "IsIPChar c \<longleftrightarrow> IsDigit c \<or> ord c = 0x2E"
  by (simp add: IsIPChar_def IsDigit_def class_simps)

lemma IsUpper_iff: "IsUpper c \<longleftrightarrow> 0x41 \<le> ord c \<and> ord c \<le> 0x5E"
  by (auto simp: IsUpper_def class_simps)

end
