(* ===== verification/Ircd_String.thy ===== *)
theory Ircd_String
  imports Chattr
begin

text \<open>
  String helpers (\<open>ircd/ircd_string.c\<close>). A \<open>char*\<close> that walks over a C string is the
  suffix it points at; a destination buffer is the list of its bytes, and a write past its
  end has no result (\<open>None\<close>).
\<close>

section \<open>Definitions\<close>

text \<open>The value of a \<open>char\<close> in an arithmetic expression (\<open>char\<close> is signed).\<close>

definition schar :: "char \<Rightarrow> int" where
  "schar c = (if ord c < 128 then int (ord c) else int (ord c) - 256)"

fun string_has_wildcards :: "string \<Rightarrow> bool" where
  "string_has_wildcards [] = False"
| "string_has_wildcards (c # s) =
     (if c = CHR 0x5C then (case s of [] \<Rightarrow> False | _ # s' \<Rightarrow> string_has_wildcards s')
      else if c = CHR ''*'' \<or> c = CHR ''?'' then True
      else string_has_wildcards s)"

text \<open>
  \<open>ircd_strtok\<close>: the token found (if any) and the new \<open>*save\<close>. The NUL the source writes
  over the separator is what ends the token here.
\<close>

definition ircd_strtok :: "string option \<Rightarrow> string option \<Rightarrow> string
    \<Rightarrow> string option \<times> string option" where
  "ircd_strtok save str fs =
     (let pos = (case str of Some s \<Rightarrow> Some s | None \<Rightarrow> save) in
      case map_option (dropWhile (\<lambda>c. c \<in> set fs)) pos of
        None \<Rightarrow> (None, None)
      | Some [] \<Rightarrow> (None, None)
      | Some (c # r) \<Rightarrow>
          (Some (takeWhile (\<lambda>c. c \<notin> set fs) (c # r)),
           case dropWhile (\<lambda>c. c \<notin> set fs) (c # r) of [] \<Rightarrow> None | _ # q \<Rightarrow> Some q))"

text \<open>
  \<open>ircd_strncpy\<close>: the loop writes at most \<open>n\<close> bytes of the source and its terminator; when
  it stops at \<open>endp\<close> one more NUL is written there, at index \<open>n\<close>.
\<close>

definition ircd_strncpy :: "char list \<Rightarrow> string \<Rightarrow> nat \<Rightarrow> char list option" where
  "ircd_strncpy s1 s2 n =
     (let w = take n (s2 @ [NUL]); w' = (if length w = n then w @ [NUL] else w)
      in if length w' \<le> length s1 then Some (w' @ drop (length w') s1) else None)"

text \<open>The C string a byte buffer holds.\<close>

definition cstr_of :: "char list \<Rightarrow> string" where
  "cstr_of buf = takeWhile (\<lambda>c. c \<noteq> NUL) buf"

definition strChattr :: "string \<Rightarrow> u32" where
  "strChattr s = fold (\<lambda>c x. x AND CharAttr c) s (NOT 0)"

fun strCasediff :: "string \<Rightarrow> string \<Rightarrow> bool" where
  "strCasediff [] [] = False"
| "strCasediff [] (b # rb) = True"
| "strCasediff (a # ra) [] = True"
| "strCasediff (a # ra) (b # rb) =
     (if ToLower a = ToLower b then strCasediff ra rb else True)"

fun ircd_strcmp :: "string \<Rightarrow> string \<Rightarrow> int" where
  "ircd_strcmp [] [] = 0"
| "ircd_strcmp [] (b # rb) = schar NUL - schar b"
| "ircd_strcmp (a # ra) [] = schar a - schar NUL"
| "ircd_strcmp (a # ra) (b # rb) =
     (if ToLower a = ToLower b then ircd_strcmp ra rb else schar a - schar b)"

text \<open>\<open>left\<close> is the value after the \<open>left--\<close> of the guard.\<close>

fun strncmp_loop :: "string \<Rightarrow> string \<Rightarrow> nat \<Rightarrow> int" where
  "strncmp_loop [] [] left = 0"
| "strncmp_loop [] (b # rb) left = schar NUL - schar b"
| "strncmp_loop (a # ra) [] left = schar a - schar NUL"
| "strncmp_loop (a # ra) (b # rb) left =
     (if ToLower a = ToLower b
      then (case left of 0 \<Rightarrow> 0 | Suc l \<Rightarrow> strncmp_loop ra rb l)
      else schar a - schar b)"

definition ircd_strncmp :: "string \<Rightarrow> string \<Rightarrow> nat \<Rightarrow> int" where
  "ircd_strncmp a b n = (case n of 0 \<Rightarrow> 0 | Suc left \<Rightarrow> strncmp_loop a b left)"

text \<open>\<open>unique_name_vector\<close>: the \<open>for\<close> loop over \<open>start\<close>, then the last name.\<close>

definition name_in :: "string list \<Rightarrow> string \<Rightarrow> bool" where
  "name_in vector s \<longleftrightarrow> (\<exists>v \<in> set vector. ircd_strcmp v s = 0)"

lemma dropWhile_token_shorter:
  "token \<in> set start \<Longrightarrow>
     length (dropWhile (\<lambda>c. c = token) (dropWhile (\<lambda>c. c \<noteq> token) start)) < length start"
proof (induction start)
  case (Cons c s)
  show ?case
  proof (cases "c = token")
    case True
    then show ?thesis
      using length_dropWhile_le [of "\<lambda>c. c = token" s] by simp
  next
    case False
    with Cons show ?thesis by simp
  qed
qed simp

function unique_name_loop :: "char \<Rightarrow> nat \<Rightarrow> string list \<Rightarrow> string \<Rightarrow> string list" where
  "unique_name_loop token sz vector start =
     (if token \<in> set start then
        let name = takeWhile (\<lambda>c. c \<noteq> token) start;
            end_p = dropWhile (\<lambda>c. c = token) (dropWhile (\<lambda>c. c \<noteq> token) start)
        in if name_in vector name then unique_name_loop token sz vector end_p
           else if Suc (length vector) = sz then vector @ [name]
           else unique_name_loop token sz (vector @ [name]) end_p
      else if start = [] then vector
      else if name_in vector start then vector
      else vector @ [start])"
  by pat_completeness auto

termination
  by (relation "measure (\<lambda>(token, sz, vector, start). length start)")
    (auto dest: dropWhile_token_shorter)

declare unique_name_loop.simps [simp del]

definition unique_name_vector :: "string \<Rightarrow> char \<Rightarrow> nat \<Rightarrow> string list" where
  "unique_name_vector lst token sz =
     unique_name_loop token sz [] (dropWhile (\<lambda>c. c = token) lst)"

text \<open>\<open>token_vector\<close>: \<open>rest\<close> is what follows the first delimiter of the current piece.\<close>

function token_loop :: "char \<Rightarrow> nat \<Rightarrow> nat \<Rightarrow> string \<Rightarrow> string list" where
  "token_loop token sz count start =
     (if token \<in> set start then
        let start' = tl (dropWhile (\<lambda>c. c \<noteq> token) start)
        in takeWhile (\<lambda>c. c \<noteq> token) start #
           (if start' = [] then []
            else if Suc count < sz then token_loop token sz (Suc count) start'
            else [start'])
      else [start])"
  by pat_completeness auto
termination
proof (relation "measure (\<lambda>(token, sz, count, start). length start)")
  fix token :: char and sz count :: nat and start start' :: string
  assume "token \<in> set start" "start' = tl (dropWhile (\<lambda>c. c \<noteq> token) start)"
  moreover have "length (dropWhile (\<lambda>c. c \<noteq> token) start) \<le> length start"
    by (rule length_dropWhile_le)
  moreover have "dropWhile (\<lambda>c. c \<noteq> token) start \<noteq> []"
    using \<open>token \<in> set start\<close> by (auto simp: dropWhile_eq_Nil_conv)
  ultimately show "((token, sz, Suc count, start'), token, sz, count, start)
      \<in> measure (\<lambda>(token, sz, count, start). length start)"
    by (cases "dropWhile (\<lambda>c. c \<noteq> token) start") auto
qed simp

declare token_loop.simps [simp del]

definition token_vector :: "string \<Rightarrow> char \<Rightarrow> nat \<Rightarrow> string list" where
  "token_vector lst token sz = token_loop token sz 1 lst"

definition host_from_uh :: "char list \<Rightarrow> string \<Rightarrow> nat \<Rightarrow> char list option" where
  "host_from_uh host userhost n =
     (let s = (case dropWhile (\<lambda>c. c \<noteq> CHR ''@'') userhost of [] \<Rightarrow> userhost | _ # r \<Rightarrow> r) in
      case ircd_strncpy host s n of
        None \<Rightarrow> None
      | Some h \<Rightarrow> if n < length h then Some (h[n := NUL]) else None)"

text \<open>The table of the decimal notations of \<open>0 .. 255\<close>.\<close>

fun decimal :: "nat \<Rightarrow> string" where
  "decimal n = (if n < 10 then [char_of (48 + n)]
                else decimal (n div 10) @ [char_of (48 + n mod 10)])"

declare decimal.simps [simp del]

definition IpQuadTab :: "string list" where
  "IpQuadTab = map decimal [0..<256]"

definition ircd_ntoa_r :: "u8 \<times> u8 \<times> u8 \<times> u8 \<Rightarrow> string" where
  "ircd_ntoa_r ip = (case ip of (a, b, c, d) \<Rightarrow>
     IpQuadTab ! unat a @ CHR ''.'' # IpQuadTab ! unat b @ CHR ''.'' #
     IpQuadTab ! unat c @ CHR ''.'' # IpQuadTab ! unat d)"

text \<open>\<open>normalizeBuffer\<close>: what a colour code spans after its leading character 3.\<close>

definition drop_digit :: "string \<Rightarrow> string" where
  "drop_digit s = (case s of [] \<Rightarrow> [] | c # r \<Rightarrow> if IsDigit c then r else s)"

definition skip_color :: "string \<Rightarrow> string" where
  "skip_color s = (case s of [] \<Rightarrow> []
     | c # r \<Rightarrow> if IsDigit c then
          (let s2 = drop_digit r in
           case s2 of [] \<Rightarrow> []
           | d # r2 \<Rightarrow> if d = CHR '','' then drop_digit (drop_digit r2) else s2)
        else s)"

lemma length_drop_digit: "length (drop_digit s) \<le> length s"
  by (auto simp: drop_digit_def split: list.splits)

lemma length_skip_color [termination_simp]: "length (skip_color s) \<le> length s"
proof (cases s)
  case (Cons c r)
  have r: "length (drop_digit r) \<le> length r"
    by (rule length_drop_digit)
  have dd: "length q \<le> n \<Longrightarrow> length (drop_digit (drop_digit q)) \<le> n" for q n
    using length_drop_digit le_trans by blast
  from r Cons show ?thesis
    by (auto simp: skip_color_def Let_def split: list.splits intro: dd)
qed (simp add: skip_color_def)

definition stripped_codes :: "nat list" where
  "stripped_codes = [1, 2, 9, 10, 13, 22, 31]"

fun normalizeBuffer :: "string \<Rightarrow> string" where
  "normalizeBuffer [] = []"
| "normalizeBuffer (c # s) =
     (if ord c \<in> set stripped_codes then normalizeBuffer s
      else if ord c = 3 then normalizeBuffer (skip_color s)
      else c # normalizeBuffer s)"

definition issp :: "char \<Rightarrow> bool" where
  "issp c \<longleftrightarrow> c = CHR '' ''"

text \<open>\<open>doCleanBuffer\<close>: \<open>ch\<close> is the character just read, \<open>inp\<close> what \<open>in\<close> points at.\<close>

function clean_loop :: "char \<Rightarrow> string \<Rightarrow> string" where
  "clean_loop ch inp = ch #
     (case inp of [] \<Rightarrow> []
      | c # inp' \<Rightarrow>
          if \<not> issp c then clean_loop c inp'
          else (case dropWhile issp inp' of [] \<Rightarrow> []
                | d # r \<Rightarrow> CHR '' '' # clean_loop d r))"
  by pat_completeness auto
termination
proof (relation "measure (\<lambda>(ch, inp). length inp)")
  fix ch :: char and inp inp' r :: string and c d :: char
  assume "inp = c # inp'" "dropWhile issp inp' = d # r"
  then show "((d, r), ch, inp) \<in> measure (\<lambda>(ch, inp). length inp)"
    using length_dropWhile_le [of issp inp'] by simp
qed auto

declare clean_loop.simps [simp del]

definition doCleanBuffer :: "string \<Rightarrow> string" where
  "doCleanBuffer str = (case dropWhile issp str of [] \<Rightarrow> [] | ch # inp \<Rightarrow> clean_loop ch inp)"

text \<open>\<open>parse_word\<close>: the word without its stars, and the bits for a leading and trailing star.\<close>

definition TEXTBAN_WORD_LEFT :: u32 where "TEXTBAN_WORD_LEFT = 1"
definition TEXTBAN_WORD_RIGHT :: u32 where "TEXTBAN_WORD_RIGHT = 2"

fun parse_word_loop :: "bool \<Rightarrow> string \<Rightarrow> u32 \<Rightarrow> string \<times> u32" where
  "parse_word_loop at_start [] tpe = ([], tpe)"
| "parse_word_loop at_start (c # tmp) tpe =
     (if c \<noteq> CHR ''*'' then
        (let (w, t) = parse_word_loop False tmp tpe in (c # w, t))
      else
        (let tpe1 = (if at_start then tpe OR TEXTBAN_WORD_LEFT else tpe);
             tpe2 = (if tmp = [] then tpe1 OR TEXTBAN_WORD_RIGHT else tpe1)
         in parse_word_loop False tmp tpe2))"

definition parse_word :: "string \<Rightarrow> string \<times> u32" where
  "parse_word s = parse_word_loop True s 0"

section \<open>Comparison\<close>

lemma schar_inject: "schar a = schar b \<longleftrightarrow> a = b"
  unfolding schar_def ord_inject [symmetric]
  using ord_less [of a] ord_less [of b] by (simp only: split: if_split) linarith

lemma schar_NUL [simp]: "schar NUL = 0"
  by (simp add: schar_def)

lemma schar_eq_0 [simp]: "schar a = 0 \<longleftrightarrow> a = NUL"
  using schar_inject [of a NUL] by simp

lemma ircd_strcmp_eq_0:
  "cstring a \<Longrightarrow> cstring b \<Longrightarrow> ircd_strcmp a b = 0 \<longleftrightarrow> map ToLower a = map ToLower b"
  by (induction a b rule: ircd_strcmp.induct) (auto simp: schar_inject)

lemma strCasediff_iff: "strCasediff a b \<longleftrightarrow> map ToLower a \<noteq> map ToLower b"
  by (induction a b rule: strCasediff.induct) auto

lemma ircd_strcmp_antisym: "ircd_strcmp a b = - ircd_strcmp b a"
  by (induction a b rule: ircd_strcmp.induct) auto

lemma strncmp_loop_eq_0:
  "cstring a \<Longrightarrow> cstring b \<Longrightarrow>
     strncmp_loop a b left = 0 \<longleftrightarrow>
     map ToLower (take (Suc left) a) = map ToLower (take (Suc left) b)"
  by (induction a b left rule: strncmp_loop.induct) (auto simp: schar_inject split: nat.splits)

lemma ircd_strncmp_eq_0:
  "cstring a \<Longrightarrow> cstring b \<Longrightarrow>
     ircd_strncmp a b n = 0 \<longleftrightarrow> map ToLower (take n a) = map ToLower (take n b)"
  by (cases n) (simp_all add: ircd_strncmp_def strncmp_loop_eq_0)

text \<open>
  \<open>ircd_strcmp\<close> returns zero exactly for strings that are equal up to RFC 1459 case, and
  swapping its arguments negates its result; \<open>ircd_strncmp\<close> returns zero exactly when the
  first \<open>n\<close> characters are equal up to case.
\<close>

theorem ircd_strcmp_case_insensitive:
  assumes "cstring a" "cstring b"
  shows "(ircd_strcmp a b = 0 \<longleftrightarrow> map ToLower a = map ToLower b)
    \<and> ircd_strcmp b a = - ircd_strcmp a b
    \<and> (ircd_strncmp a b n = 0 \<longleftrightarrow> map ToLower (take n a) = map ToLower (take n b))"
  using assms ircd_strcmp_antisym [of b a] by (simp add: ircd_strcmp_eq_0 ircd_strncmp_eq_0)

theorem ircd_strcmp_case_insensitive_witness:
  "cstring ''Nick[]'' \<and> cstring ''nICK{}'' \<and>
   (ircd_strcmp ''Nick[]'' ''nICK{}'' = 0
     \<longleftrightarrow> map ToLower ''Nick[]'' = map ToLower ''nICK{}'') \<and>
   ircd_strncmp ''Nick[]'' ''nickname'' 4 = 0"
  using ircd_strcmp_case_insensitive [of "''Nick[]''" "''nICK{}''" 0]
    ircd_strcmp_case_insensitive [of "''Nick[]''" "''nickname''" 4]
  by (simp add: chattr_simps)

text \<open>
  The sign of a nonzero result is not an order up to case, although the comment of the source
  says so: it compares the characters as they are written, so that \<open>B\<close> sorts before \<open>a\<close> and
  \<open>b\<close> after it while \<open>B\<close> and \<open>b\<close> are equal.
\<close>

lemma ircd_strcmp_not_an_order:
  "ircd_strcmp ''B'' ''a'' < 0 \<and> ircd_strcmp ''b'' ''a'' > 0 \<and> ircd_strcmp ''B'' ''b'' = 0"
  by (simp add: chattr_simps schar_def)

section \<open>Bounded copies\<close>

lemma cstr_of_append: "cstring s \<Longrightarrow> cstr_of (s @ NUL # r) = s"
  by (auto simp: cstr_of_def cstring_def takeWhile_append)

lemma ircd_strncpy_defined: "n < length s1 \<Longrightarrow> ircd_strncpy s1 s2 n \<noteq> None"
  by (auto simp: ircd_strncpy_def Let_def)

lemma ircd_strncpy_cstr:
  assumes "cstring s2" "ircd_strncpy s1 s2 n = Some r"
  shows "cstr_of r = take n s2 \<and> length r = length s1"
proof (cases "n \<le> length s2")
  case True
  with assms cstring_take [OF assms(1), of n] show ?thesis
    by (auto simp: ircd_strncpy_def Let_def cstr_of_append split: if_splits)
next
  case False
  then have "take n (s2 @ [NUL]) = s2 @ [NUL]" "take n s2 = s2" by auto
  with assms show ?thesis
    by (auto simp: ircd_strncpy_def Let_def cstr_of_append split: if_splits)
qed

section \<open>Splitting at a delimiter\<close>

text \<open>The reference: the pieces between delimiters, and the nonempty ones among them.\<close>

fun split_at :: "char \<Rightarrow> string \<Rightarrow> string list" where
  "split_at token [] = [[]]"
| "split_at token (c # s) =
     (if c = token then [] # split_at token s
      else (case split_at token s of [] \<Rightarrow> [[c]] | x # xs \<Rightarrow> (c # x) # xs))"

definition names :: "char \<Rightarrow> string \<Rightarrow> string list" where
  "names token s = filter (\<lambda>x. x \<noteq> []) (split_at token s)"

lemma split_at_unfold:
  "split_at token s = (if token \<in> set s
     then takeWhile (\<lambda>c. c \<noteq> token) s # split_at token (tl (dropWhile (\<lambda>c. c \<noteq> token) s))
     else [s])"
  by (induction s) (auto split: list.splits)

lemma names_Nil [simp]: "names token [] = []"
  by (simp add: names_def)

lemma names_token [simp]: "names token (token # s) = names token s"
  by (simp add: names_def)

lemma names_dropWhile [simp]: "names token (dropWhile (\<lambda>c. c = token) s) = names token s"
  by (induction s) auto

lemma names_no_token: "token \<notin> set s \<Longrightarrow> names token s = (if s = [] then [] else [s])"
  by (subst names_def, subst split_at_unfold) simp

lemma names_first:
  assumes "token \<in> set s" "hd s \<noteq> token"
  shows "names token s = takeWhile (\<lambda>c. c \<noteq> token) s #
    names token (dropWhile (\<lambda>c. c = token) (dropWhile (\<lambda>c. c \<noteq> token) s))"
proof -
  let ?d = "dropWhile (\<lambda>c. c \<noteq> token) s"
  have "?d \<noteq> []" "hd ?d = token"
    using assms(1) hd_dropWhile [of "\<lambda>c. c \<noteq> token" s] by auto
  then have d: "?d = token # tl ?d"
    by (cases ?d) auto
  have "takeWhile (\<lambda>c. c \<noteq> token) s \<noteq> []"
    using assms by (cases s) auto
  then have "names token s = takeWhile (\<lambda>c. c \<noteq> token) s # names token (tl ?d)"
    using assms(1) by (simp add: names_def split_at_unfold [of token s])
  also have "names token (tl ?d) = names token ?d"
    by (subst (2) d) simp
  finally show ?thesis by simp
qed

lemma in_names: "x \<in> set (names token s) \<Longrightarrow> x \<noteq> [] \<and> set x \<subseteq> set s"
proof (induction "length s" arbitrary: s rule: less_induct)
  case less
  show ?case
  proof (cases "token \<in> set s")
    case False
    with less.prems show ?thesis by (auto simp: names_no_token split: if_splits)
  next
    case True
    show ?thesis
    proof (cases "hd s = token")
      case True
      with \<open>token \<in> set s\<close> obtain s' where s: "s = token # s'" by (cases s) auto
      with less.prems have "x \<in> set (names token s')" by simp
      with less.hyps [of s'] s show ?thesis by auto
    next
      case False
      let ?r = "dropWhile (\<lambda>c. c = token) (dropWhile (\<lambda>c. c \<noteq> token) s)"
      have r: "length ?r < length s" "set ?r \<subseteq> set s"
        using dropWhile_token_shorter [OF True] by (auto dest: set_dropWhileD)
      from less.prems names_first [OF True False]
      consider "x = takeWhile (\<lambda>c. c \<noteq> token) s" | "x \<in> set (names token ?r)"
        by auto
      then show ?thesis
      proof cases
        case 1
        with True False show ?thesis by (cases s) (auto dest: set_takeWhileD)
      next
        case 2
        with less.hyps [OF r(1)] r(2) show ?thesis by blast
      qed
    qed
  qed
qed

text \<open>The reference for \<open>unique_name_vector\<close>: keep the first of equal names.\<close>

fun uniq :: "string list \<Rightarrow> string list \<Rightarrow> string list" where
  "uniq vector [] = vector"
| "uniq vector (x # xs) = (if name_in vector x then uniq vector xs else uniq (vector @ [x]) xs)"

lemma uniq_prefix: "\<exists>ys. uniq vector xs = vector @ ys"
  by (induction vector xs rule: uniq.induct) auto

lemma unique_name_loop_uniq:
  "length vector < sz \<Longrightarrow> start = [] \<or> hd start \<noteq> token \<Longrightarrow>
     unique_name_loop token sz vector start = take sz (uniq vector (names token start))"
proof (induction token sz vector start rule: unique_name_loop.induct)
  case (1 token sz vector start)
  note step = unique_name_loop.simps [of token sz vector start]
  let ?name = "takeWhile (\<lambda>c. c \<noteq> token) start"
  let ?r = "dropWhile (\<lambda>c. c = token) (dropWhile (\<lambda>c. c \<noteq> token) start)"
  show ?case
  proof (cases "token \<in> set start")
    case False
    with 1(3) show ?thesis
      by (auto simp: step names_no_token)
  next
    case True
    then have first: "names token start = ?name # names token ?r"
      using 1(4) by (intro names_first) auto
    have r: "?r = [] \<or> hd ?r \<noteq> token"
      using hd_dropWhile [of "\<lambda>c. c = token"] by blast
    obtain ys where ys: "uniq (vector @ [?name]) (names token ?r) = (vector @ [?name]) @ ys"
      using uniq_prefix by blast
    consider (dup) "name_in vector ?name"
      | (full) "\<not> name_in vector ?name" "Suc (length vector) = sz"
      | (more) "\<not> name_in vector ?name" "Suc (length vector) \<noteq> sz"
      by blast
    then show ?thesis
    proof cases
      case dup
      with 1(1) [OF True refl refl] r 1(3) True show ?thesis by (simp add: step first)
    next
      case full
      have "take sz (vector @ [?name] @ ys) = vector @ [?name]"
        by (simp flip: full(2))
      with full ys True show ?thesis by (simp add: step first)
    next
      case more
      with 1(2) [OF True refl refl] r 1(3) True show ?thesis by (simp add: step first)
    qed
  qed
qed

text \<open>
  \<open>unique_name_vector\<close> returns the nonempty pieces of the list in their order, each name
  (compared without case) once, and stops after \<open>size\<close> of them.
\<close>

theorem unique_name_vector_correct:
  assumes "0 < sz"
  shows "unique_name_vector lst token sz = take sz (uniq [] (names token lst))"
proof -
  let ?s = "dropWhile (\<lambda>c. c = token) lst"
  have "?s = [] \<or> hd ?s \<noteq> token"
    using hd_dropWhile [of "\<lambda>c. c = token" lst] by blast
  with assms show ?thesis
    by (simp add: unique_name_vector_def unique_name_loop_uniq)
qed

theorem unique_name_vector_correct_witness:
  "(0::nat) < 3 \<and> unique_name_vector '',#a,,#b,#A,#c,#d'' CHR '','' 3 =
     take 3 (uniq [] (names CHR '','' '',#a,,#b,#A,#c,#d''))"
  using unique_name_vector_correct [of 3 "'',#a,,#b,#A,#c,#d''" "CHR '',''"] by simp

text \<open>
  \<open>token_vector\<close> writes at most \<open>size\<close> entries. An empty piece between two delimiters is kept
  as an empty entry, although the comment of the source says it is ignored.
\<close>

lemma length_token_loop: "count < sz \<Longrightarrow> length (token_loop token sz count start) + count \<le> Suc sz"
proof (induction token sz count start rule: token_loop.induct)
  case (1 token sz count start)
  then show ?case
    by (subst token_loop.simps) (auto simp: Let_def)
qed

lemma length_token_vector: "1 < sz \<Longrightarrow> length (token_vector lst token sz) \<le> sz"
  using length_token_loop [of 1 sz token lst] by (simp add: token_vector_def)

lemma token_vector_keeps_empty:
  "token_vector ''a,,b'' CHR '','' 5 = [''a'', [], ''b'']"
  by (simp add: token_vector_def token_loop.simps)

section \<open>Dotted quads\<close>

definition dec_val :: "string \<Rightarrow> nat" where
  "dec_val s = foldl (\<lambda>n c. 10 * n + (ord c - 48)) 0 s"

lemma dec_val_decimal: "dec_val (decimal n) = n"
proof (induction n rule: decimal.induct)
  case (1 n)
  show ?case
  proof (cases "n < 10")
    case True
    then show ?thesis by (simp add: decimal.simps [of n] dec_val_def of_char_of)
  next
    case False
    have "ord (char_of (48 + n mod 10)) = 48 + n mod 10"
      by (rule ord_char_of) linarith
    with "1.IH" [OF False] False show ?thesis
      by (simp add: decimal.simps [of n] dec_val_def)
  qed
qed

lemma decimal_digits: "c \<in> set (decimal n) \<Longrightarrow> 48 \<le> ord c \<and> ord c \<le> 57"
proof (induction n rule: decimal.induct)
  case (1 n)
  have "ord (char_of (48 + n mod 10)) = 48 + n mod 10"
    by (rule ord_char_of) linarith
  then show ?case
    using 1 by (cases "n < 10") (auto simp: decimal.simps [of n] of_char_of)
qed

lemma length_decimal: "n < 1000 \<Longrightarrow> length (decimal n) \<le> 3"
  by (simp add: decimal.simps [of n] decimal.simps [of "n div 10"]
      decimal.simps [of "n div 10 div 10"])

lemma IpQuadTab_nth [simp]: "IpQuadTab ! unat (a :: u8) = decimal (unat a)"
  using unat_u8_less [of a] by (simp add: IpQuadTab_def)

lemma dot_notin_decimal: "CHR ''.'' \<notin> set (decimal n)"
  using decimal_digits [of "CHR ''.''" n] by auto

lemma split_at_append:
  "token \<notin> set s \<Longrightarrow> split_at token (s @ token # r) = s # split_at token r"
  by (induction s) auto

text \<open>
  \<open>ircd_ntoa_r\<close> round trip: the four pieces of the text are the decimal notations of the
  four bytes, and the text with its terminator fits the 16 bytes of an IPv4 text buffer.
\<close>

theorem ircd_ntoa_r_roundtrip:
  "map dec_val (split_at CHR ''.'' (ircd_ntoa_r (a, b, c, d)))
     = [unat a, unat b, unat c, unat d] \<and> length (ircd_ntoa_r (a, b, c, d)) < 16"
proof -
  have l: "length (decimal (unat x)) \<le> 3" for x :: u8
    using unat_u8_less [of x] by (intro length_decimal) simp
  have "split_at CHR ''.'' (decimal n) = [decimal n]" for n
    by (subst split_at_unfold) (simp add: dot_notin_decimal)
  with l [of a] l [of b] l [of c] l [of d] show ?thesis
    by (simp add: ircd_ntoa_r_def split_at_append dot_notin_decimal dec_val_decimal)
qed

section \<open>Stripping and cleaning text\<close>

definition plain_char :: "char \<Rightarrow> bool" where
  "plain_char c \<longleftrightarrow> ord c \<notin> set (3 # stripped_codes)"

lemma normalizeBuffer_plain: "c \<in> set (normalizeBuffer s) \<Longrightarrow> plain_char c"
  by (induction s rule: normalizeBuffer.induct) (auto simp: plain_char_def split: if_splits)

lemma normalizeBuffer_id: "\<forall>c \<in> set s. plain_char c \<Longrightarrow> normalizeBuffer s = s"
  by (induction s) (auto simp: plain_char_def)

text \<open>
  \<open>normalizeBuffer\<close> leaves no formatting or colour character, and stripping a stripped
  line changes nothing.
\<close>

theorem normalizeBuffer_clean:
  "normalizeBuffer (normalizeBuffer s) = normalizeBuffer s
   \<and> filter (\<lambda>c. \<not> plain_char c) (normalizeBuffer s) = []"
  using normalizeBuffer_plain [of _ s] normalizeBuffer_id [of "normalizeBuffer s"]
  by (auto simp: filter_empty_conv)

fun unwords :: "string list \<Rightarrow> string" where
  "unwords [] = []"
| "unwords [w] = w"
| "unwords (w # ws) = w @ CHR '' '' # unwords ws"

lemma issp_eta: "issp = (\<lambda>c. c = CHR '' '')"
  by (simp add: issp_def fun_eq_iff)

lemma split_at_neq_Nil [simp]: "split_at token s \<noteq> []"
  by (subst split_at_unfold) simp

lemma names_Cons_nonspace:
  assumes "ch \<noteq> token"
  shows "names token (ch # s) =
     (case s of [] \<Rightarrow> [[ch]]
      | c # r \<Rightarrow> if c = token then [ch] # names token r
                else (ch # hd (names token s)) # tl (names token s))"
proof (cases s)
  case Nil
  with assms show ?thesis by (simp add: names_def)
next
  case (Cons c r)
  obtain x xs where "split_at token r = x # xs"
    using split_at_neq_Nil by (cases "split_at token r") auto
  with assms Cons show ?thesis by (simp add: names_def)
qed

lemma names_nonspace_first:
  assumes "ch \<noteq> token"
  obtains w ws where "names token (ch # s) = w # ws"
proof -
  have "names token (ch # s) \<noteq> []"
    using assms by (simp add: names_Cons_nonspace split: list.split)
  with that show thesis by (cases "names token (ch # s)") auto
qed

lemma clean_loop_words: "ch \<noteq> CHR '' '' \<Longrightarrow>
   clean_loop ch inp = unwords (names CHR '' '' (ch # inp))"
proof (induction ch inp rule: clean_loop.induct)
  case (1 ch inp)
  show ?case
  proof (cases inp)
    case Nil
    with 1(3) show ?thesis by (simp add: clean_loop.simps [of ch] names_Cons_nonspace)
  next
    case (Cons c r)
    show ?thesis
    proof (cases "issp c")
      case False
      then have "c \<noteq> CHR '' ''" by (simp add: issp_def)
      then obtain w ws where "names CHR '' '' (c # r) = w # ws"
        by (rule names_nonspace_first)
      with 1(1) [OF Cons False] \<open>c \<noteq> CHR '' ''\<close> 1(3) Cons False show ?thesis
        by (cases ws) (simp_all add: clean_loop.simps [of ch] names_Cons_nonspace [of ch])
    next
      case True
      have eq: "names CHR '' '' r = names CHR '' '' (dropWhile issp r)"
        by (simp add: issp_eta)
      show ?thesis
      proof (cases "dropWhile issp r")
        case Nil
        with True Cons eq 1(3) show ?thesis
          by (simp add: clean_loop.simps [of ch] names_Cons_nonspace issp_def
              del: dropWhile_eq_Nil_conv)
      next
        case d: (Cons d q)
        then have "d \<noteq> CHR '' ''"
          using hd_dropWhile [of issp r] by (simp add: issp_def)
        then obtain w ws where "names CHR '' '' (d # q) = w # ws"
          by (rule names_nonspace_first)
        with 1(2) [OF Cons _ d] True \<open>d \<noteq> CHR '' ''\<close> Cons d eq 1(3) show ?thesis
          by (simp add: clean_loop.simps [of ch] names_Cons_nonspace [of ch] issp_def)
      qed
    qed
  qed
qed

text \<open>
  \<open>doCleanBuffer\<close> keeps the words of the line and puts exactly one space between them:
  no leading, trailing or doubled space is left.
\<close>

theorem doCleanBuffer_words: "doCleanBuffer str = unwords (names CHR '' '' str)"
proof -
  have eq: "names CHR '' '' str = names CHR '' '' (dropWhile issp str)"
    by (simp add: issp_eta)
  show ?thesis
  proof (cases "dropWhile issp str")
    case Nil
    with eq show ?thesis by (simp add: doCleanBuffer_def del: dropWhile_eq_Nil_conv)
  next
    case (Cons c r)
    then have "c \<noteq> CHR '' ''"
      using hd_dropWhile [of issp str] by (simp add: issp_def)
    with Cons eq show ?thesis by (simp add: doCleanBuffer_def clean_loop_words)
  qed
qed

end
