(* ===== verification/Numnicks.thy ===== *)
theory Numnicks
  imports Ircd_String
begin

unbundle bit_operations_syntax

text \<open>
  Numeric nicknames (\<open>ircd/numnicks.c\<close>): the base-64 notation of server and client numbers
  and the tables that map a numeric to its server or client. A \<open>struct Client*\<close> is a number
  (\<^typ>\<open>client\<close>); the 4-byte buffers \<open>cli_yxx\<close> and \<open>nn_capacity\<close> are byte lists. \<open>base64toint\<close>
  reads memory up to a NUL, so it takes the bytes from its argument on; for a C string \<open>s\<close>
  that is \<open>s @ [NUL]\<close>. The \<open>Debug\<close> calls only trace and are left out; name matching
  (\<open>markMatchexServer\<close>, \<open>find_match_server\<close>) takes the matcher as an argument.
\<close>

section \<open>Notation\<close>

definition NUMNICKLOG :: nat where "NUMNICKLOG = 6"
definition NUMNICKMASK :: u32 where "NUMNICKMASK = 63"
definition NN_MAX_SERVER :: nat where "NN_MAX_SERVER = 4096"
definition NN_MAX_CLIENT :: nat where "NN_MAX_CLIENT = 262144"

definition convert2y :: string where
  "convert2y = ''ABCDEFGHIJKLMNOPQRSTUVWXYZabcdefghijklmnopqrstuvwxyz0123456789[]''"

text \<open>The 256 entries of the table, by the ranges of codes that are not 0.\<close>

definition convert2n :: "char \<Rightarrow> u32" where
  "convert2n c = (let n = ord c in
     if 0x30 \<le> n \<and> n \<le> 0x39 then of_nat (n - 0x30 + 52)
     else if 0x41 \<le> n \<and> n \<le> 0x5A then of_nat (n - 0x41)
     else if n = 0x5B then 62
     else if n = 0x5D then 63
     else if 0x61 \<le> n \<and> n \<le> 0x7A then of_nat (n - 0x61 + 26)
     else 0)"

fun base64_loop :: "u32 \<Rightarrow> char list \<Rightarrow> u32 res" where
  "base64_loop i [] = Inl OutOfBounds"
| "base64_loop i (c # m) =
     (if c = NUL then Inr i else base64_loop (push_bit NUMNICKLOG i + convert2n c) m)"

definition base64toint :: "char list \<Rightarrow> u32 res" where
  "base64toint m = (case m of [] \<Rightarrow> Inl OutOfBounds | c # r \<Rightarrow> base64_loop (convert2n c) r)"

text \<open>The digits \<open>inttobase64\<close> stores, last one first as its loop does.\<close>

fun base64_digits :: "u32 \<Rightarrow> nat \<Rightarrow> string" where
  "base64_digits v 0 = []"
| "base64_digits v (Suc count) =
     base64_digits (drop_bit NUMNICKLOG v) count @ [convert2y ! unat (v AND NUMNICKMASK)]"

definition inttobase64 :: "char list \<Rightarrow> u32 \<Rightarrow> nat \<Rightarrow> char list res" where
  "inttobase64 buf v count =
     (if count < length buf then Inr (base64_digits v count @ NUL # drop (Suc count) buf)
      else Inl OutOfBounds)"

section \<open>State\<close>

record server =
  client_list :: "client option list"
  nn_mask :: u32
  nn_capacity :: "char list"

record nn_state =
  me :: client
  lastNNServer :: u32
  server_list :: "nat \<Rightarrow> client option"
  last_nn :: nat
  cli_yxx :: "client \<Rightarrow> char list"
  cli_serv :: "client \<Rightarrow> server option"
  cli_user_server :: "client \<Rightarrow> client"
  cli_name :: "client \<Rightarrow> string"
  flag_map :: "client \<Rightarrow> bool"

definition server_at :: "nn_state \<Rightarrow> nat \<Rightarrow> client option res" where
  "server_at st i = (if i < NN_MAX_SERVER then Inr (server_list st i) else Inl OutOfBounds)"

definition serv :: "nn_state \<Rightarrow> client \<Rightarrow> server res" where
  "serv st c = (case cli_serv st c of None \<Rightarrow> Inl NullDeref | Some s \<Rightarrow> Inr s)"

definition set_serv :: "client \<Rightarrow> server \<Rightarrow> nn_state \<Rightarrow> nn_state" where
  "set_serv c s st = st\<lparr>cli_serv := (cli_serv st)(c := Some s)\<rparr>"

definition set_yxx :: "client \<Rightarrow> char list \<Rightarrow> nn_state \<Rightarrow> nn_state" where
  "set_yxx c b st = st\<lparr>cli_yxx := (cli_yxx st)(c := b)\<rparr>"

definition client_at :: "server \<Rightarrow> nat \<Rightarrow> client option res" where
  "client_at s i = (if i < length (client_list s) then Inr (client_list s ! i)
                    else Inl OutOfBounds)"

section \<open>Lookup\<close>

definition FindXNServer :: "nn_state \<Rightarrow> string \<Rightarrow> client option res" where
  "FindXNServer st numeric =
     (case (rd numeric 0, rd numeric 1) of
        (Some a, Some b) \<Rightarrow> res_bind (base64toint [a, b, NUL]) (\<lambda>i. server_at st (unat i))
      | _ \<Rightarrow> Inl OutOfBounds)"

definition FindNServer :: "nn_state \<Rightarrow> string \<Rightarrow> client option res" where
  "FindNServer st numeric =
     (if length numeric < 3 then
        res_bind (base64toint (numeric @ [NUL])) (\<lambda>i. server_at st (unat i))
      else if length numeric = 3 then server_at st (unat (convert2n (numeric ! 0)))
      else FindXNServer st numeric)"

text \<open>\<open>slot s m\<close> is \<open>base64toint(m) & nn_mask\<close>, the index used into \<open>client_list\<close>.\<close>

definition slot :: "server \<Rightarrow> char list \<Rightarrow> nat res" where
  "slot s m = res_bind (base64toint m) (\<lambda>v. Inr (unat (v AND nn_mask s)))"

definition findNUser :: "nn_state \<Rightarrow> string \<Rightarrow> client option res" where
  "findNUser st yxx =
     (if length yxx = 5 then
        res_bind (FindXNServer st yxx) (\<lambda>sv. case sv of None \<Rightarrow> Inr None
          | Some srv \<Rightarrow> res_bind (serv st srv) (\<lambda>s.
              res_bind (slot s (drop 2 (yxx @ [NUL]))) (client_at s)))
      else
        res_bind (FindNServer st yxx) (\<lambda>sv. case sv of None \<Rightarrow> Inr None
          | Some srv \<Rightarrow> res_bind (serv st srv) (\<lambda>s.
              res_bind (slot s (drop 1 (yxx @ [NUL]))) (client_at s))))"

section \<open>Updates\<close>

definition set_client :: "server \<Rightarrow> nat \<Rightarrow> client option \<Rightarrow> server res" where
  "set_client s i c = (if i < length (client_list s)
     then Inr (s\<lparr>client_list := (client_list s)[i := c]\<rparr>) else Inl OutOfBounds)"

definition RemoveYXXClient :: "client \<Rightarrow> string \<Rightarrow> nn_state \<Rightarrow> nn_state res" where
  "RemoveYXXClient srv yxx st =
     (if yxx = [] then Inr st
      else res_bind (serv st srv) (\<lambda>s. res_bind (slot s (yxx @ [NUL])) (\<lambda>i.
        res_bind (set_client s i None) (\<lambda>s'. Inr (set_serv srv s' st)))))"

text \<open>What \<open>SetServerYXX\<close> stores in the two buffers: bounded copies, or single bytes.\<close>

definition SetServerYXX_buffers :: "char list \<Rightarrow> char list \<Rightarrow> string \<Rightarrow>
    (char list \<times> char list) res" where
  "SetServerYXX_buffers y cap yxx =
     (if length yxx = 5 then
        (case (ircd_strncpy y yxx 2, ircd_strncpy cap (drop 2 yxx) 3) of
           (Some y', Some cap') \<Rightarrow> Inr (y', cap')
         | _ \<Rightarrow> Inl OutOfBounds)
      else
        (case (rd yxx 0, rd yxx 1, rd yxx 2) of
           (Some a, Some b, Some c) \<Rightarrow>
             if 0 < length y \<and> 1 < length cap then Inr (y[0 := a], cap[0 := b, 1 := c])
             else Inl OutOfBounds
         | _ \<Rightarrow> Inl OutOfBounds))"

definition SetServerYXX :: "client \<Rightarrow> string \<Rightarrow> nn_state \<Rightarrow> nn_state res" where
  "SetServerYXX srv yxx st =
     res_bind (serv st srv) (\<lambda>s.
     res_bind (SetServerYXX_buffers (cli_yxx st srv) (nn_capacity s) yxx) (\<lambda>(y, cap).
     res_bind (base64toint cap) (\<lambda>msk.
     res_bind (base64toint y) (\<lambda>idx.
       if unat idx < NN_MAX_SERVER then
         (let lastn = (if idx \<ge> lastNNServer st then idx + 1 else lastNNServer st);
              s' = s\<lparr>nn_capacity := cap, nn_mask := msk,
                     client_list := replicate (unat msk + 1) None\<rparr>
          in Inr (set_serv srv s' (set_yxx srv y
               (st\<lparr>lastNNServer := lastn, server_list := (server_list st)(unat idx := Some srv)\<rparr>))))
       else Inl OutOfBounds))))"

text \<open>
  \<open>while (max_clients < capacity) max_clients <<= 1\<close>: the shift drops the top bit, so the
  loop need not end; \<open>None\<close> is not ending.
\<close>

partial_function (option) capacity_loop :: "u32 \<Rightarrow> u32 \<Rightarrow> u32 option" where
  "capacity_loop max_clients capacity =
     (if max_clients < capacity then capacity_loop (push_bit 1 max_clients) capacity
      else Some max_clients)"

definition SetYXXCapacity :: "client \<Rightarrow> u32 \<Rightarrow> nn_state \<Rightarrow> nn_state res option" where
  "SetYXXCapacity c capacity st =
     (case capacity_loop 16 capacity of
        None \<Rightarrow> None
      | Some max_clients \<Rightarrow> Some (
          if unat max_clients > NN_MAX_CLIENT then Inl Aborted
          else
            res_bind (serv st c) (\<lambda>s.
            res_bind (inttobase64 (nn_capacity s) (max_clients - 1) 3) (\<lambda>cap.
            res_bind (base64toint (cli_yxx st c)) (\<lambda>idx.
              if unat idx < NN_MAX_SERVER then
                Inr (set_serv c (s\<lparr>nn_capacity := cap, nn_mask := max_clients - 1,
                       client_list := replicate (unat (max_clients - 1) + 1) None\<rparr>)
                     (st\<lparr>server_list := (server_list st)(unat idx := Some c)\<rparr>))
              else Inl OutOfBounds)))))"

definition SetYXXServerName :: "client \<Rightarrow> u32 \<Rightarrow> nn_state \<Rightarrow> nn_state res" where
  "SetYXXServerName c numeric st =
     (if \<not> unat numeric < NN_MAX_SERVER then Inl Aborted
      else res_bind (inttobase64 (cli_yxx st c) numeric 2) (\<lambda>y.
        Inr (set_yxx c y (st\<lparr>
          lastNNServer := (if numeric \<ge> lastNNServer st then numeric + 1 else lastNNServer st),
          server_list := (server_list st)(unat numeric := Some c)\<rparr>))))"

definition ClearServerYXX :: "client \<Rightarrow> nn_state \<Rightarrow> nn_state res" where
  "ClearServerYXX srv st =
     res_bind (base64toint (cli_yxx st srv)) (\<lambda>idx.
     res_bind (server_at st (unat idx)) (\<lambda>x.
       if x = Some srv then Inr (st\<lparr>server_list := (server_list st)(unat idx := None)\<rparr>)
       else Inr st))"

text \<open>
  \<open>SetRemoteNumNick\<close> also returns the client it found in the slot, for which the source calls
  \<open>exit_client\<close> (a numeric collision) before it stores the new one.
\<close>

definition SetRemoteNumNick :: "client \<Rightarrow> string \<Rightarrow> nn_state \<Rightarrow> (nn_state \<times> client option) res" where
  "SetRemoteNumNick acptr yxx st =
     (let srv = cli_user_server st acptr;
          y = (if length yxx = 5 then
                 (if 3 < length (cli_yxx st acptr)
                  then Some (drop 2 yxx @ NUL # drop 4 (cli_yxx st acptr)) else None)
               else (case (rd yxx 1, rd yxx 2) of
                   (Some a, Some b) \<Rightarrow>
                     if 2 < length (cli_yxx st acptr)
                     then Some ((cli_yxx st acptr)[0 := a, 1 := b, 2 := NUL]) else None
                 | _ \<Rightarrow> None))
      in case y of None \<Rightarrow> Inl OutOfBounds
         | Some b \<Rightarrow>
           res_bind (serv st srv) (\<lambda>s.
           res_bind (slot s b) (\<lambda>i.
           res_bind (client_at s i) (\<lambda>ghost.
           res_bind (set_client s i (Some acptr)) (\<lambda>s'.
             Inr (set_serv srv s' (set_yxx acptr b st), ghost))))))"

text \<open>
  The search loop of \<open>SetLocalNumNick\<close>: \<open>k\<close> is \<open>NN_MAX_CLIENT - 1 - count\<close>, so that
  \<open>++count == NN_MAX_CLIENT\<close> is \<open>k = 0\<close>. There \<open>assert(count < NN_MAX_CLIENT)\<close> cannot hold, so
  the \<open>return 0\<close> after it is never reached.
\<close>

definition next_nn :: "nat \<Rightarrow> nat" where
  "next_nn n = (if Suc n = NN_MAX_CLIENT then 0 else Suc n)"

fun nn_search :: "client option list \<Rightarrow> u32 \<Rightarrow> nat \<Rightarrow> nat \<Rightarrow> nat res" where
  "nn_search cl msk lastn k =
     (let i = unat ((of_nat lastn :: u32) AND msk) in
      if \<not> i < length cl then Inl OutOfBounds
      else if cl ! i \<noteq> None then
        (case k of 0 \<Rightarrow> Inl Aborted | Suc k' \<Rightarrow> nn_search cl msk (next_nn lastn) k')
      else Inr lastn)"

declare nn_search.simps [simp del]

definition SetLocalNumNick :: "client \<Rightarrow> nn_state \<Rightarrow> (nn_state \<times> bool) res" where
  "SetLocalNumNick cptr st =
     res_bind (serv st (me st)) (\<lambda>s.
       if cli_user_server st cptr \<noteq> me st then Inl Aborted
       else
         res_bind (nn_search (client_list s) (nn_mask s) (last_nn st) (NN_MAX_CLIENT - 1)) (\<lambda>n.
         res_bind (set_client s (unat ((of_nat n :: u32) AND nn_mask s)) (Some cptr)) (\<lambda>s'.
         res_bind (inttobase64 (cli_yxx st cptr) (of_nat n) 3) (\<lambda>y.
           Inr (set_yxx cptr y (set_serv (me st) s' st)\<lparr>last_nn := next_nn n\<rparr>, True)))))"

text \<open>
  \<open>markMatchexServer\<close> and \<open>find_match_server\<close> walk \<open>server_list\<close> below \<open>lastNNServer\<close>;
  \<open>matches\<close> stands for the matcher applied to the msk.
\<close>

fun mark_loop :: "(string \<Rightarrow> bool) \<Rightarrow> nat list \<Rightarrow> nn_state \<Rightarrow> nn_state \<times> nat" where
  "mark_loop matches [] st = (st, 0)"
| "mark_loop matches (i # js) st =
     (case server_list st i of
        None \<Rightarrow> mark_loop matches js st
      | Some c \<Rightarrow>
          if \<not> matches (cli_name st c)
          then mark_loop matches js (st\<lparr>flag_map := (flag_map st)(c := False)\<rparr>)
          else (let (st', cnt) = mark_loop matches js (st\<lparr>flag_map := (flag_map st)(c := True)\<rparr>)
                in (st', Suc cnt)))"

definition markMatchexServer :: "(string \<Rightarrow> bool) \<Rightarrow> nn_state \<Rightarrow> nn_state \<times> nat" where
  "markMatchexServer matches st = mark_loop matches [0..<unat (lastNNServer st)] st"

definition find_match_server :: "(string \<Rightarrow> string \<Rightarrow> bool) \<Rightarrow> (string \<Rightarrow> string) \<Rightarrow> string
    \<Rightarrow> nn_state \<Rightarrow> client option" where
  "find_match_server matches coll msk st =
     (if msk = [] then None
      else map_option (\<lambda>i. the (server_list st i))
        (find (\<lambda>i. case server_list st i of None \<Rightarrow> False
                    | Some c \<Rightarrow> matches (coll msk) (cli_name st c))
          [0..<unat (lastNNServer st)]))"

section \<open>The base-64 notation\<close>

lemma length_convert2y: "length convert2y = 64"
  by (simp add: convert2y_def)

lemma convert2n_convert2y: "map convert2n convert2y = map of_nat [0..<64]"
  by (simp add: convert2y_def convert2n_def upt_rec Let_def)

lemma convert2n_nth: "n < 64 \<Longrightarrow> convert2n (convert2y ! n) = of_nat n"
  using arg_cong [OF convert2n_convert2y, of "\<lambda>xs. xs ! n"] by (simp add: length_convert2y)

text \<open>The characters that the comment on \<open>convert2y\<close> forbids in a numeric.\<close>

definition forbidden :: "char list" where
  "forbidden = [NUL, CHR '' '', CHR '':'', CHR ''+'', CHR ''&'', CHR ''#'', CHR ''$'',
     CHR ''@'', CHR ''%'']"

lemma convert2y_allowed: "set convert2y \<inter> set forbidden = {}"
  by (simp add: convert2y_def forbidden_def)

lemma unat_and_63: "unat (v AND NUMNICKMASK) < 64"
proof -
  have "v AND NUMNICKMASK = take_bit 6 v"
    by (simp add: NUMNICKMASK_def take_bit_eq_mask mask_eq_exp_minus_1)
  moreover have "unat (take_bit 6 v) < 2 ^ 6"
    using take_bit_nat_less_exp [of 6 "unat v"] by (simp add: unsigned_take_bit_eq)
  ultimately show ?thesis by simp
qed

lemma base64_digit_in: "convert2y ! unat (v AND NUMNICKMASK) \<in> set convert2y"
  using unat_and_63 by (simp add: length_convert2y)

lemma length_base64_digits [simp]: "length (base64_digits v count) = count"
  by (induction v count rule: base64_digits.induct) auto

lemma set_base64_digits: "set (base64_digits v count) \<subseteq> set convert2y"
  using base64_digit_in by (induction v count rule: base64_digits.induct) auto

lemma cstring_convert2y: "set s \<subseteq> set convert2y \<Longrightarrow> cstring s"
  using convert2y_allowed by (auto simp: cstring_def forbidden_def)

lemma cstring_base64_digits [simp]: "cstring (base64_digits v count)"
  by (rule cstring_convert2y) (rule set_base64_digits)

abbreviation b64_step :: "u32 \<Rightarrow> char \<Rightarrow> u32" where
  "b64_step i c \<equiv> push_bit NUMNICKLOG i + convert2n c"

lemma base64_loop_cstring: "cstring s \<Longrightarrow> base64_loop i (s @ NUL # r) = Inr (foldl b64_step i s)"
  by (induction s arbitrary: i) auto

lemma base64toint_cstring:
  "cstring s \<Longrightarrow> s \<noteq> [] \<Longrightarrow> base64toint (s @ NUL # r) = Inr (foldl b64_step 0 s)"
  by (cases s) (auto simp: base64toint_def base64_loop_cstring)

lemma convert2n_digit: "convert2n (convert2y ! unat (v AND NUMNICKMASK)) = take_bit 6 v"
  using convert2n_nth [OF unat_and_63 [of v]]
  by (simp add: NUMNICKMASK_def take_bit_eq_mask mask_eq_exp_minus_1)

lemma take_bit_split: "push_bit 6 (take_bit n (drop_bit 6 v)) + take_bit 6 v = take_bit (n + 6) v"
  for v :: u32
proof -
  have "push_bit 6 (drop_bit 6 (take_bit (n + 6) v)) + take_bit 6 (take_bit (n + 6) v)
      = take_bit (n + 6) v"
    by (rule bits_ident)
  then show ?thesis by (simp add: drop_bit_take_bit)
qed

lemma push_bit_add: "push_bit n (a + b) = push_bit n a + push_bit n b" for a b :: u32
  by (simp add: push_bit_eq_mult distrib_right)

lemma foldl_base64_digits:
  "foldl b64_step i (base64_digits v count) = push_bit (6 * count) i + take_bit (6 * count) v"
proof (induction v count rule: base64_digits.induct)
  case (2 v count)
  then show ?case
    using take_bit_split [of "6 * count" v]
    by (simp add: NUMNICKLOG_def convert2n_digit push_bit_add add.assoc add.commute [of 6])
qed simp

lemma base64toint_digits:
  "0 < count \<Longrightarrow> base64toint (base64_digits v count @ NUL # r) = Inr (take_bit (6 * count) v)"
  by (subst base64toint_cstring) (auto simp: foldl_base64_digits simp flip: length_0_conv)

text \<open>
  C39: Numeric round trip: decoding what \<open>inttobase64\<close> wrote gives the number back, for every
  number that \<open>count\<close> digits can hold; the digits use none of the characters the protocol
  reserves, so a numeric is never taken for a parameter separator, prefix or channel.
\<close>

theorem base64_roundtrip:
  assumes "0 < count" "count < length buf" "unat v < 64 ^ count"
  shows "\<exists>b. inttobase64 buf v count = Inr b \<and> base64toint b = Inr v
    \<and> length b = length buf \<and> set (cstr_of b) \<inter> set forbidden = {}"
proof -
  let ?b = "base64_digits v count @ NUL # drop (Suc count) buf"
  have "take_bit (6 * count) v = v"
  proof (rule word_unat_eq_iff [THEN iffD2])
    have "unat v < 2 ^ (6 * count)"
      using assms(3) by (simp add: power_mult)
    then show "unat (take_bit (6 * count) v) = unat v"
      by (simp add: unsigned_take_bit_eq take_bit_nat_eq_self_iff)
  qed
  then have "base64toint ?b = Inr v"
    using base64toint_digits [OF assms(1), of v] by simp
  moreover have "inttobase64 buf v count = Inr ?b"
    using assms by (simp add: inttobase64_def)
  moreover have "cstr_of ?b = base64_digits v count"
    by (rule cstr_of_append) simp
  moreover have "length ?b = length buf"
    using assms by simp
  ultimately show ?thesis
    using set_base64_digits [of v count] convert2y_allowed by auto
qed

theorem base64_roundtrip_witness:
  "\<exists>b. inttobase64 (replicate 4 NUL) 74565 3 = Inr b \<and> base64toint b = Inr 74565"
  using base64_roundtrip [of 3 "replicate 4 NUL" 74565] by auto

text \<open>A witness input for the lookups: server 1 (numeric \<open>AB\<close>) with 64 client slots.\<close>

definition nn_example :: nn_state where
  "nn_example = \<lparr>me = 1, lastNNServer = 2, server_list = (\<lambda>i. if i = 1 then Some 1 else None),
     last_nn = 0, cli_yxx = (\<lambda>c. if c = 1 then ''AB'' @ [NUL, NUL] else replicate 4 NUL),
     cli_serv = (\<lambda>c. if c = 1 then Some \<lparr>client_list = replicate 64 None, nn_mask = 63,
        nn_capacity = ''AA]'' @ [NUL]\<rparr> else None),
     cli_user_server = (\<lambda>_. 1), cli_name = (\<lambda>_. ''hub''), flag_map = (\<lambda>_. False)\<rparr>"

section \<open>Lookups stay in the tables\<close>

lemma unat_convert2n: "unat (convert2n c) < 64"
  by (auto simp: convert2n_def Let_def unat_of_nat simp del: of_nat_diff of_nat_add)

lemma convert2n_bound: "convert2n c < 64"
  using unat_convert2n [of c] by (simp add: word_less_nat_alt)

lemma unat_b64_step: "unat i < 64 \<Longrightarrow> unat (b64_step i c) < NN_MAX_SERVER"
proof -
  assume "unat i < 64"
  then have "unat (push_bit 6 i) = 64 * unat i"
    by (simp add: push_bit_eq_mult unat_word_ariths mult.commute)
  with \<open>unat i < 64\<close> unat_convert2n [of c] have "unat (push_bit 6 i) + unat (convert2n c) < 4096"
    by linarith
  then show ?thesis
    by (simp add: NN_MAX_SERVER_def NUMNICKLOG_def unat_word_ariths)
qed

lemma base64toint_two: "\<exists>i. base64toint [a, b, NUL] = Inr i \<and> unat i < NN_MAX_SERVER"
  using unat_b64_step [OF unat_convert2n, of a b] unat_convert2n [of a]
  by (auto simp: base64toint_def NN_MAX_SERVER_def)

lemma server_at_in [simp]: "i < NN_MAX_SERVER \<Longrightarrow> server_at st i = Inr (server_list st i)"
  by (simp add: server_at_def)

lemma FindXNServer_in: "2 \<le> length s \<Longrightarrow> \<exists>x. FindXNServer st s = Inr x"
  using base64toint_two [of "s ! 0" "s ! 1"] by (auto simp: FindXNServer_def rd_def)

text \<open>
  Every server lookup with a nonempty numeric, of whatever length and characters, stays
  inside the 4096 entries of \<open>server_list\<close> and inside the string.
\<close>

theorem FindNServer_in_bounds:
  assumes "cstring s" "s \<noteq> []"
  shows "\<exists>x. FindNServer st s = Inr x"
proof -
  consider a where "s = [a]" | a b where "s = [a, b]" | "length s = 3" | "3 < length s"
    using assms(2) by (cases s rule: remdups_adj.cases) (auto, metis Suc_lessI length_Cons
        length_greater_0_conv neq_Nil_conv numeral_3_eq_3)
  then show ?thesis
  proof cases
    case 1
    with assms show ?thesis
      using unat_convert2n [of a]
      by (simp add: FindNServer_def base64toint_def NN_MAX_SERVER_def)
  next
    case 2
    with base64toint_two [of a b] show ?thesis
      by (auto simp: FindNServer_def)
  next
    case 3
    then show ?thesis
      using unat_convert2n [of "s ! 0"] by (simp add: FindNServer_def NN_MAX_SERVER_def)
  next
    case 4
    then show ?thesis
      using FindXNServer_in [of s st] by (simp add: FindNServer_def)
  qed
qed

theorem FindNServer_in_bounds_witness:
  "cstring ''ABAAC'' \<and> ''ABAAC'' \<noteq> [] \<and> (\<exists>x. FindNServer nn_example ''ABAAC'' = Inr x)"
  using FindNServer_in_bounds [of "''ABAAC''" nn_example] by simp

text \<open>
  The client tables of a server: \<open>nn_mask\<close> is one less than a power of two and the table has
  \<open>nn_mask + 1\<close> entries.
\<close>

definition server_ok :: "server \<Rightarrow> bool" where
  "server_ok s \<longleftrightarrow> (\<exists>k \<le> 18. nn_mask s = mask k \<and> length (client_list s) = 2 ^ k)"

lemma unat_and_mask: "k \<le> 18 \<Longrightarrow> unat (w AND mask k) = unat w mod 2 ^ k" for w :: u32
proof -
  have "unat (w AND mask k) = take_bit k (unat w)"
    by (simp add: take_bit_eq_mask [symmetric] unsigned_take_bit_eq)
  then show ?thesis by (simp add: take_bit_eq_mod)
qed

lemma slot_in:
  "server_ok s \<Longrightarrow> slot s m = Inr i \<Longrightarrow> i < length (client_list s)"
  by (auto simp: server_ok_def slot_def res_bind_Inr_iff unat_and_mask)

lemma client_at_in [simp]: "i < length (client_list s) \<Longrightarrow> client_at s i = Inr (client_list s ! i)"
  by (simp add: client_at_def)

lemma set_client_in [simp]: "i < length (client_list s) \<Longrightarrow>
    set_client s i c = Inr (s\<lparr>client_list := (client_list s)[i := c]\<rparr>)"
  by (simp add: set_client_def)

lemma slot_cstring: "cstring m \<Longrightarrow> m \<noteq> [] \<Longrightarrow> \<exists>i. slot s (m @ NUL # r) = Inr i"
  by (simp add: slot_def base64toint_cstring)

text \<open>
  A user lookup with a numeric of at least two characters stays inside the string and
  inside the client table of the server it selects. With a numeric of one character that
  selects a server it does not: it decodes the empty string after the server digit and reads
  past the terminator.
\<close>

theorem findNUser_bounds:
  assumes "cstring s" "s \<noteq> []"
    "\<And>i srv. server_list st i = Some srv \<Longrightarrow> \<exists>x. cli_serv st srv = Some x \<and> server_ok x"
  shows "(2 \<le> length s \<longrightarrow> (\<exists>x. findNUser st s = Inr x))
    \<and> (length s = 1 \<longrightarrow> FindNServer st s = Inr (Some srv) \<longrightarrow> findNUser st s = Inl OutOfBounds)"
proof -
  have known: "\<exists>i. server_list st i = Some v"
    if "FindNServer st s = Inr (Some v) \<or> FindXNServer st s = Inr (Some v)" for v
    using that by (auto simp: FindNServer_def FindXNServer_def server_at_def res_bind_Inr_iff
        split: if_splits option.splits)
  have tail: "\<exists>x. res_bind (serv st v) (\<lambda>x. res_bind (slot x (drop n (s @ [NUL]))) (client_at x))
      = Inr x" if sl: "\<exists>i. server_list st i = Some v" and n: "n < length s" for v n
  proof -
    obtain x where x: "cli_serv st v = Some x" "server_ok x"
      using sl assms(3) by blast
    obtain i where "slot x (drop n s @ NUL # []) = Inr i"
      using slot_cstring [OF cstring_drop [OF assms(1)], of n x] n by auto
    with x slot_in [OF x(2) this] n show ?thesis by (simp add: serv_def)
  qed
  obtain y where y: "FindNServer st s = Inr y"
    using FindNServer_in_bounds [OF assms(1,2)] by blast
  have "\<exists>x. findNUser st s = Inr x" if two: "2 \<le> length s"
  proof (cases "length s = 5")
    case True
    obtain z where "FindXNServer st s = Inr z"
      using FindXNServer_in [OF two] by blast
    with True known tail [of _ 2] show ?thesis
      by (cases z) (auto simp: findNUser_def)
  next
    case False
    with y known tail [of _ 1] two show ?thesis
      by (cases y) (auto simp: findNUser_def)
  qed
  moreover have "findNUser st s = Inl OutOfBounds"
    if one: "length s = 1" and srv: "FindNServer st s = Inr (Some srv)"
  proof -
    obtain x where "cli_serv st srv = Some x"
      using known [of srv] srv assms(3) by blast
    moreover have "drop (Suc 0) (s @ [NUL]) = [NUL]"
      using one by simp
    ultimately show ?thesis
      using one srv by (simp add: findNUser_def serv_def slot_def base64toint_def)
  qed
  ultimately show ?thesis by blast
qed

theorem findNUser_bounds_witness:
  "(\<exists>x. findNUser nn_example ''ABAAC'' = Inr x) \<and> findNUser nn_example ''B'' = Inl OutOfBounds"
proof -
  have ok: "\<exists>x. cli_serv nn_example srv = Some x \<and> server_ok x"
    if "server_list nn_example i = Some srv" for i srv
    using that by (auto simp: nn_example_def server_ok_def mask_eq_exp_minus_1 intro!: exI [of _ 6]
        split: if_splits)
  have B: "FindNServer nn_example ''B'' = Inr (Some 1)"
    by (simp add: FindNServer_def base64toint_def convert2n_def nn_example_def NN_MAX_SERVER_def)
  show ?thesis
    using findNUser_bounds [of "''ABAAC''" nn_example 1] findNUser_bounds [of "''B''" nn_example 1]
      ok B by simp
qed

section \<open>Capacity of the local client table\<close>

lemma unat_pow2:
  assumes "j \<le> 31"
  shows "unat ((2::u32) ^ j) = 2 ^ j"
proof -
  have "(2::nat) ^ j < 2 ^ 32"
    using assms by (intro power_strict_increasing) auto
  then have "unat (of_nat (2 ^ j) :: u32) = 2 ^ j"
    by (subst unat_of_nat) simp
  then show ?thesis by simp
qed

lemma capacity_loop_pow2:
  "j \<le> 31 \<Longrightarrow> unat c \<le> 2 ^ 31 \<Longrightarrow>
   \<exists>k. j \<le> k \<and> k \<le> 31 \<and> capacity_loop (2 ^ j) c = Some (2 ^ k) \<and> unat c \<le> 2 ^ k
     \<and> (k = j \<or> 2 ^ (k - 1) < unat c)"
proof (induction "31 - j" arbitrary: j rule: less_induct)
  case less
  show ?case
  proof (cases "(2::u32) ^ j < c")
    case False
    then have "unat c \<le> 2 ^ j"
      using unat_pow2 [OF less.prems(1)] by (simp add: not_less word_le_nat_alt)
    with False less.prems(1) show ?thesis
      by (auto simp: capacity_loop.simps intro!: exI [of _ j])
  next
    case True
    then have lt: "2 ^ j < unat c"
      using unat_pow2 [OF less.prems(1)] by (simp add: word_less_nat_alt)
    then have "(2::nat) ^ j < 2 ^ 31"
      using less.prems(2) by linarith
    then have j: "j < 31"
      by (rule power_less_imp_less_exp [rotated]) simp
    then obtain k where "Suc j \<le> k" "k \<le> 31" "capacity_loop (2 ^ Suc j) c = Some (2 ^ k)"
      "unat c \<le> 2 ^ k" "k = Suc j \<or> 2 ^ (k - 1) < unat c"
      using less.hyps [of "Suc j", OF diff_less_mono2 [OF lessI j]] less.prems(2)
      by (metis Suc_leI)
    moreover have "capacity_loop (2 ^ j) c = capacity_loop (2 ^ Suc j) c"
      using True by (subst capacity_loop.simps) (simp add: push_bit_eq_mult mult.commute)
    ultimately show ?thesis
      using lt by (auto intro!: exI [of _ k])
  qed
qed

lemma capacity_loop_bound:
  assumes ret: "capacity_loop x c = Some r"
  shows "(x = 0 \<or> (\<exists>j \<le> 31. x = 2 ^ j)) \<longrightarrow> unat r \<le> 2 ^ 31 \<and> c \<le> r"
proof (rule capacity_loop.raw_induct [where P = "\<lambda>x c r.
    (x = 0 \<or> (\<exists>j \<le> 31. x = 2 ^ j)) \<longrightarrow> unat r \<le> 2 ^ 31 \<and> c \<le> r", OF _ ret])
  fix f and x c r :: u32
  assume IH: "\<And>x c r. f x c = Some r \<Longrightarrow>
      (x = 0 \<or> (\<exists>j \<le> 31. x = 2 ^ j)) \<longrightarrow> unat r \<le> 2 ^ 31 \<and> c \<le> r"
    and eq: "(if x < c then f (push_bit 1 x) c else Some x) = Some r"
  have small: "unat x \<le> 2 ^ 31" if "x = 0 \<or> (\<exists>j \<le> 31. x = 2 ^ j)"
  proof -
    have "(2::nat) ^ j \<le> 2 ^ 31" if "j \<le> 31" for j
      using that by (rule power_increasing) simp
    with that show ?thesis by (auto simp: unat_pow2)
  qed
  have next_x: "push_bit 1 x = 0 \<or> (\<exists>j \<le> 31. push_bit 1 x = 2 ^ j)"
    if "x = 0 \<or> (\<exists>j \<le> 31. x = 2 ^ j)"
    using that
  proof (elim disjE exE conjE)
    fix j :: nat
    assume j: "j \<le> 31" "x = 2 ^ j"
    show ?thesis
    proof (cases "j = 31")
      case True
      with j show ?thesis by (simp add: push_bit_eq_mult)
    next
      case False
      with j have "Suc j \<le> 31 \<and> push_bit 1 x = 2 ^ Suc j"
        by (simp add: push_bit_eq_mult)
      then show ?thesis by blast
    qed
  qed simp
  show "(x = 0 \<or> (\<exists>j \<le> 31. x = 2 ^ j)) \<longrightarrow> unat r \<le> 2 ^ 31 \<and> c \<le> r"
  proof (cases "x < c")
    case True
    with eq have "f (push_bit 1 x) c = Some r" by simp
    with IH next_x show ?thesis by blast
  next
    case False
    with eq have "r = x" "c \<le> r" by auto
    with small show ?thesis by blast
  qed
qed

text \<open>
  \<open>SetYXXCapacity\<close>: up to 262144 clients the local table gets a power of two of entries,
  at least 16 and at least as many as asked for, and the capacity announced to other servers
  decodes to its mask; above that, and up to \<open>2^31\<close>, the program exits; above \<open>2^31\<close> the
  doubling loop never ends.
\<close>

theorem SetYXXCapacity_cases:
  assumes s: "cli_serv st c = Some s" "length (nn_capacity s) = 4"
    and idx: "base64toint (cli_yxx st c) = Inr i" "unat i < NN_MAX_SERVER"
  shows "(unat capacity \<le> NN_MAX_CLIENT \<longrightarrow>
      (\<exists>st' s'. SetYXXCapacity c capacity st = Some (Inr st') \<and> cli_serv st' c = Some s'
        \<and> server_ok s' \<and> max 16 (unat capacity) \<le> length (client_list s')
        \<and> base64toint (nn_capacity s') = Inr (nn_mask s') \<and> server_list st' (unat i) = Some c))
   \<and> (NN_MAX_CLIENT < unat capacity \<and> unat capacity \<le> 2 ^ 31 \<longrightarrow>
      SetYXXCapacity c capacity st = Some (Inl Aborted))
   \<and> (2 ^ 31 < unat capacity \<longrightarrow> SetYXXCapacity c capacity st = None)"
proof (intro conjI impI)
  have sixteen: "(16::u32) = 2 ^ 4" by simp
  {
    assume small: "unat capacity \<le> NN_MAX_CLIENT"
    then have "unat capacity \<le> 2 ^ 31" by (simp add: NN_MAX_CLIENT_def)
    then obtain k where k: "4 \<le> k" "k \<le> 31" "capacity_loop 16 capacity = Some (2 ^ k)"
      "unat capacity \<le> 2 ^ k" "k = 4 \<or> 2 ^ (k - 1) < unat capacity"
      using capacity_loop_pow2 [of 4 capacity] by auto
    have k18: "k \<le> 18"
    proof (rule ccontr)
      assume "\<not> k \<le> 18"
      then have "(2::nat) ^ 18 \<le> 2 ^ (k - 1)" by (intro power_increasing) auto
      with k(5) small \<open>\<not> k \<le> 18\<close> show False by (auto simp: NN_MAX_CLIENT_def)
    qed
    have p18: "(2::nat) ^ k \<le> 2 ^ 18" using k18 by (intro power_increasing) auto
    have u: "unat ((2::u32) ^ k - 1) = 2 ^ k - 1"
      using unat_pow2 [OF k(2)] by (simp add: unat_sub_if_size)
    obtain b where b: "inttobase64 (nn_capacity s) (2 ^ k - 1) 3 = Inr b"
      "base64toint b = Inr (2 ^ k - 1)"
    proof -
      have "unat ((2::u32) ^ k - 1) < 64 ^ 3"
        unfolding u using p18 by (simp add: less_eq_Suc_le)
      then show ?thesis
        using base64_roundtrip [of 3 "nn_capacity s" "2 ^ k - 1"] s(2) that by auto
    qed
    have "\<not> NN_MAX_CLIENT < unat ((2::u32) ^ k)"
      using unat_pow2 [OF k(2)] p18 by (simp add: NN_MAX_CLIENT_def)
    then have "SetYXXCapacity c capacity st = Some (Inr (set_serv c (s\<lparr>nn_capacity := b,
         nn_mask := 2 ^ k - 1, client_list := replicate (2 ^ k) None\<rparr>)
         (st\<lparr>server_list := (server_list st)(unat i := Some c)\<rparr>)))"
      using k(3) s(1) idx b u by (simp add: SetYXXCapacity_def serv_def)
    moreover have "(16::nat) \<le> 2 ^ k"
      using power_increasing [of 4 k "2::nat"] k(1) by simp
    ultimately show "\<exists>st' s'. SetYXXCapacity c capacity st = Some (Inr st') \<and>
        cli_serv st' c = Some s' \<and> server_ok s' \<and>
        max 16 (unat capacity) \<le> length (client_list s') \<and>
        base64toint (nn_capacity s') = Inr (nn_mask s') \<and> server_list st' (unat i) = Some c"
      using k18 b(2) k(4)
      by (auto simp: set_serv_def server_ok_def mask_eq_exp_minus_1)
  next
    assume big: "NN_MAX_CLIENT < unat capacity \<and> unat capacity \<le> 2 ^ 31"
    then obtain k where k: "k \<le> 31" "capacity_loop 16 capacity = Some (2 ^ k)"
      "unat capacity \<le> 2 ^ k"
      using capacity_loop_pow2 [of 4 capacity] by auto
    with big show "SetYXXCapacity c capacity st = Some (Inl Aborted)"
      by (simp add: SetYXXCapacity_def unat_pow2)
  next
    assume huge: "2 ^ 31 < unat capacity"
    have "capacity_loop 16 capacity = None"
    proof (rule ccontr)
      assume "capacity_loop 16 capacity \<noteq> None"
      then obtain r where r: "capacity_loop 16 capacity = Some r" by auto
      have "\<exists>j\<le>31. (16::u32) = 2 ^ j"
        using sixteen by (intro exI [of _ 4]) simp
      with capacity_loop_bound [OF r] huge show False
        by (simp add: word_le_nat_alt)
    qed
    then show "SetYXXCapacity c capacity st = None"
      by (simp add: SetYXXCapacity_def)
  }
qed

theorem SetYXXCapacity_cases_witness:
  "(\<exists>st'. SetYXXCapacity 1 100 nn_example = Some (Inr st')) \<and>
   SetYXXCapacity 1 300000 nn_example = Some (Inl Aborted) \<and>
   SetYXXCapacity 1 0x80000001 nn_example = None"
proof -
  have i: "base64toint (cli_yxx nn_example 1) = Inr 1" "unat (1 :: u32) < NN_MAX_SERVER"
    by (simp_all add: nn_example_def base64toint_def convert2n_def NN_MAX_SERVER_def)
  note th = SetYXXCapacity_cases [where st = nn_example and c = 1, OF _ _ i]
  show ?thesis
    using th [of "the (cli_serv nn_example 1)" 100] th [of "the (cli_serv nn_example 1)" 300000]
      th [of "the (cli_serv nn_example 1)" "0x80000001"]
    by (auto simp: nn_example_def NN_MAX_CLIENT_def)
qed

section \<open>Numerics for local clients\<close>

lemma next_nn_iter: "n < NN_MAX_CLIENT \<Longrightarrow> (next_nn ^^ i) n = (n + i) mod NN_MAX_CLIENT"
proof (induction i)
  case (Suc i)
  then have "(next_nn ^^ Suc i) n = next_nn ((n + i) mod NN_MAX_CLIENT)" by simp
  also have "\<dots> = (n + Suc i) mod NN_MAX_CLIENT"
    by (simp add: next_nn_def mod_Suc NN_MAX_CLIENT_def)
  finally show ?case .
qed simp

lemma next_nn_less: "n < NN_MAX_CLIENT \<Longrightarrow> next_nn n < NN_MAX_CLIENT"
  by (auto simp: next_nn_def)

text \<open>With \<open>2^k\<close> slots the loop looks at slot \<open>n mod 2^k\<close>.\<close>

lemma slot_mod: "k \<le> 18 \<Longrightarrow> n < NN_MAX_CLIENT \<Longrightarrow>
    unat ((of_nat n :: u32) AND mask k) = n mod 2 ^ k"
  by (simp add: unat_and_mask unat_of_nat NN_MAX_CLIENT_def)

lemma nn_search_unfold:
  assumes "k \<le> 18" "length cl = 2 ^ k" "n < NN_MAX_CLIENT"
  shows "nn_search cl (mask k) n j =
    (if cl ! (n mod 2 ^ k) \<noteq> None
     then (case j of 0 \<Rightarrow> Inl Aborted | Suc j' \<Rightarrow> nn_search cl (mask k) (next_nn n) j')
     else Inr n)"
  using assms by (subst nn_search.simps) (simp add: slot_mod)

lemma nn_search_result:
  assumes "k \<le> 18" "length cl = 2 ^ k" "n < NN_MAX_CLIENT"
  shows "(\<exists>m. nn_search cl (mask k) n j = Inr m \<and> m < NN_MAX_CLIENT
            \<and> cl ! (m mod 2 ^ k) = None)
       \<or> nn_search cl (mask k) n j = Inl Aborted
            \<and> (\<forall>i \<le> j. cl ! ((next_nn ^^ i) n mod 2 ^ k) \<noteq> None)"
  using assms(3)
proof (induction j arbitrary: n)
  case 0
  then show ?case using nn_search_unfold [OF assms(1,2) 0] by auto
next
  case (Suc j)
  have step: "(\<forall>i \<le> Suc j. P ((next_nn ^^ i) n)) \<longleftrightarrow>
      P n \<and> (\<forall>i \<le> j. P ((next_nn ^^ i) (next_nn n)))" for P
    by (auto simp: funpow_swap1 All_less_Suc2 simp flip: less_Suc_eq_le)
  show ?case
    using Suc.IH [OF next_nn_less [OF Suc.prems]] nn_search_unfold [OF assms(1,2) Suc.prems, of "Suc j"]
      step [of "\<lambda>m. cl ! (m mod 2 ^ k) \<noteq> None"] Suc.prems
    by auto
qed

text \<open>After \<open>NN_MAX_CLIENT\<close> numbers every slot has been looked at.\<close>

lemma nn_search_full:
  assumes "k \<le> 18" "length cl = 2 ^ k" "n < NN_MAX_CLIENT"
    and "\<forall>i \<le> NN_MAX_CLIENT - 1. cl ! ((next_nn ^^ i) n mod 2 ^ k) \<noteq> None"
  shows "None \<notin> set cl"
proof
  assume "None \<in> set cl"
  then obtain j where j: "j < 2 ^ k" "cl ! j = None"
    using assms(2) by (auto simp: in_set_conv_nth)
  have "(2::nat) ^ k \<le> 2 ^ 18"
    using assms(1) by (intro power_increasing) auto
  with j have "j < NN_MAX_CLIENT" by (simp add: NN_MAX_CLIENT_def)
  then have "(n + (j + NN_MAX_CLIENT - n) mod NN_MAX_CLIENT) mod NN_MAX_CLIENT = j"
    using assms(3) by (simp add: mod_simps)
  moreover have "(j + NN_MAX_CLIENT - n) mod NN_MAX_CLIENT \<le> NN_MAX_CLIENT - 1"
    by (simp add: NN_MAX_CLIENT_def)
  ultimately show False
    using assms(3,4) j by (auto simp: next_nn_iter)
qed

text \<open>A full five-character numeric selects the slot of its client digits.\<close>

lemma take_bit_small: "unat v < 2 ^ n \<Longrightarrow> take_bit n v = v" for v :: u32
  by (rule word_unat_eq_iff [THEN iffD2])
    (simp add: unsigned_take_bit_eq take_bit_nat_eq_self_iff)

lemma findNUser_digits:
  assumes "unat num < NN_MAX_SERVER" "unat v < NN_MAX_CLIENT"
    "server_list st (unat num) = Some srv" "cli_serv st srv = Some s"
  shows "findNUser st (base64_digits num 2 @ base64_digits v 3)
    = client_at s (unat (v AND nn_mask s))"
proof -
  obtain a b where ab: "base64_digits num 2 = [a, b]"
    by (auto simp: numeral_2_eq_2)
  have "base64toint [a, b, NUL] = Inr num"
    using base64toint_digits [of 2 num "[]"] take_bit_small [of num 12] assms(1) ab
    by (simp add: NN_MAX_SERVER_def)
  then have "FindXNServer st ([a, b] @ base64_digits v 3) = Inr (Some srv)"
    using assms(1,3) by (simp add: FindXNServer_def rd_def)
  moreover have "slot s (base64_digits v 3 @ [NUL]) = Inr (unat (v AND nn_mask s))"
    using base64toint_digits [of 3 v "[]"] take_bit_small [of v 18] assms(2)
    by (simp del: base64_digits.simps add: slot_def NN_MAX_CLIENT_def)
  ultimately show ?thesis
    using assms(4) ab by (simp del: base64_digits.simps add: findNUser_def serv_def)
qed

text \<open>
  C40: Registering a local client: while the table of this server has a free slot the client
  gets one, no other client's slot changes, and its numeric is the three digits from which
  \<open>findNUser\<close> finds it back; when every slot is taken the search stops at the assertion in the
  loop, which ends the program before the call could return 0.
\<close>

theorem SetLocalNumNick_correct:
  assumes s: "cli_serv st (me st) = Some s" "server_ok s"
    and l: "last_nn st < NN_MAX_CLIENT" "length (cli_yxx st c) = 4" "c \<noteq> me st"
      "cli_user_server st c = me st"
    and y: "cli_yxx st (me st) = base64_digits num 2 @ [NUL, NUL]"
      "server_list st (unat num) = Some (me st)" "unat num < NN_MAX_SERVER"
  shows "(None \<in> set (client_list s) \<longrightarrow> (\<exists>st' s' n. SetLocalNumNick c st = Inr (st', True)
      \<and> client_list s ! n = None \<and> n < length (client_list s)
      \<and> cli_serv st' (me st) = Some s' \<and> client_list s' = (client_list s)[n := Some c]
      \<and> length (cstr_of (cli_yxx st' c)) = 3
      \<and> findNUser st' (cstr_of (cli_yxx st' (me st)) @ cstr_of (cli_yxx st' c)) = Inr (Some c)))
   \<and> (None \<notin> set (client_list s) \<longrightarrow> SetLocalNumNick c st = Inl Aborted)"
proof -
  obtain k where k: "k \<le> 18" "nn_mask s = mask k" "length (client_list s) = 2 ^ k"
    using s(2) by (auto simp: server_ok_def)
  let ?r = "nn_search (client_list s) (nn_mask s) (last_nn st) (NN_MAX_CLIENT - 1)"
  from nn_search_result [OF k(1,3) l(1), of "NN_MAX_CLIENT - 1"]
  consider (free) m where "?r = Inr m" "m < NN_MAX_CLIENT" "client_list s ! (m mod 2 ^ k) = None"
    | (full) "?r = Inl Aborted" "None \<notin> set (client_list s)"
    using nn_search_full [OF k(1,3) l(1)] k(2) by auto
  then show ?thesis
  proof cases
    case free
    let ?n = "m mod 2 ^ k"
    let ?s' = "s\<lparr>client_list := (client_list s)[?n := Some c]\<rparr>"
    let ?y = "base64_digits (of_nat m) 3 @ NUL # drop 4 (cli_yxx st c)"
    let ?st' = "set_yxx c ?y (set_serv (me st) ?s' st)\<lparr>last_nn := next_nn m\<rparr>"
    have n: "?n < length (client_list s)" "unat ((of_nat m :: u32) AND nn_mask s) = ?n"
      using k free(2) by (simp_all add: slot_mod)
    have "inttobase64 (cli_yxx st c) (of_nat m) 3 = Inr ?y"
      using l(2) by (simp add: inttobase64_def)
    then have run: "SetLocalNumNick c st = Inr (?st', True)"
      using s(1) free(1) n l(4) by (simp add: SetLocalNumNick_def serv_def)
    have yc: "cstr_of (cli_yxx ?st' c) = base64_digits (of_nat m) 3"
      unfolding set_yxx_def by (simp del: base64_digits.simps add: cstr_of_append)
    have ym: "cstr_of (cli_yxx ?st' (me st)) = base64_digits num 2"
      using y(1) l(3) cstr_of_append [of "base64_digits num 2" "[NUL]"]
      unfolding set_yxx_def set_serv_def by (simp del: base64_digits.simps)
    have "unat (of_nat m :: u32) < NN_MAX_CLIENT"
      using free(2) by (simp add: unat_of_nat NN_MAX_CLIENT_def)
    then have "findNUser ?st' (base64_digits num 2 @ base64_digits (of_nat m) 3) = Inr (Some c)"
      using findNUser_digits [of num "of_nat m" ?st' "me st" ?s'] y(2,3) n
      by (simp del: base64_digits.simps add: set_yxx_def set_serv_def)
    with run yc ym free n(1) have "\<exists>st' s' n. SetLocalNumNick c st = Inr (st', True)
      \<and> client_list s ! n = None \<and> n < length (client_list s)
      \<and> cli_serv st' (me st) = Some s' \<and> client_list s' = (client_list s)[n := Some c]
      \<and> length (cstr_of (cli_yxx st' c)) = 3
      \<and> findNUser st' (cstr_of (cli_yxx st' (me st)) @ cstr_of (cli_yxx st' c)) = Inr (Some c)"
      by (intro exI [of _ ?st'] exI [of _ ?s'] exI [of _ ?n])
        (simp del: base64_digits.simps add: set_yxx_def set_serv_def)
    moreover have "None \<in> set (client_list s)"
      using n(1) free(3) nth_mem by metis
    ultimately show ?thesis by blast
  next
    case full
    with s(1) l(4) show ?thesis by (simp add: SetLocalNumNick_def serv_def)
  qed
qed

theorem SetLocalNumNick_correct_witness:
  "\<exists>st'. SetLocalNumNick 7 nn_example = Inr (st', True) \<and>
     findNUser st' (cstr_of (cli_yxx st' 1) @ cstr_of (cli_yxx st' 7)) = Inr (Some 7)"
proof -
  let ?s = "the (cli_serv nn_example 1)"
  have "server_ok ?s"
    by (auto simp: nn_example_def server_ok_def mask_eq_exp_minus_1 intro!: exI [of _ 6])
  moreover have "cli_yxx nn_example 1 = base64_digits 1 2 @ [NUL, NUL]"
    by (simp add: nn_example_def numeral_2_eq_2 NUMNICKMASK_def NUMNICKLOG_def convert2y_def)
  ultimately show ?thesis
    using SetLocalNumNick_correct [of nn_example ?s 7 1]
    by (auto simp del: base64_digits.simps
        simp: nn_example_def NN_MAX_CLIENT_def NN_MAX_SERVER_def)
qed

end
