(* ===== verification/Dbuf.thy ===== *)
theory Dbuf
  imports Chattr
begin

text \<open>
  Receive buffers (\<open>ircd/dbuf.c\<close>): a byte queue over a chain of 2048-byte blocks taken from
  a bounded pool.

  A \<open>struct DBufBuffer\<close> is the bytes written to \<open>data[0 .. end)\<close> and the offset of \<open>start\<close>:
  nothing at or after \<open>end\<close> is ever read. The \<open>next\<close> pointers from \<open>head\<close> to \<open>tail\<close> are the
  list \<open>bufs\<close>; \<open>tail\<close> is its last element. Blocks on the free list have no contents of
  interest (\<open>dbuf_put\<close> resets a block it takes), so the list is its length.
  \<open>flush_connections\<close> (\<open>send.c\<close>) is an argument of \<open>dbuf_put\<close>: it may return blocks of other
  clients to the pool.
\<close>

section \<open>State\<close>

definition DBUF_SIZE :: nat where "DBUF_SIZE = 2048"

record pool =
  DBufAllocCount :: nat
  DBufUsedCount :: nat
  dbufFreeList :: nat

record DBufBuffer =
  db_start :: nat
  db_bytes :: "char list"

record DBuf =
  dyn_length :: nat
  bufs :: "DBufBuffer list"

definition db_content :: "DBufBuffer \<Rightarrow> char list" where
  "db_content db = drop (db_start db) (db_bytes db)"

section \<open>Operations\<close>

definition dbuf_count_memory :: "nat \<Rightarrow> pool \<Rightarrow> nat \<times> nat" where
  "dbuf_count_memory sizeof_buffer p =
     (DBufAllocCount p * sizeof_buffer, DBufUsedCount p * sizeof_buffer)"

text \<open>\<open>bufferpool\<close> is the feature \<open>FEAT_BUFFERPOOL\<close>.\<close>

definition dbuf_alloc :: "nat \<Rightarrow> pool \<Rightarrow> pool option" where
  "dbuf_alloc bufferpool p =
     (if 0 < dbufFreeList p then
        Some (p\<lparr>dbufFreeList := dbufFreeList p - 1, DBufUsedCount := Suc (DBufUsedCount p)\<rparr>)
      else if DBufAllocCount p * DBUF_SIZE < bufferpool then
        Some (p\<lparr>DBufAllocCount := Suc (DBufAllocCount p), DBufUsedCount := Suc (DBufUsedCount p)\<rparr>)
      else None)"

definition dbuf_free :: "pool \<Rightarrow> pool" where
  "dbuf_free p = p\<lparr>DBufUsedCount := DBufUsedCount p - 1, dbufFreeList := Suc (dbufFreeList p)\<rparr>"

definition dbuf_malloc_error :: "nat \<Rightarrow> pool \<Rightarrow> pool" where
  "dbuf_malloc_error n p = (dbuf_free ^^ n) p"

record put_env =
  env_bufferpool :: nat
  env_flusher :: bool
  env_flush_connections :: "pool \<Rightarrow> pool"

text \<open>The allocation in \<open>dbuf_put\<close>, with the second attempt after a flush.\<close>

definition put_alloc :: "put_env \<Rightarrow> pool \<Rightarrow> pool \<times> bool" where
  "put_alloc e p =
     (case dbuf_alloc (env_bufferpool e) p of
        Some p' \<Rightarrow> (p', True)
      | None \<Rightarrow>
          if env_flusher e then
            (let q = env_flush_connections e p in
             case dbuf_alloc (env_bufferpool e) q of Some q' \<Rightarrow> (q', True) | None \<Rightarrow> (q, False))
          else (p, False))"

definition db_fill :: "DBufBuffer \<Rightarrow> char list \<Rightarrow> DBufBuffer \<times> char list" where
  "db_fill db data =
     (let chunk = min (DBUF_SIZE - length (db_bytes db)) (length data)
      in (db\<lparr>db_bytes := db_bytes db @ take chunk data\<rparr>, drop chunk data))"

text \<open>
  The loop of \<open>dbuf_put\<close>: the chain from \<open>h\<close> on and the bytes left. The result is the new
  chain and whether every byte was stored.
\<close>

function put_loop :: "put_env \<Rightarrow> pool \<Rightarrow> DBufBuffer list \<Rightarrow> char list
    \<Rightarrow> pool \<times> DBufBuffer list \<times> bool" where
  "put_loop e p chain data =
     (if data = [] then (p, chain, True)
      else case chain of
        [] \<Rightarrow>
          (let (p', ok) = put_alloc e p in
           if ok then
             (let (db, data') = db_fill \<lparr>db_start = 0, db_bytes = []\<rparr> data;
                  (p'', rest, done) = put_loop e p' [] data'
              in (p'', db # rest, done))
           else (p', [], False))
      | b # bs \<Rightarrow>
          (let (db, data') = db_fill b data;
               (p'', rest, done) = put_loop e p bs data'
           in (p'', db # rest, done)))"
  by pat_completeness auto
termination
  by (relation "measure (\<lambda>(e, p, chain, data). length data + length chain)")
    (auto simp: db_fill_def DBUF_SIZE_def Let_def)

declare put_loop.simps [simp del]

definition dbuf_put :: "put_env \<Rightarrow> pool \<Rightarrow> DBuf \<Rightarrow> char list \<Rightarrow> pool \<times> DBuf \<times> bool" where
  "dbuf_put e p dyn buf =
     (let (before, chain) = (if dyn_length dyn = 0 then ([], bufs dyn)
                             else (butlast (bufs dyn), [last (bufs dyn)]));
          (p', chain', done) = put_loop e p chain buf
      in if done then (p', \<lparr>dyn_length = dyn_length dyn + length buf, bufs = before @ chain'\<rparr>, True)
         else (dbuf_malloc_error (length (before @ chain')) p', \<lparr>dyn_length = 0, bufs = []\<rparr>, False))"

text \<open>\<open>dbuf_map\<close>: the first block (\<open>None\<close> is the NULL it returns for an empty buffer).\<close>

definition dbuf_map :: "DBuf \<Rightarrow> char list option res" where
  "dbuf_map dyn =
     (if dyn_length dyn = 0 then Inr None
      else case bufs dyn of [] \<Rightarrow> Inl NullDeref | b # _ \<Rightarrow> Inr (Some (db_content b)))"

function delete_loop :: "pool \<Rightarrow> nat \<Rightarrow> DBufBuffer list \<Rightarrow> nat \<Rightarrow> pool \<times> nat \<times> DBufBuffer list" where
  "delete_loop p len chain n =
     (if n = 0 then (p, len, chain)
      else case chain of [] \<Rightarrow> (p, len, [])
      | db # rest \<Rightarrow>
          (let chunk = min (length (db_content db)) n;
               db' = db\<lparr>db_start := db_start db + chunk\<rparr>
           in if db_content db' = [] then delete_loop (dbuf_free p) (len - chunk) rest (n - chunk)
              else delete_loop p (len - chunk) (db' # rest) (n - chunk)))"
  by pat_completeness auto
termination
  by (relation "measure (\<lambda>(p, len, chain, n). length chain + n)") (auto simp: db_content_def)

declare delete_loop.simps [simp del]

definition dbuf_delete :: "pool \<Rightarrow> DBuf \<Rightarrow> nat \<Rightarrow> pool \<times> DBuf" where
  "dbuf_delete p dyn len =
     (let n = min len (dyn_length dyn);
          (p', l', chain) = delete_loop p (dyn_length dyn) (bufs dyn) n
      in if chain = [] then (p', \<lparr>dyn_length = 0, bufs = []\<rparr>)
         else (p', \<lparr>dyn_length = l', bufs = chain\<rparr>))"

text \<open>\<open>dbuf_get\<close>: \<open>None\<close> is a loop that does not end.\<close>

partial_function (option) get_loop :: "pool \<Rightarrow> DBuf \<Rightarrow> nat \<Rightarrow> char list
    \<Rightarrow> (pool \<times> DBuf \<times> char list) res option" where
  "get_loop p dyn len moved =
     (if len = 0 then Some (Inr (p, dyn, moved))
      else case dbuf_map dyn of
        Inl e \<Rightarrow> Some (Inl e)
      | Inr None \<Rightarrow> Some (Inr (p, dyn, moved))
      | Inr (Some b) \<Rightarrow>
          (let chunk = min (length b) len in
           get_loop (fst (dbuf_delete p dyn chunk)) (snd (dbuf_delete p dyn chunk))
             (len - chunk) (moved @ take chunk b)))"

definition dbuf_get :: "pool \<Rightarrow> DBuf \<Rightarrow> nat \<Rightarrow> (pool \<times> DBuf \<times> char list) res option" where
  "dbuf_get p dyn len = get_loop p dyn len []"

text \<open>\<open>dbuf_flush\<close>: reading \<open>*db->start\<close> of an empty block is outside its bytes.\<close>

function flush_loop :: "pool \<Rightarrow> nat \<Rightarrow> DBufBuffer list \<Rightarrow> (pool \<times> nat \<times> DBufBuffer list) res" where
  "flush_loop p len chain =
     (case chain of [] \<Rightarrow> Inr (p, len, [])
      | db # rest \<Rightarrow>
          (case db_content db of [] \<Rightarrow> Inl OutOfBounds
           | c # cs \<Rightarrow>
               if IsEol c then
                 (if cs = [] then
                    (if rest = [] then Inr (dbuf_free p, 0, [])
                     else flush_loop (dbuf_free p) (len - 1) rest)
                  else flush_loop p (len - 1) (db\<lparr>db_start := Suc (db_start db)\<rparr> # rest))
               else Inr (p, len, chain)))"
  by pat_completeness auto
termination
proof (relation "measure (\<lambda>(p, len, chain). length chain + length (concat (map db_content chain)))")
  fix p :: pool and len :: nat and chain rest :: "DBufBuffer list"
    and db :: DBufBuffer and c :: char and cs :: "char list"
  assume a: "chain = db # rest" "db_content db = c # cs" "cs \<noteq> []"
  have "db_content (db\<lparr>db_start := Suc (db_start db)\<rparr>) = tl (db_content db)"
    by (simp add: db_content_def drop_Suc drop_tl)
  with a show "((p, len - 1, db\<lparr>db_start := Suc (db_start db)\<rparr> # rest), p, len, chain)
      \<in> measure (\<lambda>(p, len, chain). length chain + length (concat (map db_content chain)))"
    by simp
qed auto

declare flush_loop.simps [simp del]

definition dbuf_flush :: "pool \<Rightarrow> DBuf \<Rightarrow> (pool \<times> DBuf) res" where
  "dbuf_flush p dyn =
     res_bind (flush_loop p (dyn_length dyn) (bufs dyn))
       (\<lambda>(p', len, chain). Inr (p', \<lparr>dyn_length = len, bufs = chain\<rparr>))"

text \<open>
  The scan of \<open>dbuf_getmsg\<close>: the bytes before the first line end, \<open>None\<close> when there is none
  within \<open>n\<close> bytes.
\<close>

fun getmsg_scan :: "DBufBuffer list \<Rightarrow> nat \<Rightarrow> char list option" where
  "getmsg_scan [] n = None"
| "getmsg_scan (db # rest) n =
     (if n = 0 then None
      else
        (let here = take n (db_content db);
             copied = takeWhile (\<lambda>c. \<not> IsEol c) here
         in if length copied < length here then Some copied
            else map_option (\<lambda>more. copied @ more) (getmsg_scan rest (n - length copied))))"

definition dbuf_getmsg :: "pool \<Rightarrow> DBuf \<Rightarrow> nat \<Rightarrow> (pool \<times> DBuf \<times> char list option) res" where
  "dbuf_getmsg p dyn len =
     res_bind (dbuf_flush p dyn) (\<lambda>(p1, dyn1).
       if dyn_length dyn1 = 0 \<or> bufs dyn = [] then Inr (p1, dyn1, None)
       else if bufs dyn1 = [] then Inl NullDeref
       else
         (case getmsg_scan (bufs dyn1) (min len (dyn_length dyn1)) of
            None \<Rightarrow> Inr (p1, dyn1, None)
          | Some line \<Rightarrow>
              (let (p2, dyn2) = dbuf_delete p1 dyn1 (length line) in
               res_bind (dbuf_flush p2 dyn2) (\<lambda>(p3, dyn3). Inr (p3, dyn3, Some line)))))"

section \<open>Abstraction and invariant\<close>

text \<open>A buffer is the byte string its blocks hold; no block is empty or overfull.\<close>

abbreviation chain_content :: "DBufBuffer list \<Rightarrow> char list" where
  "chain_content chain \<equiv> concat (map db_content chain)"

definition content :: "DBuf \<Rightarrow> char list" where
  "content dyn = chain_content (bufs dyn)"

definition db_ok :: "DBufBuffer \<Rightarrow> bool" where
  "db_ok db \<longleftrightarrow> db_start db < length (db_bytes db) \<and> length (db_bytes db) \<le> DBUF_SIZE"

definition dbuf_ok :: "DBuf \<Rightarrow> bool" where
  "dbuf_ok dyn \<longleftrightarrow> list_all db_ok (bufs dyn) \<and> dyn_length dyn = length (content dyn)"

text \<open>
  The counters of the pool: of the used blocks \<open>n\<close> belong to the buffer at hand and \<open>k\<close> to other
  buffers, and all other blocks are on the free list.
\<close>

definition pool_ok :: "nat \<Rightarrow> pool \<Rightarrow> nat \<Rightarrow> bool" where
  "pool_ok k p n \<longleftrightarrow> DBufUsedCount p + dbufFreeList p = DBufAllocCount p \<and> DBufUsedCount p = n + k"

lemma db_content_Nil_iff: "db_content db = [] \<longleftrightarrow> length (db_bytes db) \<le> db_start db"
  by (simp add: db_content_def)

lemma db_ok_nonempty: "db_ok db \<Longrightarrow> db_content db \<noteq> []"
  by (simp add: db_ok_def db_content_def)

lemma chain_empty_iff: "list_all db_ok chain \<Longrightarrow> chain_content chain = [] \<longleftrightarrow> chain = []"
  by (cases chain) (auto simp: db_ok_nonempty)

lemma dbuf_ok_length_0: "dbuf_ok dyn \<Longrightarrow> dyn_length dyn = 0 \<longleftrightarrow> bufs dyn = []"
  using chain_empty_iff [of "bufs dyn"] by (auto simp: dbuf_ok_def content_def)

lemma pool_ok_free: "pool_ok k p (Suc n) \<Longrightarrow> pool_ok k (dbuf_free p) n"
  by (auto simp: pool_ok_def dbuf_free_def)

lemma pool_ok_free_n: "pool_ok k p (j + n) \<Longrightarrow> pool_ok k ((dbuf_free ^^ j) p) n"
proof (induction j arbitrary: p)
  case (Suc j)
  then have "pool_ok k ((dbuf_free ^^ j) (dbuf_free p)) n"
    using pool_ok_free by auto
  then show ?case by (simp add: funpow_swap1)
qed simp

lemma pool_ok_alloc: "pool_ok k p n \<Longrightarrow> dbuf_alloc bp p = Some p' \<Longrightarrow> pool_ok k p' (Suc n)"
  by (auto simp: pool_ok_def dbuf_alloc_def split: if_splits)

text \<open>Flushing other connections keeps the counters and this buffer's blocks; it may free other blocks.\<close>

definition env_ok :: "put_env \<Rightarrow> bool" where
  "env_ok e \<longleftrightarrow> (\<forall>p n k. pool_ok k p n \<longrightarrow> (\<exists>k' \<le> k. pool_ok k' (env_flush_connections e p) n))"

text \<open>After an operation that may have flushed other connections.\<close>

definition pool_left :: "put_env \<Rightarrow> nat \<Rightarrow> pool \<Rightarrow> nat \<Rightarrow> bool" where
  "pool_left e k p n \<longleftrightarrow> (\<exists>k' \<le> k. pool_ok k' p n \<and> (\<not> env_flusher e \<longrightarrow> k' = k))"

lemma pool_left_refl: "pool_ok k p n \<Longrightarrow> pool_left e k p n"
  by (auto simp: pool_left_def)

lemma pool_left_trans:
  assumes "pool_left e k p n" "\<And>k'. k' \<le> k \<Longrightarrow> pool_ok k' p n \<Longrightarrow> pool_left e k' q m"
  shows "pool_left e k q m"
proof -
  obtain k' where k: "k' \<le> k" "pool_ok k' p n" "\<not> env_flusher e \<longrightarrow> k' = k" using assms(1) by (auto simp: pool_left_def)
  then obtain k'' where "k'' \<le> k'" "pool_ok k'' q m" "\<not> env_flusher e \<longrightarrow> k'' = k'" using assms(2) [OF k(1,2)] by (auto simp: pool_left_def)
  then show ?thesis using k by (auto simp: pool_left_def intro!: exI [of _ k''])
qed

lemma pool_left_free_n: "pool_left e k p j \<Longrightarrow> pool_left e k ((dbuf_free ^^ j) p) 0"
  using pool_ok_free_n [of _ p j 0] by (auto simp: pool_left_def)

lemma put_alloc_ok:
  assumes "env_ok e" "pool_ok k p n" "put_alloc e p = (p', ok)"
  shows "pool_left e k p' (if ok then Suc n else n)"
proof (cases "dbuf_alloc (env_bufferpool e) p")
  case (Some q)
  then show ?thesis using assms pool_ok_alloc [OF assms(2) Some] by (auto simp: put_alloc_def intro: pool_left_refl)
next
  case None
  obtain k' where k: "k' \<le> k" "pool_ok k' (env_flush_connections e p) n"
    using assms(1,2) unfolding env_ok_def by blast
  show ?thesis
  proof (cases "env_flusher e")
    case True
    then show ?thesis using assms(3) None k pool_ok_alloc [OF k(2), of "env_bufferpool e"]
      by (auto simp: put_alloc_def Let_def pool_left_def split: option.splits)
  next
    case False
    then show ?thesis using assms(2,3) None by (auto simp: put_alloc_def intro: pool_left_refl)
  qed
qed

section \<open>Appending\<close>

lemma db_fill_ok:
  assumes "db_fill b data = (b', data')" "db_ok b \<or> db_bytes b = [] \<and> db_start b = 0 \<and> data \<noteq> []"
  shows "db_ok b' \<and> db_content b' @ data' = db_content b @ data"
  using assms by (auto simp: db_fill_def db_ok_def db_content_def Let_def DBUF_SIZE_def)

lemma put_loop_ok:
  assumes "put_loop e p chain data = (p', chain', ok)" "length chain \<le> 1" "list_all db_ok chain"
    "env_ok e" "pool_ok k p (length chain + m)"
  shows "list_all db_ok chain' \<and> pool_left e k p' (length chain' + m)
    \<and> (ok \<longrightarrow> chain_content chain' = chain_content chain @ data)"
  using assms
proof (induction e p chain data arbitrary: p' chain' ok m k rule: put_loop.induct)
  case (1 e p chain data)
  note step = put_loop.simps [of e p _ data]
  consider (nil) "data = []" | (new) "data \<noteq> []" "chain = []"
    | (tail) b where "data \<noteq> []" "chain = [b]"
    using "1.prems"(2) by (cases chain) auto
  then show ?case
  proof cases
    case nil
    with "1.prems" show ?thesis by (simp add: put_loop.simps pool_left_refl)
  next
    case new
    obtain q ok1 where q: "put_alloc e p = (q, ok1)" by force
    show ?thesis
    proof (cases ok1)
      case False
      with new q "1.prems" put_alloc_ok [of e k p m q ok1] show ?thesis by (simp add: step)
    next
      case True
      obtain db data' where f: "db_fill \<lparr>db_start = 0, db_bytes = []\<rparr> data = (db, data')" by force
      obtain p2 rest dn where r: "put_loop e q [] data' = (p2, rest, dn)" by (cases "put_loop e q [] data'") auto
      have res: "p' = p2" "chain' = db # rest" "ok = dn"
        using "1.prems"(1) new q True f r by (simp_all add: step)
      have left: "pool_left e k q (Suc m)"
        using put_alloc_ok [of e k p m q ok1] "1.prems" q True new by simp
      have ih: "list_all db_ok rest \<and> pool_left e k' p2 (length rest + Suc m) \<and> (dn \<longrightarrow> chain_content rest = data')"
        if "pool_ok k' q (Suc m)" for k'
        using "1.IH"(1) [OF new refl q [symmetric] True refl f [symmetric] r, of k' "Suc m"] "1.prems"(4) that
        by simp
      have "pool_left e k p2 (length rest + Suc m)" by (rule pool_left_trans [OF left]) (use ih in blast)
      moreover obtain k' where "pool_ok k' q (Suc m)" using left by (auto simp: pool_left_def)
      ultimately have "list_all db_ok rest \<and> pool_left e k p2 (length rest + Suc m) \<and> (dn \<longrightarrow> chain_content rest = data')"
        using ih by blast
      moreover have "db_content \<lparr>db_start = 0, db_bytes = []\<rparr> = []"
        by (simp add: db_content_def)
      ultimately show ?thesis
        using db_fill_ok [OF f] new res by auto
    qed
  next
    case tail
    obtain db data' where f: "db_fill b data = (db, data')" by force
    obtain p2 rest dn where r: "put_loop e p [] data' = (p2, rest, dn)" by (cases "put_loop e p [] data'") auto
    have res: "p' = p2" "chain' = db # rest" "ok = dn"
      using "1.prems"(1) tail f r by (simp_all add: step)
    have "list_all db_ok rest \<and> pool_left e k p2 (length rest + Suc m) \<and>
        (dn \<longrightarrow> chain_content rest = data')"
      using "1.IH"(2) [OF tail refl f [symmetric] r, of k "Suc m"] "1.prems"(4,5) tail by simp
    with db_fill_ok [OF f] tail "1.prems"(3) res show ?thesis by auto
  qed
qed

lemma dbuf_put_ok:
  assumes "dbuf_ok dyn" "env_ok e" "pool_ok k p (length (bufs dyn))"
    and put: "dbuf_put e p dyn buf = (p', dyn', ok)"
  shows "dbuf_ok dyn' \<and> pool_left e k p' (length (bufs dyn'))
    \<and> content dyn' = (if ok then content dyn @ buf else [])"
proof -
  define before chain where "before = (if dyn_length dyn = 0 then [] else butlast (bufs dyn))"
    and "chain = (if dyn_length dyn = 0 then bufs dyn else [last (bufs dyn)])"
  have split: "bufs dyn = before @ chain" "length chain \<le> 1"
    using dbuf_ok_length_0 [OF assms(1)] by (auto simp: before_def chain_def)
  obtain q ch dn where r: "put_loop e p chain buf = (q, ch, dn)"
    by (cases "put_loop e p chain buf") auto
  have ok: "list_all db_ok before" "list_all db_ok chain" "pool_ok k p (length chain + length before)"
    using assms(1,3) split by (auto simp: dbuf_ok_def add.commute)
  note step = put_loop_ok [OF r split(2) ok(2) assms(2) ok(3)]
  have "dbuf_put e p dyn buf =
      (if dn then (q, \<lparr>dyn_length = dyn_length dyn + length buf, bufs = before @ ch\<rparr>, True)
       else (dbuf_malloc_error (length (before @ ch)) q, \<lparr>dyn_length = 0, bufs = []\<rparr>, False))"
    using r by (auto simp: dbuf_put_def before_def chain_def split: if_splits)
  with put step ok(1) split assms(1) show ?thesis
    using pool_left_free_n [of e k q "length (before @ ch)"]
    by (auto simp: dbuf_ok_def content_def dbuf_malloc_error_def add.commute split: if_splits)
qed

section \<open>Removing\<close>

lemma db_content_advance:
  "db_content (db\<lparr>db_start := db_start db + n\<rparr>) = drop n (db_content db)"
  by (simp add: db_content_def add.commute)

lemma delete_loop_ok:
  assumes "list_all db_ok chain" "n \<le> length (chain_content chain)"
    "len = length (chain_content chain)" "pool_ok k p (length chain + m)"
  shows "\<exists>p' chain'. delete_loop p len chain n = (p', len - n, chain') \<and> list_all db_ok chain'
    \<and> chain_content chain' = drop n (chain_content chain) \<and> pool_ok k p' (length chain' + m)"
  using assms
proof (induction p len chain n rule: delete_loop.induct)
  case (1 p len chain n)
    show ?case
  proof (cases "n = 0 \<or> chain = []")
    case True
    with "1.prems" show ?thesis by (cases "n = 0") (auto simp: delete_loop.simps)
  next
    case False
    then obtain db rest where ch: "chain = db # rest" by (cases chain) auto
    let ?c = "min (length (db_content db)) n"
    let ?db = "db\<lparr>db_start := db_start db + ?c\<rparr>"
    have n: "n \<noteq> 0" and db: "db_ok db" and rest: "list_all db_ok rest"
      using False "1.prems"(1) ch by auto
    show ?thesis
    proof (cases "db_content ?db = []")
      case True
      then have "length (db_content db) \<le> n"
        by (simp add: db_content_advance)
      with "1.IH"(1) [OF n ch refl refl True] "1.prems" ch rest pool_ok_free [of k p "length rest + m"] n True
      show ?thesis by (simp add: delete_loop.simps [of p _ "db # rest"] add.commute)
    next
      case more: False
      then have "n < length (db_content db)" "?c = n"
        by (auto simp: db_content_advance)
      moreover from this have "db_ok ?db"
        using db by (auto simp: db_ok_def db_content_def)
      moreover have "delete_loop p len chain n = delete_loop p (len - n) (?db # rest) 0"
        using n ch more \<open>?c = n\<close> by (simp add: delete_loop.simps [of p len "db # rest"])
      ultimately show ?thesis
        using "1.prems" ch rest
        by (simp add: delete_loop.simps [of _ _ _ 0] db_content_advance)
    qed
  qed
qed

lemma dbuf_delete_ok:
  assumes "dbuf_ok dyn" "pool_ok k p (length (bufs dyn))"
    and del: "dbuf_delete p dyn n = (p', dyn')"
  shows "dbuf_ok dyn' \<and> content dyn' = drop n (content dyn) \<and> pool_ok k p' (length (bufs dyn'))"
proof -
  let ?n = "min n (dyn_length dyn)"
  have drop_n: "drop ?n (content dyn) = drop n (content dyn)"
    using assms(1) by (auto simp: dbuf_ok_def min_def)
  obtain q ch where "delete_loop p (dyn_length dyn) (bufs dyn) ?n = (q, dyn_length dyn - ?n, ch)"
    "list_all db_ok ch" "chain_content ch = drop ?n (content dyn)" "pool_ok k q (length ch)"
    using delete_loop_ok [of "bufs dyn" ?n "dyn_length dyn" k p 0] assms(1,2)
    by (auto simp: dbuf_ok_def content_def)
  with del drop_n assms(1) show ?thesis
    by (auto simp: dbuf_delete_def dbuf_ok_def content_def split: if_splits)
qed

lemma flush_loop_ok:
  assumes "list_all db_ok chain" "len = length (chain_content chain)" "pool_ok k p (length chain + m)"
  shows "\<exists>p' chain'. flush_loop p len chain
      = Inr (p', length (dropWhile IsEol (chain_content chain)), chain')
    \<and> list_all db_ok chain' \<and> chain_content chain' = dropWhile IsEol (chain_content chain)
    \<and> pool_ok k p' (length chain' + m)"
  using assms
proof (induction p len chain rule: flush_loop.induct)
  case (1 p len chain)
  show ?case
  proof (cases chain)
    case Nil
    with "1.prems" show ?thesis by (simp add: flush_loop.simps)
  next
    case (Cons db rest)
    let ?db = "db\<lparr>db_start := Suc (db_start db)\<rparr>"
    have db: "db_ok db" "list_all db_ok rest" using "1.prems"(1) Cons by auto
    then obtain c cs where c: "db_content db = c # cs"
      using db_ok_nonempty by (cases "db_content db") auto
    have adv: "db_content ?db = cs"
      using db_content_advance [of db 1] c by simp
    consider (stop) "\<not> IsEol c" | (last) "IsEol c" "cs = []" "rest = []"
      | (block) "IsEol c" "cs = []" "rest \<noteq> []" | (byte) "IsEol c" "cs \<noteq> []" by blast
    then show ?thesis
    proof cases
      case stop
      with Cons c "1.prems" show ?thesis by (simp add: flush_loop.simps [of p _ "db # rest"])
    next
      case last
      with Cons c "1.prems" pool_ok_free [of k p m] show ?thesis
        by (simp add: flush_loop.simps [of p _ "[db]"])
    next
      case block
      with Cons c "1.prems" pool_ok_free [of k p "length rest + m"] db
        "1.IH"(1) [OF Cons c block(1,2,3)] show ?thesis
        by (simp add: flush_loop.simps [of p _ "db # rest"])
    next
      case byte
      have "db_ok ?db"
        using byte(2) adv db(1) by (auto simp: db_ok_def db_content_def)
      with Cons c "1.prems" adv db byte "1.IH"(2) [OF Cons c byte] show ?thesis
        by (simp add: flush_loop.simps [of p _ "db # rest"])
    qed
  qed
qed

lemma dbuf_flush_ok:
  assumes "dbuf_ok dyn" "pool_ok k p (length (bufs dyn))"
  shows "\<exists>p' dyn'. dbuf_flush p dyn = Inr (p', dyn') \<and> dbuf_ok dyn'
    \<and> content dyn' = dropWhile IsEol (content dyn) \<and> pool_ok k p' (length (bufs dyn'))"
  using flush_loop_ok [of "bufs dyn" "dyn_length dyn" k p 0] assms
  by (auto simp: dbuf_flush_def dbuf_ok_def content_def)

lemma getmsg_scan_content:
  "list_all db_ok chain \<Longrightarrow> getmsg_scan chain n =
     (let line = takeWhile (\<lambda>c. \<not> IsEol c) (chain_content chain)
      in if length line < min n (length (chain_content chain)) then Some line else None)"
proof (induction chain n rule: getmsg_scan.induct)
  case (2 db rest n)
  let ?P = "\<lambda>c. \<not> IsEol c"
  let ?here = "take n (db_content db)"
  show ?case
  proof (cases "n = 0 \<or> length (takeWhile ?P ?here) < length ?here")
    case True
    show ?thesis
    proof (cases "n = 0")
      case False
      with True have lt: "length (takeWhile ?P ?here) < length ?here" by simp
      then obtain x where x: "x \<in> set ?here" "IsEol x"
        using takeWhile_short by blast
      have "takeWhile ?P (?here @ r) = takeWhile ?P ?here" for r
        using x by (intro takeWhile_append1) auto
      then have "takeWhile ?P (db_content db @ chain_content rest) = takeWhile ?P ?here"
        by (metis append_take_drop_id append.assoc)
      with lt False show ?thesis by (simp add: Let_def)
    qed simp
  next
    case False
    then have all: "takeWhile ?P ?here = ?here" and n: "n \<noteq> 0"
      using takeWhile_full [of ?here ?P] by auto
    show ?thesis
    proof (cases "n \<le> length (db_content db)")
      case True
      have "length ?here \<le> length (takeWhile ?P (db_content db @ chain_content rest))"
      proof -
        have "takeWhile ?P (?here @ r) = ?here @ takeWhile ?P r" for r
          using all by (intro takeWhile_append2) (metis set_takeWhileD)
        then show ?thesis
          by (metis append_take_drop_id append.assoc length_append le_add1)
      qed
      with True all n show ?thesis
        by (simp add: Let_def del: takeWhile_eq_all_conv) (cases rest; simp)
    next
      case longer: False
      then have here: "?here = db_content db" by simp
      have "takeWhile ?P (db_content db @ chain_content rest)
          = db_content db @ takeWhile ?P (chain_content rest)"
        using all here by (intro takeWhile_append2) (metis set_takeWhileD)
      with longer all here n "2.IH" [OF n refl refl] "2.prems" show ?thesis
        by (auto simp: Let_def simp del: takeWhile_eq_all_conv)
    qed
  qed
qed simp

lemma get_loop_ok:
  assumes "dbuf_ok dyn" "pool_ok k p (length (bufs dyn))"
  shows "\<exists>p' dyn'. get_loop p dyn n moved = Some (Inr (p', dyn', moved @ take n (content dyn)))
    \<and> dbuf_ok dyn' \<and> content dyn' = drop n (content dyn) \<and> pool_ok k p' (length (bufs dyn'))"
  using assms
proof (induction n arbitrary: p dyn moved rule: less_induct)
  case (less n)
  show ?case
  proof (cases "n = 0 \<or> dyn_length dyn = 0")
    case True
    then have "n = 0 \<or> bufs dyn = []"
      using dbuf_ok_length_0 [OF less.prems(1)] by blast
    with less.prems True show ?thesis
      by (subst get_loop.simps) (auto simp: dbuf_map_def content_def)
  next
    case False
    then obtain db rest where ch: "bufs dyn = db # rest"
      using dbuf_ok_length_0 [OF less.prems(1)] by (cases "bufs dyn") auto
    let ?c = "min (length (db_content db)) n"
    obtain q d where del: "dbuf_delete p dyn ?c = (q, d)" by force
    note d = dbuf_delete_ok [OF less.prems del]
    have pos: "0 < ?c"
      using False ch less.prems(1) db_ok_nonempty [of db] by (auto simp: dbuf_ok_def)
    have "get_loop p dyn n moved = get_loop q d (n - ?c) (moved @ take ?c (db_content db))"
      using False ch del by (subst get_loop.simps) (simp add: dbuf_map_def Let_def)
    moreover have "take ?c (db_content db) @ take (n - ?c) (drop ?c (content dyn)) = take n (content dyn)"
      using ch by (cases "n \<le> length (db_content db)") (simp_all add: content_def)
    moreover have "drop (n - ?c) (drop ?c (content dyn)) = drop n (content dyn)"
      by simp
    ultimately show ?thesis
      using less.IH [of "n - ?c" d q "moved @ take ?c (db_content db)"] d pos False by auto
  qed
qed

lemma dbuf_getmsg_ok:
  assumes "dbuf_ok dyn" "pool_ok k p (length (bufs dyn))"
  shows "let c = dropWhile IsEol (content dyn); line = takeWhile (\<lambda>x. \<not> IsEol x) c;
             found = (length line < min n (length c))
    in \<exists>p' dyn'. dbuf_getmsg p dyn n = Inr (p', dyn', if found then Some line else None)
      \<and> dbuf_ok dyn' \<and> pool_ok k p' (length (bufs dyn'))
      \<and> content dyn' = (if found then dropWhile IsEol (drop (length line) c) else c)"
proof -
  obtain p1 d1 where f: "dbuf_flush p dyn = Inr (p1, d1)" "dbuf_ok d1"
    "content d1 = dropWhile IsEol (content dyn)" "pool_ok k p1 (length (bufs d1))"
    using dbuf_flush_ok [OF assms] by blast
  let ?line = "takeWhile (\<lambda>x. \<not> IsEol x) (content d1)"
  obtain p2 d2 where del: "dbuf_delete p1 d1 (length ?line) = (p2, d2)" by force
  note d2 = dbuf_delete_ok [OF f(2,4) del]
  then obtain p3 d3 where f3: "dbuf_flush p2 d2 = Inr (p3, d3)" "dbuf_ok d3"
    "content d3 = dropWhile IsEol (content d2)" "pool_ok k p3 (length (bufs d3))"
    using dbuf_flush_ok [of d2 k p2] by blast
  have scan: "getmsg_scan (bufs d1) (min n (dyn_length d1)) =
      (if length ?line < min n (length (content d1)) then Some ?line else None)"
    using f(2) getmsg_scan_content [of "bufs d1"] by (simp add: dbuf_ok_def content_def Let_def)
  show ?thesis
  proof (cases "bufs d1 = []")
    case True
    with f have "dyn_length d1 = 0" "content d1 = []" by (auto simp: dbuf_ok_def content_def)
    with f show ?thesis by (simp add: dbuf_getmsg_def Let_def)
  next
    case False
    then have "dyn_length d1 \<noteq> 0" using dbuf_ok_length_0 [OF f(2)] by simp
    moreover have "bufs dyn \<noteq> []"
      using f(2,3) False chain_empty_iff [of "bufs d1"] by (auto simp: content_def dbuf_ok_def)
    ultimately show ?thesis
      using f scan del d2 f3 False by (simp add: dbuf_getmsg_def Let_def)
  qed
qed

section \<open>Theorems\<close>

definition example_env :: put_env where
  "example_env = \<lparr>env_bufferpool = 4096, env_flusher = False, env_flush_connections = (\<lambda>p. p)\<rparr>"

definition empty_pool :: pool where
  "empty_pool = \<lparr>DBufAllocCount = 0, DBufUsedCount = 0, dbufFreeList = 0\<rparr>"

definition empty_dbuf :: DBuf where
  "empty_dbuf = \<lparr>dyn_length = 0, bufs = []\<rparr>"

lemma example_ok: "env_ok example_env" "pool_ok 0 empty_pool 0" "dbuf_ok empty_dbuf"
  "bufs empty_dbuf = []" "content empty_dbuf = []"
  by (auto simp: env_ok_def example_env_def pool_ok_def empty_pool_def dbuf_ok_def
      empty_dbuf_def content_def)



text \<open>
  \<open>dbuf_get\<close> ends, returns the first \<open>length\<close> bytes of the buffer and removes exactly
  those; no block is read outside its bytes and the pool counters stay consistent.
\<close>

theorem dbuf_get_refines:
  assumes "dbuf_ok dyn" "pool_ok k p (length (bufs dyn))"
  shows "\<exists>p' dyn'. dbuf_get p dyn n = Some (Inr (p', dyn', take n (content dyn)))
    \<and> dbuf_ok dyn' \<and> content dyn' = drop n (content dyn) \<and> pool_ok k p' (length (bufs dyn'))"
  using get_loop_ok [OF assms, of n "[]"] by (simp add: dbuf_get_def)

definition example_dbuf :: DBuf where
  "example_dbuf = \<lparr>dyn_length = 6, bufs = [\<lparr>db_start = 1, db_bytes = CHR ''x'' # [CHR 0x0A, CHR ''a'']\<rparr>,
     \<lparr>db_start = 0, db_bytes = ''b'' @ [CHR 0x0D, CHR 0x0A] @ ''c''\<rparr>]\<rparr>"

definition example_pool :: pool where
  "example_pool = \<lparr>DBufAllocCount = 2, DBufUsedCount = 2, dbufFreeList = 0\<rparr>"

lemma example2_ok: "dbuf_ok example_dbuf" "pool_ok 0 example_pool (length (bufs example_dbuf))"
  "content example_dbuf = CHR 0x0A # ''ab'' @ [CHR 0x0D, CHR 0x0A] @ ''c''"
  by (simp_all add: dbuf_ok_def db_ok_def example_dbuf_def DBUF_SIZE_def content_def db_content_def
      pool_ok_def example_pool_def)

theorem dbuf_get_refines_witness:
  "\<exists>p' dyn'. dbuf_get example_pool example_dbuf 3 = Some (Inr (p', dyn', CHR 0x0A # ''ab''))"
  using dbuf_get_refines [of example_dbuf 0 example_pool 3] example2_ok by auto

text \<open>
  C35: \<open>dbuf_getmsg\<close>: after skipping leading line ends, if the next line end lies within the
  limit the call returns the line before it, removes it and all line ends after it; otherwise
  it returns nothing and removes the leading line ends only.
\<close>

theorem dbuf_getmsg_refines:
  assumes "dbuf_ok dyn" "pool_ok k p (length (bufs dyn))"
  shows "let c = dropWhile IsEol (content dyn); line = takeWhile (\<lambda>x. \<not> IsEol x) c;
             found = (length line < min n (length c))
    in \<exists>p' dyn'. dbuf_getmsg p dyn n = Inr (p', dyn', if found then Some line else None)
      \<and> dbuf_ok dyn' \<and> pool_ok k p' (length (bufs dyn'))
      \<and> content dyn' = (if found then dropWhile IsEol (drop (length line) c) else c)"
  by (rule dbuf_getmsg_ok [OF assms])

theorem dbuf_getmsg_refines_witness:
  "\<exists>p' dyn'. dbuf_getmsg example_pool example_dbuf 510 = Inr (p', dyn', Some ''ab'')
    \<and> content dyn' = ''c''"
  using dbuf_getmsg_refines [of example_dbuf 0 example_pool 510] example2_ok
  by (auto simp: IsEol_iff Let_def)

end
