(* ===== verification/Client.thy ===== *)
theory Client
  imports Prelude
begin

text \<open>
  The part of \<open>struct Client\<close> and its macros (\<open>include/client.h\<close>) that the input path reads:
  the status word, the flags the input path tests or sets, and the flood-control clocks.
  Everything else a message handler may change is the extensible part of the record.
\<close>

text \<open>The size of a message buffer.\<close>

definition BUFSIZE :: nat where "BUFSIZE = 512"

section \<open>Status\<close>

definition STAT_CONNECTING :: u16 where "STAT_CONNECTING = 0x001"
definition STAT_HANDSHAKE :: u16 where "STAT_HANDSHAKE = 0x002"
definition STAT_ME :: u16 where "STAT_ME = 0x004"
definition STAT_UNKNOWN :: u16 where "STAT_UNKNOWN = 0x008"
definition STAT_UNKNOWN_USER :: u16 where "STAT_UNKNOWN_USER = 0x010"
definition STAT_UNKNOWN_SERVER :: u16 where "STAT_UNKNOWN_SERVER = 0x020"
definition STAT_SERVER :: u16 where "STAT_SERVER = 0x040"
definition STAT_USER :: u16 where "STAT_USER = 0x080"

lemmas stat_defs =
  STAT_CONNECTING_def STAT_HANDSHAKE_def STAT_ME_def STAT_UNKNOWN_def STAT_UNKNOWN_USER_def
  STAT_UNKNOWN_SERVER_def STAT_SERVER_def STAT_USER_def

datatype cli_flag = FLAG_DEADSOCKET | FLAG_NONL | FLAG_PINGSENT | FLAG_LOCOP | FLAG_OPER | FLAG_BOT | FLAG_CHSERV | FLAG_SERVICE
  | FLAG_ACCOUNT | FLAG_HIDDENHOST | FLAG_SETHOST | FLAG_FAKEHOST | FLAG_SSL | FLAG_XTRAOP | FLAG_DNSBLMARKED | FLAG_ADMIN
  | FLAG_BLOCKED | FLAG_CLOSING

record cli =
  cli_status :: u16
  cli_flags :: "cli_flag list"
  cli_since :: int
  cli_lasttime :: int
  cli_error :: int

definition IsRegistered :: "'z cli_scheme \<Rightarrow> bool" where
  "IsRegistered x \<longleftrightarrow> (cli_status x AND (STAT_SERVER OR STAT_USER)) \<noteq> 0"
definition IsConnecting :: "'z cli_scheme \<Rightarrow> bool" where
  "IsConnecting x \<longleftrightarrow> cli_status x = STAT_CONNECTING"
definition IsHandshake :: "'z cli_scheme \<Rightarrow> bool" where
  "IsHandshake x \<longleftrightarrow> cli_status x = STAT_HANDSHAKE"
definition IsUnknown :: "'z cli_scheme \<Rightarrow> bool" where
  "IsUnknown x \<longleftrightarrow>
     (cli_status x AND (STAT_UNKNOWN OR STAT_UNKNOWN_USER OR STAT_UNKNOWN_SERVER)) \<noteq> 0"
definition IsTrusted :: "'z cli_scheme \<Rightarrow> bool" where
  "IsTrusted x \<longleftrightarrow>
     (cli_status x AND (STAT_CONNECTING OR STAT_HANDSHAKE OR STAT_ME OR STAT_SERVER)) \<noteq> 0"
definition IsServer :: "'z cli_scheme \<Rightarrow> bool" where
  "IsServer x \<longleftrightarrow> cli_status x = STAT_SERVER"
definition IsMe :: "'z cli_scheme \<Rightarrow> bool" where
  "IsMe x \<longleftrightarrow> cli_status x = STAT_ME"
definition IsUser :: "'z cli_scheme \<Rightarrow> bool" where
  "IsUser x \<longleftrightarrow> cli_status x = STAT_USER"

section \<open>Flags\<close>

definition SetFlag :: "'z cli_scheme \<Rightarrow> cli_flag \<Rightarrow> 'z cli_scheme" where
  "SetFlag x f = x\<lparr>cli_flags := List.insert f (cli_flags x)\<rparr>"
definition ClrFlag :: "'z cli_scheme \<Rightarrow> cli_flag \<Rightarrow> 'z cli_scheme" where
  "ClrFlag x f = x\<lparr>cli_flags := removeAll f (cli_flags x)\<rparr>"
definition HasFlag :: "'z cli_scheme \<Rightarrow> cli_flag \<Rightarrow> bool" where
  "HasFlag x f \<longleftrightarrow> f \<in> set (cli_flags x)"

definition IsAnOper :: "'z cli_scheme \<Rightarrow> bool" where
  "IsAnOper x \<longleftrightarrow> HasFlag x FLAG_OPER \<or> HasFlag x FLAG_LOCOP"

abbreviation IsDead :: "'z cli_scheme \<Rightarrow> bool" where "IsDead x \<equiv> HasFlag x FLAG_DEADSOCKET"
abbreviation IsBlocked :: "'z cli_scheme \<Rightarrow> bool" where "IsBlocked x \<equiv> HasFlag x FLAG_BLOCKED"
abbreviation IsOper :: "'z cli_scheme \<Rightarrow> bool" where "IsOper x \<equiv> HasFlag x FLAG_OPER"
abbreviation IsBot :: "'z cli_scheme \<Rightarrow> bool" where "IsBot x \<equiv> HasFlag x FLAG_BOT"
abbreviation NoNewLine :: "'z cli_scheme \<Rightarrow> bool" where "NoNewLine x \<equiv> HasFlag x FLAG_NONL"

lemma HasFlag_SetFlag [simp]: "HasFlag (SetFlag x f) g \<longleftrightarrow> g = f \<or> HasFlag x g"
  by (simp add: HasFlag_def SetFlag_def)

lemma HasFlag_ClrFlag [simp]: "HasFlag (ClrFlag x f) g \<longleftrightarrow> g \<noteq> f \<and> HasFlag x g"
  by (auto simp: HasFlag_def ClrFlag_def)

lemma flag_status [simp]:
  "cli_status (SetFlag x f) = cli_status x" "cli_status (ClrFlag x f) = cli_status x"
  "cli_since (SetFlag x f) = cli_since x" "cli_since (ClrFlag x f) = cli_since x"
  by (simp_all add: SetFlag_def ClrFlag_def)

text \<open>A fully registered connection is a server or a user, not both; only servers are trusted.\<close>

lemma registered_cases:
  "IsServer x \<Longrightarrow> IsRegistered x \<and> IsTrusted x \<and> \<not> IsUser x \<and> \<not> IsUnknown x"
  "IsUser x \<Longrightarrow> IsRegistered x \<and> \<not> IsTrusted x \<and> \<not> IsServer x \<and> \<not> IsUnknown x"
  by (simp_all add: IsServer_def IsUser_def IsRegistered_def IsTrusted_def IsUnknown_def stat_defs)

end
