(* ===== verification/Packet.thy ===== *)
theory Packet
  imports Dbuf Client
begin

text \<open>
  From received bytes to protocol messages: \<open>ircd/packet.c\<close> and \<open>read_packet\<close> of
  \<open>ircd/s_bsd.c\<close>.

  The message buffer \<open>con_buffer\<close> is an array of \<open>BUFSIZE\<close> bytes and a write past its end is
  \<open>Inl Overrun\<close>, a fault nothing else in the development gives. The message handlers behind \<open>parse_server\<close>, \<open>parse_client\<close> and
  \<open>exit_client\<close> are fields of \<open>handlers\<close>: each takes the client (with the rest of the world in
  the extensible part of its record) and the message and returns the changed client and the
  result code of the C function. A handler may also clear the receive queue of the connection it
  runs for (\<open>close_connection\<close> and \<open>dead_link\<close> do) and give blocks of other connections back to
  the pool: \<open>rhandlers\<close> adds these two effects. What a handler leaves in \<open>con_buffer\<close> is not
  modelled: the loops write a byte before they read it.
\<close>

section \<open>Receive statistics\<close>

record rstats =
  receiveB :: u16
  receiveK :: u32
  receiveM :: u32

definition add_bytes :: "nat \<Rightarrow> rstats \<Rightarrow> rstats" where
  "add_bytes len st =
     (let b = receiveB st + of_nat len in
      if 1023 < b
      then st\<lparr>receiveK := receiveK st + ucast (drop_bit 10 b), receiveB := b AND 0x03ff\<rparr>
      else st\<lparr>receiveB := b\<rparr>)"

record 'w conn =
  me_stats :: rstats
  cptr_stats :: rstats
  con_count :: nat
  con_buffer :: "char list"
  con_client :: 'w

definition update_bytes_received :: "('w, 'z) conn_scheme \<Rightarrow> nat \<Rightarrow> ('w, 'z) conn_scheme" where
  "update_bytes_received s len =
     s\<lparr>me_stats := add_bytes len (me_stats s), cptr_stats := add_bytes len (cptr_stats s)\<rparr>"

definition update_messages_received :: "('w, 'z) conn_scheme \<Rightarrow> ('w, 'z) conn_scheme" where
  "update_messages_received s =
     s\<lparr>me_stats := (me_stats s)\<lparr>receiveM := receiveM (me_stats s) + 1\<rparr>,
       cptr_stats := (cptr_stats s)\<lparr>receiveM := receiveM (cptr_stats s) + 1\<rparr>\<rparr>"

section \<open>Servers and connecting peers\<close>

definition CPTR_KILLED :: int where "CPTR_KILLED = - 2"

text \<open>The comment given to \<open>exit_client\<close>: the client's own \<open>cli_info\<close>, or a text.\<close>

datatype exit_comment = CliInfo | Comment string

record 'w handlers =
  parse_server :: "'w \<Rightarrow> char list \<Rightarrow> 'w \<times> int"
  parse_client :: "'w \<Rightarrow> char list \<Rightarrow> 'w \<times> int"
  exit_client :: "'w \<Rightarrow> exit_comment \<Rightarrow> 'w \<times> int"

type_synonym 'z world = "'z cli_scheme"
type_synonym ('z, 'x) pconn = "('z world, 'x) conn_scheme"
type_synonym ('z, 'y) phandlers = "('z world, 'y) handlers_scheme"

text \<open>The common part of both loops: storing a byte, and handing a message to its parser.\<close>

definition put_byte :: "('w, 'x) conn_scheme \<Rightarrow> nat \<Rightarrow> char \<Rightarrow> ('w, 'x) conn_scheme res" where
  "put_byte s endp c =
     (if endp < length (con_buffer s) then Inr (s\<lparr>con_buffer := (con_buffer s)[endp := c]\<rparr>)
      else Inl Overrun)"

text \<open>A handler's verdict: a code to return at once, or \<open>None\<close> to go on reading.\<close>

definition run_message :: "('z, 'y) phandlers \<Rightarrow> ('z world \<Rightarrow> char list \<Rightarrow> 'z world \<times> int)
    \<Rightarrow> 'z world \<Rightarrow> char list \<Rightarrow> 'z world \<times> int option" where
  "run_message h parse w line =
     (let (w1, r) = parse w line in
      if r = CPTR_KILLED then (w1, Some CPTR_KILLED)
      else if IsDead w1 then (let (w2, r2) = exit_client h w1 CliInfo in (w2, Some r2))
      else (w1, None))"

fun server_loop :: "('z, 'y) phandlers \<Rightarrow> ('z, 'x) pconn \<Rightarrow> nat \<Rightarrow> char list
    \<Rightarrow> (('z, 'x) pconn \<times> int) res" where
  "server_loop h s endp [] = Inr (s\<lparr>con_count := endp\<rparr>, 1)"
| "server_loop h s endp (c # src) =
     res_bind (put_byte s endp c) (\<lambda>s1.
       if IsEol c then
         (if endp = 0 then server_loop h s1 endp src
          else res_bind (put_byte s1 endp NUL) (\<lambda>s2.
            let s3 = update_messages_received s2;
                (w, ret) = run_message h (parse_server h) (con_client s3) (take endp (con_buffer s3));
                s4 = s3\<lparr>con_client := w\<rparr>
            in case ret of Some r \<Rightarrow> Inr (s4, r) | None \<Rightarrow> server_loop h s4 0 src))
       else server_loop h s1 (if endp < BUFSIZE then Suc endp else endp) src)"

definition server_dopacket :: "('z, 'y) phandlers \<Rightarrow> ('z, 'x) pconn \<Rightarrow> char list
    \<Rightarrow> (('z, 'x) pconn \<times> int) res" where
  "server_dopacket h s buffer =
     (let s1 = update_bytes_received s (length buffer) in server_loop h s1 (con_count s1) buffer)"

fun connect_loop :: "('z, 'y) phandlers \<Rightarrow> ('z, 'x) pconn \<Rightarrow> nat \<Rightarrow> char list
    \<Rightarrow> (('z, 'x) pconn \<times> int) res" where
  "connect_loop h s endp [] = Inr (s\<lparr>con_count := endp\<rparr>, 1)"
| "connect_loop h s endp (c # src) =
     res_bind (put_byte s endp c) (\<lambda>s1.
       if IsEol c then
         (if endp = 0 then connect_loop h s1 endp src
          else res_bind (put_byte s1 endp NUL) (\<lambda>s2.
            let s3 = update_messages_received s2;
                (w, ret) = run_message h (parse_client h) (con_client s3) (take endp (con_buffer s3));
                s4 = s3\<lparr>con_client := w\<rparr>
            in case ret of Some r \<Rightarrow> Inr (s4, r)
               | None \<Rightarrow> if IsServer w then server_dopacket h (s4\<lparr>con_count := 0\<rparr>) src
                         else connect_loop h s4 0 src))
       else connect_loop h s1 (if endp < BUFSIZE then Suc endp else endp) src)"

definition connect_dopacket :: "('z, 'y) phandlers \<Rightarrow> ('z, 'x) pconn \<Rightarrow> char list
    \<Rightarrow> (('z, 'x) pconn \<times> int) res" where
  "connect_dopacket h s buffer =
     (let s1 = update_bytes_received s (length buffer) in connect_loop h s1 (con_count s1) buffer)"

text \<open>\<open>line\<close> is what \<open>dbuf_getmsg\<close> copied to the message buffer.\<close>

definition client_dopacket :: "('z, 'y) phandlers \<Rightarrow> ('z, 'x) pconn \<Rightarrow> char list
    \<Rightarrow> ('z, 'x) pconn \<times> int" where
  "client_dopacket h s line =
     (let s1 = update_messages_received (update_bytes_received s (length line));
          (w, ret) = run_message h (parse_client h) (con_client s1) line
      in (s1\<lparr>con_client := w\<rparr>, case ret of Some r \<Rightarrow> r | None \<Rightarrow> 1))"

section \<open>Reference: lines\<close>

text \<open>The lines completed by \<open>data\<close> after the partial line \<open>p\<close>, and the new partial line.\<close>

fun split_lines :: "char list \<Rightarrow> char list \<Rightarrow> char list list \<times> char list" where
  "split_lines p [] = ([], p)"
| "split_lines p (c # cs) =
     (if IsEol c then
        (if p = [] then split_lines [] cs
         else (p # fst (split_lines [] cs), snd (split_lines [] cs)))
      else split_lines (p @ [c]) cs)"

text \<open>Handing lines to a parser in order until one of them ends the connection.\<close>

fun deliver :: "('z, 'y) phandlers \<Rightarrow> ('z world \<Rightarrow> char list \<Rightarrow> 'z world \<times> int)
    \<Rightarrow> 'z world \<Rightarrow> char list list \<Rightarrow> 'z world \<times> int option" where
  "deliver h parse w [] = (w, None)"
| "deliver h parse w (l # ls) =
     (case run_message h parse w l of
        (w', Some r) \<Rightarrow> (w', Some r)
      | (w', None) \<Rightarrow> deliver h parse w' ls)"

text \<open>A connecting peer's lines go to the client parser until it has become a server.\<close>

fun deliver_connect :: "('z, 'y) phandlers \<Rightarrow> 'z world \<Rightarrow> char list list \<Rightarrow> 'z world \<times> int option" where
  "deliver_connect h w [] = (w, None)"
| "deliver_connect h w (l # ls) =
     (case run_message h (parse_client h) w l of
        (w', Some r) \<Rightarrow> (w', Some r)
      | (w', None) \<Rightarrow> if IsServer w' then deliver h (parse_server h) w' ls
                     else deliver_connect h w' ls)"

lemma split_lines_append:
  "split_lines p (a @ b) =
     (fst (split_lines p a) @ fst (split_lines (snd (split_lines p a)) b),
      snd (split_lines (snd (split_lines p a)) b))"
  by (induction p a rule: split_lines.induct) auto

lemma deliver_append:
  "deliver h parse w (ls @ ms) =
     (case deliver h parse w ls of (w', Some r) \<Rightarrow> (w', Some r) | (w', None) \<Rightarrow> deliver h parse w' ms)"
  by (induction ls arbitrary: w) (auto split: prod.splits option.splits)

text \<open>
  A split fits a buffer of \<open>n\<close> bytes when every complete line leaves room for its terminator
  and the partial line is no longer than the buffer.
\<close>

definition lines_fit :: "nat \<Rightarrow> char list list \<times> char list \<Rightarrow> bool" where
  "lines_fit n sp \<longleftrightarrow> (\<forall>l \<in> set (fst sp). length l < n) \<and> length (snd sp) \<le> n"

text \<open>The connection holds the partial line \<open>p\<close>.\<close>

definition holds :: "('w, 'x) conn_scheme \<Rightarrow> nat \<Rightarrow> char list \<Rightarrow> bool" where
  "holds s endp p \<longleftrightarrow> length (con_buffer s) = BUFSIZE \<and> endp = length p \<and> endp \<le> BUFSIZE
     \<and> take endp (con_buffer s) = p"

lemma split_lines_fit_prefix:
  "lines_fit n (split_lines p cs) \<Longrightarrow> cs \<noteq> [] \<Longrightarrow> 0 < n \<Longrightarrow> length p < n"
proof (induction p cs rule: split_lines.induct)
  case (2 p c cs)
  then show ?case
    by (cases "cs = []") (auto simp: lines_fit_def split: if_splits)
qed simp

lemma put_byte_holds:
  assumes "holds s endp p" "endp < BUFSIZE"
  shows "\<exists>s'. put_byte s endp c = Inr s' \<and> holds s' (Suc endp) (p @ [c])
    \<and> holds s' endp p \<and> con_client s' = con_client s
    \<and> me_stats s' = me_stats s \<and> cptr_stats s' = cptr_stats s"
  using assms by (auto simp: holds_def put_byte_def take_Suc_conv_app_nth)

lemma holds_congs [simp]:
  "holds (update_messages_received s) = holds s" "holds (update_bytes_received s n) = holds s"
  "holds (s\<lparr>con_client := w\<rparr>) = holds s" "holds (s\<lparr>con_count := k\<rparr>) = holds s"
  by (simp_all add: fun_eq_iff holds_def update_messages_received_def update_bytes_received_def)

lemma holds_empty: "holds s endp p \<Longrightarrow> holds s 0 []"
  by (simp add: holds_def)

lemma update_stats_simps [simp]:
  "con_client (update_messages_received s) = con_client s"
  "con_client (update_bytes_received s n) = con_client s"
  "con_count (update_bytes_received s n) = con_count s"
  "con_buffer (update_messages_received s) = con_buffer s"
  by (simp_all add: update_messages_received_def update_bytes_received_def)

lemma holds_take: "holds s endp p \<Longrightarrow> take endp (con_buffer s) = p \<and> endp = length p"
  by (auto simp: holds_def)

text \<open>
  The result of a packet function is the outcome of delivering the lines of its input: the
  changed client and the code to return, or, when no line ended the connection, the code 1
  with the partial line \<open>rest\<close> kept in the buffer.
\<close>

definition delivers :: "'z world \<times> int option \<Rightarrow> char list \<Rightarrow> (('z, 'x) pconn \<times> int) res \<Rightarrow> bool" where
  "delivers outcome rest result \<longleftrightarrow>
     (\<exists>s' r. result = Inr (s', r)
       \<and> (case outcome of
            (w', Some r') \<Rightarrow> con_client s' = w' \<and> r = r'
          | (w', None) \<Rightarrow> con_client s' = w' \<and> r = 1 \<and> holds s' (con_count s') rest))"

lemma lines_fit_eol:
  "lines_fit n (split_lines p (c # cs)) \<Longrightarrow> IsEol c \<Longrightarrow> lines_fit n (split_lines [] cs)"
  by (auto simp: lines_fit_def split: if_splits)

lemma loop_byte:
  assumes "holds s endp p" "lines_fit BUFSIZE (split_lines p (c # cs))"
  obtains s1 s2 where "endp < BUFSIZE" "endp = length p"
    "put_byte s endp c = Inr s1" "holds s1 (Suc endp) (p @ [c])" "holds s1 endp p"
    "con_client s1 = con_client s"
    "put_byte s1 endp NUL = Inr s2" "holds s2 endp p" "con_client s2 = con_client s"
proof -
  have less: "endp < BUFSIZE"
    using split_lines_fit_prefix [OF assms(2)] assms(1) by (simp add: holds_def BUFSIZE_def)
  obtain s1 where s1: "put_byte s endp c = Inr s1" "holds s1 (Suc endp) (p @ [c])" "holds s1 endp p"
      "con_client s1 = con_client s"
    using put_byte_holds [OF assms(1) less] by blast
  moreover obtain s2 where "put_byte s1 endp NUL = Inr s2" "holds s2 endp p"
      "con_client s2 = con_client s"
    using put_byte_holds [OF s1(3) less] s1(4) by metis
  ultimately show thesis
    using that [OF less] holds_take [OF assms(1)] by blast
qed

lemma server_loop_delivers:
  assumes "holds s endp p" "lines_fit BUFSIZE (split_lines p cs)"
  shows "delivers (deliver h (parse_server h) (con_client s) (fst (split_lines p cs)))
    (snd (split_lines p cs)) (server_loop h s endp cs)"
  using assms
proof (induction cs arbitrary: s endp p)
  case Nil
  then show ?case by (simp add: delivers_def)
next
  case (Cons c cs)
  obtain s1 s2 where len: "endp < BUFSIZE" "endp = length p"
    and s1: "put_byte s endp c = Inr s1" "holds s1 (Suc endp) (p @ [c])" "holds s1 endp p"
      "con_client s1 = con_client s"
    and s2: "put_byte s1 endp NUL = Inr s2" "holds s2 endp p" "con_client s2 = con_client s"
    by (rule loop_byte [OF Cons.prems])
  show ?case
  proof (cases "IsEol c")
    case False
    then show ?thesis
      using Cons.IH [of s1 "Suc endp" "p @ [c]"] Cons.prems(2) s1 len(1) by simp
  next
    case eol: True
    note fit = lines_fit_eol [OF Cons.prems(2) eol]
    show ?thesis
    proof (cases "p = []")
      case True
      then show ?thesis
        using Cons.IH [of s1 endp p] s1 fit eol len by simp
    next
      case False
      obtain w ret where r: "run_message h (parse_server h) (con_client s) p = (w, ret)"
        by fastforce
      show ?thesis
        using Cons.IH [of "(update_messages_received s2)\<lparr>con_client := w\<rparr>" 0 "[]"]
          s1 s2 fit eol len False r holds_empty [OF s2(2)] holds_take [OF s2(2)]
        by (cases ret) (auto simp: Let_def delivers_def)
    qed
  qed
qed

lemma connect_loop_delivers:
  assumes "holds s endp p" "lines_fit BUFSIZE (split_lines p cs)"
  shows "delivers (deliver_connect h (con_client s) (fst (split_lines p cs)))
    (snd (split_lines p cs)) (connect_loop h s endp cs)"
  using assms
proof (induction cs arbitrary: s endp p)
  case Nil
  then show ?case by (simp add: delivers_def)
next
  case (Cons c cs)
  obtain s1 s2 where len: "endp < BUFSIZE" "endp = length p"
    and s1: "put_byte s endp c = Inr s1" "holds s1 (Suc endp) (p @ [c])" "holds s1 endp p"
      "con_client s1 = con_client s"
    and s2: "put_byte s1 endp NUL = Inr s2" "holds s2 endp p" "con_client s2 = con_client s"
    by (rule loop_byte [OF Cons.prems])
  show ?case
  proof (cases "IsEol c")
    case False
    then show ?thesis
      using Cons.IH [of s1 "Suc endp" "p @ [c]"] Cons.prems(2) s1 len(1) by simp
  next
    case eol: True
    note fit = lines_fit_eol [OF Cons.prems(2) eol]
    show ?thesis
    proof (cases "p = []")
      case True
      then show ?thesis
        using Cons.IH [of s1 endp p] s1 fit eol len by simp
    next
      case False
      obtain w ret where r: "run_message h (parse_client h) (con_client s) p = (w, ret)"
        by fastforce
      let ?s4 = "(update_messages_received s2)\<lparr>con_client := w\<rparr>"
      note empty = holds_empty [OF s2(2)]
      have server: "delivers (deliver h (parse_server h) w (fst (split_lines [] cs)))
          (snd (split_lines [] cs)) (server_dopacket h (?s4\<lparr>con_count := 0\<rparr>) cs)"
        using server_loop_delivers [of "update_bytes_received (?s4\<lparr>con_count := 0\<rparr>) (length cs)" 0 "[]" cs h]
          empty fit by (simp add: server_dopacket_def)
      show ?thesis
        using Cons.IH [of ?s4 0 "[]"] server
          s1 s2 fit eol len False r empty holds_take [OF s2(2)]
        by (cases ret) (auto simp: Let_def delivers_def)
    qed
  qed
qed

lemma server_dopacket_fits:
  "holds s (con_count s) p \<Longrightarrow> lines_fit BUFSIZE (split_lines p buffer) \<Longrightarrow>
   delivers (deliver h (parse_server h) (con_client s) (fst (split_lines p buffer)))
     (snd (split_lines p buffer)) (server_dopacket h s buffer)"
  using server_loop_delivers [of "update_bytes_received s (length buffer)"]
  by (simp add: server_dopacket_def)

lemma lines_fit_append:
  "lines_fit n (split_lines p (a @ b)) \<Longrightarrow> 0 < n \<Longrightarrow>
   lines_fit n (split_lines p a) \<and> lines_fit n (split_lines (snd (split_lines p a)) b)"
  using split_lines_fit_prefix [of n "snd (split_lines p a)" b]
  by (cases "b = []") (auto simp: lines_fit_def split_lines_append)

lemma server_loop_overflow:
  "holds s endp p \<Longrightarrow> \<forall>c \<in> set cs. \<not> IsEol c \<Longrightarrow> BUFSIZE < length p + length cs \<Longrightarrow>
   server_loop h s endp cs = Inl Overrun"
proof (induction cs arbitrary: s endp p)
  case (Cons c cs)
  show ?case
  proof (cases "endp < BUFSIZE")
    case True
    then obtain s1 where "put_byte s endp c = Inr s1" "holds s1 (Suc endp) (p @ [c])"
      using put_byte_holds [OF Cons.prems(1)] by blast
    then show ?thesis
      using Cons.IH [of s1 "Suc endp" "p @ [c]"] Cons.prems True by simp
  next
    case False
    then show ?thesis using Cons.prems(1) by (simp add: holds_def put_byte_def)
  qed
qed (simp add: holds_def)

lemma split_lines_no_eol: "\<forall>c \<in> set cs. \<not> IsEol c \<Longrightarrow> split_lines p cs = ([], p @ cs)"
  by (induction cs arbitrary: p) auto

section \<open>Reading from a client's queue\<close>

text \<open>
  \<open>read_packet\<close>. The receive queue and the pool it shares are the pair \<open>recvQ\<close>, and
  \<open>cli_proc_onqueue\<close> is \<open>t_onqueue\<close> of the connection's timer. The result of the socket read is
  an argument. \<open>None\<close> is a loop that does not end. \<open>dbuf_getmsg\<close> writes the line to the message
  buffer, where \<open>client_dopacket\<close> reads it: the model passes it on.
\<close>

datatype io_result = IO_SUCCESS "char list" | IO_BLOCKED | IO_FAILURE int

record read_env =
  re_put :: put_env
  re_CurrentTime :: int
  re_CLIENT_FLOOD :: nat

record 'w rconn = "'w conn" +
  recvQ :: "pool \<times> DBuf"
  cli_proc_onqueue :: bool

type_synonym 'z rpconn = "'z world rconn"

definition SERVER_TCP_WINDOW :: nat where "SERVER_TCP_WINDOW = 61440"

abbreviation DBufLength :: "pool \<times> DBuf \<Rightarrow> nat" where
  "DBufLength q \<equiv> dyn_length (snd q)"

definition DBufClear :: "pool \<times> DBuf \<Rightarrow> pool \<times> DBuf" where
  "DBufClear q = dbuf_delete (fst q) (snd q) (DBufLength q)"

definition update_client :: "('w \<Rightarrow> 'w) \<Rightarrow> ('w, 'x) conn_scheme \<Rightarrow> ('w, 'x) conn_scheme" where
  "update_client f s = s\<lparr>con_client := f (con_client s)\<rparr>"

text \<open>
  What the handlers that took the client from \<open>w\<close> to \<open>w'\<close> did to the queue: whether they cleared
  it, and what they made of the pool by exiting or flushing other connections. The functions of
  \<open>packet.c\<close> do not look at the queue, so the effect is applied when they return.
\<close>

record 'w rhandlers = "'w handlers" +
  recvQ_cleared :: "'w \<Rightarrow> 'w \<Rightarrow> bool"
  pool_after :: "'w \<Rightarrow> 'w \<Rightarrow> pool \<Rightarrow> pool"

type_synonym 'z rphandlers = "'z world rhandlers"

definition after_handlers :: "'z rphandlers \<Rightarrow> 'z world \<Rightarrow> 'z rpconn \<Rightarrow> 'z rpconn" where
  "after_handlers h w s =
     (let q = (if recvQ_cleared h w (con_client s) then DBufClear (recvQ s) else recvQ s)
      in s\<lparr>recvQ := (pool_after h w (con_client s) (fst q), snd q)\<rparr>)"

definition with_queue :: "'z rphandlers \<Rightarrow> 'z world \<Rightarrow> ('z rpconn \<times> int) res \<Rightarrow> ('z rpconn \<times> int) res" where
  "with_queue h w result = res_bind result (\<lambda>(s, r). Inr (after_handlers h w s, r))"

text \<open>The bookkeeping after bytes have arrived.\<close>

definition note_data :: "int \<Rightarrow> 'z world \<Rightarrow> 'z world" where
  "note_data now w =
     (let w1 = (if \<not> IsServer w then w\<lparr>cli_lasttime := now\<rparr> else w);
          w2 = (if cli_since w1 < cli_lasttime w1 then w1\<lparr>cli_since := cli_lasttime w1\<rparr> else w1)
      in ClrFlag (ClrFlag w2 FLAG_PINGSENT) FLAG_NONL)"

definition may_parse :: "read_env \<Rightarrow> 'z world \<Rightarrow> bool" where
  "may_parse e w \<longleftrightarrow> \<not> NoNewLine w
     \<and> (IsTrusted w \<or> IsOper w \<or> IsBot w \<or> cli_since w - re_CurrentTime e < 10)"

text \<open>The inner loop, once the connection has become a server or sent its handshake.\<close>

partial_function (option) drain_loop :: "'z rphandlers \<Rightarrow> 'z rpconn
    \<Rightarrow> ('z rpconn \<times> int) res option" where
  "drain_loop h s =
     (case dbuf_get (fst (recvQ s)) (snd (recvQ s)) SERVER_TCP_WINDOW of
        None \<Rightarrow> None
      | Some (Inl e) \<Rightarrow> Some (Inl e)
      | Some (Inr (p, q, data)) \<Rightarrow>
          (let s1 = s\<lparr>recvQ := (p, q)\<rparr> in
           if data = [] then Some (Inr (s1, 1))
           else
             (case (if IsServer (con_client s1) then with_queue h (con_client s1) (server_dopacket h s1 data)
                   else Inr (s1, 1)) of
                Inl e \<Rightarrow> Some (Inl e)
              | Inr (s2, r) \<Rightarrow>
                  if IsServer (con_client s1) \<and> r = CPTR_KILLED then Some (Inr (s2, CPTR_KILLED))
                  else
                    (case (if \<not> IsServer (con_client s2) then with_queue h (con_client s2) (connect_dopacket h s2 data)
                          else Inr (s2, 1)) of
                       Inl e \<Rightarrow> Some (Inl e)
                     | Inr (s3, r') \<Rightarrow>
                         if \<not> IsServer (con_client s2) \<and> r' = CPTR_KILLED
                         then Some (Inr (s3, CPTR_KILLED))
                         else drain_loop h s3))))"

text \<open>One message of the outer loop: the new state and, when the connection was killed, its code.\<close>

definition parse_one :: "'z rphandlers \<Rightarrow> 'z rpconn \<Rightarrow> ('z rpconn \<times> int) res" where
  "parse_one h s =
     res_bind (dbuf_getmsg (fst (recvQ s)) (snd (recvQ s)) BUFSIZE) (\<lambda>(p, q, msg).
       let s1 = s\<lparr>recvQ := (p, q)\<rparr>;
           line = (case msg of None \<Rightarrow> [] | Some l \<Rightarrow> l)
       in if line = [] then
            (if DBufLength (recvQ s1) < 510
             then Inr (update_client (\<lambda>w. SetFlag w FLAG_NONL) s1, 1)
             else Inr (s1\<lparr>recvQ := DBufClear (recvQ s1)\<rparr>, 1))
          else with_queue h (con_client s1) (Inr (client_dopacket h s1 line)))"

partial_function (option) packet_loop :: "'z rphandlers \<Rightarrow> read_env \<Rightarrow> 'z rpconn
    \<Rightarrow> ('z rpconn \<times> int option) res option" where
  "packet_loop h e s =
     (if DBufLength (recvQ s) \<noteq> 0 \<and> may_parse e (con_client s) then
        (case parse_one h s of
           Inl f \<Rightarrow> Some (Inl f)
         | Inr (s1, r) \<Rightarrow>
             if r = CPTR_KILLED then Some (Inr (s1, Some CPTR_KILLED))
             else if IsHandshake (con_client s1) \<or> IsServer (con_client s1) then
               map_option (\<lambda>x. res_bind x (\<lambda>(s2, r2). Inr (s2, Some r2))) (drain_loop h s1)
             else packet_loop h e s1)
      else Some (Inr (s, None)))"

text \<open>The flood limit that stops reading, and that ends an ordinary user's connection.\<close>

definition over_limit :: "read_env \<Rightarrow> 'z rpconn \<Rightarrow> bool" where
  "over_limit e s \<longleftrightarrow> IsUser (con_client s) \<and> \<not> IsOper (con_client s) \<and> \<not> IsBot (con_client s)
     \<and> re_CLIENT_FLOOD e < DBufLength (recvQ s)"

definition exit_conn :: "'z rphandlers \<Rightarrow> 'z rpconn \<Rightarrow> string \<Rightarrow> 'z rpconn \<times> int" where
  "exit_conn h s why =
     (let (w, r) = exit_client h (con_client s) (Comment why)
      in (after_handlers h (con_client s) (s\<lparr>con_client := w\<rparr>), r))"

definition parse_queued :: "'z rphandlers \<Rightarrow> read_env \<Rightarrow> 'z rpconn \<Rightarrow> ('z rpconn \<times> int) res option" where
  "parse_queued h e s =
     (if over_limit e s then Some (Inr (exit_conn h s ''Excess Flood''))
      else map_option (\<lambda>x. res_bind x (\<lambda>(s1, ret).
        case ret of Some r \<Rightarrow> Inr (s1, r)
        | None \<Rightarrow>
            Inr (if DBufLength (recvQ s1) \<noteq> 0 \<and> \<not> NoNewLine (con_client s1) \<and> \<not> cli_proc_onqueue s1
                 then s1\<lparr>cli_proc_onqueue := True\<rparr> else s1, 1)))
        (packet_loop h e s))"

definition read_packet :: "'z rphandlers \<Rightarrow> read_env \<Rightarrow> 'z rpconn \<Rightarrow> bool \<Rightarrow> io_result
    \<Rightarrow> ('z rpconn \<times> int) res option" where
  "read_packet h e s socket_ready io =
     (case (if socket_ready \<and> \<not> over_limit e s then io else IO_SUCCESS []) of
        IO_FAILURE errno \<Rightarrow> Some (Inr (update_client (\<lambda>w. w\<lparr>cli_error := errno\<rparr>) s, 0))
      | r \<Rightarrow>
          (let data = (case r of IO_SUCCESS bytes \<Rightarrow> bytes | _ \<Rightarrow> []);
               s1 = (if data \<noteq> [] then update_client (note_data (re_CurrentTime e)) s else s);
               w = con_client s1
           in if data \<noteq> [] \<and> IsServer w then Some (with_queue h w (server_dopacket h s1 data))
              else if data \<noteq> [] \<and> (IsHandshake w \<or> IsConnecting w) then Some (with_queue h w (connect_dopacket h s1 data))
              else
                (let (q, ok) = (if data \<noteq> [] then
                                  (let (p', dyn', ok) = dbuf_put (re_put e) (fst (recvQ s1)) (snd (recvQ s1)) data
                                   in ((p', dyn'), ok))
                                else (recvQ s1, True));
                     s2 = s1\<lparr>recvQ := q\<rparr>
                 in if \<not> ok then Some (Inr (exit_conn h s2 ''dbuf_put fail''))
                    else parse_queued h e s2)))"

section \<open>The queue's contract\<close>

text \<open>
  What \<open>read_packet\<close> relies on: a byte queue whose \<open>getmsg\<close> takes the next line, of at most
  \<open>n - 1\<close> bytes, off the front.
\<close>

definition next_line :: "nat \<Rightarrow> char list \<Rightarrow> char list option" where
  "next_line n c =
     (let c' = dropWhile IsEol c; line = takeWhile (\<lambda>x. \<not> IsEol x) c'
      in if length line < min n (length c') then Some line else None)"

definition after_line :: "nat \<Rightarrow> char list \<Rightarrow> char list" where
  "after_line n c =
     (case next_line n c of None \<Rightarrow> dropWhile IsEol c
      | Some line \<Rightarrow> dropWhile IsEol (drop (length line) (dropWhile IsEol c)))"

lemma next_line_nonempty: "next_line n c = Some line \<Longrightarrow> line \<noteq> []"
  using hd_dropWhile [of IsEol c]
  by (cases "dropWhile IsEol c") (auto simp: next_line_def Let_def split: if_splits)

lemma after_line_shrinks:
  assumes "next_line n c = Some line"
  shows "length (after_line n c) < length c"
proof -
  let ?c = "dropWhile IsEol c"
  have "line = takeWhile (\<lambda>x. \<not> IsEol x) ?c" "0 < length line"
    using assms next_line_nonempty [OF assms] by (auto simp: next_line_def Let_def split: if_splits)
  moreover have "length (after_line n c) \<le> length ?c - length line"
    using assms by (simp add: after_line_def le_trans [OF length_dropWhile_le])
  moreover have "length ?c \<le> length c" "length line \<le> length ?c"
    using \<open>line = _\<close> by (simp_all add: length_dropWhile_le length_takeWhile_le)
  ultimately show ?thesis by linarith
qed

locale line_queue =
  fixes inv :: "'q \<Rightarrow> bool"
    and bytes :: "'q \<Rightarrow> char list"
    and len :: "'q \<Rightarrow> nat"
    and getmsg :: "'q \<Rightarrow> nat \<Rightarrow> ('q \<times> char list option) res"
    and get :: "'q \<Rightarrow> nat \<Rightarrow> ('q \<times> char list) res option"
    and clear :: "'q \<Rightarrow> 'q"
  assumes len_bytes: "inv q \<Longrightarrow> len q = length (bytes q)"
    and getmsg_law: "inv q \<Longrightarrow> \<exists>q'. getmsg q n = Inr (q', next_line n (bytes q)) \<and> inv q'
          \<and> bytes q' = after_line n (bytes q)"
    and get_law: "inv q \<Longrightarrow> \<exists>q'. get q n = Some (Inr (q', take n (bytes q))) \<and> inv q'
          \<and> bytes q' = drop n (bytes q)"
    and clear_law: "inv q \<Longrightarrow> inv (clear q) \<and> bytes (clear q) = []"
begin

lemma getmsg_shrinks:
  assumes "inv q" "getmsg q n = Inr (q', Some line)"
  shows "len q' < len q"
  using getmsg_law [OF assms(1), of n] assms len_bytes [of q] len_bytes [of q']
    after_line_shrinks [of n "bytes q" line] by auto

lemma get_shrinks:
  "inv q \<Longrightarrow> get q n = Some (Inr (q', data)) \<Longrightarrow> data \<noteq> [] \<Longrightarrow> len q' < len q"
  using get_law [of q n] len_bytes [of q] len_bytes [of q'] by auto

end

text \<open>The receive queue of a connection provides the contract.\<close>

text \<open>
  A well-formed queue; of the used blocks of the pool at most \<open>k\<close> are not its own.
\<close>

definition recvQ_ok :: "nat \<Rightarrow> pool \<times> DBuf \<Rightarrow> bool" where
  "recvQ_ok k q \<longleftrightarrow> dbuf_ok (snd q) \<and> (\<exists>k' \<le> k. pool_ok k' (fst q) (length (bufs (snd q))))"

definition recvQ_getmsg :: "pool \<times> DBuf \<Rightarrow> nat \<Rightarrow> ((pool \<times> DBuf) \<times> char list option) res" where
  "recvQ_getmsg q n =
     res_bind (dbuf_getmsg (fst q) (snd q) n) (\<lambda>(p, d, msg). Inr ((p, d), msg))"

definition recvQ_get :: "pool \<times> DBuf \<Rightarrow> nat \<Rightarrow> ((pool \<times> DBuf) \<times> char list) res option" where
  "recvQ_get q n =
     map_option (\<lambda>x. res_bind x (\<lambda>(p, d, data). Inr ((p, d), data))) (dbuf_get (fst q) (snd q) n)"

interpretation recv: line_queue "recvQ_ok k" "\<lambda>q. content (snd q)" DBufLength recvQ_getmsg recvQ_get DBufClear
  for k
proof
  fix q :: "pool \<times> DBuf" and n :: nat
  assume "recvQ_ok k q"
  then obtain k' where k: "k' \<le> k" "dbuf_ok (snd q)" "pool_ok k' (fst q) (length (bufs (snd q)))"
    by (auto simp: recvQ_ok_def)
  then show "DBufLength q = length (content (snd q))"
    by (simp add: dbuf_ok_def)
  show "\<exists>q'. recvQ_getmsg q n = Inr (q', next_line n (content (snd q))) \<and> recvQ_ok k q'
          \<and> content (snd q') = after_line n (content (snd q))"
    using dbuf_getmsg_ok [OF k(2,3), of n] k(1)
    by (fastforce simp: recvQ_ok_def recvQ_getmsg_def next_line_def after_line_def Let_def)
  show "\<exists>q'. recvQ_get q n = Some (Inr (q', take n (content (snd q)))) \<and> recvQ_ok k q'
          \<and> content (snd q') = drop n (content (snd q))"
    using get_loop_ok [OF k(2,3), of n "[]"] k(1)
    by (fastforce simp: recvQ_ok_def recvQ_get_def dbuf_get_def)
  show "recvQ_ok k (DBufClear q) \<and> content (snd (DBufClear q)) = []"
    using dbuf_delete_ok [OF k(2,3), of "DBufLength q" "fst (DBufClear q)" "snd (DBufClear q)"] k
    by (auto simp: recvQ_ok_def DBufClear_def dbuf_ok_def)
qed

text \<open>Handlers keep the counters of the pool and the blocks of this connection, and take no new blocks.\<close>

definition handlers_ok :: "'z rphandlers \<Rightarrow> bool" where
  "handlers_ok h \<longleftrightarrow> (\<forall>w w' p n k. pool_ok k p n \<longrightarrow> (\<exists>k' \<le> k. pool_ok k' (pool_after h w w' p) n))"

lemma after_handlers_ok:
  assumes "handlers_ok h" "recvQ_ok k (recvQ s)"
  shows "recvQ_ok k (recvQ (after_handlers h w s)) \<and> con_client (after_handlers h w s) = con_client s
    \<and> content (snd (recvQ (after_handlers h w s)))
        = (if recvQ_cleared h w (con_client s) then [] else content (snd (recvQ s)))"
proof -
  define q where "q = (if recvQ_cleared h w (con_client s) then DBufClear (recvQ s) else recvQ s)"
  have q: "recvQ_ok k q" "content (snd q)
      = (if recvQ_cleared h w (con_client s) then [] else content (snd (recvQ s)))"
    using recv.clear_law [OF assms(2)] assms(2) by (simp_all add: q_def)
  then obtain k' where k: "k' \<le> k" "dbuf_ok (snd q)" "pool_ok k' (fst q) (length (bufs (snd q)))"
    by (auto simp: recvQ_ok_def)
  obtain k'' where "k'' \<le> k'" "pool_ok k'' (pool_after h w (con_client s) (fst q)) (length (bufs (snd q)))"
    using assms(1) k(3) unfolding handlers_ok_def by blast
  then have "\<exists>k' \<le> k. pool_ok k' (pool_after h w (con_client s) (fst q)) (length (bufs (snd q)))"
    using k(1) le_trans by blast
  with k(2) q(2) show ?thesis by (simp add: after_handlers_def flip: q_def) (simp add: recvQ_ok_def)
qed

section \<open>The parse loop on byte strings\<close>

text \<open>
  The loop of \<open>read_packet\<close> on the bytes of the queue: it stops because there is nothing it may
  parse (\<open>Idle\<close>), a message killed the connection (\<open>Gone\<close>), or a message made it a server or
  handshaking peer (\<open>Switched\<close>).
\<close>

datatype 'w outcome = Idle 'w "char list" | Gone 'w "char list" | Switched 'w "char list"

function queue_spec :: "'z rphandlers \<Rightarrow> read_env \<Rightarrow> 'z world \<Rightarrow> char list \<Rightarrow> 'z world outcome" where
  "queue_spec h e w c =
     (if c = [] \<or> \<not> may_parse e w then Idle w c
      else case next_line BUFSIZE c of
        None \<Rightarrow>
          (let keep = length (after_line BUFSIZE c) < 510;
               w' = (if keep then SetFlag w FLAG_NONL else w);
               c' = (if keep then after_line BUFSIZE c else [])
           in if IsHandshake w' \<or> IsServer w' then Switched w' c' else Idle w' c')
      | Some line \<Rightarrow>
          (let (w', ret) = run_message h (parse_client h) w line;
               c' = (if recvQ_cleared h w w' then [] else after_line BUFSIZE c)
           in if ret = Some CPTR_KILLED then Gone w' c'
              else if IsHandshake w' \<or> IsServer w' then Switched w' c'
              else queue_spec h e w' c'))"
  by pat_completeness auto
termination
  by (relation "measure (\<lambda>(h, e, w, c). length c)") (auto dest: after_line_shrinks)

declare queue_spec.simps [simp del]

definition conn_at :: "nat \<Rightarrow> 'z rpconn \<Rightarrow> 'z world \<Rightarrow> char list \<Rightarrow> bool" where
  "conn_at k s w c \<longleftrightarrow> con_client s = w \<and> recvQ_ok k (recvQ s) \<and> content (snd (recvQ s)) = c"

lemma client_dopacket_result:
  assumes "client_dopacket h s line = (s', r)"
    and "run_message h (parse_client h) (con_client s) line = (w, ret)"
  shows "con_client s' = w \<and> (r = CPTR_KILLED \<longleftrightarrow> ret = Some CPTR_KILLED)"
  using assms by (auto simp: client_dopacket_def CPTR_KILLED_def split: prod.splits option.splits)

lemma client_dopacket_recvQ: "client_dopacket h s line = (s', r) \<Longrightarrow> recvQ s' = recvQ (s :: 'z rpconn)"
  by (auto simp: client_dopacket_def update_messages_received_def update_bytes_received_def
      split: prod.splits)

text \<open>One message: the implementation's step in terms of the queue's bytes.\<close>

lemma parse_one_step:
  assumes "handlers_ok h" "conn_at k s w c"
  shows "\<exists>s1 r. parse_one h s = Inr (s1, r) \<and>
    (case next_line BUFSIZE c of
       None \<Rightarrow> r = 1 \<and>
         (if length (after_line BUFSIZE c) < 510 then conn_at k s1 (SetFlag w FLAG_NONL) (after_line BUFSIZE c)
          else conn_at k s1 w [])
     | Some line \<Rightarrow>
         (case run_message h (parse_client h) w line of
            (w', ret) \<Rightarrow> conn_at k s1 w' (if recvQ_cleared h w w' then [] else after_line BUFSIZE c) \<and> (r = CPTR_KILLED \<longleftrightarrow> ret = Some CPTR_KILLED)))"
proof -
  have ok: "recvQ_ok k (recvQ s)" and w: "con_client s = w" and c: "content (snd (recvQ s)) = c"
    using assms(2) by (auto simp: conn_at_def)
  obtain p d where g: "recvQ_getmsg (recvQ s) BUFSIZE = Inr ((p, d), next_line BUFSIZE c)"
      and ok': "recvQ_ok k (p, d)" and c': "content d = after_line BUFSIZE c"
    using recv.getmsg_law [OF ok, of BUFSIZE] c by auto
  have get: "dbuf_getmsg (fst (recvQ s)) (snd (recvQ s)) BUFSIZE = Inr (p, d, next_line BUFSIZE c)"
    using g by (auto simp: recvQ_getmsg_def res_bind_Inr_iff)
  have len: "dyn_length d = length (after_line BUFSIZE c)"
    using recv.len_bytes [OF ok'] c' by simp
  let ?s1 = "s\<lparr>recvQ := (p, d)\<rparr>"
  show ?thesis
  proof (cases "next_line BUFSIZE c")
    case None
    then show ?thesis
      using get ok' c' w len recv.clear_law [OF ok']
      by (cases "length (after_line BUFSIZE c) < 510")
        (simp_all add: parse_one_def update_client_def conn_at_def)
  next
    case (Some line)
    obtain s2 r where d: "client_dopacket h ?s1 line = (s2, r)" by fastforce
    obtain w' ret where m: "run_message h (parse_client h) w line = (w', ret)" by fastforce
    have s2: "con_client s2 = w'" "r = CPTR_KILLED \<longleftrightarrow> ret = Some CPTR_KILLED" "recvQ s2 = (p, d)"
      using client_dopacket_result [OF d, of w' ret] client_dopacket_recvQ [OF d] m w by simp_all
    have "parse_one h s = Inr (after_handlers h w s2, r)"
      using get Some d w next_line_nonempty [OF Some] by (simp add: parse_one_def with_queue_def)
    moreover have "conn_at k (after_handlers h w s2) w'
        (if recvQ_cleared h w w' then [] else after_line BUFSIZE c)"
      using after_handlers_ok [OF assms(1), of k s2 w] s2 ok' c' by (simp add: conn_at_def)
    ultimately show ?thesis
      using Some m s2(2) by simp
  qed
qed

lemma packet_loop_queue_spec:
  assumes "handlers_ok h" "conn_at k s w c"
  shows "case queue_spec h e w c of
      Idle w' c' \<Rightarrow> \<exists>s'. packet_loop h e s = Some (Inr (s', None)) \<and> conn_at k s' w' c'
    | Gone w' c' \<Rightarrow> \<exists>s'. packet_loop h e s = Some (Inr (s', Some CPTR_KILLED)) \<and> conn_at k s' w' c'
    | Switched w' c' \<Rightarrow> \<exists>s'. conn_at k s' w' c' \<and> packet_loop h e s =
        map_option (\<lambda>x. res_bind x (\<lambda>(s2, r2). Inr (s2, Some r2))) (drain_loop h s')"
  using assms
proof (induction h e w c arbitrary: s rule: queue_spec.induct)
  case (1 h e w c)
  note step = packet_loop.simps [of h e s] queue_spec.simps [of h e w c]
  have len: "DBufLength (recvQ s) = 0 \<longleftrightarrow> c = []" and w: "con_client s = w"
    using 1(3) recv.len_bytes [of k "recvQ s"] by (auto simp: conn_at_def)
  obtain s1 r where p: "parse_one h s = Inr (s1, r)"
    and s1: "case next_line BUFSIZE c of
       None \<Rightarrow> r = 1 \<and>
         (if length (after_line BUFSIZE c) < 510 then conn_at k s1 (SetFlag w FLAG_NONL) (after_line BUFSIZE c)
          else conn_at k s1 w [])
     | Some line \<Rightarrow>
         (case run_message h (parse_client h) w line of
            (w', ret) \<Rightarrow> conn_at k s1 w' (if recvQ_cleared h w w' then [] else after_line BUFSIZE c) \<and> (r = CPTR_KILLED \<longleftrightarrow> ret = Some CPTR_KILLED))"
    using parse_one_step [OF 1(2,3)] by blast
  show ?case
  proof (cases "c = [] \<or> \<not> may_parse e w")
    case True
    then show ?thesis using 1(3) len w by (auto simp: step)
  next
    case go: False
    show ?thesis
    proof (cases "next_line BUFSIZE c")
      case None
      let ?keep = "length (after_line BUFSIZE c) < 510"
      define w' c' where "w' = (if ?keep then SetFlag w FLAG_NONL else w)"
        and "c' = (if ?keep then after_line BUFSIZE c else [])"
      have at: "conn_at k s1 w' c'" and r: "r = 1" and stop: "c' = [] \<or> \<not> may_parse e w'"
        using s1 None by (auto simp: w'_def c'_def may_parse_def split: if_splits)
      have idle: "packet_loop h e s1 = Some (Inr (s1, None))"
        using packet_loop.simps [of h e s1] stop at recv.len_bytes [of k "recvQ s1"]
        by (auto simp: conn_at_def)
      have spec: "queue_spec h e w c = (if IsHandshake w' \<or> IsServer w' then Switched w' c' else Idle w' c')"
        using go None by (simp add: step w'_def c'_def Let_def)
      show ?thesis
        using go len w p r at idle
        by (auto simp: spec packet_loop.simps [of h e s] conn_at_def CPTR_KILLED_def)
    next
      case (Some line)
      obtain w' ret where m: "run_message h (parse_client h) w line = (w', ret)" by fastforce
      let ?c = "if recvQ_cleared h w w' then [] else after_line BUFSIZE c"
      have at: "conn_at k s1 w' ?c" and r: "r = CPTR_KILLED \<longleftrightarrow> ret = Some CPTR_KILLED"
        using s1 Some m by auto
      show ?thesis
        using go len w p at r Some m 1(1) [OF go Some, of "(w', ret)" w' ret ?c s1] 1(2)
        by (auto simp: step conn_at_def Let_def split: outcome.splits)
    qed
  qed
qed

section \<open>The whole of \<open>read_packet\<close>\<close>

lemma server_loop_recvQ:
  "server_loop h s endp cs = Inr (s', r) \<Longrightarrow> recvQ s' = recvQ (s :: 'z rpconn)"
proof (induction cs arbitrary: s endp)
  case (Cons c cs)
  then show ?case
    by (fastforce simp: res_bind_Inr_iff put_byte_def update_messages_received_def Let_def
        split: if_splits prod.splits option.splits)
qed auto

lemma server_dopacket_recvQ:
  "server_dopacket h s data = Inr (s', r) \<Longrightarrow> recvQ s' = recvQ (s :: 'z rpconn)"
  using server_loop_recvQ [of h "update_bytes_received s (length data)" "con_count s" data s' r]
  by (simp add: server_dopacket_def) (simp add: update_bytes_received_def)

lemma connect_loop_recvQ:
  "connect_loop h s endp cs = Inr (s', r) \<Longrightarrow> recvQ s' = recvQ (s :: 'z rpconn)"
proof (induction cs arbitrary: s endp)
  case (Cons c cs)
  then show ?case
    by (fastforce simp: res_bind_Inr_iff put_byte_def update_messages_received_def Let_def
        dest: server_dopacket_recvQ split: if_splits prod.splits option.splits)
qed auto

lemma connect_dopacket_recvQ:
  "connect_dopacket h s data = Inr (s', r) \<Longrightarrow> recvQ s' = recvQ (s :: 'z rpconn)"
  using connect_loop_recvQ [of h "update_bytes_received s (length data)" "con_count s" data s' r]
  by (simp add: connect_dopacket_def) (simp add: update_bytes_received_def)

text \<open>A call that returns: the queue is well formed afterwards unless a buffer was overrun.\<close>

definition returns_ok :: "nat \<Rightarrow> ('z rpconn \<times> 'r) res option \<Rightarrow> bool" where
  "returns_ok k x \<longleftrightarrow> (case x of None \<Rightarrow> False | Some (Inl f) \<Rightarrow> f = Overrun
     | Some (Inr (s, r)) \<Rightarrow> recvQ_ok k (recvQ s))"

lemma server_loop_faults: "server_loop h s endp cs = Inl f \<Longrightarrow> f = Overrun"
  by (induction cs arbitrary: s endp)
    (fastforce simp: put_byte_def res_bind_def Let_def split: if_splits prod.splits option.splits sum.splits)+

lemma connect_loop_faults: "connect_loop h s endp cs = Inl f \<Longrightarrow> f = Overrun"
  by (induction cs arbitrary: s endp)
    (fastforce simp: put_byte_def res_bind_def Let_def server_dopacket_def dest: server_loop_faults
      split: if_splits prod.splits option.splits sum.splits)+

lemma dopacket_faults:
  "server_dopacket h s data = Inl f \<Longrightarrow> f = Overrun"
  "connect_dopacket h s data = Inl f \<Longrightarrow> f = Overrun"
  by (auto simp: server_dopacket_def connect_dopacket_def Let_def
      dest: server_loop_faults connect_loop_faults)

lemma with_queue_ok:
  assumes "handlers_ok h" "recvQ_ok k q"
    and "\<And>s r. result = Inr (s, r) \<Longrightarrow> recvQ s = q" "\<And>f. result = Inl f \<Longrightarrow> f = Overrun"
  shows "case with_queue h w result of Inl f \<Rightarrow> f = Overrun
    | Inr (s, r) \<Rightarrow> recvQ_ok k (recvQ s) \<and> DBufLength (recvQ s) \<le> DBufLength q"
proof (cases result)
  case (Inl f)
  then show ?thesis using assms(4) by (simp add: with_queue_def)
next
  case (Inr a)
  then obtain s r where s: "result = Inr (s, r)" "recvQ s = q"
    using assms(3) by (cases a) auto
  let ?s = "after_handlers h w s"
  have ok: "recvQ_ok k (recvQ ?s)" and "length (content (snd (recvQ ?s))) \<le> length (content (snd q))"
    using after_handlers_ok [OF assms(1), of k s w] assms(2) s(2) by auto
  then show ?thesis
    using s(1) recv.len_bytes [OF ok] recv.len_bytes [OF assms(2)] by (simp add: with_queue_def)
qed

lemma server_with_queue_ok:
  assumes "handlers_ok h" "recvQ_ok k (recvQ s)"
  shows "case with_queue h w (server_dopacket h s data) of Inl f \<Rightarrow> f = Overrun
    | Inr (s', r) \<Rightarrow> recvQ_ok k (recvQ s') \<and> DBufLength (recvQ s') \<le> DBufLength (recvQ s)"
  by (rule with_queue_ok [OF assms]) (auto dest: server_dopacket_recvQ dopacket_faults)

lemma connect_with_queue_ok:
  assumes "handlers_ok h" "recvQ_ok k (recvQ s)"
  shows "case with_queue h w (connect_dopacket h s data) of Inl f \<Rightarrow> f = Overrun
    | Inr (s', r) \<Rightarrow> recvQ_ok k (recvQ s') \<and> DBufLength (recvQ s') \<le> DBufLength (recvQ s)"
  by (rule with_queue_ok [OF assms]) (auto dest: connect_dopacket_recvQ dopacket_faults)

lemma dopacket_returns_ok:
  assumes "handlers_ok h" "recvQ_ok k (recvQ s)"
  shows "returns_ok k (Some (with_queue h w (server_dopacket h s data)))"
    and "returns_ok k (Some (with_queue h w (connect_dopacket h s data)))"
  using server_with_queue_ok [OF assms, of w data] connect_with_queue_ok [OF assms, of w data]
  by (auto simp: returns_ok_def split: sum.splits)

lemma drain_loop_returns:
  fixes s :: "'z rpconn"
  shows "handlers_ok h \<Longrightarrow> recvQ_ok k (recvQ s) \<Longrightarrow> returns_ok k (drain_loop h s)"
proof (induction "DBufLength (recvQ s)" arbitrary: s rule: less_induct)
  case less
  note hok = less.prems(1)
  obtain p q data where g: "dbuf_get (fst (recvQ s)) (snd (recvQ s)) SERVER_TCP_WINDOW = Some (Inr (p, q, data))"
      and ok: "recvQ_ok k (p, q)" and shrink: "data \<noteq> [] \<Longrightarrow> dyn_length q < DBufLength (recvQ s)"
    using recv.get_law [OF less.prems(2), of SERVER_TCP_WINDOW] recv.get_shrinks [OF less.prems(2)]
    by (force simp: recvQ_get_def res_bind_Inr_iff)
  let ?s1 = "s\<lparr>recvQ := (p, q)\<rparr>"
  show ?case
  proof (cases "data = []")
    case True
    then show ?thesis using g ok by (simp add: drain_loop.simps [of h s] returns_ok_def)
  next
    case False
    define good where "good s2 \<longleftrightarrow> recvQ_ok k (recvQ s2) \<and> DBufLength (recvQ s2) \<le> dyn_length q"
      for s2 :: "'z rpconn"
    have IH: "returns_ok k (drain_loop h s3)" if "good s3" for s3
      using less.hyps [of s3] that shrink False hok by (simp add: good_def)
    define step1 where "step1 = (if IsServer (con_client ?s1)
      then with_queue h (con_client ?s1) (server_dopacket h ?s1 data) else Inr (?s1, 1))"
    define step2 where "step2 s2 = (if \<not> IsServer (con_client s2)
      then with_queue h (con_client s2) (connect_dopacket h s2 data) else Inr (s2, 1))" for s2
    have step1: "case step1 of Inl f \<Rightarrow> f = Overrun | Inr (s2, r) \<Rightarrow> good s2"
      using server_with_queue_ok [OF hok, of k ?s1 "con_client ?s1" data] ok
      by (auto simp: step1_def good_def split: sum.splits)
    have step2: "case step2 s2 of Inl f \<Rightarrow> f = Overrun | Inr (s3, r) \<Rightarrow> good s3" if "good s2" for s2
      using connect_with_queue_ok [OF hok, of k s2 "con_client s2" data] that
      by (fastforce simp: step2_def good_def split: sum.splits)
    have unfold: "drain_loop h s =
       (case step1 of Inl e \<Rightarrow> Some (Inl e)
        | Inr (s2, r) \<Rightarrow>
            if IsServer (con_client ?s1) \<and> r = CPTR_KILLED then Some (Inr (s2, CPTR_KILLED))
            else (case step2 s2 of
                    Inl e \<Rightarrow> Some (Inl e)
                  | Inr (s3, r') \<Rightarrow>
                      if \<not> IsServer (con_client s2) \<and> r' = CPTR_KILLED then Some (Inr (s3, CPTR_KILLED))
                      else drain_loop h s3))"
      using g False by (simp only: drain_loop.simps [of h s] step1_def step2_def Let_def option.case
          sum.case prod.case if_False)
    show ?thesis
    proof (cases step1)
      case (Inl f)
      then show ?thesis using step1 by (simp add: unfold returns_ok_def)
    next
      case (Inr a)
      then obtain s2 r where s2: "step1 = Inr (s2, r)" "good s2"
        using step1 by (cases a) auto
      show ?thesis
        using step2 [OF s2(2)] s2 IH
        by (cases "step2 s2") (auto simp: unfold returns_ok_def good_def)
    qed
  qed
qed

lemma packet_loop_switched:
  assumes "handlers_ok h" "conn_at k s w c"
  shows "case queue_spec h e w c of
      Idle w' c' \<Rightarrow> \<exists>s'. packet_loop h e s = Some (Inr (s', None)) \<and> conn_at k s' w' c'
    | Gone w' c' \<Rightarrow> \<exists>s'. packet_loop h e s = Some (Inr (s', Some CPTR_KILLED)) \<and> conn_at k s' w' c'
    | Switched w' c' \<Rightarrow> \<exists>s' x. conn_at k s' w' c' \<and> drain_loop h s' = Some x \<and> returns_ok k (Some x)
        \<and> packet_loop h e s = Some (res_bind x (\<lambda>(s2, r2). Inr (s2, Some r2)))"
proof (cases "queue_spec h e w c")
  case (Switched w' c')
  then obtain s' where s': "conn_at k s' w' c'" and eq: "packet_loop h e s =
      map_option (\<lambda>x. res_bind x (\<lambda>(s2, r2). Inr (s2, Some r2))) (drain_loop h s')"
    using packet_loop_queue_spec [OF assms, of e] by auto
  have "returns_ok k (drain_loop h s')"
    using drain_loop_returns [OF assms(1)] s' by (simp add: conn_at_def)
  then show ?thesis
    using s' eq Switched by (cases "drain_loop h s'") (auto simp: returns_ok_def)
qed (use packet_loop_queue_spec [OF assms, of e] in auto)

lemma packet_loop_returns:
  assumes "handlers_ok h" "recvQ_ok k (recvQ s)"
  shows "returns_ok k (packet_loop h e s)"
proof -
  have "conn_at k s (con_client s) (content (snd (recvQ s)))"
    using assms(2) by (simp add: conn_at_def)
  note run = packet_loop_switched [OF assms(1) this, of e]
  show ?thesis
  proof (cases "queue_spec h e (con_client s) (content (snd (recvQ s)))")
    case (Switched w c)
    then obtain x where "returns_ok k (Some x)"
        "packet_loop h e s = Some (res_bind x (\<lambda>(s2, r2). Inr (s2, Some r2)))"
      using run by auto
    then show ?thesis by (cases x) (auto simp: returns_ok_def)
  qed (use run in \<open>auto simp: conn_at_def returns_ok_def\<close>)
qed

lemma exit_conn_recvQ:
  "handlers_ok h \<Longrightarrow> recvQ_ok k (recvQ s) \<Longrightarrow> returns_ok k (Some (Inr (exit_conn h s why)))"
  using after_handlers_ok [of h k "s\<lparr>con_client := fst (exit_client h (con_client s) (Comment why))\<rparr>"
      "con_client s"]
  by (simp add: exit_conn_def returns_ok_def split_def Let_def)

lemma parse_queued_returns:
  assumes "handlers_ok h" "recvQ_ok k (recvQ s)"
  shows "returns_ok k (parse_queued h e s)"
proof (cases "over_limit e s")
  case True
  then show ?thesis using exit_conn_recvQ [OF assms] by (simp add: parse_queued_def)
next
  case False
  then show ?thesis
    using packet_loop_returns [OF assms, of e]
    by (auto simp: parse_queued_def returns_ok_def split: option.splits sum.splits prod.splits)
qed

lemma update_client_recvQ [simp]: "recvQ (update_client f s) = recvQ (s :: 'z rpconn)"
  by (simp add: update_client_def)

lemma put_recvQ_ok:
  assumes "recvQ_ok k (p, d)" "env_ok e" "dbuf_put e p d data = (p', d', ok)"
  shows "recvQ_ok k (p', d')"
proof -
  obtain k' where k: "k' \<le> k" "dbuf_ok d" "pool_ok k' p (length (bufs d))"
    using assms(1) by (auto simp: recvQ_ok_def)
  show ?thesis
    using dbuf_put_ok [OF k(2) assms(2) k(3) assms(3)] k(1) le_trans
    by (fastforce simp: recvQ_ok_def pool_left_def)
qed

lemma read_packet_returns_ok:
  assumes "handlers_ok h" "recvQ_ok k (recvQ s)" "env_ok (re_put e)"
  shows "returns_ok k (read_packet h e s socket_ready io)"
proof -
  obtain p d where q: "recvQ s = (p, d)" by fastforce
  show ?thesis
    using assms q put_recvQ_ok [of k p d "re_put e"]
    by (cases io) (auto simp: dopacket_returns_ok read_packet_def Let_def exit_conn_recvQ parse_queued_returns
        returns_ok_def [of k "Some (Inr (_, 0))"] split: prod.splits)
qed

section \<open>Byte counters\<close>

definition total_received :: "rstats \<Rightarrow> nat" where
  "total_received st = 1024 * unat (receiveK st) + unat (receiveB st)"

lemma add_bytes_total:
  assumes "unat (receiveB st) < 1024" "len \<le> SERVER_TCP_WINDOW"
  shows "total_received (add_bytes len st) = (total_received st + len) mod 2 ^ 42
    \<and> unat (receiveB (add_bytes len st)) < 1024"
proof -
  let ?b = "receiveB st + of_nat len"
  have b: "unat ?b = unat (receiveB st) + len"
    using assms by (simp add: unat_word_ariths unat_of_nat SERVER_TCP_WINDOW_def)
  have small: "unat ?b < 65536" by (rule unat_u16_less)
  have hi: "unat (ucast (drop_bit 10 ?b) :: u32) = unat ?b div 1024"
  proof -
    have "unat (drop_bit 10 ?b) = unat ?b div 1024"
      unfolding unat_drop_bit_eq by (simp add: drop_bit_eq_div)
    moreover have "unat (ucast (drop_bit 10 ?b) :: u32) = unat (drop_bit 10 ?b) mod 2 ^ 32"
      by (simp add: unsigned_ucast_eq take_bit_eq_mod)
    ultimately show ?thesis using small by simp
  qed
  have lo: "unat (?b AND 0x3ff) = unat ?b mod 1024"
  proof -
    have "?b AND 0x3ff = take_bit 10 ?b"
      by (simp add: take_bit_eq_mask mask_eq_exp_minus_1)
    moreover have "unat (take_bit 10 ?b) = unat ?b mod 1024"
      unfolding unsigned_take_bit_eq by (simp add: take_bit_eq_mod)
    ultimately show ?thesis by simp
  qed
  show ?thesis
  proof (cases "1023 < ?b")
    case True
    have "total_received (add_bytes len st) =
        1024 * ((unat (receiveK st) + unat ?b div 1024) mod 2 ^ 32) + unat ?b mod 1024"
      using True hi lo by (simp add: total_received_def add_bytes_def Let_def unat_word_ariths)
    also have "\<dots> = (1024 * (unat (receiveK st) + unat ?b div 1024) + unat ?b mod 1024) mod 2 ^ 42"
      using mod_mult2_eq [of "1024 * (unat (receiveK st) + unat ?b div 1024) + unat ?b mod 1024" 1024 "2 ^ 32"]
      by simp
    also have "\<dots> = (total_received st + len) mod 2 ^ 42"
      using b by (simp add: total_received_def algebra_simps)
    finally show ?thesis using True lo by (simp add: add_bytes_def Let_def)
  next
    case False
    then have "unat ?b < 1024" by (simp add: word_less_nat_alt)
    moreover have "unat (receiveK st) < 2 ^ 32" using unsigned_less [of "receiveK st", where 'a = nat] by simp
    ultimately show ?thesis using False b
      by (simp add: add_bytes_def Let_def total_received_def)
  qed
qed

section \<open>Theorems\<close>

text \<open>An example client that records the messages it is given.\<close>

record logged = cli +
  seen :: "char list list"

definition log_line :: "logged \<Rightarrow> char list \<Rightarrow> logged \<times> int" where
  "log_line w l = (w\<lparr>seen := seen w @ [l]\<rparr>, if l = ''QUIT'' then CPTR_KILLED else 1)"

definition log_handlers :: "logged rhandlers" where
  "log_handlers = \<lparr>parse_server = log_line, parse_client = log_line, exit_client = (\<lambda>w _. (w, CPTR_KILLED)),
     recvQ_cleared = (\<lambda>w w'. last (seen w') = ''QUIT''), pool_after = (\<lambda>w w' p. p)\<rparr>"

lemma log_handlers_ok: "handlers_ok log_handlers"
  by (auto simp: handlers_ok_def log_handlers_def)

definition example_client :: logged where
  "example_client = \<lparr>cli_status = STAT_SERVER, cli_flags = [], cli_since = 0, cli_lasttime = 0,
     cli_error = 0, seen = []\<rparr>"

definition example_conn :: "logged rconn" where
  "example_conn = \<lparr>me_stats = \<lparr>receiveB = 0, receiveK = 0, receiveM = 0\<rparr>,
     cptr_stats = \<lparr>receiveB = 0, receiveK = 0, receiveM = 0\<rparr>,
     con_count = 0, con_buffer = replicate BUFSIZE NUL, con_client = example_client,
     recvQ = (example_pool, example_dbuf), cli_proc_onqueue = False\<rparr>"

lemma example_holds: "holds example_conn (con_count example_conn) []"
  by (simp add: example_conn_def holds_def)

lemma example_recvQ: "recvQ_ok 0 (recvQ example_conn)"
  by (simp add: example_conn_def recvQ_ok_def example2_ok)

text \<open>
  C38: data from a server: whatever pieces the lines arrive in, every line completed by the data is
  given to \<open>parse_server\<close> once, in order and without its line end, until a message ends the
  connection; a partial line is kept for the next call. The lines must be shorter than the
  512-byte buffer.
\<close>

theorem server_dopacket_delivers:
  assumes "holds s (con_count s) p" "lines_fit BUFSIZE (split_lines p buffer)"
  shows "delivers (deliver h (parse_server h) (con_client s) (fst (split_lines p buffer)))
     (snd (split_lines p buffer)) (server_dopacket h s buffer)"
  by (rule server_dopacket_fits [OF assms])

theorem server_dopacket_delivers_witness:
  "delivers (deliver log_handlers (parse_server log_handlers) example_client [''ab'', ''c'']) ''d''
     (server_dopacket log_handlers example_conn (''ab'' @ [CHR 0x0D, CHR 0x0A] @ ''c'' @ [CHR 0x0A] @ ''d''))"
  using server_dopacket_delivers [OF example_holds,
      of "''ab'' @ [CHR 0x0D, CHR 0x0A] @ ''c'' @ [CHR 0x0A] @ ''d''" log_handlers]
  by (simp add: IsEol_iff lines_fit_def BUFSIZE_def) (simp add: example_conn_def)

text \<open>
  Chunking does not matter: reading \<open>a\<close> and then \<open>b\<close> delivers the same lines and leaves the
  same partial line as reading both at once, as long as nothing in \<open>a\<close> ended the connection.
\<close>

theorem server_dopacket_chunks:
  assumes "holds s (con_count s) p" "lines_fit BUFSIZE (split_lines p (a @ b))"
    and "snd (deliver h (parse_server h) (con_client s) (fst (split_lines p a))) = None"
  shows "\<exists>s1. server_dopacket h s a = Inr (s1, 1)
    \<and> delivers (deliver h (parse_server h) (con_client s) (fst (split_lines p (a @ b))))
         (snd (split_lines p (a @ b))) (server_dopacket h s1 b)"
proof -
  have fit: "lines_fit BUFSIZE (split_lines p a)" "lines_fit BUFSIZE (split_lines (snd (split_lines p a)) b)"
    using lines_fit_append [OF assms(2)] by (simp_all add: BUFSIZE_def)
  obtain w where w: "deliver h (parse_server h) (con_client s) (fst (split_lines p a)) = (w, None)"
    using assms(3) by (metis prod.collapse)
  then obtain s1 where s1: "server_dopacket h s a = Inr (s1, 1)" "con_client s1 = w"
      "holds s1 (con_count s1) (snd (split_lines p a))"
    using server_dopacket_fits [OF assms(1) fit(1), of h] by (auto simp: delivers_def)
  show ?thesis
    using server_dopacket_fits [OF s1(3) fit(2), of h] s1 w
    by (simp add: split_lines_append deliver_append)
qed

theorem server_dopacket_chunks_witness:
  "\<exists>s1. server_dopacket log_handlers example_conn ''PI'' = Inr (s1, 1)
    \<and> delivers (deliver log_handlers (parse_server log_handlers) example_client [''PING'']) []
         (server_dopacket log_handlers s1 (''NG'' @ [CHR 0x0A]))"
  using server_dopacket_chunks [OF example_holds, of "''PI''" "''NG'' @ [CHR 0x0A]" log_handlers]
  by (simp add: IsEol_iff lines_fit_def BUFSIZE_def) (simp add: example_conn_def)

text \<open>
  A connecting peer: its lines are parsed in order by \<open>parse_client\<close>; the lines after the one
  that made it a server go to \<open>parse_server\<close>, none is lost or parsed twice at the switch.
\<close>

theorem connect_dopacket_delivers:
  assumes "holds s (con_count s) p" "lines_fit BUFSIZE (split_lines p buffer)"
  shows "delivers (deliver_connect h (con_client s) (fst (split_lines p buffer)))
     (snd (split_lines p buffer)) (connect_dopacket h s buffer)"
  using connect_loop_delivers [of "update_bytes_received s (length buffer)"] assms
  by (simp add: connect_dopacket_def)

theorem connect_dopacket_delivers_witness:
  "delivers (deliver_connect log_handlers example_client [''PASS'', ''SERVER'']) []
     (connect_dopacket log_handlers example_conn (''PASS'' @ [CHR 0x0D] @ ''SERVER'' @ [CHR 0x0D]))"
  using connect_dopacket_delivers [OF example_holds,
      of "''PASS'' @ [CHR 0x0D] @ ''SERVER'' @ [CHR 0x0D]" log_handlers]
  by (simp add: IsEol_iff lines_fit_def BUFSIZE_def) (simp add: example_conn_def)

text \<open>
  C27: Input without a line end: a server connection writes outside its message buffer exactly when
  the partial line grows beyond 512 bytes, because the end pointer may stand one past the array
  when the next byte is stored.
\<close>

theorem server_dopacket_overflow:
  assumes "holds s (con_count s) p" "\<forall>c \<in> set buffer. \<not> IsEol c"
  shows "server_dopacket h s buffer = Inl Overrun \<longleftrightarrow> BUFSIZE < length p + length buffer"
proof (cases "BUFSIZE < length p + length buffer")
  case True
  then show ?thesis
    using server_loop_overflow [of "update_bytes_received s (length buffer)"] assms
    by (simp add: server_dopacket_def)
next
  case False
  then show ?thesis
    using server_dopacket_fits [OF assms(1), of buffer h] split_lines_no_eol [OF assms(2), of p]
    by (auto simp: lines_fit_def delivers_def)
qed

theorem server_dopacket_overflow_witness:
  "server_dopacket log_handlers example_conn (replicate 513 (CHR ''x'')) = Inl Overrun"
  using server_dopacket_overflow [OF example_holds, of "replicate 513 (CHR ''x'')" log_handlers]
  by (simp add: IsEol_iff BUFSIZE_def)

text \<open>
  C36: a client's queue: the loop of \<open>read_packet\<close> ends, and does on the block-structured queue
  what the same loop does on its bytes: it parses complete lines in order while the flood
  control allows and no handler clears the queue, remembers that no line end is left, and clears
  a queue of 510 bytes or more without one, unparsed. Once a message has made the connection a
  server or handshaking peer, the inner loop over the rest of the queue ends too.
\<close>

theorem packet_loop_refines:
  assumes "handlers_ok h" "conn_at k s w c"
  shows "case queue_spec h e w c of
      Idle w' c' \<Rightarrow> \<exists>s'. packet_loop h e s = Some (Inr (s', None)) \<and> conn_at k s' w' c'
    | Gone w' c' \<Rightarrow> \<exists>s'. packet_loop h e s = Some (Inr (s', Some CPTR_KILLED)) \<and> conn_at k s' w' c'
    | Switched w' c' \<Rightarrow> \<exists>s' x. conn_at k s' w' c' \<and> drain_loop h s' = Some x \<and> returns_ok k (Some x)
        \<and> packet_loop h e s = Some (res_bind x (\<lambda>(s2, r2). Inr (s2, Some r2)))"
  by (rule packet_loop_switched [OF assms])

definition example_read_env :: read_env where
  "example_read_env = \<lparr>re_put = example_env, re_CurrentTime = 0, re_CLIENT_FLOOD = 1024\<rparr>"

definition example_user :: "logged rconn" where
  "example_user = example_conn\<lparr>con_client := example_client\<lparr>cli_status := STAT_USER\<rparr>\<rparr>"

lemma example_user_at:
  "conn_at 0 example_user (example_client\<lparr>cli_status := STAT_USER\<rparr>) (content example_dbuf)"
  using example_recvQ by (simp add: conn_at_def example_user_def) (simp add: example_conn_def)

theorem packet_loop_refines_witness:
  "\<exists>s'. packet_loop log_handlers example_read_env example_user = Some (Inr (s', None))
    \<and> conn_at 0 s' (SetFlag (example_client\<lparr>cli_status := STAT_USER, seen := [''ab'']\<rparr>) FLAG_NONL) ''c''"
proof -
  have "queue_spec log_handlers example_read_env (example_client\<lparr>cli_status := STAT_USER\<rparr>)
      (CHR 0x0A # ''ab'' @ [CHR 0x0D, CHR 0x0A] @ ''c'') =
      Idle (SetFlag (example_client\<lparr>cli_status := STAT_USER, seen := [''ab'']\<rparr>) FLAG_NONL) ''c''"
    by (simp add: queue_spec.simps next_line_def after_line_def IsEol_iff Let_def BUFSIZE_def
        may_parse_def example_read_env_def example_client_def run_message_def log_handlers_def
        log_line_def HasFlag_def SetFlag_def IsServer_def IsHandshake_def IsTrusted_def stat_defs CPTR_KILLED_def)
  then show ?thesis
    using packet_loop_refines [OF log_handlers_ok example_user_at, of example_read_env]
    by (simp add: example2_ok)
qed



text \<open>
  The byte statistics: the kilobyte and byte counters together count every received byte
  modulo \<open>2 ^ 42\<close>, with the byte counter below 1024, for reads up to the size of the read buffer.
\<close>

theorem update_bytes_received_total:
  assumes "unat (receiveB (cptr_stats s)) < 1024" "unat (receiveB (me_stats s)) < 1024"
    and "len \<le> SERVER_TCP_WINDOW"
  shows "total_received (cptr_stats (update_bytes_received s len)) =
      (total_received (cptr_stats s) + len) mod 2 ^ 42
    \<and> total_received (me_stats (update_bytes_received s len)) =
      (total_received (me_stats s) + len) mod 2 ^ 42
    \<and> unat (receiveB (cptr_stats (update_bytes_received s len))) < 1024
    \<and> unat (receiveB (me_stats (update_bytes_received s len))) < 1024"
  using add_bytes_total [OF assms(1,3)] add_bytes_total [OF assms(2,3)]
  by (simp add: update_bytes_received_def)

theorem update_bytes_received_total_witness:
  "total_received (cptr_stats (update_bytes_received example_conn 5000)) = 5000"
  using update_bytes_received_total [of example_conn 5000]
  by (simp add: example_conn_def total_received_def SERVER_TCP_WINDOW_def)

text \<open>
  When a connecting peer becomes a server, the bytes after that line are counted twice, by
  \<open>connect_dopacket\<close> and again by \<open>server_dopacket\<close>.
\<close>

definition become_server :: "logged rhandlers" where
  "become_server = log_handlers\<lparr>parse_client := (\<lambda>w l. (w\<lparr>cli_status := STAT_SERVER\<rparr>, 1))\<rparr>"

lemma connect_dopacket_counts_twice:
  "\<exists>s'. connect_dopacket become_server example_conn (''S'' @ [CHR 0x0A] @ ''abc'') = Inr (s', 1)
    \<and> receiveB (cptr_stats s') = 8"
  by (simp add: connect_dopacket_def server_dopacket_def update_bytes_received_def add_bytes_def
      update_messages_received_def put_byte_def example_conn_def example_client_def become_server_def
      log_handlers_def run_message_def IsEol_iff BUFSIZE_def CPTR_KILLED_def HasFlag_def IsServer_def Let_def)

end
