(* ===== verification/Match.thy ===== *)
theory Match
  imports Chattr
begin

text \<open>
  Wildcard masks (\<open>ircd/match.c\<close>): \<open>match\<close>, \<open>mmatch\<close> and \<open>collapse\<close>.

  Pointers into the mask and the name are indices, reads go through \<open>rd\<close>: one past the
  terminator, or before the first character, there is nothing to read and the result is
  \<open>Inl OutOfBounds\<close>. A loop that does not end is \<open>None\<close>.
\<close>

section \<open>Reading\<close>

definition rdr :: "string \<Rightarrow> nat \<Rightarrow> char res" where
  "rdr s i = (case rd s i of Some c \<Rightarrow> Inr c | None \<Rightarrow> Inl OutOfBounds)"

lemma rdr_simps [cstr_simps]:
  "i < length s \<Longrightarrow> rdr s i = Inr (s ! i)"
  "i = length s \<Longrightarrow> rdr s i = Inr NUL"
  "length s < i \<Longrightarrow> rdr s i = Inl OutOfBounds"
  by (simp_all add: rdr_def rd_def)

text \<open>\<open>while (*m == '*') m++\<close>\<close>

definition skip_stars :: "string \<Rightarrow> nat \<Rightarrow> nat" where
  "skip_stars s m = m + length (takeWhile (\<lambda>c. c = CHR ''*'') (drop m s))"

text \<open>\<open>for (m--; (m > mask) && (*m == '?'); m--)\<close>; \<open>None\<close> is a pointer before the mask.\<close>

fun back_marks :: "string \<Rightarrow> nat \<Rightarrow> nat option" where
  "back_marks s 0 = None"
| "back_marks s (Suc m) = (if 0 < m \<and> rd s m = Some (CHR ''?'') then back_marks s m else Some m)"

section \<open>\<open>match\<close>\<close>

record mstate =
  st_m :: nat
  st_n :: nat
  m_tmp :: nat
  n_tmp :: nat
  st_wild :: bool

definition match_retry :: "mstate \<Rightarrow> mstate" where
  "match_retry s = s\<lparr>st_m := m_tmp s, st_n := Suc (n_tmp s), n_tmp := Suc (n_tmp s)\<rparr>"

text \<open>The character comparison that ends each round of the loop.\<close>

definition match_compare :: "string \<Rightarrow> string \<Rightarrow> mstate \<Rightarrow> (int + mstate) res" where
  "match_compare msk name s =
     res_bind (rdr msk (st_m s)) (\<lambda>c.
     res_bind (rdr name (st_n s)) (\<lambda>d.
       if ToLower c \<noteq> ToLower d \<and> c \<noteq> CHR ''?'' then
         (if \<not> st_wild s then Inr (Inl 1) else Inr (Inr (match_retry s)))
       else Inr (Inr (s\<lparr>st_m := (if c \<noteq> NUL then Suc (st_m s) else st_m s),
                        st_n := (if d \<noteq> NUL then Suc (st_n s) else st_n s)\<rparr>))))"

text \<open>A round after its leading stars have been skipped.\<close>

definition match_tail :: "string \<Rightarrow> string \<Rightarrow> mstate \<Rightarrow> (int + mstate) res" where
  "match_tail msk name s =
     res_bind (rdr msk (st_m s)) (\<lambda>c1.
     let s1 = (if c1 = CHR 0x5C then s\<lparr>st_m := Suc (st_m s)\<rparr> else s)
     in res_bind (rdr msk (st_m s1)) (\<lambda>c.
        res_bind (rdr name (st_n s1)) (\<lambda>d.
          if c = NUL then
            (if d = NUL then Inr (Inl 0)
             else case back_marks msk (st_m s1) of
               None \<Rightarrow> Inl OutOfBounds
             | Some m \<Rightarrow>
                 if rd msk m = Some (CHR ''*'') \<and> 0 < m then Inr (Inl 0)
                 else if \<not> st_wild s1 then Inr (Inl 1)
                 else match_compare msk name (match_retry s1))
          else if d = NUL then
            res_bind (rdr msk (skip_stars msk (st_m s1))) (\<lambda>e. Inr (Inl (if e \<noteq> NUL then 1 else 0)))
          else match_compare msk name s1)))"

definition match_round :: "string \<Rightarrow> string \<Rightarrow> mstate \<Rightarrow> (int + mstate) res" where
  "match_round msk name s =
     res_bind (rdr msk (st_m s)) (\<lambda>c.
       match_tail msk name
         (if c = CHR ''*''
          then s\<lparr>st_m := skip_stars msk (st_m s), m_tmp := skip_stars msk (st_m s),
                 n_tmp := st_n s, st_wild := True\<rparr>
          else s))"

partial_function (option) match_loop :: "string \<Rightarrow> string \<Rightarrow> mstate \<Rightarrow> int res option" where
  "match_loop msk name s =
     (case match_round msk name s of
        Inl e \<Rightarrow> Some (Inl e)
      | Inr (Inl r) \<Rightarrow> Some (Inr r)
      | Inr (Inr s') \<Rightarrow> match_loop msk name s')"

definition match :: "string \<Rightarrow> string \<Rightarrow> int res option" where
  "match msk name =
     match_loop msk name \<lparr>st_m = 0, st_n = 0, m_tmp = 0, n_tmp = 0, st_wild = False\<rparr>"

section \<open>Reference semantics of masks\<close>

fun glob :: "string \<Rightarrow> string \<Rightarrow> bool" where
  "glob [] n = (n = [])"
| "glob (c # m) n =
     (if c = CHR ''*'' then glob m n \<or> (case n of [] \<Rightarrow> False | _ # n' \<Rightarrow> glob (c # m) n')
      else (case n of [] \<Rightarrow> False
            | d # n' \<Rightarrow> (c = CHR ''?'' \<or> ToLower c = ToLower d) \<and> glob m n'))"

lemma glob_simps [simp]:
  "glob (CHR ''*'' # m) [] = glob m []"
  "glob (CHR ''*'' # m) (d # n) = (glob m (d # n) \<or> glob (CHR ''*'' # m) n)"
  "c \<noteq> CHR ''*'' \<Longrightarrow> glob (c # m) [] = False"
  "c \<noteq> CHR ''*'' \<Longrightarrow> glob (c # m) (d # n) = ((c = CHR ''?'' \<or> ToLower c = ToLower d) \<and> glob m n)"
  by simp_all

declare glob.simps(2) [simp del]

lemma ex_le_Suc: "(\<exists>k \<le> Suc n. P k) \<longleftrightarrow> P 0 \<or> (\<exists>k \<le> n. P (Suc k))"
  by (metis Suc_le_mono le0 not0_implies_Suc)

lemma glob_star: "glob (CHR ''*'' # m) n \<longleftrightarrow> (\<exists>k \<le> length n. glob m (drop k n))"
  by (induction n) (simp_all add: ex_le_Suc)

text \<open>A mask needs a character of the name for each of its own but the stars.\<close>

lemma glob_length: "glob m n \<Longrightarrow> length (filter (\<lambda>c. c \<noteq> CHR ''*'') m) \<le> length n"
proof (induction m arbitrary: n)
  case (Cons c m)
  show ?case
  proof (cases "c = CHR ''*''")
    case True
    then obtain k where "glob m (drop k n)" using Cons.prems by (auto simp: glob_star)
    then show ?thesis using Cons.IH [of "drop k n"] True by simp
  next
    case False
    then show ?thesis using Cons by (cases n) auto
  qed
qed simp

lemma glob_Nil_right: "glob m [] \<longleftrightarrow> (\<forall>c \<in> set m. c = CHR ''*'')"
proof (induction m)
  case (Cons c m)
  then show ?case by (cases "c = CHR ''*''") auto
qed simp

lemma glob_star_drop: "glob (CHR ''*'' # m) (drop k n) \<Longrightarrow> glob (CHR ''*'' # m) n"
proof (induction k arbitrary: n)
  case (Suc k)
  then show ?case by (cases n) auto
qed simp

text \<open>A stretch of the mask without stars that matches the name position by position.\<close>

definition seg :: "string \<Rightarrow> string \<Rightarrow> nat \<Rightarrow> nat \<Rightarrow> nat \<Rightarrow> bool" where
  "seg M N a b k \<longleftrightarrow> a + k \<le> length M \<and> b + k \<le> length N \<and>
     (\<forall>i < k. M ! (a + i) \<noteq> CHR ''*''
        \<and> (M ! (a + i) = CHR ''?'' \<or> ToLower (M ! (a + i)) = ToLower (N ! (b + i))))"

lemma seg_glob: "seg M N a b k \<Longrightarrow> glob (drop a M) (drop b N) \<longleftrightarrow> glob (drop (a + k) M) (drop (b + k) N)"
proof (induction k)
  case (Suc k)
  then have "seg M N a b k" and k: "a + k < length M" "b + k < length N"
      "M ! (a + k) \<noteq> CHR ''*''" "M ! (a + k) = CHR ''?'' \<or> ToLower (M ! (a + k)) = ToLower (N ! (b + k))"
    by (auto simp: seg_def)
  then show ?case
    using Suc.IH by (auto simp: Cons_nth_drop_Suc [symmetric])
qed simp

lemma glob_append_plain:
  "\<forall>c \<in> set S. c \<noteq> CHR ''*'' \<Longrightarrow> glob (S @ R) X \<Longrightarrow> glob R (drop (length S) X)"
proof (induction S arbitrary: X)
  case (Cons c S)
  then show ?case by (cases X) auto
qed simp

lemma seg_star:
  assumes "seg M N a b k" "a + k < length M" "M ! (a + k) = CHR ''*''"
  shows "glob (CHR ''*'' # drop a M) (drop b N) \<longleftrightarrow> glob (drop (a + k) M) (drop (b + k) N)"
proof
  assume "glob (CHR ''*'' # drop a M) (drop b N)"
  then obtain j where j: "glob (drop a M) (drop (j + b) N)" by (auto simp: glob_star)
  have split: "drop a M = take k (drop a M) @ drop (a + k) M"
    by (metis add.commute append_take_drop_id drop_drop)
  have len: "length (take k (drop a M)) = k" using assms(1) by (auto simp: seg_def)
  have plain: "\<forall>c \<in> set (take k (drop a M)). c \<noteq> CHR ''*''"
    using assms(1) by (auto simp: seg_def in_set_conv_nth)
  have "glob (drop (a + k) M) (drop k (drop (j + b) N))"
    using glob_append_plain [OF plain, of "drop (a + k) M" "drop (j + b) N"] j split len by metis
  then have "glob (drop (a + k) M) (drop j (drop (b + k) N))"
    by (simp add: add.commute add.left_commute)
  then show "glob (drop (a + k) M) (drop (b + k) N)"
    using glob_star_drop [of "drop (Suc (a + k)) M" j] assms(2,3) by (metis Cons_nth_drop_Suc)
next
  assume "glob (drop (a + k) M) (drop (b + k) N)"
  then have "glob (drop a M) (drop b N)" using seg_glob [OF assms(1)] by simp
  then show "glob (CHR ''*'' # drop a M) (drop b N)" by (auto simp: glob_star intro!: exI [of _ 0])
qed

lemma seg_retry:
  assumes "seg M N a b k" "\<not> glob (drop (a + k) M) (drop (b + k) N)" "b < length N"
  shows "glob (CHR ''*'' # drop a M) (drop b N) \<longleftrightarrow> glob (CHR ''*'' # drop a M) (drop (Suc b) N)"
  using seg_glob [OF assms(1)] assms(2) Cons_nth_drop_Suc [OF assms(3), symmetric] by simp

section \<open>\<open>match\<close> computes the reference\<close>

definition match_inv :: "string \<Rightarrow> string \<Rightarrow> mstate \<Rightarrow> bool" where
  "match_inv M N s \<longleftrightarrow>
     m_tmp s \<le> st_m s \<and> st_n s = n_tmp s + (st_m s - m_tmp s)
     \<and> seg M N (m_tmp s) (n_tmp s) (st_m s - m_tmp s)
     \<and> (if st_wild s then
          0 < m_tmp s \<and> M ! (m_tmp s - 1) = CHR ''*'' \<and> (m_tmp s < length M \<longrightarrow> M ! m_tmp s \<noteq> CHR ''*'')
          \<and> (glob M N \<longleftrightarrow> glob (CHR ''*'' # drop (m_tmp s) M) (drop (n_tmp s) N))
        else m_tmp s = 0 \<and> n_tmp s = 0)"

definition match_order :: "string \<Rightarrow> string \<Rightarrow> (mstate \<times> mstate) set" where
  "match_order M N = inv_image (less_than <*lex*> less_than <*lex*> less_than)
     (\<lambda>s. (length M - m_tmp s, length N - n_tmp s, length M - st_m s))"

lemma wf_match_order: "wf (match_order M N)"
  by (auto simp: match_order_def intro!: wf_inv_image wf_lex_prod)

text \<open>The result of a round is right: a correct verdict, or a smaller state that keeps the invariant.\<close>

definition match_good :: "string \<Rightarrow> string \<Rightarrow> mstate \<Rightarrow> (int + mstate) res \<Rightarrow> bool" where
  "match_good M N s x \<longleftrightarrow>
     (case x of Inl _ \<Rightarrow> False
      | Inr (Inl r) \<Rightarrow> r = (if glob M N then 0 else 1)
      | Inr (Inr s') \<Rightarrow> match_inv M N s' \<and> (s', s) \<in> match_order M N)"

lemma match_inv_bounds: "match_inv M N s \<Longrightarrow> st_m s \<le> length M \<and> st_n s \<le> length N"
  by (auto simp: match_inv_def seg_def)

lemma match_inv_glob:
  assumes "match_inv M N s" "\<not> st_wild s"
  shows "glob M N \<longleftrightarrow> glob (drop (st_m s) M) (drop (st_n s) N)"
  using assms seg_glob [of M N 0 0 "st_m s"] by (auto simp: match_inv_def)

lemma match_retry_good:
  assumes inv: "match_inv M N s" and "st_wild s" "st_n s < length N"
    and "\<not> glob (drop (st_m s) M) (drop (st_n s) N)"
  shows "match_inv M N (match_retry s) \<and> (match_retry s, s) \<in> match_order M N"
proof -
  let ?k = "st_m s - m_tmp s"
  have "seg M N (m_tmp s) (n_tmp s) ?k" "m_tmp s + ?k = st_m s" "st_n s = n_tmp s + ?k"
    using inv by (auto simp: match_inv_def)
  moreover from this have "n_tmp s < length N" using assms(3) by linarith
  ultimately show ?thesis
    using seg_retry [of M N "m_tmp s" "n_tmp s" ?k] assms
    by (auto simp: match_inv_def match_retry_def match_order_def seg_def)
qed

lemma match_compare_good:
  assumes inv: "match_inv M N s" and ok: "cstring M" "cstring N"
    and less: "st_m s < length M" "st_n s < length N" and plain: "M ! st_m s \<noteq> CHR ''*''"
  shows "match_good M N s (match_compare M N s)"
proof -
  let ?c = "M ! st_m s" and ?d = "N ! st_n s"
  have nul: "?c \<noteq> NUL" "?d \<noteq> NUL" using ok less by (simp_all add: cstring_nth)
  have drops: "drop (st_m s) M = ?c # drop (Suc (st_m s)) M" "drop (st_n s) N = ?d # drop (Suc (st_n s)) N"
    using less by (simp_all add: Cons_nth_drop_Suc)
  show ?thesis
  proof (cases "ToLower ?c \<noteq> ToLower ?d \<and> ?c \<noteq> CHR ''?''")
    case True
    then have no: "\<not> glob (drop (st_m s) M) (drop (st_n s) N)"
      using plain by (simp add: drops)
    show ?thesis
      using True no match_inv_glob [OF inv] match_retry_good [OF inv _ less(2) no]
      by (simp add: match_compare_def match_good_def cstr_simps less)
  next
    case False
    let ?s = "s\<lparr>st_m := Suc (st_m s), st_n := Suc (st_n s)\<rparr>"
    have "match_inv M N ?s"
      using inv less plain False
      by (auto simp: match_inv_def seg_def less_Suc_eq Suc_diff_le)
    moreover have "(?s, s) \<in> match_order M N"
      using less by (simp add: match_order_def)
    ultimately show ?thesis
      using False nul by (auto simp: match_compare_def match_good_def cstr_simps less)
  qed
qed

lemma back_marks_Some:
  "m \<le> length s \<Longrightarrow> 0 < m \<Longrightarrow> \<exists>b. back_marks s m = Some b \<and> b < m
     \<and> (\<forall>i. b < i \<and> i < m \<longrightarrow> s ! i = CHR ''?'') \<and> (b = 0 \<or> s ! b \<noteq> CHR ''?'')"
proof (induction m)
  case (Suc m)
  show ?case
  proof (cases "0 < m \<and> rd s m = Some (CHR ''?'')")
    case True
    then have "s ! m = CHR ''?''" using Suc.prems by (simp add: cstr_simps)
    then show ?thesis using Suc True by (auto simp: less_Suc_eq)
  next
    case False
    then show ?thesis using Suc.prems by (auto simp: cstr_simps)
  qed
qed simp

lemma skip_stars_props:
  assumes "m \<le> length s"
  shows "skip_stars s m \<le> length s" "m \<le> skip_stars s m"
    "\<forall>i. m \<le> i \<and> i < skip_stars s m \<longrightarrow> s ! i = CHR ''*''"
    "skip_stars s m < length s \<longrightarrow> s ! skip_stars s m \<noteq> CHR ''*''"
proof -
  let ?t = "takeWhile (\<lambda>c. c = CHR ''*'') (drop m s)"
  have le: "length ?t \<le> length s - m" by (metis length_drop length_takeWhile_le)
  then show "skip_stars s m \<le> length s" "m \<le> skip_stars s m"
    using assms by (simp_all add: skip_stars_def)
  show "\<forall>i. m \<le> i \<and> i < skip_stars s m \<longrightarrow> s ! i = CHR ''*''"
  proof (intro allI impI)
    fix i assume i: "m \<le> i \<and> i < skip_stars s m"
    then have "i - m < length ?t" unfolding skip_stars_def by linarith
    then have "?t ! (i - m) = CHR ''*''" "?t ! (i - m) = drop m s ! (i - m)"
      using nth_mem set_takeWhileD by (fastforce, metis takeWhile_nth)
    then show "s ! i = CHR ''*''" using i assms by simp
  qed
  show "skip_stars s m < length s \<longrightarrow> s ! skip_stars s m \<noteq> CHR ''*''"
    using nth_length_takeWhile [of "\<lambda>c. c = CHR ''*''" "drop m s"] assms
    by (auto simp: skip_stars_def)
qed

text \<open>Stars in a row are one star.\<close>

lemma glob_star_star: "glob (CHR ''*'' # CHR ''*'' # m) n = glob (CHR ''*'' # m) n"
  by (induction n) auto

lemma glob_drop_stars:
  assumes "m \<le> j" "j \<le> length M" "m < j" "\<forall>i. m \<le> i \<and> i < j \<longrightarrow> M ! i = CHR ''*''"
  shows "glob (drop m M) n = glob (CHR ''*'' # drop j M) n"
  using assms
proof (induction "j - m" arbitrary: m n)
  case (Suc d)
  have m: "drop m M = CHR ''*'' # drop (Suc m) M"
    using Suc.prems by (metis Cons_nth_drop_Suc le_refl order_less_le_trans)
  show ?case
  proof (cases "Suc m = j")
    case False
    then have "glob (drop (Suc m) M) k = glob (CHR ''*'' # drop j M) k" for k
      using Suc by (auto intro!: Suc.hyps(1))
    then have "glob (drop m M) n = glob (CHR ''*'' # CHR ''*'' # drop j M) n"
      unfolding m by (simp add: glob_star)
    then show ?thesis by (simp add: glob_star_star)
  qed (simp add: m)
qed simp

lemma match_star_stage:
  assumes inv: "match_inv M N s" and star: "st_m s < length M" "M ! st_m s = CHR ''*''"
    and s': "s' = s\<lparr>st_m := skip_stars M (st_m s), m_tmp := skip_stars M (st_m s), n_tmp := st_n s, st_wild := True\<rparr>"
  shows "match_inv M N s'" "length M - m_tmp s' < length M - m_tmp s"
proof -
  let ?j = "skip_stars M (st_m s)"
  note j = skip_stars_props [OF less_imp_le [OF star(1)]]
  have lt: "st_m s < ?j"
    using j(2,4) star by (metis le_eq_less_or_eq)
  have k: "m_tmp s + (st_m s - m_tmp s) = st_m s" "st_n s = n_tmp s + (st_m s - m_tmp s)"
    and sg: "seg M N (m_tmp s) (n_tmp s) (st_m s - m_tmp s)"
    using inv by (auto simp: match_inv_def)
  have before: "glob M N = glob (drop (st_m s) M) (drop (st_n s) N)"
  proof (cases "st_wild s")
    case True
    then show ?thesis
      using inv seg_star [OF sg] star k by (simp add: match_inv_def)
  next
    case False
    then show ?thesis by (rule match_inv_glob [OF inv])
  qed
  have "glob M N = glob (CHR ''*'' # drop ?j M) (drop (st_n s) N)"
    using before glob_drop_stars [OF j(2,1) lt j(3)] by simp
  moreover have "M ! (?j - 1) = CHR ''*''" using j(3) lt by simp
  ultimately show "match_inv M N s'"
    using j lt match_inv_bounds [OF inv] by (auto simp: match_inv_def s' seg_def)
  show "length M - m_tmp s' < length M - m_tmp s"
    using lt j(1) k by (simp add: s')
qed

lemma glob_marks: "\<forall>c \<in> set R. c = CHR ''?'' \<Longrightarrow> length R = length X \<Longrightarrow> glob R X"
proof (induction R arbitrary: X)
  case (Cons c R)
  then show ?case by (cases X) auto
qed simp

lemma glob_star_marks:
  "\<forall>c \<in> set R. c = CHR ''?'' \<Longrightarrow> length R \<le> length X \<Longrightarrow> glob (CHR ''*'' # R) X"
  unfolding glob_star
  by (rule exI [of _ "length X - length R"]) (simp add: glob_marks)

lemma trans_match_order: "trans (match_order M N)"
  by (auto simp: match_order_def intro!: trans_inv_image trans_lex_prod)

lemma match_good_trans:
  "match_good M N s' x \<Longrightarrow> (s', s) \<in> match_order M N \<Longrightarrow> match_good M N s x"
  using trans_match_order [of M N]
  by (auto simp: match_good_def split: sum.splits dest: transD)

lemma seg_at:
  assumes "match_inv M N s"
  shows "seg M N (m_tmp s) (n_tmp s) (st_m s - m_tmp s)" "m_tmp s + (st_m s - m_tmp s) = st_m s"
    "n_tmp s + (st_m s - m_tmp s) = st_n s"
  using assms by (auto simp: match_inv_def)

text \<open>A match found: both strings end together.\<close>

lemma match_both_end:
  assumes inv: "match_inv M N s" and "st_m s = length M" "st_n s = length N"
  shows "glob M N"
proof (cases "st_wild s")
  case True
  have "glob (drop (m_tmp s) M) (drop (n_tmp s) N)"
    using seg_glob [OF seg_at(1) [OF inv]] assms seg_at [OF inv] by simp
  then show ?thesis
    using inv True by (auto simp: match_inv_def glob_star intro!: exI [of _ 0])
next
  case False
  then show ?thesis using match_inv_glob [OF inv] assms by simp
qed

text \<open>The name ends while the mask still needs a character.\<close>

lemma match_name_short:
  assumes inv: "match_inv M N s" and "st_m s < length M" "M ! st_m s \<noteq> CHR ''*''" "st_n s = length N"
  shows "\<not> glob M N"
proof (cases "st_wild s")
  case True
  let ?k = "st_m s - m_tmp s" and ?R = "drop (m_tmp s) M"
  have split: "?R = take ?k ?R @ M ! st_m s # drop (Suc (st_m s)) M"
    using assms(2) seg_at(2) [OF inv]
    by (metis Cons_nth_drop_Suc add.commute append_take_drop_id drop_drop)
  have "\<forall>c \<in> set (take ?k ?R). c \<noteq> CHR ''*''"
    using seg_at(1) [OF inv] by (auto simp: seg_def in_set_conv_nth)
  then have "filter (\<lambda>c. c \<noteq> CHR ''*'') (take ?k ?R) = take ?k ?R" by (simp add: filter_id_conv)
  then have "?k < length (filter (\<lambda>c. c \<noteq> CHR ''*'') ?R)"
    using assms(2,3) seg_at(2) [OF inv] by (subst split) simp
  moreover have "length (drop (n_tmp s) N) = ?k" using seg_at(3) [OF inv] assms(4) by simp
  ultimately have "\<not> glob (CHR ''*'' # ?R) (drop (n_tmp s) N)"
    using glob_length [of "CHR ''*'' # ?R" "drop (n_tmp s) N"] by auto
  then show ?thesis using inv True by (simp add: match_inv_def)
next
  case False
  then show ?thesis
    using match_inv_glob [OF inv] assms Cons_nth_drop_Suc [OF assms(2), symmetric] by simp
qed

text \<open>The mask ends in a star and question marks, the name has characters left.\<close>

lemma match_tail_marks:
  assumes inv: "match_inv M N s" and "st_m s = length M" "st_n s < length N"
    and b: "b < length M" "M ! b = CHR ''*''" "\<forall>i. b < i \<and> i < length M \<longrightarrow> M ! i = CHR ''?''"
  shows "glob M N"
proof -
  have plain: "\<forall>i. m_tmp s \<le> i \<and> i < length M \<longrightarrow> M ! i \<noteq> CHR ''*''"
    using seg_at [OF inv] assms(2) unfolding seg_def
    by (metis add_diff_inverse_nat less_diff_conv2 linorder_not_less add.commute)
  then have bm: "b < m_tmp s" using b by (meson linorder_not_less)
  then have wild: "st_wild s" using inv by (auto simp: match_inv_def split: if_splits)
  have "\<forall>c \<in> set (drop (m_tmp s) M). c = CHR ''?''"
    using b(3) bm by (auto simp: in_set_conv_nth)
  moreover have "length (drop (m_tmp s) M) \<le> length (drop (n_tmp s) N)"
    using seg_at [OF inv] assms(2,3) by (auto simp: seg_def)
  ultimately show ?thesis
    using glob_star_marks inv wild by (simp add: match_inv_def)
qed

lemma match_retry_compare:
  assumes inv: "match_inv M N s" and wild: "st_wild s" and end_m: "st_m s = length M"
    and n: "st_n s < length N" and ok: "cstring M" "cstring N"
  shows "match_good M N s (match_compare M N (match_retry s))"
proof -
  let ?r = "match_retry s"
  have no: "\<not> glob (drop (st_m s) M) (drop (st_n s) N)" using end_m n by simp
  note r = match_retry_good [OF inv wild n no]
  have r_fields: "st_m ?r = m_tmp s" "st_n ?r = Suc (n_tmp s)" "st_wild ?r" "m_tmp ?r = m_tmp s"
    using wild by (simp_all add: match_retry_def)
  show ?thesis
  proof (cases "m_tmp s = length M")
    case False
    then have "m_tmp s < length M" "Suc (n_tmp s) < length N" "M ! m_tmp s \<noteq> CHR ''*''"
      using inv wild end_m n by (auto simp: match_inv_def)
    then have "match_good M N ?r (match_compare M N ?r)"
      using match_compare_good [of M N ?r] r ok r_fields by simp
    then show ?thesis using match_good_trans r by blast
  next
    case m: True
    show ?thesis
    proof (cases "Suc (n_tmp s) = length N")
      case True
      then have "match_compare M N ?r = Inr (Inr ?r)"
        using m r_fields by (simp add: match_compare_def cstr_simps)
      then show ?thesis using r by (simp add: match_good_def)
    next
      case False
      then have less: "st_n ?r < length N"
        using r match_inv_bounds r_fields by (metis le_neq_implies_less)
      then have "match_compare M N ?r = Inr (Inr (match_retry ?r))"
        using m r_fields cstring_nth [OF ok(2) less] by (simp add: match_compare_def cstr_simps)
      moreover have "match_good M N ?r (Inr (Inr (match_retry ?r)))"
        using match_retry_good [of M N ?r] r less m r_fields by (simp add: match_good_def)
      ultimately show ?thesis using match_good_trans r by metis
    qed
  qed
qed

lemma match_tail_good:
  assumes inv: "match_inv M N s" and ok: "cstring M" "cstring N" "M \<noteq> []"
    and esc: "\<forall>c \<in> set M. c \<noteq> CHR 0x5C"
    and plain: "st_m s < length M \<longrightarrow> M ! st_m s \<noteq> CHR ''*''"
  shows "match_good M N s (match_tail M N s)"
proof (cases "st_m s = length M")
  case end_m: True
  show ?thesis
  proof (cases "st_n s = length N")
    case True
    then show ?thesis
      using match_both_end [OF inv end_m True] end_m
      by (simp add: match_tail_def match_good_def cstr_simps)
  next
    case False
    then have n: "st_n s < length N" using match_inv_bounds [OF inv] by simp
    obtain b where b: "back_marks M (length M) = Some b" "b < length M"
        "\<forall>i. b < i \<and> i < length M \<longrightarrow> M ! i = CHR ''?''" "b = 0 \<or> M ! b \<noteq> CHR ''?''"
      using back_marks_Some [of "length M" M] ok(3) by auto
    have no: "\<not> glob (drop (st_m s) M) (drop (st_n s) N)" using end_m n by simp
    have tail: "match_tail M N s =
        (if M ! b = CHR ''*'' \<and> 0 < b then Inr (Inl 0)
         else if \<not> st_wild s then Inr (Inl 1) else match_compare M N (match_retry s))"
      using end_m n b(1,2) cstring_nth [OF ok(2) n] by (simp add: match_tail_def cstr_simps)
    show ?thesis
    proof (cases "(M ! b = CHR ''*'' \<and> 0 < b) \<or> \<not> st_wild s")
      case True
      then show ?thesis
        using tail match_tail_marks [OF inv end_m n b(2) _ b(3)] match_inv_glob [OF inv] no
        by (auto simp: match_good_def)
    next
      case False
      then have wild: "st_wild s" by simp
      have "match_good M N s (match_compare M N (match_retry s))"
        by (rule match_retry_compare [OF inv wild end_m n ok(1,2)])
      then show ?thesis using tail False by auto
    qed
  qed
next
  case False
  then have m: "st_m s < length M" using match_inv_bounds [OF inv] by simp
  then have c: "M ! st_m s \<noteq> NUL" "M ! st_m s \<noteq> CHR 0x5C" "M ! st_m s \<noteq> CHR ''*''"
    using ok esc plain by (simp_all add: cstring_nth)
  have skip: "skip_stars M (st_m s) = st_m s"
    using c(3) m by (simp add: skip_stars_def Cons_nth_drop_Suc [symmetric])
  show ?thesis
  proof (cases "st_n s = length N")
    case True
    then show ?thesis
      using match_name_short [OF inv m c(3) True] m c skip
      by (simp add: match_tail_def match_good_def cstr_simps)
  next
    case False
    then have n: "st_n s < length N" using match_inv_bounds [OF inv] by simp
    then show ?thesis
      using match_compare_good [OF inv ok(1,2) m n c(3)] m c cstring_nth [OF ok(2) n]
      by (simp add: match_tail_def cstr_simps)
  qed
qed

lemma match_round_good:
  assumes inv: "match_inv M N s" and ok: "cstring M" "cstring N" "M \<noteq> []"
    and esc: "\<forall>c \<in> set M. c \<noteq> CHR 0x5C"
  shows "match_good M N s (match_round M N s)"
proof (cases "st_m s < length M \<and> M ! st_m s = CHR ''*''")
  case True
  define s' where "s' = s\<lparr>st_m := skip_stars M (st_m s), m_tmp := skip_stars M (st_m s), n_tmp := st_n s, st_wild := True\<rparr>"
  note stage = match_star_stage [OF inv conjunct1 [OF True] conjunct2 [OF True] s'_def]
  have "st_m s' < length M \<longrightarrow> M ! st_m s' \<noteq> CHR ''*''"
    using skip_stars_props(4) [of "st_m s" M] True by (simp add: s'_def)
  then have "match_good M N s' (match_tail M N s')"
    by (rule match_tail_good [OF stage(1) ok esc])
  moreover have "(s', s) \<in> match_order M N" using stage(2) by (simp add: match_order_def)
  ultimately show ?thesis
    using True match_good_trans by (simp add: match_round_def cstr_simps s'_def [symmetric])
next
  case False
  then have "match_round M N s = match_tail M N s"
    using match_inv_bounds [OF inv] by (auto simp: match_round_def rdr_def rd_def)
  then show ?thesis using match_tail_good [OF inv ok esc] False by auto
qed

lemma match_loop_correct:
  assumes "match_inv M N s" "cstring M" "cstring N" "M \<noteq> []" "\<forall>c \<in> set M. c \<noteq> CHR 0x5C"
  shows "match_loop M N s = Some (Inr (if glob M N then 0 else 1))"
  using assms
proof (induction s rule: wf_induct_rule [OF wf_match_order [of M N]])
  case (1 s)
  note good = match_round_good [OF 1(2-6)]
  show ?case
  proof (cases "match_round M N s")
    case (Inr x)
    then show ?thesis
      using good 1(1) 1(3-6) by (cases x) (auto simp: match_good_def match_loop.simps [of M N s])
  qed (use good in \<open>simp add: match_good_def\<close>)
qed

lemma match_exact:
  assumes "cstring msk" "cstring name" "msk \<noteq> []" "\<forall>c \<in> set msk. c \<noteq> CHR 0x5C"
  shows "match msk name = Some (Inr (if glob msk name then 0 else 1))"
proof -
  have "match_inv msk name \<lparr>st_m = 0, st_n = 0, m_tmp = 0, n_tmp = 0, st_wild = False\<rparr>"
    by (simp add: match_inv_def seg_def)
  then show ?thesis
    using match_loop_correct assms by (simp add: match_def)
qed

text \<open>
  C22: for a mask without escapes, \<open>match\<close> ends, never reads outside its strings, and returns zero
  exactly when the mask matches: \<open>*\<close> stands for any characters, \<open>?\<close> for any one, and every other
  character for itself up to RFC 1459 case.
\<close>

theorem match_correct:
  assumes "cstring msk" "cstring name" "msk \<noteq> []" "\<forall>c \<in> set msk. c \<noteq> CHR 0x5C"
  shows "match msk name = Some (Inr (if glob msk name then 0 else 1))"
  by (rule match_exact [OF assms])

theorem match_correct_witness:
  "match ''*@*.NL'' ''u@x.nl'' = Some (Inr 0) \<and> match ''a*b?'' ''aXb'' = Some (Inr 1)"
  using match_correct [of "''*@*.NL''" "''u@x.nl''"] match_correct [of "''a*b?''" "''aXb''"]
  by (simp add: chattr_simps)

text \<open>
  With an escape in the mask, \<open>match\<close> departs from its description, since it steps over the
  backslash and compares the next character as usual.
\<close>

lemmas match_eval =
  match_def match_loop.simps match_round_def match_tail_def match_compare_def match_retry_def
  rdr_def rd_def skip_stars_def Let_def chattr_simps

lemma match_escaped_mark: "match [CHR 0x5C, CHR ''?''] ''a'' = Some (Inr 0)"
  by (simp add: match_eval)

lemma match_escaped_star: "match (''a'' @ [CHR 0x5C, CHR ''*'']) ''a*b'' = Some (Inr 0)"
  by (simp add: match_eval)

lemma match_escape_lost: "match [CHR ''*'', CHR 0x5C, CHR ''b''] ''abb'' = Some (Inr 1)"
  by (simp add: match_eval)

lemma match_final_escape: "match [CHR ''*'', CHR 0x5C] ''a'' = Some (Inl OutOfBounds)"
  by (simp add: match_eval)

lemma match_empty_mask: "n \<noteq> [] \<Longrightarrow> cstring n \<Longrightarrow> match [] n = Some (Inl OutOfBounds)"
  by (cases n) (simp_all add: match_eval)

text \<open>
  Escapes and the empty mask: an escaped \<open>?\<close> matches any character, an escaped star at the end
  of the mask matches any rest, a mask with an escaped character after a star misses names that
  end in it, a final escape after a star reads past the name, and the empty mask reads the byte
  before it.
\<close>

theorem match_escape_defects:
  "match [CHR 0x5C, CHR ''?''] ''a'' = Some (Inr 0)
    \<and> match (''a'' @ [CHR 0x5C, CHR ''*'']) ''a*b'' = Some (Inr 0)
    \<and> match [CHR ''*'', CHR 0x5C, CHR ''b''] ''abb'' = Some (Inr 1)
    \<and> match [CHR ''*'', CHR 0x5C] ''a'' = Some (Inl OutOfBounds)
    \<and> match [] ''a'' = Some (Inl OutOfBounds)"
  by (simp add: match_escaped_mark match_escaped_star match_escape_lost match_final_escape
      match_empty_mask [of "''a''"] del: append.simps)

section \<open>Masks as tokens\<close>

text \<open>
  The documented meaning of a mask, shared by \<open>collapse\<close>, \<open>mmatch\<close> and the compiled masks: a
  backslash before a star or a question mark makes it an ordinary character.
\<close>

datatype tok = Star | Any | Lit char

abbreviation wildc :: "char \<Rightarrow> bool" where
  "wildc c \<equiv> c = CHR ''*'' \<or> c = CHR ''?''"

abbreviation esc_next :: "char \<Rightarrow> string \<Rightarrow> bool" where
  "esc_next c m \<equiv> c = CHR 0x5C \<and> m \<noteq> [] \<and> wildc (hd m)"

fun toks :: "string \<Rightarrow> tok list" where
  "toks [] = []"
| "toks (c # m) =
     (if c = CHR ''*'' then Star # toks m
      else if c = CHR ''?'' then Any # toks m
      else if esc_next c m then Lit (hd m) # toks (tl m)
      else Lit c # toks m)"

fun globt :: "tok list \<Rightarrow> string \<Rightarrow> bool" where
  "globt [] n = (n = [])"
| "globt (Star # m) [] = globt m []"
| "globt (Star # m) (d # n) = (globt m (d # n) \<or> globt (Star # m) n)"
| "globt (Any # m) [] = False"
| "globt (Any # m) (d # n) = globt m n"
| "globt (Lit c # m) [] = False"
| "globt (Lit c # m) (d # n) = (ToLower c = ToLower d \<and> globt m n)"

lemma globt_toks: "\<forall>c \<in> set m. c \<noteq> CHR 0x5C \<Longrightarrow> globt (toks m) n = glob m n"
proof (induction m n rule: glob.induct)
  case (2 c m n)
  then show ?case
    by (cases "c = CHR ''*''"; cases "c = CHR ''?''"; cases n) auto
qed simp

section \<open>\<open>collapse\<close>\<close>

text \<open>The copying loop, with the flag for a star not yet written, and the scan that finds its start.\<close>

fun collapse_copy :: "bool \<Rightarrow> string \<Rightarrow> string" where
  "collapse_copy star [] = (if star then ''*'' else [])"
| "collapse_copy star (c # m) =
     (if c = CHR ''*'' then collapse_copy True m
      else
        (let flush = star \<and> c \<noteq> CHR ''?'';
             out = (if flush then ''*'' else []) @ [c];
             star' = (if flush then False else star)
         in if esc_next c m then out @ hd m # collapse_copy star' (tl m)
            else out @ collapse_copy star' m))"

fun collapse :: "string \<Rightarrow> string" where
  "collapse [] = []"
| "collapse (c # m) =
     (if c = CHR ''*'' \<and> m \<noteq> [] \<and> wildc (hd m) then collapse_copy False (c # m)
      else if esc_next c m then c # hd m # collapse (tl m)
      else c # collapse m)"

text \<open>The normal form of a token list: question marks before the star of each run of wildcards.\<close>

fun canon :: "bool \<Rightarrow> tok list \<Rightarrow> tok list" where
  "canon star [] = (if star then [Star] else [])"
| "canon star (Star # r) = canon True r"
| "canon star (Any # r) = Any # canon star r"
| "canon star (Lit c # r) = (if star then [Star] else []) @ Lit c # canon False r"

lemma globt_star: "globt (Star # m) n \<longleftrightarrow> (\<exists>k \<le> length n. globt m (drop k n))"
  by (induction n) (simp_all add: ex_le_Suc)

lemma globt_star_star: "globt (Star # Star # m) n = globt (Star # m) n"
  by (induction n) auto

lemma globt_star_any: "globt (Star # Any # m) n = globt (Any # Star # m) n"
proof (induction n)
  case (Cons d n)
  then show ?case by (cases n) auto
qed simp

lemma globt_cong_star: "(\<And>n. globt m n = globt m' n) \<Longrightarrow> globt (Star # m) n = globt (Star # m') n"
  by (simp add: globt_star)

lemma globt_canon: "globt (canon star r) n = globt ((if star then [Star] else []) @ r) n"
proof (induction star r arbitrary: n rule: canon.induct)
  case (2 star r)
  then show ?case by (simp add: globt_star_star)
next
  case (3 star r)
  have "globt (Any # canon star r) n = globt (Any # (if star then [Star] else []) @ r) n"
    using 3 by (cases n) simp_all
  also have "\<dots> = globt ((if star then [Star] else []) @ Any # r) n"
    using globt_star_any [of r n] by (cases star) simp_all
  finally show ?case by simp
next
  case (4 star c r)
  have "globt (Lit c # canon False r) k = globt (Lit c # r) k" for k
    using 4 by (cases k) auto
  then show ?case by (simp add: globt_cong_star [of "Lit c # canon False r"])
qed simp

lemma hd_collapse_copy:
  "m \<noteq> [] \<Longrightarrow> \<not> wildc (hd m) \<Longrightarrow> \<exists>r. collapse_copy False m = hd m # r"
  by (cases m) (auto simp: Let_def)

lemma toks_collapse_copy: "toks (collapse_copy star m) = canon star (toks m)"
proof (induction star m rule: collapse_copy.induct)
  case (2 star c m)
  consider "c = CHR ''*''" | "c = CHR ''?''" | "\<not> wildc c" "esc_next c m" | "\<not> wildc c" "\<not> esc_next c m"
    by blast
  then show ?case
  proof cases
    case 3
    then show ?thesis using 2(2) [of "star" "''*'' @ [c]" False] 2(2) [of False "[c]" False] by (cases star) (auto simp: Let_def)
  next
    case 4
    have "\<not> esc_next c (collapse_copy False m)"
      using 4 hd_collapse_copy [of m] by (cases "m = []") auto
    then have "toks (c # collapse_copy False m) = Lit c # toks (collapse_copy False m)"
      using 4 by auto
    then show ?thesis
      using 4 2(3) [of True "''*'' @ [c]" False] 2(3) [of False "[c]" False]
      by (cases star) (auto simp: Let_def)
  qed (use 2 in \<open>auto simp: Let_def\<close>)
qed simp

lemma hd_collapse: "m \<noteq> [] \<Longrightarrow> \<not> wildc (hd m) \<Longrightarrow> \<exists>r. collapse m = hd m # r"
  by (cases m) auto

lemma globt_toks_collapse: "globt (toks (collapse m)) n = globt (toks m) n"
proof (induction m arbitrary: n rule: collapse.induct)
  case (2 c m)
  consider "c = CHR ''*''" "m \<noteq> []" "wildc (hd m)" | "c = CHR ''*''" "\<not> (m \<noteq> [] \<and> wildc (hd m))"
    | "c \<noteq> CHR ''*''" "esc_next c m" | "c \<noteq> CHR ''*''" "\<not> esc_next c m" by blast
  then show ?case
  proof cases
    case 1
    then have "collapse (c # m) = collapse_copy False (c # m)" by simp
    then show ?thesis by (simp only: toks_collapse_copy globt_canon) simp
  next
    case 2
    then show ?thesis using "2.IH"(2) by (auto simp: globt_star)
  next
    case 3
    then have "globt (toks (collapse (tl m))) k = globt (toks (tl m)) k" for k
      using "2.IH"(1) by simp
    then show ?thesis using 3 by (cases n) auto
  next
    case 4
    then have IH: "globt (toks (collapse m)) k = globt (toks m) k" for k
      using "2.IH"(2) by simp
    have "\<not> esc_next c (collapse m)"
      using 4 hd_collapse [of m] by (cases "m = []") auto
    then show ?thesis using 4 IH by (cases n) auto
  qed
qed simp

text \<open>A run of wildcards in a collapsed mask ends in its only star.\<close>

fun collapsed :: "tok list \<Rightarrow> bool" where
  "collapsed (Star # t # r) = ((\<exists>c. t = Lit c) \<and> collapsed r)"
| "collapsed (t # r) = collapsed r"
| "collapsed [] = True"

lemma collapsed_Cons_Lit [simp]: "collapsed (Star # Lit c # r) = collapsed r" "collapsed (Lit c # r) = collapsed r"
  "collapsed (Any # r) = collapsed r"
  by simp_all

lemma collapsed_canon: "collapsed (canon star r)"
  by (induction star r rule: canon.induct) auto

lemma collapsed_Star: "collapsed r \<Longrightarrow> r = [] \<or> (\<exists>c. hd r = Lit c) \<Longrightarrow> collapsed (Star # r)"
  by (cases r) auto

lemma hd_toks: "m \<noteq> [] \<Longrightarrow> \<not> wildc (hd m) \<Longrightarrow> \<exists>c. hd (toks m) = Lit c"
  by (cases m) auto

lemma collapsed_collapse: "collapsed (toks (collapse m))"
proof (induction m rule: collapse.induct)
  case (2 c m)
  consider "c = CHR ''*''" "m \<noteq> []" "wildc (hd m)" | "c = CHR ''*''" "\<not> (m \<noteq> [] \<and> wildc (hd m))"
    | "c \<noteq> CHR ''*''" "esc_next c m" | "c \<noteq> CHR ''*''" "\<not> esc_next c m" by blast
  then show ?case
  proof cases
    case 1
    then have "collapse (c # m) = collapse_copy False (c # m)" by simp
    then show ?thesis by (simp only: toks_collapse_copy collapsed_canon)
  next
    case 2
    then have "collapsed (toks (collapse m))" using "2.IH"(2) by simp
    moreover have "toks (collapse m) = [] \<or> (\<exists>d. hd (toks (collapse m)) = Lit d)"
      using 2 hd_collapse [of m] hd_toks [of "collapse m"] by (cases "m = []") auto
    ultimately show ?thesis using 2 by (auto intro: collapsed_Star)
  next
    case 4
    then have "collapsed (toks (collapse m))" using "2.IH"(2) by simp
    moreover have "\<not> esc_next c (collapse m)"
      using 4 hd_collapse [of m] by (cases "m = []") auto
    ultimately show ?thesis using 4 by auto
  qed (use "2.IH" in simp)
qed simp

lemma length_collapse_copy: "length (collapse_copy star m) \<le> length m + (if star then 1 else 0)"
proof (induction m arbitrary: star rule: toks.induct)
  case (2 c m)
  consider "c = CHR ''*''" | "c = CHR ''?''" | "\<not> wildc c" "esc_next c m" | "\<not> wildc c" "\<not> esc_next c m"
    by blast
  then show ?case
  proof cases
    case 1
    then show ?thesis using "2.IH"(1) [of True] by simp
  next
    case 2
    then show ?thesis using "2.IH"(2) [of star] by (simp add: Let_def)
  next
    case 3
    then show ?thesis using "2.IH"(3) [of False] by (cases m) (auto simp: Let_def)
  next
    case 4
    then show ?thesis using "2.IH"(4) [of False] by (auto simp: Let_def)
  qed
qed simp

lemma length_collapse: "length (collapse m) \<le> length m"
proof (induction m rule: collapse.induct)
  case (2 c m)
  show ?case
  proof (cases "c = CHR ''*'' \<and> m \<noteq> [] \<and> wildc (hd m)")
    case True
    then have "collapse (c # m) = collapse_copy False (c # m)" by simp
    then show ?thesis using length_collapse_copy [of False "c # m"] by simp
  next
    case False
    then show ?thesis using 2 by (cases m) auto
  qed
qed simp

text \<open>
  C33: \<open>collapse\<close> keeps the meaning of a mask, escapes included, and leaves no star next to another
  wildcard after it; the result fits in the place of the mask.
\<close>

theorem collapse_correct:
  "globt (toks (collapse m)) n = globt (toks m) n \<and> collapsed (toks (collapse m))
    \<and> length (collapse m) \<le> length m"
  by (simp add: globt_toks_collapse collapsed_collapse length_collapse)

end
