(* ===== verification/Registry.thy ===== *)
theory Registry
  imports Prelude
begin

text \<open>
  The interface of the daemon's keyed tables: objects with a key, found by it, linked in and
  unlinked. The hash tables of the source (\<open>hash.c\<close>, \<open>IPcheck.c\<close>) all chain their
  entries the same way: \<open>chain_add\<close> and \<open>chain_remove\<close> are that chaining, and the locales are
  the contracts their users rely on.
\<close>

section \<open>Contracts\<close>

locale registry =
  fixes inv :: "'r \<Rightarrow> bool"
    and key :: "'e \<Rightarrow> 'k"
    and find :: "'r \<Rightarrow> 'k \<Rightarrow> 'e option"
    and add :: "'r \<Rightarrow> 'e \<Rightarrow> 'r"
    and remove :: "'r \<Rightarrow> 'k \<Rightarrow> 'r"
  assumes find_key: "inv r \<Longrightarrow> find r k = Some e \<Longrightarrow> key e = k"
    and inv_add: "inv r \<Longrightarrow> find r (key e) = None \<Longrightarrow> inv (add r e)"
    and find_add: "inv r \<Longrightarrow> find r (key e) = None \<Longrightarrow>
          find (add r e) k = (if k = key e then Some e else find r k)"
    and inv_remove: "inv r \<Longrightarrow> inv (remove r k)"
    and find_remove: "inv r \<Longrightarrow> find (remove r k) k' = (if k' = k then None else find r k')"
begin

lemma remove_add: "inv r \<Longrightarrow> find r (key e) = None \<Longrightarrow> find (remove (add r e) (key e)) = find r"
  by (auto simp: find_add find_remove inv_add)

lemma add_remove: "inv r \<Longrightarrow> find r (key e) = Some e \<Longrightarrow> find (add (remove r (key e)) e) = find r"
  by (auto simp: find_add find_remove inv_remove)

text \<open>Re-keying: unlink, change, link in again.\<close>

lemma rekey:
  assumes "inv r" "find r k = Some e" "find r (key e') = None \<or> key e' = k"
  shows "inv (add (remove r k) e')
    \<and> find (add (remove r k) e') j = (if j = key e' then Some e' else if j = k then None else find r j)"
  using assms by (auto simp: find_add find_remove inv_remove intro!: inv_add)

end

text \<open>Tables whose entries are also changed in place, keeping their key.\<close>

locale registry_update = registry +
  fixes update :: "'r \<Rightarrow> 'k \<Rightarrow> ('e \<Rightarrow> 'e) \<Rightarrow> 'r"
  assumes inv_update: "inv r \<Longrightarrow> (\<And>e. key e = k \<Longrightarrow> key (f e) = k) \<Longrightarrow> inv (update r k f)"
    and find_update: "inv r \<Longrightarrow> (\<And>e. key e = k \<Longrightarrow> key (f e) = k) \<Longrightarrow>
          find (update r k f) k' = (if k' = k then map_option f (find r k) else find r k')"
begin

lemma update_other: "inv r \<Longrightarrow> (\<And>e. key e = k \<Longrightarrow> key (f e) = k) \<Longrightarrow> k' \<noteq> k \<Longrightarrow> find (update r k f) k' = find r k'"
  by (simp add: find_update)

lemma update_missing: "inv r \<Longrightarrow> (\<And>e. key e = k \<Longrightarrow> key (f e) = k) \<Longrightarrow> find r k = None \<Longrightarrow> find (update r k f) = find r"
  by (auto simp: find_update)

end

section \<open>Hash chains\<close>

text \<open>Removing the first entry with a key, and changing it, as the C loops over a chain do.\<close>

fun chain_remove :: "('e \<Rightarrow> 'k) \<Rightarrow> 'k \<Rightarrow> 'e list \<Rightarrow> 'e list" where
  "chain_remove key k [] = []"
| "chain_remove key k (e # es) = (if key e = k then es else e # chain_remove key k es)"

fun chain_update :: "('e \<Rightarrow> 'k) \<Rightarrow> 'k \<Rightarrow> ('e \<Rightarrow> 'e) \<Rightarrow> 'e list \<Rightarrow> 'e list" where
  "chain_update key k f [] = []"
| "chain_update key k f (e # es) = (if key e = k then f e # es else e # chain_update key k f es)"

abbreviation chain_find :: "('e \<Rightarrow> 'k) \<Rightarrow> 'k \<Rightarrow> 'e list \<Rightarrow> 'e option" where
  "chain_find key k es \<equiv> List.find (\<lambda>e. key e = k) es"

lemma chain_find_None: "chain_find key k es = None \<longleftrightarrow> k \<notin> key ` set es"
  by (auto simp: find_None_iff)

lemma chain_find_key: "chain_find key k es = Some e \<Longrightarrow> key e = k \<and> e \<in> set es"
  by (auto simp: find_Some_iff)

lemma set_chain_remove: "set (chain_remove key k es) \<subseteq> set es"
  by (induction es) auto

lemma distinct_chain_remove:
  "distinct (map key es) \<Longrightarrow> distinct (map key (chain_remove key k es))"
  using set_chain_remove [of key k] by (induction es) force+

lemma chain_find_remove:
  "distinct (map key es) \<Longrightarrow>
   chain_find key k' (chain_remove key k es) = (if k' = k then None else chain_find key k' es)"
  by (induction es) (auto simp: chain_find_None)

lemma map_key_chain_update:
  "(\<And>e. key e = k \<Longrightarrow> key (f e) = k) \<Longrightarrow> map key (chain_update key k f es) = map key es"
  by (induction es) auto

lemma chain_find_update:
  "(\<And>e. key e = k \<Longrightarrow> key (f e) = k) \<Longrightarrow>
   chain_find key k' (chain_update key k f es) =
     (if k' = k then map_option f (chain_find key k es) else chain_find key k' es)"
  by (induction es) auto

lemma set_chain_update:
  "e \<in> set (chain_update key k f es) \<Longrightarrow> e \<in> set es \<or> (\<exists>e' \<in> set es. key e' = k \<and> e = f e')"
  by (induction es) (auto split: if_splits)

text \<open>A table of chains: every entry in the chain of its key's hash, no key twice.\<close>

definition table_ok :: "('e \<Rightarrow> 'k) \<Rightarrow> ('k \<Rightarrow> 'b) \<Rightarrow> ('b \<Rightarrow> 'e list) \<Rightarrow> bool" where
  "table_ok key hash t \<longleftrightarrow>
     (\<forall>b. (\<forall>e \<in> set (t b). hash (key e) = b) \<and> distinct (map key (t b)))"

definition table_find :: "('e \<Rightarrow> 'k) \<Rightarrow> ('k \<Rightarrow> 'b) \<Rightarrow> ('b \<Rightarrow> 'e list) \<Rightarrow> 'k \<Rightarrow> 'e option" where
  "table_find key hash t k = chain_find key k (t (hash k))"

definition table_add :: "('e \<Rightarrow> 'k) \<Rightarrow> ('k \<Rightarrow> 'b) \<Rightarrow> ('b \<Rightarrow> 'e list) \<Rightarrow> 'e \<Rightarrow> 'b \<Rightarrow> 'e list" where
  "table_add key hash t e = t(hash (key e) := e # t (hash (key e)))"

definition table_remove :: "('e \<Rightarrow> 'k) \<Rightarrow> ('k \<Rightarrow> 'b) \<Rightarrow> ('b \<Rightarrow> 'e list) \<Rightarrow> 'k \<Rightarrow> 'b \<Rightarrow> 'e list" where
  "table_remove key hash t k = t(hash k := chain_remove key k (t (hash k)))"

definition table_update :: "('e \<Rightarrow> 'k) \<Rightarrow> ('k \<Rightarrow> 'b) \<Rightarrow> ('b \<Rightarrow> 'e list) \<Rightarrow> 'k \<Rightarrow> ('e \<Rightarrow> 'e) \<Rightarrow> 'b \<Rightarrow> 'e list" where
  "table_update key hash t k f = t(hash k := chain_update key k f (t (hash k)))"

lemma table_laws:
  fixes key :: "'e \<Rightarrow> 'k" and hash :: "'k \<Rightarrow> 'b"
  shows "registry_update (table_ok key hash) key (table_find key hash) (table_add key hash)
    (table_remove key hash) (table_update key hash)"
proof
  fix t k e
  assume ok: "table_ok key hash t"
  then have dist: "distinct (map key (t b))" for b by (simp add: table_ok_def)
  show "table_find key hash t k = Some e \<Longrightarrow> key e = k"
    using chain_find_key unfolding table_find_def by metis
  show "table_find key hash t (key e) = None \<Longrightarrow> table_ok key hash (table_add key hash t e)"
    using ok by (simp add: table_ok_def table_add_def table_find_def chain_find_None)
  show "table_find key hash t (key e) = None \<Longrightarrow>
      table_find key hash (table_add key hash t e) k = (if k = key e then Some e else table_find key hash t k)"
    by (auto simp: table_add_def table_find_def)
  show "table_ok key hash (table_remove key hash t k)"
    using ok set_chain_remove [of key k] distinct_chain_remove [of key]
    by (fastforce simp: table_ok_def table_remove_def)
  show "table_find key hash (table_remove key hash t k) k' = (if k' = k then None else table_find key hash t k')" for k'
    using dist by (simp add: table_remove_def table_find_def chain_find_remove)
  fix f :: "'e \<Rightarrow> 'e"
  assume f: "\<And>e. key e = k \<Longrightarrow> key (f e) = k"
  show "table_ok key hash (table_update key hash t k f)"
    unfolding table_ok_def
  proof (intro allI conjI ballI)
    fix b e
    show "distinct (map key (table_update key hash t k f b))"
      using dist map_key_chain_update [of key k f "t b"] f by (auto simp: table_update_def)
    assume "e \<in> set (table_update key hash t k f b)"
    then have "e \<in> set (t b) \<or> b = hash k \<and> key e = k"
      using set_chain_update [of e key k f "t (hash k)"] f
      by (auto simp: table_update_def split: if_splits)
    then show "hash (key e) = b" using ok by (auto simp: table_ok_def)
  qed
  show "table_find key hash (table_update key hash t k f) k' =
      (if k' = k then map_option f (table_find key hash t k) else table_find key hash t k')" for k'
    using f by (auto simp: table_update_def table_find_def chain_find_update)
qed

lemma chain_find_in: "distinct (map key es) \<Longrightarrow> e \<in> set es \<Longrightarrow> chain_find key (key e) es = Some e"
proof (induction es)
  case (Cons x es)
  then show ?case by (auto simp: image_iff)
qed simp

lemma table_find_in: "table_ok key hash t \<Longrightarrow> e \<in> set (t b) \<Longrightarrow> table_find key hash t (key e) = Some e"
  unfolding table_ok_def table_find_def by (metis chain_find_in)

interpretation chained: registry_update "table_ok key hash" key "table_find key hash" "table_add key hash"
    "table_remove key hash" "table_update key hash" for key hash
  by (rule table_laws)

end
