(* ===== verification/IPcheck.thy ===== *)
theory IPcheck
  imports Registry "HOL-Library.Signed_Division"
begin

text \<open>
  The registry of connections per address (\<open>ircd/IPcheck.c\<close>).

  A hash chain is the list of its entries in link order. The C code holds a pointer to an
  entry and changes it in place; no two entries share an address, so the model names the
  entry by its address. \<open>freeList\<close> is the number of entries on the free list (an entry taken
  from it is cleared). \<open>connected\<close> is a 16-bit and \<open>attempts\<close> an 8-bit counter, \<open>time_t\<close> is
  wide enough for every time (an \<open>int\<close>), \<open>NOW\<close> keeps 16 bits of it.
\<close>

section \<open>State\<close>

definition MAXTARGETS :: nat where "MAXTARGETS = 20"
definition STARTTARGETS :: u32 where "STARTTARGETS = 10"
definition TARGET_DELAY :: int where "TARGET_DELAY = 128"

record IPTargetEntry =
  tcount :: u32
  ttargets :: "u8 list"

record IPRegistryEntry =
  target :: "IPTargetEntry option"
  addr :: u32
  last_connect :: int
  connected :: u16
  attempts :: u8

record ipreg =
  hashTable :: "u32 \<Rightarrow> IPRegistryEntry list"
  freeList :: nat

record ipenv =
  CurrentTime :: int
  me_since :: int
  IPCHECK_CLONE_LIMIT :: int
  IPCHECK_CLONE_PERIOD :: int
  IPCHECK_CLONE_DELAY :: int
  NOTHROTTLE :: bool

definition IP_REGISTRY_TABLE_SIZE :: nat where "IP_REGISTRY_TABLE_SIZE = 0x10000"

definition NOW :: "ipenv \<Rightarrow> int" where
  "NOW e = CurrentTime e mod 65536"

definition CONNECTED_SINCE :: "ipenv \<Rightarrow> int \<Rightarrow> int" where
  "CONNECTED_SINCE e x = NOW e - x"

section \<open>The table\<close>

definition ip_registry_hash :: "u32 \<Rightarrow> u32" where
  "ip_registry_hash ip = ((drop_bit 16 ip) XOR ip) AND 0xffff"

definition ip_registry_find :: "ipreg \<Rightarrow> u32 \<Rightarrow> IPRegistryEntry option" where
  "ip_registry_find r ip = List.find (\<lambda>en. addr en = ip) (hashTable r (ip_registry_hash ip))"

definition ip_registry_add :: "ipreg \<Rightarrow> IPRegistryEntry \<Rightarrow> ipreg" where
  "ip_registry_add r en =
     (let bucket = ip_registry_hash (addr en)
      in r\<lparr>hashTable := (hashTable r)(bucket := en # hashTable r bucket)\<rparr>)"

definition ip_registry_remove :: "ipreg \<Rightarrow> u32 \<Rightarrow> ipreg" where
  "ip_registry_remove r ip =
     (let bucket = ip_registry_hash ip
      in r\<lparr>hashTable := (hashTable r)(bucket := chain_remove addr ip (hashTable r bucket))\<rparr>)"

text \<open>Storing into the entry a pointer leads to.\<close>

definition ip_registry_store :: "ipreg \<Rightarrow> u32 \<Rightarrow> (IPRegistryEntry \<Rightarrow> IPRegistryEntry) \<Rightarrow> ipreg" where
  "ip_registry_store r ip f =
     (let bucket = ip_registry_hash ip
      in r\<lparr>hashTable := (hashTable r)(bucket := chain_update addr ip f (hashTable r bucket))\<rparr>)"

definition ip_registry_new_entry :: "ipenv \<Rightarrow> ipreg \<Rightarrow> IPRegistryEntry \<times> ipreg" where
  "ip_registry_new_entry e r =
     (\<lparr>target = None, addr = 0, last_connect = NOW e, connected = 1, attempts = 1\<rparr>,
      r\<lparr>freeList := freeList r - 1\<rparr>)"

definition ip_registry_delete_entry :: "ipreg \<Rightarrow> ipreg" where
  "ip_registry_delete_entry r = r\<lparr>freeList := Suc (freeList r)\<rparr>"

section \<open>Operations\<close>

definition ip_registry_update_free_targets :: "ipenv \<Rightarrow> IPRegistryEntry \<Rightarrow> IPRegistryEntry \<times> u32" where
  "ip_registry_update_free_targets e en =
     (case target en of
        None \<Rightarrow> (en, STARTTARGETS)
      | Some t \<Rightarrow>
          (let f0 = tcount t + word_of_int (CONNECTED_SINCE e (last_connect en) sdiv TARGET_DELAY);
               f = (if STARTTARGETS < f0 then STARTTARGETS else f0)
           in (en\<lparr>target := Some (t\<lparr>tcount := f\<rparr>)\<rparr>, f)))"

definition ip_registry_expire_entry :: "ipenv \<Rightarrow> ipreg \<Rightarrow> IPRegistryEntry \<Rightarrow> ipreg" where
  "ip_registry_expire_entry e r en =
     (if 600 < CONNECTED_SINCE e (last_connect en) then
        ip_registry_delete_entry (ip_registry_remove r (addr en))
      else if 120 < CONNECTED_SINCE e (last_connect en) \<and> target en \<noteq> None then
        ip_registry_store r (addr en) (\<lambda>en. en\<lparr>target := None\<rparr>)
      else r)"

text \<open>The loop takes each entry's successor before it looks at the entry.\<close>

definition expire_chain :: "ipenv \<Rightarrow> IPRegistryEntry list \<Rightarrow> ipreg \<Rightarrow> ipreg" where
  "expire_chain e chain r =
     fold (\<lambda>en r. if connected en = 0 then ip_registry_expire_entry e r en else r) chain r"

definition ip_registry_expire :: "ipenv \<Rightarrow> ipreg \<Rightarrow> ipreg" where
  "ip_registry_expire e r =
     fold (\<lambda>i r. expire_chain e (hashTable r (of_nat i)) r) [0..<IP_REGISTRY_TABLE_SIZE] r"

text \<open>What a new local connection does to an entry, and the free targets it has.\<close>

definition local_entry :: "ipenv \<Rightarrow> IPRegistryEntry \<Rightarrow> IPRegistryEntry \<times> u32" where
  "local_entry e en0 =
     (let en1 = en0\<lparr>connected := connected en0 + 1\<rparr>;
          en2 = (if IPCHECK_CLONE_PERIOD e < CONNECTED_SINCE e (last_connect en1)
                 then en1\<lparr>attempts := 0\<rparr> else en1);
          (en3, free_targets) = ip_registry_update_free_targets e en2;
          en4 = en3\<lparr>last_connect := NOW e\<rparr>;
          en5 = (if attempts en4 + 1 = 0 then en4 else en4\<lparr>attempts := attempts en4 + 1\<rparr>)
      in (en5, free_targets))"

text \<open>
  \<open>ip_registry_check_local\<close>: the new table, the verdict, and the value stored to
  \<open>*next_target_out\<close>, if any. The product with \<open>free_targets\<close> is computed in \<open>unsigned int\<close>.
\<close>

definition ip_registry_check_local :: "ipenv \<Rightarrow> ipreg \<Rightarrow> u32 \<Rightarrow> ipreg \<times> bool \<times> int option" where
  "ip_registry_check_local e r a =
     (case ip_registry_find r a of
        None \<Rightarrow>
          (let (en, r1) = ip_registry_new_entry e r
           in (ip_registry_add r1 (en\<lparr>addr := a\<rparr>), True, None))
      | Some en0 \<Rightarrow>
          if connected en0 + 1 = 0 then (r, False, None)
          else
            (let (en, free_targets) = local_entry e en0
             in if int (unat (attempts en)) < IPCHECK_CLONE_LIMIT e then
                  (ip_registry_store r a (\<lambda>_. en), True,
                   Some (CurrentTime e - uint (word_of_int TARGET_DELAY * free_targets - 1)))
                else if CurrentTime e - me_since e < IPCHECK_CLONE_DELAY e \<and> \<not> NOTHROTTLE e then
                  (ip_registry_store r a (\<lambda>_. en\<lparr>connected := connected en - 1\<rparr>), False, None)
                else (ip_registry_store r a (\<lambda>_. en), True, None)))"

definition remote_entry :: "ipenv \<Rightarrow> bool \<Rightarrow> IPRegistryEntry \<Rightarrow> IPRegistryEntry" where
  "remote_entry e is_burst en1 =
     (let en2 = (if IPCHECK_CLONE_PERIOD e < CONNECTED_SINCE e (last_connect en1)
                 then en1\<lparr>attempts := 0\<rparr> else en1)
      in if is_burst then en2
         else (fst (ip_registry_update_free_targets e
                (if attempts en2 + 1 = 0 then en2 else en2\<lparr>attempts := attempts en2 + 1\<rparr>)))
                \<lparr>last_connect := NOW e\<rparr>)"

definition ip_registry_check_remote :: "ipenv \<Rightarrow> ipreg \<Rightarrow> u32 \<Rightarrow> bool \<Rightarrow> ipreg \<times> bool" where
  "ip_registry_check_remote e r a is_burst =
     (case ip_registry_find r a of
        None \<Rightarrow>
          (let (en, r1) = ip_registry_new_entry e r;
               en1 = en\<lparr>addr := a\<rparr>;
               en2 = (if is_burst then en1\<lparr>attempts := 0\<rparr> else en1)
           in (ip_registry_add r1 en2, True))
      | Some en0 \<Rightarrow>
          (let en1 = en0\<lparr>connected := connected en0 + 1\<rparr> in
           if connected en1 = 0 then (ip_registry_store r a (\<lambda>_. en1), False)
           else (ip_registry_store r a (\<lambda>_. remote_entry e is_burst en1), True)))"

definition ip_registry_connect_fail :: "ipreg \<Rightarrow> u32 \<Rightarrow> ipreg" where
  "ip_registry_connect_fail r a =
     (case ip_registry_find r a of None \<Rightarrow> r
      | Some en \<Rightarrow>
          if attempts en - 1 = 0 then r
          else ip_registry_store r a (\<lambda>en. en\<lparr>attempts := attempts en - 1\<rparr>))"

text \<open>
  \<open>ip_registry_connect_succeeded\<close>: the client's targets and the counters of the notice; an
  address without an entry fails the assertion.
\<close>

definition ip_registry_connect_succeeded :: "ipreg \<Rightarrow> u32 \<Rightarrow> u8 list \<Rightarrow> (u8 list \<times> u16 \<times> u8 \<times> u32 \<times> bool) res" where
  "ip_registry_connect_succeeded r a cli_targets =
     (case ip_registry_find r a of None \<Rightarrow> Inl Aborted
      | Some en \<Rightarrow>
          (case target en of
             None \<Rightarrow> Inr (cli_targets, connected en, attempts en, STARTTARGETS, False)
           | Some t \<Rightarrow> Inr (ttargets t, connected en, attempts en, tcount t, True)))"

definition ip_registry_disconnect_ip :: "ipreg \<Rightarrow> u32 \<Rightarrow> ipreg" where
  "ip_registry_disconnect_ip r a =
     (case ip_registry_find r a of
        None \<Rightarrow> r
      | Some en \<Rightarrow> if 0 < connected en
                   then ip_registry_store r a (\<lambda>en. en\<lparr>connected := connected en - 1\<rparr>) else r)"

text \<open>What \<open>ip_registry_disconnect\<close> reads of the client: \<open>MyConnect\<close> and, if so, its targets and clocks.\<close>

record leaving =
  my_connect :: bool
  cli_targets :: "u8 list"
  cli_nexttarget :: int
  cli_firsttime :: int

definition left_targets :: "ipenv \<Rightarrow> leaving \<Rightarrow> u32" where
  "left_targets e c =
     (let free0 = (if cli_nexttarget c < CurrentTime e
                   then word_of_int ((CurrentTime e - cli_nexttarget c) sdiv TARGET_DELAY + 1) else 0)
      in if 600 < CurrentTime e - cli_firsttime c
         then free0 + word_of_int ((CurrentTime e - cli_firsttime c - 600) sdiv TARGET_DELAY)
         else free0)"

definition leave_entry :: "ipenv \<Rightarrow> leaving \<Rightarrow> IPRegistryEntry \<Rightarrow> IPRegistryEntry" where
  "leave_entry e c en0 =
     (let en1 = en0\<lparr>connected := connected en0 - 1\<rparr>;
          en2 = (if connected en1 = 0 then
                   (let en = (if IPCHECK_CLONE_LIMIT e * IPCHECK_CLONE_PERIOD e
                                 < CONNECTED_SINCE e (last_connect en1)
                              then en1\<lparr>attempts := 0\<rparr> else en1)
                    in (fst (ip_registry_update_free_targets e en))\<lparr>last_connect := NOW e\<rparr>)
                 else en1)
      in if my_connect c then
           (let t = (case target en2 of Some t \<Rightarrow> t
                     | None \<Rightarrow> \<lparr>tcount = STARTTARGETS, ttargets = []\<rparr>);
                f = left_targets e c
            in en2\<lparr>target := Some \<lparr>tcount = (if f < tcount t then f else tcount t),
                                    ttargets = cli_targets c\<rparr>\<rparr>)
         else en2)"

definition ip_registry_disconnect :: "ipenv \<Rightarrow> ipreg \<Rightarrow> u32 \<Rightarrow> leaving \<Rightarrow> ipreg res" where
  "ip_registry_disconnect e r a c =
     (case ip_registry_find r a of
        None \<Rightarrow> Inl Aborted
      | Some en \<Rightarrow>
          if \<not> 0 < connected en then Inl Aborted
          else Inr (ip_registry_store r a (\<lambda>_. leave_entry e c en)))"

definition ip_registry_count :: "ipreg \<Rightarrow> u32 \<Rightarrow> u16" where
  "ip_registry_count r a = (case ip_registry_find r a of None \<Rightarrow> 0 | Some en \<Rightarrow> connected en)"

section \<open>The table is a registry\<close>

definition reg_ok :: "ipreg \<Rightarrow> bool" where
  "reg_ok r \<longleftrightarrow> table_ok addr ip_registry_hash (hashTable r)"

lemma reg_ops:
  "ip_registry_find r = table_find addr ip_registry_hash (hashTable r)"
  "hashTable (ip_registry_add r en) = table_add addr ip_registry_hash (hashTable r) en"
  "hashTable (ip_registry_remove r ip) = table_remove addr ip_registry_hash (hashTable r) ip"
  "hashTable (ip_registry_store r ip f) = table_update addr ip_registry_hash (hashTable r) ip f"
  by (simp_all add: fun_eq_iff ip_registry_find_def ip_registry_add_def ip_registry_remove_def
      ip_registry_store_def table_find_def table_add_def table_remove_def table_update_def Let_def)

interpretation ip: registry_update reg_ok addr ip_registry_find ip_registry_add ip_registry_remove ip_registry_store
  unfolding registry_update_def registry_def registry_update_axioms_def reg_ok_def reg_ops
  by (intro conjI allI impI)
    (rule chained.find_key chained.inv_add chained.find_add chained.inv_remove
      chained.find_remove chained.inv_update chained.find_update; blast)+

section \<open>Effect of each operation on the counters\<close>

lemma find_simps [simp]:
  "ip_registry_find (r\<lparr>freeList := n\<rparr>) = ip_registry_find r" "reg_ok (r\<lparr>freeList := n\<rparr>) = reg_ok r"
  by (simp_all add: fun_eq_iff ip_registry_find_def reg_ok_def)

lemma delete_simps [simp]:
  "ip_registry_find (ip_registry_delete_entry r) = ip_registry_find r"
  "reg_ok (ip_registry_delete_entry r) = reg_ok r"
  by (simp_all add: ip_registry_delete_entry_def)

lemma store_ok: "reg_ok r \<Longrightarrow> addr en = a \<Longrightarrow> reg_ok (ip_registry_store r a (\<lambda>_. en))"
  by (rule ip.inv_update) auto

lemma find_store:
  "reg_ok r \<Longrightarrow> addr en = a \<Longrightarrow> ip_registry_find r a = Some en0 \<Longrightarrow>
   ip_registry_find (ip_registry_store r a (\<lambda>_. en)) b = (if b = a then Some en else ip_registry_find r b)"
  using ip.find_update [of r a "\<lambda>_. en" b] by simp

lemma count_store:
  "reg_ok r \<Longrightarrow> addr en = a \<Longrightarrow> ip_registry_find r a = Some en0 \<Longrightarrow>
   ip_registry_count (ip_registry_store r a (\<lambda>_. en)) b = (if b = a then connected en else ip_registry_count r b)"
  by (simp add: ip_registry_count_def find_store)

lemma find_new:
  assumes "reg_ok r" "ip_registry_find r (addr en) = None"
  shows "reg_ok (ip_registry_add (r\<lparr>freeList := n\<rparr>) en)"
    "ip_registry_find (ip_registry_add (r\<lparr>freeList := n\<rparr>) en) b =
       (if b = addr en then Some en else ip_registry_find r b)"
  using assms ip.inv_add [of "r\<lparr>freeList := n\<rparr>" en] ip.find_add [of "r\<lparr>freeList := n\<rparr>" en b] by simp_all

lemma update_free_targets_fields [simp]:
  "connected (fst (ip_registry_update_free_targets e en)) = connected en"
  "addr (fst (ip_registry_update_free_targets e en)) = addr en"
  "attempts (fst (ip_registry_update_free_targets e en)) = attempts en"
  "last_connect (fst (ip_registry_update_free_targets e en)) = last_connect en"
  by (simp_all add: ip_registry_update_free_targets_def Let_def split: option.splits)

lemma unat_plus_1:
  assumes "a + 1 \<noteq> 0"
  shows "unat (a + 1 :: u16) = unat a + 1"
proof -
  have "unat (a + 1) = (unat a + 1) mod 65536" by (simp add: unat_word_ariths)
  moreover have "unat (a + 1) \<noteq> 0" using assms by (simp add: unat_eq_0)
  ultimately show ?thesis using unat_u16_less [of a] by (cases "unat a = 65535") auto
qed

lemma unat_minus_1: "0 < a \<Longrightarrow> unat (a - 1 :: u16) = unat a - 1"
  using unat_plus_1 [of "a - 1"] by (simp add: word_neq_0_conv [symmetric])

lemma entry_fields [simp]:
  "connected (fst (local_entry e en)) = connected en + 1" "addr (fst (local_entry e en)) = addr en"
  "connected (remote_entry e burst en) = connected en" "addr (remote_entry e burst en) = addr en"
  "connected (leave_entry e c en) = connected en - 1" "addr (leave_entry e c en) = addr en"
  by (simp_all add: local_entry_def remote_entry_def leave_entry_def Let_def split_beta)

text \<open>A connection from a known address, when the counter does not overflow.\<close>

lemma check_local_known:
  assumes "ip_registry_find r a = Some en" "connected en + 1 \<noteq> 0"
  obtains en' v nt where "ip_registry_check_local e r a = (ip_registry_store r a (\<lambda>_. en'), v, nt)"
    "addr en' = addr en" "connected en' = (if v then connected en + 1 else connected en)"
proof -
  obtain en1 f where l: "local_entry e en = (en1, f)" by fastforce
  then have en1: "connected en1 = connected en + 1" "addr en1 = addr en"
    using entry_fields(1,2) [of e en] by simp_all
  define ok where "ok \<longleftrightarrow> int (unat (attempts en1)) < IPCHECK_CLONE_LIMIT e"
  define refuse where "refuse \<longleftrightarrow> \<not> ok \<and> CurrentTime e - me_since e < IPCHECK_CLONE_DELAY e \<and> \<not> NOTHROTTLE e"
  have "ip_registry_check_local e r a =
      (ip_registry_store r a (\<lambda>_. if refuse then en1\<lparr>connected := connected en1 - 1\<rparr> else en1), \<not> refuse,
       if ok then Some (CurrentTime e - uint (word_of_int TARGET_DELAY * f - 1)) else None)"
    using assms l by (auto simp: ip_registry_check_local_def ok_def refuse_def)
  then show thesis by (rule that) (auto simp: en1)
qed

lemma check_local_counts:
  assumes ok: "reg_ok r" and run: "ip_registry_check_local e r a = (r', verdict, nt)"
  shows "reg_ok r' \<and> unat (ip_registry_count r' b) = unat (ip_registry_count r b) + (if b = a \<and> verdict then 1 else 0)"
proof (cases "ip_registry_find r a")
  case None
  then show ?thesis
    using run ok find_new [OF ok, of "\<lparr>target = None, addr = a, last_connect = NOW e, connected = 1, attempts = 1\<rparr>"]
    by (auto simp: ip_registry_check_local_def ip_registry_new_entry_def ip_registry_count_def)
next
  case (Some en)
  then have a: "addr en = a" using ok ip.find_key by blast
  show ?thesis
  proof (cases "connected en + 1 = 0")
    case True
    then show ?thesis using run Some ok by (auto simp: ip_registry_check_local_def)
  next
    case False
    obtain en' v nt' where "ip_registry_check_local e r a = (ip_registry_store r a (\<lambda>_. en'), v, nt')"
      "addr en' = addr en" "connected en' = (if v then connected en + 1 else connected en)"
      by (rule check_local_known [OF Some False])
    then show ?thesis
      using run Some ok a unat_plus_1 [OF False]
      by (auto simp: store_ok count_store) (simp_all add: ip_registry_count_def)
  qed
qed

lemma check_local_word:
  assumes "reg_ok r" "ip_registry_check_local e r a = (r', verdict, nt)"
  shows "ip_registry_count r' b = ip_registry_count r b + (if b = a \<and> verdict then 1 else 0)"
proof -
  have "of_nat (unat (ip_registry_count r' b)) = (of_nat (unat (ip_registry_count r b) + (if b = a \<and> verdict then 1 else 0)) :: u16)"
    using check_local_counts [OF assms, of b] by simp
  then show ?thesis by simp
qed

lemma check_remote_counts:
  assumes ok: "reg_ok r" and run: "ip_registry_check_remote e r a burst = (r', verdict)"
  shows "reg_ok r' \<and> ip_registry_count r' b = ip_registry_count r b + (if b = a then 1 else 0)
    \<and> (verdict \<longleftrightarrow> ip_registry_count r a + 1 \<noteq> 0)"
proof (cases "ip_registry_find r a")
  case None
  let ?en = "\<lparr>target = None, addr = a, last_connect = NOW e, connected = 1, attempts = if burst then 0 else 1\<rparr>"
  have "ip_registry_check_remote e r a burst = (ip_registry_add (r\<lparr>freeList := freeList r - 1\<rparr>) ?en, True)"
    using None by (simp add: ip_registry_check_remote_def ip_registry_new_entry_def)
  then show ?thesis
    using run None find_new [OF ok, of ?en] by (auto simp: ip_registry_count_def)
next
  case (Some en)
  then have a: "addr en = a" using ok ip.find_key by blast
  then show ?thesis
    using run Some ok
    by (auto simp: ip_registry_check_remote_def store_ok count_store Let_def split: if_splits)
      (simp_all add: ip_registry_count_def)
qed

lemma update_counts:
  assumes "reg_ok r" "\<And>en. addr (f en) = addr en" "\<And>en. connected (f en) = connected en"
  shows "reg_ok (ip_registry_store r a f)" "ip_registry_count (ip_registry_store r a f) b = ip_registry_count r b"
  using assms ip.inv_update [of r a f] ip.find_update [of r a f b]
  by (auto simp: ip_registry_count_def split: option.splits)

lemma connect_fail_counts:
  "reg_ok r \<Longrightarrow> reg_ok (ip_registry_connect_fail r a)
     \<and> ip_registry_count (ip_registry_connect_fail r a) b = ip_registry_count r b"
  by (simp add: ip_registry_connect_fail_def update_counts split: option.split)

lemma disconnect_counts:
  assumes ok: "reg_ok r"
  shows "if 0 < ip_registry_count r a
    then \<exists>r'. ip_registry_disconnect e r a c = Inr r' \<and> reg_ok r'
      \<and> ip_registry_count r' = (ip_registry_count r)(a := ip_registry_count r a - 1)
    else ip_registry_disconnect e r a c = Inl Aborted"
proof (cases "ip_registry_find r a")
  case None
  then show ?thesis by (simp add: ip_registry_count_def ip_registry_disconnect_def)
next
  case (Some en)
  then have a: "addr en = a" and c: "ip_registry_count r a = connected en"
    using ok ip.find_key by (blast, simp add: ip_registry_count_def)
  show ?thesis
    using Some ok a c by (auto simp: ip_registry_disconnect_def store_ok count_store fun_eq_iff)
qed

lemma disconnect_ip_counts:
  assumes ok: "reg_ok r"
  shows "reg_ok (ip_registry_disconnect_ip r a)
    \<and> unat (ip_registry_count (ip_registry_disconnect_ip r a) b) =
        unat (ip_registry_count r b) - (if b = a then 1 else 0)"
proof -
  let ?f = "\<lambda>en. en\<lparr>connected := connected en - 1\<rparr>"
  have "reg_ok (ip_registry_store r a ?f)" "ip_registry_find (ip_registry_store r a ?f) b =
      (if b = a then map_option ?f (ip_registry_find r a) else ip_registry_find r b)"
    using ok ip.inv_update [of r a ?f] ip.find_update [of r a ?f b] by auto
  then show ?thesis
    using ok by (auto simp: ip_registry_disconnect_ip_def ip_registry_count_def unat_minus_1 word_gt_0
        split: option.split)
qed

section \<open>Expiry\<close>

text \<open>What the expiry timer makes of an entry.\<close>

definition expired :: "ipenv \<Rightarrow> IPRegistryEntry \<Rightarrow> IPRegistryEntry option" where
  "expired e en =
     (if connected en \<noteq> 0 then Some en
      else if 600 < CONNECTED_SINCE e (last_connect en) then None
      else if 120 < CONNECTED_SINCE e (last_connect en) then Some (en\<lparr>target := None\<rparr>)
      else Some en)"

lemma expired_addr: "expired e en = Some en' \<Longrightarrow> addr en' = addr en \<and> connected en' = connected en"
  by (auto simp: expired_def split: if_splits)

lemma find_in_chain: "reg_ok r \<Longrightarrow> en \<in> set (hashTable r b) \<Longrightarrow> ip_registry_find r (addr en) = Some en"
  by (simp add: reg_ok_def reg_ops table_find_in)

lemma expire_entry_find:
  assumes ok: "reg_ok r" and en: "ip_registry_find r (addr en) = Some en" and c: "connected en = 0"
  shows "reg_ok (ip_registry_expire_entry e r en)"
    "ip_registry_find (ip_registry_expire_entry e r en) b =
       (if b = addr en then expired e en else ip_registry_find r b)"
  using assms ip.inv_remove [OF ok] ip.find_remove [OF ok, of "addr en" b]
    ip.inv_update [OF ok, of "addr en" "\<lambda>en. en\<lparr>target := None\<rparr>"]
    ip.find_update [OF ok, of "addr en" "\<lambda>en. en\<lparr>target := None\<rparr>" b]
  by (auto simp: ip_registry_expire_entry_def expired_def)

lemma expire_chain_find:
  assumes "reg_ok r" "distinct (map addr chain)" "\<forall>en \<in> set chain. ip_registry_find r (addr en) = Some en"
  shows "reg_ok (expire_chain e chain r)
    \<and> ip_registry_find (expire_chain e chain r) b =
        (if b \<in> addr ` set chain then Option.bind (ip_registry_find r b) (expired e) else ip_registry_find r b)"
  using assms
proof (induction chain arbitrary: r)
  case (Cons en chain)
  define r1 where "r1 = (if connected en = 0 then ip_registry_expire_entry e r en else r)"
  have find1: "reg_ok r1" "ip_registry_find r1 x = (if x = addr en then expired e en else ip_registry_find r x)" for x
    using Cons.prems expire_entry_find [of r en e] by (auto simp: r1_def expired_def)
  have run: "expire_chain e (en # chain) r = expire_chain e chain r1"
    by (simp add: expire_chain_def r1_def)
  have later: "\<forall>x \<in> set chain. ip_registry_find r1 (addr x) = Some x"
  proof
    fix x assume x: "x \<in> set chain"
    then have "addr x \<noteq> addr en" using Cons.prems(2) by (metis distinct.simps(2) image_eqI list.set_map list.simps(9))
    then show "ip_registry_find r1 (addr x) = Some x" using find1(2) [of "addr x"] Cons.prems(3) x by simp
  qed
  have IH: "reg_ok (expire_chain e chain r1) \<and> ip_registry_find (expire_chain e chain r1) b =
      (if b \<in> addr ` set chain then Option.bind (ip_registry_find r1 b) (expired e) else ip_registry_find r1 b)"
    using Cons.IH [OF find1(1) _ later] Cons.prems(2) by simp
  have en: "ip_registry_find r (addr en) = Some en" "addr en \<notin> addr ` set chain"
    using Cons.prems(2,3) by auto
  show ?case
  proof (cases "b = addr en")
    case True
    then show ?thesis using IH en find1(2) [of b] by (simp add: run)
  next
    case False
    then show ?thesis using IH find1(2) [of b] by (simp add: run)
  qed
qed (simp add: expire_chain_def)

lemma expire_buckets_find:
  assumes "reg_ok r" "distinct bs" "\<forall>i \<in> set bs. i < IP_REGISTRY_TABLE_SIZE"
  shows "reg_ok (fold (\<lambda>i r. expire_chain e (hashTable r (of_nat i)) r) bs r)
    \<and> ip_registry_find (fold (\<lambda>i r. expire_chain e (hashTable r (of_nat i)) r) bs r) b =
        (if unat (ip_registry_hash b) \<in> set bs then Option.bind (ip_registry_find r b) (expired e)
         else ip_registry_find r b)"
  using assms
proof (induction bs arbitrary: r)
  case (Cons i bs)
  let ?chain = "hashTable r (of_nat i)" and ?r1 = "expire_chain e (hashTable r (of_nat i)) r"
  have i: "unat (of_nat i :: u32) = i"
    using Cons.prems(3) by (simp add: unat_of_nat IP_REGISTRY_TABLE_SIZE_def)
  have chain: "distinct (map addr ?chain)" "\<forall>en \<in> set ?chain. ip_registry_find r (addr en) = Some en"
    "\<forall>en \<in> set ?chain. ip_registry_hash (addr en) = of_nat i"
    using Cons.prems(1) find_in_chain by (auto simp: reg_ok_def table_ok_def)
  have in_chain: "b \<in> addr ` set ?chain" if "ip_registry_hash b = of_nat i" "ip_registry_find r b \<noteq> None"
    using that by (auto simp: ip_registry_find_def find_None_iff image_iff)
  have step: "reg_ok ?r1" "ip_registry_find ?r1 b =
      (if unat (ip_registry_hash b) = i then Option.bind (ip_registry_find r b) (expired e) else ip_registry_find r b)"
    using expire_chain_find [OF Cons.prems(1) chain(1,2), of e b] chain(3) in_chain i
    by (cases "ip_registry_find r b"; auto simp: word_unat_eq_iff)+
  show ?case
    using Cons.IH [OF step(1)] step(2) Cons.prems(2,3) by auto
qed simp

lemma hash_less: "unat (ip_registry_hash a) < IP_REGISTRY_TABLE_SIZE"
proof -
  have "ip_registry_hash a = take_bit 16 (drop_bit 16 a XOR a)"
    by (simp add: ip_registry_hash_def take_bit_eq_mask mask_eq_exp_minus_1)
  moreover have "unat (take_bit 16 (drop_bit 16 a XOR a)) < 2 ^ 16"
    unfolding unsigned_take_bit_eq by (rule take_bit_nat_less_exp)
  ultimately show ?thesis by (simp add: IP_REGISTRY_TABLE_SIZE_def)
qed

lemma expire_find:
  assumes "reg_ok r"
  shows "reg_ok (ip_registry_expire e r)"
    "ip_registry_find (ip_registry_expire e r) b = Option.bind (ip_registry_find r b) (expired e)"
  using expire_buckets_find [OF assms, of "[0..<IP_REGISTRY_TABLE_SIZE]" e b] hash_less [of b]
  by (auto simp: ip_registry_expire_def)

lemma expire_counts:
  assumes "reg_ok r"
  shows "ip_registry_count (ip_registry_expire e r) b = ip_registry_count r b"
  by (auto simp: ip_registry_count_def expire_find [OF assms] expired_def split: option.splits)

section \<open>Histories\<close>

text \<open>
  The registry in use: clients arrive and leave and the timer runs, in any order and at any
  times. \<open>live a\<close> is the number of clients from address \<open>a\<close> that are marked \<open>IPChecked\<close> and have not
  left: local clients that were let in and all remote ones, since \<open>ip_registry_check_remote\<close> marks and
  counts a client also when it refuses it (\<open>s_user.c\<close> then lets it exit, which is the step \<open>leave\<close>). A local
  client that is let in and found to be on a Z-line is taken back at once (\<open>add_connection\<close> of \<open>s_bsd.c\<close>).
\<close>

inductive ip_step :: "ipreg \<times> (u32 \<Rightarrow> nat) \<Rightarrow> ipreg \<times> (u32 \<Rightarrow> nat) \<Rightarrow> bool" where
  local: "ip_registry_check_local e r a = (r', verdict, nt) \<Longrightarrow>
    ip_step (r, live) (r', if verdict then live(a := live a + 1) else live)"
| zlined: "ip_registry_check_local e r a = (r', True, nt) \<Longrightarrow> ip_step (r, live) (ip_registry_disconnect_ip r' a, live)"
| remote: "ip_registry_check_remote e r a is_burst = (r', verdict) \<Longrightarrow>
    ip_step (r, live) (r', live(a := live a + 1))"
| fail: "ip_step (r, live) (ip_registry_connect_fail r a, live)"
| leave: "0 < live a \<Longrightarrow> ip_registry_disconnect e r a c = Inr r' \<Longrightarrow>
    ip_step (r, live) (r', live(a := live a - 1))"
| expire: "ip_step (r, live) (ip_registry_expire e r, live)"

inductive_cases ip_stepE: "ip_step (r, live) (r', live')"

definition empty_registry :: ipreg where
  "empty_registry = \<lparr>hashTable = (\<lambda>_. []), freeList = 0\<rparr>"

inductive ip_reachable :: "ipreg \<times> (u32 \<Rightarrow> nat) \<Rightarrow> bool" where
  start: "ip_reachable (empty_registry, \<lambda>_. 0)"
| step: "ip_reachable s \<Longrightarrow> ip_step s s' \<Longrightarrow> ip_reachable s'"

definition ip_inv :: "ipreg \<times> (u32 \<Rightarrow> nat) \<Rightarrow> bool" where
  "ip_inv s \<longleftrightarrow> reg_ok (fst s) \<and> (\<forall>a. ip_registry_count (fst s) a = of_nat (snd s a))"

lemma ip_step_inv:
  assumes "ip_step s s'" "ip_inv s"
  shows "ip_inv s'"
  using assms
proof (induction rule: ip_step.induct)
  case (local e r a r' verdict nt live)
  have "reg_ok r'" "ip_registry_count r' b = ip_registry_count r b + (if b = a \<and> verdict then 1 else 0)" for b
    using check_local_counts [OF _ local(1)] check_local_word [OF _ local(1)] local(2) by (simp_all add: ip_inv_def)
  then show ?case using local(2) by (auto simp: ip_inv_def)
next
  case (zlined e r a r' nt live)
  have r': "reg_ok r'" using check_local_counts [OF _ zlined(1)] zlined(2) by (simp add: ip_inv_def)
  have "unat (ip_registry_count (ip_registry_disconnect_ip r' a) b) = unat (ip_registry_count r b)" for b
    using check_local_counts [OF _ zlined(1), of b] disconnect_ip_counts [OF r', of a b] zlined(2) by (simp add: ip_inv_def)
  then have "ip_registry_count (ip_registry_disconnect_ip r' a) b = ip_registry_count r b" for b by (simp add: word_unat_eq_iff)
  then show ?case using zlined(2) disconnect_ip_counts [OF r', of a] by (simp add: ip_inv_def)
next
  case (remote e r a is_burst r' verdict live)
  then show ?case using check_remote_counts [of r e a is_burst r' verdict] by (auto simp: ip_inv_def)
next
  case (fail r live a)
  then show ?case by (simp add: ip_inv_def connect_fail_counts)
next
  case (leave live a e r c r')
  then show ?case
    using disconnect_counts [of r a e c] by (auto simp: ip_inv_def word_gt_0 of_nat_diff split: if_splits)
next
  case (expire r live e)
  then show ?case by (simp add: ip_inv_def expire_find expire_counts)
qed

lemma ip_reachable_inv: "ip_reachable s \<Longrightarrow> ip_inv s"
proof (induction rule: ip_reachable.induct)
  case start
  show ?case
    by (simp add: ip_inv_def empty_registry_def reg_ok_def table_ok_def ip_registry_count_def ip_registry_find_def)
qed (rule ip_step_inv)

text \<open>
  C21: connection accounting: however connects, refusals, disconnects and expiry runs interleave,
  the counter of every address is the number of its counted clients modulo \<open>2 ^ 16\<close>, so exact below
  that. A client's disconnect passes its assertions unless the number is a multiple of \<open>2 ^ 16\<close>, as it
  is after the refusal of a remote client by which the counter overflows: then it fails.
\<close>

theorem ip_registry_counts_clients:
  assumes "ip_reachable (r, live)"
  shows "unat (ip_registry_count r a) = live a mod 2 ^ 16
    \<and> (live a mod 2 ^ 16 \<noteq> 0 \<longrightarrow> (\<exists>r'. ip_registry_disconnect e r a c = Inr r'))
    \<and> (live a mod 2 ^ 16 = 0 \<longrightarrow> ip_registry_disconnect e r a c = Inl Aborted)"
proof -
  have inv: "reg_ok r" "unat (ip_registry_count r a) = live a mod 2 ^ 16"
    using ip_reachable_inv [OF assms] by (simp_all add: ip_inv_def unat_of_nat)
  have "live a mod 2 ^ 16 \<noteq> 0 \<longleftrightarrow> 0 < ip_registry_count r a" using inv(2) by (metis unat_eq_0 word_gt_0)
  then show ?thesis
    using inv disconnect_counts [OF inv(1), of a e c] by auto
qed

definition example_env :: ipenv where
  "example_env = \<lparr>CurrentTime = 100, me_since = 0, IPCHECK_CLONE_LIMIT = 4, IPCHECK_CLONE_PERIOD = 40,
     IPCHECK_CLONE_DELAY = 600, NOTHROTTLE = False\<rparr>"

definition example_entry :: IPRegistryEntry where
  "example_entry = \<lparr>target = None, addr = 1, last_connect = 100, connected = 1, attempts = 1\<rparr>"

definition example_registry :: ipreg where
  "example_registry = ip_registry_add empty_registry example_entry"

lemma example_local:
  "ip_registry_check_local example_env empty_registry 1 = (example_registry, True, None)"
  by (simp add: ip_registry_check_local_def ip_registry_find_def empty_registry_def ip_registry_new_entry_def
      example_registry_def example_entry_def example_env_def NOW_def)

lemma example_find: "ip_registry_find example_registry 1 = Some example_entry"
  by (simp add: ip_registry_find_def example_registry_def ip_registry_add_def example_entry_def
      ip_registry_hash_def Let_def)

lemma example_reachable: "ip_reachable (example_registry, (\<lambda>_. 0)(1 := 1))"
  using ip_reachable.step [OF ip_reachable.start ip_step.local [OF example_local]] by simp

lemma example_reg_ok: "reg_ok example_registry"
  using ip_reachable_inv [OF example_reachable] by (simp add: ip_inv_def)

theorem ip_registry_counts_clients_witness:
  "ip_registry_count example_registry 1 = 1
    \<and> (\<exists>r'. ip_registry_disconnect example_env example_registry 1
          \<lparr>my_connect = False, cli_targets = [], cli_nexttarget = 0, cli_firsttime = 0\<rparr> = Inr r')"
  using ip_registry_counts_clients [OF example_reachable, of 1 example_env
      "\<lparr>my_connect = False, cli_targets = [], cli_nexttarget = 0, cli_firsttime = 0\<rparr>"]
  by (simp add: word_unat_eq_iff)

text \<open>
  A run of the expiry timer drops exactly the entries without clients that were last used
  more than 600 seconds ago by the 16-bit clock, forgets the targets of those older than 120
  seconds, and changes no other entry.
\<close>

theorem ip_registry_expire_exact:
  assumes "reg_ok r"
  shows "ip_registry_find (ip_registry_expire e r) a =
    (case ip_registry_find r a of None \<Rightarrow> None
     | Some en \<Rightarrow>
         if connected en = 0 \<and> 600 < CONNECTED_SINCE e (last_connect en) then None
         else if connected en = 0 \<and> 120 < CONNECTED_SINCE e (last_connect en)
         then Some (en\<lparr>target := None\<rparr>) else Some en)"
  by (auto simp: expire_find [OF assms] expired_def split: option.split)

theorem ip_registry_expire_exact_witness:
  "ip_registry_find (ip_registry_expire (example_env\<lparr>CurrentTime := 1000\<rparr>) example_registry) 1 = Some example_entry"
  using ip_registry_expire_exact [OF example_reg_ok, of "example_env\<lparr>CurrentTime := 1000\<rparr>" 1] example_find
  by (simp add: example_entry_def)

lemma mod_65536:
  "0 \<le> x \<Longrightarrow> x < 131072 \<Longrightarrow> x mod 65536 = (if x < 65536 then x else x - 65536)" for x :: int
  using minus_mod_self2 [of x 65536] mod_pos_pos_trivial [of "x - 65536" 65536] mod_pos_pos_trivial [of x 65536]
  by (cases "x < 65536") simp_all

text \<open>
  The clock of the registry: an entry stamped at time \<open>T\<close> and looked at \<open>d\<close> seconds later shows
  the age \<open>d\<close> only if the low 16 bits of the time have not wrapped in between; after a wrap the
  age is negative, so that an unused entry of any such age survives the timer unchanged.
\<close>

theorem ip_registry_clock_wraps:
  assumes "0 \<le> d" "d < 65536" "CurrentTime e = T + d"
  shows "CONNECTED_SINCE e (T mod 65536) = (if T mod 65536 + d < 65536 then d else d - 65536)
    \<and> (65536 \<le> T mod 65536 + d \<longrightarrow> last_connect en = T mod 65536 \<longrightarrow> expired e en = Some en)"
proof -
  have "(T + d) mod 65536 = (T mod 65536 + d) mod 65536" by (simp add: mod_simps)
  also have "\<dots> = (if T mod 65536 + d < 65536 then T mod 65536 + d else T mod 65536 + d - 65536)"
    using assms(1,2) mod_65536 [of "T mod 65536 + d"] pos_mod_bound [of 65536 T] pos_mod_sign [of 65536 T] by linarith
  finally have since: "CONNECTED_SINCE e (T mod 65536) = (if T mod 65536 + d < 65536 then d else d - 65536)"
    using assms(3) by (simp add: CONNECTED_SINCE_def NOW_def)
  then show ?thesis using assms(2) by (auto simp: expired_def)
qed

theorem ip_registry_clock_wraps_witness:
  "CONNECTED_SINCE (example_env\<lparr>CurrentTime := 66000\<rparr>) 65000 = - 64536
    \<and> expired (example_env\<lparr>CurrentTime := 66000\<rparr>) (example_entry\<lparr>connected := 0, last_connect := 65000\<rparr>) =
        Some (example_entry\<lparr>connected := 0, last_connect := 65000\<rparr>)"
  using ip_registry_clock_wraps [of 1000 "example_env\<lparr>CurrentTime := 66000\<rparr>" 65000
      "example_entry\<lparr>connected := 0, last_connect := 65000\<rparr>"]
  by simp

text \<open>
  Clone throttling of local connections from a known address: a connection beyond the limit
  is refused only while the server itself has been up for less than the clone delay; later every
  connection is let in, however many there are, unless the 16-bit counter is full.
\<close>

theorem ip_registry_throttle:
  assumes "ip_registry_find r a = Some en"
  shows "fst (snd (ip_registry_check_local e r a)) \<longleftrightarrow>
    connected en + 1 \<noteq> 0
    \<and> (int (unat (attempts (fst (local_entry e en)))) < IPCHECK_CLONE_LIMIT e
       \<or> IPCHECK_CLONE_DELAY e \<le> CurrentTime e - me_since e \<or> NOTHROTTLE e)"
  using assms by (auto simp: ip_registry_check_local_def split: prod.splits)

theorem ip_registry_throttle_witness:
  "\<not> fst (snd (ip_registry_check_local (example_env\<lparr>IPCHECK_CLONE_LIMIT := 1\<rparr>) example_registry 1))
    \<and> fst (snd (ip_registry_check_local (example_env\<lparr>IPCHECK_CLONE_LIMIT := 1, CurrentTime := 700\<rparr>) example_registry 1))"
  using ip_registry_throttle [OF example_find, of "example_env\<lparr>IPCHECK_CLONE_LIMIT := 1\<rparr>"]
    ip_registry_throttle [OF example_find, of "example_env\<lparr>IPCHECK_CLONE_LIMIT := 1, CurrentTime := 700\<rparr>"]
  by (simp add: example_env_def example_entry_def local_entry_def ip_registry_update_free_targets_def
      CONNECTED_SINCE_def NOW_def Let_def)

text \<open>
  The time of the next free target handed to an accepted client: with \<open>n\<close> free targets it lies
  \<open>128 * n - 1\<close> seconds back, as it should, but with none it lies \<open>2 ^ 32 - 1\<close> seconds back,
  because the product is unsigned.
\<close>

theorem ip_registry_next_target:
  assumes "ip_registry_check_local e r a = (r', True, Some t)" "ip_registry_find r a = Some en"
    and "snd (local_entry e en) = n" "n \<le> STARTTARGETS"
  shows "t = CurrentTime e - (if n = 0 then 2 ^ 32 - 1 else 128 * int (unat n) - 1)"
proof -
  have t: "t = CurrentTime e - uint (word_of_int TARGET_DELAY * n - 1)"
    using assms(1-3) by (auto simp: ip_registry_check_local_def split: prod.splits if_splits)
  have "uint (word_of_int TARGET_DELAY * n - 1 :: u32) = 128 * uint n - 1" if "n \<noteq> 0"
  proof -
    have "0 < uint n" "uint n \<le> 10"
      using that assms(4) by (auto simp: word_le_def STARTTARGETS_def uint_0_iff intro: le_neq_trans)
    then show ?thesis
      by (simp add: TARGET_DELAY_def uint_word_ariths mod_pos_pos_trivial)
  qed
  moreover have "uint (- 1 :: u32) = 2 ^ 32 - 1"
    by (simp add: unsigned_minus_1_eq_mask mask_eq_exp_minus_1)
  ultimately show ?thesis using t by (cases "n = 0") simp_all
qed

definition tired_entry :: IPRegistryEntry where
  "tired_entry = example_entry\<lparr>target := Some \<lparr>tcount = 0, ttargets = []\<rparr>\<rparr>"

definition tired_registry :: ipreg where
  "tired_registry = ip_registry_add empty_registry tired_entry"

theorem ip_registry_next_target_witness:
  "\<exists>r'. ip_registry_check_local example_env tired_registry 1 = (r', True, Some (100 - (2 ^ 32 - 1)))"
proof -
  have find: "ip_registry_find tired_registry 1 = Some tired_entry"
    by (simp add: ip_registry_find_def tired_registry_def ip_registry_add_def tired_entry_def example_entry_def
        ip_registry_hash_def Let_def)
  have n: "snd (local_entry example_env tired_entry) = 0"
    by (simp add: local_entry_def tired_entry_def example_entry_def example_env_def NOW_def CONNECTED_SINCE_def
        ip_registry_update_free_targets_def Let_def)
  have "\<exists>r' t. ip_registry_check_local example_env tired_registry 1 = (r', True, Some t)"
    using find
    by (simp add: ip_registry_check_local_def local_entry_def tired_entry_def example_entry_def example_env_def NOW_def
        CONNECTED_SINCE_def ip_registry_update_free_targets_def Let_def)
  then obtain r' t where run: "ip_registry_check_local example_env tired_registry 1 = (r', True, Some t)" by blast
  have "t = CurrentTime example_env - (2 ^ 32 - 1)"
    using ip_registry_next_target [OF run find n] by simp
  then show ?thesis using run by (simp add: example_env_def)
qed

end
