(* ===== verification/Hash.thy ===== *)
theory Hash
  imports Ircd_String "HOL-Library.Multiset"
begin

text \<open>
  The name tables (\<open>ircd/hash.c\<close>): clients, channels and watches hashed by name, and the open
  addressed table of juped nicks.

  A bucket is the list of its members in link order; clients, channels and watches are named
  by identifiers, and the name of each is given by a function (a nick may change). The random
  numbers \<open>init_hash\<close> draws are an argument.
\<close>

section \<open>The hash function\<close>

definition HASHSIZE :: nat where "HASHSIZE = 32000"

definition crc_step :: "u32 \<Rightarrow> u32" where
  "crc_step rnd = (if rnd AND 1 \<noteq> 0 then 0xedb88320 XOR (drop_bit 1 rnd) else drop_bit 1 rnd)"

definition crc_table :: "u32 list" where
  "crc_table = map (\<lambda>ii. (crc_step ^^ 8) (of_nat ii)) [0..<256]"

definition swap_at :: "nat \<Rightarrow> nat \<Rightarrow> 'a list \<Rightarrow> 'a list" where
  "swap_at i j xs = xs[i := xs ! j, j := xs ! i]"

text \<open>The shuffle: \<open>n\<close> counts the numbers drawn from \<open>ircrandom\<close> so far.\<close>

fun shuffle_step :: "(nat \<Rightarrow> u32) \<Rightarrow> nat \<Rightarrow> u32 list \<times> u32 \<times> nat \<Rightarrow> u32 list \<times> u32 \<times> nat" where
  "shuffle_step ircrandom ii (crc, rnd, n) =
     (let (rnd1, n1) = (if rnd = 0 then (ircrandom n, Suc n) else (rnd, n));
          poly = ii + unat rnd1 mod (256 - ii)
      in (swap_at ii poly crc, drop_bit 8 rnd1, n1))"

definition init_hash :: "(nat \<Rightarrow> u32) \<Rightarrow> u32 list" where
  "init_hash ircrandom = fst (fold (shuffle_step ircrandom) [0..<256] (crc_table, 0, 0))"

definition lowbyte :: "char \<Rightarrow> nat" where
  "lowbyte c = ord (ToLower c)"

text \<open>\<open>strhash\<close> looks at a character before it tests for the end.\<close>

definition strhash :: "u32 list \<Rightarrow> string \<Rightarrow> nat res" where
  "strhash crc32hash n =
     (case n of [] \<Rightarrow> Inl OutOfBounds
      | c # cs \<Rightarrow>
          Inr (unat (fold (\<lambda>c hash. (drop_bit 8 hash) XOR crc32hash ! unat ((hash XOR of_nat (lowbyte c)) AND 255))
                       cs (crc32hash ! lowbyte c)) mod HASHSIZE))"

section \<open>Name tables\<close>

type_synonym 'e buckets = "nat \<Rightarrow> 'e list"

text \<open>The operations on one chain: link in front, unlink, find and move to the front.\<close>

definition chain_unlink :: "'e \<Rightarrow> 'e list \<Rightarrow> 'e list \<times> bool" where
  "chain_unlink x chain = (remove1 x chain, x \<in> set chain)"

definition chain_seek :: "('e \<Rightarrow> bool) \<Rightarrow> 'e list \<Rightarrow> 'e list \<times> 'e option" where
  "chain_seek P chain =
     (case List.find P chain of None \<Rightarrow> (chain, None) | Some x \<Rightarrow> (x # remove1 x chain, Some x))"

definition hAddClient :: "u32 list \<Rightarrow> (client \<Rightarrow> string) \<Rightarrow> client buckets \<Rightarrow> client \<Rightarrow> client buckets res" where
  "hAddClient crc cli_name clientTable cptr =
     res_bind (strhash crc (cli_name cptr)) (\<lambda>hashv.
       Inr (clientTable(hashv := cptr # clientTable hashv)))"

definition hRemClient :: "u32 list \<Rightarrow> (client \<Rightarrow> string) \<Rightarrow> client buckets \<Rightarrow> client \<Rightarrow> (client buckets \<times> int) res" where
  "hRemClient crc cli_name clientTable cptr =
     res_bind (strhash crc (cli_name cptr)) (\<lambda>hashv.
       let (chain, found) = chain_unlink cptr (clientTable hashv)
       in Inr (clientTable(hashv := chain), if found then 0 else - 1))"

definition hChangeClient :: "u32 list \<Rightarrow> (client \<Rightarrow> string) \<Rightarrow> client buckets \<Rightarrow> client \<Rightarrow> string
    \<Rightarrow> client buckets res" where
  "hChangeClient crc cli_name clientTable cptr newname =
     res_bind (strhash crc newname) (\<lambda>newhash.
     res_bind (hRemClient crc cli_name clientTable cptr) (\<lambda>(t, _).
       Inr (t(newhash := cptr # t newhash))))"

definition hSeekClient :: "u32 list \<Rightarrow> (client \<Rightarrow> string) \<Rightarrow> (client \<Rightarrow> u16) \<Rightarrow> client buckets \<Rightarrow> string \<Rightarrow> u16
    \<Rightarrow> (client buckets \<times> client option) res" where
  "hSeekClient crc cli_name cli_status clientTable name TMask =
     res_bind (strhash crc name) (\<lambda>hashv.
       let (chain, found) = chain_seek (\<lambda>c. cli_status c AND TMask \<noteq> 0 \<and> ircd_strcmp name (cli_name c) = 0)
                              (clientTable hashv)
       in Inr (clientTable(hashv := chain), found))"

type_synonym channel = nat

definition hAddChannel :: "u32 list \<Rightarrow> (channel \<Rightarrow> string) \<Rightarrow> channel buckets \<Rightarrow> channel \<Rightarrow> channel buckets res" where
  "hAddChannel crc chname channelTable chptr =
     res_bind (strhash crc (chname chptr)) (\<lambda>hashv.
       Inr (channelTable(hashv := chptr # channelTable hashv)))"

definition hRemChannel :: "u32 list \<Rightarrow> (channel \<Rightarrow> string) \<Rightarrow> channel buckets \<Rightarrow> channel \<Rightarrow> (channel buckets \<times> int) res" where
  "hRemChannel crc chname channelTable chptr =
     res_bind (strhash crc (chname chptr)) (\<lambda>hashv.
       let (chain, found) = chain_unlink chptr (channelTable hashv)
       in Inr (channelTable(hashv := chain), if found then 0 else - 1))"

definition hSeekChannel :: "u32 list \<Rightarrow> (channel \<Rightarrow> string) \<Rightarrow> channel buckets \<Rightarrow> string
    \<Rightarrow> (channel buckets \<times> channel option) res" where
  "hSeekChannel crc chname channelTable name =
     res_bind (strhash crc name) (\<lambda>hashv.
       let (chain, found) = chain_seek (\<lambda>c. ircd_strcmp name (chname c) = 0) (channelTable hashv)
       in Inr (channelTable(hashv := chain), found))"

type_synonym watch = nat

definition hAddWatch :: "u32 list \<Rightarrow> (watch \<Rightarrow> string) \<Rightarrow> watch buckets \<Rightarrow> watch \<Rightarrow> watch buckets res" where
  "hAddWatch crc wt_nick watchTable wptr =
     res_bind (strhash crc (wt_nick wptr)) (\<lambda>hashv.
       Inr (watchTable(hashv := wptr # watchTable hashv)))"

definition hRemWatch :: "u32 list \<Rightarrow> (watch \<Rightarrow> string) \<Rightarrow> watch buckets \<Rightarrow> watch \<Rightarrow> (watch buckets \<times> int) res" where
  "hRemWatch crc wt_nick watchTable wptr =
     res_bind (strhash crc (wt_nick wptr)) (\<lambda>hashv.
       let (chain, found) = chain_unlink wptr (watchTable hashv)
       in Inr (watchTable(hashv := chain), if found then 0 else - 1))"

definition hSeekWatch :: "u32 list \<Rightarrow> (watch \<Rightarrow> string) \<Rightarrow> watch buckets \<Rightarrow> string
    \<Rightarrow> (watch buckets \<times> watch option) res" where
  "hSeekWatch crc wt_nick watchTable nick =
     res_bind (strhash crc nick) (\<lambda>hashv.
       let (chain, found) = chain_seek (\<lambda>w. ircd_strcmp nick (wt_nick w) = 0) (watchTable hashv)
       in Inr (watchTable(hashv := chain), found))"

text \<open>The statistics of a table: entries, used buckets, longest chain.\<close>

definition hash_stats :: "'e buckets \<Rightarrow> nat \<times> nat \<times> nat" where
  "hash_stats table =
     fold (\<lambda>i (count, buckets, max_chain).
        let len = length (table i)
        in if len = 0 then (count, buckets, max_chain)
           else (count + len, Suc buckets, max max_chain len))
       [0..<HASHSIZE] (0, 0, 0)"

definition m_hash :: "client buckets \<Rightarrow> channel buckets \<Rightarrow> (nat \<times> nat \<times> nat) \<times> (nat \<times> nat \<times> nat)" where
  "m_hash clientTable channelTable = (hash_stats clientTable, hash_stats channelTable)"

section \<open>Juped nicks\<close>

definition JUPEHASHSIZE :: nat where "JUPEHASHSIZE = 4096"
definition JUPEMAX :: nat where "JUPEMAX = 64"
definition NICKLEN :: nat where "NICKLEN = 30"

record jupes =
  jupeTable :: "string list"
  jupesCount :: nat

partial_function (option) juped_loop :: "string list \<Rightarrow> string \<Rightarrow> nat \<Rightarrow> bool option" where
  "juped_loop table nick pos =
     (let p = pos mod JUPEHASHSIZE in
      if table ! p = [] then Some False
      else if ircd_strcmp nick (table ! p) = 0 then Some True
      else juped_loop table nick (Suc p))"

definition isNickJuped :: "u32 list \<Rightarrow> jupes \<Rightarrow> string \<Rightarrow> bool option" where
  "isNickJuped crc j nick =
     (case strhash crc nick of Inl _ \<Rightarrow> Some False | Inr pos \<Rightarrow> juped_loop (jupeTable j) nick pos)"

text \<open>Adding one nick: the new table and whether it was full.\<close>

partial_function (option) jupe_add_loop :: "jupes \<Rightarrow> string \<Rightarrow> nat \<Rightarrow> (jupes \<times> bool) option" where
  "jupe_add_loop j one pos =
     (let p = pos mod JUPEHASHSIZE in
      if jupeTable j ! p = [] then
        (if jupesCount j = JUPEMAX then Some (j, True)
         else Some (\<lparr>jupeTable = (jupeTable j)[p := take NICKLEN one], jupesCount = Suc (jupesCount j)\<rparr>, False))
      else if ircd_strcmp one (jupeTable j ! p) = 0 then Some (j, False)
      else jupe_add_loop j one (Suc p))"

fun jupe_add_all :: "u32 list \<Rightarrow> jupes \<Rightarrow> string list \<Rightarrow> (jupes \<times> int) option" where
  "jupe_add_all crc j [] = Some (j, 0)"
| "jupe_add_all crc j (one # rest) =
     (case strhash crc one of Inl _ \<Rightarrow> jupe_add_all crc j rest
      | Inr pos \<Rightarrow>
          (case jupe_add_loop j one pos of None \<Rightarrow> None
           | Some (j', full) \<Rightarrow> if full then Some (j', 1) else jupe_add_all crc j' rest))"

text \<open>The nicks \<open>ircd_strtok\<close> yields, one call after the other.\<close>

lemma strtok_shorter:
  "ircd_strtok None (Some s) fs = (Some one, Some p) \<Longrightarrow> length p < length s"
proof -
  assume a: "ircd_strtok None (Some s) fs = (Some one, Some p)"
  obtain c r where cr: "dropWhile (\<lambda>c. c \<in> set fs) s = c # r"
    and d: "\<exists>x. dropWhile (\<lambda>c. c \<notin> set fs) (c # r) = x # p"
    using a by (auto simp: ircd_strtok_def split: list.splits)
  have "length (c # r) \<le> length s" using cr length_dropWhile_le by metis
  moreover have "length (dropWhile (\<lambda>c. c \<notin> set fs) (c # r)) \<le> length (c # r)" by (rule length_dropWhile_le)
  ultimately show ?thesis using d by auto
qed

function jupe_tokens :: "string \<Rightarrow> string list" where
  "jupe_tokens s =
     (case ircd_strtok None (Some s) '','' of
        (None, _) \<Rightarrow> []
      | (Some one, None) \<Rightarrow> [one]
      | (Some one, Some p) \<Rightarrow> one # jupe_tokens p)"
  by pat_completeness auto
termination
  by (relation "measure length") (auto dest: strtok_shorter [OF sym])

declare jupe_tokens.simps [simp del]

text \<open>\<open>nicks\<close> is cut to \<open>BUFSIZE\<close> characters first.\<close>

definition addNickJupes :: "u32 list \<Rightarrow> jupes \<Rightarrow> string \<Rightarrow> (jupes \<times> int) option" where
  "addNickJupes crc j nicks = jupe_add_all crc j (jupe_tokens (take 512 nicks))"

definition clearNickJupes :: "jupes \<Rightarrow> jupes" where
  "clearNickJupes j = \<lparr>jupeTable = replicate JUPEHASHSIZE [], jupesCount = 0\<rparr>"

definition stats_nickjupes :: "jupes \<Rightarrow> string list" where
  "stats_nickjupes j = filter (\<lambda>s. s \<noteq> []) (jupeTable j)"

section \<open>The contract of a name table\<close>

abbreviation lower :: "string \<Rightarrow> string" where
  "lower \<equiv> map ToLower"

locale name_table =
  fixes inv :: "'t \<Rightarrow> bool"
    and members :: "'t \<Rightarrow> 'e set"
    and nm :: "'e \<Rightarrow> string"
    and visible :: "'e \<Rightarrow> bool"
    and add :: "'t \<Rightarrow> 'e \<Rightarrow> 't res"
    and rem :: "'t \<Rightarrow> 'e \<Rightarrow> ('t \<times> int) res"
    and seek :: "'t \<Rightarrow> string \<Rightarrow> ('t \<times> 'e option) res"
  assumes add_law: "inv t \<Longrightarrow> e \<notin> members t \<Longrightarrow> nm e \<noteq> [] \<Longrightarrow> cstring (nm e) \<Longrightarrow>
      \<exists>t'. add t e = Inr t' \<and> inv t' \<and> members t' = insert e (members t)"
    and rem_law: "inv t \<Longrightarrow> nm e \<noteq> [] \<Longrightarrow>
      \<exists>t'. rem t e = Inr (t', if e \<in> members t then 0 else - 1) \<and> inv t' \<and> members t' = members t - {e}"
    and seek_law: "inv t \<Longrightarrow> n \<noteq> [] \<Longrightarrow> cstring n \<Longrightarrow>
      \<exists>t' r. seek t n = Inr (t', r) \<and> inv t' \<and> members t' = members t
        \<and> (case r of None \<Rightarrow> \<forall>e \<in> members t. visible e \<longrightarrow> lower (nm e) \<noteq> lower n
           | Some e \<Rightarrow> e \<in> members t \<and> visible e \<and> lower (nm e) = lower n)"
begin

text \<open>With names unique up to case, seeking finds exactly the member of that name.\<close>

lemma seek_unique:
  assumes "inv t" "inj_on (\<lambda>e. lower (nm e)) (members t)" "e \<in> members t" "visible e"
    and "n \<noteq> []" "cstring n" "lower (nm e) = lower n"
  shows "\<exists>t'. seek t n = Inr (t', Some e) \<and> inv t' \<and> members t' = members t"
proof -
  obtain t' r where s: "seek t n = Inr (t', r)" "inv t'" "members t' = members t"
    and r: "case r of None \<Rightarrow> \<forall>e \<in> members t. visible e \<longrightarrow> lower (nm e) \<noteq> lower n
           | Some e \<Rightarrow> e \<in> members t \<and> visible e \<and> lower (nm e) = lower n"
    using seek_law [OF assms(1,5,6)] by blast
  show ?thesis
  proof (cases r)
    case None
    then show ?thesis using r assms(3,4,7) by auto
  next
    case (Some x)
    then have "x = e" using r assms(2,3,7) by (auto simp: inj_on_def)
    then show ?thesis using s Some by simp
  qed
qed

text \<open>A name that was free is found after its owner is added, and no longer after it is removed.\<close>

lemma add_seek_rem:
  assumes "inv t" "inj_on (\<lambda>e. lower (nm e)) (members t)" "visible e" "nm e \<noteq> []" "cstring (nm e)"
    and free: "\<forall>x \<in> members t. lower (nm x) \<noteq> lower (nm e)"
  shows "\<exists>t1 t2 t3 t4. add t e = Inr t1 \<and> seek t1 (nm e) = Inr (t2, Some e)
    \<and> rem t2 e = Inr (t3, 0) \<and> seek t3 (nm e) = Inr (t4, None) \<and> members t4 = members t"
proof -
  have new: "e \<notin> members t" using free by auto
  obtain t1 where t1: "add t e = Inr t1" "inv t1" "members t1 = insert e (members t)"
    using add_law [OF assms(1) new assms(4,5)] by blast
  have inj: "inj_on (\<lambda>e. lower (nm e)) (members t1)"
    using assms(2) free t1(3) by (auto simp: inj_on_def)
  obtain t2 where t2: "seek t1 (nm e) = Inr (t2, Some e)" "inv t2" "members t2 = members t1"
    using seek_unique [OF t1(2) inj _ assms(3,4,5) refl] t1(3) by blast
  obtain t3 where t3: "rem t2 e = Inr (t3, 0)" "inv t3" "members t3 = members t"
    using rem_law [OF t2(2) assms(4)] t1(3) t2(3) new by auto
  obtain t4 r where t4: "seek t3 (nm e) = Inr (t4, r)" "members t4 = members t3"
    and r: "case r of None \<Rightarrow> \<forall>x \<in> members t3. visible x \<longrightarrow> lower (nm x) \<noteq> lower (nm e)
           | Some x \<Rightarrow> x \<in> members t3 \<and> visible x \<and> lower (nm x) = lower (nm e)"
    using seek_law [OF t3(2) assms(4,5)] by blast
  have "r = None" using r t3(3) free by (cases r) auto
  then show ?thesis using t1 t2 t3 t4 by simp
qed

end

section \<open>The three tables provide it\<close>

definition table_inv :: "u32 list \<Rightarrow> ('e \<Rightarrow> string) \<Rightarrow> 'e buckets \<Rightarrow> bool" where
  "table_inv crc nm t \<longleftrightarrow>
     (\<forall>b. distinct (t b) \<and> (\<forall>e \<in> set (t b). strhash crc (nm e) = Inr b \<and> cstring (nm e)))"

definition members :: "'e buckets \<Rightarrow> 'e set" where
  "members t = (\<Union>b. set (t b))"

lemma map_lowbyte: "map lowbyte a = map ord (lower a)"
  by (simp add: lowbyte_def comp_def)

lemma fold_lowbyte: "fold (\<lambda>c. g (lowbyte c)) a h = fold g (map lowbyte a) h"
  by (simp add: fold_map comp_def)

lemma strhash_lower:
  assumes "lower a = lower b"
  shows "strhash crc a = strhash crc b"
proof (cases a)
  case (Cons c cs)
  then obtain d ds where b: "b = d # ds" "ToLower c = ToLower d" "lower cs = lower ds"
    using assms by (cases b) auto
  let ?g = "\<lambda>n hash. (drop_bit 8 hash) XOR crc ! unat ((hash XOR of_nat n) AND 255)"
  have "fold (\<lambda>c. ?g (lowbyte c)) cs h = fold (\<lambda>c. ?g (lowbyte c)) ds h" for h
    using fold_lowbyte [of ?g cs h] fold_lowbyte [of ?g ds h] by (simp add: map_lowbyte b(3) del: map_map)
  then show ?thesis using Cons b by (simp add: strhash_def lowbyte_def)
qed (use assms in simp)

lemma strhash_defined: "n \<noteq> [] \<Longrightarrow> \<exists>b < HASHSIZE. strhash crc n = Inr b"
  by (cases n) (auto simp: strhash_def HASHSIZE_def)

lemma in_members: "table_inv crc nm t \<Longrightarrow> strhash crc (nm e) = Inr b \<Longrightarrow> e \<in> members t \<longleftrightarrow> e \<in> set (t b)"
  by (fastforce simp: table_inv_def members_def)

lemma table_add_ok:
  assumes "table_inv crc nm t" "e \<notin> members t" "strhash crc (nm e) = Inr b" "cstring (nm e)"
  shows "table_inv crc nm (t(b := e # t b))" "members (t(b := e # t b)) = insert e (members t)"
  using assms by (auto simp: table_inv_def members_def split: if_splits)

lemma table_rem_ok:
  assumes "table_inv crc nm t" "strhash crc (nm e) = Inr b"
  shows "table_inv crc nm (t(b := remove1 e (t b)))" "members (t(b := remove1 e (t b))) = members t - {e}"
proof -
  have d: "distinct (t b)" using assms(1) by (simp add: table_inv_def)
  show "table_inv crc nm (t(b := remove1 e (t b)))"
    using assms d by (auto simp: table_inv_def dest: notin_set_remove1 [rotated])
  have "set (remove1 e (t b)) = set (t b) - {e}" using d by simp
  moreover have "e \<notin> set (t b')" if "b' \<noteq> b" for b'
    using assms that by (auto simp: table_inv_def)
  ultimately show "members (t(b := remove1 e (t b))) = members t - {e}"
    by (auto simp: members_def split: if_splits)
qed

lemma table_front_ok:
  assumes "table_inv crc nm t" "x \<in> set (t b)"
  shows "table_inv crc nm (t(b := x # remove1 x (t b)))" "members (t(b := x # remove1 x (t b))) = members t"
proof -
  have "set (x # remove1 x (t b)) = set (t b)" "distinct (x # remove1 x (t b))"
    using assms by (auto simp: table_inv_def)
  then show "table_inv crc nm (t(b := x # remove1 x (t b)))" "members (t(b := x # remove1 x (t b))) = members t"
    using assms(1) by (auto simp: table_inv_def members_def split: if_splits)
qed

lemma table_seek_ok:
  assumes inv: "table_inv crc nm t" and n: "n \<noteq> []" "cstring n" and b: "strhash crc n = Inr b"
    and run: "chain_seek (\<lambda>e. visible e \<and> ircd_strcmp n (nm e) = 0) (t b) = (chain, r)"
  shows "table_inv crc nm (t(b := chain)) \<and> members (t(b := chain)) = members t
    \<and> (case r of None \<Rightarrow> \<forall>e \<in> members t. visible e \<longrightarrow> lower (nm e) \<noteq> lower n
       | Some e \<Rightarrow> e \<in> members t \<and> visible e \<and> lower (nm e) = lower n)"
proof (cases "List.find (\<lambda>e. visible e \<and> ircd_strcmp n (nm e) = 0) (t b)")
  case None
  have "\<not> (visible e \<and> lower (nm e) = lower n)" if m: "e \<in> members t" for e
  proof
    assume a: "visible e \<and> lower (nm e) = lower n"
    obtain b' where b': "e \<in> set (t b')" "strhash crc (nm e) = Inr b'" "cstring (nm e)"
      using m inv by (auto simp: members_def table_inv_def)
    then have "b' = b" using strhash_lower [of "nm e" n crc] a b by simp
    then show False using None b' a n(2) ircd_strcmp_eq_0 [of n "nm e"] by (auto simp: find_None_iff)
  qed
  then show ?thesis using run None inv by (auto simp: chain_seek_def)
next
  case (Some x)
  then have x: "x \<in> set (t b)" "visible x" "ircd_strcmp n (nm x) = 0"
    by (auto simp: find_Some_iff)
  then have "lower (nm x) = lower n"
    using inv n(2) ircd_strcmp_eq_0 [of n "nm x"] by (auto simp: table_inv_def)
  moreover have "chain = x # remove1 x (t b)" "r = Some x" using run Some by (simp_all add: chain_seek_def)
  moreover have "x \<in> members t" using x(1) by (auto simp: members_def)
  ultimately show ?thesis
    using x table_front_ok [OF inv x(1)] by simp
qed

lemmas hash_table_defs =
  hAddClient_def hRemClient_def hSeekClient_def hAddChannel_def hRemChannel_def hSeekChannel_def
  hAddWatch_def hRemWatch_def hSeekWatch_def

lemma name_table_laws:
  assumes "\<And>t e. add t e = res_bind (strhash crc (nm e)) (\<lambda>b. Inr (t(b := e # t b)))"
    and "\<And>t e. rem t e = res_bind (strhash crc (nm e)) (\<lambda>b.
       let (chain, found) = chain_unlink e (t b) in Inr (t(b := chain), if found then 0 else - 1))"
    and "\<And>t n. seek t n = res_bind (strhash crc n) (\<lambda>b.
       let (chain, found) = chain_seek (\<lambda>e. visible e \<and> ircd_strcmp n (nm e) = 0) (t b)
       in Inr (t(b := chain), found))"
  shows "name_table (table_inv crc nm) members nm visible add rem seek"
proof
  fix t e n
  assume inv: "table_inv crc nm t"
  show "\<exists>t'. add t e = Inr t' \<and> table_inv crc nm t' \<and> members t' = insert e (members t)"
    if "e \<notin> members t" "nm e \<noteq> []" "cstring (nm e)"
    using strhash_defined [OF that(2), of crc] table_add_ok [OF inv that(1) _ that(3)] by (auto simp: assms(1))
  show "\<exists>t'. rem t e = Inr (t', if e \<in> members t then 0 else - 1) \<and> table_inv crc nm t' \<and> members t' = members t - {e}"
    if "nm e \<noteq> []"
    using strhash_defined [OF that, of crc] table_rem_ok [OF inv, of e] in_members [OF inv, of e]
    by (fastforce simp: assms(2) chain_unlink_def)
  show "\<exists>t' r. seek t n = Inr (t', r) \<and> table_inv crc nm t' \<and> members t' = members t
        \<and> (case r of None \<Rightarrow> \<forall>e \<in> members t. visible e \<longrightarrow> lower (nm e) \<noteq> lower n
           | Some e \<Rightarrow> e \<in> members t \<and> visible e \<and> lower (nm e) = lower n)"
    if n: "n \<noteq> []" "cstring n"
  proof -
    obtain b where b: "strhash crc n = Inr b" using strhash_defined [OF n(1)] by blast
    obtain chain r where r: "chain_seek (\<lambda>e. visible e \<and> ircd_strcmp n (nm e) = 0) (t b) = (chain, r)" by fastforce
    show ?thesis using table_seek_ok [OF inv n b r] b r by (auto simp: assms(3))
  qed
qed

interpretation channels: name_table "table_inv crc chname" members chname "\<lambda>_. True"
    "hAddChannel crc chname" "hRemChannel crc chname" "hSeekChannel crc chname" for crc chname
  by (rule name_table_laws) (simp_all add: hash_table_defs)

interpretation watches: name_table "table_inv crc wt_nick" members wt_nick "\<lambda>_. True"
    "hAddWatch crc wt_nick" "hRemWatch crc wt_nick" "hSeekWatch crc wt_nick" for crc wt_nick
  by (rule name_table_laws) (simp_all add: hash_table_defs)

interpretation clients: name_table "table_inv crc cli_name" members cli_name "\<lambda>c. cli_status c AND TMask \<noteq> 0"
    "hAddClient crc cli_name" "hRemClient crc cli_name" "\<lambda>t n. hSeekClient crc cli_name cli_status t n TMask"
    for crc cli_name cli_status TMask
  by (rule name_table_laws) (simp_all add: hash_table_defs)

text \<open>A nick change: after it, the table is right for the new name.\<close>

lemma hChangeClient_ok:
  assumes inv: "table_inv crc nm t" and "c \<in> members t" "new \<noteq> []" "cstring new"
  shows "\<exists>t'. hChangeClient crc nm t c new = Inr t' \<and> table_inv crc (nm(c := new)) t' \<and> members t' = members t"
proof -
  obtain b where b: "c \<in> set (t b)" "strhash crc (nm c) = Inr b"
    using assms(1,2) by (auto simp: members_def table_inv_def)
  obtain b' where b': "strhash crc new = Inr b'" using strhash_defined [OF assms(3)] by blast
  define t1 where "t1 = t(b := remove1 c (t b))"
  have t1: "table_inv crc nm t1" "members t1 = members t - {c}"
    using table_rem_ok [OF inv b(2)] by (simp_all add: t1_def)
  have "table_inv crc (nm(c := new)) t1"
    using t1 by (auto simp: table_inv_def members_def)
  then have "table_inv crc (nm(c := new)) (t1(b' := c # t1 b'))" "members (t1(b' := c # t1 b')) = insert c (members t1)"
    using table_add_ok [of crc "nm(c := new)" t1 c b'] t1(2) b' assms(4) by simp_all
  moreover have "hChangeClient crc nm t c new = Inr (t1(b' := c # t1 b'))"
    using b b' by (simp add: hChangeClient_def hRemClient_def chain_unlink_def t1_def)
  ultimately show ?thesis using t1(2) assms(2) by auto
qed

section \<open>The shuffled CRC table\<close>

lemma mset_swap_at: "i < length xs \<Longrightarrow> j < length xs \<Longrightarrow> mset (swap_at i j xs) = mset xs"
  by (simp add: swap_at_def mset_swap)

lemma shuffle_mset:
  "set is \<subseteq> {0..<256} \<Longrightarrow> length crc = 256 \<Longrightarrow>
   mset (fst (fold (shuffle_step rnds) is (crc, rnd, n))) = mset crc
     \<and> length (fst (fold (shuffle_step rnds) is (crc, rnd, n))) = 256"
proof (induction "is" arbitrary: crc rnd n)
  case (Cons i "is")
  obtain rnd1 n1 where r: "(if rnd = 0 then (rnds n, Suc n) else (rnd, n)) = (rnd1, n1)" by fastforce
  define j where "j = i + unat rnd1 mod (256 - i)"
  have i: "i < 256" using Cons.prems(1) by simp
  have j: "j < 256" using mod_less_divisor [of "256 - i" "unat rnd1"] i unfolding j_def by linarith
  have "shuffle_step rnds i (crc, rnd, n) = (swap_at i j crc, drop_bit 8 rnd1, n1)"
    using r by (simp add: j_def)
  moreover have "length (swap_at i j crc) = 256" using Cons.prems(2) by (simp add: swap_at_def)
  ultimately show ?case
    using Cons.IH [of "swap_at i j crc" "drop_bit 8 rnd1" n1] Cons.prems i j mset_swap_at [of i crc j] by simp
qed simp

lemma init_hash_permutes: "mset (init_hash rnds) = mset crc_table" "length (init_hash rnds) = 256"
  using shuffle_mset [of "[0..<256]" crc_table rnds 0 0] by (auto simp: init_hash_def crc_table_def)

section \<open>Juped nicks: open addressing\<close>

text \<open>The slot \<open>k\<close> probes after \<open>pos\<close>.\<close>

definition probe :: "nat \<Rightarrow> nat \<Rightarrow> nat" where
  "probe pos k = (pos + k) mod JUPEHASHSIZE"

lemma probe_Suc: "probe (Suc (probe pos 0)) k = probe pos (Suc k)"
  unfolding probe_def by (metis add.right_neutral add_Suc add_Suc_right mod_Suc_eq mod_add_left_eq)

definition jupes_ok :: "u32 list \<Rightarrow> jupes \<Rightarrow> bool" where
  "jupes_ok crc j \<longleftrightarrow> length (jupeTable j) = JUPEHASHSIZE
     \<and> jupesCount j = length (filter (\<lambda>s. s \<noteq> []) (jupeTable j)) \<and> jupesCount j \<le> JUPEMAX
     \<and> (\<forall>p < JUPEHASHSIZE. jupeTable j ! p \<noteq> [] \<longrightarrow> cstring (jupeTable j ! p) \<and>
          (\<exists>h k. strhash crc (jupeTable j ! p) = Inr h \<and> p = probe h k
             \<and> (\<forall>i < k. jupeTable j ! probe h i \<noteq> [])))"

definition juped :: "jupes \<Rightarrow> string \<Rightarrow> bool" where
  "juped j nick \<longleftrightarrow> (\<exists>s \<in> set (jupeTable j). s \<noteq> [] \<and> lower s = lower nick)"

lemma free_slot:
  assumes "jupes_ok crc j"
  shows "\<exists>k. jupeTable j ! probe pos k = []"
proof -
  have "\<exists>p < JUPEHASHSIZE. jupeTable j ! p = []"
  proof (rule ccontr)
    assume "\<not> ?thesis"
    then have "\<forall>s \<in> set (jupeTable j). s \<noteq> []" using assms by (auto simp: jupes_ok_def in_set_conv_nth)
    then have "filter (\<lambda>s. s \<noteq> []) (jupeTable j) = jupeTable j" by (simp add: filter_id_conv)
    then have "jupesCount j = JUPEHASHSIZE" using assms by (simp add: jupes_ok_def)
    then show False using assms by (simp add: jupes_ok_def JUPEMAX_def JUPEHASHSIZE_def)
  qed
  then obtain p where p: "p < JUPEHASHSIZE" "jupeTable j ! p = []" by blast
  have "probe pos (p + JUPEHASHSIZE - pos mod JUPEHASHSIZE) = p"
  proof -
    have "pos mod JUPEHASHSIZE < JUPEHASHSIZE" by (simp add: JUPEHASHSIZE_def)
    then have "pos mod JUPEHASHSIZE + (p + JUPEHASHSIZE - pos mod JUPEHASHSIZE) = p + JUPEHASHSIZE" by simp
    then show ?thesis unfolding probe_def using p(1) by (metis mod_add_left_eq mod_add_self2 mod_less)
  qed
  then show ?thesis using p(2) by metis
qed

text \<open>Both loops stop at the first slot that is free or holds the nick.\<close>

lemma juped_loop_stop:
  "(\<forall>i < k. table ! probe pos i \<noteq> [] \<and> ircd_strcmp nick (table ! probe pos i) \<noteq> 0) \<Longrightarrow>
   table ! probe pos k = [] \<or> ircd_strcmp nick (table ! probe pos k) = 0 \<Longrightarrow>
   juped_loop table nick pos = Some (table ! probe pos k \<noteq> [])"
proof (induction k arbitrary: pos)
  case 0
  then show ?case by (auto simp: juped_loop.simps [of table nick pos] probe_def Let_def)
next
  case (Suc k)
  let ?pos = "Suc (probe pos 0)"
  have "juped_loop table nick pos = juped_loop table nick ?pos"
    using Suc.prems(1) by (auto simp: juped_loop.simps [of table nick pos] probe_def Let_def)
  moreover have "juped_loop table nick ?pos = Some (table ! probe ?pos k \<noteq> [])"
    using Suc.prems by (intro Suc.IH) (auto simp: probe_Suc)
  ultimately show ?case by (simp add: probe_Suc)
qed

lemma jupe_add_loop_stop:
  "(\<forall>i < k. jupeTable j ! probe pos i \<noteq> [] \<and> ircd_strcmp one (jupeTable j ! probe pos i) \<noteq> 0) \<Longrightarrow>
   jupeTable j ! probe pos k = [] \<or> ircd_strcmp one (jupeTable j ! probe pos k) = 0 \<Longrightarrow>
   jupe_add_loop j one pos =
     Some (if jupeTable j ! probe pos k \<noteq> [] then (j, False)
       else if jupesCount j = JUPEMAX then (j, True)
       else (\<lparr>jupeTable = (jupeTable j)[probe pos k := take NICKLEN one], jupesCount = Suc (jupesCount j)\<rparr>, False))"
proof (induction k arbitrary: pos)
  case 0
  then show ?case by (auto simp: jupe_add_loop.simps [of j one pos] probe_def Let_def)
next
  case (Suc k)
  let ?pos = "Suc (probe pos 0)"
  have "jupe_add_loop j one pos = jupe_add_loop j one ?pos"
    using Suc.prems(1) by (auto simp: jupe_add_loop.simps [of j one pos] probe_def Let_def)
  then show ?case
    using Suc.IH [of ?pos] Suc.prems by (simp add: probe_Suc)
qed

lemma first_stop:
  assumes "jupes_ok crc j"
  obtains k where "\<forall>i < k. jupeTable j ! probe pos i \<noteq> [] \<and> ircd_strcmp nick (jupeTable j ! probe pos i) \<noteq> 0"
    "jupeTable j ! probe pos k = [] \<or> ircd_strcmp nick (jupeTable j ! probe pos k) = 0"
proof -
  let ?stop = "\<lambda>k. jupeTable j ! probe pos k = [] \<or> ircd_strcmp nick (jupeTable j ! probe pos k) = 0"
  obtain k where "?stop k" using free_slot [OF assms, of pos] by blast
  then have "?stop (Least ?stop)" by (rule LeastI)
  moreover have "\<forall>i < Least ?stop. \<not> ?stop i" using not_less_Least by blast
  ultimately show thesis using that [of "Least ?stop"] by blast
qed

lemma isNickJuped_ok:
  assumes ok: "jupes_ok crc j" and nick: "nick \<noteq> []" "cstring nick"
  shows "isNickJuped crc j nick = Some (juped j nick)"
proof -
  obtain h where h: "strhash crc nick = Inr h" using strhash_defined [OF nick(1)] by blast
  obtain k where k: "\<forall>i < k. jupeTable j ! probe h i \<noteq> [] \<and> ircd_strcmp nick (jupeTable j ! probe h i) \<noteq> 0"
    "jupeTable j ! probe h k = [] \<or> ircd_strcmp nick (jupeTable j ! probe h k) = 0"
    by (rule first_stop [OF ok])
  have run: "isNickJuped crc j nick = Some (jupeTable j ! probe h k \<noteq> [])"
    using juped_loop_stop [OF k] h by (simp add: isNickJuped_def)
  have slot: "probe h k < JUPEHASHSIZE" by (simp add: probe_def JUPEHASHSIZE_def)
  have len: "length (jupeTable j) = JUPEHASHSIZE" using ok by (simp add: jupes_ok_def)
  have "jupeTable j ! probe h k \<noteq> [] \<longleftrightarrow> juped j nick"
  proof
    assume a: "jupeTable j ! probe h k \<noteq> []"
    then have "lower (jupeTable j ! probe h k) = lower nick"
      using k(2) ok slot nick(2) ircd_strcmp_eq_0 [of nick "jupeTable j ! probe h k"] by (auto simp: jupes_ok_def)
    moreover have "jupeTable j ! probe h k \<in> set (jupeTable j)" using slot len by simp
    ultimately show "juped j nick" using a unfolding juped_def by blast
  next
    assume "juped j nick"
    then obtain p where p: "p < JUPEHASHSIZE" "jupeTable j ! p \<noteq> []" "lower (jupeTable j ! p) = lower nick"
      using len by (auto simp: juped_def in_set_conv_nth)
    then obtain h' k' where p': "strhash crc (jupeTable j ! p) = Inr h'" "p = probe h' k'"
        "\<forall>i < k'. jupeTable j ! probe h' i \<noteq> []" and cs: "cstring (jupeTable j ! p)"
      using ok by (auto simp: jupes_ok_def)
    have "h' = h" using p'(1) strhash_lower [OF p(3), of crc] h by simp
    moreover have "ircd_strcmp nick (jupeTable j ! p) = 0"
      using p(3) nick(2) cs by (simp add: ircd_strcmp_eq_0)
    ultimately have "k \<le> k'" using k(1) p'(2) by (metis not_less)
    then show "jupeTable j ! probe h k \<noteq> []" using p'(2,3) p(2) \<open>h' = h\<close> by (cases "k = k'") auto
  qed
  then show ?thesis using run by simp
qed

lemma jupe_add_ok:
  assumes ok: "jupes_ok crc j" and one: "one \<noteq> []" "cstring one" "length one \<le> NICKLEN"
    and h: "strhash crc one = Inr h"
  obtains j' full where "jupe_add_loop j one h = Some (j', full)" "jupes_ok crc j'"
    "full \<Longrightarrow> j' = j \<and> jupesCount j = JUPEMAX"
    "\<not> full \<Longrightarrow> juped j' = (\<lambda>x. juped j x \<or> lower one = lower x)"
proof -
  let ?T = "jupeTable j"
  obtain k where k: "\<forall>i < k. ?T ! probe h i \<noteq> [] \<and> ircd_strcmp one (?T ! probe h i) \<noteq> 0"
    "?T ! probe h k = [] \<or> ircd_strcmp one (?T ! probe h k) = 0"
    by (rule first_stop [OF ok])
  note run = jupe_add_loop_stop [OF k]
  have slot: "probe h k < length ?T" using ok by (simp add: jupes_ok_def probe_def JUPEHASHSIZE_def)
  show thesis
  proof (cases "?T ! probe h k = []")
    case False
    then have "lower one = lower (?T ! probe h k)"
      using k(2) ok slot one(2) ircd_strcmp_eq_0 [of one "?T ! probe h k"] by (auto simp: jupes_ok_def)
    then have "juped j = (\<lambda>x. juped j x \<or> lower one = lower x)"
      using False slot unfolding juped_def by (fastforce simp: fun_eq_iff)
    then show thesis using that [of j False] run False ok by simp
  next
    case free: True
    show thesis
    proof (cases "jupesCount j = JUPEMAX")
      case True
      then show thesis using that [of j True] run free ok by simp
    next
      case False
      define j' where "j' = \<lparr>jupeTable = ?T[probe h k := one], jupesCount = Suc (jupesCount j)\<rparr>"
      have r: "jupe_add_loop j one h = Some (j', False)" using run free False one(3) by (simp add: j'_def)
      have keep: "jupeTable j' ! p \<noteq> []" if "?T ! p \<noteq> []" for p
        using that one(1) slot by (cases "p = probe h k") (simp_all add: j'_def)
      obtain xs ys where split: "?T = xs @ [] # ys" "?T[probe h k := one] = xs @ one # ys"
        using id_take_nth_drop [OF slot] upd_conv_take_nth_drop [OF slot, of one] free by metis
      have count: "jupesCount j' = length (filter (\<lambda>s. s \<noteq> []) (jupeTable j'))"
        using ok one(1) split by (simp add: jupes_ok_def j'_def)
      have path: "cstring (jupeTable j' ! p) \<and> (\<exists>h k. strhash crc (jupeTable j' ! p) = Inr h \<and> p = probe h k
          \<and> (\<forall>i < k. jupeTable j' ! probe h i \<noteq> []))" if "p < JUPEHASHSIZE" "jupeTable j' ! p \<noteq> []" for p
      proof (cases "p = probe h k")
        case True
        then show ?thesis using one(2) h k(1) keep slot by (auto simp: j'_def intro!: exI [of _ h] exI [of _ k])
      next
        case False
        then have "jupeTable j' ! p = ?T ! p" by (simp add: j'_def)
        then show ?thesis using that ok keep unfolding jupes_ok_def by metis
      qed
      have "jupes_ok crc j'"
        using ok count path False slot by (auto simp: jupes_ok_def j'_def)
      moreover have "juped j' = (\<lambda>x. juped j x \<or> lower one = lower x)"
        using one(1) split by (auto simp: juped_def j'_def fun_eq_iff)
      ultimately show thesis using that [of j' False] r by simp
    qed
  qed
qed

text \<open>The nicks of a list: nonempty pieces between commas.\<close>

lemma jupe_add_all_ok:
  assumes "jupes_ok crc j" "\<forall>one \<in> set ns. one \<noteq> [] \<and> cstring one \<and> length one \<le> NICKLEN"
  shows "\<exists>j' r. jupe_add_all crc j ns = Some (j', r) \<and> jupes_ok crc j'
    \<and> (r = 0 \<and> juped j' = (\<lambda>x. juped j x \<or> (\<exists>one \<in> set ns. lower one = lower x))
       \<or> r = 1 \<and> jupesCount j' = JUPEMAX \<and> (\<forall>x. juped j x \<longrightarrow> juped j' x))"
  using assms
proof (induction ns arbitrary: j)
  case (Cons one ns)
  then have one: "one \<noteq> []" "cstring one" "length one \<le> NICKLEN" by auto
  obtain h where h: "strhash crc one = Inr h" using strhash_defined [OF one(1)] by blast
  obtain j1 full where j1: "jupe_add_loop j one h = Some (j1, full)" "jupes_ok crc j1"
    "full \<Longrightarrow> j1 = j \<and> jupesCount j = JUPEMAX" "\<not> full \<Longrightarrow> juped j1 = (\<lambda>x. juped j x \<or> lower one = lower x)"
    by (rule jupe_add_ok [OF Cons.prems(1) one h]) blast
  show ?case
  proof (cases full)
    case True
    then show ?thesis using h j1 by simp
  next
    case False
    obtain j' r where j': "jupe_add_all crc j1 ns = Some (j', r)" "jupes_ok crc j'"
      "r = 0 \<and> juped j' = (\<lambda>x. juped j1 x \<or> (\<exists>one \<in> set ns. lower one = lower x))
       \<or> r = 1 \<and> jupesCount j' = JUPEMAX \<and> (\<forall>x. juped j1 x \<longrightarrow> juped j' x)"
      using Cons.IH [OF j1(2)] Cons.prems(2) by auto
    have "jupe_add_all crc j (one # ns) = Some (j', r)" using h j1(1) j'(1) False by simp
    then show ?thesis using j' j1(4) [OF False] by auto
  qed
qed (auto simp: fun_eq_iff)

lemma jupes_ok_clear: "jupes_ok crc (clearNickJupes j)" "juped (clearNickJupes j) x \<longleftrightarrow> False"
  by (auto simp: jupes_ok_def clearNickJupes_def juped_def JUPEMAX_def)

section \<open>Theorems\<close>

text \<open>
  The channel table: a channel added under a free name is found by that name in any case,
  found entries keep being found although seeking reorders the bucket, and after its removal the
  name is free again; no other channel is lost.
\<close>

theorem channel_table_correct:
  assumes "table_inv crc chname t" "inj_on (\<lambda>e. lower (chname e)) (members t)"
    and "chname c \<noteq> []" "cstring (chname c)" "\<forall>x \<in> members t. lower (chname x) \<noteq> lower (chname c)"
  shows "\<exists>t1 t2 t3 t4. hAddChannel crc chname t c = Inr t1
    \<and> hSeekChannel crc chname t1 (chname c) = Inr (t2, Some c)
    \<and> hRemChannel crc chname t2 c = Inr (t3, 0)
    \<and> hSeekChannel crc chname t3 (chname c) = Inr (t4, None) \<and> members t4 = members t"
  by (rule channels.add_seek_rem [OF assms(1,2) TrueI assms(3-5)])

lemma empty_table_inv: "table_inv crc nm (\<lambda>_. [])" "members (\<lambda>_. []) = {}"
  by (simp_all add: table_inv_def members_def)

theorem channel_table_correct_witness:
  "\<exists>t1 t2 t3 t4. hAddChannel crc_table (\<lambda>_. ''#irc'') (\<lambda>_. []) 1 = Inr t1
    \<and> hSeekChannel crc_table (\<lambda>_. ''#irc'') t1 ''#irc'' = Inr (t2, Some 1)
    \<and> hRemChannel crc_table (\<lambda>_. ''#irc'') t2 1 = Inr (t3, 0)
    \<and> hSeekChannel crc_table (\<lambda>_. ''#irc'') t3 ''#irc'' = Inr (t4, None) \<and> members t4 = {}"
  using channel_table_correct [of crc_table "\<lambda>_. ''#irc''" "\<lambda>_. []" 1] by (simp add: empty_table_inv)

text \<open>
  The client table across a nick change: \<open>hChangeClient\<close> keeps every client in the table and
  every client in the bucket of its name, so that the client is then found under the new nick,
  among the clients of the wanted status.
\<close>

theorem hChangeClient_correct:
  assumes "table_inv crc nm t" "c \<in> members t" "new \<noteq> []" "cstring new"
    and "\<forall>x \<in> members t - {c}. lower (nm x) \<noteq> lower new" "inj_on (\<lambda>e. lower (nm e)) (members t)"
    and "status c AND TMask \<noteq> 0"
  shows "\<exists>t' t''. hChangeClient crc nm t c new = Inr t' \<and> table_inv crc (nm(c := new)) t' \<and> members t' = members t
    \<and> hSeekClient crc (nm(c := new)) status t' new TMask = Inr (t'', Some c)"
proof -
  obtain t' where t': "hChangeClient crc nm t c new = Inr t'" "table_inv crc (nm(c := new)) t'" "members t' = members t"
    using hChangeClient_ok [OF assms(1-4)] by blast
  have "inj_on (\<lambda>e. lower ((nm(c := new)) e)) (members t')"
    using assms(5,6) t'(3) by (auto simp: inj_on_def)
  then obtain t'' where "hSeekClient crc (nm(c := new)) status t' new TMask = Inr (t'', Some c)"
    using clients.seek_unique [OF t'(2), of c status TMask new] assms(2,3,4,7) t'(3) by auto
  then show ?thesis using t' by blast
qed

definition example_clients :: "client buckets" where
  "example_clients = (case hAddClient crc_table (\<lambda>_. ''Al'') (\<lambda>_. []) 4 of Inr t \<Rightarrow> t | Inl _ \<Rightarrow> (\<lambda>_. []))"

lemma example_clients_ok: "table_inv crc_table (\<lambda>_. ''Al'') example_clients" "members example_clients = {4}"
proof -
  obtain b where b: "strhash crc_table ''Al'' = Inr b" using strhash_defined [of "''Al''" crc_table] by auto
  then have t: "example_clients = (\<lambda>_. [])(b := [4])" by (simp add: example_clients_def hAddClient_def)
  show "table_inv crc_table (\<lambda>_. ''Al'') example_clients" "members example_clients = {4}"
    unfolding t using b by (auto simp: table_inv_def members_def split: if_splits)
qed

theorem hChangeClient_correct_witness:
  "\<exists>t' t''. hChangeClient crc_table (\<lambda>_. ''Al'') example_clients 4 ''Bo'' = Inr t' \<and> members t' = {4}
    \<and> hSeekClient crc_table ((\<lambda>_. ''Al'')(4 := ''Bo'')) (\<lambda>_. 0x80) t' ''Bo'' 0x80 = Inr (t'', Some 4)"
  using hChangeClient_correct [where crc = crc_table and nm = "\<lambda>_. ''Al''" and t = example_clients
      and c = 4 and new = "''Bo''" and status = "\<lambda>_. 0x80" and TMask = "0x80"]
    example_clients_ok by auto

text \<open>
  Juped nicks: with at most 64 of the 4096 slots used, probing always ends. Adding a list of
  nicks of at most 30 characters makes exactly those nicks juped, up to case, in addition to the
  earlier ones, unless the table is full, and then keeps the earlier ones.
\<close>

theorem addNickJupes_correct:
  assumes "jupes_ok crc j"
    and "\<forall>one \<in> set (jupe_tokens (take 512 nicks)). one \<noteq> [] \<and> cstring one \<and> length one \<le> NICKLEN"
    and "nick \<noteq> []" "cstring nick"
  shows "\<exists>j' r. addNickJupes crc j nicks = Some (j', r) \<and> jupes_ok crc j'
    \<and> isNickJuped crc j nick = Some (juped j nick) \<and> isNickJuped crc j' nick = Some (juped j' nick)
    \<and> (r = 0 \<longrightarrow> (juped j' nick \<longleftrightarrow>
         juped j nick \<or> (\<exists>one \<in> set (jupe_tokens (take 512 nicks)). lower one = lower nick)))
    \<and> (r \<noteq> 0 \<longrightarrow> jupesCount j' = JUPEMAX \<and> (juped j nick \<longrightarrow> juped j' nick))"
proof -
  obtain j' r where "jupe_add_all crc j (jupe_tokens (take 512 nicks)) = Some (j', r)" and ok: "jupes_ok crc j'"
    and res: "r = 0 \<and> juped j' = (\<lambda>x. juped j x \<or> (\<exists>one \<in> set (jupe_tokens (take 512 nicks)). lower one = lower x))
       \<or> r = 1 \<and> jupesCount j' = JUPEMAX \<and> (\<forall>x. juped j x \<longrightarrow> juped j' x)"
    using jupe_add_all_ok [OF assms(1,2)] by blast
  then show ?thesis
    using isNickJuped_ok [OF assms(1,3,4)] isNickJuped_ok [OF ok assms(3,4)]
    by (intro exI [of _ j'] exI [of _ r]) (auto simp: addNickJupes_def)
qed

lemma example_tokens: "jupe_tokens ''nick,Chan'' = [''nick'', ''Chan'']"
  by (simp add: jupe_tokens.simps ircd_strtok_def)

theorem addNickJupes_correct_witness:
  "\<exists>j' r. addNickJupes crc_table (clearNickJupes \<lparr>jupeTable = [], jupesCount = 0\<rparr>) ''nick,Chan'' = Some (j', r)
    \<and> jupes_ok crc_table j' \<and> (r = 0 \<longrightarrow> isNickJuped crc_table j' ''chan'' = Some True)"
  using addNickJupes_correct [OF jupes_ok_clear(1) [of crc_table "\<lparr>jupeTable = [], jupesCount = 0\<rparr>"],
      of "''nick,Chan''" "''chan''"]
  by (auto simp: example_tokens NICKLEN_def chattr_simps)

text \<open>
  Whatever numbers the random source yields, the initialised hash table is a permutation of the
  CRC-32 table, and the hash of a name lies inside the bucket array and ignores case.
\<close>

theorem strhash_correct:
  assumes "n \<noteq> []" "lower n = lower n'"
  shows "mset (init_hash rnds) = mset crc_table
    \<and> (\<exists>b < HASHSIZE. strhash (init_hash rnds) n = Inr b \<and> strhash (init_hash rnds) n' = Inr b)"
  using strhash_defined [OF assms(1), of "init_hash rnds"] strhash_lower [OF assms(2), of "init_hash rnds"]
  by (auto simp: init_hash_permutes)

theorem strhash_correct_witness:
  "mset (init_hash (\<lambda>_. 0)) = mset crc_table
    \<and> (\<exists>b < HASHSIZE. strhash (init_hash (\<lambda>_. 0)) ''#Irc'' = Inr b \<and> strhash (init_hash (\<lambda>_. 0)) ''#iRC'' = Inr b)"
  using strhash_correct [of "''#Irc''" "''#iRC''" "\<lambda>_. 0"] by (simp add: chattr_simps)

end
