(* ===== verification/Channel.thy ===== *)
theory Channel
  imports Client Hash
begin

text \<open>
  Channels and their members (\<open>ircd/channel.c\<close>): the matrix of memberships, channel creation and
  destruction, kicked members (zombies) and invitations.

  A linked list is the list of what it links: the members of a channel and the channels of a user
  are lists of membership blocks, \<open>GlobalChannelList\<close> is a list of channels. Channels are allocated
  and freed, and an access to a freed channel is the fault \<open>OutOfBounds\<close>; membership blocks are kept
  on a free list as in the code. Allocation returns an address never used before. Assertions that
  fail are \<open>Aborted\<close>. The feature settings and the time are arguments.
\<close>

section \<open>State\<close>

type_synonym member = nat

definition CHFL_ZOMBIE :: u32 where "CHFL_ZOMBIE = 0x0010"
definition MODE_PERSIST :: u32 where "MODE_PERSIST = 0x1000000"
definition CHANNELLEN :: nat where "CHANNELLEN = 200"

record Membership =
  m_user :: client
  m_channel :: channel
  m_status :: u32

definition IsZombie :: "Membership \<Rightarrow> bool" where "IsZombie x \<longleftrightarrow> m_status x AND CHFL_ZOMBIE \<noteq> 0"
definition SetZombie :: "Membership \<Rightarrow> Membership" where "SetZombie x = x\<lparr>m_status := m_status x OR CHFL_ZOMBIE\<rparr>"

text \<open>A ban or an exception: both are list nodes with the same fields.\<close>

record Ban =
  banstr :: string
  extstr :: "string option"
  extflag :: u32
  ban_who :: string
  ban_when :: int
  ban_flags :: u32

record Channel =
  ch_name :: string
  creationtime :: int
  last_message :: int
  ch_users :: u32
  ch_members :: "member list"
  ch_invites :: "client list"
  ch_mode :: u32
  ch_marker :: u32
  ch_banlist :: "Ban list"
  ch_exceptlist :: "Ban list"
  ch_limit :: u32
  ch_key :: string
  ch_redirect :: string

record User =
  u_server :: client
  u_channel :: "member list"
  u_invited :: "channel list"
  joined :: u32
  u_invites :: u32
  u_host :: string
  u_realusername :: string
  u_realhost :: string
  u_fakehost :: string
  u_account :: string
  u_virthost :: string

record cclient = cli +
  cc_from :: client
  cc_up :: client
  cc_name :: string
  cc_info :: string
  cc_ip :: u32
  cc_killmark :: string
  cc_sdnsbls :: "string list"

record chans =
  me :: client
  clients :: "client \<Rightarrow> cclient"
  cli_user :: "client \<Rightarrow> User option"
  membership :: "member \<Rightarrow> Membership"
  membershipFreeList :: "member list"
  membershipAllocCount :: u32
  next_member :: member
  channel_at :: "channel \<Rightarrow> Channel option"
  next_channel :: channel
  GlobalChannelList :: "channel list"
  UserStats_channels :: u32
  crc32hash :: "u32 list"
  channelTable :: "channel buckets"
  parts_sent :: "(client \<times> client \<times> channel) list"

record chfeat =
  feat_CHANNELLEN :: int
  feat_AUTOCHANMODES :: bool
  feat_AUTOCHANMODES_LIST :: "string option"
  feat_SET_ACTIVE_ON_CREATE :: bool
  feat_MAXCHANNELSPERUSER :: u32

definition the_channel :: "chans \<Rightarrow> channel \<Rightarrow> Channel res" where
  "the_channel s c = (case channel_at s c of None \<Rightarrow> Inl OutOfBounds | Some ch \<Rightarrow> Inr ch)"

definition the_user :: "chans \<Rightarrow> client \<Rightarrow> User res" where
  "the_user s u = (case cli_user s u of None \<Rightarrow> Inl NullDeref | Some us \<Rightarrow> Inr us)"

definition set_channel :: "channel \<Rightarrow> Channel \<Rightarrow> chans \<Rightarrow> chans" where
  "set_channel c ch s = s\<lparr>channel_at := (channel_at s)(c \<mapsto> ch)\<rparr>"

definition set_user :: "client \<Rightarrow> User \<Rightarrow> chans \<Rightarrow> chans" where
  "set_user u us s = s\<lparr>cli_user := (cli_user s)(u \<mapsto> us)\<rparr>"

definition name_of :: "chans \<Rightarrow> channel \<Rightarrow> string" where
  "name_of s c = (case channel_at s c of None \<Rightarrow> [] | Some ch \<Rightarrow> ch_name ch)"

definition IsChannelService :: "'z cli_scheme \<Rightarrow> bool" where "IsChannelService x \<longleftrightarrow> HasFlag x FLAG_CHSERV"
definition IsService :: "'z cli_scheme \<Rightarrow> bool" where "IsService x \<longleftrightarrow> HasFlag x FLAG_SERVICE"

definition MyConnect :: "chans \<Rightarrow> client \<Rightarrow> bool" where "MyConnect s x \<longleftrightarrow> cc_from (clients s x) = x"
definition MyUser :: "chans \<Rightarrow> client \<Rightarrow> bool" where "MyUser s x \<longleftrightarrow> MyConnect s x \<and> IsUser (clients s x)"

section \<open>Finding members\<close>

definition find_member_link :: "chans \<Rightarrow> channel \<Rightarrow> client \<Rightarrow> member option res" where
  "find_member_link s chptr cptr =
     (if IsServer (clients s cptr) \<or> IsMe (clients s cptr) then Inr None
      else if IsChannelService (clients s cptr) then
        res_bind (the_channel s chptr) (\<lambda>ch. Inr (List.find (\<lambda>m. m_user (membership s m) = cptr) (ch_members ch)))
      else
        res_bind (the_user s cptr) (\<lambda>us. Inr (List.find (\<lambda>m. m_channel (membership s m) = chptr) (u_channel us))))"

definition find_channel_member :: "chans \<Rightarrow> client \<Rightarrow> channel \<Rightarrow> member option res" where
  "find_channel_member s cptr chptr =
     res_bind (find_member_link s chptr cptr) (\<lambda>mo.
       Inr (case mo of None \<Rightarrow> None | Some m \<Rightarrow> if IsZombie (membership s m) then None else Some m))"

definition is_zombie :: "chans \<Rightarrow> client \<Rightarrow> channel \<Rightarrow> bool res" where
  "is_zombie s cptr chptr =
     res_bind (find_member_link s chptr cptr) (\<lambda>mo.
       Inr (case mo of None \<Rightarrow> False | Some m \<Rightarrow> IsZombie (membership s m)))"

definition IsInvited :: "chans \<Rightarrow> client \<Rightarrow> channel \<Rightarrow> bool res" where
  "IsInvited s cptr chptr = res_bind (the_user s cptr) (\<lambda>us. Inr (chptr \<in> set (u_invited us)))"

definition channel_all_zombies :: "chans \<Rightarrow> channel \<Rightarrow> bool res" where
  "channel_all_zombies s chptr =
     res_bind (the_channel s chptr) (\<lambda>ch.
       Inr (ch_mode ch AND MODE_PERSIST = 0 \<and> (\<forall>m \<in> set (ch_members ch). IsZombie (membership s m))))"

definition number_of_zombies :: "chans \<Rightarrow> channel \<Rightarrow> nat res" where
  "number_of_zombies s chptr =
     res_bind (the_channel s chptr) (\<lambda>ch. Inr (length (filter (\<lambda>m. IsZombie (membership s m)) (ch_members ch))))"

section \<open>Invitations\<close>

definition del_invite :: "client \<Rightarrow> channel \<Rightarrow> chans \<Rightarrow> chans res" where
  "del_invite cptr chptr s =
     res_bind (the_channel s chptr) (\<lambda>ch.
     res_bind (the_user s cptr) (\<lambda>us.
       let s1 = (if cptr \<in> set (ch_invites ch)
                 then set_user cptr (us\<lparr>u_invites := u_invites us - 1\<rparr>)
                        (set_channel chptr (ch\<lparr>ch_invites := remove1 cptr (ch_invites ch)\<rparr>) s)
                 else s)
       in res_bind (the_user s1 cptr) (\<lambda>us1.
            Inr (set_user cptr (us1\<lparr>u_invited := remove1 chptr (u_invited us1)\<rparr>) s1))))"

definition add_invite :: "chfeat \<Rightarrow> client \<Rightarrow> channel \<Rightarrow> chans \<Rightarrow> chans res" where
  "add_invite feat cptr chptr s =
     res_bind (del_invite cptr chptr s) (\<lambda>s1.
     res_bind (the_user s1 cptr) (\<lambda>us1.
     if of_nat (length (u_invited us1)) \<noteq> u_invites us1 then Inl Aborted else
     res_bind (if feat_MAXCHANNELSPERUSER feat \<le> u_invites us1
               then (case u_invited us1 of [] \<Rightarrow> Inl NullDeref | c # cs \<Rightarrow> del_invite cptr c s1)
               else Inr s1) (\<lambda>s2.
     res_bind (the_channel s2 chptr) (\<lambda>ch.
     let s3 = set_channel chptr (ch\<lparr>ch_invites := cptr # ch_invites ch\<rparr>) s2
     in res_bind (the_user s3 cptr) (\<lambda>us3.
          Inr (set_user cptr (us3\<lparr>u_invited := u_invited us3 @ [chptr], u_invites := u_invites us3 + 1\<rparr>) s3))))))"

text \<open>The loop that withdraws every invitation to a channel.\<close>

partial_function (option) del_all_invites :: "channel \<Rightarrow> chans \<Rightarrow> chans run" where
  "del_all_invites chptr s =
     (case the_channel s chptr of Inl e \<Rightarrow> Some (Inl e)
      | Inr ch \<Rightarrow>
         (case ch_invites ch of [] \<Rightarrow> Some (Inr s)
          | u # us \<Rightarrow>
              (case del_invite u chptr s of Inl e \<Rightarrow> Some (Inl e) | Inr s' \<Rightarrow> del_all_invites chptr s')))"

section \<open>Creating and destroying channels\<close>

text \<open>The common end of \<open>sub1_from_channel\<close> and \<open>destroy_unregistered_channel\<close>.\<close>

definition free_channel :: "channel \<Rightarrow> chans \<Rightarrow> chans run" where
  "free_channel chptr s =
     run_bind (del_all_invites chptr s) (\<lambda>s1.
       case hRemChannel (crc32hash s1) (name_of s1) (channelTable s1) chptr of
         Inl e \<Rightarrow> Some (Inl e)
       | Inr (table, r) \<Rightarrow>
           if r \<noteq> 0 then Some (Inl Aborted)
           else returning (s1\<lparr>GlobalChannelList := remove1 chptr (GlobalChannelList s1), channelTable := table,
                  UserStats_channels := UserStats_channels s1 - 1, channel_at := (channel_at s1)(chptr := None)\<rparr>))"

definition destroy_unregistered_channel :: "channel \<Rightarrow> chans \<Rightarrow> (chans \<times> bool) run" where
  "destroy_unregistered_channel chptr s =
     run_bind (Some (the_channel s chptr)) (\<lambda>ch.
       if 0 < ch_users ch then returning (s, ch_members ch = [])
       else if ch_mode ch AND MODE_PERSIST \<noteq> 0 then returning (s, False)
       else if ch_members ch \<noteq> [] then Some (Inl Aborted)
       else run_bind (free_channel chptr s) (\<lambda>s'. returning (s', True)))"

definition sub1_from_channel :: "channel \<Rightarrow> chans \<Rightarrow> (chans \<times> bool) run" where
  "sub1_from_channel chptr s =
     run_bind (Some (the_channel s chptr)) (\<lambda>ch.
       if 1 < ch_users ch then
         (if ch_members ch = [] then returning (s, False)
          else returning (set_channel chptr (ch\<lparr>ch_users := ch_users ch - 1\<rparr>) s, True))
       else if ch_mode ch AND MODE_PERSIST \<noteq> 0 then
         returning (set_channel chptr (ch\<lparr>ch_users := ch_users ch - 1\<rparr>) s, False)
       else if ch_members ch \<noteq> [] then Some (Inl Aborted)
       else run_bind (free_channel chptr s) (\<lambda>s'. returning (s', False)))"

definition chan_flags :: "(char \<times> u32) list" where
  "chan_flags = [(CHR ''p'', 0x0004), (CHR ''s'', 0x0008), (CHR ''m'', 0x0010), (CHR ''t'', 0x0020), (CHR ''i'', 0x0040),
     (CHR ''n'', 0x0080), (CHR ''r'', 0x0800), (CHR ''c'', 0x1000), (CHR ''S'', 0x80000), (CHR ''C'', 0x2000),
     (CHR ''M'', 0x10000), (CHR ''N'', 0x40000), (CHR ''O'', 0x20000), (CHR ''a'', 0x800000), (CHR ''Q'', 0x4000),
     (CHR ''Z'', 0x8000), (CHR ''T'', 0x100000), (CHR ''L'', 0x200000), (CHR ''z'', MODE_PERSIST)]"

text \<open>The table has no terminating entry: looking up another letter reads past it.\<close>

fun auto_modes :: "string \<Rightarrow> u32 \<Rightarrow> u32 res" where
  "auto_modes [] t_mode = Inr t_mode"
| "auto_modes (c # cs) t_mode =
     (case map_of chan_flags c of None \<Rightarrow> Inl OutOfBounds | Some f \<Rightarrow> auto_modes cs (t_mode OR f))"

definition SetAutoChanModes :: "chfeat \<Rightarrow> Channel \<Rightarrow> Channel res" where
  "SetAutoChanModes feat ch =
     (case feat_AUTOCHANMODES_LIST feat of
        None \<Rightarrow> Inr ch
      | Some modestr \<Rightarrow>
          if \<not> feat_AUTOCHANMODES feat \<or> length modestr \<le> 1 then Inr ch
          else res_bind (auto_modes modestr 0) (\<lambda>t_mode.
                 Inr (if t_mode \<noteq> 0 then ch\<lparr>ch_mode := t_mode\<rparr> else ch)))"

datatype ChannelGetType = CGT_NO_CREATE | CGT_CREATE

text \<open>A name over the limit is cut at \<open>CHANNELLEN\<close>, which lies past the end of a shorter one.\<close>

definition cut_name :: "chfeat \<Rightarrow> bool \<Rightarrow> string \<Rightarrow> string res" where
  "cut_name feat mine chname =
     (if mine \<and> min (int CHANNELLEN) (feat_CHANNELLEN feat) < int (length chname)
      then (if length chname < CHANNELLEN then Inl OutOfBounds else Inr (take CHANNELLEN chname))
      else Inr chname)"

definition new_channel :: "chfeat \<Rightarrow> int \<Rightarrow> client \<Rightarrow> string \<Rightarrow> chans \<Rightarrow> (chans \<times> channel option) res" where
  "new_channel feat now cptr chname s =
     (let c = next_channel s;
          created = (if MyUser s cptr then now else 0);
          ch0 = \<lparr>ch_name = chname, creationtime = created, last_message = 0, ch_users = 0, ch_members = [],
                  ch_invites = [], ch_mode = 0, ch_marker = 0,
                  ch_banlist = [], ch_exceptlist = [], ch_limit = 0, ch_key = [], ch_redirect = []\<rparr>
      in res_bind (if feat_AUTOCHANMODES feat \<and> (case feat_AUTOCHANMODES_LIST feat of None \<Rightarrow> False | Some l \<Rightarrow> l \<noteq> [])
                      \<and> MyUser s cptr
                   then SetAutoChanModes feat ch0 else Inr ch0) (\<lambda>ch1.
         let ch2 = (if feat_SET_ACTIVE_ON_CREATE feat \<and> \<not> IsService (clients s cptr)
                    then ch1\<lparr>last_message := creationtime ch1\<rparr> else ch1);
             s1 = set_channel c ch2 s\<lparr>next_channel := Suc c, UserStats_channels := UserStats_channels s + 1,
                    GlobalChannelList := c # GlobalChannelList s\<rparr>
         in res_bind (hAddChannel (crc32hash s1) (name_of s1) (channelTable s1) c) (\<lambda>table.
              Inr (s1\<lparr>channelTable := table\<rparr>, Some c))))"

definition get_channel :: "chfeat \<Rightarrow> int \<Rightarrow> client \<Rightarrow> string \<Rightarrow> ChannelGetType \<Rightarrow> chans \<Rightarrow> (chans \<times> channel option) res" where
  "get_channel feat now cptr chname flag s =
     (if chname = [] then Inr (s, None)
      else res_bind (cut_name feat (MyUser s cptr) chname) (\<lambda>chname'.
           res_bind (hSeekChannel (crc32hash s) (name_of s) (channelTable s) chname') (\<lambda>(table, found).
             let s1 = s\<lparr>channelTable := table\<rparr>
             in case found of Some c \<Rightarrow> Inr (s1, Some c)
                | None \<Rightarrow> if flag = CGT_CREATE then new_channel feat now cptr chname' s1 else Inr (s1, None))))"

section \<open>Joining and leaving\<close>

definition alloc_member :: "chans \<Rightarrow> member \<times> chans" where
  "alloc_member s =
     (case membershipFreeList s of
        m # ms \<Rightarrow> (m, s\<lparr>membershipFreeList := ms\<rparr>)
      | [] \<Rightarrow> (next_member s, s\<lparr>next_member := Suc (next_member s), membershipAllocCount := membershipAllocCount s + 1\<rparr>))"

definition add_user_to_channel :: "channel \<Rightarrow> client \<Rightarrow> u32 \<Rightarrow> chans \<Rightarrow> chans res" where
  "add_user_to_channel chptr who flags s =
     (case cli_user s who of None \<Rightarrow> Inr s
      | Some us \<Rightarrow>
          res_bind (the_channel s chptr) (\<lambda>ch.
            let (m, s1) = alloc_member s
            in Inr (set_user who (us\<lparr>u_channel := m # u_channel us, joined := joined us + 1\<rparr>)
                     (set_channel chptr (ch\<lparr>ch_members := m # ch_members ch, ch_users := ch_users ch + 1\<rparr>)
                       (s1\<lparr>membership := (membership s1)(m := \<lparr>m_user = who, m_channel = chptr, m_status = flags\<rparr>)\<rparr>)))))"

definition unlink_member :: "member \<Rightarrow> chans \<Rightarrow> chans res" where
  "unlink_member m s =
     (let c = m_channel (membership s m); u = m_user (membership s m)
      in res_bind (the_channel s c) (\<lambda>ch. res_bind (the_user s u) (\<lambda>us.
           Inr (set_user u (us\<lparr>u_channel := remove1 m (u_channel us), joined := joined us - 1\<rparr>)
                 (set_channel c (ch\<lparr>ch_members := remove1 m (ch_members ch)\<rparr>)
                   (s\<lparr>membershipFreeList := m # membershipFreeList s\<rparr>))))))"

definition remove_member_from_channel :: "member \<Rightarrow> chans \<Rightarrow> (chans \<times> bool) run" where
  "remove_member_from_channel m s =
     run_bind (Some (unlink_member m s)) (sub1_from_channel (m_channel (membership s m)))"

partial_function (option) remove_all_members :: "channel \<Rightarrow> chans \<Rightarrow> chans run" where
  "remove_all_members chptr s =
     (case the_channel s chptr of Inl e \<Rightarrow> Some (Inl e)
      | Inr ch \<Rightarrow>
         (case ch_members ch of [] \<Rightarrow> Some (Inl Aborted)
          | m # ms \<Rightarrow>
              (case remove_member_from_channel m s of
                 None \<Rightarrow> None | Some (Inl e) \<Rightarrow> Some (Inl e)
               | Some (Inr (s', again)) \<Rightarrow> if again then remove_all_members chptr s' else Some (Inr s'))))"

definition remove_user_from_channel :: "client \<Rightarrow> channel \<Rightarrow> chans \<Rightarrow> chans run" where
  "remove_user_from_channel cptr chptr s =
     run_bind (Some (find_member_link s chptr cptr)) (\<lambda>mo.
       case mo of None \<Rightarrow> returning s
       | Some m \<Rightarrow>
           run_bind (remove_member_from_channel m s) (\<lambda>(s1, again).
             if again then
               run_bind (Some (channel_all_zombies s1 chptr)) (\<lambda>zombies.
                 if zombies then remove_all_members chptr s1 else returning s1)
             else returning s1))"

partial_function (option) remove_user_from_all_channels :: "client \<Rightarrow> chans \<Rightarrow> chans run" where
  "remove_user_from_all_channels cptr s =
     (case the_user s cptr of Inl e \<Rightarrow> Some (Inl e)
      | Inr us \<Rightarrow>
         (case u_channel us of [] \<Rightarrow> Some (Inr s)
          | m # ms \<Rightarrow>
              (case remove_user_from_channel cptr (m_channel (membership s m)) s of
                 None \<Rightarrow> None | Some (Inl e) \<Rightarrow> Some (Inl e)
               | Some (Inr s') \<Rightarrow> remove_user_from_all_channels cptr s')))"

section \<open>Kicks\<close>

text \<open>Is the server of the kicked user between the source of the kick and this server?\<close>

partial_function (option) on_path :: "(client \<Rightarrow> client) \<Rightarrow> client \<Rightarrow> client \<Rightarrow> client \<Rightarrow> bool option" where
  "on_path serv_up this goal acptr =
     (if acptr = this then Some False
      else if acptr = goal then Some True
      else on_path serv_up this goal (serv_up acptr))"

definition make_zombie :: "member \<Rightarrow> client \<Rightarrow> client \<Rightarrow> client \<Rightarrow> channel \<Rightarrow> chans \<Rightarrow> chans run" where
  "make_zombie m who cptr sptr chptr s =
     (let s1 = s\<lparr>membership := (membership s)(m := SetZombie (membership s m))\<rparr>
      in if MyUser s1 who then
           (let s2 = (if IsServer (clients s1 cptr) then s1\<lparr>parts_sent := parts_sent s1 @ [(who, cptr, chptr)]\<rparr> else s1)
            in remove_user_from_channel who chptr s2)
         else
           run_bind (if cc_from (clients s1 who) = cptr
                     then run_bind (Some (if IsServer (clients s1 sptr) then Inr sptr
                                          else res_bind (the_user s1 sptr) (\<lambda>us. Inr (u_server us)))) (\<lambda>acptr.
                          if acptr = me s1 then returning False
                          else run_bind (Some (the_user s1 who)) (\<lambda>us.
                            case on_path (\<lambda>x. cc_up (clients s1 x)) (me s1) (u_server us) acptr of None \<Rightarrow> None | Some b \<Rightarrow> returning b))
                     else returning False) (\<lambda>removed.
             if removed then remove_user_from_channel who chptr s1
             else run_bind (Some (channel_all_zombies s1 chptr)) (\<lambda>zombies.
                    if zombies then remove_user_from_channel who chptr s1 else returning s1)))"

end
