(* ===== verification/Chan_Text.thy ===== *)
theory Chan_Text
  imports Channel
begin

text \<open>
  Text handling of \<open>ircd/channel.c\<close>: key rings, the canonical form of ban masks, channel names and
  colour codes.

  Strings that the code cuts in place are returned as the cut string; the pointers into the mask
  of \<open>pretty_mask\<close> are the parts they delimit.
\<close>

section \<open>Key rings\<close>

text \<open>The common prefix of the key and the ring is stepped over.\<close>

fun step_through :: "string \<Rightarrow> string \<Rightarrow> string \<times> string" where
  "step_through (k # p1) (r # keyring) = (if k = r then step_through p1 keyring else (k # p1, r # keyring))"
| "step_through p1 keyring = (p1, keyring)"

fun next_key :: "string \<Rightarrow> string" where
  "next_key [] = []"
| "next_key (r # keyring) = (if r = CHR '','' then keyring else next_key keyring)"

lemma length_step_through: "length (snd (step_through p r)) \<le> length r"
  by (induction p r rule: step_through.induct) auto

lemma length_next_key: "r \<noteq> [] \<Longrightarrow> length (next_key r) < length r"
proof (induction r)
  case (Cons c r)
  then show ?case by (cases "r = []") auto
qed simp

lemma length_step_through_eq: "(p1, r) = step_through p s \<Longrightarrow> length r \<le> length s"
  using length_step_through [of p s] by (metis snd_conv)

function compall :: "string \<Rightarrow> string \<Rightarrow> int" where
  "compall key keyring =
     (case step_through key keyring of (p1, r) \<Rightarrow>
        if p1 = [] \<and> (r = [] \<or> hd r = CHR '','') then 0
        else if r = [] then 1
        else compall key (next_key r))"
  by pat_completeness auto
termination
  by (relation "measure (\<lambda>(key, keyring). length keyring)")
    (auto intro!: less_le_trans [OF length_next_key] simp: length_step_through_eq)

declare compall.simps [simp del]

text \<open>The keys on a ring are the fields between its commas.\<close>

fun ring_keys :: "string \<Rightarrow> string list" where
  "ring_keys [] = [[]]"
| "ring_keys (c # s) = (if c = CHR '','' then [] # ring_keys s else (case ring_keys s of k # ks \<Rightarrow> (c # k) # ks | [] \<Rightarrow> [[c]]))"

lemma ring_keys_ne: "ring_keys s \<noteq> []"
  by (induction s) (auto split: list.splits)

lemma ring_keys_split:
  "ring_keys s = takeWhile (\<lambda>c. c \<noteq> CHR '','') s # (case dropWhile (\<lambda>c. c \<noteq> CHR '','') s of [] \<Rightarrow> [] | _ # t \<Rightarrow> ring_keys t)"
  by (induction s) (auto split: list.splits)

lemma next_key_dropWhile: "next_key s = (case dropWhile (\<lambda>c. c \<noteq> CHR '','') s of [] \<Rightarrow> [] | _ # t \<Rightarrow> t)"
  by (induction s) auto

lemma takeWhile_empty: "[] = takeWhile P r \<longleftrightarrow> r = [] \<or> \<not> P (hd r)"
  by (cases r) auto

text \<open>Where stepping stops, seen from the first field of the ring.\<close>

lemma step_through_field:
  assumes "CHR '','' \<notin> set key" "step_through key ring = (p1, r)"
  shows "dropWhile (\<lambda>c. c \<noteq> CHR '','') r = dropWhile (\<lambda>c. c \<noteq> CHR '','') ring
    \<and> (p1 = [] \<and> (r = [] \<or> hd r = CHR '','') \<longleftrightarrow> key = takeWhile (\<lambda>c. c \<noteq> CHR '','') ring)"
  using assms
proof (induction key ring rule: step_through.induct)
  case (1 k p1 r keyring)
  then show ?case by (auto split: if_splits)
qed (auto simp: takeWhile_empty)

lemma compall_ring: "key \<noteq> [] \<Longrightarrow> CHR '','' \<notin> set key \<Longrightarrow> compall key ring = (if key \<in> set (ring_keys ring) then 0 else 1)"
proof (induction key ring rule: compall.induct)
  case (1 key ring)
  obtain p1 r where st: "step_through key ring = (p1, r)" by fastforce
  note f = step_through_field [OF 1(3) st]
  show ?case
  proof (cases "p1 = [] \<and> (r = [] \<or> hd r = CHR '','')")
    case True
    then show ?thesis using f st by (subst compall.simps, subst ring_keys_split) simp
  next
    case no: False
    then have ne: "key \<noteq> takeWhile (\<lambda>c. c \<noteq> CHR '','') ring" using f by blast
    show ?thesis
    proof (cases "dropWhile (\<lambda>c. c \<noteq> CHR '','') ring")
      case Nil
      then have k: "key \<notin> set (ring_keys ring)" using ne ring_keys_split [of ring] unfolding Nil by simp
      have "dropWhile (\<lambda>c. c \<noteq> CHR '','') r = []" using Nil f by simp
      then have "next_key r = []" unfolding next_key_dropWhile by (simp only: list.case)
      moreover have "compall key [] = 1" using 1(2) by (subst compall.simps) (cases key; simp)
      ultimately have "compall key ring = 1" using no st by (subst compall.simps) simp
      then show ?thesis using k by simp
    next
      case (Cons d t)
      then have "r \<noteq> []" "next_key r = t" using f by (auto simp: next_key_dropWhile)
      then have "compall key ring = compall key t" using no st by (subst compall.simps) auto
      moreover have "compall key t = (if key \<in> set (ring_keys t) then 0 else 1)"
        using 1(1) [OF st [symmetric] no] 1(2,3) \<open>r \<noteq> []\<close> \<open>next_key r = t\<close> by simp
      moreover have "key \<in> set (ring_keys ring) \<longleftrightarrow> key \<in> set (ring_keys t)" using ne ring_keys_split [of ring] unfolding Cons by simp
      ultimately show ?thesis by simp
    qed
  qed
qed

section \<open>Ban masks\<close>

definition USERLEN :: nat where "USERLEN = 10"
definition HOSTLEN :: nat where "HOSTLEN = 75"
definition NUH_BUFSIZE :: nat where "NUH_BUFSIZE = NICKLEN + USERLEN + HOSTLEN + 3"

definition make_nick_user_host :: "string \<Rightarrow> string \<Rightarrow> string \<Rightarrow> string" where
  "make_nick_user_host nick name host = take (NUH_BUFSIZE - 1) (nick @ ''!'' @ name @ ''@'' @ host)"

text \<open>The parts before and after the last at sign, if there is one.\<close>

definition last_at :: "string \<Rightarrow> (string \<times> string) option" where
  "last_at s = (if CHR ''@'' \<in> set s
     then Some (rev (tl (dropWhile (\<lambda>c. c \<noteq> CHR ''@'') (rev s))), rev (takeWhile (\<lambda>c. c \<noteq> CHR ''@'') (rev s)))
     else None)"

text \<open>The single pass over the mask: the first of \<open>!\<close> and \<open>@\<close> decides.\<close>

definition mask_parts :: "string \<Rightarrow> string option \<times> string option \<times> string option" where
  "mask_parts msk =
     (let before = takeWhile (\<lambda>c. c \<noteq> CHR ''!'' \<and> c \<noteq> CHR ''@'') msk
      in case drop (length before) msk of
           [] \<Rightarrow> if CHR ''.'' \<in> set msk then (None, None, Some msk) else (Some msk, None, None)
         | c # rest \<Rightarrow>
             if c = CHR ''!''
             then (case last_at rest of Some (user, host) \<Rightarrow> (Some before, Some user, Some host) | None \<Rightarrow> (Some before, Some rest, None))
             else (case last_at msk of Some (user, host) \<Rightarrow> (None, Some user, Some host) | None \<Rightarrow> (None, Some msk, None)))"

text \<open>A nick that is too long loses its end, a user or host name its beginning.\<close>

definition cut_front :: "nat \<Rightarrow> string \<Rightarrow> string" where
  "cut_front n s = (if n < length s then CHR ''*'' # drop (length s - n + 1) s else s)"

definition pretty_mask :: "string \<Rightarrow> string" where
  "pretty_mask msk =
     (case mask_parts msk of (nick, user, host) \<Rightarrow>
        make_nick_user_host
          (case nick of None \<Rightarrow> ''*'' | Some s \<Rightarrow> take NICKLEN s)
          (case user of None \<Rightarrow> ''*'' | Some s \<Rightarrow> cut_front USERLEN s)
          (case host of None \<Rightarrow> ''*'' | Some s \<Rightarrow> cut_front HOSTLEN s))"

lemmas len_defs = NICKLEN_def USERLEN_def HOSTLEN_def NUH_BUFSIZE_def

lemma length_cut_front: "0 < n \<Longrightarrow> length (cut_front n s) \<le> n"
  by (simp add: cut_front_def)

lemma cut_front_id: "length s \<le> n \<Longrightarrow> cut_front n s = s"
  by (simp add: cut_front_def)

lemma set_cut_front: "set (cut_front n s) \<subseteq> insert (CHR ''*'') (set s)"
  by (auto simp: cut_front_def dest: in_set_dropD)

lemma last_at_split:
  assumes "CHR ''@'' \<notin> set h"
  shows "last_at (u @ CHR ''@'' # h) = Some (u, h)"
proof -
  have h: "\<And>x. x \<in> set (rev h) \<Longrightarrow> x \<noteq> CHR ''@''" using assms by auto
  show ?thesis
    using takeWhile_append2 [of "rev h" "\<lambda>c. c \<noteq> CHR ''@''" "CHR ''@'' # rev u", OF h]
      dropWhile_append2 [of "rev h" "\<lambda>c. c \<noteq> CHR ''@''" "CHR ''@'' # rev u", OF h]
    by (simp add: last_at_def)
qed

lemma last_at_Some:
  assumes "last_at s = Some (u, h)"
  shows "s = u @ CHR ''@'' # h \<and> CHR ''@'' \<notin> set h"
proof -
  have m: "CHR ''@'' \<in> set s" using assms by (auto simp: last_at_def split: if_splits)
  obtain u' h' where s: "s = u' @ CHR ''@'' # h'" "CHR ''@'' \<notin> set h'"
    using split_list_last [OF m] by blast
  then show ?thesis using assms last_at_split [OF s(2)] by simp
qed

lemma last_at_None: "last_at s = None \<longleftrightarrow> CHR ''@'' \<notin> set s"
  by (simp add: last_at_def)

text \<open>The canonical form: a short nick without separators, a short user, a short host without \<open>@\<close>.\<close>

definition pretty :: "string \<Rightarrow> string \<Rightarrow> string \<Rightarrow> bool" where
  "pretty n u h \<longleftrightarrow> CHR ''!'' \<notin> set n \<and> CHR ''@'' \<notin> set n \<and> CHR ''@'' \<notin> set h
     \<and> length n \<le> NICKLEN \<and> length u \<le> USERLEN \<and> length h \<le> HOSTLEN"

lemma nuh_fits: "pretty n u h \<Longrightarrow> make_nick_user_host n u h = n @ ''!'' @ u @ ''@'' @ h"
  by (auto simp: make_nick_user_host_def pretty_def len_defs)

lemma take_no: "c \<notin> set s \<Longrightarrow> c \<notin> set (take n s)"
  by (auto dest: in_set_takeD)

lemma cut_no: "c \<notin> set s \<Longrightarrow> c \<noteq> CHR ''*'' \<Longrightarrow> c \<notin> set (cut_front n s)"
  using set_cut_front [of n s] by auto

definition parts_ok :: "string option \<times> string option \<times> string option \<Rightarrow> bool" where
  "parts_ok p = (case p of (nick, user, host) \<Rightarrow>
     (\<forall>n. nick = Some n \<longrightarrow> CHR ''!'' \<notin> set n \<and> CHR ''@'' \<notin> set n) \<and> (\<forall>h. host = Some h \<longrightarrow> CHR ''@'' \<notin> set h))"

lemma mask_parts_ok: "parts_ok (mask_parts msk)"
proof -
  let ?P = "\<lambda>c. c \<noteq> CHR ''!'' \<and> c \<noteq> CHR ''@''"
  have b: "CHR ''!'' \<notin> set (takeWhile ?P msk)" "CHR ''@'' \<notin> set (takeWhile ?P msk)" by (auto dest: set_takeWhileD)
  show ?thesis
  proof (cases "drop (length (takeWhile ?P msk)) msk")
    case Nil
    then have "takeWhile ?P msk = msk" by (intro takeWhile_full) simp
    then have "CHR ''!'' \<notin> set msk \<and> CHR ''@'' \<notin> set msk" using b by metis
    then show ?thesis using Nil by (simp add: mask_parts_def Let_def parts_ok_def)
  next
    case (Cons c rest)
    then show ?thesis
      using b last_at_Some [of rest] last_at_Some [of msk] by (auto simp: mask_parts_def Let_def parts_ok_def split: option.splits)
  qed
qed

lemma pretty_mask_form: "\<exists>n u h. pretty n u h \<and> pretty_mask msk = n @ ''!'' @ u @ ''@'' @ h"
proof -
  obtain nick user host where p: "mask_parts msk = (nick, user, host)" by (cases "mask_parts msk")
  let ?n = "case nick of None \<Rightarrow> ''*'' | Some s \<Rightarrow> take NICKLEN s"
  let ?u = "case user of None \<Rightarrow> ''*'' | Some s \<Rightarrow> cut_front USERLEN s"
  let ?h = "case host of None \<Rightarrow> ''*'' | Some s \<Rightarrow> cut_front HOSTLEN s"
  have ok: "parts_ok (nick, user, host)" using mask_parts_ok [of msk] p by simp
  have "length ?u \<le> USERLEN" "length ?h \<le> HOSTLEN"
    using length_cut_front [of USERLEN] length_cut_front [of HOSTLEN] by (auto simp: len_defs split: option.splits)
  moreover have "length ?n \<le> NICKLEN" by (auto simp: NICKLEN_def split: option.splits)
  moreover have "CHR ''!'' \<notin> set ?n" "CHR ''@'' \<notin> set ?n" "CHR ''@'' \<notin> set ?h"
    using ok by (auto simp: parts_ok_def take_no cut_no split: option.splits)
  ultimately have q: "pretty ?n ?u ?h" by (simp add: pretty_def)
  then show ?thesis using nuh_fits [OF q] p by (auto simp: pretty_mask_def)
qed

lemma pretty_mask_fixed:
  assumes "pretty n u h"
  shows "pretty_mask (n @ ''!'' @ u @ ''@'' @ h) = n @ ''!'' @ u @ ''@'' @ h"
proof -
  let ?P = "\<lambda>c. c \<noteq> CHR ''!'' \<and> c \<noteq> CHR ''@''"
  have n: "\<And>x. x \<in> set n \<Longrightarrow> ?P x" using assms by (auto simp: pretty_def)
  have "takeWhile ?P (n @ ''!'' @ u @ ''@'' @ h) = n"
    using takeWhile_append2 [of n ?P "''!'' @ u @ ''@'' @ h", OF n] by simp
  moreover have "last_at (u @ CHR ''@'' # h) = Some (u, h)" using assms by (intro last_at_split) (simp add: pretty_def)
  ultimately have "mask_parts (n @ ''!'' @ u @ ''@'' @ h) = (Some n, Some u, Some h)"
    by (simp add: mask_parts_def Let_def)
  then show ?thesis using assms nuh_fits [OF assms] by (simp add: pretty_mask_def pretty_def cut_front_id)
qed

section \<open>Channel names\<close>

definition clean_char :: "char \<Rightarrow> char" where
  "clean_char c = (if IsChannelLower c then (if ord (ToLower c) = 0xd0 then char_of (0xf0 :: nat) else ToLower c) else c)"

definition name_limit :: "chfeat \<Rightarrow> nat" where
  "name_limit feat = nat (min (int CHANNELLEN) (feat_CHANNELLEN feat))"

fun clean_from :: "nat \<Rightarrow> string \<Rightarrow> string" where
  "clean_from n [] = []"
| "clean_from n (c # cn) = (if n = 0 \<or> \<not> IsChannelChar c then [] else clean_char c # clean_from (n - 1) cn)"

definition clean_channelname :: "chfeat \<Rightarrow> string \<Rightarrow> string" where
  "clean_channelname feat cn = clean_from (name_limit feat) cn"

lemma IsChannelLower_iff: "IsChannelLower c \<longleftrightarrow> 0xc0 \<le> ord c \<and> ord c \<le> 0xd6 \<or> 0xd8 \<le> ord c \<and> ord c \<le> 0xde"
  by (auto simp: IsChannelLower_def class_simps)

lemma clean_char_lower: "clean_char c = (if IsChannelLower c then ToLower c else c)"
  by (auto simp: clean_char_def IsChannelLower_iff ord_ToLower)

lemma clean_char_props:
  "ToLower (clean_char c) = ToLower c" "clean_char (clean_char c) = clean_char c" "IsChannelChar (clean_char c) \<longleftrightarrow> IsChannelChar c"
  by (auto simp: clean_char_lower IsChannelLower_iff IsChannelChar_iff ord_ToLower)

lemma clean_from_props:
  "clean_from n (clean_from n s) = clean_from n s" "length (clean_from n s) \<le> n" "\<forall>c \<in> set (clean_from n s). IsChannelChar c"
  "\<exists>k. lower (clean_from n s) = take k (lower s)"
proof -
  show "clean_from n (clean_from n s) = clean_from n s" "length (clean_from n s) \<le> n"
    by (induction n s rule: clean_from.induct) (auto simp: clean_char_props)
  show "\<forall>c \<in> set (clean_from n s). IsChannelChar c"
    by (induction n s rule: clean_from.induct) (auto simp: clean_char_props)
  show "\<exists>k. lower (clean_from n s) = take k (lower s)"
  proof (induction n s rule: clean_from.induct)
    case (2 n c cn)
    show ?case
    proof (cases "n = 0 \<or> \<not> IsChannelChar c")
      case True
      then show ?thesis by (intro exI [of _ 0]) auto
    next
      case False
      then obtain k where "lower (clean_from (n - 1) cn) = take k (lower cn)" using 2 by blast
      then show ?thesis using False by (intro exI [of _ "Suc k"]) (simp add: clean_char_props)
    qed
  qed simp
qed

lemma clean_from_id: "length s \<le> n \<Longrightarrow> \<forall>c \<in> set s. IsChannelChar c \<and> \<not> IsChannelLower c \<Longrightarrow> clean_from n s = s"
  by (induction n s rule: clean_from.induct) (auto simp: clean_char_lower)

section \<open>Colour codes\<close>

definition COLOUR_BOLD :: char where "COLOUR_BOLD = CHR 0x02"
definition COLOUR_COLOUR :: char where "COLOUR_COLOUR = CHR 0x03"
definition COLOUR_NORMAL :: char where "COLOUR_NORMAL = CHR 0x0F"
definition COLOUR_REVERSE :: char where "COLOUR_REVERSE = CHR 0x16"
definition COLOUR_UNDERLINE :: char where "COLOUR_UNDERLINE = CHR 0x1F"

lemmas colour_defs = COLOUR_BOLD_def COLOUR_COLOUR_def COLOUR_NORMAL_def COLOUR_REVERSE_def COLOUR_UNDERLINE_def

definition HasCntrl :: "string \<Rightarrow> bool" where
  "HasCntrl t = (0 < length (filter IsCntrl t))"

definition colour_code :: "char \<Rightarrow> bool" where
  "colour_code c \<longleftrightarrow> c \<in> {COLOUR_BOLD, COLOUR_REVERSE, COLOUR_UNDERLINE, COLOUR_NORMAL, COLOUR_COLOUR}"

text \<open>The bytes that have one of the upper three bits set are skipped first.\<close>

fun HasColour :: "string \<Rightarrow> bool" where
  "HasColour [] = False"
| "HasColour (c # t) = (if 32 \<le> ord c then HasColour t else if colour_code c then True else HasColour t)"

text \<open>What follows a colour code: one or two digits, then a comma with one or two more.\<close>

definition skip_digit :: "string \<Rightarrow> string" where
  "skip_digit t = (case t of d # t' \<Rightarrow> if IsDigit d then t' else t | [] \<Rightarrow> [])"

definition colour_args :: "string \<Rightarrow> string" where
  "colour_args t =
     (case t of [] \<Rightarrow> []
      | d # t1 \<Rightarrow>
          if \<not> IsDigit d then t
          else (let t2 = skip_digit t1
                in case t2 of
                     p # q # t3 \<Rightarrow> if p = CHR '','' \<and> IsDigit q then skip_digit t3 else t2
                   | _ \<Rightarrow> t2))"

lemma length_skip_digit: "length (skip_digit t) \<le> length t"
  by (auto simp: skip_digit_def split: list.splits)

lemma length_colour_args: "length (colour_args t) \<le> length t"
proof (cases t)
  case (Cons d t1)
  have *: "length (case t2 of p # q # t3 \<Rightarrow> if p = CHR '','' \<and> IsDigit q then skip_digit t3 else t2 | _ \<Rightarrow> t2) \<le> length t2" for t2
    using length_skip_digit by (auto split: list.splits intro: le_SucI)
  show ?thesis using Cons le_trans [OF * length_skip_digit, of t1] by (simp add: colour_args_def Let_def)
qed (simp add: colour_args_def)

lemma set_skip_digit: "set (skip_digit t) \<subseteq> set t"
  by (auto simp: skip_digit_def split: list.splits if_splits)

lemma set_colour_args: "set (colour_args t) \<subseteq> set t"
proof (cases t)
  case (Cons d t1)
  have *: "set (case t2 of p # q # t3 \<Rightarrow> if p = CHR '','' \<and> IsDigit q then skip_digit t3 else t2 | _ \<Rightarrow> t2) \<subseteq> set t2" for t2
    using set_skip_digit by (auto split: list.splits)
  show ?thesis using Cons subset_trans [OF * set_skip_digit, of t1] by (auto simp: colour_args_def Let_def)
qed (simp add: colour_args_def)

function StripColour :: "string \<Rightarrow> string" where
  "StripColour t =
     (case t of [] \<Rightarrow> []
      | c # r \<Rightarrow>
          if c \<in> {COLOUR_BOLD, COLOUR_REVERSE, COLOUR_UNDERLINE, COLOUR_NORMAL} then StripColour r
          else if c = COLOUR_COLOUR then StripColour (colour_args r)
          else c # StripColour r)"
  by pat_completeness auto
termination
  by (relation "measure length") (auto simp: less_Suc_eq_le length_colour_args)

declare StripColour.simps [simp del]

lemma HasColour_iff: "HasColour t \<longleftrightarrow> (\<exists>c \<in> set t. colour_code c)"
  by (induction t) (auto simp: colour_code_def colour_defs)

lemma StripColour_props: "(\<forall>c \<in> set (StripColour t). \<not> colour_code c) \<and> length (StripColour t) \<le> length t \<and> set (StripColour t) \<subseteq> set t"
proof (induction t rule: StripColour.induct)
  case (1 t)
  show ?case
  proof (cases t)
    case Nil
    then show ?thesis by (simp add: StripColour.simps)
  next
    case (Cons c r)
    have s: "set (colour_args r) \<subseteq> set r" "length (colour_args r) \<le> length r" by (rule set_colour_args, rule length_colour_args)
    have "StripColour t = (if c \<in> {COLOUR_BOLD, COLOUR_REVERSE, COLOUR_UNDERLINE, COLOUR_NORMAL} then StripColour r
          else if c = COLOUR_COLOUR then StripColour (colour_args r) else c # StripColour r)"
      using Cons by (subst StripColour.simps) simp
    then consider "c \<in> {COLOUR_BOLD, COLOUR_REVERSE, COLOUR_UNDERLINE, COLOUR_NORMAL}" "StripColour t = StripColour r"
      | "c \<notin> {COLOUR_BOLD, COLOUR_REVERSE, COLOUR_UNDERLINE, COLOUR_NORMAL}" "c = COLOUR_COLOUR" "StripColour t = StripColour (colour_args r)"
      | "c \<notin> {COLOUR_BOLD, COLOUR_REVERSE, COLOUR_UNDERLINE, COLOUR_NORMAL}" "c \<noteq> COLOUR_COLOUR" "StripColour t = c # StripColour r"
      by (auto split: if_splits)
    then show ?thesis
    proof cases
      case a: 1
      show ?thesis unfolding a(2) using 1(1) [OF Cons a(1)] Cons by auto
    next
      case a: 2
      show ?thesis unfolding a(3) using 1(2) [OF Cons a(1,2)] Cons s by auto
    next
      case a: 3
      have "\<not> colour_code c" using a(1,2) by (simp add: colour_code_def)
      then show ?thesis unfolding a(3) using 1(3) [OF Cons a(1,2)] Cons by auto
    qed
  qed
qed

lemma StripColour_plain: "\<forall>c \<in> set t. \<not> colour_code c \<Longrightarrow> StripColour t = t"
  by (induction t) (auto simp: StripColour.simps colour_code_def)

section \<open>Theorems\<close>

text \<open>
  A key opens a channel exactly when it is one of the comma separated keys of the ring; the search
  of \<open>compall\<close> always ends.
\<close>

theorem compall_correct:
  assumes "key \<noteq> []" "CHR '','' \<notin> set key"
  shows "compall key ring = (if key \<in> set (ring_keys ring) then 0 else 1)"
  by (rule compall_ring [OF assms])

theorem compall_correct_witness:
  "compall ''sesame'' ''open,sesame,x'' = 0 \<and> compall ''sesame'' ''open,sesam,sesamee'' = 1"
  using compall_correct [of "''sesame''"] by simp

text \<open>
  C20: The canonical form of a ban mask is nick, user and host within their maximal lengths, so that
  it fits its buffer, the separators can be told apart, and canonifying again changes nothing.
\<close>

theorem pretty_mask_canonical:
  "(\<exists>n u h. pretty n u h \<and> pretty_mask msk = n @ ''!'' @ u @ ''@'' @ h) \<and> length (pretty_mask msk) < NUH_BUFSIZE
    \<and> pretty_mask (pretty_mask msk) = pretty_mask msk"
proof -
  obtain n u h where p: "pretty n u h" "pretty_mask msk = n @ ''!'' @ u @ ''@'' @ h" using pretty_mask_form by blast
  then have "length (pretty_mask msk) < NUH_BUFSIZE" by (simp add: pretty_def len_defs)
  then show ?thesis using p pretty_mask_fixed [OF p(1)] by metis
qed

text \<open>The documented examples.\<close>

lemma pretty_mask_examples:
  "pretty_mask ''nick'' = ''nick!*@*''" "pretty_mask ''host.net'' = ''*!*@host.net''" "pretty_mask ''nick!user'' = ''nick!user@*''"
  "pretty_mask ''user@host'' = ''*!user@host''" "pretty_mask ''nick!user@host'' = ''nick!user@host''"
  "pretty_mask ''nick!averylongusername@host'' = ''nick!*gusername@host''"
  by (simp_all add: pretty_mask_def mask_parts_def last_at_def cut_front_def make_nick_user_host_def len_defs Let_def)

text \<open>
  A cleaned channel name is at most as long as allowed, holds only characters of channel names,
  is a prefix of the given name up to case, and cleaning it again changes nothing.
\<close>

theorem clean_channelname_correct:
  "length (clean_channelname feat cn) \<le> name_limit feat \<and> (\<forall>c \<in> set (clean_channelname feat cn). IsChannelChar c)
    \<and> (\<exists>k. lower (clean_channelname feat cn) = take k (lower cn))
    \<and> clean_channelname feat (clean_channelname feat cn) = clean_channelname feat cn"
  using clean_from_props [of "name_limit feat" cn] by (simp add: clean_channelname_def)

text \<open>
  Stripping colours leaves no colour code, never makes a text longer, and leaves a text alone exactly
  when it has none.
\<close>

theorem StripColour_correct:
  "\<not> HasColour (StripColour t) \<and> length (StripColour t) \<le> length t \<and> (StripColour t = t \<longleftrightarrow> \<not> HasColour t)"
  using StripColour_props [of t] StripColour_plain [of t] by (auto simp: HasColour_iff)

end
