(* ===== verification/Mmatch.thy ===== *)
theory Mmatch
  imports Match
begin

text \<open>
  \<open>mmatch\<close> (\<open>ircd/match.c\<close>): is one mask a superset of another? Pointers are indices, as for \<open>match\<close>.
\<close>

section \<open>The function\<close>

text \<open>\<open>(*p == '\') && (p[1] == '*' || p[1] == '?')\<close>\<close>

definition escaped :: "string \<Rightarrow> nat \<Rightarrow> bool" where
  "escaped s i \<longleftrightarrow> rd s i = Some (CHR 0x5C) \<and> rd s (Suc i) \<in> {Some (CHR ''*''), Some (CHR ''?'')}"

definition mmatch_retry :: "string \<Rightarrow> mstate \<Rightarrow> mstate" where
  "mmatch_retry new s =
     (let na = (if escaped new (n_tmp s) then Suc (n_tmp s) else n_tmp s)
      in s\<lparr>st_m := m_tmp s, st_n := Suc na, n_tmp := Suc na\<rparr>)"

definition mmatch_compare :: "string \<Rightarrow> string \<Rightarrow> mstate \<Rightarrow> (int + mstate) res" where
  "mmatch_compare old new s =
     (let mq = escaped old (st_m s); m = (if mq then Suc (st_m s) else st_m s);
          nq = escaped new (st_n s); n = (if nq then Suc (st_n s) else st_n s)
      in res_bind (rdr old m) (\<lambda>c. res_bind (rdr new n) (\<lambda>d.
           if (c = CHR ''*'' \<and> \<not> mq) \<or> ((\<not> mq \<or> nq) \<and> ToLower c = ToLower d)
              \<or> (c = CHR ''?'' \<and> \<not> mq \<and> (d \<noteq> CHR ''*'' \<or> nq))
           then Inr (Inr (s\<lparr>st_m := (if c \<noteq> NUL then Suc m else m), st_n := (if d \<noteq> NUL then Suc n else n)\<rparr>))
           else if \<not> st_wild s then Inr (Inl 1)
           else Inr (Inr (mmatch_retry new s)))))"

definition mmatch_tail :: "string \<Rightarrow> string \<Rightarrow> mstate \<Rightarrow> (int + mstate) res" where
  "mmatch_tail old new s =
     res_bind (rdr old (st_m s)) (\<lambda>c. res_bind (rdr new (st_n s)) (\<lambda>d.
       if c = NUL then
         (if d = NUL then Inr (Inl 0)
          else case back_marks old (st_m s) of
            None \<Rightarrow> Inl OutOfBounds
          | Some m \<Rightarrow>
              if rd old m = Some (CHR ''*'') \<and> 0 < m \<and> rd old (m - 1) \<noteq> Some (CHR 0x5C) then Inr (Inl 0)
              else if \<not> st_wild s then Inr (Inl 1)
              else mmatch_compare old new (mmatch_retry new s))
       else if d = NUL then
         res_bind (rdr old (skip_stars old (st_m s))) (\<lambda>e. Inr (Inl (if e \<noteq> NUL then 1 else 0)))
       else mmatch_compare old new s))"

definition mmatch_round :: "string \<Rightarrow> string \<Rightarrow> mstate \<Rightarrow> (int + mstate) res" where
  "mmatch_round old new s =
     res_bind (rdr old (st_m s)) (\<lambda>c.
       mmatch_tail old new
         (if c = CHR ''*''
          then s\<lparr>st_m := skip_stars old (st_m s), m_tmp := skip_stars old (st_m s), n_tmp := st_n s, st_wild := True\<rparr>
          else s))"

partial_function (option) mmatch_loop :: "string \<Rightarrow> string \<Rightarrow> mstate \<Rightarrow> int run" where
  "mmatch_loop old new s =
     (case mmatch_round old new s of
        Inl e \<Rightarrow> Some (Inl e)
      | Inr (Inl r) \<Rightarrow> Some (Inr r)
      | Inr (Inr s') \<Rightarrow> mmatch_loop old new s')"

definition mmatch :: "string \<Rightarrow> string \<Rightarrow> int run" where
  "mmatch old new = mmatch_loop old new \<lparr>st_m = 0, st_n = 0, m_tmp = 0, n_tmp = 0, st_wild = False\<rparr>"

section \<open>Supersets\<close>

definition cover :: "string \<Rightarrow> string \<Rightarrow> bool" where
  "cover old new \<longleftrightarrow> (\<forall>s. glob new s \<longrightarrow> glob old s)"

lemma ToLower_marks: "ToLower c = CHR ''*'' \<longleftrightarrow> c = CHR ''*''" "ToLower c = CHR ''?'' \<longleftrightarrow> c = CHR ''?''"
  "ToLower (CHR ''*'') = CHR ''*''" "ToLower (CHR ''?'') = CHR ''?''"
  by (simp_all flip: ord_inject add: ord_ToLower)

lemma cover_Cons:
  assumes "c \<noteq> CHR ''*''" "d \<noteq> CHR ''*''" "c = CHR ''?'' \<or> ToLower c = ToLower d" "cover M N"
  shows "cover (c # M) (d # N)"
  unfolding cover_def
proof (intro allI impI)
  fix s assume "glob (d # N) s"
  then obtain x t where s: "s = x # t" "d = CHR ''?'' \<or> ToLower d = ToLower x" "glob N t"
    using assms(2) by (cases s) auto
  then show "glob (c # M) s" using assms by (auto simp: cover_def ToLower_marks)
qed

lemma cover_star: "cover M N \<Longrightarrow> cover (CHR ''*'' # M) N"
  by (auto simp: cover_def glob_star intro: exI [of _ 0])

lemma cover_star_step:
  assumes "cover (CHR ''*'' # M) N"
  shows "cover (CHR ''*'' # M) (d # N)"
  unfolding cover_def
proof (intro allI impI)
  fix s assume g: "glob (d # N) s"
  have "\<exists>k. glob N (drop k s)"
  proof (cases "d = CHR ''*''")
    case True
    then show ?thesis using g by (auto simp: glob_star)
  next
    case False
    then show ?thesis using g by (cases s) (auto intro: exI [of _ 1])
  qed
  then obtain k where "glob (CHR ''*'' # M) (drop k s)" using assms by (auto simp: cover_def)
  then show "glob (CHR ''*'' # M) s" by (rule glob_star_drop)
qed

text \<open>The stretch of the masks that has been compared position by position.\<close>

definition mseg :: "string \<Rightarrow> string \<Rightarrow> nat \<Rightarrow> nat \<Rightarrow> nat \<Rightarrow> bool" where
  "mseg M N a b k \<longleftrightarrow> a + k \<le> length M \<and> b + k \<le> length N \<and>
     (\<forall>i < k. M ! (a + i) \<noteq> CHR ''*'' \<and> N ! (b + i) \<noteq> CHR ''*''
        \<and> (M ! (a + i) = CHR ''?'' \<or> ToLower (M ! (a + i)) = ToLower (N ! (b + i))))"

lemma mseg_cover: "mseg M N a b k \<Longrightarrow> cover (drop (a + k) M) (drop (b + k) N) \<Longrightarrow> cover (drop a M) (drop b N)"
proof (induction k)
  case (Suc k)
  then have s: "mseg M N a b k" and k: "a + k < length M" "b + k < length N"
    "M ! (a + k) \<noteq> CHR ''*''" "N ! (b + k) \<noteq> CHR ''*''" "M ! (a + k) = CHR ''?'' \<or> ToLower (M ! (a + k)) = ToLower (N ! (b + k))"
    by (auto simp: mseg_def)
  have "cover (M ! (a + k) # drop (Suc (a + k)) M) (N ! (b + k) # drop (Suc (b + k)) N)"
    using k Suc.prems(2) by (intro cover_Cons) auto
  then have "cover (drop (a + k) M) (drop (b + k) N)" using k by (simp add: Cons_nth_drop_Suc)
  then show ?case by (rule Suc.IH [OF s])
qed simp

text \<open>A mask \<open>*???\<close> covers every mask with that many characters in front.\<close>

lemma cover_star_marks:
  assumes "\<forall>c \<in> set R. c = CHR ''?''" "length R \<le> length N" "\<forall>i < length R. N ! i \<noteq> CHR ''*''"
  shows "cover (CHR ''*'' # R) N"
  unfolding cover_def
proof (intro allI impI)
  fix s assume g: "glob N s"
  have "length R \<le> length (filter (\<lambda>c. c \<noteq> CHR ''*'') N)"
  proof -
    have "filter (\<lambda>c. c \<noteq> CHR ''*'') (take (length R) N) = take (length R) N"
      using assms(2,3) by (auto simp: filter_id_conv in_set_conv_nth)
    then have "length R = length (filter (\<lambda>c. c \<noteq> CHR ''*'') (take (length R) N))" using assms(2) by simp
    also have "\<dots> \<le> length (filter (\<lambda>c. c \<noteq> CHR ''*'') (take (length R) N @ drop (length R) N))"
      by (simp only: filter_append length_append le_add1)
    finally show ?thesis by simp
  qed
  then have "length R \<le> length s" using glob_length [OF g] by simp
  then have "length (drop (length s - length R) s) = length R" by simp
  then have "glob R (drop (length s - length R) s)" using glob_marks [OF assms(1)] by simp
  then show "glob (CHR ''*'' # R) s" by (auto simp: glob_star intro!: exI [of _ "length s - length R"])
qed

section \<open>The loop\<close>

definition mm_inv :: "string \<Rightarrow> string \<Rightarrow> mstate \<Rightarrow> bool" where
  "mm_inv M N s \<longleftrightarrow>
     m_tmp s \<le> st_m s \<and> st_n s = n_tmp s + (st_m s - m_tmp s)
     \<and> mseg M N (m_tmp s) (n_tmp s) (st_m s - m_tmp s)
     \<and> (if st_wild s then
          0 < m_tmp s \<and> M ! (m_tmp s - 1) = CHR ''*'' \<and> (m_tmp s < length M \<longrightarrow> M ! m_tmp s \<noteq> CHR ''*'')
          \<and> (cover (CHR ''*'' # drop (m_tmp s) M) (drop (n_tmp s) N) \<longrightarrow> cover M N)
        else m_tmp s = 0 \<and> n_tmp s = 0)"

definition mm_good :: "string \<Rightarrow> string \<Rightarrow> mstate \<Rightarrow> (int + mstate) res \<Rightarrow> bool" where
  "mm_good M N s x \<longleftrightarrow>
     (case x of Inl _ \<Rightarrow> False
      | Inr (Inl r) \<Rightarrow> r = 1 \<or> r = 0 \<and> cover M N
      | Inr (Inr s') \<Rightarrow> mm_inv M N s' \<and> (s', s) \<in> match_order M N)"

lemma mm_inv_bounds: "mm_inv M N s \<Longrightarrow> st_m s \<le> length M \<and> st_n s \<le> length N"
  by (auto simp: mm_inv_def mseg_def)

lemma mm_inv_cover:
  assumes "mm_inv M N s" "cover (drop (st_m s) M) (drop (st_n s) N)"
  shows "cover M N"
proof -
  have "cover (drop (m_tmp s) M) (drop (n_tmp s) N)"
    using mseg_cover [of M N "m_tmp s" "n_tmp s" "st_m s - m_tmp s"] assms by (simp add: mm_inv_def)
  then show ?thesis using assms(1) cover_star by (auto simp: mm_inv_def split: if_splits)
qed

lemma escaped_no: "\<forall>c \<in> set s. c \<noteq> CHR 0x5C \<Longrightarrow> \<not> escaped s i"
  by (auto simp: escaped_def rd_def split: if_splits)

lemma mm_retry_good:
  assumes inv: "mm_inv M N s" and w: "st_wild s" and n: "n_tmp s < length N" and esc: "\<forall>c \<in> set N. c \<noteq> CHR 0x5C"
  shows "mm_inv M N (mmatch_retry N s)" "(mmatch_retry N s, s) \<in> match_order M N"
proof -
  have r: "mmatch_retry N s = s\<lparr>st_m := m_tmp s, st_n := Suc (n_tmp s), n_tmp := Suc (n_tmp s)\<rparr>"
    using escaped_no [OF esc] by (simp add: mmatch_retry_def Let_def)
  have "cover M N" if "cover (CHR ''*'' # drop (m_tmp s) M) (drop (Suc (n_tmp s)) N)"
    using cover_star_step [OF that, of "N ! n_tmp s"] inv w n by (simp add: mm_inv_def Cons_nth_drop_Suc)
  then show "mm_inv M N (mmatch_retry N s)" using inv w n by (auto simp: r mm_inv_def mseg_def)
  show "(mmatch_retry N s, s) \<in> match_order M N" using n by (auto simp: r match_order_def)
qed

lemma mm_compare_good:
  assumes inv: "mm_inv M N s" and ok: "cstring M" "cstring N"
    and less: "st_m s < length M" "st_n s < length N" and plain: "M ! st_m s \<noteq> CHR ''*''"
    and esc: "\<forall>c \<in> set M. c \<noteq> CHR 0x5C" "\<forall>c \<in> set N. c \<noteq> CHR 0x5C"
  shows "mm_good M N s (mmatch_compare M N s)"
proof -
  let ?c = "M ! st_m s" and ?d = "N ! st_n s"
  have nul: "?c \<noteq> NUL" "?d \<noteq> NUL" using ok less by (simp_all add: cstring_nth)
  have run: "mmatch_compare M N s = (if ToLower ?c = ToLower ?d \<or> ?c = CHR ''?'' \<and> ?d \<noteq> CHR ''*''
      then Inr (Inr (s\<lparr>st_m := Suc (st_m s), st_n := Suc (st_n s)\<rparr>))
      else if \<not> st_wild s then Inr (Inl 1) else Inr (Inr (mmatch_retry N s)))"
    using less plain nul escaped_no [OF esc(1)] escaped_no [OF esc(2)] by (simp add: mmatch_compare_def Let_def cstr_simps)
  show ?thesis
  proof (cases "ToLower ?c = ToLower ?d \<or> ?c = CHR ''?'' \<and> ?d \<noteq> CHR ''*''")
    case True
    have d: "?d \<noteq> CHR ''*''" using True plain by (metis ToLower_marks(1,3))
    let ?k = "st_m s - m_tmp s"
    have i: "m_tmp s \<le> st_m s" "st_n s = n_tmp s + ?k" "mseg M N (m_tmp s) (n_tmp s) ?k" using inv by (simp_all add: mm_inv_def)
    have at: "M ! (m_tmp s + ?k) = ?c" "N ! (n_tmp s + ?k) = ?d" using i by simp_all
    have "mseg M N (m_tmp s) (n_tmp s) (Suc ?k)"
      using i less plain d True at by (auto simp: mseg_def less_Suc_eq)
    then have "mm_inv M N (s\<lparr>st_m := Suc (st_m s), st_n := Suc (st_n s)\<rparr>)"
      using inv i by (auto simp: mm_inv_def Suc_diff_le)
    moreover have "(s\<lparr>st_m := Suc (st_m s), st_n := Suc (st_n s)\<rparr>, s) \<in> match_order M N"
      using less by (simp add: match_order_def)
    ultimately show ?thesis using run True by (simp add: mm_good_def)
  next
    case False
    have "n_tmp s < length N" using inv less by (auto simp: mm_inv_def)
    then show ?thesis using run False mm_retry_good [OF inv _ _ esc(2)] by (simp add: mm_good_def)
  qed
qed

text \<open>After the end of the first mask, with characters of the second left.\<close>

lemma mm_end_good:
  assumes inv: "mm_inv M N s" and ok: "cstring M" "cstring N" "M \<noteq> []"
    and at: "st_m s = length M" "st_n s < length N"
    and esc: "\<forall>c \<in> set M. c \<noteq> CHR 0x5C" "\<forall>c \<in> set N. c \<noteq> CHR 0x5C"
    and w: "st_wild s"
  shows "mm_good M N s (mmatch_compare M N (mmatch_retry N s))"
proof -
  let ?r = "mmatch_retry N s"
  have n: "n_tmp s < length N" using inv at by (auto simp: mm_inv_def)
  note g = mm_retry_good [OF inv w n esc(2)]
  have r: "?r = s\<lparr>st_m := m_tmp s, st_n := Suc (n_tmp s), n_tmp := Suc (n_tmp s)\<rparr>"
    using escaped_no [OF esc(2)] by (simp add: mmatch_retry_def Let_def)
  have wi: "m_tmp s < length M \<longrightarrow> M ! m_tmp s \<noteq> CHR ''*''" "m_tmp s \<le> length M" using inv w at by (simp_all add: mm_inv_def)
  show ?thesis
  proof (cases "m_tmp s < length M")
    case True
    then have "Suc (n_tmp s) < length N" using inv at by (auto simp: mm_inv_def)
    then have "mm_good M N ?r (mmatch_compare M N ?r)"
      using True wi by (intro mm_compare_good [OF g(1) ok(1,2) _ _ _ esc]) (simp_all add: r)
    then show ?thesis using g(2) trans_match_order [of M N] by (auto simp: mm_good_def split: sum.splits dest: transD)
  next
    case False
    then have m: "m_tmp s = length M" using wi by simp
    show ?thesis
    proof (cases "Suc (n_tmp s) < length N")
      case True
      have "N ! Suc (n_tmp s) \<noteq> NUL" using True ok(2) by (simp add: cstring_nth)
      then have "mmatch_compare M N ?r = Inr (Inr (mmatch_retry N ?r))"
        using m True w escaped_no [OF esc(1)] escaped_no [OF esc(2)] by (simp add: mmatch_compare_def r Let_def cstr_simps)
      then show ?thesis using mm_retry_good [OF g(1) _ _ esc(2)] True w g(2) trans_match_order [of M N]
        by (auto simp: mm_good_def r dest: transD)
    next
      case False
      then have e: "Suc (n_tmp s) = length N" using n by simp
      have "mmatch_compare M N ?r = Inr (Inr ?r)"
        using m e escaped_no [OF esc(1)] escaped_no [OF esc(2)] by (simp add: mmatch_compare_def r Let_def cstr_simps)
      then show ?thesis using g by (simp add: mm_good_def)
    qed
  qed
qed

lemma mm_tail_good:
  assumes inv: "mm_inv M N s" and ok: "cstring M" "cstring N" "M \<noteq> []"
    and esc: "\<forall>c \<in> set M. c \<noteq> CHR 0x5C" "\<forall>c \<in> set N. c \<noteq> CHR 0x5C"
    and plain: "st_m s < length M \<longrightarrow> M ! st_m s \<noteq> CHR ''*''"
  shows "mm_good M N s (mmatch_tail M N s)"
proof -
  have b: "st_m s \<le> length M" "st_n s \<le> length N" using mm_inv_bounds [OF inv] by simp_all
  consider "st_m s = length M" "st_n s = length N" | "st_m s = length M" "st_n s < length N"
    | "st_m s < length M" "st_n s = length N" | "st_m s < length M" "st_n s < length N" using b by linarith
  then show ?thesis
  proof cases
    case 1
    then have "cover M N" using mm_inv_cover [OF inv] by (simp add: cover_def)
    then show ?thesis using 1 by (simp add: mmatch_tail_def cstr_simps mm_good_def)
  next
    case 2
    have d: "N ! st_n s \<noteq> NUL" using 2 ok(2) by (simp add: cstring_nth)
    obtain k where k: "back_marks M (length M) = Some k" "k < length M" "\<forall>i. k < i \<and> i < length M \<longrightarrow> M ! i = CHR ''?''"
      using back_marks_Some [of "length M" M] ok(3) by auto
    show ?thesis
    proof (cases "M ! k = CHR ''*'' \<and> 0 < k")
      case True
      have e: "rd M (k - 1) \<noteq> Some (CHR 0x5C)" using k(2) esc(1) True by (auto simp: rd_def)
      have w: "st_wild s \<and> m_tmp s = Suc k"
      proof -
        have *: "\<not> (m_tmp s \<le> k)"
        proof
          assume "m_tmp s \<le> k"
          have "mseg M N (m_tmp s) (n_tmp s) (length M - m_tmp s)" using inv 2(1) by (simp add: mm_inv_def)
          moreover have "k - m_tmp s < length M - m_tmp s" using k(2) \<open>m_tmp s \<le> k\<close> by simp
          ultimately have "M ! (m_tmp s + (k - m_tmp s)) \<noteq> CHR ''*''" unfolding mseg_def by blast
          then show False using True \<open>m_tmp s \<le> k\<close> by simp
        qed
        then have w: "st_wild s" using inv by (auto simp: mm_inv_def split: if_splits)
        have "\<not> Suc k < m_tmp s"
        proof
          assume "Suc k < m_tmp s"
          moreover have "m_tmp s \<le> length M" using inv 2(1) by (simp add: mm_inv_def)
          ultimately have "k < m_tmp s - 1" "m_tmp s - 1 < length M" by linarith+
          then have "M ! (m_tmp s - 1) = CHR ''?''" using k(3) by blast
          then show False using inv w by (simp add: mm_inv_def)
        qed
        then show ?thesis using * w by simp
      qed
      have "mseg M N (Suc k) (n_tmp s) (length M - Suc k)" using inv w 2(1) by (simp add: mm_inv_def)
      then have "cover (CHR ''*'' # drop (Suc k) M) (drop (n_tmp s) N)"
        using k(2,3) by (intro cover_star_marks) (auto simp: mseg_def in_set_conv_nth)
      then have "cover M N" using inv w by (simp add: mm_inv_def)
      then show ?thesis using 2 d k True e by (simp add: mmatch_tail_def cstr_simps mm_good_def)
    next
      case False
      then have no: "\<not> (rd M k = Some (CHR ''*'') \<and> 0 < k)" using k(2) by (simp add: cstr_simps)
      then have run: "mmatch_tail M N s = (if \<not> st_wild s then Inr (Inl 1) else mmatch_compare M N (mmatch_retry N s))"
        using 2 d k(1) by (auto simp: mmatch_tail_def cstr_simps)
      show ?thesis
      proof (cases "st_wild s")
        case True
        then show ?thesis using run mm_end_good [OF inv ok 2 esc] by simp
      next
        case False
        then show ?thesis using run by (simp add: mm_good_def)
      qed
    qed
  next
    case 3
    let ?j = "skip_stars M (st_m s)"
    note p = skip_stars_props [OF b(1)]
    have c: "M ! st_m s \<noteq> NUL" using 3 ok(1) by (simp add: cstring_nth)
    show ?thesis
    proof (cases "?j = length M")
      case True
      then have "\<forall>c \<in> set (drop (st_m s) M). c = CHR ''*''" using p(3) by (auto simp: in_set_conv_nth)
      then have "cover (drop (st_m s) M) (drop (st_n s) N)" using 3(2) by (simp add: cover_def glob_Nil_right)
      then have "cover M N" by (rule mm_inv_cover [OF inv])
      then show ?thesis using 3 c True by (simp add: mmatch_tail_def cstr_simps mm_good_def)
    next
      case False
      then have "?j < length M" "M ! ?j \<noteq> NUL" using p(1) ok(1) by (simp_all add: cstring_nth)
      then show ?thesis using 3 c by (simp add: mmatch_tail_def cstr_simps mm_good_def)
    qed
  next
    case 4
    then have "mmatch_tail M N s = mmatch_compare M N s" using ok by (simp add: mmatch_tail_def cstr_simps cstring_nth)
    then show ?thesis using mm_compare_good [OF inv ok(1,2) 4 _ esc] plain 4(1) by simp
  qed
qed

lemma mm_round_good:
  assumes inv: "mm_inv M N s" and ok: "cstring M" "cstring N" "M \<noteq> []"
    and esc: "\<forall>c \<in> set M. c \<noteq> CHR 0x5C" "\<forall>c \<in> set N. c \<noteq> CHR 0x5C"
  shows "mm_good M N s (mmatch_round M N s)"
proof (cases "st_m s < length M \<and> M ! st_m s = CHR ''*''")
  case True
  let ?j = "skip_stars M (st_m s)"
  define s' where "s' = s\<lparr>st_m := ?j, m_tmp := ?j, n_tmp := st_n s, st_wild := True\<rparr>"
  have b: "st_m s \<le> length M" "st_n s \<le> length N" using mm_inv_bounds [OF inv] by simp_all
  note p = skip_stars_props [OF b(1)]
  have j: "st_m s < ?j" using p(2,4) True by (cases "st_m s = ?j") auto
  have "glob (drop (st_m s) M) x = glob (CHR ''*'' # drop ?j M) x" for x
    using glob_drop_stars [OF p(2,1) j p(3)] .
  then have "cover M N" if "cover (CHR ''*'' # drop ?j M) (drop (st_n s) N)"
    using mm_inv_cover [OF inv] that by (simp add: cover_def)
  moreover have "M ! (?j - 1) = CHR ''*''" using p(3) j by auto
  ultimately have i': "mm_inv M N s'" using p j b by (auto simp: s'_def mm_inv_def mseg_def)
  have "m_tmp s < ?j" using inv j by (simp add: mm_inv_def)
  then have o: "(s', s) \<in> match_order M N" using p(1) by (auto simp: s'_def match_order_def)
  have "mm_good M N s' (mmatch_tail M N s')"
    by (rule mm_tail_good [OF i' ok esc]) (use p(4) in \<open>simp add: s'_def\<close>)
  moreover have "mmatch_round M N s = mmatch_tail M N s'" using True by (simp add: mmatch_round_def cstr_simps s'_def)
  ultimately show ?thesis using o trans_match_order [of M N] by (auto simp: mm_good_def split: sum.splits dest: transD)
next
  case False
  then have "mmatch_round M N s = mmatch_tail M N s"
    using mm_inv_bounds [OF inv] by (auto simp: mmatch_round_def rdr_def rd_def)
  then show ?thesis using mm_tail_good [OF inv ok esc] False by auto
qed

lemma mmatch_loop_sound:
  assumes "mm_inv M N s" "cstring M" "cstring N" "M \<noteq> []" "\<forall>c \<in> set M. c \<noteq> CHR 0x5C" "\<forall>c \<in> set N. c \<noteq> CHR 0x5C"
  shows "mmatch_loop M N s = returning 1 \<or> mmatch_loop M N s = returning 0 \<and> cover M N"
  using assms
proof (induction s rule: wf_induct_rule [OF wf_match_order [of M N]])
  case (1 s)
  note good = mm_round_good [OF 1(2-7)]
  show ?case
  proof (cases "mmatch_round M N s")
    case (Inr x)
    then show ?thesis
      using good 1(1) 1(3-7) by (cases x) (auto simp: mm_good_def mmatch_loop.simps [of M N s] returning_def)
  qed (use good in \<open>simp add: mm_good_def\<close>)
qed

lemma mmatch_covers:
  assumes "cstring old" "cstring new" "old \<noteq> []" "\<forall>c \<in> set old. c \<noteq> CHR 0x5C" "\<forall>c \<in> set new. c \<noteq> CHR 0x5C"
  shows "mmatch old new = returning 1 \<or> mmatch old new = returning 0 \<and> cover old new"
proof -
  have "mm_inv old new \<lparr>st_m = 0, st_n = 0, m_tmp = 0, n_tmp = 0, st_wild = False\<rparr>"
    by (simp add: mm_inv_def mseg_def)
  then show ?thesis using mmatch_loop_sound assms unfolding mmatch_def by blast
qed

section \<open>Theorems\<close>

text \<open>
  C16: For masks without escapes \<open>mmatch\<close> ends within bounds, and when it says that one mask is a superset
  of another, then every name the second matches is matched by the first, so that a ban it makes
  redundant may be dropped.
\<close>

theorem mmatch_sound:
  assumes "cstring old" "cstring new" "old \<noteq> []" "\<forall>c \<in> set old. c \<noteq> CHR 0x5C" "\<forall>c \<in> set new. c \<noteq> CHR 0x5C"
  shows "mmatch old new = returning 1 \<or> mmatch old new = returning 0 \<and> (\<forall>name. glob new name \<longrightarrow> glob old name)"
  using mmatch_covers [OF assms] by (simp add: cover_def)

lemmas mmatch_eval =
  mmatch_def mmatch_loop.simps mmatch_round_def mmatch_tail_def mmatch_compare_def mmatch_retry_def escaped_def
  rdr_def rd_def skip_stars_def Let_def chattr_simps returning_def

lemma mmatch_example: "mmatch ''*@*.nl'' ''u*@x.NL'' = returning 0"
  by (simp add: mmatch_eval)

theorem mmatch_sound_witness:
  "glob ''*@*.nl'' ''uv@x.nl''"
proof -
  have "glob ''u*@x.NL'' ''uv@x.nl''" by (simp add: chattr_simps)
  moreover have "\<forall>name. glob ''u*@x.NL'' name \<longrightarrow> glob ''*@*.nl'' name"
    using mmatch_sound [of "''*@*.nl''" "''u*@x.NL''"] mmatch_example by (simp del: glob_simps)
  ultimately show ?thesis by blast
qed

text \<open>
  The converse does not hold: \<open>*?\<close> matches everything \<open>a*\<close> does, but \<open>mmatch\<close> denies it.
\<close>

lemma mmatch_incomplete: "mmatch ''*?'' ''a*'' = returning 1" "glob ''a*'' s \<Longrightarrow> glob ''*?'' s"
proof -
  show "mmatch ''*?'' ''a*'' = returning 1" by (simp add: mmatch_eval)
  assume "glob ''a*'' s"
  then have "1 \<le> length s" by (cases s) auto
  then obtain t x where "s = t @ [x]" by (cases s rule: rev_cases) auto
  then have "glob ''?'' (drop (length s - 1) s)" by simp
  then show "glob ''*?'' s" by (auto simp: glob_star intro!: exI [of _ "length s - 1"])
qed

end
