(* ===== verification/Hostmask.thy ===== *)
theory Hostmask
  imports Chan_Text Mmatch Ircd_String
begin

text \<open>
  The textual identities of a user that channel bans are matched against: \<open>make_nick_user_ip\<close> and
  the masks built at the head of \<open>is_banned\<close>, \<open>is_excepted\<close>, \<open>is_ext_banned\<close> and
  \<open>is_ext_excepted\<close> (\<open>ircd/channel.c\<close>), \<open>make_hidden_hostmask\<close> (\<open>ircd/s_user.c\<close>),
  \<open>decodespace\<close> and \<open>encodespace\<close> (\<open>ircd/s_misc.c\<close>), \<open>check_if_ipmask\<close> (\<open>ircd/support.c\<close>) and
  \<open>NETMASK\<close> (\<open>include/support.h\<close>), with the C library's \<open>atoi\<close> and \<open>inet_addr\<close>.

  Addresses are kept in host byte order: the code holds addresses and masks in network order
  throughout, and both the conjunction and the comparison commute with the change of order.
\<close>

section \<open>Numbers and addresses in text\<close>

text \<open>
  \<open>atoi\<close>: blanks, a sign, digits; \<open>strtol\<close> stops at the bounds of \<open>long\<close> (64 bits) and the
  result is converted to \<open>int\<close>.
\<close>

definition c_isspace :: "char \<Rightarrow> bool" where
  "c_isspace c \<longleftrightarrow> ord c = 32 \<or> 9 \<le> ord c \<and> ord c \<le> 13"

definition c_isdigit :: "char \<Rightarrow> bool" where
  "c_isdigit c \<longleftrightarrow> 48 \<le> ord c \<and> ord c \<le> 57"

definition atoi :: "string \<Rightarrow> int" where
  "atoi str =
     (let t = dropWhile c_isspace str;
          neg = (t \<noteq> [] \<and> hd t = CHR ''-'');
          t' = (if t \<noteq> [] \<and> (hd t = CHR ''-'' \<or> hd t = CHR ''+'') then tl t else t);
          v = int (dec_val (takeWhile c_isdigit t'));
          w = max (- (2 ^ 63)) (min (2 ^ 63 - 1) (if neg then - v else v))
      in (w + 2 ^ 31) mod 2 ^ 32 - 2 ^ 31)"

text \<open>
  \<open>inet_addr\<close>: one to four numbers between dots, each decimal, octal or hexadecimal; the last one
  fills the bytes that are left. Anything else is \<open>INADDR_NONE\<close>.
\<close>

definition hex_val :: "char \<Rightarrow> nat option" where
  "hex_val c = (if c_isdigit c then Some (ord c - 48)
     else if 65 \<le> ord c \<and> ord c \<le> 70 then Some (ord c - 55)
     else if 97 \<le> ord c \<and> ord c \<le> 102 then Some (ord c - 87) else None)"

definition digit_in :: "nat \<Rightarrow> char \<Rightarrow> bool" where
  "digit_in base c = (case hex_val c of None \<Rightarrow> False | Some v \<Rightarrow> v < base)"

definition base_val :: "nat \<Rightarrow> string \<Rightarrow> nat" where
  "base_val base s = foldl (\<lambda>n c. base * n + (case hex_val c of None \<Rightarrow> 0 | Some v \<Rightarrow> v)) 0 s"

definition scan_base :: "nat \<Rightarrow> string \<Rightarrow> nat \<times> string" where
  "scan_base base s = (base_val base (takeWhile (digit_in base) s), dropWhile (digit_in base) s)"

definition c_number :: "string \<Rightarrow> (nat \<times> string) option" where
  "c_number s = (case s of
       [] \<Rightarrow> None
     | c # r \<Rightarrow>
         if \<not> c_isdigit c then None
         else if c = CHR ''0'' then
           (case r of x # d # r' \<Rightarrow>
              if (x = CHR ''x'' \<or> x = CHR ''X'') \<and> digit_in 16 d then Some (scan_base 16 (d # r'))
              else Some (scan_base 8 s)
            | _ \<Rightarrow> Some (scan_base 8 s))
         else Some (scan_base 10 s))"

fun inet_parts :: "nat \<Rightarrow> string \<Rightarrow> nat list option" where
  "inet_parts k s =
     (case c_number s of None \<Rightarrow> None
      | Some (v, r) \<Rightarrow>
          if r \<noteq> [] \<and> hd r = CHR ''.'' then
            (case k of 0 \<Rightarrow> None
             | Suc k' \<Rightarrow> if 255 < v then None
                 else (case inet_parts k' (tl r) of None \<Rightarrow> None | Some vs \<Rightarrow> Some (v # vs)))
          else if r = [] \<or> c_isspace (hd r) then Some [v] else None)"

declare inet_parts.simps [simp del]

definition INADDR_NONE :: u32 where "INADDR_NONE = 0xFFFFFFFF"

definition inet_addr :: "string \<Rightarrow> u32" where
  "inet_addr s =
     (case inet_parts 3 s of None \<Rightarrow> INADDR_NONE
      | Some vs \<Rightarrow>
          if List.last vs < 256 ^ (5 - length vs)
          then of_nat (foldl (\<lambda>a v. 256 * a + v) 0 (butlast vs) * 256 ^ (5 - length vs) + List.last vs)
          else INADDR_NONE)"

definition NETMASK :: "int \<Rightarrow> u32" where
  "NETMASK bits = (if bits \<noteq> 0 then - push_bit (nat (32 - bits)) 1 else 0)"

section \<open>Spaces\<close>

fun decode_from :: "nat \<Rightarrow> string \<Rightarrow> string" where
  "decode_from n [] = []"
| "decode_from 0 s = []"
| "decode_from (Suc n) (c # s) =
     (if c = CHR ''_'' then
        (case s of d # s' \<Rightarrow> if d \<noteq> CHR ''_'' then CHR '' '' # decode_from n s else CHR ''_'' # decode_from n s'
         | [] \<Rightarrow> [CHR '' ''])
      else c # decode_from n s)"

definition decodespace :: "string \<Rightarrow> string" where
  "decodespace s = decode_from 510 s"

text \<open>The bound of \<open>encodespace\<close> is tested before each character of the source.\<close>

fun encode_from :: "nat \<Rightarrow> string \<Rightarrow> string" where
  "encode_from o1 [] = []"
| "encode_from o1 (c # s) =
     (if 509 \<le> o1 then []
      else if c = CHR '' '' then CHR ''_'' # encode_from (Suc o1) s
      else if c = CHR ''_'' then CHR ''_'' # CHR ''_'' # encode_from (o1 + 2) s
      else c # encode_from (Suc o1) s)"

definition encodespace :: "string \<Rightarrow> string" where
  "encodespace s = encode_from 0 s"

section \<open>Identities\<close>

definition check_if_ipmask :: "string \<Rightarrow> bool" where
  "check_if_ipmask msk \<longleftrightarrow>
     \<not> (msk \<noteq> [] \<and> (hd msk = CHR ''.'' \<or> hd msk = CHR ''/''))
     \<and> (\<forall>c \<in> set msk. c \<in> {CHR ''*'', CHR ''?'', CHR ''.'', CHR ''/''} \<or> IsDigit c)
     \<and> (\<exists>c \<in> set msk. c \<notin> {CHR ''*'', CHR ''?'', CHR ''.'', CHR ''/''})"

definition IsAccount :: "'z cli_scheme \<Rightarrow> bool" where "IsAccount x \<longleftrightarrow> HasFlag x FLAG_ACCOUNT"
definition IsHiddenHost :: "'z cli_scheme \<Rightarrow> bool" where "IsHiddenHost x \<longleftrightarrow> HasFlag x FLAG_HIDDENHOST"
definition HasSetHost :: "'z cli_scheme \<Rightarrow> bool" where "HasSetHost x \<longleftrightarrow> HasFlag x FLAG_SETHOST"
definition HasFakeHost :: "'z cli_scheme \<Rightarrow> bool" where "HasFakeHost x \<longleftrightarrow> HasFlag x FLAG_FAKEHOST"
definition HasHiddenHost :: "'z cli_scheme \<Rightarrow> bool" where
  "HasHiddenHost x \<longleftrightarrow> IsHiddenHost x \<and> (IsAccount x \<or> HasFakeHost x)"
definition IsDNSBLMarked :: "'z cli_scheme \<Rightarrow> bool" where "IsDNSBLMarked x \<longleftrightarrow> HasFlag x FLAG_DNSBLMARKED"

record banfeat =
  feat_HOST_HIDING_STYLE :: int
  feat_OPERHOST_HIDING :: bool
  feat_HIDDEN_OPERHOST :: string
  feat_HIDDEN_HOST :: string
  feat_OPERFLAGS :: bool
  feat_MAXBANS :: int
  feat_AVBANLEN :: int
  feat_MAXEXCEPTS :: int
  feat_AVEXCEPTLEN :: int
  feat_HIS_BANWHO :: bool
  feat_HIS_EXCEPTWHO :: bool
  feat_CHMODE_e_CHMODEEXCEPTION :: bool
  feat_FLEXABLEKEYS :: bool

definition make_hidden_hostmask :: "banfeat \<Rightarrow> cclient \<Rightarrow> User \<Rightarrow> string res" where
  "make_hidden_hostmask feat c us =
     (if HasFakeHost c then Inr (take HOSTLEN (u_fakehost us))
      else if IsAccount c then
        Inr (take (HOSTLEN - 1) (u_account us @ ''.''
          @ (if IsAnOper c \<and> feat_OPERHOST_HIDING feat then feat_HIDDEN_OPERHOST feat else feat_HIDDEN_HOST feat)))
      else Inl Aborted)"

definition NUI_BUFSIZE :: nat where "NUI_BUFSIZE = NICKLEN + USERLEN + 16 + 3"

definition ip_text :: "u32 \<Rightarrow> string" where
  "ip_text ip = ircd_ntoa_r (ucast (drop_bit 24 ip), ucast (drop_bit 16 ip), ucast (drop_bit 8 ip), ucast ip)"

definition make_nick_user_ip :: "string \<Rightarrow> string \<Rightarrow> u32 \<Rightarrow> string" where
  "make_nick_user_ip nick name ip = take (NUI_BUFSIZE - 1) (nick @ ''!'' @ name @ ''@'' @ ip_text ip)"

text \<open>
  The masks a ban is compared with at the end of its tests. The first two are built in the same
  buffer, so that the one with the real host is overwritten before it is used.
\<close>

definition account_mask :: "banfeat \<Rightarrow> cclient \<Rightarrow> User \<Rightarrow> string option res" where
  "account_mask feat c us =
     (let nuh = make_nick_user_host (cc_name c) (u_realusername us)
      in if feat_HOST_HIDING_STYLE feat = 1 then
           (if IsAccount c then
              (if HasHiddenHost c \<and> \<not> HasSetHost c then Inr (Some (nuh (u_realhost us)))
               else res_bind (make_hidden_hostmask feat c us) (\<lambda>tmphost. Inr (Some (nuh tmphost))))
            else Inr None)
         else
           (if IsHiddenHost c \<and> \<not> HasSetHost c then Inr (Some (nuh (u_realhost us)))
            else Inr (Some (nuh (take (HOSTLEN - 1) (u_virthost us))))))"

definition user_masks :: "banfeat \<Rightarrow> cclient \<Rightarrow> User \<Rightarrow> string list res" where
  "user_masks feat c us =
     (let nuh = make_nick_user_host (cc_name c) (u_realusername us);
          nu_host = nuh (u_host us); s = nu_host; sb = nu_host;
          sh = (if HasSetHost c then [nuh (u_realhost us)] else []);
          sf = (if HasFakeHost c then [nuh (u_fakehost us)] else [])
      in res_bind (account_mask feat c us) (\<lambda>sa.
           Inr (s # sb # sh @ sf @ (case sa of None \<Rightarrow> [] | Some m \<Rightarrow> [m]))))"

text \<open>The host of a listed or marked user: the mark before the real host.\<close>

definition marked_mask :: "cclient \<Rightarrow> User \<Rightarrow> string \<Rightarrow> string" where
  "marked_mask c us mark =
     make_nick_user_host (cc_name c) (u_realusername us) (take (BUFSIZE - 1) (mark @ ''.'' @ u_realhost us))"

section \<open>Addresses\<close>

lemma digit_char: "d < 10 \<Longrightarrow> ord (char_of (48 + d) :: char) = 48 + d"
  by (simp add: of_char_of)

lemma hex_val_digit: "c_isdigit c \<Longrightarrow> hex_val c = Some (ord c - 48)"
  by (simp add: hex_val_def)

lemma digit_in_10: "digit_in 10 c \<longleftrightarrow> c_isdigit c"
  by (auto simp: digit_in_def hex_val_def c_isdigit_def)

lemma decimal_all_digits: "c \<in> set (decimal n) \<Longrightarrow> c_isdigit c"
  using decimal_digits [of c n] by (simp add: c_isdigit_def)

lemma base_val_decimal: "base_val 10 (decimal n) = n"
proof -
  have "foldl (\<lambda>n c. 10 * n + (case hex_val c of None \<Rightarrow> 0 | Some v \<Rightarrow> v)) k s = foldl (\<lambda>n c. 10 * n + (ord c - 48)) k s"
    if "\<forall>c \<in> set s. c_isdigit c" for k :: nat and s
    using that by (induction s arbitrary: k) (auto simp: hex_val_digit)
  then show ?thesis using dec_val_decimal [of n] decimal_all_digits [of _ n] by (simp add: base_val_def dec_val_def)
qed

lemma scan_digits:
  assumes "\<forall>c \<in> set ds. P c" "r = [] \<or> \<not> P (hd r)"
  shows "takeWhile P (ds @ r) = ds" "dropWhile P (ds @ r) = r"
proof -
  have "takeWhile P r = [] \<and> dropWhile P r = r" using assms(2) by (cases r) auto
  then show "takeWhile P (ds @ r) = ds" "dropWhile P (ds @ r) = r"
    using assms(1) by (simp_all add: takeWhile_append dropWhile_append)
qed

lemma scan_decimal:
  assumes "r = [] \<or> \<not> c_isdigit (hd r)"
  shows "scan_base 10 (decimal n @ r) = (n, r)"
  using scan_digits [of "decimal n" "digit_in 10" r] assms decimal_all_digits [of _ n]
  by (simp add: scan_base_def digit_in_10 base_val_decimal)

lemma decimal_ne: "decimal n \<noteq> []"
  by (subst decimal.simps) simp

lemma decimal_hd: "0 < n \<Longrightarrow> hd (decimal n) \<noteq> CHR ''0''"
proof (induction n rule: decimal.induct)
  case (1 n)
  show ?case
  proof (cases "n < 10")
    case True
    then have "ord (char_of (48 + n) :: char) = 48 + n" by (rule digit_char)
    then show ?thesis using True 1(2) by (auto simp: decimal.simps [of n] simp flip: ord_inject)
  next
    case False
    then show ?thesis using 1 decimal_ne [of "n div 10"] by (simp add: decimal.simps [of n])
  qed
qed

lemma c_number_decimal:
  assumes "r = [] \<or> hd r = CHR ''.''"
  shows "c_number (decimal n @ r) = Some (n, r)"
proof (cases "n = 0")
  case True
  have z: "digit_in 8 (CHR ''0'')" "\<not> digit_in 8 (CHR ''.'')" "c_isdigit (CHR ''0'')"
    by (simp_all add: digit_in_def hex_val_def c_isdigit_def)
  have d: "decimal 0 = ''0''" by (simp add: decimal.simps of_char_of flip: ord_inject)
  have "scan_base 8 (CHR ''0'' # r) = (0, r)"
    using scan_digits [of "''0''" "digit_in 8" r] z assms by (auto simp: scan_base_def base_val_def hex_val_def c_isdigit_def)
  moreover have "c_number (CHR ''0'' # r) = Some (scan_base 8 (CHR ''0'' # r))"
    using assms z by (auto simp: c_number_def split: list.splits)
  ultimately show ?thesis using True d by simp
next
  case False
  obtain c ds where c: "decimal n = c # ds" using decimal_ne by (cases "decimal n") auto
  have "c \<noteq> CHR ''0''" "c_isdigit c" using decimal_hd [of n] False c decimal_all_digits [of c n] by simp_all
  moreover have "r = [] \<or> \<not> c_isdigit (hd r)" using assms by (auto simp: c_isdigit_def)
  ultimately show ?thesis using scan_decimal [of r n] c by (simp add: c_number_def)
qed

lemma inet_parts_last: "inet_parts k (decimal n) = Some [n]"
  using c_number_decimal [of "[]" n] by (simp add: inet_parts.simps)

lemma inet_parts_next: "n \<le> 255 \<Longrightarrow> inet_parts (Suc k) (decimal n @ CHR ''.'' # r) = map_option ((#) n) (inet_parts k r)"
  using c_number_decimal [of "CHR ''.'' # r" n] by (simp add: inet_parts.simps [of "Suc k"] split: option.splits)

lemma byte_at: "unat (ucast (drop_bit k (a :: u32)) :: u8) = unat a div 2 ^ k mod 256"
proof -
  have "unat (drop_bit k a) = unat a div 2 ^ k" 
    using unat_u32_less [of a] by (simp only: unsigned_drop_bit_eq) (simp add: drop_bit_eq_div take_bit_nat_eq_self)
  then show ?thesis by (simp add: unsigned_ucast_eq take_bit_eq_mod)
qed

lemma bytes_sum:
  fixes n :: nat
  assumes "n < 4294967296"
  shows "((n div 16777216 mod 256 * 256 + n div 65536 mod 256) * 256 + n div 256 mod 256) * 256 + n mod 256 = n"
proof -
  have "n div 16777216 mod 256 = n div 16777216" using assms by (intro mod_less) simp
  moreover have "n div 65536 div 256 = n div 16777216" "n div 256 div 256 = n div 65536" by (simp_all add: div_mult2_eq [symmetric])
  moreover have "n div 65536 div 256 * 256 + n div 65536 mod 256 = n div 65536" "n div 256 div 256 * 256 + n div 256 mod 256 = n div 256"
    "n div 256 * 256 + n mod 256 = n" by (rule div_mult_mod_eq)+
  ultimately show ?thesis by simp
qed

lemma inet_addr_ip_text: "inet_addr (ip_text a) = a"
proof -
  let ?b = "\<lambda>k. unat (ucast (drop_bit k a) :: u8)"
  have l: "?b k \<le> 255" "unat (ucast a :: u8) \<le> 255" for k using unat_u8_less [of "ucast (drop_bit k a)"] unat_u8_less [of "ucast a"] by simp_all
  have p: "inet_parts 3 (ip_text a) = Some [?b 24, ?b 16, ?b 8, unat (ucast a :: u8)]"
    using l by (simp add: ip_text_def ircd_ntoa_r_def numeral_3_eq_3 inet_parts_next inet_parts_last)
  have n: "((?b 24 * 256 + ?b 16) * 256 + ?b 8) * 256 + unat (ucast a :: u8) = unat a"
    using bytes_sum [OF unat_u32_less [of a]] byte_at [of 0 a] byte_at [of 8 a] byte_at [of 16 a] byte_at [of 24 a]
    by (simp del: mod_less)
  have "inet_addr (ip_text a) = of_nat (((?b 24 * 256 + ?b 16) * 256 + ?b 8) * 256 + unat (ucast a :: u8))"
    using l by (simp add: inet_addr_def p algebra_simps)
  then show ?thesis unfolding n by simp
qed

lemma NETMASK_prefix:
  assumes "0 < bits" "bits < 33"
  shows "NETMASK bits AND a = net \<longleftrightarrow> drop_bit (nat (32 - bits)) a = drop_bit (nat (32 - bits)) net \<and> take_bit (nat (32 - bits)) net = 0"
proof -
  let ?n = "nat (32 - bits)"
  have m: "NETMASK bits = NOT (mask ?n)" using assms by (simp add: NETMASK_def push_bit_eq_mult minus_exp_eq_not_mask)
  have "bit (NOT (mask ?n) AND a) i \<longleftrightarrow> ?n \<le> i \<and> bit a i" for i
    by (auto simp: bit_simps dest: bit_imp_le_length)
  note b = this
  show ?thesis unfolding m
  proof
    assume "NOT (mask ?n) AND a = net"
    then have h: "bit net i \<longleftrightarrow> ?n \<le> i \<and> bit a i" for i using b [of i] by simp
    show "drop_bit ?n a = drop_bit ?n net \<and> take_bit ?n net = 0"
    proof
      show "drop_bit ?n a = drop_bit ?n net" by (rule bit_eqI) (simp only: bit_drop_bit_eq comp_def h, simp)
      show "take_bit ?n net = 0" by (rule bit_eqI) (simp only: bit_take_bit_iff h, simp)
    qed
  next
    assume h: "drop_bit ?n a = drop_bit ?n net \<and> take_bit ?n net = 0"
    have lo: "\<not> bit net i" if "i < ?n" for i
    proof
      assume "bit net i"
      then have "bit (take_bit ?n net) i" using that by (simp only: bit_take_bit_iff simp_thms)
      then show False using h by simp
    qed
    have hi: "bit a i \<longleftrightarrow> bit net i" if "?n \<le> i" for i
    proof -
      have "bit (drop_bit ?n a) (i - ?n) \<longleftrightarrow> bit (drop_bit ?n net) (i - ?n)" using h by simp
      then show ?thesis using that by (simp only: bit_drop_bit_eq comp_def) simp
    qed
    show "NOT (mask ?n) AND a = net" by (rule bit_eqI) (use b lo hi not_le in blast)
  qed
qed

lemma atoi_decimal: "n < 100 \<Longrightarrow> atoi (decimal n) = int n"
proof -
  assume n: "n < 100"
  have d: "c \<in> set (decimal n) \<Longrightarrow> \<not> c_isspace c \<and> c \<noteq> CHR ''-'' \<and> c \<noteq> CHR ''+''" for c
    using decimal_digits [of c n] by (auto simp: c_isspace_def)
  obtain c ds where c: "decimal n = c # ds" using decimal_ne by (cases "decimal n") auto
  have "takeWhile c_isdigit (decimal n) = decimal n" using decimal_all_digits by (simp add: takeWhile_eq_all_conv)
  then show ?thesis using n d [of c] c dec_val_decimal [of n] by (simp add: atoi_def Let_def)
qed

section \<open>Encoded spaces\<close>

lemma length_encode_from: "o1 \<le> 510 \<Longrightarrow> length (encode_from o1 s) + o1 \<le> 510"
  by (induction o1 s rule: encode_from.induct) auto

lemma decode_encode:
  assumes "length (encode_from o1 s) \<le> n" "\<forall>i. Suc i < length s \<longrightarrow> \<not> (s ! i = CHR '' '' \<and> s ! Suc i \<in> {CHR '' '', CHR ''_''})"
    and "o1 + length (encode_from o1 s) < 509"
  shows "decode_from n (encode_from o1 s) = s"
  using assms
proof (induction o1 s arbitrary: n rule: encode_from.induct)
  case (2 o1 c s)
  have tl: "\<forall>i. Suc i < length s \<longrightarrow> \<not> (s ! i = CHR '' '' \<and> s ! Suc i \<in> {CHR '' '', CHR ''_''})" using 2(5) by (metis Suc_less_eq length_Cons nth_Cons_Suc)
  have lt: "\<not> 509 \<le> o1" using 2(6) by simp
  obtain k where k: "n = Suc k" using 2(4) lt by (cases n) (auto split: if_splits)
  consider "c = CHR '' ''" | "c = CHR ''_''" | "c \<noteq> CHR '' ''" "c \<noteq> CHR ''_''" by blast
  then show ?case
  proof cases
    case a: 1
    have "decode_from k (encode_from (Suc o1) s) = s" using 2(1) [OF lt a] tl 2(4,6) a lt k by simp
    moreover have "s \<noteq> [] \<longrightarrow> hd s \<notin> {CHR '' '', CHR ''_''}" using 2(5) a by (cases s) force+
    ultimately show ?thesis using a lt k 2(6)
      by (cases s) (auto split: if_splits)
  next
    case a: 2
    have "decode_from k (encode_from (o1 + 2) s) = s" using 2(2) [OF lt _ a] tl 2(4,6) a lt k by simp
    then show ?thesis using a lt k by simp
  next
    case a: 3
    have "decode_from k (encode_from (Suc o1) s) = s" using 2(3) [OF lt a] tl 2(4,6) a lt k by simp
    then show ?thesis using a lt k by simp
  qed
qed simp

lemma decode_set: "set (decode_from n s) \<subseteq> insert (CHR '' '') (set s)"
proof (induction n s rule: decode_from.induct)
  case (3 n c s)
  show ?case
  proof (cases "c = CHR ''_''")
    case True
    show ?thesis
    proof (cases s)
      case (Cons d s')
      then show ?thesis using True 3(1,2) [OF True Cons] by (cases "d = CHR ''_''") auto
    qed (use True in simp)
  next
    case False
    then show ?thesis using 3(3) by auto
  qed
qed auto

lemma decode_ne: "0 < n \<Longrightarrow> s \<noteq> [] \<Longrightarrow> decode_from n s \<noteq> []"
  by (cases n; cases s) (simp_all split: list.split)

end
