(* ===== verification/Whowas.thy ===== *)
theory Whowas
  imports Hostmask
begin

text \<open>
  Nickname history (\<open>ircd/whowas.c\<close>).

  The records live on a heap \<open>wheap\<close> and are named by their address; reading or writing
  through an address that is not allocated is \<open>Inl OutOfBounds\<close>. The doubly linked history
  list is modelled by its pointers \<open>wnext\<close>, \<open>wprev\<close>, \<open>ww_list\<close> and \<open>ww_tail\<close>. The chains
  through \<open>hnext\<close> and \<open>cnext\<close>, whose back pointers lead to the previous link, are the lists of
  the addresses on them, first link first; \<open>cli_whowas\<close> maps a client to its chain. The
  address \<open>MyMalloc\<close> returns is an argument, \<open>hist\<close> is \<open>FEAT_NICKNAMEHISTORYLENGTH\<close>.
\<close>

section \<open>State\<close>

type_synonym wptr = nat

record wwinfo =
  hashv :: nat
  wwname :: string
  username :: string
  hostname :: string
  realhost :: "string option"
  servername :: string
  realname :: string
  away :: "string option"
  logoff :: int
  online :: "client option"

record Whowas =
  winfo :: wwinfo
  wnext :: "wptr option"
  wprev :: "wptr option"

record wwstate =
  wheap :: "wptr \<Rightarrow> Whowas option"
  ww_list :: "wptr option"
  ww_tail :: "wptr option"
  ww_alloc :: nat
  whowashash :: "nat \<Rightarrow> wptr list"
  cli_whowas :: "client \<Rightarrow> wptr list"

definition ww_get :: "wwstate \<Rightarrow> wptr \<Rightarrow> Whowas res" where
  "ww_get s w = (case wheap s w of Some n \<Rightarrow> Inr n | None \<Rightarrow> Inl OutOfBounds)"

definition ww_put :: "wwstate \<Rightarrow> wptr \<Rightarrow> (Whowas \<Rightarrow> Whowas) \<Rightarrow> wwstate res" where
  "ww_put s w f = res_bind (ww_get s w) (\<lambda>n. Inr (s\<lparr>wheap := (wheap s)(w \<mapsto> f n)\<rparr>))"

section \<open>Hash\<close>

definition WW_MAX :: nat where "WW_MAX = 128"

text \<open>The loop body runs before the first test: on the empty name it reads past its terminator.\<close>

fun hash_whowas_loop :: "string \<Rightarrow> u32 \<Rightarrow> u32 \<Rightarrow> (u32 \<times> u32) res" where
  "hash_whowas_loop [] hash hash2 = Inl OutOfBounds"
| "hash_whowas_loop (c # cs) hash hash2 =
     (let lower = of_nat (ord (ToLower c));
          h = push_bit 1 hash + lower;
          h2 = drop_bit 1 hash2 + lower
      in if cs = [] then Inr (h, h2) else hash_whowas_loop cs h h2)"

definition hash_whowas_name :: "string \<Rightarrow> nat res" where
  "hash_whowas_name name =
     res_bind (hash_whowas_loop name 0 0) (\<lambda>(hash, hash2).
       Inr (unat (push_bit 3 (hash AND 15) + (hash2 AND 7))))"

section \<open>Operations\<close>

definition whowas_clean :: "wptr option \<Rightarrow> wwstate \<Rightarrow> (wptr option \<times> wwstate) res" where
  "whowas_clean ww s =
     (case ww of None \<Rightarrow> Inr (None, s)
      | Some w \<Rightarrow>
          res_bind (ww_get s w) (\<lambda>n.
          let s1 = (case online (winfo n) of
                      Some c \<Rightarrow> s\<lparr>cli_whowas := (cli_whowas s)(c := remove1 w (cli_whowas s c))\<rparr>
                    | None \<Rightarrow> s);
              h = hashv (winfo n);
              s2 = s1\<lparr>whowashash := (whowashash s1)(h := remove1 w (whowashash s1 h))\<rparr>
          in res_bind (case wnext n of None \<Rightarrow> Inr s2 | Some x \<Rightarrow> ww_put s2 x (\<lambda>m. m\<lparr>wprev := wprev n\<rparr>)) (\<lambda>s3.
             res_bind (case wprev n of None \<Rightarrow> Inr s3 | Some x \<Rightarrow> ww_put s3 x (\<lambda>m. m\<lparr>wnext := wnext n\<rparr>)) (\<lambda>s4.
               Inr (Some w, if ww_tail s4 = Some w then s4\<lparr>ww_tail := wprev n\<rparr> else s4)))))"

definition whowas_free :: "wptr option \<Rightarrow> wwstate \<Rightarrow> wwstate res" where
  "whowas_free ww s =
     (case ww of None \<Rightarrow> Inr s
      | Some w \<Rightarrow>
          res_bind (whowas_clean ww s) (\<lambda>(_, s1).
            Inr (s1\<lparr>wheap := (wheap s1)(w := None), ww_alloc := ww_alloc s1 - 1\<rparr>)))"

definition blank :: Whowas where
  "blank = \<lparr>winfo = \<lparr>hashv = 0, wwname = [], username = [], hostname = [], realhost = None, servername = [],
     realname = [], away = None, logoff = 0, online = None\<rparr>, wnext = None, wprev = None\<rparr>"

definition whowas_init :: "wptr option \<times> wwstate \<Rightarrow> (wptr option \<times> wwstate) res" where
  "whowas_init x =
     (case x of (None, s) \<Rightarrow> Inr (None, s)
      | (Some w, s) \<Rightarrow> res_bind (ww_put s w (\<lambda>_. blank)) (\<lambda>s1. Inr (Some w, s1)))"

definition whowas_alloc :: "nat \<Rightarrow> wptr \<Rightarrow> wwstate \<Rightarrow> (wptr option \<times> wwstate) res" where
  "whowas_alloc hist fresh s =
     (if hist \<le> ww_alloc s then res_bind (whowas_clean (ww_tail s) s) whowas_init
      else whowas_init (Some fresh, s\<lparr>ww_alloc := Suc (ww_alloc s), wheap := (wheap s)(fresh \<mapsto> blank)\<rparr>))"

lemma ww_put_fields:
  "ww_put s w f = Inr s' \<Longrightarrow> ww_alloc s' = ww_alloc s \<and> ww_list s' = ww_list s \<and> ww_tail s' = ww_tail s
     \<and> whowashash s' = whowashash s \<and> cli_whowas s' = cli_whowas s"
  by (auto simp: ww_put_def res_bind_Inr_iff)

lemma whowas_free_alloc:
  "whowas_free (Some w) s = Inr s' \<Longrightarrow> ww_alloc s' = ww_alloc s - 1"
  by (auto simp: whowas_free_def whowas_clean_def res_bind_Inr_iff Let_def dest!: ww_put_fields
      split: option.splits if_splits)

function whowas_realloc :: "nat \<Rightarrow> wwstate \<Rightarrow> wwstate res" where
  "whowas_realloc hist s =
     (if hist < ww_alloc s then
        (if ww_tail s = None then Inr s
         else case whowas_free (ww_tail s) s of Inl e \<Rightarrow> Inl e
              | Inr s1 \<Rightarrow> whowas_realloc hist s1)
      else Inr s)"
  by pat_completeness auto
termination
  by (relation "measure (\<lambda>(hist, s). ww_alloc s)") (auto, frule whowas_free_alloc, simp)

declare whowas_realloc.simps [simp del]

definition link_front :: "wptr \<Rightarrow> wwstate \<Rightarrow> wwstate res" where
  "link_front w s =
     res_bind (ww_put s w (\<lambda>m. m\<lparr>wnext := ww_list s\<rparr>)) (\<lambda>s1.
     res_bind (case ww_list s1 of None \<Rightarrow> Inr s1 | Some x \<Rightarrow> ww_put s1 x (\<lambda>m. m\<lparr>wprev := Some w\<rparr>)) (\<lambda>s2.
       let s3 = s2\<lparr>ww_list := Some w\<rparr>
       in Inr (if ww_tail s3 = None then s3\<lparr>ww_tail := Some w\<rparr> else s3)))"

text \<open>
  What \<open>add_history\<close> reads of the client \<open>cptr\<close>, with its \<open>struct User\<close> and the name of its server,
  and the copies it makes. The record it copies to has been cleared by \<open>whowas_init\<close>: a real host or
  away text that is not copied stays null.
\<close>

record wwclient = cli +
  ww_cli_name :: string
  ww_cli_info :: string
  ww_user_username :: string
  ww_user_host :: string
  ww_user_realhost :: string
  ww_user_server :: string
  ww_user_away :: "string option"

record wwenv =
  ww_HOST_HIDING_STYLE :: int
  ww_CurrentTime :: int

definition copy_client :: "wwenv \<Rightarrow> wwclient \<Rightarrow> wwinfo \<Rightarrow> wwinfo" where
  "copy_client e c i =
     i\<lparr>logoff := ww_CurrentTime e, wwname := ww_cli_name c, username := ww_user_username c,
       hostname := ww_user_host c,
       realhost := (if (if ww_HOST_HIDING_STYLE e = 1 then HasHiddenHost c else IsHiddenHost c)
                    then Some (ww_user_realhost c) else realhost i),
       servername := ww_user_server c, realname := ww_cli_info c,
       away := (case ww_user_away c of None \<Rightarrow> away i | Some a \<Rightarrow> Some a)\<rparr>"

definition add_history :: "wwenv \<Rightarrow> nat \<Rightarrow> wptr \<Rightarrow> client \<Rightarrow> wwclient \<Rightarrow> bool \<Rightarrow> wwstate \<Rightarrow> wwstate res" where
  "add_history e hist fresh cptr cl still_on s =
     res_bind (whowas_alloc hist fresh s) (\<lambda>(ww, s1).
       case ww of None \<Rightarrow> Inr s1
       | Some w \<Rightarrow>
           res_bind (hash_whowas_name (ww_cli_name cl)) (\<lambda>h.
           res_bind (ww_put s1 w (\<lambda>m. m\<lparr>winfo := (copy_client e cl (winfo m))\<lparr>hashv := h, online := if still_on then Some cptr else None\<rparr>\<rparr>)) (\<lambda>s2.
           let s3 = (if still_on then s2\<lparr>cli_whowas := (cli_whowas s2)(cptr := w # cli_whowas s2 cptr)\<rparr> else s2)
           in res_bind (link_front w s3) (\<lambda>s4.
                Inr (s4\<lparr>whowashash := (whowashash s4)(h := w # whowashash s4 h)\<rparr>)))))"

fun off_loop :: "wptr list \<Rightarrow> wwstate \<Rightarrow> wwstate res" where
  "off_loop [] s = Inr s"
| "off_loop (w # ws) s =
     res_bind (ww_put s w (\<lambda>m. m\<lparr>winfo := (winfo m)\<lparr>online := None\<rparr>\<rparr>)) (off_loop ws)"

definition off_history :: "client \<Rightarrow> wwstate \<Rightarrow> wwstate res" where
  "off_history cptr s = off_loop (cli_whowas s cptr) s"

fun get_loop :: "wwstate \<Rightarrow> string \<Rightarrow> int \<Rightarrow> wptr list \<Rightarrow> client option res" where
  "get_loop s nick limit [] = Inr None"
| "get_loop s nick limit (w # ws) =
     res_bind (ww_get s w) (\<lambda>n.
       if ircd_strcmp nick (wwname (winfo n)) = 0 \<and> limit < logoff (winfo n)
       then Inr (online (winfo n)) else get_loop s nick limit ws)"

definition get_history :: "int \<Rightarrow> wwstate \<Rightarrow> string \<Rightarrow> int \<Rightarrow> client option res" where
  "get_history CurrentTime s nick timelimit =
     res_bind (hash_whowas_name nick) (\<lambda>h. get_loop s nick (CurrentTime - timelimit) (whowashash s h))"

text \<open>\<open>count_whowas_memory\<close> with its four totals; \<open>None\<close> is a walk along the list that never ends.\<close>

definition count_entry :: "wwinfo \<Rightarrow> nat \<times> nat \<times> nat \<times> nat \<Rightarrow> nat \<times> nat \<times> nat \<times> nat" where
  "count_entry i t =
     (let (u, um, a, am) = t
      in (u + 1,
          um + (length (wwname i) + 1) + (length (username i) + 1) + (length (hostname i) + 1) + (length (servername i) + 1),
          case away i of None \<Rightarrow> a | Some _ \<Rightarrow> a + 1,
          case away i of None \<Rightarrow> am | Some x \<Rightarrow> am + (length x + 1)))"

partial_function (option) count_loop :: "wwstate \<Rightarrow> wptr option \<Rightarrow> nat \<times> nat \<times> nat \<times> nat
    \<Rightarrow> (nat \<times> nat \<times> nat \<times> nat) res option" where
  "count_loop s tmp t =
     (case tmp of None \<Rightarrow> Some (Inr t)
      | Some w \<Rightarrow>
          (case ww_get s w of Inl e \<Rightarrow> Some (Inl e)
           | Inr n \<Rightarrow> count_loop s (wnext n) (count_entry (winfo n) t)))"

definition count_whowas_memory :: "wwstate \<Rightarrow> (nat \<times> nat \<times> nat \<times> nat) res option" where
  "count_whowas_memory s = count_loop s (ww_list s) (0, 0, 0, 0)"

definition initwhowas :: "wwstate \<Rightarrow> wwstate" where
  "initwhowas s = s\<lparr>whowashash := (\<lambda>_. [])\<rparr>"

section \<open>The history list\<close>

text \<open>
  The addresses \<open>ws\<close>, newest first, form the list: the links and both ends agree with them.
\<close>

definition links :: "wwstate \<Rightarrow> wptr list \<Rightarrow> bool" where
  "links s ws \<longleftrightarrow>
     (\<forall>i < length ws. \<exists>n. wheap s (ws ! i) = Some n
        \<and> wnext n = (if Suc i < length ws then Some (ws ! Suc i) else None)
        \<and> wprev n = (if i = 0 then None else Some (ws ! (i - 1))))"

definition ends :: "wwstate \<Rightarrow> wptr list \<Rightarrow> bool" where
  "ends s ws \<longleftrightarrow> ww_list s = (if ws = [] then None else Some (hd ws))
     \<and> ww_tail s = (if ws = [] then None else Some (last ws))"

definition info_at :: "wwstate \<Rightarrow> wptr \<Rightarrow> wwinfo" where
  "info_at s w = winfo (the (wheap s w))"

text \<open>The chains agree with the list: same order, selected by hash value or by client.\<close>

definition chains :: "client set \<Rightarrow> wwstate \<Rightarrow> wptr list \<Rightarrow> bool" where
  "chains live s ws \<longleftrightarrow>
     (\<forall>h. whowashash s h = filter (\<lambda>w. hashv (info_at s w) = h) ws)
     \<and> (\<forall>c \<in> live. cli_whowas s c = filter (\<lambda>w. online (info_at s w) = Some c) ws)
     \<and> (\<forall>w \<in> set ws. \<forall>c. online (info_at s w) = Some c \<longrightarrow> c \<in> live)"

definition ww_inv :: "client set \<Rightarrow> wwstate \<Rightarrow> wptr list \<Rightarrow> bool" where
  "ww_inv live s ws \<longleftrightarrow> distinct ws \<and> links s ws \<and> ends s ws \<and> chains live s ws
     \<and> ww_alloc s = length ws \<and> dom (wheap s) = set ws
     \<and> (\<forall>w \<in> set ws. hash_whowas_name (wwname (info_at s w)) = Inr (hashv (info_at s w)))"

text \<open>The history: the records of the list, newest first.\<close>

definition history :: "wwstate \<Rightarrow> wptr list \<Rightarrow> wwinfo list" where
  "history s ws = map (info_at s) ws"

lemma links_butlast: "links s (ws @ [w]) \<Longrightarrow> ws \<noteq> [] \<Longrightarrow>
    \<exists>n. wheap s (last ws) = Some n \<and> wnext n = Some w"
  by (auto simp: links_def last_conv_nth nth_append dest!: spec [of _ "length ws - 1"])

lemma links_last:
  "links s (ws @ [w]) \<Longrightarrow> \<exists>n. wheap s w = Some n \<and> wnext n = None
     \<and> wprev n = (if ws = [] then None else Some (last ws))"
  by (auto simp: links_def nth_append last_conv_nth dest!: spec [of _ "length ws"])

text \<open>Only a record's place matters for \<open>links\<close>, not its description.\<close>

lemma links_cong:
  assumes "links s ws" "\<And>w. w \<in> set ws \<Longrightarrow> map_option wnext (wheap s' w) = map_option wnext (wheap s w)"
    and "\<And>w. w \<in> set ws \<Longrightarrow> map_option wprev (wheap s' w) = map_option wprev (wheap s w)"
  shows "links s' ws"
  unfolding links_def
proof (intro allI impI)
  fix i assume i: "i < length ws"
  then obtain n where "wheap s (ws ! i) = Some n"
      "wnext n = (if Suc i < length ws then Some (ws ! Suc i) else None)"
      "wprev n = (if i = 0 then None else Some (ws ! (i - 1)))"
    using assms(1) by (auto simp: links_def)
  then show "\<exists>n. wheap s' (ws ! i) = Some n
      \<and> wnext n = (if Suc i < length ws then Some (ws ! Suc i) else None)
      \<and> wprev n = (if i = 0 then None else Some (ws ! (i - 1)))"
    using assms(2,3) [of "ws ! i"] i by (cases "wheap s' (ws ! i)") auto
qed

text \<open>Cutting off the last record.\<close>

lemma links_cut:
  assumes "links s (ws @ [w])" "distinct (ws @ [w])" "ws \<noteq> []" "wheap s (last ws) = Some n"
    and "\<And>v. v \<in> set ws \<Longrightarrow> wheap s' v = (if v = last ws then Some (n\<lparr>wnext := None\<rparr>) else wheap s v)"
  shows "links s' ws"
  unfolding links_def
proof (intro allI impI)
  fix i assume i: "i < length ws"
  obtain m where m: "wheap s (ws ! i) = Some m"
      "wnext m = (if Suc i < Suc (length ws) then Some ((ws @ [w]) ! Suc i) else None)"
      "wprev m = (if i = 0 then None else Some (ws ! (i - 1)))"
    using assms(1) [unfolded links_def, rule_format, of i] i by (auto simp: nth_append split: if_splits)
  have last: "ws ! i = last ws \<longleftrightarrow> Suc i = length ws"
    using assms(2,3) i by (auto simp: last_conv_nth nth_eq_iff_index_eq)
  show "\<exists>n. wheap s' (ws ! i) = Some n
      \<and> wnext n = (if Suc i < length ws then Some (ws ! Suc i) else None)
      \<and> wprev n = (if i = 0 then None else Some (ws ! (i - 1)))"
    using assms(4,5) m i last by (auto simp: nth_append)
qed

text \<open>Putting a record in front.\<close>

lemma links_cons:
  assumes "links s ws" "distinct (w # ws)" "wheap s' w = Some n"
    "wnext n = (if ws = [] then None else Some (hd ws))" "wprev n = None"
    and "\<And>v. v \<in> set ws \<Longrightarrow> wheap s' v =
      (if v = hd ws then map_option (\<lambda>m. m\<lparr>wprev := Some w\<rparr>) (wheap s v) else wheap s v)"
  shows "links s' (w # ws)"
  unfolding links_def
proof (intro allI impI)
  fix i assume i: "i < length (w # ws)"
  show "\<exists>n. wheap s' ((w # ws) ! i) = Some n
      \<and> wnext n = (if Suc i < length (w # ws) then Some ((w # ws) ! Suc i) else None)
      \<and> wprev n = (if i = 0 then None else Some ((w # ws) ! (i - 1)))"
  proof (cases i)
    case 0
    then show ?thesis using assms(3-5) by (auto simp: hd_conv_nth)
  next
    case (Suc j)
    then have j: "j < length ws" using i by simp
    obtain m where m: "wheap s (ws ! j) = Some m"
        "wnext m = (if Suc j < length ws then Some (ws ! Suc j) else None)"
        "wprev m = (if j = 0 then None else Some (ws ! (j - 1)))"
      using assms(1) j by (auto simp: links_def)
    have hd: "ws ! j = hd ws \<longleftrightarrow> j = 0"
      using assms(2) j by (cases ws) (auto simp: nth_Cons' dest: nth_mem)
    show ?thesis
      using assms(6) [of "ws ! j"] m j hd Suc by (cases j) auto
  qed
qed

lemma clean_tail:
  assumes inv: "ww_inv live s (ws @ [w])" and "ws \<noteq> []"
  obtains s' where "whowas_clean (Some w) s = Inr (Some w, s')"
    "links s' ws" "ends s' ws" "chains live s' ws" "ww_alloc s' = ww_alloc s"
    "wheap s' w = wheap s w" "dom (wheap s') = dom (wheap s)" "\<And>v. info_at s' v = info_at s v"
proof -
  have dist: "distinct (ws @ [w])" and lk: "links s (ws @ [w])" and en: "ends s (ws @ [w])"
    and ch: "chains live s (ws @ [w])"
    using inv by (auto simp: ww_inv_def)
  obtain n where n: "wheap s w = Some n" "wnext n = None" "wprev n = Some (last ws)"
    using links_last [OF lk] assms(2) by auto
  obtain m where m: "wheap s (last ws) = Some m" using links_butlast [OF lk assms(2)] by auto
  let ?h = "hashv (winfo n)"
  define s' where "s' = s\<lparr>wheap := (wheap s)(last ws \<mapsto> m\<lparr>wnext := None\<rparr>), ww_tail := Some (last ws),
      whowashash := (whowashash s)(?h := remove1 w (whowashash s ?h)),
      cli_whowas := (case online (winfo n) of None \<Rightarrow> cli_whowas s
                     | Some c \<Rightarrow> (cli_whowas s)(c := remove1 w (cli_whowas s c)))\<rparr>"
  have info: "info_at s' v = info_at s v" for v using m by (simp add: info_at_def s'_def)
  have wl: "w \<noteq> last ws" "w \<notin> set ws" using dist assms(2) by auto
  have tail: "ww_tail s = Some w" using en by (simp add: ends_def)
  have run: "whowas_clean (Some w) s = Inr (Some w, s')"
    using n m tail by (cases "online (winfo n)")
      (simp_all add: whowas_clean_def ww_get_def ww_put_def s'_def Let_def)
  have rem: "remove1 w (filter P (ws @ [w])) = filter P ws" for P :: "wptr \<Rightarrow> bool"
    using wl(2) by (simp add: remove1_append remove1_idem)
  have iw: "info_at s w = winfo n" using n by (simp add: info_at_def)
  have "whowashash s' h = filter (\<lambda>v. hashv (info_at s v) = h) ws" for h
    using ch rem [of "\<lambda>v. hashv (info_at s v) = h"] iw by (auto simp: chains_def s'_def)
  moreover have "cli_whowas s' c = filter (\<lambda>v. online (info_at s v) = Some c) ws" if "c \<in> live" for c
    using ch that rem [of "\<lambda>v. online (info_at s v) = Some c"] iw
    by (auto simp: chains_def s'_def split: option.split)
  ultimately have chs: "chains live s' ws"
    using ch by (simp add: chains_def info)
  show thesis
  proof (rule that [OF run])
    show "links s' ws"
      by (rule links_cut [OF lk dist assms(2) m]) (auto simp: s'_def)
    show "ends s' ws" using en assms(2) by (simp add: ends_def s'_def)
    show "dom (wheap s') = dom (wheap s)" using m by (auto simp: s'_def)
  qed (use chs wl info in \<open>auto simp: s'_def\<close>)
qed

text \<open>A record that is allocated, off the list and on no chain.\<close>

definition ww_spare :: "client set \<Rightarrow> wwstate \<Rightarrow> wptr \<Rightarrow> wptr list \<Rightarrow> bool" where
  "ww_spare live s w ws \<longleftrightarrow> distinct (w # ws) \<and> links s ws \<and> ends s ws \<and> chains live s ws
     \<and> wheap s w = Some blank \<and> dom (wheap s) = insert w (set ws) \<and> ww_alloc s = Suc (length ws)
     \<and> (\<forall>v \<in> set ws. hash_whowas_name (wwname (info_at s v)) = Inr (hashv (info_at s v)))"

lemma whowas_alloc_spare:
  assumes inv: "ww_inv live s ws" and "length ws \<le> hist" "2 \<le> hist" "fresh \<notin> set ws"
  obtains s' w where "whowas_alloc hist fresh s = Inr (Some w, s')"
    "ww_spare live s' w (take (hist - 1) ws)" "\<And>v. v \<in> set (take (hist - 1) ws) \<Longrightarrow> info_at s' v = info_at s v"
proof (cases "hist \<le> ww_alloc s")
  case True
  then have len: "length ws = hist" using inv assms(2) by (simp add: ww_inv_def)
  then obtain xs w where ws: "ws = xs @ [w]" "xs \<noteq> []"
    using assms(3) by (cases ws rule: rev_cases) fastforce+
  then have cut: "take (hist - 1) ws = xs" using len by simp
  obtain s1 where s1: "whowas_clean (Some w) s = Inr (Some w, s1)" "links s1 xs" "ends s1 xs" "chains live s1 xs"
    "ww_alloc s1 = ww_alloc s" "wheap s1 w = wheap s w" "dom (wheap s1) = dom (wheap s)" "\<And>v. info_at s1 v = info_at s v"
    using clean_tail [of live s xs w] inv ws by auto
  define s' where "s' = s1\<lparr>wheap := (wheap s1)(w \<mapsto> blank)\<rparr>"
  have w: "w \<notin> set xs" "w \<in> dom (wheap s1)" using inv ws s1(7) by (auto simp: ww_inv_def)
  have tail: "ww_tail s = Some w" using inv ws by (simp add: ww_inv_def ends_def)
  have info: "info_at s' v = info_at s v" if "v \<in> set xs" for v
    using that w s1(8) [of v] by (auto simp: s'_def info_at_def)
  have "whowas_alloc hist fresh s = Inr (Some w, s')"
    using True tail s1(1) w(2) by (auto simp: whowas_alloc_def whowas_init_def ww_put_def ww_get_def s'_def)
  moreover have "ww_spare live s' w xs"
  proof -
    have "links s' xs" by (rule links_cong [OF s1(2)]) (use w in \<open>auto simp: s'_def\<close>)
    moreover have "chains live s' xs"
      using s1(4,8) info by (auto simp: chains_def s'_def cong: filter_cong)
    ultimately show ?thesis
      using inv ws s1 w info len by (auto simp: ww_spare_def ww_inv_def s'_def ends_def)
  qed
  ultimately show thesis using that [of w s'] cut info by simp
next
  case False
  define s' where "s' = s\<lparr>ww_alloc := Suc (ww_alloc s), wheap := (wheap s)(fresh \<mapsto> blank)\<rparr>"
  have cut: "take (hist - 1) ws = ws" using False inv by (simp add: ww_inv_def)
  have info: "info_at s' v = info_at s v" if "v \<in> set ws" for v
    using that assms(4) by (auto simp: s'_def info_at_def)
  have "whowas_alloc hist fresh s = Inr (Some fresh, s')"
    using False by (simp add: whowas_alloc_def whowas_init_def ww_put_def ww_get_def s'_def)
  moreover have "ww_spare live s' fresh ws"
  proof -
    have "links s ws" using inv by (simp add: ww_inv_def)
    then have "links s' ws" by (rule links_cong) (use assms(4) in \<open>auto simp: s'_def\<close>)
    moreover have "chains live s' ws"
      using inv info by (auto simp: ww_inv_def chains_def s'_def cong: filter_cong)
    ultimately show ?thesis
      using inv assms(4) info by (auto simp: ww_spare_def ww_inv_def s'_def ends_def)
  qed
  ultimately show thesis using that [of fresh s'] cut info by simp
qed

lemma link_front_ok:
  assumes "distinct (w # ws)" "links s ws" "ends s ws" "wheap s w = Some n" "wnext n = None" "wprev n = None"
  obtains s' where "link_front w s = Inr s'" "links s' (w # ws)" "ends s' (w # ws)"
    "dom (wheap s') = dom (wheap s)" "\<And>v. info_at s' v = info_at s v" "ww_alloc s' = ww_alloc s"
    "whowashash s' = whowashash s" "cli_whowas s' = cli_whowas s"
proof (cases ws)
  case Nil
  define s' where "s' = s\<lparr>wheap := (wheap s)(w \<mapsto> n\<lparr>wnext := None\<rparr>), ww_list := Some w, ww_tail := Some w\<rparr>"
  have "link_front w s = Inr s'"
    using assms Nil by (simp add: link_front_def ww_put_def ww_get_def ends_def s'_def)
  moreover have "links s' (w # ws)" using assms Nil by (simp add: links_def s'_def)
  ultimately show thesis
    using assms Nil by (intro that [of s']) (auto simp: s'_def ends_def info_at_def)
next
  case (Cons x xs)
  obtain m where m: "wheap s x = Some m" using assms(2) Cons by (auto simp: links_def dest: spec [of _ 0])
  define s' where "s' = s\<lparr>wheap := (wheap s)(w \<mapsto> n\<lparr>wnext := Some x\<rparr>, x \<mapsto> m\<lparr>wprev := Some w\<rparr>), ww_list := Some w\<rparr>"
  have xw: "x \<noteq> w" using assms(1) Cons by auto
  have "link_front w s = Inr s'"
    using assms Cons m xw by (simp add: link_front_def ww_put_def ww_get_def ends_def s'_def)
  moreover have "links s' (w # ws)"
    by (rule links_cons [OF assms(2,1), of _ "n\<lparr>wnext := Some x\<rparr>"])
      (use assms Cons m xw in \<open>auto simp: s'_def\<close>)
  ultimately show thesis
    using assms Cons m by (intro that [of s']) (auto simp: s'_def ends_def info_at_def)
qed

lemma add_history_ok:
  fixes e :: wwenv
  assumes inv: "ww_inv live s ws" and hist: "length ws \<le> hist" "2 \<le> hist" "fresh \<notin> set ws"
    and h: "hash_whowas_name (ww_cli_name cl) = Inr h" and live: "still_on \<Longrightarrow> cptr \<in> live"
  defines "new \<equiv> (copy_client e cl (winfo blank))\<lparr>hashv := h, online := if still_on then Some cptr else None\<rparr>"
  obtains s' w where "add_history e hist fresh cptr cl still_on s = Inr s'"
    "ww_inv live s' (w # take (hist - 1) ws)"
    "history s' (w # take (hist - 1) ws) = take hist (new # history s ws)"
proof -
  let ?ws = "take (hist - 1) ws"
  obtain s1 w where al: "whowas_alloc hist fresh s = Inr (Some w, s1)" and sp: "ww_spare live s1 w ?ws"
    and info1: "\<And>v. v \<in> set ?ws \<Longrightarrow> info_at s1 v = info_at s v"
    using whowas_alloc_spare [OF inv hist] by blast
  have w: "w \<notin> set ?ws" using sp by (simp add: ww_spare_def)
  define s3 where "s3 = s1\<lparr>wheap := (wheap s1)(w \<mapsto> blank\<lparr>winfo := new\<rparr>),
      cli_whowas := (if still_on then (cli_whowas s1)(cptr := w # cli_whowas s1 cptr) else cli_whowas s1)\<rparr>"
  have info3: "info_at s3 v = (if v = w then new else info_at s1 v)" for v
    by (simp add: s3_def info_at_def)
  have l1: "links s1 ?ws" using sp by (simp add: ww_spare_def)
  have "links s3 ?ws" by (rule links_cong [OF l1]) (use w in \<open>auto simp: s3_def\<close>)
  moreover have "ends s3 ?ws" using sp by (simp add: ww_spare_def ends_def s3_def)
  moreover have "distinct (w # ?ws)" using sp by (simp add: ww_spare_def)
  moreover have "wheap s3 w = Some (blank\<lparr>winfo := new\<rparr>)" by (simp add: s3_def)
  ultimately obtain s4 where s4: "link_front w s3 = Inr s4" "links s4 (w # ?ws)" "ends s4 (w # ?ws)"
    "dom (wheap s4) = dom (wheap s3)" "\<And>v. info_at s4 v = info_at s3 v" "ww_alloc s4 = ww_alloc s3"
    "whowashash s4 = whowashash s3" "cli_whowas s4 = cli_whowas s3"
    using link_front_ok [of w ?ws s3 "blank\<lparr>winfo := new\<rparr>" thesis] by (simp add: blank_def)
  define s' where "s' = s4\<lparr>whowashash := (whowashash s4)(h := w # whowashash s4 h)\<rparr>"
  have info: "info_at s' v = (if v = w then new else info_at s1 v)" for v
    using s4(5) info3 by (simp add: s'_def info_at_def)
  have run: "add_history e hist fresh cptr cl still_on s = Inr s'"
    using al h sp s4(1)
    by (cases still_on) (simp_all add: add_history_def ww_put_def ww_get_def ww_spare_def s3_def new_def s'_def Let_def)
  have chains: "chains live s' (w # ?ws)"
  proof -
    have f: "filter (\<lambda>v. P (info_at s' v)) ?ws = filter (\<lambda>v. P (info_at s1 v)) ?ws" for P
      using w info by (auto intro: filter_cong)
    have c1: "chains live s1 ?ws" using sp by (simp add: ww_spare_def)
    have fields: "whowashash s' = (whowashash s1)(h := w # whowashash s1 h)" "hashv new = h"
        "cli_whowas s' = (if still_on then (cli_whowas s1)(cptr := w # cli_whowas s1 cptr) else cli_whowas s1)"
        "online new = (if still_on then Some cptr else None)"
      using s4(7,8) by (simp_all add: s'_def s3_def new_def)
    have "whowashash s' k = filter (\<lambda>v. hashv (info_at s' v) = k) (w # ?ws)" for k
      using c1 f [of "\<lambda>i. hashv i = k"] info [of w] fields(1,2) by (simp add: chains_def)
    moreover have "cli_whowas s' c = filter (\<lambda>v. online (info_at s' v) = Some c) (w # ?ws)" if "c \<in> live" for c
      using c1 f [of "\<lambda>i. online i = Some c"] info [of w] fields(3,4) that by (simp add: chains_def)
    moreover have "c \<in> live" if "v \<in> set (w # ?ws)" "online (info_at s' v) = Some c" for v c
      using c1 that info [of v] live by (auto simp: chains_def new_def split: if_splits)
    ultimately show ?thesis by (auto simp: chains_def)
  qed
  have "ww_inv live s' (w # ?ws)"
  proof -
    have "links s' (w # ?ws)" by (rule links_cong [OF s4(2)]) (simp_all add: s'_def)
    moreover have "ends s' (w # ?ws)" using s4(3) by (simp add: ends_def s'_def)
    ultimately show ?thesis
      using chains sp s4(4,6) info h w
      by (auto simp: copy_client_def ww_inv_def ww_spare_def s'_def s3_def new_def)
  qed
  moreover have "history s' (w # ?ws) = take hist (new # history s ws)"
    using info info1 w hist(2) by (cases hist) (auto simp: history_def take_map)
  ultimately show thesis using that run by blast
qed

section \<open>Looking up, signing off, counting\<close>

lemma hash_whowas_loop_lower:
  "map ToLower a = map ToLower b \<Longrightarrow> hash_whowas_loop a h h2 = hash_whowas_loop b h h2"
proof (induction a arbitrary: b h h2)
  case (Cons c a)
  then show ?case by (cases b) (auto simp: Let_def)
qed simp

lemma hash_whowas_name_lower: "map ToLower a = map ToLower b \<Longrightarrow> hash_whowas_name a = hash_whowas_name b"
  by (simp add: hash_whowas_name_def hash_whowas_loop_lower [of a b])

lemma hash_whowas_loop_defined: "name \<noteq> [] \<Longrightarrow> \<exists>p. hash_whowas_loop name h h2 = Inr p"
  by (induction name arbitrary: h h2) (auto simp: Let_def)

lemma hash_whowas_name_defined: "name \<noteq> [] \<Longrightarrow> \<exists>h. hash_whowas_name name = Inr h"
  using hash_whowas_loop_defined [of name 0 0] by (auto simp: hash_whowas_name_def)

lemma links_heap: "links s ws \<Longrightarrow> w \<in> set ws \<Longrightarrow> \<exists>n. wheap s w = Some n \<and> winfo n = info_at s w"
  by (auto simp: links_def in_set_conv_nth info_at_def)

lemma get_loop_find:
  assumes "\<forall>w \<in> set ws. \<exists>n. wheap s w = Some n \<and> winfo n = info_at s w"
  shows "get_loop s nick limit ws =
    Inr (case List.find (\<lambda>i. ircd_strcmp nick (wwname i) = 0 \<and> limit < logoff i) (map (info_at s) ws) of
           None \<Rightarrow> None | Some i \<Rightarrow> online i)"
  using assms by (induction ws) (auto simp: ww_get_def)

lemma find_map_filter:
  "(\<And>x. x \<in> set xs \<Longrightarrow> P (f x) \<Longrightarrow> Q x) \<Longrightarrow> List.find P (map f (filter Q xs)) = List.find P (map f xs)"
  by (induction xs) auto

lemma get_history_ok:
  assumes inv: "ww_inv live s ws" and nick: "nick \<noteq> []" "cstring nick"
    and names: "\<forall>w \<in> set ws. cstring (wwname (info_at s w))"
  shows "get_history now s nick limit =
    Inr (case List.find (\<lambda>i. ircd_strcmp nick (wwname i) = 0 \<and> now - limit < logoff i) (history s ws) of
           None \<Rightarrow> None | Some i \<Rightarrow> online i)"
proof -
  obtain h where h: "hash_whowas_name nick = Inr h" using hash_whowas_name_defined [OF nick(1)] by blast
  let ?ch = "filter (\<lambda>w. hashv (info_at s w) = h) ws"
  let ?P = "\<lambda>i. ircd_strcmp nick (wwname i) = 0 \<and> now - limit < logoff i"
  have same: "hashv (info_at s w) = h" if "w \<in> set ws" "?P (info_at s w)" for w
  proof -
    have "map ToLower nick = map ToLower (wwname (info_at s w))"
      using that names nick(2) ircd_strcmp_eq_0 by blast
    then have "hash_whowas_name (wwname (info_at s w)) = Inr h" using hash_whowas_name_lower h by metis
    then show ?thesis using inv that(1) by (auto simp: ww_inv_def)
  qed
  have chain: "whowashash s h = ?ch" using inv by (simp add: ww_inv_def chains_def)
  have "links s ws" using inv by (simp add: ww_inv_def)
  then have "\<forall>w \<in> set ?ch. \<exists>n. wheap s w = Some n \<and> winfo n = info_at s w" by (auto dest: links_heap)
  from get_loop_find [OF this, of nick "now - limit"]
  have "get_history now s nick limit = Inr (case List.find ?P (map (info_at s) ?ch) of None \<Rightarrow> None | Some i \<Rightarrow> online i)"
    by (simp add: get_history_def h chain)
  also have "List.find ?P (map (info_at s) ?ch) = List.find ?P (map (info_at s) ws)"
    by (rule find_map_filter) (rule same)
  finally show ?thesis by (simp add: history_def)
qed

definition set_off :: "Whowas \<Rightarrow> Whowas" where
  "set_off m = m\<lparr>winfo := (winfo m)\<lparr>online := None\<rparr>\<rparr>"

lemma off_loop_ok:
  "\<forall>w \<in> set ps. w \<in> dom (wheap s) \<Longrightarrow>
   off_loop ps s = Inr (s\<lparr>wheap := (\<lambda>v. if v \<in> set ps then map_option set_off (wheap s v) else wheap s v)\<rparr>)"
proof (induction ps arbitrary: s)
  case (Cons w ps)
  then obtain n where n: "wheap s w = Some n" by auto
  let ?s1 = "s\<lparr>wheap := (wheap s)(w \<mapsto> set_off n)\<rparr>"
  have idem: "set_off (set_off n) = set_off n" by (simp add: set_off_def)
  have heap: "(\<lambda>v. if v \<in> set ps then map_option set_off (wheap ?s1 v) else wheap ?s1 v)
      = (\<lambda>v. if v \<in> set (w # ps) then map_option set_off (wheap s v) else wheap s v)"
    using n idem by (auto simp: fun_eq_iff)
  have "off_loop (w # ps) s = off_loop ps ?s1"
    using n by (simp add: ww_put_def ww_get_def set_off_def)
  also have "\<dots> = Inr (?s1\<lparr>wheap := (\<lambda>v. if v \<in> set ps then map_option set_off (wheap ?s1 v) else wheap ?s1 v)\<rparr>)"
    using Cons.prems by (intro Cons.IH) auto
  also have "\<dots> = Inr (s\<lparr>wheap := (\<lambda>v. if v \<in> set (w # ps) then map_option set_off (wheap s v) else wheap s v)\<rparr>)"
    unfolding heap by simp
  finally show ?case .
qed simp

lemma off_history_ok:
  assumes inv: "ww_inv live s ws" and c: "c \<in> live"
  obtains s' where "off_history c s = Inr s'" "ww_inv (live - {c}) s' ws"
    "history s' ws = map (\<lambda>i. if online i = Some c then i\<lparr>online := None\<rparr> else i) (history s ws)"
proof -
  let ?ps = "filter (\<lambda>w. online (info_at s w) = Some c) ws"
  have ps: "cli_whowas s c = ?ps" using inv c by (simp add: ww_inv_def chains_def)
  have lk: "links s ws" and dom: "dom (wheap s) = set ws" using inv by (auto simp: ww_inv_def)
  have "\<forall>w \<in> set ?ps. w \<in> dom (wheap s)" using dom by auto
  note run0 = off_loop_ok [OF this]
  define s' where "s' = s\<lparr>wheap := (\<lambda>v. if v \<in> set ?ps then map_option set_off (wheap s v) else wheap s v)\<rparr>"
  have run: "off_loop ?ps s = Inr s'" unfolding s'_def by (rule run0)
  have heap: "wheap s' v = (if v \<in> set ?ps then map_option set_off (wheap s v) else wheap s v)" for v
    by (simp add: s'_def)
  have info: "info_at s' v = (if online (info_at s v) = Some c then (info_at s v)\<lparr>online := None\<rparr> else info_at s v)"
    if v: "v \<in> set ws" for v
  proof -
    obtain n where n: "wheap s v = Some n" "winfo n = info_at s v" using links_heap [OF lk v] by blast
    then show ?thesis
      using v heap [of v] by (cases "online (info_at s v) = Some c") (simp_all add: info_at_def set_off_def)
  qed
  have "links s' ws"
    by (rule links_cong [OF lk]) (auto simp: heap map_option.compositionality comp_def set_off_def)
  moreover have "ends s' ws" using inv by (simp add: ww_inv_def ends_def s'_def)
  moreover have "chains (live - {c}) s' ws"
  proof -
    have "filter (\<lambda>w. hashv (info_at s' w) = h) ws = filter (\<lambda>w. hashv (info_at s w) = h) ws" for h
      using info by (intro filter_cong) auto
    moreover have "filter (\<lambda>w. online (info_at s' w) = Some d) ws = filter (\<lambda>w. online (info_at s w) = Some d) ws"
      if "d \<noteq> c" for d
      using info that by (intro filter_cong) auto
    ultimately show ?thesis
      using inv info by (auto simp: ww_inv_def chains_def s'_def [THEN arg_cong [where f = whowashash]]
          s'_def [THEN arg_cong [where f = cli_whowas]] split: if_splits)
  qed
  moreover have "dom (wheap s') = dom (wheap s)" using heap by (auto split: if_splits)
  moreover have "ww_alloc s' = ww_alloc s" by (simp add: s'_def)
  ultimately have "ww_inv (live - {c}) s' ws"
    using inv info dom by (auto simp: ww_inv_def)
  then show thesis
    using that [of s'] run ps info by (simp add: off_history_def history_def)
qed

text \<open>Walking the list.\<close>

lemma count_loop_links:
  assumes lk: "links s ws" and "i \<le> length ws"
  shows "count_loop s (if i < length ws then Some (ws ! i) else None) t =
    Some (Inr (fold count_entry (map (info_at s) (drop i ws)) t))"
  using assms(2)
proof (induction "length ws - i" arbitrary: i t)
  case 0
  then show ?case by (simp add: count_loop.simps)
next
  case (Suc k)
  then have i: "i < length ws" by simp
  then obtain n where n: "wheap s (ws ! i) = Some n" "wnext n = (if Suc i < length ws then Some (ws ! Suc i) else None)"
    using lk by (auto simp: links_def)
  have info: "info_at s (ws ! i) = winfo n" using n by (simp add: info_at_def)
  have "count_loop s (Some (ws ! i)) t = count_loop s (wnext n) (count_entry (winfo n) t)"
    using n by (simp add: count_loop.simps [of s "Some (ws ! i)"] ww_get_def)
  also have "\<dots> = Some (Inr (fold count_entry (map (info_at s) (drop (Suc i) ws)) (count_entry (winfo n) t)))"
    using Suc i n(2) by simp
  finally show ?case using i info by (simp add: Cons_nth_drop_Suc [symmetric])
qed

lemma count_whowas_memory_ok:
  assumes "ww_inv live s ws"
  shows "count_whowas_memory s = Some (Inr (fold count_entry (history s ws) (0, 0, 0, 0)))"
  using count_loop_links [of s ws 0 "(0, 0, 0, 0)"] assms
  by (cases ws) (auto simp: ww_inv_def ends_def count_whowas_memory_def history_def)

text \<open>A list of one record, when it is reused: it becomes its own successor.\<close>

lemma count_loop_cycle:
  assumes "wheap s w = Some n" "wnext n = Some w"
  shows "count_loop s (Some w) t = None"
proof -
  have "count_loop s tmp t = Some r \<Longrightarrow> s = s0 \<and> tmp = Some w \<longrightarrow> wheap s0 w \<noteq> Some n" for s tmp t r s0
  proof (erule count_loop.raw_induct [where P = "\<lambda>s tmp t r. s = s0 \<and> tmp = Some w \<longrightarrow> wheap s0 w \<noteq> Some n", rotated])
    fix f s tmp t r
    assume IH: "\<And>s tmp t r. f s tmp t = Some r \<Longrightarrow> s = s0 \<and> tmp = Some w \<longrightarrow> wheap s0 w \<noteq> Some n"
      and eq: "(case tmp of None \<Rightarrow> Some (Inr t)
        | Some w \<Rightarrow> (case ww_get s w of Inl e \<Rightarrow> Some (Inl e)
            | Inr n \<Rightarrow> f s (wnext n) (count_entry (winfo n) t))) = Some r"
    show "s = s0 \<and> tmp = Some w \<longrightarrow> wheap s0 w \<noteq> Some n"
      using eq IH [of s0 "Some w" "count_entry (winfo n) t" r] assms(2) by (auto simp: ww_get_def)
  qed
  then show ?thesis using assms(1) by (cases "count_loop s (Some w) t") auto
qed

section \<open>Trimming\<close>

lemma whowas_free_tail:
  assumes inv: "ww_inv live s (ws @ [w])" and "ws \<noteq> []"
  obtains s' where "whowas_free (Some w) s = Inr s'" "ww_inv live s' ws" "history s' ws = history s ws"
proof -
  obtain s1 where s1: "whowas_clean (Some w) s = Inr (Some w, s1)" "links s1 ws" "ends s1 ws" "chains live s1 ws"
    "ww_alloc s1 = ww_alloc s" "wheap s1 w = wheap s w" "dom (wheap s1) = dom (wheap s)" "\<And>v. info_at s1 v = info_at s v"
    using clean_tail [OF assms] by blast
  define s' where "s' = s1\<lparr>wheap := (wheap s1)(w := None), ww_alloc := ww_alloc s1 - 1\<rparr>"
  have w: "w \<notin> set ws" using inv by (simp add: ww_inv_def)
  have info: "info_at s' v = info_at s v" if "v \<in> set ws" for v
    using that w s1(8) [of v] by (auto simp: s'_def info_at_def)
  have "links s' ws" by (rule links_cong [OF s1(2)]) (use w in \<open>auto simp: s'_def\<close>)
  moreover have "chains live s' ws"
    using s1(4,8) info by (auto simp: chains_def s'_def cong: filter_cong)
  moreover have "ends s' ws" using s1(3) by (simp add: ends_def s'_def)
  moreover have "dom (wheap s') = set ws" using s1(7) inv w by (auto simp: s'_def ww_inv_def)
  moreover have "ww_alloc s' = length ws" using s1(5) inv by (simp add: s'_def ww_inv_def)
  ultimately have "ww_inv live s' ws" using inv info by (auto simp: ww_inv_def)
  moreover have "whowas_free (Some w) s = Inr s'" using s1(1) by (simp add: whowas_free_def s'_def)
  ultimately show thesis using that [of s'] info by (simp add: history_def)
qed

lemma whowas_realloc_ok:
  assumes "ww_inv live s ws" "1 \<le> hist"
  shows "\<exists>s'. whowas_realloc hist s = Inr s' \<and> ww_inv live s' (take hist ws)
    \<and> history s' (take hist ws) = take hist (history s ws)"
  using assms
proof (induction ws arbitrary: s rule: rev_induct)
  case Nil
  then show ?case by (simp add: whowas_realloc.simps [of hist s] ww_inv_def history_def)
next
  case (snoc w ws)
  have alloc: "ww_alloc s = Suc (length ws)" and tail: "ww_tail s = Some w"
    using snoc.prems(1) by (simp_all add: ww_inv_def ends_def)
  show ?case
  proof (cases "hist < ww_alloc s")
    case False
    then show ?thesis
      using snoc.prems(1) alloc by (simp add: whowas_realloc.simps [of hist s] history_def)
  next
    case True
    then have "ws \<noteq> []" using snoc.prems(2) alloc by auto
    then obtain s1 where s1: "whowas_free (Some w) s = Inr s1" "ww_inv live s1 ws" "history s1 ws = history s ws"
      using whowas_free_tail [OF snoc.prems(1)] by blast
    have "whowas_realloc hist s = whowas_realloc hist s1"
      using True tail s1(1) by (simp add: whowas_realloc.simps [of hist s])
    moreover have "take hist (ws @ [w]) = take hist ws" "take hist (history s (ws @ [w])) = take hist (history s ws)"
      using True alloc by (simp_all add: history_def)
    ultimately show ?thesis using snoc.IH [OF s1(2) snoc.prems(2)] s1(3) by simp
  qed
qed

section \<open>Theorems\<close>

definition example_info :: "string \<Rightarrow> wwinfo" where
  "example_info nick = \<lparr>hashv = 0, wwname = nick, username = ''u'', hostname = ''h'', realhost = None,
     servername = ''s'', realname = ''r'', away = None, logoff = 50, online = None\<rparr>"

definition example_wwclient :: "string \<Rightarrow> wwclient" where
  "example_wwclient nick = \<lparr>cli_status = STAT_USER, cli_flags = [], cli_since = 0, cli_lasttime = 0, cli_error = 0,
     ww_cli_name = nick, ww_cli_info = ''r'', ww_user_username = ''u'', ww_user_host = ''h'',
     ww_user_realhost = ''h'', ww_user_server = ''s'', ww_user_away = None\<rparr>"

definition example_wwenv :: wwenv where
  "example_wwenv = \<lparr>ww_HOST_HIDING_STYLE = 1, ww_CurrentTime = 50\<rparr>"

definition empty_ww :: wwstate where
  "empty_ww = \<lparr>wheap = (\<lambda>_. None), ww_list = None, ww_tail = None, ww_alloc = 0,
     whowashash = (\<lambda>_. []), cli_whowas = (\<lambda>_. [])\<rparr>"

lemma empty_ww_inv: "ww_inv live empty_ww []"
  by (simp add: ww_inv_def links_def ends_def chains_def empty_ww_def)

lemma example_hash: "hash_whowas_name ''Al'' = Inr 116"
  by (simp add: hash_whowas_name_def chattr_simps)

text \<open>
  C23: adding to the history: with a history length of at least two the pointer-linked list refines
  the list of records newest first, cut to the history length: the new record is in front, the
  oldest one is reused when the history is full, and list, hash chains and client chains stay
  consistent. The record holds the name, user, host, server, information and away texts of the
  client, the current time, and its real host exactly when the host it shows is a hidden one.
\<close>

theorem add_history_refines:
  assumes "ww_inv live s ws" "length ws \<le> hist" "2 \<le> hist" "fresh \<notin> set ws"
    and "hash_whowas_name (ww_cli_name cl) = Inr h" "still_on \<Longrightarrow> cptr \<in> live"
  shows "\<exists>s' ws'. add_history e hist fresh cptr cl still_on s = Inr s' \<and> ww_inv live s' ws'
    \<and> history s' ws' = take hist
        (\<lparr>hashv = h, wwname = ww_cli_name cl, username = ww_user_username cl, hostname = ww_user_host cl,
          realhost = (if IsHiddenHost cl \<and> (ww_HOST_HIDING_STYLE e = 1 \<longrightarrow> IsAccount cl \<or> HasFakeHost cl)
                      then Some (ww_user_realhost cl) else None),
          servername = ww_user_server cl, realname = ww_cli_info cl, away = ww_user_away cl,
          logoff = ww_CurrentTime e, online = (if still_on then Some cptr else None)\<rparr> # history s ws)"
proof -
  have "(copy_client e cl (winfo blank))\<lparr>hashv := h, online := if still_on then Some cptr else None\<rparr> =
     \<lparr>hashv = h, wwname = ww_cli_name cl, username = ww_user_username cl, hostname = ww_user_host cl,
      realhost = (if IsHiddenHost cl \<and> (ww_HOST_HIDING_STYLE e = 1 \<longrightarrow> IsAccount cl \<or> HasFakeHost cl)
                  then Some (ww_user_realhost cl) else None),
      servername = ww_user_server cl, realname = ww_cli_info cl, away = ww_user_away cl,
      logoff = ww_CurrentTime e, online = (if still_on then Some cptr else None)\<rparr>"
    by (auto simp: copy_client_def blank_def HasHiddenHost_def split: option.splits)
  then show ?thesis using add_history_ok [where e = e, OF assms] by metis
qed

theorem add_history_refines_witness:
  "\<exists>s' ws'. add_history example_wwenv 2 7 5 (example_wwclient ''Al'') True empty_ww = Inr s' \<and> ww_inv {5} s' ws'
    \<and> history s' ws' = [(example_info ''Al'')\<lparr>hashv := 116, online := Some 5\<rparr>]"
  using add_history_refines [OF empty_ww_inv, of 2 7 "example_wwclient ''Al''" 116 True 5 "{5}" example_wwenv] example_hash
  by (simp add: example_info_def example_wwclient_def example_wwenv_def history_def IsHiddenHost_def HasFlag_def)

text \<open>
  Nick chasing: \<open>get_history\<close> returns the client of the youngest record that has the nick, up to
  case, and is recent enough, although it searches one hash chain only.
\<close>

theorem get_history_youngest:
  assumes "ww_inv live s ws" "nick \<noteq> []" "cstring nick" "\<forall>w \<in> set ws. cstring (wwname (info_at s w))"
  shows "get_history now s nick limit =
    Inr (case List.find (\<lambda>i. ircd_strcmp nick (wwname i) = 0 \<and> now - limit < logoff i) (history s ws) of
           None \<Rightarrow> None | Some i \<Rightarrow> online i)"
  by (rule get_history_ok [OF assms])

theorem get_history_youngest_witness:
  "get_history 60 empty_ww ''Al'' 30 = Inr None"
  using get_history_youngest [OF empty_ww_inv, of "''Al''" 60 30] by (simp add: history_def)

text \<open>
  Signing off: every record that pointed to the client no longer does, all others are
  unchanged, and the structure stays consistent for the remaining clients.
\<close>

theorem off_history_clears:
  assumes "ww_inv live s ws" "c \<in> live"
  shows "\<exists>s'. off_history c s = Inr s' \<and> ww_inv (live - {c}) s' ws
    \<and> history s' ws = map (\<lambda>i. if online i = Some c then i\<lparr>online := None\<rparr> else i) (history s ws)"
  by (rule off_history_ok [OF assms]) blast

theorem off_history_clears_witness:
  "\<exists>s'. off_history 5 empty_ww = Inr s' \<and> ww_inv {} s' []"
  using off_history_clears [OF empty_ww_inv, of 5 "{5}"] by auto

text \<open>
  Lowering the history length to at least one removes the oldest records only, and the memory
  count visits every record once and ends.
\<close>

theorem whowas_realloc_trims:
  assumes "ww_inv live s ws" "1 \<le> hist"
  shows "\<exists>s'. whowas_realloc hist s = Inr s' \<and> ww_inv live s' (take hist ws)
    \<and> history s' (take hist ws) = take hist (history s ws)
    \<and> count_whowas_memory s' = Some (Inr (fold count_entry (take hist (history s ws)) (0, 0, 0, 0)))"
  using whowas_realloc_ok [OF assms] count_whowas_memory_ok by metis

theorem whowas_realloc_trims_witness:
  "\<exists>s'. whowas_realloc 3 empty_ww = Inr s' \<and> count_whowas_memory s' = Some (Inr (0, 0, 0, 0))"
  using whowas_realloc_trims [OF empty_ww_inv, of 3] by (auto simp: history_def)

text \<open>
  A history length of one: adding to a history of one record makes the record its own
  successor, because \<open>whowas_clean\<close> leaves \<open>ww_list\<close> pointing at it; the memory count then never
  ends. After the length was lowered to zero, \<open>ww_list\<close> points to freed memory and the next
  addition writes there.
\<close>

theorem whowas_head_not_reset:
  assumes inv: "ww_inv live s [w]" and h: "hash_whowas_name (ww_cli_name cl) = Inr h"
  shows "(\<exists>s'. add_history e 1 fresh cptr cl still_on s = Inr s' \<and> count_whowas_memory s' = None)
    \<and> (\<exists>s'. whowas_realloc 0 s = Inr s' \<and> (fresh \<noteq> w \<longrightarrow> add_history e 1 fresh cptr cl still_on s' = Inl OutOfBounds))"
proof -
  obtain n where n: "wheap s w = Some n" "wnext n = None" "wprev n = None"
    and s: "ww_list s = Some w" "ww_tail s = Some w" "ww_alloc s = 1"
    using inv by (auto simp: ww_inv_def links_def ends_def)
  define new where "new = blank\<lparr>winfo := (copy_client e cl (winfo blank))\<lparr>hashv := h, online := if still_on then Some cptr else None\<rparr>, wnext := Some w, wprev := Some w\<rparr>"
  have "\<exists>s'. add_history e 1 fresh cptr cl still_on s = Inr s' \<and> wheap s' w = Some new \<and> ww_list s' = Some w"
    using n s h
    by (cases "online (winfo n)"; cases still_on)
      (auto simp: add_history_def whowas_alloc_def whowas_clean_def whowas_init_def ww_put_def ww_get_def
        link_front_def new_def blank_def Let_def)
  moreover have "wnext new = Some w" by (simp add: new_def)
  ultimately have "\<exists>s'. add_history e 1 fresh cptr cl still_on s = Inr s' \<and> count_whowas_memory s' = None"
    using count_loop_cycle unfolding count_whowas_memory_def by metis
  moreover obtain s' where s': "whowas_realloc 0 s = Inr s'" "ww_alloc s' = 0" "ww_list s' = Some w" "wheap s' w = None"
    using n s
    by (cases "online (winfo n)")
      (auto simp: whowas_realloc.simps whowas_free_def whowas_clean_def ww_put_def ww_get_def Let_def)
  moreover have "add_history e 1 fresh cptr cl still_on s' = Inl OutOfBounds" if "fresh \<noteq> w"
    using that h s'(2-4)
    by (cases still_on) (simp_all add: add_history_def whowas_alloc_def whowas_init_def ww_put_def ww_get_def
        link_front_def Let_def)
  ultimately show ?thesis by blast
qed

definition one_ww :: wwstate where
  "one_ww = \<lparr>wheap = [7 \<mapsto> \<lparr>winfo = (example_info ''Al'')\<lparr>hashv := 116\<rparr>, wnext = None, wprev = None\<rparr>],
     ww_list = Some 7, ww_tail = Some 7, ww_alloc = 1, whowashash = (\<lambda>_. [])(116 := [7]), cli_whowas = (\<lambda>_. [])\<rparr>"

lemma one_ww_inv: "ww_inv {} one_ww [7]"
  using example_hash
  by (auto simp: ww_inv_def links_def ends_def chains_def one_ww_def info_at_def example_info_def)

theorem whowas_head_not_reset_witness:
  "(\<exists>s'. add_history example_wwenv 1 8 5 (example_wwclient ''Al'') False one_ww = Inr s' \<and> count_whowas_memory s' = None)
    \<and> (\<exists>s'. whowas_realloc 0 one_ww = Inr s' \<and> add_history example_wwenv 1 8 5 (example_wwclient ''Al'') False s' = Inl OutOfBounds)"
  using whowas_head_not_reset [OF one_ww_inv, of "example_wwclient ''Al''" 116 example_wwenv 8 5 False] example_hash
  by (simp add: example_wwclient_def)

end
