(* ===== verification/Crule.thy ===== *)
theory Crule
  imports Match Ircd_String Client
begin

text \<open>
  Connection rules (\<open>ircd/crule.c\<close>): the scanner, the recursive-descent parser that builds rule
  trees, their evaluation, their release and the printer of the stand-alone test parser.

  The parser functions return the error code, what they stored through their root pointer, the
  next token and the unread text. A pointer field is \<open>Null\<close>, \<open>Garbage\<close> (allocated by
  \<open>MyMalloc\<close> and not written) or points to a node. Writing a fourth argument of a function into
  \<open>arg[3]\<close> of a node is the fault \<open>OutOfBounds\<close>.

  The three parsing loops call each other and are given fuel; \<open>crule_parse\<close> passes three units
  for each character of the rule and three more, and \<open>crule_parse_returns\<close> shows that this is enough.
\<close>

section \<open>Data\<close>

definition CR_MAXARGLEN :: nat where "CR_MAXARGLEN = 80"
definition CR_MAXARGS :: nat where "CR_MAXARGS = 3"

datatype crule_token =
  CR_UNKNOWN | CR_END | CR_AND | CR_OR | CR_NOT | CR_OPENPAREN | CR_CLOSEPAREN | CR_COMMA | CR_WORD

datatype crule_errcode =
  CR_NOERR | CR_UNEXPCTTOK | CR_UNKNWTOK | CR_EXPCTAND | CR_EXPCTOR | CR_EXPCTPRIM | CR_EXPCTOPEN
  | CR_EXPCTCLOSE | CR_UNKNWFUNC | CR_ARGMISMAT

text \<open>
  A node is known by its function pointer. \<open>Func\<close> carries the function of the rule (\<open>None\<close> while
  its arguments are parsed) and the first \<open>numargs\<close> arguments; \<open>AndOr\<close> carries \<open>arg[0]\<close>,
  \<open>arg[1]\<close> and whether \<open>arg[2]\<close> asks for the disjunction.
\<close>

datatype crule_func = Connected | Directcon | Via | Directop

datatype CRuleNode =
    Func "crule_func option" "string list"
  | AndOr arg arg bool
  | NotNode arg
and arg = Null | Garbage | Node CRuleNode

definition crule_funclist :: "(string \<times> nat \<times> crule_func option) list" where
  "crule_funclist =
     [(''connected'', 1, Some Connected), (''directcon'', 1, Some Directcon), (''via'', 2, Some Via),
      (''directop'', 0, Some Directop), ([], 0, None)]"

section \<open>Scanner\<close>

definition word_mark :: "char \<Rightarrow> bool" where
  "word_mark c \<longleftrightarrow> c = CHR ''*'' \<or> c = CHR ''?'' \<or> c = CHR ''.'' \<or> c = CHR ''-''"

definition word_char :: "char \<Rightarrow> bool" where
  "word_char c \<longleftrightarrow> IsAlnum c \<or> word_mark c"

fun gettoken_loop :: "char \<Rightarrow> string \<Rightarrow> crule_errcode \<times> crule_token \<times> string" where
  "gettoken_loop pending [] = (CR_NOERR, CR_END, [])"
| "gettoken_loop pending (c # s) =
     (if c = CHR '' '' \<or> c = CHR 0x09 then gettoken_loop pending s
      else if c = CHR ''&'' then
        (if pending = NUL then gettoken_loop (CHR ''&'') s
         else if pending = CHR ''&'' then (CR_NOERR, CR_AND, s)
         else (CR_UNKNWTOK, CR_UNKNOWN, s))
      else if c = CHR ''|'' then
        (if pending = NUL then gettoken_loop (CHR ''|'') s
         else if pending = CHR ''|'' then (CR_NOERR, CR_OR, s)
         else (CR_UNKNWTOK, CR_UNKNOWN, s))
      else if c = CHR ''!'' then (CR_NOERR, CR_NOT, s)
      else if c = CHR ''('' then (CR_NOERR, CR_OPENPAREN, s)
      else if c = CHR '')'' then (CR_NOERR, CR_CLOSEPAREN, s)
      else if c = CHR '','' then (CR_NOERR, CR_COMMA, s)
      else if c = CHR '':'' then (CR_NOERR, CR_END, s)
      else if IsAlpha c \<or> word_mark c then (CR_NOERR, CR_WORD, c # s)
      else (CR_UNKNWTOK, CR_UNKNOWN, c # s))"

definition crule_gettoken :: "string \<Rightarrow> crule_errcode \<times> crule_token \<times> string" where
  "crule_gettoken s = gettoken_loop NUL s"

fun crule_getword :: "nat \<Rightarrow> string \<Rightarrow> string \<times> string" where
  "crule_getword 0 s = ([], s)"
| "crule_getword (Suc maxlen) [] = ([], [])"
| "crule_getword (Suc maxlen) (c # s) =
     (if word_char c then (let (word, rest) = crule_getword maxlen s in (c # word, rest)) else ([], c # s))"

text \<open>Characters left to read, one more when the current token was taken off the text.\<close>

fun pending_chars :: "crule_token \<Rightarrow> string \<Rightarrow> nat" where
  "pending_chars tok s = length s + (if tok = CR_END \<or> tok = CR_WORD then 0 else 1)"

lemma gettoken_loop_shrinks:
  "gettoken_loop p s = (CR_NOERR, tok, s') \<Longrightarrow> pending_chars tok s' \<le> length s"
  by (induction p s rule: gettoken_loop.induct) (auto split: if_splits)

lemma gettoken_loop_length: "gettoken_loop p s = (e, tok, s') \<Longrightarrow> length s' \<le> length s"
  by (induction p s rule: gettoken_loop.induct) (auto split: if_splits)

lemma gettoken_loop_word:
  "gettoken_loop p s = (e, CR_WORD, s') \<Longrightarrow> \<exists>c r. s' = c # r \<and> (IsAlpha c \<or> word_mark c) \<and> c \<noteq> CHR ''|''"
  by (induction p s rule: gettoken_loop.induct) (auto split: if_splits)

lemmas gettoken_shrinks = gettoken_loop_shrinks [of NUL, folded crule_gettoken_def]
lemmas gettoken_length = gettoken_loop_length [of NUL, folded crule_gettoken_def]
lemmas gettoken_word = gettoken_loop_word [of NUL, folded crule_gettoken_def]

lemma getword_length: "crule_getword n s = (w, r) \<Longrightarrow> length r \<le> length s"
  by (induction n s arbitrary: w r rule: crule_getword.induct) (auto split: if_splits prod.splits)

lemma getword_progress:
  "crule_getword n s = (w, r) \<Longrightarrow> 0 < n \<Longrightarrow> s \<noteq> [] \<Longrightarrow> word_char (hd s) \<Longrightarrow> length r < length s"
  by (cases n; cases s) (auto split: prod.splits dest: getword_length)

lemma getword_idle: "crule_getword n s = (w, r) \<Longrightarrow> length r < length s \<or> r = s"
  by (induction n s arbitrary: w r rule: crule_getword.induct) (auto split: if_splits prod.splits)

section \<open>Parser\<close>

text \<open>
  The argument list: \<open>args\<close> are the arguments stored so far, \<open>currarg\<close> and \<open>arglen\<close> the one
  being collected.
\<close>

fun arg_measure :: "crule_token \<times> string \<Rightarrow> nat" where
  "arg_measure (tok, s) =
     2 * length s + (case tok of CR_WORD \<Rightarrow> (if s \<noteq> [] \<and> word_char (hd s) then 0 else 1)
                     | CR_END \<Rightarrow> 0 | _ \<Rightarrow> 1)"

lemma arg_measure_gettoken:
  assumes "crule_gettoken s = (CR_NOERR, tok, s')"
  shows "arg_measure (tok, s') \<le> 2 * length s"
  using gettoken_shrinks [OF assms] gettoken_word [of s CR_NOERR s'] assms
  by (cases tok) (auto simp: word_char_def IsAlnum_iff)

lemma arg_measure_word:
  assumes "crule_getword (CR_MAXARGLEN - Suc 0) s = (w, s1)" "crule_gettoken s1 = (CR_NOERR, tok, s')"
  shows "arg_measure (tok, s') < arg_measure (CR_WORD, s)"
proof -
  have "arg_measure (tok, s') \<le> 2 * length s1" by (rule arg_measure_gettoken [OF assms(2)])
  moreover have "length s1 < length s \<or> \<not> (s \<noteq> [] \<and> word_char (hd s))"
    using getword_progress [OF assms(1)] by (auto simp: CR_MAXARGLEN_def)
  moreover have "length s1 \<le> length s" by (rule getword_length [OF assms(1)])
  ultimately show ?thesis by (auto split: if_splits)
qed

declare arg_measure.simps [simp del]

definition store_arg :: "string list \<Rightarrow> string \<Rightarrow> string list res" where
  "store_arg args currarg =
     (if currarg = [] then Inr args
      else if length args < CR_MAXARGS then Inr (args @ [currarg]) else Inl OutOfBounds)"

definition append_word :: "string \<Rightarrow> nat \<Rightarrow> string \<Rightarrow> string \<times> nat" where
  "append_word currarg arglen word =
     (if currarg \<noteq> [] then
        (if arglen + length word < CR_MAXARGLEN - 1
         then (currarg @ '' '' @ word, arglen + length word + 1) else (currarg, arglen))
      else (word, length word))"

function crule_parsearglist :: "string list \<Rightarrow> string \<Rightarrow> nat \<Rightarrow> crule_token \<Rightarrow> string
    \<Rightarrow> (crule_errcode \<times> string list \<times> crule_token \<times> string) res" where
  "crule_parsearglist args currarg arglen tok s =
     (if tok = CR_WORD then
        (let (word, s1) = crule_getword (CR_MAXARGLEN - 1) s;
             (currarg', arglen') = append_word currarg arglen word;
             (err, tok', s') = crule_gettoken s1
         in if err \<noteq> CR_NOERR then Inr (err, args, tok', s')
            else crule_parsearglist args currarg' arglen' tok' s')
      else res_bind (store_arg args (collapse currarg)) (\<lambda>args'.
        if tok \<noteq> CR_COMMA then Inr (CR_NOERR, args', tok, s)
        else (let (err, tok', s') = crule_gettoken s
              in if err \<noteq> CR_NOERR then Inr (err, args', tok', s')
                 else crule_parsearglist args' [] arglen tok' s')))"
  by pat_completeness auto
termination
proof (relation "measure (\<lambda>(args, currarg, arglen, tok, s). arg_measure (tok, s))", goal_cases)
  case (2 args currarg arglen tok s x word s1 xa currarg' arglen' xb err y tok' s')
  then have "crule_gettoken s1 = (CR_NOERR, tok', s')" by simp
  then show ?case using arg_measure_word [of s word s1 tok' s'] 2 by simp
next
  case (3 args currarg arglen tok s args' x err y tok' s')
  then have "crule_gettoken s = (CR_NOERR, tok', s')" by simp
  then have "arg_measure (tok', s') \<le> 2 * length s" by (rule arg_measure_gettoken)
  then show ?case using 3 by (simp add: arg_measure.simps(1) [of CR_COMMA])
qed simp

declare crule_parsearglist.simps [simp del]

text \<open>The search of the function table stops at the entry of that name or at the end mark.\<close>

fun funclist_search :: "(string \<times> nat \<times> crule_func option) list \<Rightarrow> string \<Rightarrow> (nat \<times> crule_func option) option" where
  "funclist_search [] funcname = None"
| "funclist_search ((name, reqnumargs, f) # rest) funcname =
     (if ircd_strcmp name funcname = 0 then Some (reqnumargs, f)
      else if name = [] then None else funclist_search rest funcname)"

type_synonym parsed = "crule_errcode \<times> arg \<times> crule_token \<times> string"

definition crule_parsefunction :: "string \<Rightarrow> parsed res" where
  "crule_parsefunction s =
     (let (funcname, s1) = crule_getword (CR_MAXARGLEN - 1) s;
          (err, tok, s2) = crule_gettoken s1
      in if err \<noteq> CR_NOERR then Inr (err, Null, tok, s2)
         else if tok \<noteq> CR_OPENPAREN then Inr (CR_EXPCTOPEN, Null, tok, s2)
         else case funclist_search crule_funclist funcname of
           None \<Rightarrow> Inr (CR_UNKNWFUNC, Null, tok, s2)
         | Some (reqnumargs, f) \<Rightarrow>
             (let (err, tok, s3) = crule_gettoken s2
              in if err \<noteq> CR_NOERR then Inr (err, Null, tok, s3)
                 else res_bind (crule_parsearglist [] [] 0 tok s3) (\<lambda>(err, args, tok, s4).
                   if err \<noteq> CR_NOERR then Inr (err, Node (Func None args), tok, s4)
                   else if tok \<noteq> CR_CLOSEPAREN then Inr (CR_EXPCTCLOSE, Node (Func None args), tok, s4)
                   else if reqnumargs \<noteq> length args then Inr (CR_ARGMISMAT, Node (Func None args), tok, s4)
                   else (let (err, tok, s5) = crule_gettoken s4
                         in if err \<noteq> CR_NOERR then Inr (err, Node (Func None args), tok, s5)
                            else Inr (CR_NOERR, Node (Func f args), tok, s5)))))"

text \<open>Assignment to \<open>arg[1]\<close> of the operator node built last.\<close>

fun set_arg1 :: "arg \<Rightarrow> arg \<Rightarrow> arg" where
  "set_arg1 (Node (AndOr a b isor)) x = Node (AndOr a x isor)"
| "set_arg1 a x = a"

text \<open>The operator node that takes the tree built so far as its first operand.\<close>

definition new_andor :: "arg \<Rightarrow> arg \<Rightarrow> bool \<Rightarrow> arg" where
  "new_andor root operand isor =
     Node (AndOr (if root \<noteq> Null then set_arg1 root operand else operand) Garbage isor)"

text \<open>What a parsing loop returns when no further operator follows.\<close>

definition last_operand :: "arg \<Rightarrow> crule_errcode \<Rightarrow> crule_errcode \<Rightarrow> arg \<Rightarrow> crule_token \<Rightarrow> string \<Rightarrow> parsed" where
  "last_operand root missing err operand tok s =
     (if root \<noteq> Null then
        (if operand \<noteq> Null then (err, set_arg1 root operand, tok, s)
         else (missing, set_arg1 root Null, tok, s))
      else (err, operand, tok, s))"

fun crule_parseorexpr :: "nat \<Rightarrow> arg \<Rightarrow> crule_token \<Rightarrow> string \<Rightarrow> parsed run"
and crule_parseandexpr :: "nat \<Rightarrow> arg \<Rightarrow> crule_token \<Rightarrow> string \<Rightarrow> parsed run"
and crule_parseprimary :: "nat \<Rightarrow> bool \<Rightarrow> crule_token \<Rightarrow> string \<Rightarrow> parsed run" where
  "crule_parseorexpr 0 orroot tok s = None"
| "crule_parseorexpr (Suc fuel) orroot tok s =
     run_bind (crule_parseandexpr fuel Null tok s) (\<lambda>(err, andexpr, tok1, s1).
       if err = CR_NOERR \<and> tok1 = CR_OR then
         (let orptr = new_andor orroot andexpr True;
              (err2, tok2, s2) = crule_gettoken s1
          in if err2 \<noteq> CR_NOERR then returning (err2, orptr, tok2, s2)
             else crule_parseorexpr fuel orptr tok2 s2)
       else returning (last_operand orroot CR_EXPCTAND err andexpr tok1 s1))"
| "crule_parseandexpr 0 androot tok s = None"
| "crule_parseandexpr (Suc fuel) androot tok s =
     run_bind (crule_parseprimary fuel True tok s) (\<lambda>(err, primary, tok1, s1).
       if err = CR_NOERR \<and> tok1 = CR_AND then
         (let andptr = new_andor androot primary False;
              (err2, tok2, s2) = crule_gettoken s1
          in if err2 \<noteq> CR_NOERR then returning (err2, andptr, tok2, s2)
             else crule_parseandexpr fuel andptr tok2 s2)
       else returning (last_operand androot CR_EXPCTPRIM err primary tok1 s1))"
| "crule_parseprimary 0 outer tok s = None"
| "crule_parseprimary (Suc fuel) outer tok s =
     (case tok of
        CR_OPENPAREN \<Rightarrow>
          (let (err, tok1, s1) = crule_gettoken s
           in if err \<noteq> CR_NOERR then returning (err, Null, tok1, s1)
              else run_bind (crule_parseorexpr fuel Null tok1 s1) (\<lambda>(err, root, tok2, s2).
                if err \<noteq> CR_NOERR then returning (err, root, tok2, s2)
                else if root = Null then returning (CR_EXPCTAND, root, tok2, s2)
                else if tok2 \<noteq> CR_CLOSEPAREN then returning (CR_EXPCTCLOSE, root, tok2, s2)
                else (let (err, tok3, s3) = crule_gettoken s2 in returning (err, root, tok3, s3))))
      | CR_NOT \<Rightarrow>
          (let (err, tok1, s1) = crule_gettoken s
           in if err \<noteq> CR_NOERR then returning (err, Node (NotNode Null), tok1, s1)
              else run_bind (crule_parseprimary fuel False tok1 s1) (\<lambda>(err, inner, tok2, s2).
                returning (err, Node (NotNode inner), tok2, s2)))
      | CR_WORD \<Rightarrow> Some (crule_parsefunction s)
      | _ \<Rightarrow> returning (if outer then CR_NOERR else CR_EXPCTPRIM, Null, tok, s))"

text \<open>Releasing a tree, with the number of blocks handed back.\<close>

fun crule_free :: "arg \<Rightarrow> nat res" where
  "crule_free Null = Inl NullDeref"
| "crule_free Garbage = Inl Indeterminate"
| "crule_free (Node (NotNode a)) =
     (if a \<noteq> Null then res_bind (crule_free a) (\<lambda>n. Inr (Suc n)) else Inr 1)"
| "crule_free (Node (AndOr a b isor)) =
     res_bind (crule_free a) (\<lambda>n.
       if b \<noteq> Null then res_bind (crule_free b) (\<lambda>m. Inr (Suc (n + m))) else Inr (Suc n))"
| "crule_free (Node (Func f args)) = Inr (Suc (length args))"

text \<open>The error code the debug message reports, and the rule or \<open>Null\<close>.\<close>

definition crule_parse :: "string \<Rightarrow> (crule_errcode \<times> arg) run" where
  "crule_parse rule =
     (let (err, tok, s) = crule_gettoken rule
      in if err \<noteq> CR_NOERR then returning (err, Null)
         else run_bind (crule_parseorexpr (3 * length rule + 3) Null tok s) (\<lambda>(err, ruleroot, tok, s).
           if err = CR_NOERR \<and> ruleroot \<noteq> Null \<and> tok = CR_END then returning (CR_NOERR, ruleroot)
           else let errcode = (if err \<noteq> CR_NOERR then err
                               else if ruleroot \<noteq> Null then CR_UNEXPCTTOK else CR_EXPCTOR)
                in if ruleroot \<noteq> Null
                   then run_bind (Some (crule_free ruleroot)) (\<lambda>_. returning (errcode, Null))
                   else returning (errcode, Null)))"

section \<open>Evaluation\<close>

text \<open>
  What the rule functions look at: the global client list, the clients by descriptor up to
  \<open>HighestFd\<close>, and of each client its status and flags, its name and the directly connected
  server it is reached through.
\<close>

record peer = cli +
  peer_name :: string
  peer_from :: client

record network =
  GlobalClientList :: "client list"
  LocalClientArray :: "client option list"
  client_at :: "client \<Rightarrow> peer"

text \<open>One iteration of the loops: go on, or return 1 when all masks match.\<close>

definition masks_match :: "(string \<times> string) list \<Rightarrow> bool run" where
  "masks_match ps = fold (\<lambda>(msk, name) r. run_bind r (\<lambda>b.
     if b then run_bind (match msk name) (\<lambda>v. returning (v = 0)) else returning False)) ps (returning True)"

fun first_hit :: "('a \<Rightarrow> bool run) \<Rightarrow> 'a list \<Rightarrow> bool run" where
  "first_hit f [] = returning False"
| "first_hit f (x # xs) = run_bind (f x) (\<lambda>b. if b then returning True else first_hit f xs)"

definition crule_connected :: "network \<Rightarrow> string list \<Rightarrow> bool run" where
  "crule_connected net args =
     first_hit (\<lambda>c. let acptr = client_at net c in
        if \<not> IsServer acptr \<and> \<not> IsMe acptr then returning False
        else masks_match [(args ! 0, peer_name acptr)]) (GlobalClientList net)"

definition crule_directcon :: "network \<Rightarrow> string list \<Rightarrow> bool run" where
  "crule_directcon net args =
     first_hit (\<lambda>slot. case slot of None \<Rightarrow> returning False
        | Some c \<Rightarrow> let acptr = client_at net c in
            if \<not> IsServer acptr then returning False else masks_match [(args ! 0, peer_name acptr)])
       (LocalClientArray net)"

definition crule_via :: "network \<Rightarrow> string list \<Rightarrow> bool run" where
  "crule_via net args =
     first_hit (\<lambda>c. let acptr = client_at net c in
        if \<not> IsServer acptr \<and> \<not> IsMe acptr then returning False
        else masks_match [(args ! 1, peer_name acptr), (args ! 0, peer_name (client_at net (peer_from acptr)))])
       (GlobalClientList net)"

definition crule_directop :: "network \<Rightarrow> bool run" where
  "crule_directop net =
     first_hit (\<lambda>slot. case slot of None \<Rightarrow> returning False | Some c \<Rightarrow> returning (IsAnOper (client_at net c)))
       (LocalClientArray net)"

fun call_func :: "network \<Rightarrow> crule_func \<Rightarrow> string list \<Rightarrow> bool run" where
  "call_func net Connected args = crule_connected net args"
| "call_func net Directcon args = crule_directcon net args"
| "call_func net Via args = crule_via net args"
| "call_func net Directop args = crule_directop net"

text \<open>\<open>crule__andor\<close> and \<open>crule__not\<close> are the clauses for their nodes.\<close>

fun crule_eval :: "network \<Rightarrow> arg \<Rightarrow> bool run" where
  "crule_eval net Null = Some (Inl NullDeref)"
| "crule_eval net Garbage = Some (Inl Indeterminate)"
| "crule_eval net (Node (Func None args)) = Some (Inl NullDeref)"
| "crule_eval net (Node (Func (Some f) args)) = call_func net f args"
| "crule_eval net (Node (AndOr a b isor)) =
     run_bind (crule_eval net a) (\<lambda>result1.
       if isor then (if result1 then returning True else crule_eval net b)
       else (if result1 then crule_eval net b else returning False))"
| "crule_eval net (Node (NotNode a)) = run_bind (crule_eval net a) (\<lambda>b. returning (\<not> b))"

text \<open>The printer of the stand-alone test parser.\<close>

fun func_name :: "crule_func \<Rightarrow> string" where
  "func_name Connected = ''connected''"
| "func_name Directcon = ''directcon''"
| "func_name Via = ''via''"
| "func_name Directop = ''directop''"

fun comma_args :: "string list \<Rightarrow> string" where
  "comma_args [] = []"
| "comma_args [a] = a"
| "comma_args (a # b # r) = a @ '','' @ comma_args (b # r)"

fun print_tree :: "arg \<Rightarrow> string res" where
  "print_tree Null = Inl NullDeref"
| "print_tree Garbage = Inl Indeterminate"
| "print_tree (Node (NotNode a)) = res_bind (print_tree a) (\<lambda>s. Inr (''!( '' @ s @ '') ''))"
| "print_tree (Node (AndOr a b isor)) =
     res_bind (print_tree a) (\<lambda>s. res_bind (print_tree b) (\<lambda>t.
       Inr (''( '' @ s @ (if isor then ''|| '' else ''&& '') @ t @ '') '')))"
| "print_tree (Node (Func None args)) = Inl Aborted"
| "print_tree (Node (Func (Some f) args)) = Inr (func_name f @ ''('' @ comma_args args @ '') '')"

section \<open>The parser returns\<close>

lemma run_bind_Some: "run_bind r f \<noteq> None \<longleftrightarrow> r \<noteq> None \<and> (\<forall>x. r = Some (Inr x) \<longrightarrow> f x \<noteq> None)"
  by (auto simp: run_bind_def split: option.splits sum.splits)

lemma parsearglist_shrinks:
  "crule_parsearglist args cur al tok s = Inr (CR_NOERR, args', tok', s') \<Longrightarrow> length s' \<le> length s"
proof (induction args cur al tok s arbitrary: args' tok' s' rule: crule_parsearglist.induct)
  case (1 args cur al tok s)
  show ?case
  proof (cases "tok = CR_WORD")
    case True
    obtain w s1 where w: "crule_getword (CR_MAXARGLEN - 1) s = (w, s1)" by fastforce
    obtain c' l' where a: "append_word cur al w = (c', l')" by fastforce
    obtain e t2 s2 where g: "crule_gettoken s1 = (e, t2, s2)" by (metis prod_cases3)
    have e: "e = CR_NOERR" and r: "crule_parsearglist args c' l' t2 s2 = Inr (CR_NOERR, args', tok', s')"
      using 1(3) True w a g by (simp_all add: crule_parsearglist.simps [of args cur] split: if_splits)
    have "length s' \<le> length s2" using 1(1) [OF True w [symmetric]] w a g e r by fastforce
    then show ?thesis using gettoken_length [OF g] getword_length [OF w] by simp
  next
    case False
    then obtain a' where a': "store_arg args (collapse cur) = Inr a'"
      using 1(3) by (auto simp: crule_parsearglist.simps [of args cur] res_bind_Inr_iff)
    obtain e t2 s2 where g: "crule_gettoken s = (e, t2, s2)" by (metis prod_cases3)
    show ?thesis
    proof (cases "tok = CR_COMMA")
      case True
      then have e: "e = CR_NOERR" and r: "crule_parsearglist a' [] al t2 s2 = Inr (CR_NOERR, args', tok', s')"
        using 1(3) False a' g by (simp_all add: crule_parsearglist.simps [of args cur] split: if_splits)
      have "length s' \<le> length s2" using 1(2) False True g e r by fastforce
      then show ?thesis using gettoken_length [OF g] by simp
    next
      case no: False
      then show ?thesis using 1(3) False a' by (simp add: crule_parsearglist.simps [of args cur])
    qed
  qed
qed

lemma parsefunction_shrinks:
  assumes "crule_parsefunction s = Inr (CR_NOERR, a, tok, s')"
  shows "pending_chars tok s' \<le> length s"
proof -
  obtain w s1 where w: "crule_getword (CR_MAXARGLEN - 1) s = (w, s1)" by fastforce
  obtain e1 t1 s2 where g1: "crule_gettoken s1 = (e1, t1, s2)" by (metis prod_cases3)
  obtain e2 t2 s3 where g2: "crule_gettoken s2 = (e2, t2, s3)" by (metis prod_cases3)
  obtain args t4 s4 t5 s5 where p: "crule_parsearglist [] [] 0 t2 s3 = Inr (CR_NOERR, args, t4, s4)"
    and g5: "crule_gettoken s4 = (CR_NOERR, tok, s')"
    using assms w g1 g2
    by (auto simp: crule_parsefunction_def res_bind_Inr_iff split: if_splits option.splits prod.splits)
  have "pending_chars tok s' \<le> length s4" by (rule gettoken_shrinks [OF g5])
  then show ?thesis
    using parsearglist_shrinks [OF p] gettoken_length [OF g1] gettoken_length [OF g2] getword_length [OF w] by linarith
qed

text \<open>Fuel for each level; a loop that returns never leaves more to read than it was given.\<close>

definition returns :: "parsed run \<Rightarrow> nat \<Rightarrow> bool" where
  "returns r w \<longleftrightarrow> r \<noteq> None \<and> (\<forall>a tok s. r = Some (Inr (CR_NOERR, a, tok, s)) \<longrightarrow> pending_chars tok s \<le> w)"

lemma returns_ret: "returns (returning (e, a, tok, s)) w \<longleftrightarrow> (e = CR_NOERR \<longrightarrow> pending_chars tok s \<le> w)"
  by (auto simp: returns_def returning_def)

lemma returns_bind:
  assumes "r \<noteq> None" "\<And>x. r = Some (Inr x) \<Longrightarrow> returns (f x) w"
  shows "returns (run_bind r f) w"
  using assms by (cases r; cases "the r") (auto simp: returns_def)

lemma returns_mono: "returns r v \<Longrightarrow> v \<le> w \<Longrightarrow> returns r w"
  by (fastforce simp: returns_def)

lemma last_operand_err: "last_operand root missing err a tok s = (e', a', tok', s') \<Longrightarrow>
    tok' = tok \<and> s' = s \<and> (e' = CR_NOERR \<longrightarrow> missing = CR_NOERR \<or> err = CR_NOERR)"
  by (auto simp: last_operand_def split: if_splits)

lemma returns_last:
  assumes "missing \<noteq> CR_NOERR" "err = CR_NOERR \<longrightarrow> pending_chars tok s \<le> w"
  shows "returns (returning (last_operand root missing err a tok s)) w"
  using assms last_operand_err [of root missing err a tok s]
  by (cases "last_operand root missing err a tok s") (auto simp: returns_ret)

lemma returns_operator:
  assumes r: "returns r w" and op: "op \<noteq> CR_END" "op \<noteq> CR_WORD" and missing: "missing \<noteq> CR_NOERR"
    and loop: "\<And>p tok2 s2. pending_chars tok2 s2 < w \<Longrightarrow> returns (go p tok2 s2) w"
  shows "returns (run_bind r (\<lambda>(err, e, tok1, s1).
      if err = CR_NOERR \<and> tok1 = op then
        (let p = new e; (err2, tok2, s2) = crule_gettoken s1
         in if err2 \<noteq> CR_NOERR then returning (err2, p, tok2, s2) else go p tok2 s2)
      else returning (last_operand root missing err e tok1 s1))) w"
proof (rule returns_bind)
  show "r \<noteq> None" using r by (simp add: returns_def)
  fix x assume x: "r = Some (Inr x)"
  obtain err e tok1 s1 where xe: "x = (err, e, tok1, s1)" by (metis prod_cases4)
  obtain err2 tok2 s2 where g: "crule_gettoken s1 = (err2, tok2, s2)" by (metis prod_cases3)
  have w: "err = CR_NOERR \<Longrightarrow> pending_chars tok1 s1 \<le> w" using r x xe by (simp add: returns_def)
  have "pending_chars tok2 s2 < w" if "err = CR_NOERR" "tok1 = op" "err2 = CR_NOERR"
    using gettoken_shrinks [of s1 tok2 s2] g w that op by simp
  then show "returns (case x of (err, e, tok1, s1) \<Rightarrow>
      if err = CR_NOERR \<and> tok1 = op then
        (let p = new e; (err2, tok2, s2) = crule_gettoken s1
         in if err2 \<noteq> CR_NOERR then returning (err2, p, tok2, s2) else go p tok2 s2)
      else returning (last_operand root missing err e tok1 s1)) w"
    using g w loop returns_last [OF missing] by (auto simp: xe returns_ret Let_def simp del: pending_chars.simps)
qed

text \<open>The branches of a primary, given what the levels below return.\<close>

lemma returns_primary:
  assumes or: "\<And>tok1 s1. pending_chars tok1 s1 < pending_chars tok s \<Longrightarrow>
      returns (crule_parseorexpr n Null tok1 s1) (pending_chars tok1 s1)"
    and prim: "\<And>tok1 s1. pending_chars tok1 s1 < pending_chars tok s \<Longrightarrow>
      returns (crule_parseprimary n False tok1 s1) (pending_chars tok1 s1)"
  shows "returns (crule_parseprimary (Suc n) outer tok s) (pending_chars tok s)"
proof -
  obtain e t1 s1 where g: "crule_gettoken s = (e, t1, s1)" by (metis prod_cases3)
  have g': "e = CR_NOERR \<Longrightarrow> pending_chars t1 s1 \<le> length s" using g gettoken_shrinks [of s t1 s1] by simp
  consider "tok = CR_OPENPAREN" | "tok = CR_NOT" | "tok = CR_WORD"
    | "tok \<notin> {CR_OPENPAREN, CR_NOT, CR_WORD}" by blast
  then show ?thesis
  proof cases
    case 1
    show ?thesis
    proof (cases "e = CR_NOERR")
      case True
      have lt: "pending_chars t1 s1 < pending_chars tok s" using g' True 1 by simp
      have "returns (run_bind (crule_parseorexpr n Null t1 s1) (\<lambda>(err, root, tok2, s2).
                if err \<noteq> CR_NOERR then returning (err, root, tok2, s2)
                else if root = Null then returning (CR_EXPCTAND, root, tok2, s2)
                else if tok2 \<noteq> CR_CLOSEPAREN then returning (CR_EXPCTCLOSE, root, tok2, s2)
                else (let (err, tok3, s3) = crule_gettoken s2 in returning (err, root, tok3, s3))))
          (pending_chars tok s)"
      proof (rule returns_bind)
        show "crule_parseorexpr n Null t1 s1 \<noteq> None" using or [OF lt] by (simp add: returns_def)
        fix x assume x: "crule_parseorexpr n Null t1 s1 = Some (Inr x)"
        obtain err root tok2 s2 where xe: "x = (err, root, tok2, s2)" by (metis prod_cases4)
        obtain e3 t3 s3 where g3: "crule_gettoken s2 = (e3, t3, s3)" by (metis prod_cases3)
        have "err = CR_NOERR \<Longrightarrow> pending_chars tok2 s2 \<le> pending_chars t1 s1"
          using or [OF lt] x xe by (simp add: returns_def)
        moreover have "e3 = CR_NOERR \<Longrightarrow> pending_chars t3 s3 \<le> length s2" using gettoken_shrinks [of s2] g3 by simp
        ultimately show "returns (case x of (err, root, tok2, s2) \<Rightarrow>
                if err \<noteq> CR_NOERR then returning (err, root, tok2, s2)
                else if root = Null then returning (CR_EXPCTAND, root, tok2, s2)
                else if tok2 \<noteq> CR_CLOSEPAREN then returning (CR_EXPCTCLOSE, root, tok2, s2)
                else (let (err, tok3, s3) = crule_gettoken s2 in returning (err, root, tok3, s3))) (pending_chars tok s)"
          using lt by (auto simp: xe g3 returns_ret simp del: pending_chars.simps(1) [of t3] pending_chars.simps(1) [of t1])
      qed
      then show ?thesis using 1 g True by simp
    qed (use 1 g in \<open>simp add: returns_ret\<close>)
  next
    case 2
    show ?thesis
    proof (cases "e = CR_NOERR")
      case True
      have lt: "pending_chars t1 s1 < pending_chars tok s" using g' True 2 by simp
      have "returns (run_bind (crule_parseprimary n False t1 s1) (\<lambda>(err, inner, tok2, s2).
          returning (err, Node (NotNode inner), tok2, s2))) (pending_chars tok s)"
        using prim [OF lt] lt by (intro returns_bind) (auto simp: returns_def returning_def simp del: pending_chars.simps)
      then show ?thesis using 2 g True by simp
    qed (use 2 g in \<open>simp add: returns_ret\<close>)
  next
    case 3
    then show ?thesis using parsefunction_shrinks by (fastforce simp: returns_def)
  next
    case 4
    then show ?thesis by (cases tok) (auto simp: returns_ret)
  qed
qed

lemma parser_returns:
  "(\<forall>root tok s. 3 * pending_chars tok s + 3 \<le> n \<longrightarrow> returns (crule_parseorexpr n root tok s) (pending_chars tok s))
   \<and> (\<forall>root tok s. 3 * pending_chars tok s + 2 \<le> n \<longrightarrow> returns (crule_parseandexpr n root tok s) (pending_chars tok s))
   \<and> (\<forall>outer tok s. 3 * pending_chars tok s + 1 \<le> n \<longrightarrow> returns (crule_parseprimary n outer tok s) (pending_chars tok s))"
proof (induction n)
  case (Suc n)
  then have or: "\<And>root tok s. 3 * pending_chars tok s + 3 \<le> n \<Longrightarrow> returns (crule_parseorexpr n root tok s) (pending_chars tok s)"
    and "and": "\<And>root tok s. 3 * pending_chars tok s + 2 \<le> n \<Longrightarrow> returns (crule_parseandexpr n root tok s) (pending_chars tok s)"
    and prim: "\<And>outer tok s. 3 * pending_chars tok s + 1 \<le> n \<Longrightarrow> returns (crule_parseprimary n outer tok s) (pending_chars tok s)"
    by blast+
  have "returns (crule_parseorexpr (Suc n) root tok s) (pending_chars tok s)"
    if le: "3 * pending_chars tok s + 3 \<le> Suc n" for root tok s
    unfolding crule_parseorexpr.simps
    by (rule returns_operator)
       (use le in \<open>auto intro!: "and" returns_mono [OF or] simp del: pending_chars.simps\<close>)
  moreover have "returns (crule_parseandexpr (Suc n) root tok s) (pending_chars tok s)"
    if le: "3 * pending_chars tok s + 2 \<le> Suc n" for root tok s
    unfolding crule_parseandexpr.simps
    by (rule returns_operator)
       (use le in \<open>auto intro!: prim returns_mono [OF "and"] simp del: pending_chars.simps\<close>)
  moreover have "returns (crule_parseprimary (Suc n) outer tok s) (pending_chars tok s)"
    if le: "3 * pending_chars tok s + 1 \<le> Suc n" for outer tok s
    using le by (intro returns_primary or prim) simp_all
  ultimately show ?case by blast
qed simp

lemma parseorexpr_returns:
  "3 * pending_chars tok s + 3 \<le> n \<Longrightarrow> returns (crule_parseorexpr n root tok s) (pending_chars tok s)"
  using parser_returns by blast

lemma crule_parse_defined: "crule_parse rule \<noteq> None"
proof -
  obtain e tok s where g: "crule_gettoken rule = (e, tok, s)" by (metis prod_cases3)
  show ?thesis
  proof (cases "e = CR_NOERR")
    case True
    then have "3 * pending_chars tok s + 3 \<le> 3 * length rule + 3" using gettoken_shrinks g by fastforce
    then have "crule_parseorexpr (3 * length rule + 3) Null tok s \<noteq> None"
      using parseorexpr_returns by (auto simp: returns_def)
    then show ?thesis using g True
      by (auto simp: crule_parse_def run_bind_def returning_def Let_def split: option.splits sum.splits)
  qed (use g in \<open>simp add: crule_parse_def returning_def\<close>)
qed


lemma run_bind_continue:
  assumes "run_bind r f = Some y" "\<And>v. r = Some v \<Longrightarrow> r' = Some v" "\<And>x v. f x = Some v \<Longrightarrow> f' x = Some v"
  shows "run_bind r' f' = Some y"
  using assms by (auto simp: run_bind_def split: option.splits sum.splits)

lemma fuel_mono:
  "(\<forall>root tok s y. crule_parseorexpr n root tok s = Some y \<longrightarrow> crule_parseorexpr (Suc n) root tok s = Some y)
   \<and> (\<forall>root tok s y. crule_parseandexpr n root tok s = Some y \<longrightarrow> crule_parseandexpr (Suc n) root tok s = Some y)
   \<and> (\<forall>outer tok s y. crule_parseprimary n outer tok s = Some y \<longrightarrow> crule_parseprimary (Suc n) outer tok s = Some y)"
proof (induction n)
  case (Suc n)
  then have or: "\<And>root tok s y. crule_parseorexpr n root tok s = Some y \<Longrightarrow> crule_parseorexpr (Suc n) root tok s = Some y"
    and "and": "\<And>root tok s y. crule_parseandexpr n root tok s = Some y \<Longrightarrow> crule_parseandexpr (Suc n) root tok s = Some y"
    and prim: "\<And>outer tok s y. crule_parseprimary n outer tok s = Some y \<Longrightarrow> crule_parseprimary (Suc n) outer tok s = Some y"
    by blast+
  have "crule_parseorexpr (Suc (Suc n)) root tok s = Some y" if "crule_parseorexpr (Suc n) root tok s = Some y" for root tok s y
    using that unfolding crule_parseorexpr.simps(2) [of "Suc n" root tok s] crule_parseorexpr.simps(2) [of n root tok s]
    by (rule run_bind_continue) (auto simp del: crule_parseorexpr.simps crule_parseandexpr.simps simp: Let_def dest: or "and" split: prod.splits if_splits)
  moreover have "crule_parseandexpr (Suc (Suc n)) root tok s = Some y" if "crule_parseandexpr (Suc n) root tok s = Some y" for root tok s y
    using that unfolding crule_parseandexpr.simps(2) [of "Suc n" root tok s] crule_parseandexpr.simps(2) [of n root tok s]
    by (rule run_bind_continue) (auto simp del: crule_parseprimary.simps crule_parseandexpr.simps simp: Let_def dest: prim "and" split: prod.splits if_splits)
  moreover have "crule_parseprimary (Suc (Suc n)) outer tok s = Some y" if a: "crule_parseprimary (Suc n) outer tok s = Some y" for outer tok s y
  proof -
    obtain e t1 s1 where g: "crule_gettoken s = (e, t1, s1)" by (metis prod_cases3)
    show ?thesis
    proof (cases "e = CR_NOERR \<and> (tok = CR_OPENPAREN \<or> tok = CR_NOT)")
      case False
      then show ?thesis using a g by (cases tok) simp_all
    next
      case True
      then show ?thesis using a g unfolding crule_parseprimary.simps(2) [of "Suc n" outer tok s] crule_parseprimary.simps(2) [of n outer tok s]
        by (auto simp del: crule_parseprimary.simps crule_parseorexpr.simps elim!: run_bind_continue intro: or prim)
    qed
  qed
  ultimately show ?case by blast
qed simp

lemma fuel_le:
  "n \<le> m \<Longrightarrow> (\<forall>root tok s y. crule_parseorexpr n root tok s = Some y \<longrightarrow> crule_parseorexpr m root tok s = Some y)
   \<and> (\<forall>root tok s y. crule_parseandexpr n root tok s = Some y \<longrightarrow> crule_parseandexpr m root tok s = Some y)
   \<and> (\<forall>outer tok s y. crule_parseprimary n outer tok s = Some y \<longrightarrow> crule_parseprimary m outer tok s = Some y)"
proof (induction m rule: dec_induct)
  case (step k)
  then show ?case using fuel_mono [of k] by meson
qed simp

section \<open>What the parser builds\<close>

fun arity :: "crule_func \<Rightarrow> nat" where
  "arity Connected = 1" | "arity Directcon = 1" | "arity Via = 2" | "arity Directop = 0"

text \<open>
  A tree as the parser returns it for a text over the characters \<open>S\<close>: no field is left unwritten,
  functions have their arguments, but an operand of \<open>&&\<close> or \<open>||\<close> may be \<open>Null\<close>.
\<close>

definition good_args :: "char set \<Rightarrow> string list \<Rightarrow> bool" where
  "good_args S args \<longleftrightarrow> (\<forall>a \<in> set args. a \<noteq> [] \<and> set a \<subseteq> S)"

fun sound :: "char set \<Rightarrow> arg \<Rightarrow> bool" where
  "sound S Null = True"
| "sound S Garbage = False"
| "sound S (Node (Func f args)) = (\<exists>g. f = Some g \<and> length args = arity g \<and> good_args S args)"
| "sound S (Node (AndOr a b isor)) = (sound S a \<and> sound S b)"
| "sound S (Node (NotNode a)) = (a \<noteq> Null \<and> sound S a)"

definition unfinished :: "char set \<Rightarrow> arg \<Rightarrow> bool" where
  "unfinished S root \<longleftrightarrow> root = Null \<or> (\<exists>a isor. root = Node (AndOr a Garbage isor) \<and> sound S a)"

definition tok_ok :: "char set \<Rightarrow> crule_token \<Rightarrow> string \<Rightarrow> bool" where
  "tok_ok S tok s \<longleftrightarrow> set s \<subseteq> S \<and> (tok = CR_WORD \<longrightarrow> s \<noteq> [] \<and> word_char (hd s))"

definition builds :: "char set \<Rightarrow> parsed run \<Rightarrow> bool" where
  "builds S r \<longleftrightarrow> (\<forall>e a tok s. r = Some (Inr (e, a, tok, s)) \<longrightarrow> tok_ok S tok s \<and> (e = CR_NOERR \<longrightarrow> sound S a))"

lemma gettoken_loop_set: "gettoken_loop p s = (e, tok, s') \<Longrightarrow> set s' \<subseteq> set s"
  by (induction p s rule: gettoken_loop.induct) (auto split: if_splits)

lemma gettoken_ok: "crule_gettoken s = (e, tok, s') \<Longrightarrow> set s \<subseteq> S \<Longrightarrow> tok_ok S tok s'"
  using gettoken_loop_set [of NUL s e tok s'] gettoken_word [of s e s']
  by (auto simp: tok_ok_def crule_gettoken_def word_char_def IsAlnum_iff)

lemma getword_set: "crule_getword n s = (w, r) \<Longrightarrow> s = w @ r"
  by (induction n s arbitrary: w r rule: crule_getword.induct) (auto split: if_splits prod.splits)

lemma set_collapse_copy: "set (collapse_copy star m) \<subseteq> set m \<union> (if star then {CHR ''*''} else {})"
proof (induction star m rule: collapse_copy.induct)
  case (2 star c m)
  consider "c = CHR ''*''" | "c \<noteq> CHR ''*''" "esc_next c m" | "c \<noteq> CHR ''*''" "\<not> esc_next c m" by blast
  then show ?case
  proof cases
    case 2
    then obtain d r where m: "m = d # r" by (cases m) auto
    have "set (collapse_copy (if star then False else star) r) \<subseteq> set r" using "2.IH"(2) [OF 2(1) refl refl refl 2(2)] 2(2) m by (cases star) simp_all
    then show ?thesis using 2 m by (auto simp: Let_def)
  next
    case 3
    have "set (collapse_copy (if star \<and> c \<noteq> CHR ''?'' then False else star) m)
        \<subseteq> set m \<union> (if (if star \<and> c \<noteq> CHR ''?'' then False else star) then {CHR ''*''} else {})"
      using "2.IH"(3) [OF 3(1)] 3 by auto
    then show ?thesis using 3 by (auto simp: Let_def split: if_splits)
  qed (use 2 in auto)
qed simp

lemma set_collapse: "set (collapse m) \<subseteq> set m"
proof (induction m rule: collapse.induct)
  case (2 c m)
  then show ?case
    using set_collapse_copy [of False "c # m"] list.set_sel(1) [of m] list.set_sel(2) [of m]
    by (auto split: if_splits simp del: collapse_copy.simps)
qed simp

lemma parsearglist_ok:
  "crule_parsearglist args cur al tok s = Inr (e, args', tok', s') \<Longrightarrow> tok_ok S tok s \<Longrightarrow> CHR '' '' \<in> S \<Longrightarrow>
     good_args S args \<Longrightarrow> set cur \<subseteq> S \<Longrightarrow> tok_ok S tok' s' \<and> good_args S args'"
proof (induction args cur al tok s arbitrary: args' tok' s' rule: crule_parsearglist.induct)
  case (1 args cur al tok s)
  show ?case
  proof (cases "tok = CR_WORD")
    case True
    obtain w s1 where w: "crule_getword (CR_MAXARGLEN - 1) s = (w, s1)" by fastforce
    obtain c' l' where a: "append_word cur al w = (c', l')" by fastforce
    obtain e2 t2 s2 where g: "crule_gettoken s1 = (e2, t2, s2)" by (metis prod_cases3)
    have S: "set s1 \<subseteq> S" "set w \<subseteq> S" using 1(4) getword_set [OF w] by (auto simp: tok_ok_def)
    have "set c' \<subseteq> S" using a S 1(5,7) by (auto simp: append_word_def split: if_splits)
    moreover have "tok_ok S t2 s2" by (rule gettoken_ok [OF g S(1)])
    ultimately show ?thesis using 1(1,3,5,6) True w a g
      by (fastforce simp: crule_parsearglist.simps [of args cur] split: if_splits)
  next
    case False
    then obtain a' where a': "store_arg args (collapse cur) = Inr a'"
      using 1(3) by (auto simp: crule_parsearglist.simps [of args cur] res_bind_Inr_iff)
    obtain e2 t2 s2 where g: "crule_gettoken s = (e2, t2, s2)" by (metis prod_cases3)
    have t2: "tok_ok S t2 s2" using gettoken_ok [OF g, of S] 1(4) by (simp add: tok_ok_def)
    have "set (collapse cur) \<subseteq> S" using 1(7) set_collapse [of cur] by (rule order_trans [rotated])
    moreover have "a' = args \<or> a' = args @ [collapse cur] \<and> collapse cur \<noteq> []"
      using a' by (auto simp: store_arg_def split: if_splits)
    ultimately have ga: "good_args S a'" using 1(6) by (elim disjE) (simp_all add: good_args_def)
    show ?thesis
    proof (cases "tok = CR_COMMA")
      case True
      then show ?thesis using 1(2,3,5) False a' g t2 ga
        by (fastforce simp: crule_parsearglist.simps [of args cur] split: if_splits)
    next
      case no: False
      then show ?thesis using 1(3,4) False a' ga by (simp add: crule_parsearglist.simps [of args cur])
    qed
  qed
qed

lemma funclist_search_ok:
  assumes "funclist_search crule_funclist (c # r) = Some (k, f)" "c \<noteq> NUL"
  shows "\<exists>g. f = Some g \<and> k = arity g"
proof -
  have "ircd_strcmp [] (c # r) \<noteq> 0" using assms(2) by simp
  then show ?thesis using assms(1)
    by (auto simp: crule_funclist_def simp del: ircd_strcmp.simps split: if_splits)
qed

lemma parsefunction_ok:
  assumes "tok_ok S CR_WORD s" "CHR '' '' \<in> S"
  shows "builds S (Some (crule_parsefunction s))"
proof -
  obtain w s1 where w: "crule_getword (CR_MAXARGLEN - 1) s = (w, s1)" by fastforce
  obtain c r where s: "s = c # r" "word_char c" using assms(1) by (cases s) (auto simp: tok_ok_def)
  obtain r' where w': "w = c # r'"
    using w s by (auto simp: CR_MAXARGLEN_def numeral_eq_Suc split: prod.splits)
  have c: "c \<noteq> NUL" using s(2) by (auto simp: word_char_def word_mark_def IsAlnum_iff IsAlpha_iff IsDigit_iff)
  have s1: "set s1 \<subseteq> S" using getword_set [OF w] assms(1) by (auto simp: tok_ok_def)
  obtain e2 t2 s2 where g2: "crule_gettoken s1 = (e2, t2, s2)" by (metis prod_cases3)
  have k2: "tok_ok S t2 s2" by (rule gettoken_ok [OF g2 s1])
  obtain e3 t3 s3 where g3: "crule_gettoken s2 = (e3, t3, s3)" by (metis prod_cases3)
  have k3: "tok_ok S t3 s3" using gettoken_ok [OF g3, of S] k2 by (simp add: tok_ok_def)
  show ?thesis
  proof (cases "e2 = CR_NOERR \<and> t2 = CR_OPENPAREN \<and> funclist_search crule_funclist w \<noteq> None \<and> e3 = CR_NOERR")
    case False
    then show ?thesis using w g2 g3 k2 k3
      by (auto simp: builds_def crule_parsefunction_def split: option.splits)
  next
    case True
    then obtain k g where f: "funclist_search crule_funclist w = Some (k, Some g)" "k = arity g"
      using funclist_search_ok [OF _ c, of r'] w' by fastforce
    show ?thesis
    proof (cases "crule_parsearglist [] [] 0 t3 s3")
      case (Inl x)
      then show ?thesis using w g2 g3 f True by (simp add: builds_def crule_parsefunction_def)
    next
      case (Inr x)
      obtain e4 args t4 s4 where x: "x = (e4, args, t4, s4)" by (metis prod_cases4)
      have k4: "tok_ok S t4 s4" "good_args S args"
        using parsearglist_ok [OF Inr [unfolded x] k3 assms(2)] by (simp_all add: good_args_def)
      obtain e5 t5 s5 where g5: "crule_gettoken s4 = (e5, t5, s5)" by (metis prod_cases3)
      have k5: "tok_ok S t5 s5" using gettoken_ok [OF g5, of S] k4 by (simp add: tok_ok_def)
      show ?thesis using w g2 g3 f True Inr x g5 k4 k5
        by (auto simp: builds_def crule_parsefunction_def)
    qed
  qed
qed

lemma parsefunction_not_Null: "crule_parsefunction s \<noteq> Inr (CR_NOERR, Null, tok, s')"
  by (auto simp: crule_parsefunction_def res_bind_Inr_iff split: if_splits option.splits prod.splits)

lemma builds_ret: "builds S (returning (e, a, tok, s)) \<longleftrightarrow> tok_ok S tok s \<and> (e = CR_NOERR \<longrightarrow> sound S a)"
  by (auto simp: builds_def returning_def)

lemma builds_bind:
  assumes "builds S r" "\<And>e a tok s. tok_ok S tok s \<Longrightarrow> (e = CR_NOERR \<Longrightarrow> sound S a) \<Longrightarrow> builds S (f (e, a, tok, s))"
  shows "builds S (run_bind r f)"
proof (cases r)
  case (Some y)
  then show ?thesis
  proof (cases y)
    case (Inr x)
    obtain e a tok s where "x = (e, a, tok, s)" by (metis prod_cases4)
    then show ?thesis using assms(1) assms(2) [of tok s e a] Some Inr by (simp add: builds_def)
  qed (use Some in \<open>simp add: builds_def\<close>)
qed (simp add: builds_def)

lemma builds_operator:
  assumes r: "builds S r" and root: "unfinished S root" and missing: "missing \<noteq> CR_NOERR"
    and loop: "\<And>p tok2 s2. unfinished S p \<Longrightarrow> tok_ok S tok2 s2 \<Longrightarrow> builds S (go p tok2 s2)"
  shows "builds S (run_bind r (\<lambda>(err, e, tok1, s1).
      if err = CR_NOERR \<and> tok1 = op then
        (let p = new_andor root e isor; (err2, tok2, s2) = crule_gettoken s1
         in if err2 \<noteq> CR_NOERR then returning (err2, p, tok2, s2) else go p tok2 s2)
      else returning (last_operand root missing err e tok1 s1)))"
proof (rule builds_bind [OF r])
  fix err e tok1 s1 assume t1: "tok_ok S tok1 s1" and e: "err = CR_NOERR \<Longrightarrow> sound S e"
  obtain err2 tok2 s2 where g: "crule_gettoken s1 = (err2, tok2, s2)" by (metis prod_cases3)
  have t2: "tok_ok S tok2 s2" using gettoken_ok [OF g, of S] t1 by (simp add: tok_ok_def)
  have "err = CR_NOERR \<Longrightarrow> unfinished S (new_andor root e isor)"
    using root e by (auto simp: unfinished_def new_andor_def)
  moreover have "builds S (returning (last_operand root missing err e tok1 s1))"
    using root e t1 missing by (auto simp: last_operand_def builds_ret unfinished_def)
  ultimately show "builds S (case (err, e, tok1, s1) of (err, e, tok1, s1) \<Rightarrow>
      if err = CR_NOERR \<and> tok1 = op then
        (let p = new_andor root e isor; (err2, tok2, s2) = crule_gettoken s1
         in if err2 \<noteq> CR_NOERR then returning (err2, p, tok2, s2) else go p tok2 s2)
      else returning (last_operand root missing err e tok1 s1))"
    using g t2 loop by (auto simp: builds_ret Let_def)
qed

lemma parser_builds:
  assumes space: "CHR '' '' \<in> S"
  shows "(\<forall>root tok s. unfinished S root \<longrightarrow> tok_ok S tok s \<longrightarrow> builds S (crule_parseorexpr n root tok s))
   \<and> (\<forall>root tok s. unfinished S root \<longrightarrow> tok_ok S tok s \<longrightarrow> builds S (crule_parseandexpr n root tok s))
   \<and> (\<forall>outer tok s. tok_ok S tok s \<longrightarrow> builds S (crule_parseprimary n outer tok s)
        \<and> (\<not> outer \<longrightarrow> (\<forall>tok' s'. crule_parseprimary n outer tok s \<noteq> Some (Inr (CR_NOERR, Null, tok', s')))))"
proof (induction n)
  case 0
  show ?case by (simp add: builds_def)
next
  case (Suc n)
  have un: "unfinished S Null" by (simp add: unfinished_def)
  have or: "builds S (crule_parseorexpr (Suc n) root tok s)" if "unfinished S root" "tok_ok S tok s" for root tok s
    unfolding crule_parseorexpr.simps by (rule builds_operator) (use that Suc un in auto)
  have "and": "builds S (crule_parseandexpr (Suc n) root tok s)" if "unfinished S root" "tok_ok S tok s" for root tok s
    unfolding crule_parseandexpr.simps by (rule builds_operator) (use that Suc un in auto)
  have prim: "builds S (crule_parseprimary (Suc n) outer tok s)
      \<and> (\<not> outer \<longrightarrow> (\<forall>tok' s'. crule_parseprimary (Suc n) outer tok s \<noteq> Some (Inr (CR_NOERR, Null, tok', s'))))"
    if t: "tok_ok S tok s" for outer tok s
  proof -
    obtain e t1 s1 where g: "crule_gettoken s = (e, t1, s1)" by (metis prod_cases3)
    have t1: "tok_ok S t1 s1" using gettoken_ok [OF g, of S] t by (simp add: tok_ok_def)
    consider "tok = CR_OPENPAREN" | "tok = CR_NOT" | "tok = CR_WORD"
      | "tok \<notin> {CR_OPENPAREN, CR_NOT, CR_WORD}" by blast
    then show ?thesis
    proof cases
      case 1
      have "builds S (run_bind (crule_parseorexpr n Null t1 s1) (\<lambda>(err, root, tok2, s2).
                if err \<noteq> CR_NOERR then returning (err, root, tok2, s2)
                else if root = Null then returning (CR_EXPCTAND, root, tok2, s2)
                else if tok2 \<noteq> CR_CLOSEPAREN then returning (CR_EXPCTCLOSE, root, tok2, s2)
                else (let (err, tok3, s3) = crule_gettoken s2 in returning (err, root, tok3, s3))))"
      proof (rule builds_bind)
        show "builds S (crule_parseorexpr n Null t1 s1)" using Suc un t1 by blast
        fix err root tok2 s2 assume t2: "tok_ok S tok2 s2" and e: "err = CR_NOERR \<Longrightarrow> sound S root"
        obtain e3 t3 s3 where g3: "crule_gettoken s2 = (e3, t3, s3)" by (metis prod_cases3)
        have "tok_ok S t3 s3" using gettoken_ok [OF g3, of S] t2 by (simp add: tok_ok_def)
        then show "builds S (case (err, root, tok2, s2) of (err, root, tok2, s2) \<Rightarrow>
                if err \<noteq> CR_NOERR then returning (err, root, tok2, s2)
                else if root = Null then returning (CR_EXPCTAND, root, tok2, s2)
                else if tok2 \<noteq> CR_CLOSEPAREN then returning (CR_EXPCTCLOSE, root, tok2, s2)
                else (let (err, tok3, s3) = crule_gettoken s2 in returning (err, root, tok3, s3)))"
          using t2 e g3 by (simp add: builds_ret)
      qed
      then show ?thesis using 1 g t1
        by (auto simp: builds_ret [unfolded returning_def] run_bind_Inr_iff returning_def split: if_splits prod.splits)
    next
      case 2
      have "builds S (crule_parseprimary n False t1 s1)
          \<and> (\<not> False \<longrightarrow> (\<forall>tok' s'. crule_parseprimary n False t1 s1 \<noteq> Some (Inr (CR_NOERR, Null, tok', s'))))"
        using Suc [THEN conjunct2, THEN conjunct2] t1 by blast
      then have "builds S (run_bind (crule_parseprimary n False t1 s1) (\<lambda>(err, inner, tok2, s2).
          returning (err, Node (NotNode inner), tok2, s2)))"
        by (auto simp: builds_def run_bind_Inr_iff returning_def)
      then show ?thesis using 2 g t1
        by (auto simp: builds_ret [unfolded returning_def] run_bind_Inr_iff returning_def split: if_splits prod.splits)
    next
      case 3
      then show ?thesis using parsefunction_ok [OF _ space] t by (simp add: parsefunction_not_Null)
    next
      case 4
      then show ?thesis using t by (cases tok) (auto simp: builds_ret [unfolded returning_def] returning_def)
    qed
  qed
  show ?case using or "and" prim by blast
qed


section \<open>Evaluation is the boolean meaning\<close>

text \<open>No operand is missing.\<close>

fun complete :: "arg \<Rightarrow> bool" where
  "complete Null = False"
| "complete Garbage = False"
| "complete (Node (Func f args)) = True"
| "complete (Node (AndOr a b isor)) = (complete a \<and> complete b)"
| "complete (Node (NotNode a)) = complete a"

abbreviation server_or_me :: "peer \<Rightarrow> bool" where
  "server_or_me p \<equiv> IsServer p \<or> IsMe p"

fun func_holds :: "(peer \<Rightarrow> bool) \<Rightarrow> network \<Rightarrow> crule_func \<Rightarrow> string list \<Rightarrow> bool" where
  "func_holds srv net Connected args \<longleftrightarrow>
     (\<exists>c \<in> set (GlobalClientList net). srv (client_at net c) \<and> glob (args ! 0) (peer_name (client_at net c)))"
| "func_holds srv net Directcon args \<longleftrightarrow>
     (\<exists>c. Some c \<in> set (LocalClientArray net) \<and> IsServer (client_at net c) \<and> glob (args ! 0) (peer_name (client_at net c)))"
| "func_holds srv net Via args \<longleftrightarrow>
     (\<exists>c \<in> set (GlobalClientList net). srv (client_at net c) \<and> glob (args ! 1) (peer_name (client_at net c))
        \<and> glob (args ! 0) (peer_name (client_at net (peer_from (client_at net c)))))"
| "func_holds srv net Directop args \<longleftrightarrow> (\<exists>c. Some c \<in> set (LocalClientArray net) \<and> IsAnOper (client_at net c))"

fun rule_holds :: "(peer \<Rightarrow> bool) \<Rightarrow> network \<Rightarrow> arg \<Rightarrow> bool" where
  "rule_holds srv net (Node (Func f args)) = (case f of None \<Rightarrow> False | Some g \<Rightarrow> func_holds srv net g args)"
| "rule_holds srv net (Node (AndOr a b isor)) =
     (if isor then rule_holds srv net a \<or> rule_holds srv net b else rule_holds srv net a \<and> rule_holds srv net b)"
| "rule_holds srv net (Node (NotNode a)) = (\<not> rule_holds srv net a)"
| "rule_holds srv net _ = False"

text \<open>The masks by which \<open>connected\<close> and \<open>via\<close> look for a server.\<close>

fun target_masks :: "arg \<Rightarrow> string set" where
  "target_masks (Node (Func f args)) =
     (case f of Some Connected \<Rightarrow> {args ! 0} | Some Via \<Rightarrow> {args ! 1} | _ \<Rightarrow> {})"
| "target_masks (Node (AndOr a b isor)) = target_masks a \<union> target_masks b"
| "target_masks (Node (NotNode a)) = target_masks a"
| "target_masks _ = {}"

text \<open>No such mask matches the name of this server.\<close>

definition spares_me :: "network \<Rightarrow> arg \<Rightarrow> bool" where
  "spares_me net a \<longleftrightarrow> (\<forall>c \<in> set (GlobalClientList net). IsMe (client_at net c) \<longrightarrow> (\<forall>m \<in> target_masks a. \<not> glob m (peer_name (client_at net c))))"

lemma spares_me_holds: "spares_me net a \<Longrightarrow> rule_holds server_or_me net a = rule_holds IsServer net a"
proof (induction a rule: target_masks.induct)
  case (1 f args)
  show ?case
  proof (cases f)
    case (Some g)
    then show ?thesis using 1 by (cases g) (auto simp: spares_me_def)
  qed simp
qed (auto simp: spares_me_def)

fun blocks :: "arg \<Rightarrow> nat" where
  "blocks (Node (Func f args)) = Suc (length args)"
| "blocks (Node (AndOr a b isor)) = Suc (blocks a + blocks b)"
| "blocks (Node (NotNode a)) = Suc (blocks a)"
| "blocks _ = 0"

definition names_ok :: "network \<Rightarrow> bool" where
  "names_ok net \<longleftrightarrow> (\<forall>c. cstring (peer_name (client_at net c)))"

lemma first_hit_ret: "(\<And>x. x \<in> set xs \<Longrightarrow> f x = returning (P x)) \<Longrightarrow> first_hit f xs = returning (\<exists>x \<in> set xs. P x)"
  by (induction xs) (simp_all add: returning_def)

lemma call_func_ret:
  assumes "names_ok net" "good_args S args" "length args = arity f" "NUL \<notin> S" "CHR 0x5C \<notin> S"
  shows "call_func net f args = returning (func_holds server_or_me net f args)"
proof -
  have m: "match a n = returning (if glob a n then 0 else 1)" if "a \<in> set args" "cstring n" for a n
  proof -
    have "a \<noteq> []" "set a \<subseteq> S" using assms(2) that by (auto simp: good_args_def)
    then have "cstring a" "\<forall>c \<in> set a. c \<noteq> CHR 0x5C" using assms(4,5) by (auto simp: cstring_def)
    then show ?thesis using match_exact that(2) \<open>a \<noteq> []\<close> by (simp add: returning_def)
  qed
  have n: "cstring (peer_name (client_at net c))" for c using assms(1) by (simp add: names_ok_def)
  show ?thesis
  proof (cases f)
    case Connected
    then have a: "args ! 0 \<in> set args" using assms(3) by simp
    show ?thesis unfolding Connected call_func.simps crule_connected_def
      by (subst first_hit_ret [where P = "\<lambda>c. server_or_me (client_at net c) \<and> glob (args ! 0) (peer_name (client_at net c))"])
         (use m [OF a n] in \<open>auto simp: masks_match_def returning_def Let_def\<close>)
  next
    case Directcon
    then have a: "args ! 0 \<in> set args" using assms(3) by simp
    show ?thesis unfolding Directcon call_func.simps crule_directcon_def
      by (subst first_hit_ret [where P = "\<lambda>x. \<exists>c. x = Some c \<and> IsServer (client_at net c) \<and> glob (args ! 0) (peer_name (client_at net c))"])
         (use m [OF a n] in \<open>auto simp: masks_match_def returning_def Let_def split: option.splits\<close>)
  next
    case Via
    then have a: "args ! 0 \<in> set args" "args ! 1 \<in> set args" using assms(3) by simp_all
    show ?thesis unfolding Via call_func.simps crule_via_def
      by (subst first_hit_ret [where P = "\<lambda>c. server_or_me (client_at net c) \<and> glob (args ! 1) (peer_name (client_at net c))
            \<and> glob (args ! 0) (peer_name (client_at net (peer_from (client_at net c))))"])
         (use m [OF a(1) n] m [OF a(2) n] in \<open>auto simp: masks_match_def returning_def Let_def\<close>)
  next
    case Directop
    show ?thesis unfolding Directop call_func.simps crule_directop_def
      by (subst first_hit_ret [where P = "\<lambda>x. \<exists>c. x = Some c \<and> IsAnOper (client_at net c)"])
         (auto simp: returning_def split: option.splits)
  qed
qed

lemma sound_eval:
  assumes "names_ok net" "NUL \<notin> S" "CHR 0x5C \<notin> S"
  shows "sound S a \<Longrightarrow> complete a \<Longrightarrow> crule_eval net a = returning (rule_holds server_or_me net a) \<and> crule_free a = Inr (blocks a)"
proof (induction a rule: blocks.induct)
  case (1 f args)
  then show ?case using call_func_ret [OF assms(1) _ _ assms(2,3)] by auto
next
  case (2 a b isor)
  then have "a \<noteq> Null" "b \<noteq> Null" by auto
  then show ?case using 2 by (simp add: returning_def)
next
  case (3 a)
  then show ?case by (simp add: returning_def)
qed simp_all

text \<open>Without that, a missing operand is the only thing that can go wrong.\<close>

lemma sound_eval_fault:
  assumes "names_ok net" "NUL \<notin> S" "CHR 0x5C \<notin> S"
  shows "sound S a \<Longrightarrow> (\<exists>v. crule_eval net a = returning v) \<or> crule_eval net a = Some (Inl NullDeref)"
proof (induction a rule: blocks.induct)
  case (1 f args)
  then show ?case using call_func_ret [OF assms(1) _ _ assms(2,3)] by auto
next
  case (2 a b isor)
  then consider "crule_eval net a = Some (Inl NullDeref)" | v where "crule_eval net a = returning v" by auto
  then show ?case
  proof cases
    case (2 v)
    then show ?thesis using "2.IH" "2.prems" by (cases isor; cases v) (auto simp: returning_def)
  qed simp
next
  case (3 a)
  then show ?case by (auto simp: returning_def)
qed simp_all

lemma parse_success:
  assumes "crule_parse rule = Some (Inr (e, a))" "a \<noteq> Null" "set rule \<subseteq> S" "CHR '' '' \<in> S"
  shows "e = CR_NOERR \<and> sound S a"
proof -
  obtain e1 tok s where g: "crule_gettoken rule = (e1, tok, s)" by (metis prod_cases3)
  have t: "tok_ok S tok s" by (rule gettoken_ok [OF g assms(3)])
  have "builds S (crule_parseorexpr (3 * length rule + 3) Null tok s)"
    using parser_builds [OF assms(4)] t by (simp add: unfinished_def)
  moreover obtain tok' s' where "crule_parseorexpr (3 * length rule + 3) Null tok s = Some (Inr (CR_NOERR, a, tok', s'))" "e = CR_NOERR"
    using assms(1,2) g
    by (auto simp: crule_parse_def returning_def run_bind_Inr_iff Let_def split: if_splits)
  ultimately show ?thesis by (auto simp: builds_def)
qed

section \<open>Printing and parsing back\<close>

definition arg_word :: "string \<Rightarrow> bool" where
  "arg_word a \<longleftrightarrow> a \<noteq> [] \<and> (IsAlpha (hd a) \<or> word_mark (hd a)) \<and> hd a \<noteq> CHR ''|'' \<and> list_all word_char a
     \<and> length a < CR_MAXARGLEN \<and> collapse a = a"

fun printable :: "arg \<Rightarrow> bool" where
  "printable (Node (Func f args)) = (\<exists>g. f = Some g \<and> length args = arity g \<and> list_all arg_word args)"
| "printable (Node (AndOr a b isor)) = (printable a \<and> printable b)"
| "printable (Node (NotNode a)) = printable a"
| "printable _ = False"

lemma gettoken_chars [simp]:
  "crule_gettoken (CHR '' '' # s) = crule_gettoken s"
  "crule_gettoken (CHR ''('' # s) = (CR_NOERR, CR_OPENPAREN, s)"
  "crule_gettoken (CHR '')'' # s) = (CR_NOERR, CR_CLOSEPAREN, s)"
  "crule_gettoken (CHR '','' # s) = (CR_NOERR, CR_COMMA, s)"
  "crule_gettoken (CHR ''!'' # s) = (CR_NOERR, CR_NOT, s)"
  "crule_gettoken (CHR ''|'' # CHR ''|'' # s) = (CR_NOERR, CR_OR, s)"
  "crule_gettoken (CHR ''&'' # CHR ''&'' # s) = (CR_NOERR, CR_AND, s)"
  by (simp_all add: crule_gettoken_def)

lemma gettoken_word_start:
  assumes "IsAlpha c \<or> word_mark c" "c \<noteq> CHR ''|''"
  shows "crule_gettoken (c # s) = (CR_NOERR, CR_WORD, c # s)"
proof -
  have "c \<notin> {CHR '' '', CHR 0x09, CHR ''&'', CHR ''!'', CHR ''('', CHR '')'', CHR '','', CHR '':''}"
    using assms(1) by (auto simp: IsAlpha_iff word_mark_def)
  then show ?thesis using assms by (simp add: crule_gettoken_def)
qed

lemma getword_append:
  "list_all word_char a \<Longrightarrow> length a \<le> n \<Longrightarrow> \<not> word_char c \<Longrightarrow> crule_getword n (a @ c # k) = (a, c # k)"
proof (induction a arbitrary: n)
  case Nil
  then show ?case by (cases n) simp_all
next
  case (Cons d a)
  then show ?case by (cases n) simp_all
qed

lemma not_word_char [simp]: "\<not> word_char (CHR ''('')" "\<not> word_char (CHR '')'')" "\<not> word_char (CHR '','')"
  by (simp_all add: word_char_def word_mark_def IsAlnum_iff IsAlpha_iff IsDigit_iff)

lemma arg_wordD:
  assumes "arg_word a" "\<not> word_char c"
  shows "crule_gettoken (a @ k) = (CR_NOERR, CR_WORD, a @ k)" "crule_getword (CR_MAXARGLEN - 1) (a @ c # k) = (a, c # k)"
    "append_word [] al a = (a, length a)" "collapse a = a" "a \<noteq> []"
proof -
  show ne: "a \<noteq> []" and "collapse a = a" using assms(1) by (simp_all add: arg_word_def)
  show "append_word [] al a = (a, length a)" by (simp add: append_word_def)
  show "crule_getword (CR_MAXARGLEN - 1) (a @ c # k) = (a, c # k)"
    by (rule getword_append) (use assms in \<open>auto simp: arg_word_def\<close>)
  have "crule_gettoken (hd a # tl a @ k) = (CR_NOERR, CR_WORD, hd a # tl a @ k)"
    by (rule gettoken_word_start) (use assms in \<open>simp_all add: arg_word_def\<close>)
  then show "crule_gettoken (a @ k) = (CR_NOERR, CR_WORD, a @ k)" using ne by (cases a) simp_all
qed

lemma parsearglist_args:
  "list_all arg_word (a # args) \<Longrightarrow> length pre + length (a # args) \<le> CR_MAXARGS \<Longrightarrow>
     crule_parsearglist pre [] al CR_WORD (comma_args (a # args) @ CHR '')'' # k) = Inr (CR_NOERR, pre @ a # args, CR_CLOSEPAREN, k)"
proof (induction args arbitrary: a pre al)
  case Nil
  then have a: "arg_word a" by simp
  have "crule_parsearglist pre a (length a) CR_CLOSEPAREN k = Inr (CR_NOERR, pre @ [a], CR_CLOSEPAREN, k)"
    using Nil arg_wordD(4,5) [OF a not_word_char(2)]
    by (simp add: crule_parsearglist.simps [of pre a] store_arg_def)
  then show ?case using arg_wordD(2,3) [OF a not_word_char(2)]
    by (simp add: crule_parsearglist.simps [of pre "[]"])
next
  case (Cons b args)
  then have a: "arg_word a" and b: "arg_word b" by simp_all
  let ?rest = "comma_args (b # args) @ CHR '')'' # k"
  have IH: "crule_parsearglist (pre @ [a]) [] (length a) CR_WORD ?rest = Inr (CR_NOERR, (pre @ [a]) @ b # args, CR_CLOSEPAREN, k)"
    by (rule Cons.IH) (use Cons.prems in simp_all)
  have "crule_gettoken ?rest = (CR_NOERR, CR_WORD, ?rest)"
    using arg_wordD(1) [OF b not_word_char(2)] by (cases args) simp_all
  then have "crule_parsearglist pre a (length a) CR_COMMA ?rest = Inr (CR_NOERR, pre @ a # b # args, CR_CLOSEPAREN, k)"
    using IH Cons.prems arg_wordD(4,5) [OF a not_word_char(2)]
    by (simp add: crule_parsearglist.simps [of pre a] store_arg_def del: comma_args.simps)
  then show ?case using arg_wordD(2,3) [OF a not_word_char(3)]
    by (simp add: crule_parsearglist.simps [of pre "[]"])
qed

lemma funclist_search_name: "funclist_search crule_funclist (func_name f) = Some (arity f, Some f)"
  by (cases f) (simp_all add: crule_funclist_def chattr_simps schar_inject)

lemma func_name_chars: "list_all IsAlpha (func_name f)" "length (func_name f) < CR_MAXARGLEN"
  by (cases f; simp add: IsAlpha_iff CR_MAXARGLEN_def)+

lemma func_name_word: "list_all word_char (func_name f)"
  using func_name_chars(1) by (auto simp: list_all_iff word_char_def IsAlnum_iff)

lemma func_name_start: "\<exists>c r. func_name f = c # r \<and> IsAlpha c \<and> c \<noteq> CHR ''|''"
  using func_name_chars(1) [of f] by (cases f) simp_all

lemma parse_printed_function:
  assumes "list_all arg_word args" "length args = arity f" "crule_gettoken k = (CR_NOERR, tok, k')"
  shows "crule_parsefunction (func_name f @ ''('' @ comma_args args @ '') '' @ k) = Inr (CR_NOERR, Node (Func (Some f) args), tok, k')"
proof -
  let ?args = "comma_args args @ '') '' @ k"
  have w: "crule_getword (CR_MAXARGLEN - 1) (func_name f @ ''('' @ ?args) = (func_name f, ''('' @ ?args)"
    using getword_append [of "func_name f" "CR_MAXARGLEN - 1" "CHR ''(''" ?args] func_name_word [of f] func_name_chars(2) [of f] by simp
  obtain t s where t: "crule_gettoken ?args = (CR_NOERR, t, s)"
    and p: "crule_parsearglist [] [] 0 t s = Inr (CR_NOERR, args, CR_CLOSEPAREN, '' '' @ k)"
  proof (cases args)
    case Nil
    then show ?thesis
      using that [of CR_CLOSEPAREN "'' '' @ k"] by (simp add: crule_parsearglist.simps [of "[]" "[]"] store_arg_def)
  next
    case (Cons a r)
    then have "crule_gettoken ?args = (CR_NOERR, CR_WORD, ?args)"
      using assms(1) arg_wordD(1) [OF _ not_word_char(2), of a] by (cases r) simp_all
    moreover have "length args \<le> CR_MAXARGS" using assms(2) by (cases f) (simp_all add: CR_MAXARGS_def)
    ultimately show ?thesis
      using that [of CR_WORD ?args] parsearglist_args [of a r "[]" 0 "'' '' @ k"] assms(1) Cons by simp
  qed
  show ?thesis
    using w t p funclist_search_name [of f] assms(2,3) by (simp add: crule_parsefunction_def)
qed

text \<open>An operand without operators, and one more operand at the end.\<close>

lemma single_operand:
  assumes "crule_parseprimary n True tok s = Some (Inr (CR_NOERR, a, tok', s'))" "tok' \<noteq> CR_AND"
  shows "crule_parseandexpr (Suc n) Null tok s = Some (Inr (CR_NOERR, a, tok', s'))"
    "tok' \<noteq> CR_OR \<Longrightarrow> crule_parseorexpr (Suc (Suc n)) Null tok s = Some (Inr (CR_NOERR, a, tok', s'))"
  using assms by (simp_all add: last_operand_def returning_def)

lemma and_operand:
  assumes "crule_parseprimary n True t1 s1 = Some (Inr (CR_NOERR, a, CR_AND, r1))"
    "crule_gettoken r1 = (CR_NOERR, t2, s2)" "b \<noteq> Null"
    "crule_parseprimary n True t2 s2 = Some (Inr (CR_NOERR, b, CR_CLOSEPAREN, r2))"
  shows "crule_parseorexpr (Suc (Suc (Suc n))) Null t1 s1 = Some (Inr (CR_NOERR, Node (AndOr a b False), CR_CLOSEPAREN, r2))"
proof -
  have le: "n \<le> Suc n" by simp
  have p: "crule_parseprimary (Suc n) True t1 s1 = Some (Inr (CR_NOERR, a, CR_AND, r1))"
    using assms(1) fuel_le [OF le] by blast
  have "crule_parseandexpr (Suc n) (new_andor Null a False) t2 s2 = Some (Inr (CR_NOERR, Node (AndOr a b False), CR_CLOSEPAREN, r2))"
    using assms(3,4) by (simp add: new_andor_def last_operand_def returning_def)
  then have "crule_parseandexpr (Suc (Suc n)) Null t1 s1 = Some (Inr (CR_NOERR, Node (AndOr a b False), CR_CLOSEPAREN, r2))"
    using p assms(2) by (subst crule_parseandexpr.simps(2)) (simp del: crule_parseandexpr.simps crule_parseprimary.simps)
  then show ?thesis by (simp add: last_operand_def returning_def del: crule_parseandexpr.simps)
qed

lemma or_operand:
  assumes "crule_parseprimary n True t1 s1 = Some (Inr (CR_NOERR, a, CR_OR, r1))"
    "crule_gettoken r1 = (CR_NOERR, t2, s2)" "b \<noteq> Null"
    "crule_parseprimary n True t2 s2 = Some (Inr (CR_NOERR, b, CR_CLOSEPAREN, r2))"
  shows "crule_parseorexpr (Suc (Suc (Suc n))) Null t1 s1 = Some (Inr (CR_NOERR, Node (AndOr a b True), CR_CLOSEPAREN, r2))"
proof -
  have le: "Suc n \<le> Suc (Suc n)" by simp
  have "crule_parseandexpr (Suc n) Null t1 s1 = Some (Inr (CR_NOERR, a, CR_OR, r1))"
    using single_operand(1) [OF assms(1)] by simp
  then have p: "crule_parseandexpr (Suc (Suc n)) Null t1 s1 = Some (Inr (CR_NOERR, a, CR_OR, r1))"
    using fuel_le [OF le] by blast
  have "crule_parseorexpr (Suc (Suc n)) (new_andor Null a True) t2 s2 = Some (Inr (CR_NOERR, Node (AndOr a b True), CR_CLOSEPAREN, r2))"
    using single_operand(1) [OF assms(4)] assms(3)
    by (simp add: new_andor_def last_operand_def returning_def del: crule_parseandexpr.simps)
  then show ?thesis
    using p assms(2) by (subst crule_parseorexpr.simps(2)) (simp del: crule_parseandexpr.simps crule_parseorexpr.simps)
qed

lemma in_parentheses:
  assumes "crule_gettoken s = (CR_NOERR, t1, s1)" "crule_gettoken k = (CR_NOERR, tok, k')" "a \<noteq> Null"
    "crule_parseorexpr n Null t1 s1 = Some (Inr (CR_NOERR, a, CR_CLOSEPAREN, k))"
  shows "crule_parseprimary (Suc n) outer CR_OPENPAREN s = Some (Inr (CR_NOERR, a, tok, k'))"
  using assms by (simp add: returning_def)

lemma parse_printed:
  "printable a \<Longrightarrow> print_tree a = Inr p \<Longrightarrow> crule_gettoken k = (CR_NOERR, tok, k') \<Longrightarrow>
     \<exists>t s n. crule_gettoken (p @ k) = (CR_NOERR, t, s) \<and>
       (\<forall>outer. crule_parseprimary n outer t s = Some (Inr (CR_NOERR, a, tok, k')))"
proof (induction a arbitrary: p k tok k' rule: printable.induct)
  case (1 f args)
  then obtain g where g: "f = Some g" "length args = arity g" "list_all arg_word args" by auto
  then have p: "p = func_name g @ ''('' @ comma_args args @ '') ''" using 1 by auto
  obtain c r where c: "func_name g = c # r" "IsAlpha c" "c \<noteq> CHR ''|''" using func_name_start by blast
  then have "crule_gettoken (p @ k) = (CR_NOERR, CR_WORD, p @ k)"
    using gettoken_word_start [of c "r @ ''('' @ comma_args args @ '') '' @ k"] p by simp
  moreover have "crule_parsefunction (p @ k) = Inr (CR_NOERR, Node (Func f args), tok, k')"
    using parse_printed_function [OF g(3,2) 1(3)] p g(1) by simp
  ultimately show ?case by (intro exI [of _ CR_WORD] exI [of _ "p @ k"] exI [of _ "Suc 0"]) simp
next
  case (2 a b isor)
  then obtain pa pb where pa: "print_tree a = Inr pa" and pb: "print_tree b = Inr pb"
    and p: "p = ''( '' @ pa @ (if isor then ''|| '' else ''&& '') @ pb @ '') ''" by (auto simp: res_bind_Inr_iff)
  let ?k1 = "(if isor then ''|| '' else ''&& '') @ pb @ '') '' @ k"
  have "crule_gettoken ('') '' @ k) = (CR_NOERR, CR_CLOSEPAREN, '' '' @ k)" by simp
  from "2.IH"(2) [OF _ pb this] obtain t2 s2 n2 where g2: "crule_gettoken (pb @ '') '' @ k) = (CR_NOERR, t2, s2)"
    and p2: "\<forall>outer. crule_parseprimary n2 outer t2 s2 = Some (Inr (CR_NOERR, b, CR_CLOSEPAREN, '' '' @ k))"
    using 2(3) by auto
  have "crule_gettoken ?k1 = (CR_NOERR, if isor then CR_OR else CR_AND, '' '' @ pb @ '') '' @ k)" by simp
  from "2.IH"(1) [OF _ pa this] obtain t1 s1 n1 where g1: "crule_gettoken (pa @ ?k1) = (CR_NOERR, t1, s1)"
    and p1: "\<forall>outer. crule_parseprimary n1 outer t1 s1
        = Some (Inr (CR_NOERR, a, if isor then CR_OR else CR_AND, '' '' @ pb @ '') '' @ k))"
    using 2(3) by auto
  define n where "n = max n1 n2"
  have le: "n1 \<le> n" "n2 \<le> n" by (simp_all add: n_def)
  have q1: "crule_parseprimary n True t1 s1 = Some (Inr (CR_NOERR, a, if isor then CR_OR else CR_AND, '' '' @ pb @ '') '' @ k))"
    using p1 fuel_le [OF le(1)] by blast
  have q2: "crule_parseprimary n True t2 s2 = Some (Inr (CR_NOERR, b, CR_CLOSEPAREN, '' '' @ k))"
    using p2 fuel_le [OF le(2)] by blast
  have b: "b \<noteq> Null" using 2(3) by auto
  have g2': "crule_gettoken ('' '' @ pb @ '') '' @ k) = (CR_NOERR, t2, s2)" using g2 by simp
  have "crule_parseorexpr (Suc (Suc (Suc n))) Null t1 s1 = Some (Inr (CR_NOERR, Node (AndOr a b isor), CR_CLOSEPAREN, '' '' @ k))"
    using and_operand [OF _ g2' b q2] or_operand [OF _ g2' b q2] q1 by (cases isor) simp_all
  then have "crule_parseprimary (Suc (Suc (Suc (Suc n)))) outer CR_OPENPAREN ('' '' @ pa @ ?k1)
      = Some (Inr (CR_NOERR, Node (AndOr a b isor), tok, k'))" for outer
    using g1 2(5) by (intro in_parentheses) simp_all
  moreover have "crule_gettoken (p @ k) = (CR_NOERR, CR_OPENPAREN, '' '' @ pa @ ?k1)" using p by simp
  ultimately show ?case by blast
next
  case (3 a)
  then obtain pa where pa: "print_tree a = Inr pa" and p: "p = ''!( '' @ pa @ '') ''" by (auto simp: res_bind_Inr_iff)
  have "crule_gettoken ('') '' @ k) = (CR_NOERR, CR_CLOSEPAREN, '' '' @ k)" by simp
  from "3.IH" [OF _ pa this] obtain t1 s1 n where g1: "crule_gettoken (pa @ '') '' @ k) = (CR_NOERR, t1, s1)"
    and p1: "crule_parseprimary n True t1 s1 = Some (Inr (CR_NOERR, a, CR_CLOSEPAREN, '' '' @ k))"
    using 3(2) by auto
  have a: "a \<noteq> Null" using 3(2) by auto
  have "crule_parseorexpr (Suc (Suc n)) Null t1 s1 = Some (Inr (CR_NOERR, a, CR_CLOSEPAREN, '' '' @ k))"
    using single_operand(2) [OF p1] by simp
  then have i: "crule_parseprimary (Suc (Suc (Suc n))) False CR_OPENPAREN ('' '' @ pa @ '') '' @ k) = Some (Inr (CR_NOERR, a, tok, k'))"
    using g1 3(4) a by (intro in_parentheses) simp_all
  have "crule_parseprimary (Suc (Suc (Suc (Suc n)))) outer CR_NOT (''( '' @ pa @ '') '' @ k)
      = Some (Inr (CR_NOERR, Node (NotNode a), tok, k'))" for outer
    using i by (subst crule_parseprimary.simps(2)) (simp add: returning_def del: crule_parseprimary.simps)
  moreover have "crule_gettoken (p @ k) = (CR_NOERR, CR_NOT, ''( '' @ pa @ '') '' @ k)" using p by simp
  ultimately show ?case by blast
qed simp_all

lemma print_tree_printable: "printable a \<Longrightarrow> \<exists>p. print_tree a = Inr p"
  by (induction a rule: printable.induct) auto

lemma printable_Node: "printable a \<Longrightarrow> a \<noteq> Null"
  by auto

lemma parse_print:
  assumes "printable a"
  shows "\<exists>p. print_tree a = Inr p \<and> crule_parse p = returning (CR_NOERR, a)"
proof -
  obtain p where p: "print_tree a = Inr p" using print_tree_printable [OF assms] by blast
  have "crule_gettoken [] = (CR_NOERR, CR_END, [])" by (simp add: crule_gettoken_def)
  from parse_printed [OF assms p this] obtain t s n where g: "crule_gettoken p = (CR_NOERR, t, s)"
    and q: "crule_parseprimary n True t s = Some (Inr (CR_NOERR, a, CR_END, []))" by auto
  let ?f = "3 * length p + 3"
  have "crule_parseorexpr (Suc (Suc n)) Null t s = Some (Inr (CR_NOERR, a, CR_END, []))"
    using single_operand(2) [OF q] by simp
  then have m: "crule_parseorexpr (max (Suc (Suc n)) ?f) Null t s = Some (Inr (CR_NOERR, a, CR_END, []))"
    using fuel_le [of "Suc (Suc n)" "max (Suc (Suc n)) ?f"] by simp
  have "returns (crule_parseorexpr ?f Null t s) (pending_chars t s)"
    by (rule parseorexpr_returns) (use gettoken_shrinks [OF g] in linarith)
  then obtain y where y: "crule_parseorexpr ?f Null t s = Some y" by (auto simp: returns_def)
  then have "crule_parseorexpr (max (Suc (Suc n)) ?f) Null t s = Some y"
    using fuel_le [of ?f "max (Suc (Suc n)) ?f"] by (simp add: max_def)
  then have "y = Inr (CR_NOERR, a, CR_END, [])" using m by simp
  then have "crule_parse p = returning (CR_NOERR, a)" using g y printable_Node [OF assms] by (simp add: crule_parse_def returning_def)
  then show ?thesis using p by blast
qed


section \<open>Theorems\<close>

text \<open>
  Parsing ends for every rule text, whatever it contains, within the fuel \<open>crule_parse\<close> passes on.
\<close>

theorem crule_parse_returns: "\<exists>r. crule_parse rule = Some r"
  using crule_parse_defined [of rule] by auto

text \<open>
  C26: a rule the parser returns is well formed: it comes with no error, every field of it was written,
  every function has the number of arguments its evaluation reads. For a text without backslashes,
  evaluating it yields a truth value or dereferences a missing operand, and nothing else.
\<close>

theorem crule_parse_sound:
  assumes "crule_parse rule = Some (Inr (e, a))" "a \<noteq> Null" "cstring rule" "CHR 0x5C \<notin> set rule" "names_ok net"
  shows "e = CR_NOERR \<and> sound (insert (CHR '' '') (set rule)) a
    \<and> ((\<exists>v. crule_eval net a = returning v) \<or> crule_eval net a = Some (Inl NullDeref))"
proof -
  let ?S = "insert (CHR '' '') (set rule)"
  have S: "NUL \<notin> ?S" "CHR 0x5C \<notin> ?S" using assms(3,4) by (auto simp: cstring_def)
  have "e = CR_NOERR \<and> sound ?S a" by (rule parse_success [OF assms(1,2)]) auto
  then show ?thesis using sound_eval_fault [OF assms(5) S] by blast
qed

lemmas parse_eval =
  crule_parse_def crule_parsefunction_def crule_parsearglist.simps crule_gettoken_def append_word_def store_arg_def
  CR_MAXARGLEN_def CR_MAXARGS_def word_char_def word_mark_def crule_funclist_def IsAlnum_iff IsAlpha_iff
  IsDigit_iff new_andor_def last_operand_def returning_def numeral_eq_Suc chattr_simps schar_inject

lemma parse_not_directop: "crule_parse ''!directop()'' = returning (CR_NOERR, Node (NotNode (Node (Func (Some Directop) []))))"
  by (simp add: parse_eval)

definition example_net :: network where
  "example_net = \<lparr>GlobalClientList = [], LocalClientArray = [], client_at =
     (\<lambda>_. \<lparr>cli_status = STAT_USER, cli_flags = [], cli_since = 0, cli_lasttime = 0, cli_error = 0,
          peer_name = ''x'', peer_from = 0\<rparr>)\<rparr>"

lemma example_names_ok: "names_ok example_net"
  by (simp add: names_ok_def example_net_def)

theorem crule_parse_sound_witness:
  "sound (insert (CHR '' '') (set ''!directop()'')) (Node (NotNode (Node (Func (Some Directop) []))))"
  using crule_parse_sound [OF parse_not_directop [unfolded returning_def] _ _ _ example_names_ok] by simp

text \<open>
  C25: a rule whose operands are all present holds exactly when its formula does, with \<open>connected\<close> and
  \<open>via\<close> true also of this server itself, which their documentation excludes; when no mask they look for
  matches the name of this server, all functions are read as documented. Releasing the rule returns
  each of its blocks once.
\<close>

theorem crule_eval_correct:
  assumes "crule_parse rule = Some (Inr (e, a))" "complete a" "cstring rule" "CHR 0x5C \<notin> set rule" "names_ok net"
  shows "crule_eval net a = returning (rule_holds server_or_me net a)
    \<and> (spares_me net a \<longrightarrow> crule_eval net a = returning (rule_holds IsServer net a)) \<and> crule_free a = Inr (blocks a)"
proof -
  let ?S = "insert (CHR '' '') (set rule)"
  have S: "NUL \<notin> ?S" "CHR 0x5C \<notin> ?S" using assms(3,4) by (auto simp: cstring_def)
  have "a \<noteq> Null" using assms(2) by auto
  then have "sound ?S a" using parse_success [OF assms(1), of ?S] by auto
  then show ?thesis using sound_eval [OF assms(5) S] assms(2) spares_me_holds [of net a] by simp
qed

theorem crule_eval_correct_witness:
  "crule_eval example_net (Node (NotNode (Node (Func (Some Directop) [])))) = returning True
    \<and> crule_free (Node (NotNode (Node (Func (Some Directop) [])))) = Inr 2"
  using crule_eval_correct [OF parse_not_directop [unfolded returning_def] _ _ _ example_names_ok]
  by (simp add: example_net_def)

text \<open>
  C24: printing a rule tree and parsing the text gives the same tree, for trees whose arguments are
  single collapsed masks that fit the argument buffer.
\<close>

theorem crule_print_parse:
  assumes "printable a"
  shows "\<exists>p. print_tree a = Inr p \<and> crule_parse p = returning (CR_NOERR, a)"
  by (rule parse_print [OF assms])

lemma collapse_id: "CHR ''*'' \<notin> set a \<Longrightarrow> CHR 0x5C \<notin> set a \<Longrightarrow> collapse a = a"
  by (induction a) auto

theorem crule_print_parse_witness:
  "\<exists>p. print_tree (Node (AndOr (Node (Func (Some Via) [''hub'', ''eu'']))
         (Node (NotNode (Node (Func (Some Directop) [])))) True)) = Inr p
     \<and> crule_parse p = returning (CR_NOERR, Node (AndOr (Node (Func (Some Via) [''hub'', ''eu'']))
         (Node (NotNode (Node (Func (Some Directop) [])))) True))"
proof (rule crule_print_parse)
  show "printable (Node (AndOr (Node (Func (Some Via) [''hub'', ''eu''])) (Node (NotNode (Node (Func (Some Directop) [])))) True))"
    by (simp add: arg_word_def word_char_def IsAlnum_iff IsAlpha_iff CR_MAXARGLEN_def)
qed

text \<open>
  What the parser lets through: a rule with its first operand missing is accepted and its
  evaluation dereferences a null pointer; an unknown character after an operator makes the clean-up
  follow a pointer that was never written; and a fourth argument is written past the argument array.
\<close>

theorem crule_parse_defects:
  "crule_parse ''||directop()'' = returning (CR_NOERR, Node (AndOr Null (Node (Func (Some Directop) [])) True))
    \<and> crule_eval net (Node (AndOr Null (Node (Func (Some Directop) [])) True)) = Some (Inl NullDeref)
    \<and> crule_parse ''directop()||#'' = Some (Inl Indeterminate)
    \<and> crule_parse ''via(a,b,c,d)'' = Some (Inl OutOfBounds)"
proof (intro conjI)
  show "crule_parse ''||directop()'' = returning (CR_NOERR, Node (AndOr Null (Node (Func (Some Directop) [])) True))"
    by (simp add: parse_eval)
  show "crule_parse ''directop()||#'' = Some (Inl Indeterminate)" by (simp add: parse_eval)
  show "crule_parse ''via(a,b,c,d)'' = Some (Inl OutOfBounds)" by (simp add: parse_eval)
qed simp

end
