(* ===== verification/Msgtree.thy ===== *)
theory Msgtree
  imports Chattr
begin

text \<open>
  The command table and the trie that finds a command in it (\<open>ircd/parse.c\<close>, \<open>include/msg.h\<close>).
  A message is known by its position in \<open>msgtab\<close>; a message handler by the name of its function.
  A trie node holds a position and the array of child pointers, indexed by the low five bits of a
  character.
\<close>

section \<open>The command table\<close>

definition MAXPARA :: nat where "MAXPARA = 15"
definition MFLG_SLOW :: u32 where "MFLG_SLOW = 0x01"
definition MFLG_UNREG :: u32 where "MFLG_UNREG = 0x02"
definition MFLG_IGNORE :: u32 where "MFLG_IGNORE = 0x04"

record Message =
  msg_cmd :: string
  msg_tok :: string
  msg_parameters :: nat
  msg_flags :: u32
  msg_handlers :: "string list"

definition msg :: "string \<Rightarrow> string \<Rightarrow> nat \<Rightarrow> u32 \<Rightarrow> string list \<Rightarrow> Message" where
  "msg c t n f hs = \<lparr>msg_cmd = c, msg_tok = t, msg_parameters = n, msg_flags = f, msg_handlers = hs\<rparr>"

definition msgtab1 :: "Message list" where
  "msgtab1 = [
     msg ''PRIVMSG'' ''P'' MAXPARA MFLG_SLOW [''m_unregistered'', ''m_privmsg'', ''ms_privmsg'', ''mo_privmsg'', ''m_ignore''],
     msg ''NICK'' ''N'' MAXPARA (MFLG_SLOW OR MFLG_UNREG) [''m_nick'', ''m_nick'', ''ms_nick'', ''m_nick'', ''m_ignore''],
     msg ''NOTICE'' ''O'' MAXPARA (MFLG_SLOW OR MFLG_IGNORE) [''m_ignore'', ''m_notice'', ''ms_notice'', ''mo_notice'', ''m_ignore''],
     msg ''WALLCHOPS'' ''WC'' MAXPARA MFLG_SLOW [''m_unregistered'', ''m_wallchops'', ''ms_wallchops'', ''m_wallchops'', ''m_ignore''],
     msg ''WALLHOPS'' ''WH'' MAXPARA MFLG_SLOW [''m_unregistered'', ''m_wallhops'', ''ms_wallhops'', ''m_wallhops'', ''m_ignore''],
     msg ''WALLVOICES'' ''WV'' MAXPARA MFLG_SLOW [''m_unregistered'', ''m_wallvoices'', ''ms_wallvoices'', ''m_wallvoices'', ''m_ignore''],
     msg ''CPRIVMSG'' ''CP'' MAXPARA MFLG_SLOW [''m_unregistered'', ''m_cprivmsg'', ''m_ignore'', ''m_cprivmsg'', ''m_ignore''],
     msg ''CNOTICE'' ''CN'' MAXPARA MFLG_SLOW [''m_unregistered'', ''m_cnotice'', ''m_ignore'', ''m_cnotice'', ''m_ignore''],
     msg ''CHALLENGE'' ''CH'' MAXPARA MFLG_SLOW [''m_unregistered'', ''m_challenge'', ''ms_challenge'', ''mo_challenge'', ''m_ignore''],
     msg ''JOIN'' ''J'' MAXPARA MFLG_SLOW [''m_unregistered'', ''m_join'', ''ms_join'', ''m_join'', ''m_ignore''],
     msg ''SVSJOIN'' ''SJ'' MAXPARA MFLG_SLOW [''m_unregistered'', ''m_ignore'', ''ms_svsjoin'', ''m_ignore'', ''m_ignore''],
     msg ''MODE'' ''M'' MAXPARA MFLG_SLOW [''m_unregistered'', ''m_mode'', ''ms_mode'', ''m_mode'', ''m_ignore''],
     msg ''BURST'' ''B'' MAXPARA MFLG_SLOW [''m_ignore'', ''m_ignore'', ''ms_burst'', ''m_ignore'', ''m_ignore''],
     msg ''REBURST'' ''RB'' MAXPARA MFLG_SLOW [''m_ignore'', ''m_ignore'', ''ms_reburst'', ''m_ignore'', ''m_ignore''],
     msg ''CREATE'' ''C'' MAXPARA MFLG_SLOW [''m_ignore'', ''m_ignore'', ''ms_create'', ''m_ignore'', ''m_ignore''],
     msg ''DESTRUCT'' ''DE'' MAXPARA MFLG_SLOW [''m_ignore'', ''m_ignore'', ''ms_destruct'', ''m_ignore'', ''m_ignore''],
     msg ''QUIT'' ''Q'' MAXPARA (MFLG_SLOW OR MFLG_UNREG) [''m_quit'', ''m_quit'', ''ms_quit'', ''m_quit'', ''m_ignore''],
     msg ''PART'' ''L'' MAXPARA MFLG_SLOW [''m_unregistered'', ''m_part'', ''ms_part'', ''m_part'', ''m_ignore''],
     msg ''SVSPART'' ''SP'' MAXPARA MFLG_SLOW [''m_unregistered'', ''m_ignore'', ''ms_svspart'', ''m_ignore'', ''m_ignore''],
     msg ''TOPIC'' ''T'' MAXPARA MFLG_SLOW [''m_unregistered'', ''m_topic'', ''ms_topic'', ''m_topic'', ''m_ignore''],
     msg ''INVITE'' ''I'' MAXPARA MFLG_SLOW [''m_unregistered'', ''m_invite'', ''ms_invite'', ''m_invite'', ''m_ignore'']]"

definition msgtab2 :: "Message list" where
  "msgtab2 = [
     msg ''IRCOPS'' ''IR'' MAXPARA MFLG_SLOW [''m_ignore'', ''m_ircops'', ''m_ignore'', ''m_ircops'', ''m_ignore''],
     msg ''KICK'' ''K'' MAXPARA MFLG_SLOW [''m_unregistered'', ''m_kick'', ''ms_kick'', ''m_kick'', ''m_ignore''],
     msg ''WALLOPS'' ''WA'' MAXPARA MFLG_SLOW [''m_unregistered'', ''m_not_oper'', ''ms_wallops'', ''mo_wallops'', ''m_ignore''],
     msg ''WALLUSERS'' ''WU'' MAXPARA MFLG_SLOW [''m_unregistered'', ''m_not_oper'', ''ms_wallusers'', ''mo_wallusers'', ''m_ignore''],
     msg ''DESYNCH'' ''DS'' MAXPARA MFLG_SLOW [''m_ignore'', ''m_ignore'', ''ms_desynch'', ''m_ignore'', ''m_ignore''],
     msg ''PING'' ''G'' MAXPARA MFLG_SLOW [''m_unregistered'', ''m_ping'', ''ms_ping'', ''mo_ping'', ''m_ignore''],
     msg ''PONG'' ''Z'' MAXPARA (MFLG_SLOW OR MFLG_UNREG) [''mr_pong'', ''m_pong'', ''ms_pong'', ''m_pong'', ''m_ignore''],
     msg ''ERROR'' ''Y'' MAXPARA (MFLG_SLOW OR MFLG_UNREG) [''mr_error'', ''m_ignore'', ''ms_error'', ''m_ignore'', ''m_ignore''],
     msg ''KILL'' ''D'' MAXPARA MFLG_SLOW [''m_unregistered'', ''m_not_oper'', ''ms_kill'', ''mo_kill'', ''m_ignore''],
     msg ''USER'' ''USER'' MAXPARA MFLG_SLOW [''m_user'', ''m_registered'', ''m_ignore'', ''m_registered'', ''m_ignore''],
     msg ''AWAY'' ''A'' MAXPARA MFLG_SLOW [''m_unregistered'', ''m_away'', ''ms_away'', ''m_away'', ''m_ignore''],
     msg ''ISON'' ''ISON'' 1 MFLG_SLOW [''m_unregistered'', ''m_ison'', ''m_ignore'', ''m_ison'', ''m_ignore''],
     msg ''SERVER'' ''S'' MAXPARA (MFLG_SLOW OR MFLG_UNREG) [''mr_server'', ''m_registered'', ''ms_server'', ''m_registered'', ''m_ignore''],
     msg ''SQUIT'' ''SQ'' MAXPARA MFLG_SLOW [''m_unregistered'', ''m_not_oper'', ''ms_squit'', ''mo_squit'', ''m_ignore''],
     msg ''WHOIS'' ''W'' MAXPARA MFLG_SLOW [''m_unregistered'', ''m_whois'', ''ms_whois'', ''m_whois'', ''m_ignore''],
     msg ''WHO'' ''H'' MAXPARA MFLG_SLOW [''m_unregistered'', ''m_who'', ''m_ignore'', ''m_who'', ''m_ignore''],
     msg ''WHOWAS'' ''X'' MAXPARA MFLG_SLOW [''m_unregistered'', ''m_whowas'', ''m_whowas'', ''m_whowas'', ''m_ignore''],
     msg ''LIST'' ''LIST'' MAXPARA MFLG_SLOW [''m_unregistered'', ''m_list'', ''m_ignore'', ''m_list'', ''m_ignore''],
     msg ''ALIST'' ''ALIST'' MAXPARA MFLG_SLOW [''m_unregistered'', ''m_alist'', ''ms_alist'', ''m_alist'', ''m_ignore''],
     msg ''NAMES'' ''E'' MAXPARA MFLG_SLOW [''m_unregistered'', ''m_names'', ''ms_names'', ''m_names'', ''m_ignore''],
     msg ''USERHOST'' ''USERHOST'' 1 MFLG_SLOW [''m_unregistered'', ''m_userhost'', ''m_ignore'', ''m_userhost'', ''m_ignore'']]"

definition msgtab3 :: "Message list" where
  "msgtab3 = [
     msg ''USERIP'' ''USERIP'' 1 MFLG_SLOW [''m_unregistered'', ''m_userip'', ''m_ignore'', ''m_userip'', ''m_ignore''],
     msg ''TRACE'' ''TR'' MAXPARA MFLG_SLOW [''m_unregistered'', ''m_trace'', ''ms_trace'', ''mo_trace'', ''m_ignore''],
     msg ''PASS'' ''PA'' MAXPARA (MFLG_SLOW OR MFLG_UNREG) [''mr_pass'', ''m_registered'', ''m_ignore'', ''m_registered'', ''m_ignore''],
     msg ''LUSERS'' ''LU'' MAXPARA MFLG_SLOW [''m_unregistered'', ''m_lusers'', ''ms_lusers'', ''m_lusers'', ''m_ignore''],
     msg ''TIME'' ''TI'' MAXPARA MFLG_SLOW [''m_unregistered'', ''m_time'', ''m_time'', ''m_time'', ''m_ignore''],
     msg ''SETTIME'' ''SE'' MAXPARA MFLG_SLOW [''m_unregistered'', ''m_ignore'', ''ms_settime'', ''mo_settime'', ''m_ignore''],
     msg ''RPING'' ''RI'' MAXPARA MFLG_SLOW [''m_unregistered'', ''m_not_oper'', ''ms_rping'', ''mo_rping'', ''m_ignore''],
     msg ''RPONG'' ''RO'' MAXPARA MFLG_SLOW [''m_unregistered'', ''m_ignore'', ''ms_rpong'', ''m_ignore'', ''m_ignore''],
     msg ''OPER'' ''OPER'' MAXPARA MFLG_SLOW [''m_unregistered'', ''m_oper'', ''ms_oper'', ''mo_oper'', ''m_ignore''],
     msg ''CONNECT'' ''CO'' MAXPARA MFLG_SLOW [''m_unregistered'', ''m_not_oper'', ''ms_connect'', ''mo_connect'', ''m_ignore''],
     msg ''MAP'' ''MAP'' MAXPARA MFLG_SLOW [''m_unregistered'', ''m_map'', ''m_ignore'', ''m_map'', ''m_ignore''],
     msg ''VERSION'' ''V'' MAXPARA (MFLG_SLOW OR MFLG_UNREG) [''m_version'', ''m_version'', ''ms_version'', ''mo_version'', ''m_ignore''],
     msg ''STATS'' ''R'' MAXPARA MFLG_SLOW [''m_unregistered'', ''m_stats'', ''m_stats'', ''m_stats'', ''m_ignore''],
     msg ''LINKS'' ''LI'' MAXPARA MFLG_SLOW [''m_unregistered'', ''m_links'', ''ms_links'', ''m_links'', ''m_ignore''],
     msg ''ADMIN'' ''AD'' MAXPARA (MFLG_SLOW OR MFLG_UNREG) [''m_admin'', ''m_admin'', ''ms_admin'', ''mo_admin'', ''m_ignore''],
     msg ''COMMANDS'' ''COMMANDS'' MAXPARA MFLG_SLOW [''m_unregistered'', ''m_commands'', ''m_ignore'', ''m_commands'', ''m_ignore''],
     msg ''HELP'' ''HELP'' MAXPARA MFLG_SLOW [''m_unregistered'', ''m_help'', ''m_ignore'', ''mo_help'', ''m_ignore''],
     msg ''UHELP'' ''UHELP'' MAXPARA MFLG_SLOW [''m_unregistered'', ''m_ignore'', ''m_ignore'', ''mo_uhelp'', ''m_ignore''],
     msg ''INFO'' ''F'' MAXPARA MFLG_SLOW [''m_unregistered'', ''m_info'', ''ms_info'', ''mo_info'', ''m_ignore''],
     msg ''CREDITS'' ''F'' MAXPARA MFLG_SLOW [''m_unregistered'', ''m_info'', ''ms_info'', ''mo_info'', ''m_ignore''],
     msg ''COPYRIGHT'' ''CR'' MAXPARA MFLG_SLOW [''m_unregistered'', ''m_copyright'', ''ms_copyright'', ''m_copyright'', ''m_ignore'']]"

definition msgtab4 :: "Message list" where
  "msgtab4 = [
     msg ''ISNEF'' ''ISNEF'' MAXPARA MFLG_SLOW [''m_unregistered'', ''m_isnef'', ''m_ignore'', ''m_isnef'', ''m_ignore''],
     msg ''MOTD'' ''MO'' MAXPARA MFLG_SLOW [''m_unregistered'', ''m_motd'', ''m_motd'', ''m_motd'', ''m_ignore''],
     msg ''CLOSE'' ''CLOSE'' MAXPARA MFLG_SLOW [''m_unregistered'', ''m_not_oper'', ''m_ignore'', ''mo_close'', ''m_ignore''],
     msg ''SILENCE'' ''U'' MAXPARA MFLG_SLOW [''m_unregistered'', ''m_silence'', ''ms_silence'', ''m_silence'', ''m_ignore''],
     msg ''EXEMPT'' ''EX'' MAXPARA MFLG_SLOW [''m_unregistered'', ''m_not_oper'', ''ms_exempt'', ''mo_exempt'', ''m_ignore''],
     msg ''GLINE'' ''GL'' MAXPARA 0 [''m_unregistered'', ''m_gline'', ''ms_gline'', ''mo_gline'', ''m_ignore''],
     msg ''ZLINE'' ''ZL'' MAXPARA 0 [''m_unregistered'', ''m_zline'', ''ms_zline'', ''mo_zline'', ''m_ignore''],
     msg ''SHUN'' ''SU'' MAXPARA 0 [''m_unregistered'', ''m_shun'', ''ms_shun'', ''mo_shun'', ''m_ignore''],
     msg ''JUPE'' ''JU'' MAXPARA MFLG_SLOW [''m_unregistered'', ''m_not_oper'', ''ms_jupe'', ''mo_jupe'', ''m_ignore''],
     msg ''OPMODE'' ''OM'' MAXPARA MFLG_SLOW [''m_unregistered'', ''m_not_oper'', ''ms_opmode'', ''mo_opmode'', ''m_ignore''],
     msg ''CLEARMODE'' ''CM'' MAXPARA MFLG_SLOW [''m_unregistered'', ''m_not_oper'', ''ms_clearmode'', ''mo_clearmode'', ''m_ignore''],
     msg ''UPING'' ''UP'' MAXPARA MFLG_SLOW [''m_unregistered'', ''m_not_oper'', ''ms_uping'', ''mo_uping'', ''m_ignore''],
     msg ''END_OF_BURST'' ''EB'' MAXPARA MFLG_SLOW [''m_ignore'', ''m_ignore'', ''ms_end_of_burst'', ''m_ignore'', ''m_ignore''],
     msg ''EOB_ACK'' ''EA'' MAXPARA 1 [''m_ignore'', ''m_ignore'', ''ms_end_of_burst_ack'', ''m_ignore'', ''m_ignore''],
     msg ''HASH'' ''HASH'' MAXPARA MFLG_SLOW [''m_unregistered'', ''m_hash'', ''m_hash'', ''m_hash'', ''m_ignore''],
     msg ''DNS'' ''DNS'' MAXPARA MFLG_SLOW [''m_unregistered'', ''m_ignore'', ''m_ignore'', ''m_dns'', ''m_ignore''],
     msg ''REHASH'' ''RH'' MAXPARA MFLG_SLOW [''m_unregistered'', ''m_not_oper'', ''ms_rehash'', ''mo_rehash'', ''m_ignore''],
     msg ''RESTART'' ''RS'' MAXPARA MFLG_SLOW [''m_unregistered'', ''m_not_oper'', ''ms_restart'', ''mo_restart'', ''m_ignore''],
     msg ''DIE'' ''DI'' MAXPARA MFLG_SLOW [''m_unregistered'', ''m_not_oper'', ''ms_die'', ''mo_die'', ''m_ignore''],
     msg ''PROTO'' ''PROTO'' MAXPARA MFLG_SLOW [''m_proto'', ''m_proto'', ''m_proto'', ''m_proto'', ''m_ignore''],
     msg ''SET'' ''SET'' MAXPARA MFLG_SLOW [''m_unregistered'', ''m_not_oper'', ''ms_set'', ''mo_set'', ''m_ignore'']]"

definition msgtab5 :: "Message list" where
  "msgtab5 = [
     msg ''RESET'' ''RESET'' MAXPARA MFLG_SLOW [''m_unregistered'', ''m_not_oper'', ''m_ignore'', ''mo_reset'', ''m_ignore''],
     msg ''GET'' ''GET'' MAXPARA MFLG_SLOW [''m_unregistered'', ''m_not_oper'', ''m_ignore'', ''mo_get'', ''m_ignore''],
     msg ''PRIVS'' ''PRIVS'' MAXPARA MFLG_SLOW [''m_unregistered'', ''m_not_oper'', ''ms_privs'', ''mo_privs'', ''m_ignore''],
     msg ''ACCOUNT'' ''AC'' MAXPARA MFLG_SLOW [''m_ignore'', ''m_ignore'', ''ms_account'', ''m_ignore'', ''m_ignore''],
     msg ''MKPASSWD'' ''MKPASSWD'' MAXPARA MFLG_SLOW [''m_ignore'', ''mo_mkpasswd'', ''m_ignore'', ''mo_mkpasswd'', ''m_ignore''],
     msg ''ASLL'' ''LL'' MAXPARA MFLG_SLOW [''m_ignore'', ''m_not_oper'', ''ms_asll'', ''mo_asll'', ''m_ignore''],
     msg ''SETHOST'' ''SH'' MAXPARA MFLG_SLOW [''m_unregistered'', ''m_sethost'', ''m_ignore'', ''m_sethost'', ''m_ignore''],
     msg ''FAKE'' ''FA'' MAXPARA MFLG_SLOW [''m_ignore'', ''m_ignore'', ''ms_fakehost'', ''m_ignore'', ''m_ignore''],
     msg ''CHECK'' ''CC'' MAXPARA MFLG_SLOW [''m_unregistered'', ''m_not_oper'', ''mo_check'', ''mo_check'', ''m_ignore''],
     msg ''RULES'' ''RL'' MAXPARA MFLG_SLOW [''m_unregistered'', ''m_rules'', ''ms_rules'', ''m_rules'', ''m_ignore''],
     msg ''OPERMOTD'' ''OPM'' MAXPARA MFLG_SLOW [''m_unregistered'', ''m_not_oper'', ''ms_opermotd'', ''m_opermotd'', ''m_ignore''],
     msg ''SVSNICK'' ''SN'' MAXPARA MFLG_SLOW [''m_ignore'', ''m_ignore'', ''ms_svsnick'', ''m_ignore'', ''m_ignore''],
     msg ''SVSMODE'' ''SM'' MAXPARA MFLG_SLOW [''m_ignore'', ''m_ignore'', ''ms_svsmode'', ''m_ignore'', ''m_ignore''],
     msg ''SVSIDENT'' ''SID'' MAXPARA MFLG_SLOW [''m_ignore'', ''m_ignore'', ''ms_svsident'', ''m_ignore'', ''m_ignore''],
     msg ''SVSINFO'' ''SI'' MAXPARA MFLG_SLOW [''m_ignore'', ''m_ignore'', ''ms_svsinfo'', ''m_ignore'', ''m_ignore''],
     msg ''SVSQUIT'' ''SX'' MAXPARA MFLG_SLOW [''m_ignore'', ''m_ignore'', ''ms_svsquit'', ''m_ignore'', ''m_ignore''],
     msg ''SVSNOOP'' ''SO'' MAXPARA MFLG_SLOW [''m_unregistered'', ''m_ignore'', ''ms_svsnoop'', ''m_ignore'', ''m_ignore''],
     msg ''SWHOIS'' ''SW'' MAXPARA MFLG_SLOW [''m_unregistered'', ''m_ignore'', ''ms_swhois'', ''m_ignore'', ''m_ignore''],
     msg ''MARK'' ''MK'' MAXPARA MFLG_SLOW [''m_unregistered'', ''m_ignore'', ''ms_mark'', ''m_ignore'', ''m_ignore''],
     msg ''SPAMFILTER'' ''SF'' MAXPARA MFLG_SLOW [''m_unregistered'', ''m_not_oper'', ''ms_spamfilter'', ''mo_spamfilter'', ''m_ignore''],
     msg ''WATCH'' ''WATCH'' MAXPARA MFLG_SLOW [''m_ignore'', ''m_watch'', ''m_ignore'', ''m_watch'', ''m_ignore'']]"

definition msgtab6 :: "Message list" where
  "msgtab6 = [
     msg ''FINGERPRINT'' ''FINGERPRINT'' MAXPARA MFLG_SLOW [''m_ignore'', ''m_fingerprint'', ''m_ignore'', ''mo_fingerprint'', ''m_ignore''],
     msg ''WEBIRC'' ''WEBIRC'' MAXPARA MFLG_SLOW [''m_webirc'', ''m_registered'', ''m_ignore'', ''m_registered'', ''m_ignore''],
     msg ''WEBIRCEXTRA'' ''WEBIRCEXTRA'' MAXPARA MFLG_SLOW [''m_webircextra'', ''m_registered'', ''m_ignore'', ''m_registered'', ''m_ignore''],
     msg ''PROTOCTL'' ''PROTOCTL'' MAXPARA MFLG_SLOW [''m_ignore'', ''m_protoctl'', ''m_ignore'', ''m_protoctl'', ''m_ignore''],
     msg ''SNO'' ''SNO'' MAXPARA MFLG_SLOW [''m_ignore'', ''m_ignore'', ''ms_sno'', ''m_ignore'', ''ms_sno''],
     msg ''SMO'' ''SMO'' MAXPARA MFLG_SLOW [''m_ignore'', ''m_ignore'', ''ms_smo'', ''m_ignore'', ''ms_smo''],
     msg ''GLOBOPS'' ''GLOBOPS'' MAXPARA MFLG_SLOW [''m_ignore'', ''m_not_oper'', ''m_ignore'', ''mo_globops'', ''m_ignore''],
     msg ''REMOVE'' ''RM'' MAXPARA MFLG_SLOW [''m_unregistered'', ''m_not_oper'', ''ms_remove'', ''mo_remove'', ''m_ignore''],
     msg ''POST'' ''POST'' MAXPARA MFLG_SLOW [''m_quit'', ''m_ignore'', ''m_ignore'', ''m_ignore'', ''m_ignore'']]"

definition msgtab :: "Message list" where
  "msgtab = msgtab1 @ msgtab2 @ msgtab3 @ msgtab4 @ msgtab5 @ msgtab6"

section \<open>The trie\<close>

definition MAXPTRLEN :: nat where "MAXPTRLEN = 32"

datatype MessageTree = MessageTree (tree_msg: "nat option") (pointers: "nat \<Rightarrow> MessageTree option")

text \<open>\<open>*cmd & (MAXPTRLEN-1)\<close>\<close>

definition ptr_index :: "char \<Rightarrow> nat" where
  "ptr_index c = ord c mod MAXPTRLEN"

definition empty_node :: MessageTree where
  "empty_node = MessageTree None (\<lambda>_. None)"

fun add_msg_element :: "MessageTree \<Rightarrow> nat \<Rightarrow> string \<Rightarrow> MessageTree" where
  "add_msg_element (MessageTree m ptrs) msg_p [] = MessageTree (Some msg_p) ptrs"
| "add_msg_element (MessageTree m ptrs) msg_p (c # cmd) =
     (let ntree_p = (case ptrs (ptr_index c) of Some t \<Rightarrow> t | None \<Rightarrow> empty_node)
      in MessageTree m (ptrs(ptr_index c := Some (add_msg_element ntree_p msg_p cmd))))"

text \<open>The child is freed, whatever else it leads to.\<close>

fun del_msg_element :: "MessageTree \<Rightarrow> string \<Rightarrow> MessageTree" where
  "del_msg_element t [] = t"
| "del_msg_element (MessageTree m ptrs) (c # cmd) =
     (case ptrs (ptr_index c) of None \<Rightarrow> MessageTree m ptrs
      | Some ntree_p \<Rightarrow> MessageTree m (ptrs(ptr_index c := None)))"

fun initmsgtree_from :: "nat \<Rightarrow> Message list \<Rightarrow> MessageTree \<Rightarrow> MessageTree" where
  "initmsgtree_from i [] t = t"
| "initmsgtree_from i (m # ms) t =
     initmsgtree_from (Suc i) ms (add_msg_element (add_msg_element t i (msg_cmd m)) i (msg_tok m))"

definition initmsgtree :: "Message list \<Rightarrow> MessageTree" where
  "initmsgtree tab = initmsgtree_from 0 tab empty_node"

fun msg_tree_parse :: "string \<Rightarrow> MessageTree \<Rightarrow> nat option" where
  "msg_tree_parse [] (MessageTree m ptrs) = m"
| "msg_tree_parse (c # cmd) (MessageTree m ptrs) =
     (if \<not> IsAlpha c then None
      else case ptrs (ptr_index c) of None \<Rightarrow> None | Some mtree \<Rightarrow> msg_tree_parse cmd mtree)"

section \<open>The trie is a map up to case\<close>

abbreviation key :: "string \<Rightarrow> nat list" where
  "key \<equiv> map ptr_index"

lemma parse_empty_node [simp]: "msg_tree_parse cmd empty_node = None"
  by (cases cmd) (simp_all add: empty_node_def)

lemma parse_add:
  "msg_tree_parse cmd (add_msg_element t i k) =
     (if list_all IsAlpha cmd \<and> key cmd = key k then Some i else msg_tree_parse cmd t)"
proof (induction t i k arbitrary: cmd rule: add_msg_element.induct)
  case (1 m ptrs i)
  then show ?case by (cases cmd) auto
next
  case (2 m ptrs i c k)
  show ?case
  proof (cases cmd)
    case (Cons d r)
    then show ?thesis using 2 [OF refl, of r] by (cases "ptrs (ptr_index c)") (auto simp: Let_def)
  qed simp
qed

lemma low_bits:
  fixes n :: nat
  shows "65 \<le> n \<Longrightarrow> n \<le> 94 \<Longrightarrow> n mod 32 = n - 64" "97 \<le> n \<Longrightarrow> n \<le> 126 \<Longrightarrow> n mod 32 = n - 96"
proof -
  have a: "(k + 2 * 32) mod 32 = k" if "k < 32" for k :: nat using that by (simp only: mod_mult_self1 mod_less)
  have b: "(k + 3 * 32) mod 32 = k" if "k < 32" for k :: nat using that by (simp only: mod_mult_self1 mod_less)
  from a [of "n - 64"] b [of "n - 96"]
  show "65 \<le> n \<Longrightarrow> n \<le> 94 \<Longrightarrow> n mod 32 = n - 64" "97 \<le> n \<Longrightarrow> n \<le> 126 \<Longrightarrow> n mod 32 = n - 96"
    by simp_all
qed

lemma ptr_index_case:
  assumes "IsAlpha c" "IsAlpha d"
  shows "ptr_index c = ptr_index d \<longleftrightarrow> ToLower c = ToLower d"
proof -
  have low: "ord (ToLower x) = ptr_index x + 0x60" if "IsAlpha x" for x
    using that low_bits [of "ord x"] by (auto simp: IsAlpha_iff ptr_index_def MAXPTRLEN_def ord_ToLower)
  have "ToLower c = ToLower d \<longleftrightarrow> ord (ToLower c) = ord (ToLower d)" by (simp add: ord_inject)
  then show ?thesis using low [OF assms(1)] low [OF assms(2)] by simp
qed

lemma key_case: "list_all IsAlpha a \<Longrightarrow> list_all IsAlpha b \<Longrightarrow> key a = key b \<longleftrightarrow> map ToLower a = map ToLower b"
proof (induction a arbitrary: b)
  case (Cons c a)
  then show ?case by (cases b) (auto simp: ptr_index_case)
qed auto

text \<open>The names a table enters, the later ones first.\<close>

fun entries_from :: "nat \<Rightarrow> Message list \<Rightarrow> (nat list \<times> nat) list" where
  "entries_from i [] = []"
| "entries_from i (m # ms) = entries_from (Suc i) ms @ [(key (msg_tok m), i), (key (msg_cmd m), i)]"

lemma parse_initmsgtree_from:
  "msg_tree_parse cmd (initmsgtree_from i tab t) =
     (case (if list_all IsAlpha cmd then map_of (entries_from i tab) (key cmd) else None) of
        Some j \<Rightarrow> Some j | None \<Rightarrow> msg_tree_parse cmd t)"
  by (induction i tab t rule: initmsgtree_from.induct)
     (auto simp: parse_add map_add_def split: option.splits)

lemma parse_initmsgtree:
  "msg_tree_parse cmd (initmsgtree tab) = (if list_all IsAlpha cmd then map_of (entries_from 0 tab) (key cmd) else None)"
  by (simp add: initmsgtree_def parse_initmsgtree_from split: option.splits)

text \<open>A number for each name; its digits are the indices into the nodes of the trie.\<close>

definition key_code :: "nat list \<Rightarrow> nat" where
  "key_code k = foldl (\<lambda>a x. a * 32 + x) 0 k"

text \<open>The names an entry is found by: the token of \<open>INFO\<close> belongs to \<open>CREDITS\<close>, the next entry.\<close>

definition own_names :: "Message \<Rightarrow> string list" where
  "own_names m = (if msg_tok m = msg_cmd m \<or> msg_cmd m = ''INFO'' then [msg_cmd m] else [msg_cmd m, msg_tok m])"

lemmas msgtab_defs = msgtab_def msgtab1_def msgtab2_def msgtab3_def msgtab4_def msgtab5_def msgtab6_def msg_def

lemma name_codes: "map (key_code \<circ> key) (concat (map own_names msgtab)) =
    [17794020967, 16, 468075, 14, 486155365, 15, 25336418156051, 739, 791763238419, 744, 810766025657523, 758,
     120873236071, 112, 3707380837, 110, 3574901946597, 104, 343342, 10, 21159558446, 618, 441477, 13,
     2804340, 2, 19497929332, 578, 119703173, 3, 143466779764, 133, 578868, 17, 525908, 12,
     21159741012, 624, 21479715, 20, 317400709, 9, 320978451, 306, 369771, 11, 24742608403, 737,
     25336437380691, 757, 4483496040, 147, 533959, 7, 540103, 26, 5851634, 25, 370060, 4,
     707762, 56377, 1, 314862, 643389618, 19, 20501812, 625, 24395059, 23, 23823, 8,
     780655667, 24, 403060, 1451636, 14726323, 5, 742142525044, 724748592, 21562469, 658, 525939, 513,
     425301587, 405, 664997, 649, 20590503333, 613, 19408327, 585, 19414471, 591, 508082, 3739686004,
     111, 13360, 23809598958, 22, 20579987, 18, 12892531, 393, 1193262, 36, 119635228819, 267664,
     22287760, 309455, 3830589075, 6, 3831968865556, 114, 10074278, 441988, 431, 3554917, 20715845733, 21,
     193115668, 184, 7742917, 236, 27665861, 844, 631470, 629, 349701, 341, 520535173, 493,
     3716273323141, 109, 22554055, 688, 196081929020951156, 162, 5875139691, 161, 263784, 4563, 609486440, 584,
     19515704916, 595, 4389, 137, 17383055, 19636, 19057844, 7348, 17376979, 1178064340, 35, 459026321124,
     52620, 396, 20590116468, 616, 197989, 193, 3413099, 99, 19574963, 588, 532763033220, 15885,
     21159683179, 622, 21159656581, 621, 677104457172, 19748, 21159524559, 617, 21159793972, 632, 21159689712, 623,
     661929267, 631, 427595, 427, 686143785291954, 614, 24170600, 7087698460878292, 777070147, 26074147412791873, 569607949964, 19919,
     19887, 7934656019, 609664709, 589, 540276]"
  by (simp add: msgtab_defs own_names_def key_code_def ptr_index_def MAXPTRLEN_def)

lemma distinct_own_keys: "distinct (map key (concat (map own_names msgtab)))"
proof -
  have "distinct (map (key_code \<circ> key) (concat (map own_names msgtab)))"
    unfolding name_codes by simp
  then show ?thesis by (auto simp: distinct_map intro: inj_on_imageI2)
qed

lemma msgtab_facts:
  "length msgtab = 114"
  "msg_cmd (msgtab ! 60) = ''INFO''" "msg_tok (msgtab ! 60) = ''F''"
  "msg_cmd (msgtab ! 61) = ''CREDITS''" "msg_tok (msgtab ! 61) = ''F''"
  by (simp_all add: msgtab_defs)

text \<open>Names are letters and underscores.\<close>

lemma msgtab_name_chars:
  "list_all (\<lambda>m. list_all (\<lambda>c. IsAlpha c \<or> c = CHR ''_'') (msg_cmd m @ msg_tok m)) msgtab"
  by (simp add: msgtab_defs IsAlpha_iff)

lemma distinct_concat_owner:
  "distinct (map f (concat xss)) \<Longrightarrow> i < length xss \<Longrightarrow> j < length xss \<Longrightarrow> x \<in> set (xss ! i) \<Longrightarrow> y \<in> set (xss ! j) \<Longrightarrow>
     f x = f y \<Longrightarrow> i = j"
proof (induction xss arbitrary: i j)
  case (Cons xs xss)
  have "f ` set xs \<inter> f ` (\<Union>(set ` set xss)) = {}" using Cons.prems(1) by auto
  moreover have "x \<in> \<Union>(set ` set xss)" if "i = Suc k" for k using Cons.prems that by auto
  moreover have "y \<in> \<Union>(set ` set xss)" if "j = Suc k" for k using Cons.prems that by auto
  ultimately show ?case using Cons
    by (cases i; cases j) (auto simp: Int_def image_iff)
qed simp

lemma owner_unique:
  assumes "i < 114" "j < 114" "n \<in> set (own_names (msgtab ! i))" "n' \<in> set (own_names (msgtab ! j))" "key n = key n'"
  shows "i = j"
  by (rule distinct_concat_owner [OF distinct_own_keys, where x = n and y = n']) (use assms msgtab_facts(1) in auto)

text \<open>A lookup gives the last entry of that name.\<close>

definition entered :: "Message \<Rightarrow> nat list set" where
  "entered m = {key (msg_cmd m), key (msg_tok m)}"

lemma keys_entries: "fst ` set (entries_from a tab) = (\<Union>m \<in> set tab. entered m)"
  by (induction a tab rule: entries_from.induct) (auto simp: entered_def)

lemma map_of_entriesD:
  "map_of (entries_from a tab) k = Some i \<Longrightarrow>
     a \<le> i \<and> i < a + length tab \<and> k \<in> entered (tab ! (i - a))
     \<and> (\<forall>j. i < j \<and> j < a + length tab \<longrightarrow> k \<notin> entered (tab ! (j - a)))"
proof (induction a tab rule: entries_from.induct)
  case (2 a m ms)
  show ?case
  proof (cases "map_of (entries_from (Suc a) ms) k")
    case None
    then have later: "k \<notin> (\<Union>m \<in> set ms. entered m)" by (simp add: map_of_eq_None_iff keys_entries)
    have "k \<notin> entered ((m # ms) ! (j - a))" if "a < j" "j < a + length (m # ms)" for j
      using later that by (auto simp: nth_Cons' dest: nth_mem [of "j - a - 1" ms])
    moreover have "i = a" "k \<in> entered m"
      using 2(2) None by (auto simp: map_add_def entered_def split: if_splits)
    ultimately show ?thesis by auto
  next
    case (Some i')
    then have "i' = i" using 2(2) by (simp add: map_add_def)
    then have ih: "Suc a \<le> i \<and> i < Suc a + length ms \<and> k \<in> entered (ms ! (i - Suc a))
     \<and> (\<forall>j. i < j \<and> j < Suc a + length ms \<longrightarrow> k \<notin> entered (ms ! (j - Suc a)))"
      using 2(1) Some by blast
    moreover have "(m # ms) ! (j - a) = ms ! (j - Suc a)" if "Suc a \<le> j" for j
      using that by (simp add: nth_Cons')
    ultimately show ?thesis by auto
  qed
qed simp

lemma own_keys_entered: "n \<in> set (own_names m) \<Longrightarrow> key n \<in> entered m"
  by (auto simp: own_names_def entered_def split: if_splits)

lemma entered_own:
  assumes "i < 114" "k \<in> entered (msgtab ! i)"
  shows "(\<exists>n \<in> set (own_names (msgtab ! i)). k = key n) \<or> i = 60 \<and> k = key ''F''"
proof (cases "msg_cmd (msgtab ! i) = ''INFO''")
  case True
  have "i = 60"
    by (rule owner_unique [OF assms(1), where n = "''INFO''" and n' = "''INFO''"])
       (use True msgtab_facts in \<open>auto simp: own_names_def\<close>)
  then show ?thesis using assms(2) msgtab_facts(2,3) by (auto simp: entered_def own_names_def)
qed (use assms(2) in \<open>auto simp: entered_def own_names_def\<close>)

lemma lookup_iff_own:
  "map_of (entries_from 0 msgtab) k = Some i \<longleftrightarrow> i < 114 \<and> (\<exists>n \<in> set (own_names (msgtab ! i)). k = key n)"
proof
  assume "map_of (entries_from 0 msgtab) k = Some i"
  from map_of_entriesD [OF this] have i: "i < 114" "k \<in> entered (msgtab ! i)"
    and later: "\<And>j. i < j \<Longrightarrow> j < 114 \<Longrightarrow> k \<notin> entered (msgtab ! j)" using msgtab_facts(1) by auto
  have "\<not> (i = 60 \<and> k = key ''F'')" using later [of 61] msgtab_facts(5) by (auto simp: entered_def)
  then show "i < 114 \<and> (\<exists>n \<in> set (own_names (msgtab ! i)). k = key n)" using entered_own i by blast
next
  assume r: "i < 114 \<and> (\<exists>n \<in> set (own_names (msgtab ! i)). k = key n)"
  then obtain n where n: "n \<in> set (own_names (msgtab ! i))" "k = key n" by blast
  have "k \<in> fst ` set (entries_from 0 msgtab)"
    unfolding keys_entries using own_keys_entered [OF n(1)] nth_mem [of i msgtab] r n(2) msgtab_facts(1) by auto
  then obtain i' where i': "map_of (entries_from 0 msgtab) k = Some i'" by (metis map_of_eq_None_iff option.exhaust)
  from map_of_entriesD [OF this] have a: "i' < 114" "k \<in> entered (msgtab ! i')"
    and later: "\<And>j. i' < j \<Longrightarrow> j < 114 \<Longrightarrow> k \<notin> entered (msgtab ! j)" using msgtab_facts(1) by auto
  have "\<not> (i' = 60 \<and> k = key ''F'')" using later [of 61] msgtab_facts(5) by (auto simp: entered_def)
  then obtain n' where "n' \<in> set (own_names (msgtab ! i'))" "k = key n'" using entered_own [OF a] by blast
  then have "i' = i" using owner_unique r a(1) n by metis
  then show "map_of (entries_from 0 msgtab) k = Some i" using i' by simp
qed

lemma ptr_index_name:
  assumes "IsAlpha c" "IsAlpha d \<or> d = CHR ''_''"
  shows "ptr_index c = ptr_index d \<longleftrightarrow> ToLower c = ToLower d"
proof (cases "IsAlpha d")
  case False
  then have d: "d = CHR ''_''" using assms(2) by simp
  have "ptr_index d = 31" "ord (ToLower d) = 95" by (simp_all add: d ptr_index_def MAXPTRLEN_def ord_ToLower)
  moreover have "ptr_index c < 31" "ord (ToLower c) \<noteq> 95"
    using assms(1) low_bits [of "ord c"] by (auto simp: IsAlpha_iff ptr_index_def MAXPTRLEN_def ord_ToLower)
  ultimately show ?thesis by (metis less_irrefl)
qed (use ptr_index_case [OF assms(1)] in blast)

lemma key_name:
  "list_all IsAlpha a \<Longrightarrow> list_all (\<lambda>c. IsAlpha c \<or> c = CHR ''_'') b \<Longrightarrow> key a = key b \<longleftrightarrow> map ToLower a = map ToLower b"
proof (induction a arbitrary: b)
  case (Cons c a)
  then show ?case by (cases b) (auto simp: ptr_index_name)
qed auto

lemma own_name_chars: "i < 114 \<Longrightarrow> n \<in> set (own_names (msgtab ! i)) \<Longrightarrow> list_all (\<lambda>c. IsAlpha c \<or> c = CHR ''_'') n"
proof -
  assume "i < 114" and n: "n \<in> set (own_names (msgtab ! i))"
  then have "list_all (\<lambda>c. IsAlpha c \<or> c = CHR ''_'') (msg_cmd (msgtab ! i) @ msg_tok (msgtab ! i))"
    using msgtab_name_chars msgtab_facts(1) unfolding list_all_length [of _ msgtab] by simp
  then show ?thesis using n by (auto simp: own_names_def split: if_splits)
qed

text \<open>A word calls an entry if it is, up to case, the name of the command or its token.\<close>

definition calls :: "string \<Rightarrow> Message \<Rightarrow> bool" where
  "calls cmd m \<longleftrightarrow> map ToLower cmd = map ToLower (msg_cmd m) \<or> map ToLower cmd = map ToLower (msg_tok m)"

lemma calls_entered:
  assumes "i < 114" "list_all IsAlpha cmd"
  shows "key cmd \<in> entered (msgtab ! i) \<longleftrightarrow> calls cmd (msgtab ! i)"
proof -
  have "list_all (\<lambda>c. IsAlpha c \<or> c = CHR ''_'') (msg_cmd (msgtab ! i) @ msg_tok (msgtab ! i))"
    using assms(1) msgtab_name_chars msgtab_facts(1) unfolding list_all_length [of _ msgtab] by simp
  then show ?thesis using key_name [OF assms(2)] by (auto simp: entered_def calls_def)
qed

lemma lookup_last:
  "map_of (entries_from 0 msgtab) k = Some i \<longleftrightarrow>
     i < 114 \<and> k \<in> entered (msgtab ! i) \<and> (\<forall>j. i < j \<and> j < 114 \<longrightarrow> k \<notin> entered (msgtab ! j))"
proof
  assume "map_of (entries_from 0 msgtab) k = Some i"
  from map_of_entriesD [OF this]
  show "i < 114 \<and> k \<in> entered (msgtab ! i) \<and> (\<forall>j. i < j \<and> j < 114 \<longrightarrow> k \<notin> entered (msgtab ! j))" using msgtab_facts(1) by simp
next
  assume r: "i < 114 \<and> k \<in> entered (msgtab ! i) \<and> (\<forall>j. i < j \<and> j < 114 \<longrightarrow> k \<notin> entered (msgtab ! j))"
  then have "k \<in> fst ` set (entries_from 0 msgtab)" unfolding keys_entries using nth_mem [of i msgtab] msgtab_facts(1) by auto
  then obtain i' where i': "map_of (entries_from 0 msgtab) k = Some i'" by (metis map_of_eq_None_iff option.exhaust)
  from map_of_entriesD [OF this]
  have "i' < 114" "k \<in> entered (msgtab ! i')" "\<forall>j. i' < j \<and> j < 114 \<longrightarrow> k \<notin> entered (msgtab ! j)" using msgtab_facts(1) by auto
  then have "i' = i" using r by (metis linorder_neqE_nat)
  then show "map_of (entries_from 0 msgtab) k = Some i" using i' by simp
qed

section \<open>Theorems\<close>

text \<open>
  C29: a word finds an entry of the command table if and only if it consists of letters and the entry is
  the last one whose name or token it is, up to case. Every name and token that consists of letters
  finds its own entry, but for the token \<open>F\<close> of \<open>INFO\<close>, which a later entry repeats.
\<close>

theorem msg_tree_parse_correct:
  "(msg_tree_parse cmd (initmsgtree msgtab) = Some i \<longleftrightarrow>
      list_all IsAlpha cmd \<and> i < length msgtab \<and> calls cmd (msgtab ! i) \<and> (\<forall>j. i < j \<and> j < length msgtab \<longrightarrow> \<not> calls cmd (msgtab ! j)))
    \<and> (i < length msgtab \<and> n \<in> {msg_cmd (msgtab ! i), msg_tok (msgtab ! i)} \<and> list_all IsAlpha n \<longrightarrow>
        msg_tree_parse n (initmsgtree msgtab) = Some i \<or> msg_cmd (msgtab ! i) = ''INFO'' \<and> n = ''F'')"
proof
  show "msg_tree_parse cmd (initmsgtree msgtab) = Some i \<longleftrightarrow>
      list_all IsAlpha cmd \<and> i < length msgtab \<and> calls cmd (msgtab ! i) \<and> (\<forall>j. i < j \<and> j < length msgtab \<longrightarrow> \<not> calls cmd (msgtab ! j))"
    using calls_entered by (auto simp: parse_initmsgtree lookup_last msgtab_facts(1))
  show "i < length msgtab \<and> n \<in> {msg_cmd (msgtab ! i), msg_tok (msgtab ! i)} \<and> list_all IsAlpha n \<longrightarrow>
        msg_tree_parse n (initmsgtree msgtab) = Some i \<or> msg_cmd (msgtab ! i) = ''INFO'' \<and> n = ''F''"
  proof (intro impI disjCI)
    assume a: "i < length msgtab \<and> n \<in> {msg_cmd (msgtab ! i), msg_tok (msgtab ! i)} \<and> list_all IsAlpha n"
      and no: "\<not> (msg_cmd (msgtab ! i) = ''INFO'' \<and> n = ''F'')"
    have "i = 60" if "msg_cmd (msgtab ! i) = ''INFO''"
      by (rule owner_unique [where n = "''INFO''" and n' = "''INFO''"]) (use a that msgtab_facts in \<open>auto simp: own_names_def\<close>)
    then have "n \<in> set (own_names (msgtab ! i))" using a no msgtab_facts(3) by (auto simp: own_names_def)
    then show "msg_tree_parse n (initmsgtree msgtab) = Some i" using a msgtab_facts(1) by (auto simp: parse_initmsgtree lookup_iff_own)
  qed
qed

theorem msg_tree_parse_correct_witness:
  "msg_tree_parse ''INFO'' (initmsgtree msgtab) = Some 60 \<and> \<not> calls ''INFO'' (msgtab ! 61)"
proof -
  have f: "msg_tree_parse ''INFO'' (initmsgtree msgtab) = Some 60"
    using msg_tree_parse_correct [of "[]" 60 "''INFO''"] msgtab_facts by (simp add: IsAlpha_iff)
  then show ?thesis using msg_tree_parse_correct [of "''INFO''" 60] msgtab_facts(1) by auto
qed

text \<open>
  Commands the table names but the trie does not find: the token of \<open>INFO\<close> leads to
  \<open>CREDITS\<close>, the two names with an underscore are not found at all, and deleting one
  command removes every command with the same first letter.
\<close>

theorem msg_tree_defects:
  "msg_cmd (msgtab ! 60) = ''INFO'' \<and> msg_tok (msgtab ! 60) = ''F''
    \<and> msg_tree_parse ''F'' (initmsgtree msgtab) = Some 61
    \<and> msg_tree_parse ''END_OF_BURST'' (initmsgtree msgtab) = None
    \<and> msg_tree_parse ''EOB_ACK'' (initmsgtree msgtab) = None
    \<and> msg_tree_parse (c # cmd) (del_msg_element t (c # other)) = None"
proof -
  have "map_of (entries_from 0 msgtab) (key ''F'') = Some 61"
    unfolding lookup_iff_own using msgtab_facts(4,5) by (auto simp: own_names_def)
  then have "msg_tree_parse ''F'' (initmsgtree msgtab) = Some 61" by (simp add: parse_initmsgtree IsAlpha_iff)
  moreover have "msg_tree_parse (c # cmd) (del_msg_element t (c # other)) = None"
    by (cases t) (auto split: option.splits)
  ultimately show ?thesis by (simp add: msgtab_facts parse_initmsgtree IsAlpha_iff)
qed

end
