(* ===== verification/Parse.thy ===== *)
theory Parse
  imports Msgtree Match Numnicks Hash Client
begin

text \<open>
  Parsing of input lines (\<open>parse_client\<close> and \<open>parse_server\<close> of \<open>ircd/parse.c\<close>), on top of the
  command trie, the client name table and the numeric nicks.

  A call returns the new state, what it sent, and what it does last: return a code, or call a
  message handler, \<open>do_numeric\<close> or the services shortcut \<open>lsc\<close> with the source and the parameters.
  The handlers themselves and \<open>shun_lookup\<close> are outside: the first are results, the second an
  argument. A read past the terminator of the line is the fault \<open>OutOfBounds\<close>.
\<close>

section \<open>State\<close>

record pclient = cli +
  pc_name :: string
  pc_from :: client
  pc_handler :: nat
  pc_last :: int

record svcline =
  svc_cmd :: "string option"
  svc_target :: string
  svc_prepend :: string

record penv =
  pe_crc :: "u32 list"
  pe_nn :: nn_state
  pe_services :: "svcline list"
  pe_shunned :: "client \<Rightarrow> bool"
  pe_idle_from_msg :: bool
  pe_time :: int

record pstate =
  pclients :: "client \<Rightarrow> pclient"
  ptable :: "client buckets"
  is_empt :: nat
  is_unco :: nat
  is_unpf :: nat
  is_wrdi :: nat
  is_num :: nat
  mcount :: "nat \<Rightarrow> u32"
  mbytes :: "nat \<Rightarrow> u32"

datatype action =
    Return int
  | Handler nat string client "string list"
  | Numeric int bool client "string list"
  | Service svcline "string list"

datatype sent = UnknownCommand client string | KillUnknown client string | MissingPrefix client

type_synonym outcome = "pstate \<times> sent list \<times> action"

abbreviation pname :: "pstate \<Rightarrow> client \<Rightarrow> string" where
  "pname st c \<equiv> pc_name (pclients st c)"

definition msg_tree :: MessageTree where
  "msg_tree = initmsgtree msgtab"

section \<open>Words of a line\<close>

definition skip_spaces :: "string \<Rightarrow> string" where
  "skip_spaces s = dropWhile (\<lambda>c. c = CHR '' '') s"

text \<open>The text before the first blank, and what follows it if there is one.\<close>

definition cut_space :: "string \<Rightarrow> string \<times> string option" where
  "cut_space s =
     (takeWhile (\<lambda>c. c \<noteq> CHR '' '') s,
      case dropWhile (\<lambda>c. c \<noteq> CHR '' '') s of [] \<Rightarrow> None | _ # r \<Rightarrow> Some r)"

text \<open>
  The loop that fills \<open>para[]\<close>: \<open>i\<close> parameters are stored, the last one allowed takes the rest of
  the line, and so does one that starts with a colon. For a numeric the colon is kept.
\<close>

function split_params :: "bool \<Rightarrow> nat \<Rightarrow> nat \<Rightarrow> string \<Rightarrow> string list" where
  "split_params colon paramcount i s =
     (case skip_spaces s of [] \<Rightarrow> []
      | c # r \<Rightarrow>
          if c = CHR '':'' then [if colon then c # r else r]
          else if paramcount \<le> Suc i then [c # r]
          else takeWhile (\<lambda>c. c \<noteq> CHR '' '') (c # r)
                 # split_params colon paramcount (Suc i) (dropWhile (\<lambda>c. c \<noteq> CHR '' '') (c # r)))"
  by pat_completeness auto
termination
proof (relation "measure (\<lambda>(colon, paramcount, i, s). length s)", goal_cases)
  case (2 colon paramcount i s c r)
  have "c \<noteq> CHR '' ''" using 2(1) by (metis (mono_tags, lifting) hd_dropWhile list.sel(1) list.simps(3) skip_spaces_def)
  moreover have "length (c # r) \<le> length s" using 2(1) length_dropWhile_le by (metis skip_spaces_def)
  moreover have "length (dropWhile (\<lambda>c. c \<noteq> CHR '' '') r) \<le> length r" by (rule length_dropWhile_le)
  ultimately show ?case by simp
qed simp

declare split_params.simps [simp del]

text \<open>Storing the name, the parameters and the final null in \<open>para[MAXPARA + 2]\<close>.\<close>

definition fill_para :: "string \<Rightarrow> string list \<Rightarrow> string list res" where
  "fill_para para0 params =
     (if length params + 2 \<le> MAXPARA + 2 then Inr (para0 # params) else Inl OutOfBounds)"

section \<open>Lines from users\<close>

text \<open>\<open>strcasecmp\<close> of the C library, in the C locale.\<close>

definition ascii_lower :: "char \<Rightarrow> char" where
  "ascii_lower c = (if 0x41 \<le> ord c \<and> ord c \<le> 0x5A then char_of (ord c + 32) else c)"

definition strcasecmp_eq :: "string \<Rightarrow> string \<Rightarrow> bool" where
  "strcasecmp_eq a b \<longleftrightarrow> map ascii_lower a = map ascii_lower b"

definition shun_exempt :: "string list" where
  "shun_exempt = [''NICK'', ''WEBIRC'', ''WEBIRCEXTRA'', ''SERVER'', ''USER'', ''PASS'', ''ADMIN'', ''PART'',
     ''QUIT'', ''PONG'']"

definition client_command :: "string \<Rightarrow> string" where
  "client_command buffer =
     (let ch = skip_spaces buffer
      in if ch \<noteq> [] \<and> hd ch = CHR '':'' then skip_spaces (dropWhile (\<lambda>c. c \<noteq> CHR '' '') (tl ch)) else ch)"

fun find_svc :: "svcline list \<Rightarrow> string \<Rightarrow> svcline option run" where
  "find_svc [] cmd = returning None"
| "find_svc (confbot # rest) cmd =
     (case svc_cmd confbot of None \<Rightarrow> find_svc rest cmd
      | Some c \<Rightarrow> run_bind (match c cmd) (\<lambda>v. if v = 0 then returning (Some confbot) else find_svc rest cmd))"

definition penalty :: "pclient \<Rightarrow> Message \<Rightarrow> nat \<Rightarrow> int" where
  "penalty c m n =
     (if msg_flags m AND MFLG_SLOW \<noteq> 0 then (if IsOper c then 1 else 2 + int n div 120) else 0)"

definition msg_handler :: "nat \<Rightarrow> nat \<Rightarrow> string res" where
  "msg_handler i htype =
     (if htype < length (msg_handlers (msgtab ! i)) then Inr (msg_handlers (msgtab ! i) ! htype) else Inl OutOfBounds)"

text \<open>From the lookup of the command to the call of its handler.\<close>

definition client_dispatch :: "penv \<Rightarrow> pstate \<Rightarrow> client \<Rightarrow> svcline option \<Rightarrow> nat \<Rightarrow> string \<Rightarrow> string option
    \<Rightarrow> outcome res" where
  "client_dispatch env st cptr svc i cmd s =
     (let m = msgtab ! i;
          n = length (case s of Some r \<Rightarrow> r | None \<Rightarrow> cmd);
          c = pclients st cptr;
          c1 = c\<lparr>cli_since := cli_since c + penalty c m n\<rparr>;
          params = (case s of None \<Rightarrow> [] | Some r \<Rightarrow> split_params False (min (msg_parameters m) MAXPARA) 0 r)
      in res_bind (fill_para (pc_name c) params) (\<lambda>parv.
         res_bind (msg_handler i (pc_handler c)) (\<lambda>handler.
           let c2 = (if \<not> pe_idle_from_msg env \<and> IsUser c \<and> handler \<noteq> ''m_ping'' \<and> handler \<noteq> ''m_ignore''
                     then c1\<lparr>pc_last := pe_time env\<rparr> else c1);
               st' = st\<lparr>pclients := (pclients st)(cptr := c2),
                        mbytes := (mbytes st)(i := mbytes st i + of_nat n),
                        mcount := (mcount st)(i := mcount st i + 1)\<rparr>
           in Inr (st', [], case svc of Some sv \<Rightarrow> Service sv parv | None \<Rightarrow> Handler i handler cptr parv))))"

definition parse_client :: "penv \<Rightarrow> pstate \<Rightarrow> client \<Rightarrow> string \<Rightarrow> outcome run" where
  "parse_client env st cptr buffer =
     (let c = pclients st cptr; ch = client_command buffer; (cmd, s) = cut_space ch in
      if IsDead c then returning (st, [], Return 0)
      else if ch = [] then returning (st\<lparr>is_empt := Suc (is_empt st)\<rparr>, [], Return (- 1))
      else if list_all (\<lambda>e. \<not> strcasecmp_eq cmd e) shun_exempt \<and> IsRegistered c \<and> pe_shunned env cptr
      then returning (st, [], Return 0)
      else run_bind (find_svc (pe_services env) cmd) (\<lambda>svc.
        case msg_tree_parse (if svc \<noteq> None then ''PRIVMSG'' else cmd) msg_tree of
          Some i \<Rightarrow> Some (client_dispatch env st cptr svc i cmd s)
        | None \<Rightarrow>
            if svc \<noteq> None then Some (Inl NullDeref)
            else returning (st\<lparr>is_unco := Suc (is_unco st)\<rparr>,
                      if buffer \<noteq> [] \<and> IsUser c then [UnknownCommand cptr cmd] else [], Return (- 1))))"

section \<open>Lines from servers\<close>

definition FindClient :: "penv \<Rightarrow> pstate \<Rightarrow> string \<Rightarrow> (pstate \<times> client option) res" where
  "FindClient env st name =
     (if name = [] then Inr (st, None)
      else res_bind (hSeekClient (pe_crc env) (pname st) (\<lambda>c. cli_status (pclients st c)) (ptable st) name (- 1))
        (\<lambda>(t, c). Inr (st\<lparr>ptable := t\<rparr>, c)))"

text \<open>\<open>s[i]\<close>, readable up to the terminator.\<close>

definition char_at :: "string \<Rightarrow> nat \<Rightarrow> char res" where
  "char_at s i = (case rd s i of None \<Rightarrow> Inl OutOfBounds | Some c \<Rightarrow> Inr c)"

text \<open>A message of an unknown source may pass if it is an \<open>SQUIT\<close> or \<open>KILL\<close>.\<close>

definition may_pass_upstream :: "string \<Rightarrow> bool res" where
  "may_pass_upstream ch =
     res_bind (char_at ch 0) (\<lambda>c0. res_bind (char_at ch 1) (\<lambda>c1.
       if c1 = CHR ''Q'' \<or> c0 = CHR ''D'' \<and> c1 = CHR '' '' then Inr True
       else if c0 = CHR ''K'' then res_bind (char_at ch 2) (\<lambda>c2. Inr (c2 = CHR ''L''))
       else Inr False))"

type_synonym prefix_result = "pstate \<times> sent list \<times> (int + client \<times> string \<times> string)"

text \<open>
  The prefix: an early return, or the source, \<open>para[0]\<close> and the text that follows. First a name
  prefix, then a numeric one.
\<close>

definition name_prefix :: "penv \<Rightarrow> pstate \<Rightarrow> client \<Rightarrow> string \<Rightarrow> prefix_result res" where
  "name_prefix env st cptr buffer =
     (case cut_space (tl buffer) of
        (name, None) \<Rightarrow> Inr (st, [], Inl (- 1))
      | (name, Some ch) \<Rightarrow>
          res_bind (FindClient env st name) (\<lambda>(st, from).
            case from of
              None \<Rightarrow>
                (let ch = skip_spaces ch; st = st\<lparr>is_unpf := Suc (is_unpf st)\<rparr> in
                 res_bind (char_at ch 1) (\<lambda>c1.
                   if c1 = CHR ''Q'' then Inr (st, [], Inr (cptr, pname st cptr, ch))
                   else Inr (st, [], Inl 0)))
            | Some from \<Rightarrow>
                if pc_from (pclients st from) \<noteq> cptr
                then Inr (st\<lparr>is_wrdi := Suc (is_wrdi st)\<rparr>, [], Inl 0)
                else Inr (st, [], Inr (from, name, ch))))"

definition numeric_source :: "penv \<Rightarrow> client \<Rightarrow> string \<Rightarrow> string \<Rightarrow> (sent list \<times> client option) res" where
  "numeric_source env cptr buffer prefix =
     (if prefix = [] then Inr ([MissingPrefix cptr], Some cptr)
      else res_bind (char_at buffer 1) (\<lambda>c1.
        res_bind (if c1 = CHR '' '' then Inr c1 else char_at buffer 2) (\<lambda>c2.
          res_bind (if c2 = CHR '' '' then FindNServer (pe_nn env) prefix else findNUser (pe_nn env) prefix)
            (\<lambda>from. Inr ([], from)))))"

text \<open>The kill sent upstream for a nick change of an unknown numeric.\<close>

definition unknown_kill :: "penv \<Rightarrow> pstate \<Rightarrow> client \<Rightarrow> string \<Rightarrow> string \<Rightarrow> sent list res" where
  "unknown_kill env st cptr prefix ch =
     res_bind (char_at ch 0) (\<lambda>c0.
       if c0 = CHR ''N'' then
         res_bind (char_at ch 1) (\<lambda>c1.
           if c1 = CHR '' '' \<or> c1 = CHR ''I'' then
             res_bind (FindNServer (pe_nn env) prefix) (\<lambda>server.
               case server of Some s \<Rightarrow>
                   Inr (if pc_from (pclients st s) = cptr then [KillUnknown cptr prefix] else [])
               | None \<Rightarrow> Inr [])
           else Inr [])
       else Inr [])"

definition numeric_prefix :: "penv \<Rightarrow> pstate \<Rightarrow> client \<Rightarrow> string \<Rightarrow> prefix_result res" where
  "numeric_prefix env st cptr buffer =
     (let prefix = takeWhile (\<lambda>c. c \<noteq> CHR '' '') (take 5 buffer) in
      res_bind (numeric_source env cptr buffer prefix) (\<lambda>(out, from).
      res_bind (if buffer = [] then Inl OutOfBounds else Inr (dropWhile (\<lambda>c. c \<noteq> CHR '' '') (tl buffer))) (\<lambda>ch.
      res_bind
        (case from of Some f \<Rightarrow> Inr (st, out, Some f, ch)
         | None \<Rightarrow>
             (let ch = skip_spaces ch; st = st\<lparr>is_unpf := Suc (is_unpf st)\<rparr> in
              res_bind (unknown_kill env st cptr prefix ch) (\<lambda>k.
              res_bind (may_pass_upstream ch) (\<lambda>pass.
                Inr (st, out @ k, if pass then Some cptr else None, ch)))))
        (\<lambda>(st, out, from, ch).
           case from of None \<Rightarrow> Inr (st, out, Inl 0)
           | Some f \<Rightarrow>
               if pc_from (pclients st f) \<noteq> cptr then Inr (st\<lparr>is_wrdi := Suc (is_wrdi st)\<rparr>, out, Inl 0)
               else Inr (st, out, Inr (f, pname st f, ch))))))"

definition numeric_value :: "string \<Rightarrow> int" where
  "numeric_value cmd = (schar (cmd ! 0) - 48) * 100 + (schar (cmd ! 1) - 48) * 10 + (schar (cmd ! 2) - 48)"

text \<open>From the command on; \<open>bang\<close> says whether the line had a numeric prefix.\<close>

definition server_command :: "pstate \<Rightarrow> client \<Rightarrow> bool \<Rightarrow> client \<Rightarrow> string \<Rightarrow> string \<Rightarrow> outcome res" where
  "server_command st cptr bang from para0 rest =
     (let ch = skip_spaces rest; (cmd, s) = cut_space ch in
      if ch = [] then Inr (st\<lparr>is_empt := Suc (is_empt st)\<rparr>, [], Return (- 1))
      else if s \<noteq> None \<and> length cmd = 3 \<and> IsDigit (hd cmd) then
        (let numeric = numeric_value cmd; st = st\<lparr>is_num := Suc (is_num st)\<rparr> in
         res_bind (fill_para para0 (split_params (numeric \<noteq> 0) 2 0 (the s))) (\<lambda>parv.
           if numeric \<noteq> 0 then Inr (st, [], Numeric numeric bang from parv) else Inl NullDeref))
      else
        (case msg_tree_parse cmd msg_tree of
           None \<Rightarrow> Inr (st\<lparr>is_unco := Suc (is_unco st)\<rparr>, [], Return (- 1))
         | Some i \<Rightarrow>
             (let n = length (case s of Some r \<Rightarrow> r | None \<Rightarrow> cmd);
                  params = (case s of None \<Rightarrow> [] | Some r \<Rightarrow> split_params False (min (msg_parameters (msgtab ! i)) MAXPARA) 0 r)
              in res_bind (fill_para para0 params) (\<lambda>parv.
                 res_bind (msg_handler i (pc_handler (pclients st cptr))) (\<lambda>handler.
                   Inr (st\<lparr>mbytes := (mbytes st)(i := mbytes st i + of_nat n),
                           mcount := (mcount st)(i := mcount st i + 1)\<rparr>,
                        [], Handler i handler from parv))))))"

definition parse_server :: "penv \<Rightarrow> pstate \<Rightarrow> client \<Rightarrow> string \<Rightarrow> outcome res" where
  "parse_server env st cptr buffer =
     (if IsDead (pclients st cptr) then Inr (st, [], Return 0)
      else
        (let colon = (buffer \<noteq> [] \<and> hd buffer = CHR '':'') in
         res_bind (if colon then name_prefix env st cptr buffer else numeric_prefix env st cptr buffer)
           (\<lambda>(st, out, r). case r of
              Inl code \<Rightarrow> Inr (st, out, Return code)
            | Inr (from, para0, ch) \<Rightarrow>
                res_bind (server_command st cptr (\<not> colon) from para0 ch) (\<lambda>(st, out', a). Inr (st, out @ out', a)))))"


section \<open>Parameters\<close>

lemma split_params_length: "length (split_params colon n i s) \<le> max 1 (n - i)"
proof (induction colon n i s rule: split_params.induct)
  case (1 colon n i s)
  show ?case
  proof (cases "skip_spaces s")
    case (Cons c r)
    have "length (split_params colon n (Suc i) (dropWhile (\<lambda>c. c \<noteq> CHR '' '') (c # r))) \<le> max 1 (n - Suc i)"
      if "c \<noteq> CHR '':''" "\<not> n \<le> Suc i" using 1 [OF Cons] that by blast
    then show ?thesis using Cons by (auto simp: split_params.simps [of colon n i s])
  qed (simp add: split_params.simps [of colon n i s])
qed

lemma msgtab_shape: "list_all (\<lambda>m. length (msg_handlers m) = 5 \<and> msg_parameters m \<in> {1, MAXPARA}) msgtab"
  by (simp add: msgtab_defs)

lemma msgtab_nth: "i < length msgtab \<Longrightarrow> length (msg_handlers (msgtab ! i)) = 5 \<and> msg_parameters (msgtab ! i) \<in> {1, MAXPARA}"
  using msgtab_shape unfolding list_all_length by blast

lemma fill_para_split:
  "i < length msgtab \<Longrightarrow>
     fill_para p (split_params colon (min (msg_parameters (msgtab ! i)) MAXPARA) 0 s)
       = Inr (p # split_params colon (min (msg_parameters (msgtab ! i)) MAXPARA) 0 s)"
  using split_params_length [of colon "min (msg_parameters (msgtab ! i)) MAXPARA" 0 s]
  by (auto simp: fill_para_def MAXPARA_def)

text \<open>A parameter that does not need a colon.\<close>

definition middle :: "string \<Rightarrow> bool" where
  "middle m \<longleftrightarrow> m \<noteq> [] \<and> CHR '' '' \<notin> set m \<and> hd m \<noteq> CHR '':''"

fun print_params :: "string list \<Rightarrow> string \<Rightarrow> string" where
  "print_params [] t = '':'' @ t"
| "print_params (m # ms) t = m @ '' '' @ print_params ms t"

lemma skip_spaces_simps [simp]:
  "skip_spaces (CHR '' '' # s) = skip_spaces s" "c \<noteq> CHR '' '' \<Longrightarrow> skip_spaces (c # s) = c # s" "skip_spaces [] = []"
  by (simp_all add: skip_spaces_def)

lemma until_space:
  assumes "CHR '' '' \<notin> set m"
  shows "takeWhile (\<lambda>c. c \<noteq> CHR '' '') (m @ CHR '' '' # r) = m" "dropWhile (\<lambda>c. c \<noteq> CHR '' '') (m @ CHR '' '' # r) = CHR '' '' # r"
    "takeWhile (\<lambda>c. c \<noteq> CHR '' '') m = m" "dropWhile (\<lambda>c. c \<noteq> CHR '' '') m = []"
  using assms by (induction m) auto

lemma split_skip: "split_params colon n i (CHR '' '' # s) = split_params colon n i s"
  by (simp add: split_params.simps [of colon n i])

lemma split_print:
  "list_all middle ms \<Longrightarrow> i + length ms < n \<Longrightarrow> split_params False n i (print_params ms t) = ms @ [t]"
proof (induction ms arbitrary: i)
  case Nil
  then show ?case by (simp add: split_params.simps)
next
  case (Cons m ms)
  obtain c r where m: "m = c # r" "c \<noteq> CHR '' ''" "c \<noteq> CHR '':''" "CHR '' '' \<notin> set m"
    using Cons.prems(1) by (cases m) (auto simp: middle_def)
  have "split_params False n i (m @ CHR '' '' # print_params ms t) =
      takeWhile (\<lambda>c. c \<noteq> CHR '' '') (m @ CHR '' '' # print_params ms t)
        # split_params False n (Suc i) (dropWhile (\<lambda>c. c \<noteq> CHR '' '') (m @ CHR '' '' # print_params ms t))"
    using m(1-3) Cons.prems(2) by (simp add: split_params.simps [of False n i])
  also have "\<dots> = m # split_params False n (Suc i) (print_params ms t)"
    by (simp only: until_space [OF m(4)] split_skip)
  finally show ?case using Cons by simp
qed

section \<open>Commands of users\<close>

lemma alpha_char: "IsAlpha c \<Longrightarrow> c \<noteq> CHR '' '' \<and> c \<noteq> CHR '':''"
  by (auto simp: IsAlpha_iff)

lemma alpha_no_space: "list_all IsAlpha cmd \<Longrightarrow> CHR '' '' \<notin> set cmd"
  using alpha_char by (auto simp: list_all_iff)

lemma client_command_plain: "list_all IsAlpha cmd \<Longrightarrow> cmd \<noteq> [] \<Longrightarrow> client_command (cmd @ r) = cmd @ r"
  using alpha_char by (cases cmd) (auto simp: client_command_def Let_def)

lemma cut_space_plain: "CHR '' '' \<notin> set cmd \<Longrightarrow> cut_space (cmd @ CHR '' '' # r) = (cmd, Some r)"
  by (simp add: cut_space_def until_space)

text \<open>The command of a line finds its entry; the parameters are passed on as they were printed.\<close>

lemma client_line:
  assumes "\<not> IsDead (pclients st cptr)" "cmd \<noteq> []" "list_all IsAlpha cmd" "msg_tree_parse cmd msg_tree = Some i"
    and "pe_services env = []" "\<not> (IsRegistered (pclients st cptr) \<and> pe_shunned env cptr)"
  shows "parse_client env st cptr (cmd @ CHR '' '' # r) = Some (client_dispatch env st cptr None i cmd (Some r))"
  using assms client_command_plain [of cmd "CHR '' '' # r"] cut_space_plain [OF alpha_no_space, of cmd r]
  by (auto simp: parse_client_def Let_def returning_def)

lemma client_dispatch_print:
  assumes "i < length msgtab" "pc_handler (pclients st cptr) < 5" "list_all middle ms"
    "length ms < min (msg_parameters (msgtab ! i)) MAXPARA"
  shows "\<exists>st'. client_dispatch env st cptr None i cmd (Some (print_params ms t)) =
      Inr (st', [], Handler i (msg_handlers (msgtab ! i) ! pc_handler (pclients st cptr)) cptr (pname st cptr # ms @ [t]))
    \<and> cli_since (pclients st' cptr) = cli_since (pclients st cptr)
         + penalty (pclients st cptr) (msgtab ! i) (length (print_params ms t))
    \<and> mcount st' = (mcount st)(i := mcount st i + 1)"
proof -
  have s: "split_params False (min (msg_parameters (msgtab ! i)) MAXPARA) 0 (print_params ms t) = ms @ [t]"
    by (rule split_print [OF assms(3)]) (use assms(4) in simp)
  have f: "fill_para (pname st cptr) (ms @ [t]) = Inr (pname st cptr # ms @ [t])"
    using fill_para_split [OF assms(1), of "pname st cptr" False "print_params ms t"] s by simp
  have h: "msg_handler i (pc_handler (pclients st cptr)) = Inr (msg_handlers (msgtab ! i) ! pc_handler (pclients st cptr))"
    using msgtab_nth [OF assms(1)] assms(2) by (simp add: msg_handler_def)
  show ?thesis using s f h by (simp add: client_dispatch_def Let_def)
qed

section \<open>Sources of server messages\<close>

lemma FindClient_clients: "FindClient env st name = Inr (st', r) \<Longrightarrow> pclients st' = pclients st"
  by (auto simp: FindClient_def res_bind_Inr_iff split: if_splits)

lemma name_prefix_direction:
  assumes "name_prefix env st cptr buffer = Inr (st', out, r)" "pc_from (pclients st cptr) = cptr"
  shows "pclients st' = pclients st \<and> (\<forall>from p ch. r = Inr (from, p, ch) \<longrightarrow> pc_from (pclients st from) = cptr)"
  using assms FindClient_clients
  by (auto simp: name_prefix_def res_bind_Inr_iff Let_def split: if_splits option.splits prod.splits) (metis+)?

lemma numeric_prefix_direction:
  assumes "numeric_prefix env st cptr buffer = Inr (st', out, r)"
  shows "pclients st' = pclients st \<and> (\<forall>from p ch. r = Inr (from, p, ch) \<longrightarrow> pc_from (pclients st from) = cptr)"
  using assms
  by (auto simp: numeric_prefix_def res_bind_Inr_iff Let_def split: if_splits option.splits)

lemma server_command_from:
  assumes "server_command st cptr bang from para0 rest = Inr (st', out, a)"
  shows "pclients st' = pclients st \<and> (\<forall>i h src parv. a = Handler i h src parv \<longrightarrow> src = from \<and> i < length msgtab)
    \<and> (\<forall>k b src parv. a = Numeric k b src parv \<longrightarrow> src = from \<and> k \<noteq> 0)"
proof -
  obtain cmd s where c: "cut_space (skip_spaces rest) = (cmd, s)" by fastforce
  have "msg_tree_parse cmd msg_tree = Some i \<Longrightarrow> i < length msgtab" for i
    by (simp add: msg_tree_def parse_initmsgtree lookup_iff_own msgtab_facts(1) split: if_splits)
  then show ?thesis using assms c
    by (auto simp: server_command_def res_bind_Inr_iff Let_def split: if_splits option.splits)
qed

section \<open>Theorems\<close>

text \<open>
  C30: a command line of a user reaches its handler: the name or token of an entry of the command
  table in any case, middle parameters and a trailing one, fewer than the entry allows, call the
  handler of that entry for the client's state with exactly these parameters, count the message
  and charge the client's flood clock.
\<close>

theorem parse_client_dispatches:
  assumes "\<not> IsDead (pclients st cptr)" "pe_services env = []"
    and "\<not> (IsRegistered (pclients st cptr) \<and> pe_shunned env cptr)" "pc_handler (pclients st cptr) < 5"
    and "i < length msgtab" "n \<in> set (own_names (msgtab ! i))" "list_all IsAlpha cmd" "cmd \<noteq> []"
    and "map ToLower cmd = map ToLower n"
    and "list_all middle ms" "length ms < min (msg_parameters (msgtab ! i)) MAXPARA"
  shows "\<exists>st'. parse_client env st cptr (cmd @ '' '' @ print_params ms t) =
      returning (st', [], Handler i (msg_handlers (msgtab ! i) ! pc_handler (pclients st cptr)) cptr (pname st cptr # ms @ [t]))
    \<and> cli_since (pclients st' cptr) = cli_since (pclients st cptr)
         + penalty (pclients st cptr) (msgtab ! i) (length (print_params ms t))
    \<and> mcount st' = (mcount st)(i := mcount st i + 1)"
proof -
  have "key cmd = key n" using key_name [OF assms(7) own_name_chars] assms(5,6,9) msgtab_facts(1) by simp
  then have "msg_tree_parse cmd msg_tree = Some i"
    using assms(5-7) msgtab_facts(1) by (auto simp: msg_tree_def parse_initmsgtree lookup_iff_own)
  then have "parse_client env st cptr (cmd @ '' '' @ print_params ms t) =
      Some (client_dispatch env st cptr None i cmd (Some (print_params ms t)))"
    using client_line [OF assms(1,8,7) _ assms(2,3)] by simp
  then show ?thesis using client_dispatch_print [OF assms(5,4,10,11)] by (auto simp: returning_def)
qed

definition example_env :: penv where
  "example_env = \<lparr>pe_crc = [], pe_nn = nn_example, pe_services = [], pe_shunned = (\<lambda>_. False), pe_idle_from_msg = False, pe_time = 100\<rparr>"

definition example_state :: pstate where
  "example_state = \<lparr>pclients = (\<lambda>c. \<lparr>cli_status = STAT_USER, cli_flags = [], cli_since = 10, cli_lasttime = 0, cli_error = 0,
       pc_name = ''al'', pc_from = c, pc_handler = 1, pc_last = 0\<rparr>),
     ptable = (\<lambda>_. []), is_empt = 0, is_unco = 0, is_unpf = 0, is_wrdi = 0, is_num = 0,
     mcount = (\<lambda>_. 0), mbytes = (\<lambda>_. 0)\<rparr>"

lemma example_alive: "\<not> IsDead (pclients example_state c)" "pc_from (pclients example_state c) = c"
  by (simp_all add: example_state_def HasFlag_def)

theorem parse_client_dispatches_witness:
  "\<exists>st'. parse_client example_env example_state 4 ''privmsg #irc :hi all'' =
      returning (st', [], Handler 0 ''m_privmsg'' 4 [''al'', ''#irc'', ''hi all''])"
proof -
  have m: "msgtab ! 0 = msg ''PRIVMSG'' ''P'' MAXPARA MFLG_SLOW [''m_unregistered'', ''m_privmsg'', ''ms_privmsg'', ''mo_privmsg'', ''m_ignore'']"
    by (simp add: msgtab_def msgtab1_def)
  show ?thesis
    using parse_client_dispatches [where st = example_state and env = example_env and cptr = 4 and i = 0
        and n = "''PRIVMSG''" and cmd = "''privmsg''" and ms = "[''#irc'']" and t = "''hi all''"]
    by (auto simp: m msgtab_facts(1) example_alive example_env_def example_state_def HasFlag_def msg_def own_names_def
        middle_def MAXPARA_def IsAlpha_iff chattr_simps)
qed

text \<open>
  The parameter array is never overrun: whatever the line, an entry of the command table
  takes at most \<open>MAXPARA\<close> parameters, which with the source name and the final null fit \<open>para[]\<close>.
\<close>

theorem parameters_fit:
  assumes "i < length msgtab"
  shows "\<exists>parv. fill_para para0 (split_params colon (min (msg_parameters (msgtab ! i)) MAXPARA) 0 s) = Inr parv
    \<and> 1 \<le> length parv \<and> length parv \<le> MAXPARA + 1"
  using fill_para_split [OF assms, of para0 colon s]
    split_params_length [of colon "min (msg_parameters (msgtab ! i)) MAXPARA" 0 s]
  by (auto simp: MAXPARA_def)

theorem parameters_fit_witness:
  "\<exists>parv. fill_para ''al'' (split_params False (min (msg_parameters (msgtab ! 3)) MAXPARA) 0 ''a b c'') = Inr parv
    \<and> 1 \<le> length parv \<and> length parv \<le> 16"
  using parameters_fit [of 3 "''al''" False "''a b c''"] by (simp add: msgtab_facts(1) MAXPARA_def)

text \<open>
  C28: no message is handled for a source that lies behind another link: when \<open>parse_server\<close> calls
  a handler or \<open>do_numeric\<close>, the source it passes is reached through the server the line came from.
\<close>

theorem parse_server_direction:
  assumes "parse_server env st cptr buffer = Inr (st', out, a)" "pc_from (pclients st cptr) = cptr"
  shows "pclients st' = pclients st \<and> (case a of
      Handler i h from parv \<Rightarrow> pc_from (pclients st from) = cptr \<and> i < length msgtab
    | Numeric k bang from parv \<Rightarrow> pc_from (pclients st from) = cptr \<and> k \<noteq> 0
    | Return code \<Rightarrow> True
    | Service s parv \<Rightarrow> False)"
proof (cases "IsDead (pclients st cptr)")
  case False
  let ?pre = "if buffer \<noteq> [] \<and> hd buffer = CHR '':'' then name_prefix env st cptr buffer else numeric_prefix env st cptr buffer"
  obtain st1 out1 r where p: "?pre = Inr (st1, out1, r)"
    using assms(1) False by (auto simp: parse_server_def Let_def res_bind_Inr_iff split: if_splits)
  have d: "pclients st1 = pclients st" "\<And>from p ch. r = Inr (from, p, ch) \<Longrightarrow> pc_from (pclients st from) = cptr"
    using p name_prefix_direction [OF _ assms(2)] numeric_prefix_direction by (metis (no_types))+
  show ?thesis
  proof (cases r)
    case (Inl code)
    then show ?thesis using assms(1) False p d by (auto simp: parse_server_def Let_def)
  next
    case (Inr x)
    obtain src p ch where x: "x = (src, p, ch)" by (metis prod_cases3)
    obtain st2 out2 where c: "server_command st1 cptr (\<not> (buffer \<noteq> [] \<and> hd buffer = CHR '':'')) src p ch = Inr (st2, out2, a)" "st' = st2"
      using assms(1) False p Inr x by (auto simp: parse_server_def Let_def res_bind_Inr_iff)
    have f: "pc_from (pclients st src) = cptr" using d(2) Inr x by blast
    have "\<not> (\<exists>s parv. a = Service s parv)"
      using c(1) by (auto simp: server_command_def res_bind_Inr_iff Let_def split: if_splits option.splits prod.splits)
    then show ?thesis using server_command_from [OF c(1)] c(2) d(1) f by (cases a) auto
  qed
qed (use assms(1) in \<open>auto simp: parse_server_def\<close>)

lemmas server_eval =
  parse_server_def numeric_prefix_def numeric_source_def server_command_def cut_space_def msg_tree_def
  parse_initmsgtree IsAlpha_iff Let_def

theorem parse_server_direction_witness:
  "\<exists>st'. parse_server example_env example_state 4 '' AB :x'' = Inr (st', [MissingPrefix 4], Return (- 1))
     \<and> pclients st' = pclients example_state"
proof -
  have "\<exists>st'. parse_server example_env example_state 4 '' AB :x'' = Inr (st', [MissingPrefix 4], Return (- 1))"
    using example_alive by (simp add: server_eval)
  then show ?thesis using parse_server_direction [OF _ example_alive(2)] by fastforce
qed

text \<open>
  A server that sends the three digits \<open>000\<close> as a command makes \<open>parse_server\<close> follow a null
  message pointer, since the numeric is tested by its value.
\<close>

theorem parse_server_numeric_zero:
  assumes "\<not> IsDead (pclients st cptr)" "pc_from (pclients st cptr) = cptr"
  shows "parse_server env st cptr ''  000 x'' = Inl NullDeref"
  using assms by (simp add: server_eval split_params.simps fill_para_def MAXPARA_def numeric_value_def schar_def IsDigit_iff)

theorem parse_server_numeric_zero_witness: "parse_server example_env example_state 4 ''  000 x'' = Inl NullDeref"
  using parse_server_numeric_zero [OF example_alive] by simp

end
