(* ===== verification/Events.thy ===== *)
theory Events
  imports Prelude
begin

text \<open>
  Timers (\<open>ircd/ircd_events.c\<close>): the queue of timers ordered by expiry, adding, changing and
  deleting them, also from inside their own callbacks, and the loop that fires the expired ones.

  The linked list of timers is the list of their identifiers. What a callback does to timers when
  one expires is an argument: the calls it makes, as a function of the state it runs in. The
  callbacks of destroyed timers release their owner's data and call no timer function. The event
  structures are counted (allocated and on the free list), and every event delivered is recorded
  with its time. A failed assertion is the fault \<open>Aborted\<close>.
\<close>

section \<open>State\<close>

type_synonym timer = nat

datatype TimerType = TT_ABSOLUTE | TT_RELATIVE | TT_PERIODIC

datatype gen_flag = GEN_DESTROY | GEN_MARKED | GEN_ACTIVE | GEN_READD | GEN_ERROR

datatype event = ET_EXPIRE timer | ET_DESTROY timer

record Timer =
  gh_flags :: "gen_flag list"
  gh_ref :: u32
  t_type :: TimerType
  t_value :: int
  t_expire :: int

record evInfo =
  g_timer :: "timer list"
  timer_at :: "timer \<Rightarrow> Timer"
  events_free :: nat
  events_alloc :: nat
  CurrentTime :: int
  delivered :: "(event \<times> int) list"

abbreviation expire :: "evInfo \<Rightarrow> timer \<Rightarrow> int" where
  "expire ev t \<equiv> t_expire (timer_at ev t)"

definition has_flag :: "evInfo \<Rightarrow> timer \<Rightarrow> gen_flag \<Rightarrow> bool" where
  "has_flag ev t f \<longleftrightarrow> f \<in> set (gh_flags (timer_at ev t))"

definition upd :: "timer \<Rightarrow> (Timer \<Rightarrow> Timer) \<Rightarrow> evInfo \<Rightarrow> evInfo" where
  "upd t f ev = ev\<lparr>timer_at := (timer_at ev)(t := f (timer_at ev t))\<rparr>"

definition set_flag :: "timer \<Rightarrow> gen_flag \<Rightarrow> evInfo \<Rightarrow> evInfo" where
  "set_flag t f = upd t (\<lambda>m. m\<lparr>gh_flags := List.insert f (gh_flags m)\<rparr>)"

definition clr_flag :: "timer \<Rightarrow> gen_flag \<Rightarrow> evInfo \<Rightarrow> evInfo" where
  "clr_flag t f = upd t (\<lambda>m. m\<lparr>gh_flags := removeAll f (gh_flags m)\<rparr>)"

section \<open>Operations\<close>

definition timer_init :: "timer \<Rightarrow> evInfo \<Rightarrow> evInfo" where
  "timer_init t = upd t (\<lambda>m. m\<lparr>gh_flags := [], gh_ref := 0\<rparr>)"

definition gen_dequeue :: "timer \<Rightarrow> evInfo \<Rightarrow> evInfo" where
  "gen_dequeue t ev = ev\<lparr>g_timer := remove1 t (g_timer ev)\<rparr>"

text \<open>The slot is before the first timer that expires later.\<close>

fun insert_slot :: "(timer \<Rightarrow> int) \<Rightarrow> timer \<Rightarrow> timer list \<Rightarrow> timer list" where
  "insert_slot ex t [] = [t]"
| "insert_slot ex t (u # us) = (if ex t < ex u then t # u # us else u # insert_slot ex t us)"

definition timer_enqueue :: "timer \<Rightarrow> evInfo \<Rightarrow> evInfo res" where
  "timer_enqueue t ev =
     (if t \<in> set (g_timer ev) \<or> \<not> has_flag ev t GEN_ACTIVE then Inl Aborted
      else
        (let ev1 = upd t (\<lambda>m. m\<lparr>t_expire := (case t_type m of TT_ABSOLUTE \<Rightarrow> t_value m
                                     | _ \<Rightarrow> t_value m + CurrentTime ev)\<rparr>) ev
         in Inr (ev1\<lparr>g_timer := insert_slot (expire ev1) t (g_timer ev1)\<rparr>)))"

text \<open>
  \<open>event_generate\<close> with the synchronous \<open>event_execute\<close>, before and after the callback. The
  destruction of a timer calls back without effect on timers.
\<close>

definition event_begin :: "event \<Rightarrow> timer \<Rightarrow> evInfo \<Rightarrow> evInfo res" where
  "event_begin e t ev =
     (if \<not> has_flag ev t GEN_ACTIVE then Inl Aborted
      else
        (let ev1 = (if events_free ev = 0 then ev\<lparr>events_alloc := Suc (events_alloc ev)\<rparr>
                    else ev\<lparr>events_free := events_free ev - 1\<rparr>);
             ev2 = upd t (\<lambda>m. m\<lparr>gh_ref := gh_ref m + 1\<rparr>) ev1;
             ev3 = (case e of ET_DESTROY _ \<Rightarrow> clr_flag t GEN_ACTIVE ev2 | ET_EXPIRE _ \<Rightarrow> ev2)
         in Inr (ev3\<lparr>delivered := delivered ev3 @ [(e, CurrentTime ev)]\<rparr>)))"

definition event_finish :: "event \<Rightarrow> timer \<Rightarrow> evInfo \<Rightarrow> evInfo" where
  "event_finish e t ev =
     (let ev1 = (case e of ET_DESTROY _ \<Rightarrow> ev | ET_EXPIRE _ \<Rightarrow> upd t (\<lambda>m. m\<lparr>gh_ref := gh_ref m - 1\<rparr>) ev)
      in ev1\<lparr>events_free := Suc (events_free ev1)\<rparr>)"

definition destroy_event :: "timer \<Rightarrow> evInfo \<Rightarrow> evInfo res" where
  "destroy_event t ev =
     (if has_flag ev t GEN_ACTIVE
      then res_bind (event_begin (ET_DESTROY t) t ev) (\<lambda>ev1. Inr (event_finish (ET_DESTROY t) t ev1))
      else Inl Aborted)"

definition timer_add :: "timer \<Rightarrow> TimerType \<Rightarrow> int \<Rightarrow> evInfo \<Rightarrow> evInfo res" where
  "timer_add t ty v ev =
     (let ev1 = set_flag t GEN_ACTIVE ev;
          ev2 = (if has_flag ev1 t GEN_MARKED then set_flag t GEN_READD ev1 else ev1);
          ev3 = upd t (\<lambda>m. m\<lparr>gh_ref := 0, t_type := ty, t_value := v, t_expire := 0\<rparr>) ev2
      in if has_flag ev3 t GEN_MARKED then Inr ev3 else timer_enqueue t ev3)"

definition timer_del :: "timer \<Rightarrow> evInfo \<Rightarrow> evInfo res" where
  "timer_del t ev =
     (let ev1 = clr_flag t GEN_READD ev
      in if has_flag ev1 t GEN_MARKED then Inr ev1 else destroy_event t (gen_dequeue t ev1))"

definition timer_chg :: "timer \<Rightarrow> TimerType \<Rightarrow> int \<Rightarrow> evInfo \<Rightarrow> evInfo res" where
  "timer_chg t ty v ev =
     (if v = 0 \<or> t_type (timer_at ev t) = TT_PERIODIC \<or> ty = TT_PERIODIC then Inl Aborted
      else
        (let ev1 = upd t (\<lambda>m. m\<lparr>t_type := ty, t_value := v, t_expire := 0\<rparr>) ev
         in if has_flag ev1 t GEN_MARKED then Inr (set_flag t GEN_READD ev1)
            else timer_enqueue t (gen_dequeue t ev1)))"

text \<open>The timer functions a callback calls.\<close>

datatype tcall = Add timer TimerType int | Del timer | Chg timer TimerType int

fun run_call :: "tcall \<Rightarrow> evInfo \<Rightarrow> evInfo res" where
  "run_call (Add t ty v) ev = timer_add t ty v ev"
| "run_call (Del t) ev = timer_del t ev"
| "run_call (Chg t ty v) ev = timer_chg t ty v ev"

fun run_calls :: "tcall list \<Rightarrow> evInfo \<Rightarrow> evInfo res" where
  "run_calls [] ev = Inr ev"
| "run_calls (c # cs) ev = res_bind (run_call c ev) (run_calls cs)"

text \<open>One round of \<open>timer_run\<close>, for the timer at the head of the queue.\<close>

definition fire :: "(evInfo \<Rightarrow> timer \<Rightarrow> tcall list) \<Rightarrow> timer \<Rightarrow> evInfo \<Rightarrow> evInfo res" where
  "fire cb t ev =
     (let ev1 = set_flag t GEN_MARKED (gen_dequeue t ev);
          ev2 = (if t_type (timer_at ev1 t) = TT_PERIODIC then set_flag t GEN_READD ev1 else ev1)
      in res_bind (event_begin (ET_EXPIRE t) t ev2) (\<lambda>ev3.
         res_bind (run_calls (cb ev3 t) ev3) (\<lambda>ev4.
           let ev5 = clr_flag t GEN_MARKED (event_finish (ET_EXPIRE t) t ev4)
           in if \<not> has_flag ev5 t GEN_READD then destroy_event t ev5
              else res_bind (timer_enqueue t ev5) (\<lambda>ev6. Inr (clr_flag t GEN_READD ev6)))))"

partial_function (option) timer_run :: "(evInfo \<Rightarrow> timer \<Rightarrow> tcall list) \<Rightarrow> evInfo \<Rightarrow> evInfo run" where
  "timer_run cb ev =
     (case g_timer ev of [] \<Rightarrow> Some (Inr ev)
      | t # ts \<Rightarrow>
          if CurrentTime ev < expire ev t then Some (Inr ev)
          else case fire cb t ev of Inl e \<Rightarrow> Some (Inl e) | Inr ev' \<Rightarrow> timer_run cb ev')"

definition timer_next :: "evInfo \<Rightarrow> int" where
  "timer_next ev = (case g_timer ev of [] \<Rightarrow> 0 | t # ts \<Rightarrow> expire ev t)"

section \<open>The queue stays in order\<close>

lemma upd_simps [simp]:
  "g_timer (upd t f ev) = g_timer ev" "CurrentTime (upd t f ev) = CurrentTime ev" "delivered (upd t f ev) = delivered ev"
  "timer_at (upd t f ev) u = (if u = t then f (timer_at ev t) else timer_at ev u)"
  by (simp_all add: upd_def)

lemma flag_simps [simp]:
  "g_timer (set_flag t f ev) = g_timer ev" "g_timer (clr_flag t f ev) = g_timer ev"
  "CurrentTime (set_flag t f ev) = CurrentTime ev" "CurrentTime (clr_flag t f ev) = CurrentTime ev"
  "delivered (set_flag t f ev) = delivered ev" "delivered (clr_flag t f ev) = delivered ev"
  "t_expire (timer_at (set_flag t f ev) u) = expire ev u" "t_expire (timer_at (clr_flag t f ev) u) = expire ev u"
  "t_type (timer_at (set_flag t f ev) u) = t_type (timer_at ev u)" "t_type (timer_at (clr_flag t f ev) u) = t_type (timer_at ev u)"
  "t_value (timer_at (set_flag t f ev) u) = t_value (timer_at ev u)" "t_value (timer_at (clr_flag t f ev) u) = t_value (timer_at ev u)"
  "has_flag (set_flag t f ev) u g \<longleftrightarrow> u = t \<and> g = f \<or> has_flag ev u g"
  "has_flag (clr_flag t f ev) u g \<longleftrightarrow> has_flag ev u g \<and> \<not> (u = t \<and> g = f)"
  by (auto simp: set_flag_def clr_flag_def has_flag_def)

lemma has_flag_upd: "(\<And>m. gh_flags (f m) = gh_flags m) \<Longrightarrow> has_flag (upd t f ev) u g = has_flag ev u g"
  by (simp add: has_flag_def)

lemma dequeue_simps [simp]:
  "g_timer (gen_dequeue t ev) = remove1 t (g_timer ev)" "timer_at (gen_dequeue t ev) = timer_at ev"
  "CurrentTime (gen_dequeue t ev) = CurrentTime ev" "delivered (gen_dequeue t ev) = delivered ev"
  "has_flag (gen_dequeue t ev) u g = has_flag ev u g"
  by (simp_all add: gen_dequeue_def has_flag_def)

lemma set_insert_slot [simp]: "set (insert_slot ex t us) = insert t (set us)"
  by (induction us) auto

lemma distinct_insert_slot: "distinct us \<Longrightarrow> t \<notin> set us \<Longrightarrow> distinct (insert_slot ex t us)"
  by (induction us) auto

lemma sorted_insert_slot: "sorted (map ex us) \<Longrightarrow> sorted (map ex (insert_slot ex t us))"
  by (induction us) fastforce+

definition ev_inv :: "evInfo \<Rightarrow> bool" where
  "ev_inv ev \<longleftrightarrow> distinct (g_timer ev) \<and> sorted (map (expire ev) (g_timer ev))
     \<and> (\<forall>t \<in> set (g_timer ev). has_flag ev t GEN_ACTIVE \<and> \<not> has_flag ev t GEN_MARKED)"

lemma ev_inv_cong:
  assumes "ev_inv ev" "g_timer ev' = g_timer ev"
    "\<And>u. u \<in> set (g_timer ev) \<Longrightarrow> expire ev' u = expire ev u
       \<and> has_flag ev' u GEN_ACTIVE = has_flag ev u GEN_ACTIVE \<and> has_flag ev' u GEN_MARKED = has_flag ev u GEN_MARKED"
  shows "ev_inv ev'"
proof -
  have "map (expire ev') (g_timer ev) = map (expire ev) (g_timer ev)" using assms(3) by simp
  then have "sorted (map (expire ev') (g_timer ev'))" using assms(1,2) by (simp only: ev_inv_def)
  then show ?thesis using assms by (simp add: ev_inv_def)
qed

lemma ev_inv_dequeue:
  assumes "ev_inv ev"
  shows "ev_inv (gen_dequeue t ev)"
  using assms unfolding ev_inv_def
  by (auto simp: sorted_map_remove1 distinct_remove1 dest: notin_set_remove1 in_set_remove1)

text \<open>What the operations leave alone: time, the record of events, marks, timers of no concern.\<close>

lemma timer_enqueue_result:
  assumes "timer_enqueue t ev = Inr ev'"
  shows "t \<notin> set (g_timer ev)" "has_flag ev t GEN_ACTIVE"
    "set (g_timer ev') = insert t (set (g_timer ev))" "CurrentTime ev' = CurrentTime ev" "delivered ev' = delivered ev"
    "has_flag ev' u g = has_flag ev u g" "u \<noteq> t \<Longrightarrow> timer_at ev' u = timer_at ev u"
    "t_type (timer_at ev' t) = t_type (timer_at ev t)" "t_value (timer_at ev' t) = t_value (timer_at ev t)"
    "expire ev' t = (case t_type (timer_at ev t) of TT_ABSOLUTE \<Rightarrow> t_value (timer_at ev t)
                     | _ \<Rightarrow> t_value (timer_at ev t) + CurrentTime ev)"
  using assms by (auto simp: timer_enqueue_def Let_def has_flag_def upd_def split: if_splits)

lemma timer_enqueue_inv:
  assumes "timer_enqueue t ev = Inr ev'" "ev_inv ev" "\<not> has_flag ev t GEN_MARKED"
  shows "ev_inv ev'"
proof -
  let ?ev1 = "upd t (\<lambda>m. m\<lparr>t_expire := (case t_type m of TT_ABSOLUTE \<Rightarrow> t_value m | _ \<Rightarrow> t_value m + CurrentTime ev)\<rparr>) ev"
  have ev': "ev' = ?ev1\<lparr>g_timer := insert_slot (expire ?ev1) t (g_timer ?ev1)\<rparr>"
    using assms(1) by (simp add: timer_enqueue_def Let_def split: if_splits)
  have t: "t \<notin> set (g_timer ev)" "has_flag ev t GEN_ACTIVE" using timer_enqueue_result [OF assms(1)] by auto
  have i: "ev_inv ?ev1" by (rule ev_inv_cong [OF assms(2)]) (use t in \<open>auto simp: has_flag_def\<close>)
  then have "sorted (map (expire ?ev1) (insert_slot (expire ?ev1) t (g_timer ev)))"
    by (intro sorted_insert_slot) (simp add: ev_inv_def)
  moreover have "distinct (insert_slot (expire ?ev1) t (g_timer ev))"
    using assms(2) t by (simp add: ev_inv_def distinct_insert_slot)
  moreover have "\<forall>u \<in> insert t (set (g_timer ev)). has_flag ev' u GEN_ACTIVE \<and> \<not> has_flag ev' u GEN_MARKED"
    using assms(2,3) t timer_enqueue_result(6) [OF assms(1)] by (auto simp: ev_inv_def)
  ultimately show ?thesis by (simp add: ev_inv_def ev')
qed

lemma event_begin_result:
  assumes "event_begin e t ev = Inr ev'"
  shows "g_timer ev' = g_timer ev" "CurrentTime ev' = CurrentTime ev" "delivered ev' = delivered ev @ [(e, CurrentTime ev)]"
    "expire ev' u = expire ev u" "t_type (timer_at ev' u) = t_type (timer_at ev u)" "t_value (timer_at ev' u) = t_value (timer_at ev u)"
    "has_flag ev' u g \<longleftrightarrow> has_flag ev u g \<and> \<not> ((\<exists>v. e = ET_DESTROY v) \<and> u = t \<and> g = GEN_ACTIVE)"
  using assms
  by (auto simp: event_begin_def Let_def has_flag_def clr_flag_def upd_def split: if_splits event.splits)

lemma event_finish_simps [simp]:
  "g_timer (event_finish e t ev) = g_timer ev" "CurrentTime (event_finish e t ev) = CurrentTime ev"
  "delivered (event_finish e t ev) = delivered ev" "t_expire (timer_at (event_finish e t ev) u) = expire ev u"
  "t_type (timer_at (event_finish e t ev) u) = t_type (timer_at ev u)" "t_value (timer_at (event_finish e t ev) u) = t_value (timer_at ev u)"
  "has_flag (event_finish e t ev) u g = has_flag ev u g"
  by (auto simp: event_finish_def Let_def has_flag_def upd_def split: event.splits)

lemma destroy_result:
  assumes "destroy_event t ev = Inr ev'"
  shows "g_timer ev' = g_timer ev" "CurrentTime ev' = CurrentTime ev" "delivered ev' = delivered ev @ [(ET_DESTROY t, CurrentTime ev)]"
    "expire ev' u = expire ev u" "t_type (timer_at ev' u) = t_type (timer_at ev u)" "t_value (timer_at ev' u) = t_value (timer_at ev u)"
    "has_flag ev' u g \<longleftrightarrow> has_flag ev u g \<and> \<not> (u = t \<and> g = GEN_ACTIVE)"
proof -
  obtain ev1 where b: "event_begin (ET_DESTROY t) t ev = Inr ev1" and e: "ev' = event_finish (ET_DESTROY t) t ev1"
    using assms by (auto simp: destroy_event_def res_bind_Inr_iff split: if_splits)
  note r = event_begin_result [OF b]
  show "g_timer ev' = g_timer ev" "CurrentTime ev' = CurrentTime ev" "delivered ev' = delivered ev @ [(ET_DESTROY t, CurrentTime ev)]"
    "expire ev' u = expire ev u" "t_type (timer_at ev' u) = t_type (timer_at ev u)" "t_value (timer_at ev' u) = t_value (timer_at ev u)"
    "has_flag ev' u g \<longleftrightarrow> has_flag ev u g \<and> \<not> (u = t \<and> g = GEN_ACTIVE)"
    by (simp_all add: e r)
qed

section \<open>What callbacks may do\<close>

definition overdue :: "evInfo \<Rightarrow> timer set" where
  "overdue ev = {t \<in> set (g_timer ev). expire ev t \<le> CurrentTime ev}"

fun expired :: "(event \<times> int) list \<Rightarrow> timer list" where
  "expired [] = []"
| "expired ((ET_EXPIRE t, w) # es) = t # expired es"
| "expired ((ET_DESTROY t, w) # es) = expired es"

lemma expired_append [simp]: "expired (xs @ ys) = expired xs @ expired ys"
  by (induction xs rule: expired.induct) auto

text \<open>A timer of this type and value, when queued now, expires in the future.\<close>

fun in_future :: "int \<Rightarrow> TimerType \<Rightarrow> int \<Rightarrow> bool" where
  "in_future now TT_ABSOLUTE v = (now < v)"
| "in_future now _ v = (0 < v)"

definition future :: "evInfo \<Rightarrow> timer \<Rightarrow> bool" where
  "future ev t = in_future (CurrentTime ev) (t_type (timer_at ev t)) (t_value (timer_at ev t))"

fun polite_call :: "int \<Rightarrow> tcall \<Rightarrow> bool" where
  "polite_call now (Add t ty v) = in_future now ty v"
| "polite_call now (Chg t ty v) = in_future now ty v"
| "polite_call now (Del t) = True"

definition polite :: "(evInfo \<Rightarrow> timer \<Rightarrow> tcall list) \<Rightarrow> bool" where
  "polite cb \<longleftrightarrow> (\<forall>ev t. list_all (polite_call (CurrentTime ev)) (cb ev t))"

definition periodic_ok :: "evInfo \<Rightarrow> bool" where
  "periodic_ok ev \<longleftrightarrow> (\<forall>t. t_type (timer_at ev t) = TT_PERIODIC \<longrightarrow> 0 < t_value (timer_at ev t))"

text \<open>The effect of polite calls: no timer becomes due, none fires, and marks stay.\<close>

definition benign :: "evInfo \<Rightarrow> evInfo \<Rightarrow> bool" where
  "benign ev ev' \<longleftrightarrow> CurrentTime ev' = CurrentTime ev
     \<and> (ev_inv ev \<longrightarrow> ev_inv ev') \<and> (periodic_ok ev \<longrightarrow> periodic_ok ev')
     \<and> (\<exists>ds. delivered ev' = delivered ev @ ds \<and> expired ds = [])
     \<and> (\<forall>u \<in> overdue ev'. u \<in> overdue ev \<and> expire ev' u = expire ev u)
     \<and> (\<forall>u. has_flag ev' u GEN_MARKED = has_flag ev u GEN_MARKED)
     \<and> (\<forall>u. has_flag ev u GEN_MARKED \<longrightarrow> has_flag ev u GEN_ACTIVE \<longrightarrow> has_flag ev' u GEN_ACTIVE)
     \<and> (\<forall>u. has_flag ev u GEN_MARKED \<longrightarrow> (has_flag ev u GEN_READD \<longrightarrow> future ev u)
          \<longrightarrow> (has_flag ev' u GEN_READD \<longrightarrow> future ev' u))"

lemma benign_refl: "benign ev ev"
  by (auto simp: benign_def)

lemma benign_trans: "benign ev ev1 \<Longrightarrow> benign ev1 ev2 \<Longrightarrow> benign ev ev2"
  unfolding benign_def by (elim conjE, intro conjI) (force+)

lemma enqueue_future:
  assumes "timer_enqueue t ev = Inr ev'" "future ev t"
  shows "CurrentTime ev' < expire ev' t" "future ev' t"
  using assms(2) timer_enqueue_result(4,8-10) [OF assms(1)]
  by (cases "t_type (timer_at ev t)"; simp add: future_def)+

lemma enqueue_overdue:
  assumes "timer_enqueue t ev = Inr ev'" "future ev t" "u \<in> overdue ev'"
  shows "u \<noteq> t" "u \<in> overdue ev" "expire ev' u = expire ev u"
proof -
  show "u \<noteq> t" using enqueue_future(1) [OF assms(1,2)] assms(3) by (auto simp: overdue_def)
  then have "timer_at ev' u = timer_at ev u" by (rule timer_enqueue_result(7) [OF assms(1)])
  then show "u \<in> overdue ev" "expire ev' u = expire ev u"
    using assms(3) \<open>u \<noteq> t\<close> timer_enqueue_result(3,4) [OF assms(1)] by (auto simp: overdue_def)
qed

text \<open>A change of one timer that is off the queue.\<close>

lemma benign_off_queue:
  assumes "ev_inv ev" "t \<notin> set (g_timer ev)" "g_timer ev' = g_timer ev" "CurrentTime ev' = CurrentTime ev"
    "delivered ev' = delivered ev" "\<And>u. u \<noteq> t \<Longrightarrow> timer_at ev' u = timer_at ev u"
    "has_flag ev' t GEN_MARKED = has_flag ev t GEN_MARKED" "has_flag ev t GEN_ACTIVE \<Longrightarrow> has_flag ev' t GEN_ACTIVE"
    "future ev' t"
  shows "benign ev ev'"
proof -
  have f: "u \<noteq> t \<Longrightarrow> has_flag ev' u g = has_flag ev u g" "u \<noteq> t \<Longrightarrow> future ev' u = future ev u" for u g
    using assms(4,6) by (simp_all add: has_flag_def future_def)
  have "ev_inv ev'"
    by (rule ev_inv_cong [OF assms(1,3)]) (use assms(2,6) f(1) in metis)
  moreover have "overdue ev' = overdue ev" "\<forall>u \<in> overdue ev'. expire ev' u = expire ev u"
    using assms(2-4,6) by (auto simp: overdue_def) metis+
  moreover have "periodic_ok ev'" if "periodic_ok ev"
    unfolding periodic_ok_def
  proof (intro allI impI)
    fix u assume "t_type (timer_at ev' u) = TT_PERIODIC"
    then show "0 < t_value (timer_at ev' u)"
      using that assms(6) [of u] assms(9) by (cases "u = t") (auto simp: periodic_ok_def future_def)
  qed
  moreover have "has_flag ev' u GEN_MARKED = has_flag ev u GEN_MARKED" for u using assms(7) f(1) by (cases "u = t") auto
  moreover have "has_flag ev u GEN_ACTIVE \<longrightarrow> has_flag ev' u GEN_ACTIVE" for u using assms(8) f(1) by (cases "u = t") auto
  moreover have "(has_flag ev u GEN_READD \<longrightarrow> future ev u) \<longrightarrow> (has_flag ev' u GEN_READD \<longrightarrow> future ev' u)" for u
    using assms(9) f by (cases "u = t") auto
  ultimately show ?thesis using assms(4,5) by (simp add: benign_def)
qed

lemma benign_enqueue:
  assumes "timer_enqueue t ev = Inr ev'" "ev_inv ev" "\<not> has_flag ev t GEN_MARKED" "future ev t"
  shows "benign ev ev'"
proof -
  note r = timer_enqueue_result [OF assms(1)]
  have ty: "t_type (timer_at ev' u) = t_type (timer_at ev u)" "t_value (timer_at ev' u) = t_value (timer_at ev u)" for u
    using r(7-9) by (cases "u = t"; simp)+
  have "periodic_ok ev \<longrightarrow> periodic_ok ev'" using ty by (simp add: periodic_ok_def)
  moreover have "future ev' u = future ev u" for u using ty r(4) by (simp add: future_def)
  moreover have "\<forall>u \<in> overdue ev'. u \<in> overdue ev \<and> expire ev' u = expire ev u"
    using enqueue_overdue [OF assms(1,4)] by blast
  ultimately show ?thesis using r(4-6) timer_enqueue_inv [OF assms(1-3)] by (simp add: benign_def)
qed

lemma timer_add_benign:
  assumes "timer_add t ty v ev = Inr ev'" "ev_inv ev" "in_future (CurrentTime ev) ty v"
  shows "benign ev ev'" "t \<notin> set (g_timer ev)"
proof -
  define ev2 where "ev2 = (if has_flag (set_flag t GEN_ACTIVE ev) t GEN_MARKED
    then set_flag t GEN_READD (set_flag t GEN_ACTIVE ev) else set_flag t GEN_ACTIVE ev)"
  define ev3 where "ev3 = upd t (\<lambda>m. m\<lparr>gh_ref := 0, t_type := ty, t_value := v, t_expire := 0\<rparr>) ev2"
  have fl: "has_flag ev3 u g = has_flag ev2 u g" for u g unfolding ev3_def by (rule has_flag_upd) simp
  have same: "g_timer ev3 = g_timer ev" "CurrentTime ev3 = CurrentTime ev" "delivered ev3 = delivered ev"
    by (simp_all add: ev3_def ev2_def)
  have c: "(if has_flag ev3 t GEN_MARKED then Inr ev3 else timer_enqueue t ev3) = Inr ev'"
    using assms(1) unfolding timer_add_def Let_def ev3_def ev2_def .
  show off: "t \<notin> set (g_timer ev)"
  proof (cases "has_flag ev3 t GEN_MARKED")
    case True
    then show ?thesis using assms(2) fl by (auto simp: ev_inv_def ev2_def split: if_splits)
  next
    case False
    then show ?thesis using c timer_enqueue_result(1) [of t ev3 ev'] same(1) by simp
  qed
  have fut: "future ev3 t" using assms(3) by (simp add: future_def ev3_def ev2_def)
  have b3: "benign ev ev3"
  proof (rule benign_off_queue [OF assms(2) off])
    show "\<And>u. u \<noteq> t \<Longrightarrow> timer_at ev3 u = timer_at ev u" by (simp add: ev3_def ev2_def set_flag_def)
    show "has_flag ev3 t GEN_MARKED = has_flag ev t GEN_MARKED" "has_flag ev3 t GEN_ACTIVE" by (simp_all add: fl ev2_def)
  qed (use fut same in simp_all)
  show "benign ev ev'"
  proof (cases "has_flag ev3 t GEN_MARKED")
    case True
    then show ?thesis using c b3 by simp
  next
    case False
    then have "benign ev3 ev'" using c b3 assms(2) fut benign_enqueue [of t ev3 ev'] by (simp add: benign_def)
    then show ?thesis using b3 benign_trans by blast
  qed
qed

lemma dequeue_upd: "gen_dequeue t (upd u f ev) = upd u f (gen_dequeue t ev)"
  by (cases ev) (simp add: gen_dequeue_def upd_def)

lemma benign_dequeue:
  assumes "ev_inv ev"
  shows "benign ev (gen_dequeue t ev)"
  using ev_inv_dequeue [OF assms, of t]
  by (auto simp: benign_def overdue_def periodic_ok_def future_def dest: set_mp [OF set_remove1_subset])

lemma timer_del_benign:
  assumes "timer_del t ev = Inr ev'" "ev_inv ev"
  shows "benign ev ev'"
proof -
  let ?ev1 = "clr_flag t GEN_READD ev"
  have i1: "ev_inv ?ev1" by (rule ev_inv_cong [OF assms(2)]) simp_all
  have b1: "benign ev ?ev1" using i1 by (auto simp: benign_def overdue_def periodic_ok_def future_def)
  show ?thesis
  proof (cases "has_flag ?ev1 t GEN_MARKED")
    case True
    then show ?thesis using assms(1) b1 by (simp add: timer_del_def Let_def)
  next
    case False
    let ?ev2 = "gen_dequeue t ?ev1"
    have d: "destroy_event t ?ev2 = Inr ev'" using assms(1) False by (simp add: timer_del_def Let_def)
    note r = destroy_result [OF d]
    have i2: "ev_inv ?ev2" by (rule ev_inv_dequeue [OF i1])
    have off: "t \<notin> set (g_timer ?ev2)" using i1 by (simp add: ev_inv_def)
    have "ev_inv ev'" by (rule ev_inv_cong [OF i2]) (use r off in auto)
    then have "benign ?ev2 ev'" using r False off
      by (auto simp: benign_def overdue_def periodic_ok_def future_def)
    then show ?thesis using b1 benign_dequeue [OF i1] benign_trans by blast
  qed
qed

lemma timer_chg_benign:
  assumes "timer_chg t ty v ev = Inr ev'" "ev_inv ev" "in_future (CurrentTime ev) ty v"
  shows "benign ev ev'"
proof -
  let ?set = "upd t (\<lambda>m. m\<lparr>t_type := ty, t_value := v, t_expire := 0\<rparr>)"
  have fl: "has_flag (?set e) u g = has_flag e u g" for e u g by (rule has_flag_upd) simp
  have c: "if has_flag ev t GEN_MARKED then ev' = set_flag t GEN_READD (?set ev)
      else timer_enqueue t (?set (gen_dequeue t ev)) = Inr ev'"
    using assms(1) by (auto simp: timer_chg_def Let_def fl dequeue_upd split: if_splits)
  show ?thesis
  proof (cases "has_flag ev t GEN_MARKED")
    case True
    then have off: "t \<notin> set (g_timer ev)" using assms(2) by (auto simp: ev_inv_def)
    show ?thesis
    proof (rule benign_off_queue [OF assms(2) off])
      show "\<And>u. u \<noteq> t \<Longrightarrow> timer_at ev' u = timer_at ev u" using c True by (simp add: set_flag_def)
    qed (use c True assms(3) fl in \<open>simp_all add: future_def\<close>)
  next
    case False
    let ?ev1 = "gen_dequeue t ev"
    have i1: "ev_inv ?ev1" by (rule ev_inv_dequeue [OF assms(2)])
    have off: "t \<notin> set (g_timer ?ev1)" using assms(2) by (simp add: ev_inv_def)
    have fut: "future (?set ?ev1) t" using assms(3) by (simp add: future_def)
    have b: "benign ?ev1 (?set ?ev1)"
      by (rule benign_off_queue [OF i1 off]) (use fut fl in simp_all)
    then have "benign (?set ?ev1) ev'"
      using benign_enqueue [of t "?set ?ev1" ev'] c False i1 fut fl by (simp add: benign_def)
    then show ?thesis using b benign_dequeue [OF assms(2)] benign_trans by blast
  qed
qed

lemma run_call_benign:
  assumes "run_call c ev = Inr ev'" "ev_inv ev" "polite_call (CurrentTime ev) c"
  shows "benign ev ev'"
  using assms timer_add_benign timer_del_benign timer_chg_benign by (cases c) auto

lemma run_calls_benign:
  "run_calls cs ev = Inr ev' \<Longrightarrow> ev_inv ev \<Longrightarrow> list_all (polite_call (CurrentTime ev)) cs \<Longrightarrow> benign ev ev'"
proof (induction cs arbitrary: ev)
  case (Cons c cs)
  obtain ev1 where c: "run_call c ev = Inr ev1" "run_calls cs ev1 = Inr ev'"
    using Cons.prems(1) by (auto simp: res_bind_Inr_iff)
  have b: "benign ev ev1" by (rule run_call_benign [OF c(1) Cons.prems(2)]) (use Cons.prems(3) in simp)
  then have "benign ev1 ev'" using Cons.IH [OF c(2)] Cons.prems by (simp add: benign_def)
  then show ?case using b benign_trans by blast
qed (simp add: benign_refl)

text \<open>Only timers whose callback is running wait to be queued again.\<close>

definition readd_ok :: "evInfo \<Rightarrow> bool" where
  "readd_ok ev \<longleftrightarrow> (\<forall>u. has_flag ev u GEN_READD \<longrightarrow> has_flag ev u GEN_MARKED)"

lemma run_call_readd: "run_call c ev = Inr ev' \<Longrightarrow> readd_ok ev \<Longrightarrow> readd_ok ev'"
proof (cases c)
  case (Add t ty v)
  have fl: "has_flag (upd t (\<lambda>m. m\<lparr>gh_ref := 0, t_type := ty, t_value := v, t_expire := 0\<rparr>) e) u g = has_flag e u g" for e u g
    by (rule has_flag_upd) simp
  assume "run_call c ev = Inr ev'" "readd_ok ev"
  then show ?thesis
    by (auto simp: Add timer_add_def Let_def fl readd_ok_def timer_enqueue_result(6) split: if_splits)
next
  case (Del t)
  assume "run_call c ev = Inr ev'" "readd_ok ev"
  then show ?thesis
    by (auto simp: Del timer_del_def Let_def readd_ok_def destroy_result(7) split: if_splits)
next
  case (Chg t ty v)
  have fl: "has_flag (upd t (\<lambda>m. m\<lparr>t_type := ty, t_value := v, t_expire := 0\<rparr>) e) u g = has_flag e u g" for e u g
    by (rule has_flag_upd) simp
  assume "run_call c ev = Inr ev'" "readd_ok ev"
  then show ?thesis
    by (auto simp: Chg timer_chg_def Let_def fl readd_ok_def timer_enqueue_result(6) split: if_splits)
qed

lemma run_calls_readd: "run_calls cs ev = Inr ev' \<Longrightarrow> readd_ok ev \<Longrightarrow> readd_ok ev'"
  by (induction cs arbitrary: ev) (auto simp: res_bind_Inr_iff dest: run_call_readd)

section \<open>Firing\<close>

definition timers_ok :: "evInfo \<Rightarrow> bool" where
  "timers_ok ev \<longleftrightarrow> ev_inv ev \<and> periodic_ok ev \<and> readd_ok ev"

text \<open>The state in which the callback of an expired timer runs.\<close>

definition calling :: "timer \<Rightarrow> evInfo \<Rightarrow> evInfo \<Rightarrow> bool" where
  "calling t ev ev3 \<longleftrightarrow> ev_inv ev3 \<and> periodic_ok ev3 \<and> readd_ok ev3 \<and> CurrentTime ev3 = CurrentTime ev
     \<and> delivered ev3 = delivered ev @ [(ET_EXPIRE t, CurrentTime ev)]
     \<and> has_flag ev3 t GEN_MARKED \<and> has_flag ev3 t GEN_ACTIVE \<and> (has_flag ev3 t GEN_READD \<longrightarrow> future ev3 t)
     \<and> g_timer ev3 = remove1 t (g_timer ev) \<and> (\<forall>u. expire ev3 u = expire ev u)"

lemma fire_calling:
  assumes "timers_ok ev" "t \<in> set (g_timer ev)"
  shows "\<exists>ev3. calling t ev ev3 \<and> fire cb t ev = res_bind (run_calls (cb ev3 t) ev3) (\<lambda>ev4.
           let ev5 = clr_flag t GEN_MARKED (event_finish (ET_EXPIRE t) t ev4)
           in if \<not> has_flag ev5 t GEN_READD then destroy_event t ev5
              else res_bind (timer_enqueue t ev5) (\<lambda>ev6. Inr (clr_flag t GEN_READD ev6)))"
proof -
  define ev1 where "ev1 = set_flag t GEN_MARKED (gen_dequeue t ev)"
  define ev2 where "ev2 = (if t_type (timer_at ev1 t) = TT_PERIODIC then set_flag t GEN_READD ev1 else ev1)"
  have inv: "ev_inv ev" and per: "periodic_ok ev" and readd: "readd_ok ev" using assms(1) by (simp_all add: timers_ok_def)
  have act: "has_flag ev t GEN_ACTIVE" and unmarked: "\<not> has_flag ev t GEN_MARKED" using inv assms(2) by (auto simp: ev_inv_def)
  have off: "t \<notin> set (g_timer (gen_dequeue t ev))" using inv by (simp add: ev_inv_def)
  have fl: "has_flag ev2 u g \<longleftrightarrow> has_flag ev u g \<or> u = t \<and> (g = GEN_MARKED \<or> g = GEN_READD \<and> t_type (timer_at ev t) = TT_PERIODIC)" for u g
    by (auto simp: ev2_def ev1_def)
  have f2: "g_timer ev2 = remove1 t (g_timer ev)" "CurrentTime ev2 = CurrentTime ev" "delivered ev2 = delivered ev"
    "t_type (timer_at ev2 u) = t_type (timer_at ev u)" "t_value (timer_at ev2 u) = t_value (timer_at ev u)" "expire ev2 u = expire ev u" for u
    by (simp_all add: ev2_def ev1_def)
  obtain ev3 where b: "event_begin (ET_EXPIRE t) t ev2 = Inr ev3"
    using act fl by (auto simp: event_begin_def Let_def)
  note r = event_begin_result [OF b]
  have "ev_inv ev3"
    by (rule ev_inv_cong [OF ev_inv_dequeue [OF inv, of t]]) (use r f2 fl off in auto)
  moreover have "periodic_ok ev3" using per r(5,6) f2 by (simp add: periodic_ok_def)
  moreover have "readd_ok ev3" using readd r(7) fl unmarked by (auto simp: readd_ok_def)
  moreover have "future ev3 t" if "has_flag ev3 t GEN_READD"
  proof -
    have "t_type (timer_at ev t) = TT_PERIODIC" using that r(7) fl readd unmarked by (auto simp: readd_ok_def)
    then show ?thesis using per r(5,6) f2 by (simp add: future_def periodic_ok_def)
  qed
  ultimately have c: "calling t ev ev3" using r f2 fl act by (simp add: calling_def)
  have "fire cb t ev = res_bind (event_begin (ET_EXPIRE t) t ev2) (\<lambda>ev3. res_bind (run_calls (cb ev3 t) ev3) (\<lambda>ev4.
           let ev5 = clr_flag t GEN_MARKED (event_finish (ET_EXPIRE t) t ev4)
           in if \<not> has_flag ev5 t GEN_READD then destroy_event t ev5
              else res_bind (timer_enqueue t ev5) (\<lambda>ev6. Inr (clr_flag t GEN_READD ev6))))"
    unfolding fire_def Let_def ev2_def ev1_def ..
  then show ?thesis using b c by auto
qed

text \<open>The end of a round, after the calls of the callback.\<close>

lemma fire_end:
  assumes c: "calling t ev ev3" and r: "run_calls (cb ev3 t) ev3 = Inr ev4" and p: "polite cb"
  shows "\<exists>ev'. (let ev5 = clr_flag t GEN_MARKED (event_finish (ET_EXPIRE t) t ev4)
           in if \<not> has_flag ev5 t GEN_READD then destroy_event t ev5
              else res_bind (timer_enqueue t ev5) (\<lambda>ev6. Inr (clr_flag t GEN_READD ev6))) = Inr ev'
     \<and> timers_ok ev' \<and> CurrentTime ev' = CurrentTime ev
     \<and> (\<exists>n. delivered ev' = delivered ev @ n \<and> expired n = [t])
     \<and> (\<forall>u \<in> overdue ev'. u \<noteq> t \<and> u \<in> overdue ev \<and> expire ev' u = expire ev u)
     \<and> (\<forall>u. u \<noteq> t \<longrightarrow> u \<in> overdue ev4 \<longrightarrow> u \<in> overdue ev')"
proof -
  have pl: "list_all (polite_call (CurrentTime ev3)) (cb ev3 t)" using p by (simp add: polite_def)
  have b: "benign ev3 ev4" by (rule run_calls_benign [OF r _ pl]) (use c in \<open>simp add: calling_def\<close>)
  define ev5 where "ev5 = clr_flag t GEN_MARKED (event_finish (ET_EXPIRE t) t ev4)"
  have inv4: "ev_inv ev4" and per4: "periodic_ok ev4" and now4: "CurrentTime ev4 = CurrentTime ev"
    and m4: "has_flag ev4 t GEN_MARKED" and a4: "has_flag ev4 t GEN_ACTIVE"
    and fut4: "has_flag ev4 t GEN_READD \<Longrightarrow> future ev4 t"
    using b c by (auto simp: benign_def calling_def)
  have rd4: "readd_ok ev4" using run_calls_readd [OF r] c by (simp add: calling_def)
  obtain ds where ds: "delivered ev4 = delivered ev3 @ ds" "expired ds = []" using b by (auto simp: benign_def)
  have off: "t \<notin> set (g_timer ev4)" using inv4 m4 by (auto simp: ev_inv_def)
  have due4: "u \<noteq> t \<and> u \<in> overdue ev \<and> expire ev4 u = expire ev u" if "u \<in> overdue ev4" for u
  proof -
    have "u \<in> overdue ev3" "expire ev4 u = expire ev3 u" using b that by (auto simp: benign_def)
    moreover have "u \<noteq> t" using that off by (auto simp: overdue_def)
    ultimately show ?thesis using c by (auto simp: overdue_def calling_def)
  qed
  have s5: "g_timer ev5 = g_timer ev4" "CurrentTime ev5 = CurrentTime ev" "delivered ev5 = delivered ev4"
    "expire ev5 u = expire ev4 u" "future ev5 u = future ev4 u" "overdue ev5 = overdue ev4" for u
    by (simp_all add: ev5_def now4 future_def overdue_def)
  have f5: "has_flag ev5 u g \<longleftrightarrow> has_flag ev4 u g \<and> \<not> (u = t \<and> g = GEN_MARKED)" for u g by (simp add: ev5_def)
  have inv5: "ev_inv ev5" by (rule ev_inv_cong [OF inv4]) (use s5 f5 off in auto)
  have per5: "periodic_ok ev5" using per4 by (simp add: ev5_def periodic_ok_def)
  have dl: "delivered ev5 = delivered ev @ (ET_EXPIRE t, CurrentTime ev) # ds" using ds c s5 by (simp add: calling_def)
  show ?thesis
  proof (cases "has_flag ev5 t GEN_READD")
    case False
    obtain ev' where d: "destroy_event t ev5 = Inr ev'"
      using a4 f5 by (auto simp: destroy_event_def event_begin_def Let_def)
    note q = destroy_result [OF d]
    have "ev_inv ev'" by (rule ev_inv_cong [OF inv5]) (use q s5(1) off in auto)
    moreover have "periodic_ok ev'" using per5 q by (simp add: periodic_ok_def)
    moreover have "readd_ok ev'" using rd4 f5 q False by (auto simp: readd_ok_def)
    moreover have "overdue ev' = overdue ev4" using q s5 by (simp add: overdue_def now4)
    ultimately show ?thesis
      using d False q dl ds s5 due4 unfolding ev5_def [symmetric] Let_def
      by (intro exI [of _ ev']) (auto simp: timers_ok_def)
  next
    case True
    have f: "future ev5 t" using True f5 fut4 s5 by simp
    obtain ev6 where e: "timer_enqueue t ev5 = Inr ev6"
      using off s5(1) a4 f5 by (auto simp: timer_enqueue_def Let_def)
    note q = timer_enqueue_result [OF e]
    let ?ev' = "clr_flag t GEN_READD ev6"
    have b6: "benign ev5 ev6" by (rule benign_enqueue [OF e inv5 _ f]) (simp add: f5)
    have "ev_inv ?ev'" by (rule ev_inv_cong [of ev6]) (use b6 inv5 in \<open>auto simp: benign_def\<close>)
    moreover have "periodic_ok ?ev'" using b6 per5 by (simp add: benign_def periodic_ok_def)
    moreover have "readd_ok ?ev'" using rd4 f5 q(6) by (auto simp: readd_ok_def)
    ultimately have ok: "timers_ok ?ev'" by (simp add: timers_ok_def)
    have o: "overdue ?ev' = overdue ev6" by (simp add: overdue_def)
    have "u \<in> overdue ev6" if "u \<noteq> t" "u \<in> overdue ev4" for u
      using that q(3,4) q(7) [OF that(1)] s5 by (auto simp: overdue_def now4)
    then have keep: "\<forall>u. u \<noteq> t \<longrightarrow> u \<in> overdue ev4 \<longrightarrow> u \<in> overdue ?ev'" unfolding o by blast
    have "u \<noteq> t \<and> u \<in> overdue ev \<and> expire ?ev' u = expire ev u" if "u \<in> overdue ?ev'" for u
    proof -
      have "u \<in> overdue ev5" "expire ev6 u = expire ev5 u" using enqueue_overdue [OF e f] that o by auto
      then show ?thesis using due4 s5 by auto
    qed
    then have due: "\<forall>u \<in> overdue ?ev'. u \<noteq> t \<and> u \<in> overdue ev \<and> expire ?ev' u = expire ev u" by blast
    have now: "CurrentTime ?ev' = CurrentTime ev" using q(4) s5 by simp
    have "delivered ?ev' = delivered ev @ (ET_EXPIRE t, CurrentTime ev) # ds" using q(5) dl by simp
    then have del: "\<exists>n. delivered ?ev' = delivered ev @ n \<and> expired n = [t]" using ds(2) by auto
    have "(let ev5 = ev5 in if \<not> has_flag ev5 t GEN_READD then destroy_event t ev5
        else res_bind (timer_enqueue t ev5) (\<lambda>ev6. Inr (clr_flag t GEN_READD ev6))) = Inr ?ev'"
      using True e by simp
    then show ?thesis unfolding ev5_def using ok now del due keep by blast
  qed
qed

text \<open>A timer that no callback but its own deletes or changes.\<close>

fun touches :: "timer \<Rightarrow> tcall \<Rightarrow> bool" where
  "touches t (Add u ty v) = False"
| "touches t (Del u) = (u = t)"
| "touches t (Chg u ty v) = (u = t)"

definition untouched :: "(evInfo \<Rightarrow> timer \<Rightarrow> tcall list) \<Rightarrow> timer \<Rightarrow> bool" where
  "untouched cb t \<longleftrightarrow> (\<forall>ev u. u \<noteq> t \<longrightarrow> list_all (\<lambda>c. \<not> touches t c) (cb ev u))"

lemma run_call_untouched:
  assumes "run_call c ev = Inr ev'" "ev_inv ev" "\<not> touches t c" "t \<in> overdue ev"
    and "polite_call (CurrentTime ev) c"
  shows "t \<in> overdue ev'"
proof (cases c)
  case (Add u ty v)
  have u: "u \<noteq> t" using timer_add_benign(2) [of u ty v ev ev'] assms Add by (auto simp: overdue_def)
  then show ?thesis using assms(1,4) Add timer_enqueue_result(3,4,7)
    by (auto simp: timer_add_def Let_def overdue_def set_flag_def split: if_splits)
next
  case (Del u)
  then have "u \<noteq> t" using assms(3) by simp
  then show ?thesis using assms(1,4) Del
    by (auto simp: timer_del_def Let_def overdue_def destroy_result split: if_splits)
next
  case (Chg u ty v)
  then have "u \<noteq> t" using assms(3) by simp
  then show ?thesis using assms(1,4) Chg timer_enqueue_result(3,4,7)
    by (auto simp: timer_chg_def Let_def overdue_def set_flag_def split: if_splits)
qed

lemma run_calls_untouched:
  "run_calls cs ev = Inr ev' \<Longrightarrow> ev_inv ev \<Longrightarrow> list_all (\<lambda>c. \<not> touches t c) cs \<Longrightarrow> t \<in> overdue ev \<Longrightarrow>
     list_all (polite_call (CurrentTime ev)) cs \<Longrightarrow> t \<in> overdue ev'"
proof (induction cs arbitrary: ev)
  case (Cons c cs)
  obtain ev1 where c: "run_call c ev = Inr ev1" "run_calls cs ev1 = Inr ev'"
    using Cons.prems(1) by (auto simp: res_bind_Inr_iff)
  have b: "benign ev ev1" by (rule run_call_benign [OF c(1) Cons.prems(2)]) (use Cons.prems(5) in simp)
  then have "ev_inv ev1" "CurrentTime ev1 = CurrentTime ev" using Cons.prems(2) by (simp_all add: benign_def)
  then show ?case using Cons.IH [OF c(2)] run_call_untouched [OF c(1)] Cons.prems by simp
qed simp

lemma fire_result:
  assumes "timers_ok ev" "t \<in> set (g_timer ev)" "polite cb"
  shows "case fire cb t ev of
      Inl e \<Rightarrow> (\<exists>ev3. run_calls (cb ev3 t) ev3 = Inl e)
    | Inr ev' \<Rightarrow> timers_ok ev' \<and> CurrentTime ev' = CurrentTime ev
        \<and> (\<exists>n. delivered ev' = delivered ev @ n \<and> expired n = [t])
        \<and> (\<forall>u \<in> overdue ev'. u \<noteq> t \<and> u \<in> overdue ev \<and> expire ev' u = expire ev u)
        \<and> (\<forall>u \<in> overdue ev. u \<noteq> t \<longrightarrow> untouched cb u \<longrightarrow> u \<in> overdue ev')"
proof -
  obtain ev3 where c: "calling t ev ev3" and f: "fire cb t ev = res_bind (run_calls (cb ev3 t) ev3) (\<lambda>ev4.
           let ev5 = clr_flag t GEN_MARKED (event_finish (ET_EXPIRE t) t ev4)
           in if \<not> has_flag ev5 t GEN_READD then destroy_event t ev5
              else res_bind (timer_enqueue t ev5) (\<lambda>ev6. Inr (clr_flag t GEN_READD ev6)))"
    using fire_calling [OF assms(1,2)] by blast
  show ?thesis
  proof (cases "run_calls (cb ev3 t) ev3")
    case (Inl e)
    then have "fire cb t ev = Inl e" using f by simp
    then show ?thesis using Inl by auto
  next
    case (Inr ev4)
    from fire_end [OF c this assms(3)] obtain ev' where e: "fire cb t ev = Inr ev'"
      and r: "timers_ok ev' \<and> CurrentTime ev' = CurrentTime ev
     \<and> (\<exists>n. delivered ev' = delivered ev @ n \<and> expired n = [t])
     \<and> (\<forall>u \<in> overdue ev'. u \<noteq> t \<and> u \<in> overdue ev \<and> expire ev' u = expire ev u)"
      and keep: "\<forall>u. u \<noteq> t \<longrightarrow> u \<in> overdue ev4 \<longrightarrow> u \<in> overdue ev'"
      using f Inr by auto
    have "u \<in> overdue ev'" if u: "u \<in> overdue ev" "u \<noteq> t" "untouched cb u" for u
    proof -
      have "u \<in> overdue ev3" using u c by (auto simp: overdue_def calling_def)
      moreover have "ev_inv ev3" using c by (simp add: calling_def)
      moreover have "list_all (\<lambda>c. \<not> touches u c) (cb ev3 t)" using u(2,3) by (auto simp: untouched_def)
      moreover have "list_all (polite_call (CurrentTime ev3)) (cb ev3 t)" using assms(3) by (simp add: polite_def)
      ultimately show ?thesis using run_calls_untouched [OF Inr] keep u(2) by blast
    qed
    then show ?thesis using e r by simp
  qed
qed

lemma finite_overdue: "finite (overdue ev)"
  by (simp add: overdue_def)

text \<open>The head of the queue is due if anything is, and it is the first to expire.\<close>

lemma overdue_head:
  assumes "ev_inv ev" "g_timer ev = t # ts"
  shows "\<And>u. u \<in> overdue ev \<Longrightarrow> expire ev t \<le> expire ev u" "overdue ev \<noteq> {} \<longleftrightarrow> expire ev t \<le> CurrentTime ev"
  using assms by (auto simp: ev_inv_def overdue_def)

lemma timer_run_result:
  "timers_ok ev \<Longrightarrow> polite cb \<Longrightarrow> \<exists>r. timer_run cb ev = Some r \<and> (case r of
      Inl e \<Rightarrow> \<exists>ev3 t. run_calls (cb ev3 t) ev3 = Inl e
    | Inr ev' \<Rightarrow> timers_ok ev' \<and> CurrentTime ev' = CurrentTime ev \<and> overdue ev' = {}
        \<and> (\<exists>n. delivered ev' = delivered ev @ n \<and> distinct (expired n) \<and> set (expired n) \<subseteq> overdue ev
             \<and> sorted (map (expire ev) (expired n))
             \<and> (\<forall>u \<in> overdue ev. untouched cb u \<longrightarrow> u \<in> set (expired n))))"
proof (induction "card (overdue ev)" arbitrary: ev rule: less_induct)
  case less
  have inv: "ev_inv ev" using less.prems(1) by (simp add: timers_ok_def)
  show ?case
  proof (cases "overdue ev = {}")
    case True
    then have "timer_run cb ev = Some (Inr ev)"
      using overdue_head(2) [OF inv] by (subst timer_run.simps) (auto split: list.splits)
    then show ?thesis using True less.prems by auto
  next
    case False
    then obtain t ts where q: "g_timer ev = t # ts" by (cases "g_timer ev") (auto simp: overdue_def)
    have due: "expire ev t \<le> CurrentTime ev" using overdue_head(2) [OF inv q] False by simp
    then have t: "t \<in> set (g_timer ev)" "t \<in> overdue ev" using q by (auto simp: overdue_def)
    note f = fire_result [OF less.prems(1) t(1) less.prems(2)]
    show ?thesis
    proof (cases "fire cb t ev")
      case (Inl e)
      then have "timer_run cb ev = Some (Inl e)" using q due by (subst timer_run.simps) simp
      then show ?thesis using f Inl by auto
    next
      case (Inr ev1)
      then have run: "timer_run cb ev = timer_run cb ev1" using q due by (subst timer_run.simps) simp
      have f1: "timers_ok ev1 \<and> CurrentTime ev1 = CurrentTime ev
        \<and> (\<exists>n. delivered ev1 = delivered ev @ n \<and> expired n = [t])
        \<and> (\<forall>u \<in> overdue ev1. u \<noteq> t \<and> u \<in> overdue ev \<and> expire ev1 u = expire ev u)
        \<and> (\<forall>u \<in> overdue ev. u \<noteq> t \<longrightarrow> untouched cb u \<longrightarrow> u \<in> overdue ev1)" using f Inr by simp
      then obtain n1 where n1: "delivered ev1 = delivered ev @ n1" "expired n1 = [t]" by blast
      have ok1: "timers_ok ev1" "CurrentTime ev1 = CurrentTime ev" using f1 by blast+
      have due1: "\<And>u. u \<in> overdue ev1 \<Longrightarrow> u \<noteq> t \<and> u \<in> overdue ev \<and> expire ev1 u = expire ev u" using f1 by blast
      have keep: "\<And>u. u \<in> overdue ev \<Longrightarrow> u \<noteq> t \<Longrightarrow> untouched cb u \<Longrightarrow> u \<in> overdue ev1" using f1 by blast
      have "overdue ev1 \<subset> overdue ev" using due1 t(2) by blast
      then have "card (overdue ev1) < card (overdue ev)" by (rule psubset_card_mono [OF finite_overdue])
      from less.hyps [OF this ok1(1) less.prems(2)]
      obtain r where r: "timer_run cb ev1 = Some r" and rr: "case r of
          Inl e \<Rightarrow> \<exists>ev3 t. run_calls (cb ev3 t) ev3 = Inl e
        | Inr ev' \<Rightarrow> timers_ok ev' \<and> CurrentTime ev' = CurrentTime ev1 \<and> overdue ev' = {}
            \<and> (\<exists>n. delivered ev' = delivered ev1 @ n \<and> distinct (expired n) \<and> set (expired n) \<subseteq> overdue ev1
                 \<and> sorted (map (expire ev1) (expired n))
                 \<and> (\<forall>u \<in> overdue ev1. untouched cb u \<longrightarrow> u \<in> set (expired n)))" by blast
      show ?thesis
      proof (cases r)
        case (Inl e)
        then show ?thesis using run r rr by simp
      next
        case ev': (Inr ev')
        obtain n where n: "delivered ev' = delivered ev1 @ n" "distinct (expired n)" "set (expired n) \<subseteq> overdue ev1"
          "sorted (map (expire ev1) (expired n))" "\<forall>u \<in> overdue ev1. untouched cb u \<longrightarrow> u \<in> set (expired n)"
          and end': "timers_ok ev'" "CurrentTime ev' = CurrentTime ev1" "overdue ev' = {}"
          using rr ev' by auto
        have "\<forall>u \<in> set (expired n). u \<noteq> t \<and> u \<in> overdue ev \<and> expire ev1 u = expire ev u" using n(3) due1 by blast
        then have eq: "map (expire ev1) (expired n) = map (expire ev) (expired n)"
          and sub: "\<forall>u \<in> set (expired n). u \<noteq> t \<and> u \<in> overdue ev" by simp_all
        have "sorted (map (expire ev) (expired n))" using n(4) unfolding eq .
        then have "sorted (map (expire ev) (t # expired n))"
          using sub overdue_head(1) [OF inv q] by simp
        moreover have "set (t # expired n) \<subseteq> overdue ev" "distinct (t # expired n)" using n(2) sub t(2) by auto
        moreover have "\<forall>u \<in> overdue ev. untouched cb u \<longrightarrow> u \<in> set (t # expired n)" using keep n(5) by (metis list.set_intros)
        moreover have "delivered ev' = delivered ev @ (n1 @ n)" "expired (n1 @ n) = t # expired n" using n(1) n1 by simp_all
        ultimately have "\<exists>n. delivered ev' = delivered ev @ n \<and> distinct (expired n) \<and> set (expired n) \<subseteq> overdue ev
             \<and> sorted (map (expire ev) (expired n)) \<and> (\<forall>u \<in> overdue ev. untouched cb u \<longrightarrow> u \<in> set (expired n))"
          by (intro exI [of _ "n1 @ n"]) simp
        then show ?thesis using run r ev' end' ok1(2) by simp
      qed
    qed
  qed
qed

section \<open>Theorems\<close>

definition start_state :: "int \<Rightarrow> evInfo" where
  "start_state now = \<lparr>g_timer = [], timer_at = (\<lambda>_. \<lparr>gh_flags = [], gh_ref = 0, t_type = TT_ABSOLUTE, t_value = 0, t_expire = 0\<rparr>),
     events_free = 0, events_alloc = 0, CurrentTime = now, delivered = []\<rparr>"

lemma start_state_ok: "timers_ok (start_state now)"
  by (simp add: timers_ok_def ev_inv_def periodic_ok_def readd_ok_def start_state_def has_flag_def)

definition one_timer :: evInfo where
  "one_timer = (start_state 100)\<lparr>g_timer := [7], timer_at := (timer_at (start_state 100))
     (7 := \<lparr>gh_flags = [GEN_ACTIVE], gh_ref = 0, t_type = TT_PERIODIC, t_value = 60, t_expire = 90\<rparr>)\<rparr>"

lemma one_timer_ok: "timers_ok one_timer" "overdue one_timer = {7}"
  by (auto simp: timers_ok_def ev_inv_def periodic_ok_def readd_ok_def overdue_def one_timer_def start_state_def has_flag_def)

lemma quiet_polite: "polite (\<lambda>_ _. [])" "untouched (\<lambda>_ _. []) t"
  by (simp_all add: polite_def untouched_def)

text \<open>
  C31: every due timer fires: for callbacks that only set timers for the future,
  \<open>timer_run\<close> returns, leaves no due timer and has called back, in order of expiry and once each, only timers
  that were due, and all of them except those another callback deleted or changed; it stops early
  only when a call made by a callback fails an assertion.
\<close>

theorem timer_run_fires:
  assumes "timers_ok ev" "polite cb"
  shows "\<exists>r. timer_run cb ev = Some r \<and> (case r of
      Inl e \<Rightarrow> \<exists>ev3 t. run_calls (cb ev3 t) ev3 = Inl e
    | Inr ev' \<Rightarrow> timers_ok ev' \<and> CurrentTime ev' = CurrentTime ev \<and> overdue ev' = {}
        \<and> (\<exists>n. delivered ev' = delivered ev @ n \<and> distinct (expired n) \<and> set (expired n) \<subseteq> overdue ev
             \<and> sorted (map (expire ev) (expired n))
             \<and> (\<forall>u \<in> overdue ev. untouched cb u \<longrightarrow> u \<in> set (expired n))))"
  by (rule timer_run_result [OF assms])

theorem timer_run_fires_witness:
  "\<exists>ev' n. timer_run (\<lambda>_ _. []) one_timer = Some (Inr ev') \<and> overdue ev' = {}
     \<and> delivered ev' = delivered one_timer @ n \<and> expired n = [7]"
proof -
  obtain r where rc: "timer_run (\<lambda>_ _. []) one_timer = Some r \<and> (case r of
      Inl e \<Rightarrow> \<exists>ev3 (t::timer). run_calls [] ev3 = Inl e
    | Inr ev' \<Rightarrow> timers_ok ev' \<and> CurrentTime ev' = CurrentTime one_timer \<and> overdue ev' = {}
        \<and> (\<exists>n. delivered ev' = delivered one_timer @ n \<and> distinct (expired n) \<and> set (expired n) \<subseteq> overdue one_timer
             \<and> sorted (map (expire one_timer) (expired n))
             \<and> (\<forall>u \<in> overdue one_timer. untouched (\<lambda>_ _. []) u \<longrightarrow> u \<in> set (expired n))))"
    using timer_run_fires [OF one_timer_ok(1) quiet_polite(1)] ..
  note r = rc [THEN conjunct1] and c = rc [THEN conjunct2]
  have "\<nexists>e. r = Inl e"
  proof (rule notI, elim exE)
    fix e assume "r = Inl e"
    then show False using c by simp
  qed
  then obtain ev' where ev': "r = Inr ev'" by (metis sum.exhaust)
  then have "\<exists>n. delivered ev' = delivered one_timer @ n \<and> distinct (expired n) \<and> set (expired n) \<subseteq> overdue one_timer
      \<and> sorted (map (expire one_timer) (expired n))
      \<and> (\<forall>u \<in> overdue one_timer. untouched (\<lambda>_ _. []) u \<longrightarrow> u \<in> set (expired n))"
    and o: "overdue ev' = {}" using c by simp_all
  then obtain n where n: "delivered ev' = delivered one_timer @ n" "distinct (expired n)" "set (expired n) = {7}"
    using quiet_polite(2) unfolding one_timer_ok(2) by blast
  have "length (expired n) = 1" using distinct_card [OF n(2)] n(3) by simp
  then have "expired n = [7]" using n(3) by (cases "expired n") auto
  then show ?thesis using r ev' n(1) o by blast
qed

text \<open>Whatever is asked of timers, the queue stays in order and marks stay.\<close>

lemma timer_add_queue:
  assumes "timer_add t ty v ev = Inr ev'" "ev_inv ev"
  shows "ev_inv ev'" "has_flag ev' u GEN_MARKED = has_flag ev u GEN_MARKED"
proof -
  define ev2 where "ev2 = (if has_flag (set_flag t GEN_ACTIVE ev) t GEN_MARKED
    then set_flag t GEN_READD (set_flag t GEN_ACTIVE ev) else set_flag t GEN_ACTIVE ev)"
  define ev3 where "ev3 = upd t (\<lambda>m. m\<lparr>gh_ref := 0, t_type := ty, t_value := v, t_expire := 0\<rparr>) ev2"
  have fl: "has_flag ev3 u g = has_flag ev2 u g" for u g unfolding ev3_def by (rule has_flag_upd) simp
  have m: "has_flag ev3 u GEN_MARKED = has_flag ev u GEN_MARKED" for u by (simp add: fl ev2_def)
  have c: "(if has_flag ev3 t GEN_MARKED then Inr ev3 else timer_enqueue t ev3) = Inr ev'"
    using assms(1) unfolding timer_add_def Let_def ev3_def ev2_def .
  have q: "g_timer ev3 = g_timer ev" by (simp add: ev3_def ev2_def)
  have off: "t \<notin> set (g_timer ev)"
    using c assms(2) m [of t] q timer_enqueue_result(1) [of t ev3 ev'] by (auto simp: ev_inv_def split: if_splits)
  have e3: "expire ev3 u = expire ev u" if "u \<noteq> t" for u using that by (simp add: ev3_def ev2_def)
  have f3: "has_flag ev3 u GEN_ACTIVE = has_flag ev u GEN_ACTIVE" if "u \<noteq> t" for u using that by (simp add: fl ev2_def)
  have i3: "ev_inv ev3"
    by (rule ev_inv_cong [OF assms(2) q]) (use off e3 f3 m in metis)
  show "ev_inv ev'" using c i3 timer_enqueue_inv [of t ev3 ev'] by (auto split: if_splits)
  show "has_flag ev' u GEN_MARKED = has_flag ev u GEN_MARKED"
    using c m timer_enqueue_result(6) [of t ev3 ev' u GEN_MARKED] by (auto split: if_splits)
qed

lemma timer_del_queue:
  assumes "timer_del t ev = Inr ev'" "ev_inv ev"
  shows "ev_inv ev'" "has_flag ev' u GEN_MARKED = has_flag ev u GEN_MARKED"
  using timer_del_benign [OF assms] assms(2) by (simp_all add: benign_def)

lemma timer_chg_queue:
  assumes "timer_chg t ty v ev = Inr ev'" "ev_inv ev"
  shows "ev_inv ev'" "has_flag ev' u GEN_MARKED = has_flag ev u GEN_MARKED"
proof -
  let ?set = "upd t (\<lambda>m. m\<lparr>t_type := ty, t_value := v, t_expire := 0\<rparr>)"
  have fl: "has_flag (?set e) u g = has_flag e u g" for e u g by (rule has_flag_upd) simp
  have c: "if has_flag ev t GEN_MARKED then ev' = set_flag t GEN_READD (?set ev)
      else timer_enqueue t (?set (gen_dequeue t ev)) = Inr ev'"
    using assms(1) by (auto simp: timer_chg_def Let_def fl dequeue_upd split: if_splits)
  have "ev_inv ev' \<and> has_flag ev' u GEN_MARKED = has_flag ev u GEN_MARKED"
  proof (cases "has_flag ev t GEN_MARKED")
    case True
    then have off: "t \<notin> set (g_timer ev)" using assms(2) by (auto simp: ev_inv_def)
    have "ev_inv ev'" by (rule ev_inv_cong [OF assms(2)]) (use c True off fl in auto)
    then show ?thesis using c True fl by simp
  next
    case False
    have off: "t \<notin> set (g_timer (gen_dequeue t ev))" using assms(2) by (simp add: ev_inv_def)
    have "ev_inv (?set (gen_dequeue t ev))"
      by (rule ev_inv_cong [OF ev_inv_dequeue [OF assms(2), of t]]) (use off fl in auto)
    then show ?thesis using c False fl timer_enqueue_inv [of t "?set (gen_dequeue t ev)" ev']
        timer_enqueue_result(6) [of t "?set (gen_dequeue t ev)" ev' u GEN_MARKED] by simp
  qed
  then show "ev_inv ev'" "has_flag ev' u GEN_MARKED = has_flag ev u GEN_MARKED" by simp_all
qed

lemma run_call_queue:
  assumes "run_call c ev = Inr ev'" "ev_inv ev"
  shows "ev_inv ev' \<and> (\<forall>u. has_flag ev' u GEN_MARKED = has_flag ev u GEN_MARKED)"
  using assms timer_add_queue timer_del_queue timer_chg_queue by (cases c) auto

lemma run_calls_queue:
  "run_calls cs ev = Inr ev' \<Longrightarrow> ev_inv ev \<Longrightarrow> ev_inv ev' \<and> (\<forall>u. has_flag ev' u GEN_MARKED = has_flag ev u GEN_MARKED)"
proof (induction cs arbitrary: ev)
  case (Cons c cs)
  obtain ev1 where c: "run_call c ev = Inr ev1" "run_calls cs ev1 = Inr ev'"
    using Cons.prems(1) by (auto simp: res_bind_Inr_iff)
  then show ?case using run_call_queue [OF c(1) Cons.prems(2)] Cons.IH [OF c(2)] by simp
qed simp

lemma fire_queue:
  assumes "fire cb t ev = Inr ev'" "ev_inv ev"
  shows "ev_inv ev'"
proof -
  define ev1 where "ev1 = set_flag t GEN_MARKED (gen_dequeue t ev)"
  define ev2 where "ev2 = (if t_type (timer_at ev1 t) = TT_PERIODIC then set_flag t GEN_READD ev1 else ev1)"
  obtain ev3 ev4 where b: "event_begin (ET_EXPIRE t) t ev2 = Inr ev3" and r: "run_calls (cb ev3 t) ev3 = Inr ev4"
    and f: "(let ev5 = clr_flag t GEN_MARKED (event_finish (ET_EXPIRE t) t ev4)
      in if \<not> has_flag ev5 t GEN_READD then destroy_event t ev5
         else res_bind (timer_enqueue t ev5) (\<lambda>ev6. Inr (clr_flag t GEN_READD ev6))) = Inr ev'"
    using assms(1) unfolding fire_def Let_def ev1_def [symmetric] ev2_def [symmetric] by (auto simp: res_bind_Inr_iff)
  have off: "t \<notin> set (g_timer (gen_dequeue t ev))" using assms(2) by (simp add: ev_inv_def)
  have i3: "ev_inv ev3"
    by (rule ev_inv_cong [OF ev_inv_dequeue [OF assms(2), of t]]) (use event_begin_result [OF b] off in \<open>auto simp: ev2_def ev1_def\<close>)
  have "has_flag ev3 t GEN_MARKED" using event_begin_result(7) [OF b] by (auto simp: ev2_def ev1_def)
  then have i4: "ev_inv ev4" "has_flag ev4 t GEN_MARKED" using run_calls_queue [OF r i3] by auto
  define ev5 where "ev5 = clr_flag t GEN_MARKED (event_finish (ET_EXPIRE t) t ev4)"
  have off4: "t \<notin> set (g_timer ev4)" using i4 by (auto simp: ev_inv_def)
  have i5: "ev_inv ev5" by (rule ev_inv_cong [OF i4(1)]) (use off4 in \<open>auto simp: ev5_def\<close>)
  show ?thesis
  proof (cases "has_flag ev5 t GEN_READD")
    case False
    then have "destroy_event t ev5 = Inr ev'" using f by (simp add: Let_def ev5_def [symmetric])
    note q = destroy_result [OF this]
    show ?thesis by (rule ev_inv_cong [OF i5]) (use q off4 in \<open>auto simp: ev5_def\<close>)
  next
    case True
    then obtain ev6 where e: "timer_enqueue t ev5 = Inr ev6" "ev' = clr_flag t GEN_READD ev6"
      using f by (auto simp: Let_def ev5_def [symmetric] res_bind_Inr_iff)
    have "ev_inv ev6" by (rule timer_enqueue_inv [OF e(1) i5]) (simp add: ev5_def)
    then show ?thesis by (rule ev_inv_cong) (simp_all add: e(2))
  qed
qed

lemma timer_run_queue:
  assumes "timer_run cb ev = Some r"
  shows "ev_inv ev \<longrightarrow> (\<forall>ev'. r = Inr ev' \<longrightarrow> ev_inv ev')"
proof (rule timer_run.raw_induct [where P = "\<lambda>cb ev r. ev_inv ev \<longrightarrow> (\<forall>ev'. r = Inr ev' \<longrightarrow> ev_inv ev')", OF _ assms], goal_cases)
  case (1 run cb ev r)
  then show ?case by (auto split: list.splits if_splits sum.splits dest: fire_queue)
qed

text \<open>The event loop: requests on timers, the passing of time, and running the due timers.\<close>

inductive ev_step :: "(evInfo \<Rightarrow> timer \<Rightarrow> tcall list) \<Rightarrow> evInfo \<Rightarrow> evInfo \<Rightarrow> bool" for cb where
  call: "run_call c ev = Inr ev' \<Longrightarrow> ev_step cb ev ev'"
| tick: "ev_step cb ev (ev\<lparr>CurrentTime := w\<rparr>)"
| run: "timer_run cb ev = Some (Inr ev') \<Longrightarrow> ev_step cb ev ev'"

lemma ev_step_ok:
  assumes "ev_step cb ev ev'" "ev_inv ev"
  shows "ev_inv ev'"
  using assms
proof cases
  case (call c)
  then show ?thesis using run_call_queue assms(2) by blast
next
  case (tick w)
  then show ?thesis using assms(2) by (simp add: ev_inv_def has_flag_def)
next
  case run
  then show ?thesis using timer_run_queue assms(2) by blast
qed

lemma ev_reach_ok: "(ev_step cb)\<^sup>*\<^sup>* (start_state now) ev \<Longrightarrow> ev_inv ev"
proof (induction rule: rtranclp_induct)
  case base
  show ?case using start_state_ok by (simp add: timers_ok_def)
qed (rule ev_step_ok)

text \<open>
  C32: in every state reached by adding, changing and deleting timers, for any times and types, by changes
  of the clock and by runs of the due timers with callbacks that do the same, the queue is free of
  duplicates and ordered by expiry, holds only active timers whose callback is not running, and
  \<open>timer_next\<close>, the time the event loop may sleep until, is not after the expiry of any of them.
\<close>

theorem timer_queue_invariant:
  assumes "(ev_step cb)\<^sup>*\<^sup>* (start_state now) ev"
  shows "distinct (g_timer ev) \<and> sorted (map (expire ev) (g_timer ev))
    \<and> (\<forall>t \<in> set (g_timer ev). has_flag ev t GEN_ACTIVE \<and> \<not> has_flag ev t GEN_MARKED \<and> timer_next ev \<le> expire ev t)"
proof -
  have i: "ev_inv ev" by (rule ev_reach_ok [OF assms])
  then have "timer_next ev \<le> expire ev t" if "t \<in> set (g_timer ev)" for t
    using that by (cases "g_timer ev") (auto simp: timer_next_def ev_inv_def)
  then show ?thesis using i by (simp add: ev_inv_def)
qed

theorem timer_queue_invariant_witness:
  "\<exists>ev. (ev_step (\<lambda>_ _. []))\<^sup>*\<^sup>* (start_state 5) ev \<and> g_timer ev = [8, 7] \<and> sorted (map (expire ev) [8, 7]) \<and> timer_next ev \<le> expire ev 7"
proof -
  define ev1 where "ev1 = (case run_call (Add 7 TT_RELATIVE 10) (start_state 5) of Inr ev \<Rightarrow> ev)"
  define ev2 where "ev2 = (case run_call (Add 8 TT_RELATIVE (- 2)) ev1 of Inr ev \<Rightarrow> ev)"
  have s: "run_call (Add 7 TT_RELATIVE 10) (start_state 5) = Inr ev1" "run_call (Add 8 TT_RELATIVE (- 2)) ev1 = Inr ev2" "g_timer ev2 = [8, 7]"
    by (simp_all add: ev1_def ev2_def timer_add_def timer_enqueue_def Let_def has_flag_def set_flag_def upd_def start_state_def)
  have r: "(ev_step (\<lambda>_ _. []))\<^sup>*\<^sup>* (start_state 5) ev2"
    using ev_step.call [OF s(1)] ev_step.call [OF s(2)] by (meson converse_rtranclp_into_rtranclp rtranclp.rtrancl_refl)
  show ?thesis using timer_queue_invariant [OF r] s(3) r by (intro exI [of _ ev2]) auto
qed

definition zero_period :: "timer \<Rightarrow> evInfo \<Rightarrow> bool" where
  "zero_period t ev \<longleftrightarrow> g_timer ev = [t] \<and> has_flag ev t GEN_ACTIVE \<and> t_type (timer_at ev t) = TT_PERIODIC
     \<and> t_value (timer_at ev t) = 0 \<and> expire ev t \<le> CurrentTime ev"

lemma zero_period_fires:
  assumes "zero_period t ev"
  shows "\<exists>ev'. fire (\<lambda>_ _. []) t ev = Inr ev' \<and> zero_period t ev'"
proof -
  define ev2 where "ev2 = set_flag t GEN_READD (set_flag t GEN_MARKED (gen_dequeue t ev))"
  have z: "g_timer ev = [t]" "has_flag ev t GEN_ACTIVE" "t_type (timer_at ev t) = TT_PERIODIC" "t_value (timer_at ev t) = 0"
    using assms by (simp_all add: zero_period_def)
  have e2: "g_timer ev2 = []" "has_flag ev2 t GEN_ACTIVE" "has_flag ev2 t GEN_READD" "CurrentTime ev2 = CurrentTime ev"
    "t_type (timer_at ev2 t) = TT_PERIODIC" "t_value (timer_at ev2 t) = 0" using z by (simp_all add: ev2_def)
  obtain ev3 where b: "event_begin (ET_EXPIRE t) t ev2 = Inr ev3" using e2(2) by (auto simp: event_begin_def Let_def)
  note r = event_begin_result [OF b]
  define ev5 where "ev5 = clr_flag t GEN_MARKED (event_finish (ET_EXPIRE t) t ev3)"
  have e5: "g_timer ev5 = []" "has_flag ev5 t GEN_ACTIVE" "has_flag ev5 t GEN_READD" "CurrentTime ev5 = CurrentTime ev"
    "t_type (timer_at ev5 t) = TT_PERIODIC" "t_value (timer_at ev5 t) = 0" using e2 r by (simp_all add: ev5_def)
  obtain ev6 where q: "timer_enqueue t ev5 = Inr ev6" "g_timer ev6 = [t]" using e5(1,2) by (auto simp: timer_enqueue_def Let_def)
  note qr = timer_enqueue_result [OF q(1)]
  have "zero_period t (clr_flag t GEN_READD ev6)"
    using q(2) qr(4,6,8-10) e5 by (simp add: zero_period_def)
  moreover have "has_flag ev3 t GEN_READD" using e2(3) r by simp
  then have "fire (\<lambda>_ _. []) t ev = Inr (clr_flag t GEN_READD ev6)"
    using z(3) b q(1) e5(3) by (simp add: fire_def Let_def ev2_def [symmetric] ev5_def [symmetric])
  ultimately show ?thesis by blast
qed

lemma zero_period_loops:
  assumes "timer_run cb ev = Some r"
  shows "cb = (\<lambda>_ _. []) \<longrightarrow> \<not> zero_period t ev"
proof (rule timer_run.raw_induct [where P = "\<lambda>cb ev r. cb = (\<lambda>_ _. []) \<longrightarrow> \<not> zero_period t ev", OF _ assms])
  fix f cb ev and r :: "evInfo res"
  assume IH: "\<And>cb ev r. f cb ev = Some r \<Longrightarrow> cb = (\<lambda>_ _. []) \<longrightarrow> \<not> zero_period t ev"
    and eq: "(case g_timer ev of [] \<Rightarrow> Some (Inr ev) | t # ts \<Rightarrow> if CurrentTime ev < expire ev t then Some (Inr ev)
        else case fire cb t ev of Inl e \<Rightarrow> Some (Inl e) | Inr ev' \<Rightarrow> f cb ev') = Some r"
  show "cb = (\<lambda>_ _. []) \<longrightarrow> \<not> zero_period t ev"
  proof (intro impI notI)
    assume cb: "cb = (\<lambda>_ _. [])" and z: "zero_period t ev"
    then obtain ev' where "fire cb t ev = Inr ev'" "zero_period t ev'" using zero_period_fires by blast
    then show False using IH [of cb ev' r] eq z cb by (simp add: zero_period_def)
  qed
qed

text \<open>
  A periodic timer with an interval of zero seconds is queued again for the current second,
  so that \<open>timer_run\<close> never returns.
\<close>

theorem timer_run_zero_period:
  assumes "zero_period t ev"
  shows "timer_run (\<lambda>_ _. []) ev = None"
  using zero_period_loops [of "\<lambda>_ _. []" ev _ t] assms by (cases "timer_run (\<lambda>_ _. []) ev") auto

theorem timer_run_zero_period_witness:
  "timer_run (\<lambda>_ _. []) ((start_state 100)\<lparr>g_timer := [7], timer_at := (\<lambda>_.
     \<lparr>gh_flags = [GEN_ACTIVE], gh_ref = 0, t_type = TT_PERIODIC, t_value = 0, t_expire = 90\<rparr>)\<rparr>) = None"
  by (rule timer_run_zero_period [of 7]) (simp add: zero_period_def start_state_def has_flag_def)

end
