(* ===== verification/Channel_Inv.thy ===== *)
theory Channel_Inv
  imports Channel
begin

text \<open>
  The state of the channels stays consistent (\<open>ircd/channel.c\<close>): the two views of the membership
  matrix agree, the counters count, the name table and the list of channels hold the allocated
  channels, invitations are known on both sides, and no channel is left to zombies.
\<close>

section \<open>The membership matrix\<close>

text \<open>
  The lists of members and of channels are two views of one relation; free blocks are in
  neither. The facts are stated over the two views, the blocks, the free list and the next
  fresh address.
\<close>

definition matrix_inv :: "(channel \<Rightarrow> member list) \<Rightarrow> (client \<Rightarrow> member list) \<Rightarrow> (member \<Rightarrow> Membership) \<Rightarrow> member list \<Rightarrow> nat \<Rightarrow> bool" where
  "matrix_inv mem chs M free nxt \<longleftrightarrow>
     (\<forall>c. distinct (mem c)) \<and> (\<forall>u. distinct (chs u))
   \<and> (\<forall>c. \<forall>m \<in> set (mem c). m_channel (M m) = c \<and> m \<in> set (chs (m_user (M m))) \<and> m < nxt \<and> m \<notin> set free)
   \<and> (\<forall>u. \<forall>m \<in> set (chs u). m_user (M m) = u \<and> m \<in> set (mem (m_channel (M m))))
   \<and> (\<forall>u. inj_on (\<lambda>m. m_channel (M m)) (set (chs u)))
   \<and> distinct free \<and> (\<forall>m \<in> set free. m < nxt)"

lemma matrix_invD:
  assumes "matrix_inv mem chs M free nxt"
  shows "distinct (mem c)" "distinct (chs u)"
    "m \<in> set (mem c) \<Longrightarrow> m_channel (M m) = c \<and> m \<in> set (chs (m_user (M m))) \<and> m < nxt \<and> m \<notin> set free"
    "m \<in> set (chs u) \<Longrightarrow> m_user (M m) = u \<and> m \<in> set (mem (m_channel (M m)))"
    "inj_on (\<lambda>m. m_channel (M m)) (set (chs u))" "distinct free" "m \<in> set free \<Longrightarrow> m < nxt"
  using assms by (simp_all add: matrix_inv_def)

text \<open>A membership is determined by its user and its channel.\<close>

lemma matrix_unique:
  assumes "matrix_inv mem chs M free nxt" "m \<in> set (mem c)" "m' \<in> set (mem c)" "m_user (M m) = m_user (M m')"
  shows "m = m'"
  using matrix_invD(3) [OF assms(1,2)] matrix_invD(3) [OF assms(1,3)] matrix_invD(5) [OF assms(1), of "m_user (M m)"] assms(4)
  by (auto simp: inj_on_def)

lemma matrix_length: "matrix_inv mem chs M free nxt \<Longrightarrow> length (mem c) \<le> nxt"
  using matrix_invD(1,3) [of mem chs M free nxt] distinct_card [of "mem c"] card_mono [of "{..<nxt}" "set (mem c)"]
  by (metis card_lessThan finite_lessThan lessThan_iff subsetI)

lemma matrix_length_user:
  assumes "matrix_inv mem chs M free nxt"
  shows "length (chs u) \<le> nxt"
proof -
  have "set (chs u) \<subseteq> {..<nxt}" using matrix_invD(3,4) [OF assms] by fastforce
  then show ?thesis using matrix_invD(2) [OF assms, of u] distinct_card [of "chs u"] card_mono [of "{..<nxt}" "set (chs u)"] by simp
qed

lemma matrix_add:
  assumes i: "matrix_inv mem chs M free nxt" and u: "\<forall>x \<in> set (chs u). m_channel (M x) \<noteq> c"
    and m: "free = m # free' \<and> nxt' = nxt \<or> m = nxt \<and> nxt' = Suc nxt \<and> free' = free"
  shows "matrix_inv (mem(c := m # mem c)) (chs(u := m # chs u)) (M(m := \<lparr>m_user = u, m_channel = c, m_status = f\<rparr>)) free' nxt'"
proof -
  note d = matrix_invD [OF i]
  have new: "m \<notin> set (mem x)" for x using m d(3) [of m x] by auto
  then have new': "m \<notin> set (chs x)" for x using d(4) [of m x] by blast
  have f: "m \<notin> set free'" "distinct free'" "set free' \<subseteq> set free" using m d(6,7) by auto
  have n: "x < nxt'" if "x < nxt" for x using m that by auto
  have mn: "m < nxt'" using m d(7) by auto
  show ?thesis unfolding matrix_inv_def
  proof (intro conjI allI ballI)
    fix x show "distinct ((mem(c := m # mem c)) x)" using d(1) new by simp
    fix y show "distinct ((chs(u := m # chs u)) y)" using d(2) new' by simp
    show "inj_on (\<lambda>k. m_channel ((M(m := \<lparr>m_user = u, m_channel = c, m_status = f\<rparr>)) k)) (set ((chs(u := m # chs u)) y))"
      using d(5) [of y] u new' by (auto simp: inj_on_def)
  next
    fix x k assume "k \<in> set ((mem(c := m # mem c)) x)"
    then have k: "k = m \<and> x = c \<or> k \<in> set (mem x) \<and> k \<noteq> m" using new by (auto split: if_splits)
    show "m_channel ((M(m := \<lparr>m_user = u, m_channel = c, m_status = f\<rparr>)) k) = x" using k d(3) [of k x] by auto
    show "k \<in> set ((chs(u := m # chs u)) (m_user ((M(m := \<lparr>m_user = u, m_channel = c, m_status = f\<rparr>)) k)))"
      using k d(3) [of k x] by auto
    show "k < nxt'" "k \<notin> set free'" using k d(3) [of k x] f n mn by auto
  next
    fix x k assume "k \<in> set ((chs(u := m # chs u)) x)"
    then have k: "k = m \<and> x = u \<or> k \<in> set (chs x) \<and> k \<noteq> m" using new' by (auto split: if_splits)
    show "m_user ((M(m := \<lparr>m_user = u, m_channel = c, m_status = f\<rparr>)) k) = x" using k d(4) [of k x] by auto
    show "k \<in> set ((mem(c := m # mem c)) (m_channel ((M(m := \<lparr>m_user = u, m_channel = c, m_status = f\<rparr>)) k)))"
      using k d(4) [of k x] by auto
  next
    show "distinct free'" by (rule f)
    fix k assume "k \<in> set free'"
    then show "k < nxt'" using f d(7) n by blast
  qed
qed

lemma matrix_remove:
  assumes i: "matrix_inv mem chs M free nxt" and m: "m \<in> set (mem c)" "u = m_user (M m)"
  shows "matrix_inv (mem(c := remove1 m (mem c))) (chs(u := remove1 m (chs u))) M (m # free) nxt"
proof -
  note d = matrix_invD [OF i]
  note dm = d(3) [OF m(1)]
  have "set ((mem(c := remove1 m (mem c))) x) = set (mem x) - {m}" for x
  proof (cases "x = c")
    case False
    then have "m \<notin> set (mem x)" using d(3) [of m x] dm by blast
    then show ?thesis using False by simp
  qed (use d(1) [of c] in simp)
  moreover have "set ((chs(u := remove1 m (chs u))) x) = set (chs x) - {m}" for x
  proof (cases "x = u")
    case False
    then have "m \<notin> set (chs x)" using d(4) [of m x] m(2) by blast
    then show ?thesis using False by simp
  qed (use d(2) [of u] in simp)
  ultimately have s: "set ((mem(c := remove1 m (mem c))) x) = set (mem x) - {m}"
    "set ((chs(u := remove1 m (chs u))) x) = set (chs x) - {m}" for x by blast+
  have ds: "distinct ((mem(c := remove1 m (mem c))) x)" "distinct ((chs(u := remove1 m (chs u))) y)" for x y
    using d(1,2) by simp_all
  show ?thesis unfolding matrix_inv_def s
  proof (intro conjI allI ballI)
    show "distinct ((mem(c := remove1 m (mem c))) x)" "distinct ((chs(u := remove1 m (chs u))) x)"
      "inj_on (\<lambda>m. m_channel (M m)) (set (chs x) - {m})" for x by (rule ds, rule ds, rule inj_on_subset [OF d(5)], blast)
    show "distinct (m # free)" using d(6) dm by simp
    show "k < nxt" if "k \<in> set (m # free)" for k using d(7) dm that by auto
  next
    fix x k assume "k \<in> set (mem x) - {m}"
    then show "m_channel (M k) = x" "k \<in> set (chs (m_user (M k))) - {m}" "k < nxt" "k \<notin> set (m # free)"
      using d(3) [of k x] by simp_all
  next
    fix x k assume "k \<in> set (chs x) - {m}"
    then show "m_user (M k) = x" "k \<in> set (mem (m_channel (M k))) - {m}" using d(4) [of k x] by simp_all
  qed
qed

section \<open>Views of the state\<close>

definition mem_of :: "chans \<Rightarrow> channel \<Rightarrow> member list" where
  "mem_of s c = (case channel_at s c of None \<Rightarrow> [] | Some ch \<Rightarrow> ch_members ch)"

definition chan_of :: "chans \<Rightarrow> client \<Rightarrow> member list" where
  "chan_of s u = (case cli_user s u of None \<Rightarrow> [] | Some us \<Rightarrow> u_channel us)"

definition inv_of :: "chans \<Rightarrow> channel \<Rightarrow> client list" where
  "inv_of s c = (case channel_at s c of None \<Rightarrow> [] | Some ch \<Rightarrow> ch_invites ch)"

definition invd_of :: "chans \<Rightarrow> client \<Rightarrow> channel list" where
  "invd_of s u = (case cli_user s u of None \<Rightarrow> [] | Some us \<Rightarrow> u_invited us)"

definition persist :: "chans \<Rightarrow> channel \<Rightarrow> bool" where
  "persist s c = (case channel_at s c of None \<Rightarrow> False | Some ch \<Rightarrow> ch_mode ch AND MODE_PERSIST \<noteq> 0)"

lemmas views = mem_of_def chan_of_def inv_of_def invd_of_def persist_def name_of_def

lemma views_set_channel [simp]:
  "mem_of (set_channel c ch s) = (mem_of s)(c := ch_members ch)" "inv_of (set_channel c ch s) = (inv_of s)(c := ch_invites ch)"
  "name_of (set_channel c ch s) = (name_of s)(c := ch_name ch)"
  "persist (set_channel c ch s) = (persist s)(c := ch_mode ch AND MODE_PERSIST \<noteq> 0)"
  "chan_of (set_channel c ch s) = chan_of s" "invd_of (set_channel c ch s) = invd_of s"
  by (auto simp: views set_channel_def fun_eq_iff)

lemma views_set_user [simp]:
  "chan_of (set_user u us s) = (chan_of s)(u := u_channel us)" "invd_of (set_user u us s) = (invd_of s)(u := u_invited us)"
  "mem_of (set_user u us s) = mem_of s" "inv_of (set_user u us s) = inv_of s" "name_of (set_user u us s) = name_of s"
  "persist (set_user u us s) = persist s"
  by (auto simp: views set_user_def fun_eq_iff)

lemma set_simps [simp]:
  "channel_at (set_channel c ch s) = (channel_at s)(c \<mapsto> ch)" "cli_user (set_channel c ch s) = cli_user s"
  "cli_user (set_user u us s) = (cli_user s)(u \<mapsto> us)" "channel_at (set_user u us s) = channel_at s"
  "membership (set_channel c ch s) = membership s" "membership (set_user u us s) = membership s"
  "membershipFreeList (set_channel c ch s) = membershipFreeList s" "membershipFreeList (set_user u us s) = membershipFreeList s"
  "next_member (set_channel c ch s) = next_member s" "next_member (set_user u us s) = next_member s"
  "next_channel (set_channel c ch s) = next_channel s" "next_channel (set_user u us s) = next_channel s"
  "GlobalChannelList (set_channel c ch s) = GlobalChannelList s" "GlobalChannelList (set_user u us s) = GlobalChannelList s"
  "UserStats_channels (set_channel c ch s) = UserStats_channels s" "UserStats_channels (set_user u us s) = UserStats_channels s"
  "channelTable (set_channel c ch s) = channelTable s" "channelTable (set_user u us s) = channelTable s"
  "crc32hash (set_channel c ch s) = crc32hash s" "crc32hash (set_user u us s) = crc32hash s"
  "clients (set_channel c ch s) = clients s" "clients (set_user u us s) = clients s"
  "me (set_channel c ch s) = me s" "me (set_user u us s) = me s"
  by (simp_all add: set_channel_def set_user_def)

lemma the_channel_simps [simp]:
  "channel_at s c = Some ch \<Longrightarrow> the_channel s c = Inr ch" "channel_at s c = None \<Longrightarrow> the_channel s c = Inl OutOfBounds"
  "the_channel s c = Inr ch \<longleftrightarrow> channel_at s c = Some ch"
  by (auto simp: the_channel_def split: option.splits)

lemma the_user_simps [simp]:
  "cli_user s u = Some us \<Longrightarrow> the_user s u = Inr us" "cli_user s u = None \<Longrightarrow> the_user s u = Inl NullDeref"
  "the_user s u = Inr us \<longleftrightarrow> cli_user s u = Some us"
  by (auto simp: the_user_def split: option.splits)

section \<open>Invariants\<close>

definition matrix_ok :: "chans \<Rightarrow> bool" where
  "matrix_ok s \<longleftrightarrow> matrix_inv (mem_of s) (chan_of s) (membership s) (membershipFreeList s) (next_member s)
     \<and> next_member s < 2 ^ 32"

text \<open>The counters are right, apart from those of the channels in \<open>C\<close>.\<close>

definition counts_but :: "channel set \<Rightarrow> chans \<Rightarrow> bool" where
  "counts_but C s \<longleftrightarrow> (\<forall>c. c \<notin> C \<longrightarrow> (case channel_at s c of None \<Rightarrow> True | Some ch \<Rightarrow> ch_users ch = of_nat (length (ch_members ch))))
     \<and> (\<forall>u. case cli_user s u of None \<Rightarrow> True | Some us \<Rightarrow> joined us = of_nat (length (u_channel us)))"

abbreviation counts_ok :: "chans \<Rightarrow> bool" where
  "counts_ok \<equiv> counts_but {}"

lemma counts_butD:
  assumes "counts_but C s"
  shows "c \<notin> C \<Longrightarrow> channel_at s c = Some ch \<Longrightarrow> ch_users ch = of_nat (length (ch_members ch))"
    "cli_user s u = Some us \<Longrightarrow> joined us = of_nat (length (u_channel us))"
  using assms by (auto simp: counts_but_def split: option.splits)

definition channels_ok :: "chans \<Rightarrow> bool" where
  "channels_ok s \<longleftrightarrow> distinct (GlobalChannelList s) \<and> set (GlobalChannelList s) = dom (channel_at s)
     \<and> UserStats_channels s = of_nat (length (GlobalChannelList s))
     \<and> (\<forall>c \<in> dom (channel_at s). c < next_channel s \<and> name_of s c \<noteq> [])
     \<and> table_inv (crc32hash s) (name_of s) (channelTable s) \<and> members (channelTable s) = dom (channel_at s)
     \<and> inj_on (\<lambda>c. lower (name_of s c)) (dom (channel_at s))"

definition invites_ok :: "chans \<Rightarrow> bool" where
  "invites_ok s \<longleftrightarrow> (\<forall>c. distinct (inv_of s c)) \<and> (\<forall>u. distinct (invd_of s u))
     \<and> (\<forall>u c. u \<in> set (inv_of s c) \<longleftrightarrow> c \<in> set (invd_of s u))
     \<and> (\<forall>u us. cli_user s u = Some us \<longrightarrow> u_invites us = of_nat (length (u_invited us)))"

definition zombies_ok :: "chans \<Rightarrow> bool" where
  "zombies_ok s \<longleftrightarrow> (\<forall>c. mem_of s c \<noteq> [] \<longrightarrow> \<not> persist s c \<longrightarrow> (\<exists>m \<in> set (mem_of s c). \<not> IsZombie (membership s m)))"

definition core_ok :: "chans \<Rightarrow> bool" where
  "core_ok s \<longleftrightarrow> matrix_ok s \<and> counts_ok s \<and> channels_ok s"

text \<open>Everything but the invitations; operations on invitations leave it alone.\<close>

definition uninvited :: "chans \<Rightarrow> chans" where
  "uninvited s = s\<lparr>channel_at := (\<lambda>c. map_option (\<lambda>ch. ch\<lparr>ch_invites := []\<rparr>) (channel_at s c)),
     cli_user := (\<lambda>u. map_option (\<lambda>us. us\<lparr>u_invited := [], u_invites := 0\<rparr>) (cli_user s u))\<rparr>"

lemma uninvited_counts: "counts_but C (uninvited s) = counts_but C s"
  by (simp add: counts_but_def uninvited_def case_map_option o_apply cong: option.case_cong)

lemma uninvited_views:
  "mem_of (uninvited s) = mem_of s" "chan_of (uninvited s) = chan_of s" "name_of (uninvited s) = name_of s"
  "persist (uninvited s) = persist s" "dom (channel_at (uninvited s)) = dom (channel_at s)"
  "dom (cli_user (uninvited s)) = dom (cli_user s)"
  "membership (uninvited s) = membership s" "membershipFreeList (uninvited s) = membershipFreeList s"
  "next_member (uninvited s) = next_member s" "next_channel (uninvited s) = next_channel s"
  "GlobalChannelList (uninvited s) = GlobalChannelList s" "UserStats_channels (uninvited s) = UserStats_channels s"
  "channelTable (uninvited s) = channelTable s" "crc32hash (uninvited s) = crc32hash s" "clients (uninvited s) = clients s"
  "me (uninvited s) = me s" "counts_but C (uninvited s) = counts_but C s"
  by (auto simp: uninvited_counts) (auto simp: uninvited_def views fun_eq_iff dom_def split: option.splits)

lemma uninvited_eq:
  assumes "uninvited s' = uninvited s"
  shows "mem_of s' = mem_of s" "chan_of s' = chan_of s" "name_of s' = name_of s" "persist s' = persist s"
    "dom (channel_at s') = dom (channel_at s)" "dom (cli_user s') = dom (cli_user s)" "membership s' = membership s"
    "membershipFreeList s' = membershipFreeList s" "next_member s' = next_member s" "next_channel s' = next_channel s"
    "GlobalChannelList s' = GlobalChannelList s" "UserStats_channels s' = UserStats_channels s"
    "channelTable s' = channelTable s" "crc32hash s' = crc32hash s" "clients s' = clients s" "me s' = me s"
    "counts_but C s' = counts_but C s"
  by (subst (1 2) uninvited_views [symmetric], simp only: assms)+

lemma uninvited_ok:
  assumes "uninvited s' = uninvited s"
  shows "core_ok s' = core_ok s" "zombies_ok s' = zombies_ok s"
  by (simp_all add: core_ok_def matrix_ok_def channels_ok_def zombies_ok_def uninvited_eq [OF assms])

section \<open>Invitations\<close>

lemma set_user_again [simp]: "set_user u us1 (set_user u us0 s) = set_user u us1 s"
  by (simp add: set_user_def)

lemma set_user_same: "cli_user s u = Some us \<Longrightarrow> set_user u us s = s"
  by (simp add: set_user_def map_upd_triv)

lemma user_update_order: "us\<lparr>u_invites := n, u_invited := i\<rparr> = us\<lparr>u_invited := i, u_invites := n\<rparr>" for us :: User
  by (cases us) simp

lemma uninvited_set_user:
  "cli_user s u = Some us \<Longrightarrow> uninvited (set_user u (us\<lparr>u_invited := i, u_invites := n\<rparr>) s) = uninvited s"
  by (cases s) (auto simp: uninvited_def set_user_def fun_eq_iff)

lemma uninvited_set_channel:
  "channel_at s c = Some ch \<Longrightarrow> uninvited (set_channel c (ch\<lparr>ch_invites := i\<rparr>) s) = uninvited s"
  by (cases s) (auto simp: uninvited_def set_channel_def fun_eq_iff)

lemma invites_okD:
  assumes "invites_ok s"
  shows "distinct (inv_of s c)" "distinct (invd_of s u)" "u \<in> set (inv_of s c) \<longleftrightarrow> c \<in> set (invd_of s u)"
    "cli_user s u = Some us \<Longrightarrow> u_invites us = of_nat (length (u_invited us))"
  using assms by (simp_all add: invites_ok_def)

lemma invites_okI:
  assumes "invites_ok s"
    and "inv_of s' = (inv_of s)(c := is)" "invd_of s' = (invd_of s)(u := cs)" "distinct is" "distinct cs"
    and "set is - {u} = set (inv_of s c) - {u}" "set cs - {c} = set (invd_of s u) - {c}" "u \<in> set is \<longleftrightarrow> c \<in> set cs"
    and "cli_user s' u = Some us" "u_invites us = of_nat (length (u_invited us))" "\<And>v. v \<noteq> u \<Longrightarrow> cli_user s' v = cli_user s v"
  shows "invites_ok s'"
proof -
  note d = invites_okD [OF assms(1)]
  have "v \<in> set (inv_of s' x) \<longleftrightarrow> x \<in> set (invd_of s' v)" for v x
    using d(3) [of v x] assms(2,3,6-8) by (cases "v = u"; cases "x = c"; simp) blast+
  moreover have "u_invites vs = of_nat (length (u_invited vs))" if "cli_user s' v = Some vs" for v vs
    using d(4) [of v vs] assms(9-11) that by (cases "v = u") auto
  ultimately show ?thesis using d(1,2) assms(2-5) by (simp add: invites_ok_def)
qed

lemma of_nat_minus_1: "0 < n \<Longrightarrow> (of_nat (n - 1) :: u32) = of_nat n - 1"
  by (cases n) simp_all

lemma del_invite_ok:
  assumes i: "invites_ok s" and c: "channel_at s c = Some ch" and u: "cli_user s u = Some us"
  shows "\<exists>s'. del_invite u c s = Inr s' \<and> invites_ok s' \<and> uninvited s' = uninvited s
    \<and> inv_of s' = (inv_of s)(c := remove1 u (inv_of s c)) \<and> invd_of s' = (invd_of s)(u := remove1 c (invd_of s u))"
proof -
  note d = invites_okD [OF i]
  have v: "inv_of s c = ch_invites ch" "invd_of s u = u_invited us" using c u by (simp_all add: views)
  show ?thesis
  proof (cases "u \<in> set (ch_invites ch)")
    case True
    let ?us = "us\<lparr>u_invited := remove1 c (u_invited us), u_invites := u_invites us - 1\<rparr>"
    let ?s = "set_user u ?us (set_channel c (ch\<lparr>ch_invites := remove1 u (ch_invites ch)\<rparr>) s)"
    have m: "c \<in> set (u_invited us)" using True d(3) [of u c] v by simp
    have "del_invite u c s = Inr ?s" using c u True by (simp add: del_invite_def Let_def user_update_order)
    moreover have "invites_ok ?s"
    proof (rule invites_okI [OF i])
      show "inv_of ?s = (inv_of s)(c := remove1 u (ch_invites ch))" "invd_of ?s = (invd_of s)(u := remove1 c (u_invited us))"
        by simp_all
      show "distinct (remove1 u (ch_invites ch))" "distinct (remove1 c (u_invited us))"
        using d(1) [of c] d(2) [of u] v by simp_all
      show "set (remove1 u (ch_invites ch)) - {u} = set (inv_of s c) - {u}"
        "set (remove1 c (u_invited us)) - {c} = set (invd_of s u) - {c}"
        "u \<in> set (remove1 u (ch_invites ch)) \<longleftrightarrow> c \<in> set (remove1 c (u_invited us))"
        using d(1) [of c] d(2) [of u] v by auto
      show "cli_user ?s u = Some ?us" by simp
      show "u_invites ?us = of_nat (length (u_invited ?us))"
        using m d(4) [OF u] of_nat_minus_1 [OF length_pos_if_in_set [OF m]] by (simp add: length_remove1)
      show "\<And>v. v \<noteq> u \<Longrightarrow> cli_user ?s v = cli_user s v" by simp
    qed
    moreover have "uninvited ?s = uninvited s" using uninvited_set_user [of _ u us] uninvited_set_channel [OF c] u by simp
    ultimately show ?thesis using v by simp
  next
    case False
    then have m: "c \<notin> set (u_invited us)" using d(3) [of u c] v by simp
    have "del_invite u c s = Inr s" using c u False m by (simp add: del_invite_def Let_def remove1_idem set_user_same)
    then show ?thesis using i v m False by (simp add: remove1_idem fun_upd_idem)
  qed
qed

lemma del_all_invites_ok:
  assumes "invites_ok s" "c \<in> dom (channel_at s)" "\<forall>u \<in> set (inv_of s c). u \<in> dom (cli_user s)"
  shows "\<exists>s'. del_all_invites c s = returning s' \<and> invites_ok s' \<and> uninvited s' = uninvited s \<and> inv_of s' = (inv_of s)(c := [])"
  using assms
proof (induction "length (inv_of s c)" arbitrary: s)
  case 0
  then have "del_all_invites c s = Some (Inr s)"
    by (subst del_all_invites.simps) (auto simp: views)
  then show ?case using 0 by (auto simp: returning_def)
next
  case (Suc n)
  obtain ch where c: "channel_at s c = Some ch" using Suc.prems by blast
  then obtain u us where iv: "ch_invites ch = u # us" using Suc.hyps(2) by (cases "ch_invites ch") (auto simp: views)
  then obtain ur where u: "cli_user s u = Some ur" using Suc.prems(3) c by (auto simp: views)
  obtain s1 where s1: "del_invite u c s = Inr s1" "invites_ok s1" "uninvited s1 = uninvited s"
    "inv_of s1 = (inv_of s)(c := remove1 u (inv_of s c))"
    using del_invite_ok [OF Suc.prems(1) c u] by blast
  have v: "inv_of s c = u # us" using c iv by (simp add: views)
  have run: "del_all_invites c s = del_all_invites c s1"
    by (subst del_all_invites.simps) (simp add: c iv s1(1))
  have "\<exists>s'. del_all_invites c s1 = returning s' \<and> invites_ok s' \<and> uninvited s' = uninvited s1 \<and> inv_of s' = (inv_of s1)(c := [])"
    using Suc.hyps s1 v Suc.prems(2,3) by (intro Suc.hyps(1)) (auto simp: uninvited_eq [OF s1(3)])
  then show ?case using run s1(3,4) by (auto simp: fun_upd_upd)
qed

section \<open>Freeing a channel\<close>

lemma invited_user: "invites_ok s \<Longrightarrow> u \<in> set (inv_of s c) \<Longrightarrow> u \<in> dom (cli_user s)"
  using invites_okD(3) [of s u c] by (cases "cli_user s u") (auto simp: invd_of_def)

text \<open>What the matrix is made of, and who the clients are.\<close>

definition links :: "chans \<Rightarrow> _" where
  "links s = (mem_of s, chan_of s, membership s, membershipFreeList s, next_member s, clients s, me s, dom (cli_user s))"

lemma links_matrix: "links s' = links s \<Longrightarrow> matrix_ok s' = matrix_ok s"
  by (simp add: links_def matrix_ok_def)

lemma uninvited_links:
  assumes "uninvited s' = uninvited s"
  shows "links s' = links s"
  by (simp add: links_def uninvited_eq [OF assms])

lemma table_inv_cong: "table_inv crc nm t \<Longrightarrow> (\<And>e. e \<in> members t \<Longrightarrow> nm' e = nm e) \<Longrightarrow> table_inv crc nm' t"
  by (fastforce simp: table_inv_def members_def)

lemma free_channel_ok:
  assumes ok: "channels_ok s" "invites_ok s" "counts_but {c} s" and c: "c \<in> dom (channel_at s)" "mem_of s c = []"
  shows "\<exists>s'. free_channel c s = returning s' \<and> channels_ok s' \<and> invites_ok s' \<and> counts_ok s' \<and> links s' = links s
    \<and> persist s' = (persist s)(c := False) \<and> dom (channel_at s') = dom (channel_at s) - {c}"
proof -
  obtain s1 where s1: "del_all_invites c s = returning s1" "invites_ok s1" "uninvited s1 = uninvited s" "inv_of s1 = (inv_of s)(c := [])"
    using del_all_invites_ok [OF ok(2) c(1)] invited_user [OF ok(2)] by blast
  note e = uninvited_eq [OF s1(3)]
  have ok1: "channels_ok s1" using ok(1) by (simp add: channels_ok_def e)
  then have t: "table_inv (crc32hash s1) (name_of s1) (channelTable s1)" "name_of s1 c \<noteq> []" "c \<in> members (channelTable s1)"
    using c(1) e by (simp_all add: channels_ok_def)
  obtain t' where t': "hRemChannel (crc32hash s1) (name_of s1) (channelTable s1) c = Inr (t', 0)"
    "table_inv (crc32hash s1) (name_of s1) t'" "members t' = members (channelTable s1) - {c}"
    using channels.rem_law [OF t(1,2)] t(3) by auto
  let ?s = "s1\<lparr>GlobalChannelList := remove1 c (GlobalChannelList s1), channelTable := t',
    UserStats_channels := UserStats_channels s1 - 1, channel_at := (channel_at s1)(c := None)\<rparr>"
  have run: "free_channel c s = returning ?s" using s1(1) t'(1) by (simp add: free_channel_def returning_def)
  have nm: "name_of ?s x = name_of s1 x" if "x \<noteq> c" for x using that by (simp add: name_of_def)
  have g: "c \<in> set (GlobalChannelList s1)" using ok1 c(1) e(5) by (auto simp: channels_ok_def)
  have ch: "channels_ok ?s" unfolding channels_ok_def
  proof (intro conjI)
    show "table_inv (crc32hash ?s) (name_of ?s) (channelTable ?s)" "members (channelTable ?s) = dom (channel_at ?s)"
      using t'(2,3) ok1 nm by (auto simp: channels_ok_def intro: table_inv_cong)
    show "UserStats_channels ?s = of_nat (length (GlobalChannelList ?s))"
      using ok1 of_nat_minus_1 [OF length_pos_if_in_set [OF g]] g by (simp add: channels_ok_def length_remove1)
    show "\<forall>x \<in> dom (channel_at ?s). x < next_channel ?s \<and> name_of ?s x \<noteq> []"
      "inj_on (\<lambda>x. lower (name_of ?s x)) (dom (channel_at ?s))" using ok1 nm by (auto simp: channels_ok_def inj_on_def)
  qed (use ok1 in \<open>auto simp: channels_ok_def\<close>)
  have v: "inv_of ?s = inv_of s1" "invd_of ?s = invd_of s1" "mem_of ?s = mem_of s" "chan_of ?s = chan_of s"
    "persist ?s = (persist s)(c := False)"
    using s1(4) c(2) e(1,2,4) by (auto simp: views fun_eq_iff split: option.splits)
  have "invites_ok ?s" using s1(2) v by (simp add: invites_ok_def)
  moreover have "counts_but {c} s1" using ok(3) e by simp
  then have "counts_ok ?s" by (simp add: counts_but_def)
  moreover have "links ?s = links s" using e v by (simp add: links_def)
  moreover have "dom (channel_at ?s) = dom (channel_at s) - {c}" using e(5) by simp
  ultimately show ?thesis using run ch v(5) by blast
qed

lemma u32_less: "n < 2 ^ 32 \<Longrightarrow> (1 :: u32) < of_nat n \<longleftrightarrow> 1 < n"
  by (simp add: word_less_nat_alt unat_of_nat)

lemma sub1_ok:
  assumes ok: "matrix_ok s" "channels_ok s" "invites_ok s" "counts_but {c} s"
    and c: "channel_at s c = Some ch" "ch_users ch = of_nat (Suc (length (ch_members ch)))" "Suc (length (ch_members ch)) < 2 ^ 32"
  shows "\<exists>s'. sub1_from_channel c s = returning (s', mem_of s c \<noteq> []) \<and> core_ok s' \<and> invites_ok s' \<and> links s' = links s
    \<and> (if mem_of s c = [] \<and> \<not> persist s c then dom (channel_at s') = dom (channel_at s) - {c} \<and> persist s' = persist s
       else dom (channel_at s') = dom (channel_at s) \<and> persist s' = persist s)"
proof -
  have v: "mem_of s c = ch_members ch" "persist s c \<longleftrightarrow> ch_mode ch AND MODE_PERSIST \<noteq> 0" using c(1) by (simp_all add: views)
  have gt: "1 < ch_users ch \<longleftrightarrow> ch_members ch \<noteq> []" using u32_less [OF c(3)] c(2) by auto
  show ?thesis
  proof (cases "ch_members ch = [] \<and> \<not> persist s c")
    case True
    then obtain s' where s': "free_channel c s = returning s'" "channels_ok s'" "invites_ok s'" "counts_ok s'" "links s' = links s"
      "persist s' = (persist s)(c := False)" "dom (channel_at s') = dom (channel_at s) - {c}"
      using free_channel_ok [OF ok(2-4)] domI [of "channel_at s" c, OF c(1)] v(1) by metis
    then have "sub1_from_channel c s = returning (s', False)"
      using True gt c(1) v by (simp add: sub1_from_channel_def returning_def)
    moreover have "persist s' = persist s" using s'(6) True by (simp add: fun_eq_iff)
    ultimately show ?thesis using s' True v ok(1) links_matrix [OF s'(5)]
      by (intro exI [of _ s']) (simp add: core_ok_def)
  next
    case False
    let ?s = "set_channel c (ch\<lparr>ch_users := ch_users ch - 1\<rparr>) s"
    have "sub1_from_channel c s = returning (?s, mem_of s c \<noteq> [])"
      using False gt c(1) v by (simp add: sub1_from_channel_def returning_def)
    moreover have l: "links ?s = links s" "name_of ?s = name_of s" "persist ?s = persist s" "inv_of ?s = inv_of s" "dom (channel_at ?s) = dom (channel_at s)"
      using c(1) by (auto simp: links_def views fun_eq_iff)
    moreover have "counts_ok ?s" using ok(4) c(2) by (simp add: counts_but_def)
    moreover have "channels_ok ?s" using ok(2) l by (simp add: channels_ok_def)
    moreover have "invites_ok ?s" using ok(3) l by (simp add: invites_ok_def)
    ultimately show ?thesis using False v ok(1) links_matrix [OF l(1)] by (intro exI [of _ ?s]) (auto simp: core_ok_def)
  qed
qed

section \<open>Removing members\<close>

text \<open>What the removal of members never changes.\<close>

definition fixed :: "chans \<Rightarrow> _" where
  "fixed s = (membership s, next_member s, clients s, me s, dom (cli_user s), persist s)"

lemma fixed_eq:
  assumes "fixed s' = fixed s"
  shows "membership s' = membership s" "next_member s' = next_member s" "clients s' = clients s" "me s' = me s"
    "dom (cli_user s') = dom (cli_user s)" "persist s' = persist s"
  using assms by (simp_all add: fixed_def)

lemma core_okD:
  assumes "core_ok s"
  shows "matrix_inv (mem_of s) (chan_of s) (membership s) (membershipFreeList s) (next_member s)" "next_member s < 2 ^ 32"
    "matrix_ok s" "channels_ok s" "counts_ok s"
  using assms by (simp_all add: core_ok_def matrix_ok_def)

lemma remove1_everywhere:
  assumes i: "matrix_inv mem chs M free nxt" and m: "m \<in> set (mem c)" "u = m_user (M m)"
  shows "mem(c := remove1 m (mem c)) = (\<lambda>x. removeAll m (mem x))" "chs(u := remove1 m (chs u)) = (\<lambda>x. removeAll m (chs x))"
proof -
  note d = matrix_invD [OF i]
  have "m \<notin> set (mem x)" if "x \<noteq> c" for x using d(3) [of m x] d(3) [OF m(1)] that by blast
  then show "mem(c := remove1 m (mem c)) = (\<lambda>x. removeAll m (mem x))"
    using d(1) [of c] by (simp add: fun_eq_iff distinct_remove1_removeAll)
  have "m \<notin> set (chs x)" if "x \<noteq> u" for x using d(4) [of m x] m(2) that by blast
  then show "chs(u := remove1 m (chs u)) = (\<lambda>x. removeAll m (chs x))"
    using d(2) [of u] by (simp add: fun_eq_iff distinct_remove1_removeAll)
qed

lemma unlink_member_ok:
  assumes ok: "core_ok s" "invites_ok s" and m: "m \<in> set (mem_of s c)"
  shows "\<exists>s1 ch1. unlink_member m s = Inr s1 \<and> matrix_ok s1 \<and> channels_ok s1 \<and> invites_ok s1 \<and> counts_but {c} s1
    \<and> channel_at s1 c = Some ch1 \<and> ch_users ch1 = of_nat (Suc (length (ch_members ch1))) \<and> Suc (length (ch_members ch1)) < 2 ^ 32
    \<and> fixed s1 = fixed s \<and> mem_of s1 = (\<lambda>x. removeAll m (mem_of s x)) \<and> chan_of s1 = (\<lambda>x. removeAll m (chan_of s x))
    \<and> dom (channel_at s1) = dom (channel_at s)"
proof -
  note d = core_okD [OF ok(1)]
  let ?u = "m_user (membership s m)"
  have mc: "m_channel (membership s m) = c" "m \<in> set (chan_of s ?u)" using matrix_invD(3) [OF d(1) m] by simp_all
  obtain ch where ch: "channel_at s c = Some ch" using m by (cases "channel_at s c") (auto simp: mem_of_def)
  obtain us where us: "cli_user s ?u = Some us" using mc(2) by (cases "cli_user s ?u") (auto simp: chan_of_def)
  have v: "mem_of s c = ch_members ch" "chan_of s ?u = u_channel us" using ch us by (simp_all add: views)
  let ?ch = "ch\<lparr>ch_members := remove1 m (ch_members ch)\<rparr>"
  let ?s = "set_user ?u (us\<lparr>u_channel := remove1 m (u_channel us), joined := joined us - 1\<rparr>)
     (set_channel c ?ch (s\<lparr>membershipFreeList := m # membershipFreeList s\<rparr>))"
  have run: "unlink_member m s = Inr ?s" using mc(1) ch us by (simp add: unlink_member_def the_channel_def the_user_def)
  have vw: "mem_of ?s = (mem_of s)(c := remove1 m (mem_of s c))" "chan_of ?s = (chan_of s)(?u := remove1 m (chan_of s ?u))"
    "inv_of ?s = inv_of s" "invd_of ?s = invd_of s" "name_of ?s = name_of s" "persist ?s = persist s"
    using ch us by (auto simp: views fun_eq_iff set_user_def set_channel_def)
  have "matrix_ok ?s" using matrix_remove [OF d(1) m refl] d(2) vw(1,2) by (simp add: matrix_ok_def)
  moreover have "channels_ok ?s" using d(4) ch vw(5) by (auto simp: channels_ok_def insert_absorb domI)
  moreover have "invites_ok ?s" using ok(2) us vw(3,4) by (simp add: invites_ok_def)
  moreover have "of_nat (length (u_channel us) - 1) = (of_nat (length (u_channel us)) - 1 :: u32)"
    using mc(2) v(2) by (intro of_nat_minus_1 length_pos_if_in_set) simp
  then have "counts_but {c} ?s"
    using d(5) us mc(2) v(2) by (auto simp: counts_but_def length_remove1 split: option.splits)
  moreover have l: "Suc (length (remove1 m (ch_members ch))) = length (ch_members ch)"
    using m v(1) length_pos_if_in_set [OF m] by (simp add: length_remove1)
  then have "ch_users ?ch = of_nat (Suc (length (ch_members ?ch)))" using counts_butD(1) [OF d(5) _ ch] by simp
  moreover have "Suc (length (ch_members ?ch)) < 2 ^ 32" using l matrix_length [OF d(1), of c] d(2) v(1) by simp
  moreover have "fixed ?s = fixed s" using us vw(6) by (auto simp: fixed_def)
  moreover have "mem_of ?s = (\<lambda>x. removeAll m (mem_of s x))" "chan_of ?s = (\<lambda>x. removeAll m (chan_of s x))"
    using vw(1,2) remove1_everywhere [OF d(1) m refl] by simp_all
  moreover have "channel_at ?s c = Some ?ch" "dom (channel_at ?s) = dom (channel_at s)" using ch by auto
  ultimately show ?thesis using run by blast
qed

lemma remove_member_ok:
  assumes ok: "core_ok s" "invites_ok s" and m: "m \<in> set (mem_of s c)"
  shows "\<exists>s'. remove_member_from_channel m s = returning (s', removeAll m (mem_of s c) \<noteq> []) \<and> core_ok s' \<and> invites_ok s'
    \<and> fixed s' = fixed s \<and> mem_of s' = (\<lambda>x. removeAll m (mem_of s x)) \<and> chan_of s' = (\<lambda>x. removeAll m (chan_of s x))
    \<and> dom (channel_at s') = dom (channel_at s) - (if removeAll m (mem_of s c) = [] \<and> \<not> persist s c then {c} else {})"
proof -
  obtain s1 ch1 where s1: "unlink_member m s = Inr s1" "matrix_ok s1" "channels_ok s1" "invites_ok s1" "counts_but {c} s1"
    "channel_at s1 c = Some ch1" "ch_users ch1 = of_nat (Suc (length (ch_members ch1)))" "Suc (length (ch_members ch1)) < 2 ^ 32"
    "fixed s1 = fixed s" "mem_of s1 = (\<lambda>x. removeAll m (mem_of s x))" "chan_of s1 = (\<lambda>x. removeAll m (chan_of s x))"
    "dom (channel_at s1) = dom (channel_at s)"
    using unlink_member_ok [OF assms] by blast
  have mc: "m_channel (membership s m) = c" using matrix_invD(3) [OF core_okD(1) [OF ok(1)] m] by simp
  obtain s' where s': "sub1_from_channel c s1 = returning (s', mem_of s1 c \<noteq> [])" "core_ok s'" "invites_ok s'" "links s' = links s1"
    "if mem_of s1 c = [] \<and> \<not> persist s1 c then dom (channel_at s') = dom (channel_at s1) - {c} \<and> persist s' = persist s1
       else dom (channel_at s') = dom (channel_at s1) \<and> persist s' = persist s1"
    using sub1_ok [OF s1(2-8)] by blast
  have "remove_member_from_channel m s = returning (s', removeAll m (mem_of s c) \<noteq> [])"
    using s1(1,10) s'(1) mc by (simp add: remove_member_from_channel_def)
  moreover have p: "persist s1 = persist s" "persist s' = persist s1" using s1(9) s'(5) by (auto simp: fixed_def split: if_splits)
  moreover have "fixed s' = fixed s" using s1(9) s'(4) p by (simp add: fixed_def links_def)
  moreover have "mem_of s' = mem_of s1" "chan_of s' = chan_of s1" using s'(4) by (simp_all add: links_def)
  moreover have "dom (channel_at s') = dom (channel_at s) - (if removeAll m (mem_of s c) = [] \<and> \<not> persist s c then {c} else {})"
    using s'(5) s1(10,12) p(1) by (auto split: if_splits)
  ultimately show ?thesis using s'(2,3) s1(10,11) by (intro exI [of _ s']) simp
qed

text \<open>Clearing a channel removes every member and frees it.\<close>

lemma remove_all_members_ok:
  assumes "core_ok s" "invites_ok s" "mem_of s c \<noteq> []" "\<not> persist s c"
  shows "\<exists>s'. remove_all_members c s = returning s' \<and> core_ok s' \<and> invites_ok s' \<and> fixed s' = fixed s
    \<and> mem_of s' = (mem_of s)(c := []) \<and> chan_of s' = (\<lambda>u. filter (\<lambda>m. m \<notin> set (mem_of s c)) (chan_of s u))
    \<and> dom (channel_at s') = dom (channel_at s) - {c}"
  using assms
proof (induction "length (mem_of s c)" arbitrary: s rule: less_induct)
  case less
  then obtain m ms where mm: "mem_of s c = m # ms" by (cases "mem_of s c") auto
  then obtain ch where ch: "channel_at s c = Some ch" "ch_members ch = m # ms" by (cases "channel_at s c") (auto simp: views)
  note d = matrix_invD [OF core_okD(1) [OF less.prems(1)]]
  have m: "m \<in> set (mem_of s c)" and ra: "removeAll m (mem_of s c) = ms" "m \<notin> set ms" using mm d(1) [of c] by auto
  obtain s1 where s1: "remove_member_from_channel m s = returning (s1, ms \<noteq> [])" "core_ok s1" "invites_ok s1" "fixed s1 = fixed s"
    "mem_of s1 = (\<lambda>x. removeAll m (mem_of s x))" "chan_of s1 = (\<lambda>x. removeAll m (chan_of s x))"
    "dom (channel_at s1) = dom (channel_at s) - (if ms = [] \<and> \<not> persist s c then {c} else {})"
    using remove_member_ok [OF less.prems(1,2) m] ra(1) by metis
  have oth: "removeAll m (mem_of s x) = mem_of s x" if "x \<noteq> c" for x
    using d(3) [of m x] d(3) [OF m] that by (intro removeAll_id) blast
  show ?case
  proof (cases "ms = []")
    case True
    have "remove_all_members c s = returning s1"
      using ch s1(1) True by (subst remove_all_members.simps) (simp add: the_channel_def returning_def)
    moreover have "mem_of s1 = (mem_of s)(c := [])" using s1(5) ra(1) True oth by (simp add: fun_eq_iff)
    moreover have "chan_of s1 = (\<lambda>u. filter (\<lambda>m. m \<notin> set (mem_of s c)) (chan_of s u))"
      using s1(6) mm True by (simp add: fun_eq_iff removeAll_filter_not_eq eq_commute)
    moreover have "dom (channel_at s1) = dom (channel_at s) - {c}" using s1(7) True less.prems(4) by simp
    ultimately show ?thesis using s1(2-4) by blast
  next
    case False
    have m1: "mem_of s1 c = ms" using s1(5) ra(1) by simp
    have "\<not> persist s1 c" using fixed_eq(6) [OF s1(4)] less.prems(4) by simp
    then obtain s' where s': "remove_all_members c s1 = returning s'" "core_ok s'" "invites_ok s'" "fixed s' = fixed s1"
      "mem_of s' = (mem_of s1)(c := [])" "chan_of s' = (\<lambda>u. filter (\<lambda>m. m \<notin> set (mem_of s1 c)) (chan_of s1 u))"
      "dom (channel_at s') = dom (channel_at s1) - {c}"
      using less.hyps [OF _ s1(2,3)] False m1 mm by (metis length_Cons lessI)
    have "remove_all_members c s = returning s'"
      using ch s1(1) s'(1) False by (subst remove_all_members.simps) (simp add: the_channel_def returning_def)
    moreover have "mem_of s' = (mem_of s)(c := [])" using s'(5) s1(5) oth by (simp add: fun_eq_iff)
    moreover have "chan_of s' = (\<lambda>u. filter (\<lambda>m. m \<notin> set (mem_of s c)) (chan_of s u))"
      using s'(6) s1(6) m1 mm by (simp add: fun_eq_iff removeAll_filter_not_eq eq_commute conj_commute cong: filter_cong)
    moreover have "dom (channel_at s') = dom (channel_at s) - {c}" using s'(7) s1(7) False by simp
    ultimately show ?thesis using s'(2-4) s1(4) by (intro exI [of _ s']) simp
  qed
qed

text \<open>The two searches of \<open>find_member_link\<close> find the same membership.\<close>

definition may_join :: "chans \<Rightarrow> client \<Rightarrow> bool" where
  "may_join s u \<longleftrightarrow> u \<in> dom (cli_user s) \<and> \<not> IsServer (clients s u) \<and> \<not> IsMe (clients s u)"

lemma find_unique: "x \<in> set xs \<Longrightarrow> P x \<Longrightarrow> (\<And>y. y \<in> set xs \<Longrightarrow> P y \<Longrightarrow> y = x) \<Longrightarrow> List.find P xs = Some x"
proof (induction xs)
  case (Cons a xs)
  show ?case
  proof (cases "P a")
    case True
    then have "a = x" using Cons.prems(3) [of a] by simp
    then show ?thesis using True by simp
  next
    case False
    then have "x \<in> set xs" using Cons.prems(1,2) by auto
    then have "List.find P xs = Some x" using Cons.prems(2,3) by (intro Cons.IH) auto
    then show ?thesis using False by simp
  qed
qed simp

lemma find_member_link_ok:
  assumes "core_ok s" "may_join s u" "c \<in> dom (channel_at s)"
  shows "find_member_link s c u = Inr (List.find (\<lambda>m. m_user (membership s m) = u) (mem_of s c))"
proof -
  note i = core_okD(1) [OF assms(1)]
  note d = matrix_invD [OF i]
  obtain ch us where cu: "channel_at s c = Some ch" "cli_user s u = Some us" using assms(2,3) by (auto simp: may_join_def)
  then have v: "mem_of s c = ch_members ch" "chan_of s u = u_channel us" by (simp_all add: views)
  have "List.find (\<lambda>m. m_channel (membership s m) = c) (chan_of s u) = List.find (\<lambda>m. m_user (membership s m) = u) (mem_of s c)"
  proof (cases "List.find (\<lambda>m. m_user (membership s m) = u) (mem_of s c)")
    case None
    then have "\<forall>m \<in> set (chan_of s u). m_channel (membership s m) \<noteq> c" using d(4) by (auto simp: find_None_iff)
    then have "List.find (\<lambda>m. m_channel (membership s m) = c) (chan_of s u) = None" by (auto simp: find_None_iff)
    then show ?thesis using None by simp
  next
    case (Some m)
    then have m: "m \<in> set (mem_of s c)" "m_user (membership s m) = u" by (auto simp: find_Some_iff)
    have "List.find (\<lambda>m. m_channel (membership s m) = c) (chan_of s u) = Some m"
      using d(3) [OF m(1)] m(2) d(5) [of u] by (intro find_unique) (auto simp: inj_on_def)
    then show ?thesis using Some by simp
  qed
  then show ?thesis using assms(2) cu v by (auto simp: find_member_link_def may_join_def)
qed

section \<open>A user leaves\<close>

definition on_channel :: "chans \<Rightarrow> client \<Rightarrow> channel \<Rightarrow> bool" where
  "on_channel s u c \<longleftrightarrow> (\<exists>m \<in> set (mem_of s c). m_user (membership s m) = u)"

text \<open>The memberships that stay when \<open>u\<close> leaves: none, when only zombies would, on a channel that is not persistent.\<close>

definition staying :: "chans \<Rightarrow> client \<Rightarrow> channel \<Rightarrow> member list" where
  "staying s u c =
     (let rest = filter (\<lambda>m. m_user (membership s m) \<noteq> u) (mem_of s c)
      in if \<not> persist s c \<and> (\<forall>m \<in> set rest. IsZombie (membership s m)) then [] else rest)"

definition zombies_at :: "chans \<Rightarrow> channel \<Rightarrow> bool" where
  "zombies_at s c \<longleftrightarrow> (mem_of s c \<noteq> [] \<longrightarrow> \<not> persist s c \<longrightarrow> (\<exists>m \<in> set (mem_of s c). \<not> IsZombie (membership s m)))"

lemma zombies_ok_at: "zombies_ok s \<longleftrightarrow> (\<forall>c. zombies_at s c)"
  by (simp add: zombies_ok_def zombies_at_def)

definition left_state :: "chans \<Rightarrow> client \<Rightarrow> channel \<Rightarrow> chans \<Rightarrow> bool" where
  "left_state s u c s' \<longleftrightarrow> core_ok s' \<and> invites_ok s' \<and> fixed s' = fixed s
     \<and> mem_of s' = (mem_of s)(c := staying s u c)
     \<and> chan_of s' = (\<lambda>v. filter (\<lambda>m. m \<notin> set (mem_of s c) \<or> m \<in> set (staying s u c)) (chan_of s v))
     \<and> dom (channel_at s') = dom (channel_at s) - (if staying s u c = [] \<and> \<not> persist s c then {c} else {})"

lemma left_zombies:
  assumes "left_state s u c s'"
  shows "zombies_at s' x \<longleftrightarrow> x = c \<or> zombies_at s x"
proof (cases "x = c")
  case True
  then show ?thesis using assms fixed_eq [of s' s] by (auto simp: left_state_def zombies_at_def staying_def Let_def)
next
  case False
  then show ?thesis using assms fixed_eq [of s' s] by (simp add: left_state_def zombies_at_def)
qed

lemma all_zombies_view:
  "c \<in> dom (channel_at s) \<Longrightarrow>
     channel_all_zombies s c = Inr (\<not> persist s c \<and> (\<forall>m \<in> set (mem_of s c). IsZombie (membership s m)))"
  by (auto simp: channel_all_zombies_def views)

lemma remove_user_ok:
  assumes ok: "core_ok s" "invites_ok s" and u: "may_join s u" and c: "c \<in> dom (channel_at s)"
  shows "\<exists>s'. remove_user_from_channel u c s = returning s' \<and> (if on_channel s u c then left_state s u c s' else s' = s)"
proof (cases "List.find (\<lambda>m. m_user (membership s m) = u) (mem_of s c)")
  case None
  then have "\<not> on_channel s u c" by (auto simp: on_channel_def find_None_iff)
  moreover have "remove_user_from_channel u c s = returning s"
    using find_member_link_ok [OF ok(1) u c] None by (simp add: remove_user_from_channel_def)
  ultimately show ?thesis by simp
next
  case (Some m)
  then have m: "m \<in> set (mem_of s c)" "m_user (membership s m) = u" by (auto simp: find_Some_iff)
  then have on: "on_channel s u c" by (auto simp: on_channel_def)
  note i = core_okD(1) [OF ok(1)]
  note d = matrix_invD [OF i]
  let ?rest = "filter (\<lambda>m. m_user (membership s m) \<noteq> u) (mem_of s c)"
  have ra: "removeAll m (mem_of s c) = ?rest"
  proof -
    have "(m \<noteq> k) = (m_user (membership s k) \<noteq> u)" if "k \<in> set (mem_of s c)" for k
      using matrix_unique [OF i m(1) that] m(2) by metis
    then show ?thesis unfolding removeAll_filter_not_eq by (intro filter_cong) simp_all
  qed
  have oth: "removeAll m (mem_of s x) = mem_of s x" if "x \<noteq> c" for x
    using d(3) [of m x] d(3) [OF m(1)] that by (intro removeAll_id) blast
  obtain s1 where s1: "remove_member_from_channel m s = returning (s1, ?rest \<noteq> [])" "core_ok s1" "invites_ok s1" "fixed s1 = fixed s"
    "mem_of s1 = (\<lambda>x. removeAll m (mem_of s x))" "chan_of s1 = (\<lambda>x. removeAll m (chan_of s x))"
    "dom (channel_at s1) = dom (channel_at s) - (if ?rest = [] \<and> \<not> persist s c then {c} else {})"
    using remove_member_ok [OF ok m(1)] unfolding ra by blast
  note f = fixed_eq [OF s1(4)]
  have m1: "mem_of s1 = (mem_of s)(c := ?rest)" using s1(5) ra oth by (simp add: fun_eq_iff)
  have ch1: "chan_of s1 = (\<lambda>v. filter (\<lambda>k. k \<notin> set (mem_of s c) \<or> k \<in> set ?rest) (chan_of s v))"
  proof -
    have "(m \<noteq> k) = (k \<notin> set (mem_of s c) \<or> k \<in> set ?rest)" for k
      using matrix_unique [OF i m(1), of k] m by (cases "k = m") auto
    then show ?thesis unfolding s1(6) removeAll_filter_not_eq by simp
  qed
  have run: "remove_user_from_channel u c s = (if ?rest \<noteq> [] then
      run_bind (Some (channel_all_zombies s1 c)) (\<lambda>z. if z then remove_all_members c s1 else returning s1) else returning s1)"
    using find_member_link_ok [OF ok(1) u c] Some s1(1)
    by (simp add: remove_user_from_channel_def returning_def)
  show ?thesis
  proof (cases "?rest = [] \<or> persist s c \<or> (\<exists>k \<in> set ?rest. \<not> IsZombie (membership s k))")
    case True
    then have st: "staying s u c = ?rest" by (auto simp: staying_def Let_def)
    have "channel_all_zombies s1 c = Inr False" if "?rest \<noteq> []"
      using True that all_zombies_view [of c s1] s1(7) c m1 f(1,6) by auto
    then have "remove_user_from_channel u c s = returning s1" using run by auto
    moreover have "left_state s u c s1" using s1(2-4,7) m1 ch1 by (simp add: left_state_def st)
    ultimately show ?thesis using on by simp
  next
    case False
    then have st: "staying s u c = []" by (simp add: staying_def)
    have ne: "?rest \<noteq> []" "\<not> persist s c" using False by auto
    have z: "channel_all_zombies s1 c = Inr True"
      using False all_zombies_view [of c s1] s1(7) c m1 f(1,6) by auto
    obtain s' where s': "remove_all_members c s1 = returning s'" "core_ok s'" "invites_ok s'" "fixed s' = fixed s1"
      "mem_of s' = (mem_of s1)(c := [])" "chan_of s' = (\<lambda>u. filter (\<lambda>m. m \<notin> set (mem_of s1 c)) (chan_of s1 u))"
      "dom (channel_at s') = dom (channel_at s1) - {c}"
      using remove_all_members_ok [OF s1(2,3)] ne m1 f(6) by (metis fun_upd_same)
    have "remove_user_from_channel u c s = returning s'" using run ne(1) z s'(1) by simp
    moreover have "chan_of s' = (\<lambda>v. filter (\<lambda>m. m \<notin> set (mem_of s c)) (chan_of s v))"
      unfolding s'(6) ch1 m1 by (auto simp: fun_eq_iff intro!: filter_cong)
    then have "left_state s u c s'" using s'(2-5,7) s1(4,7) m1 ne by (simp add: left_state_def st)
    ultimately show ?thesis using on by simp
  qed
qed

text \<open>A user quits: the user leaves every channel.\<close>

lemma staying_cong:
  "fixed s1 = fixed s \<Longrightarrow> mem_of s1 c = mem_of s c \<Longrightarrow> staying s1 u c = staying s u c"
  "fixed s1 = fixed s \<Longrightarrow> mem_of s1 c = mem_of s c \<Longrightarrow> on_channel s1 u c = on_channel s u c"
  using fixed_eq [of s1 s] by (simp_all add: staying_def on_channel_def)

lemma staying_left: "m \<in> set (staying s u c) \<Longrightarrow> m \<in> set (mem_of s c) \<and> m_user (membership s m) \<noteq> u"
  by (auto simp: staying_def Let_def split: if_splits)

lemma remove_user_from_all_ok:
  assumes "core_ok s" "invites_ok s" "zombies_ok s" "may_join s u"
  shows "\<exists>s'. remove_user_from_all_channels u s = returning s' \<and> core_ok s' \<and> invites_ok s' \<and> zombies_ok s' \<and> fixed s' = fixed s
    \<and> mem_of s' = (\<lambda>c. if on_channel s u c then staying s u c else mem_of s c) \<and> chan_of s' u = []"
  using assms
proof (induction "length (chan_of s u)" arbitrary: s rule: less_induct)
  case less
  note i = core_okD(1) [OF less.prems(1)]
  note d = matrix_invD [OF i]
  obtain us where us: "cli_user s u = Some us" using less.prems(4) by (auto simp: may_join_def)
  then have v: "chan_of s u = u_channel us" by (simp add: chan_of_def)
  show ?case
  proof (cases "u_channel us")
    case Nil
    then have "remove_user_from_all_channels u s = returning s"
      using us by (subst remove_user_from_all_channels.simps) (simp add: the_user_def returning_def)
    moreover have "\<not> on_channel s u c" for c
    proof
      assume "on_channel s u c"
      then obtain m where "m \<in> set (mem_of s c)" "m_user (membership s m) = u" by (auto simp: on_channel_def)
      then show False using d(3) [of m c] Nil v by simp
    qed
    ultimately show ?thesis using less.prems Nil v by simp
  next
    case (Cons m ms)
    let ?c = "m_channel (membership s m)"
    have m: "m \<in> set (chan_of s u)" using Cons v by simp
    note dm = d(4) [OF m]
    then have on: "on_channel s u ?c" by (auto simp: on_channel_def)
    have c: "?c \<in> dom (channel_at s)" using dm by (cases "channel_at s ?c") (auto simp: mem_of_def)
    obtain s1 where s1: "remove_user_from_channel u ?c s = returning s1" "left_state s u ?c s1"
      using remove_user_ok [OF less.prems(1,2,4) c] on by auto
    then have l: "core_ok s1" "invites_ok s1" "fixed s1 = fixed s" "mem_of s1 = (mem_of s)(?c := staying s u ?c)"
      "chan_of s1 = (\<lambda>v. filter (\<lambda>k. k \<notin> set (mem_of s ?c) \<or> k \<in> set (staying s u ?c)) (chan_of s v))"
      by (simp_all add: left_state_def)
    have shorter: "length (chan_of s1 u) < length (chan_of s u)"
      unfolding l(5) using m dm staying_left [of m s u ?c] by (intro length_filter_less [of m]) auto
    have z: "zombies_ok s1" using left_zombies [OF s1(2)] less.prems(3) by (simp add: zombies_ok_at)
    have mj: "may_join s1 u" using less.prems(4) fixed_eq [OF l(3)] by (simp add: may_join_def)
    obtain s' where s': "remove_user_from_all_channels u s1 = returning s'" "core_ok s'" "invites_ok s'" "zombies_ok s'" "fixed s' = fixed s1"
      "mem_of s' = (\<lambda>c. if on_channel s1 u c then staying s1 u c else mem_of s1 c)" "chan_of s' u = []"
      using less.hyps [OF shorter l(1,2) z mj] by blast
    have "remove_user_from_all_channels u s = returning s'"
      using us Cons s1(1) s'(1) by (subst remove_user_from_all_channels.simps) (simp add: the_user_def returning_def)
    moreover have "\<not> on_channel s1 u ?c" using staying_left [of _ s u ?c] fixed_eq(1) [OF l(3)] l(4) by (auto simp: on_channel_def)
    then have "mem_of s' = (\<lambda>c. if on_channel s u c then staying s u c else mem_of s c)"
      using on l(4) staying_cong [OF l(3)] unfolding s'(6) by (auto simp: fun_eq_iff)
    ultimately show ?thesis using s'(2-5,7) l(3) by (intro exI [of _ s']) simp
  qed
qed

section \<open>Joining, creating, inviting\<close>

lemma add_user_ok:
  assumes ok: "core_ok s" "invites_ok s" and u: "u \<in> dom (cli_user s)" and c: "c \<in> dom (channel_at s)" "\<not> on_channel s u c"
    and room: "Suc (next_member s) < 2 ^ 32"
  shows "\<exists>s' m. add_user_to_channel c u f s = Inr s' \<and> core_ok s' \<and> invites_ok s'
    \<and> mem_of s' = (mem_of s)(c := m # mem_of s c) \<and> chan_of s' = (chan_of s)(u := m # chan_of s u)
    \<and> membership s' = (membership s)(m := \<lparr>m_user = u, m_channel = c, m_status = f\<rparr>) \<and> persist s' = persist s
    \<and> dom (channel_at s') = dom (channel_at s) \<and> clients s' = clients s \<and> dom (cli_user s') = dom (cli_user s) \<and> me s' = me s
    \<and> (\<forall>x. m \<notin> set (mem_of s x))"
proof -
  note d = core_okD [OF ok(1)]
  obtain ch where ch: "channel_at s c = Some ch" using c(1) by blast
  obtain us where us: "cli_user s u = Some us" using u by blast
  have v: "mem_of s c = ch_members ch" "chan_of s u = u_channel us" using ch us by (simp_all add: views)
  obtain m s1 where al: "alloc_member s = (m, s1)" by fastforce
  then have s1: "channel_at s1 = channel_at s" "cli_user s1 = cli_user s" "membership s1 = membership s" "clients s1 = clients s"
    "GlobalChannelList s1 = GlobalChannelList s" "UserStats_channels s1 = UserStats_channels s" "channelTable s1 = channelTable s"
    "crc32hash s1 = crc32hash s" "next_channel s1 = next_channel s" "me s1 = me s"
    and fr: "membershipFreeList s = m # membershipFreeList s1 \<and> next_member s1 = next_member s
       \<or> m = next_member s \<and> next_member s1 = Suc (next_member s) \<and> membershipFreeList s1 = membershipFreeList s"
    by (auto simp: alloc_member_def split: list.splits)
  let ?us = "us\<lparr>u_channel := m # u_channel us, joined := joined us + 1\<rparr>"
  let ?ch = "ch\<lparr>ch_members := m # ch_members ch, ch_users := ch_users ch + 1\<rparr>"
  let ?s = "set_user u ?us (set_channel c ?ch (s1\<lparr>membership := (membership s1)(m := \<lparr>m_user = u, m_channel = c, m_status = f\<rparr>)\<rparr>))"
  have run: "add_user_to_channel c u f s = Inr ?s" using ch us al by (simp add: add_user_to_channel_def)
  have vw: "mem_of ?s = (mem_of s)(c := m # mem_of s c)" "chan_of ?s = (chan_of s)(u := m # chan_of s u)"
    "inv_of ?s = inv_of s" "invd_of ?s = invd_of s" "name_of ?s = name_of s" "persist ?s = persist s"
    using ch us s1 by (auto simp: views fun_eq_iff set_user_def set_channel_def)
  have "\<forall>x \<in> set (chan_of s u). m_channel (membership s x) \<noteq> c"
    using c(2) matrix_invD(4) [OF d(1)] by (auto simp: on_channel_def)
  then have "matrix_inv (mem_of ?s) (chan_of ?s) (membership ?s) (membershipFreeList ?s) (next_member ?s)"
    using matrix_add [OF d(1) _ fr] vw(1,2) s1(3) by simp
  then have "matrix_ok ?s" using fr d(2) room by (auto simp: matrix_ok_def)
  moreover have "channels_ok ?s" using d(4) ch vw(5) s1 by (auto simp: channels_ok_def insert_absorb domI)
  moreover have "counts_ok ?s" using d(5) ch us s1 counts_butD [OF d(5)] by (auto simp: counts_but_def)
  ultimately have "core_ok ?s" by (simp add: core_ok_def)
  moreover have "invites_ok ?s" using ok(2) us s1 vw(3,4) by (auto simp: invites_ok_def split: if_splits)
  moreover have "m \<notin> set (mem_of s x)" for x using fr matrix_invD(3) [OF d(1), of m x] by auto
  moreover have "dom (channel_at ?s) = dom (channel_at s)" "clients ?s = clients s" "dom (cli_user ?s) = dom (cli_user s)" "me ?s = me s"
    "membership ?s = (membership s)(m := \<lparr>m_user = u, m_channel = c, m_status = f\<rparr>)"
    using s1 ch us by auto
  ultimately show ?thesis using run vw(1,2,6) by blast
qed

lemma views_table [simp]:
  "mem_of (s\<lparr>channelTable := t\<rparr>) = mem_of s" "chan_of (s\<lparr>channelTable := t\<rparr>) = chan_of s" "inv_of (s\<lparr>channelTable := t\<rparr>) = inv_of s"
  "invd_of (s\<lparr>channelTable := t\<rparr>) = invd_of s" "name_of (s\<lparr>channelTable := t\<rparr>) = name_of s" "persist (s\<lparr>channelTable := t\<rparr>) = persist s"
  "links (s\<lparr>channelTable := t\<rparr>) = links s" "counts_but C (s\<lparr>channelTable := t\<rparr>) = counts_but C s"
  by (auto simp: views fun_eq_iff links_def counts_but_def)

lemma channels_ok_table:
  "channels_ok s \<Longrightarrow> table_inv (crc32hash s) (name_of s) t \<Longrightarrow> members t = members (channelTable s) \<Longrightarrow> channels_ok (s\<lparr>channelTable := t\<rparr>)"
  by (simp add: channels_ok_def)

lemma SetAutoChanModes_keeps:
  assumes "SetAutoChanModes feat ch = Inr ch'"
  shows "ch_name ch' = ch_name ch" "ch_users ch' = ch_users ch" "ch_members ch' = ch_members ch" "ch_invites ch' = ch_invites ch"
    "creationtime ch' = creationtime ch"
  using assms by (auto simp: SetAutoChanModes_def res_bind_Inr_iff split: if_splits option.splits)

lemma new_channel_ok:
  assumes ok: "channels_ok s" "counts_ok s" "invites_ok s" and n: "chname \<noteq> []" "cstring chname" "\<forall>c \<in> dom (channel_at s). lower (name_of s c) \<noteq> lower chname"
    and run: "new_channel feat now u chname s = Inr (s', r)"
  shows "\<exists>c. r = Some c \<and> c \<notin> dom (channel_at s) \<and> dom (channel_at s') = insert c (dom (channel_at s)) \<and> name_of s' c = chname
    \<and> channels_ok s' \<and> counts_ok s' \<and> invites_ok s' \<and> links s' = links s \<and> (\<forall>x \<noteq> c. persist s' x = persist s x)"
proof -
  let ?c = "next_channel s"
  have fresh: "channel_at s ?c = None" using ok(1) by (fastforce simp: channels_ok_def)
  let ?ch0 = "\<lparr>ch_name = chname, creationtime = if MyUser s u then now else 0, last_message = 0, ch_users = 0, ch_members = [],
    ch_invites = [], ch_mode = 0, ch_marker = 0, ch_banlist = [], ch_exceptlist = [], ch_limit = 0, ch_key = [], ch_redirect = []\<rparr>"
  obtain ch1 where ch1: "(if feat_AUTOCHANMODES feat \<and> (case feat_AUTOCHANMODES_LIST feat of None \<Rightarrow> False | Some l \<Rightarrow> l \<noteq> []) \<and> MyUser s u
      then SetAutoChanModes feat ?ch0 else Inr ?ch0) = Inr ch1"
    using run unfolding new_channel_def Let_def res_bind_Inr_iff by blast
  define ch where "ch = (if feat_SET_ACTIVE_ON_CREATE feat \<and> \<not> IsService (clients s u) then ch1\<lparr>last_message := creationtime ch1\<rparr> else ch1)"
  have ch: "ch_name ch = chname" "ch_users ch = 0" "ch_members ch = []" "ch_invites ch = []"
    using ch1 SetAutoChanModes_keeps [of feat ?ch0 ch1] by (auto simp: ch_def split: if_splits)
  have r: "let s1 = set_channel ?c ch s\<lparr>next_channel := Suc ?c, UserStats_channels := UserStats_channels s + 1,
             GlobalChannelList := ?c # GlobalChannelList s\<rparr>
         in res_bind (hAddChannel (crc32hash s1) (name_of s1) (channelTable s1) ?c) (\<lambda>table.
              Inr (s1\<lparr>channelTable := table\<rparr>, Some ?c)) = Inr (s', r)"
    using run ch1 by (simp add: new_channel_def Let_def ch_def)
  let ?s1 = "set_channel ?c ch s\<lparr>next_channel := Suc ?c, UserStats_channels := UserStats_channels s + 1, GlobalChannelList := ?c # GlobalChannelList s\<rparr>"
  have v: "mem_of ?s1 = mem_of s" "chan_of ?s1 = chan_of s" "inv_of ?s1 = inv_of s" "invd_of ?s1 = invd_of s"
    "name_of ?s1 = (name_of s)(?c := chname)" "\<forall>x \<noteq> ?c. persist ?s1 x = persist s x"
    using ch fresh by (auto simp: views fun_eq_iff set_channel_def)
  have mem: "members (channelTable s) = dom (channel_at s)" "?c \<notin> dom (channel_at s)" using ok(1) fresh by (auto simp: channels_ok_def)
  have t: "table_inv (crc32hash s) (name_of ?s1) (channelTable s)" "?c \<notin> members (channelTable s)" "name_of ?s1 ?c \<noteq> []" "cstring (name_of ?s1 ?c)"
  proof -
    have i: "table_inv (crc32hash s) (name_of s) (channelTable s)" using ok(1) by (simp add: channels_ok_def)
    show "table_inv (crc32hash s) (name_of ?s1) (channelTable s)" by (rule table_inv_cong [OF i]) (use mem v(5) in auto)
  qed (use v(5) n mem in simp_all)
  obtain t' where t': "hAddChannel (crc32hash s) (name_of ?s1) (channelTable s) ?c = Inr t'" "table_inv (crc32hash s) (name_of ?s1) t'"
    "members t' = insert ?c (members (channelTable s))"
    using channels.add_law [OF t] by blast
  have s': "s' = ?s1\<lparr>channelTable := t'\<rparr>" "r = Some ?c" using r t'(1) by (simp_all add: Let_def)
  have "channels_ok s'" unfolding channels_ok_def s'(1)
  proof (intro conjI)
    show "table_inv (crc32hash (?s1\<lparr>channelTable := t'\<rparr>)) (name_of (?s1\<lparr>channelTable := t'\<rparr>)) (channelTable (?s1\<lparr>channelTable := t'\<rparr>))"
      "members (channelTable (?s1\<lparr>channelTable := t'\<rparr>)) = dom (channel_at (?s1\<lparr>channelTable := t'\<rparr>))"
      using t' mem by simp_all
    show "inj_on (\<lambda>c. lower (name_of (?s1\<lparr>channelTable := t'\<rparr>) c)) (dom (channel_at (?s1\<lparr>channelTable := t'\<rparr>)))"
      using ok(1) n(3) mem(2) unfolding views_table v(5) by (auto simp: channels_ok_def inj_on_def)
    show "\<forall>c \<in> dom (channel_at (?s1\<lparr>channelTable := t'\<rparr>)). c < next_channel (?s1\<lparr>channelTable := t'\<rparr>) \<and> name_of (?s1\<lparr>channelTable := t'\<rparr>) c \<noteq> []"
    proof -
      have "\<forall>c \<in> dom (channel_at s). c < next_channel s \<and> name_of s c \<noteq> []" using ok(1) by (simp add: channels_ok_def)
      then have "\<forall>c \<in> dom (channel_at s). c < Suc (next_channel s) \<and> name_of s c \<noteq> []" by (simp add: less_SucI)
      then show ?thesis using n(1) unfolding views_table v(5) by simp
    qed
  qed (use ok(1) mem(2) in \<open>auto simp: channels_ok_def\<close>)
  moreover have "counts_ok s'" using ok(2) ch by (auto simp: s' counts_but_def)
  moreover have "invites_ok s'" using ok(3) v by (auto simp: s' invites_ok_def)
  moreover have "links s' = links s" using v by (simp add: s' links_def)
  moreover have "\<forall>x \<noteq> ?c. persist s' x = persist s x" using v(6) by (simp add: s')
  moreover have "name_of s' ?c = chname" using v(5) by (simp add: s')
  moreover have "dom (channel_at s') = insert ?c (dom (channel_at s))" by (simp add: s')
  ultimately show ?thesis using s'(2) mem(2) by blast
qed

text \<open>A lookup finds the channel of that name, up to case, or, when asked to, creates it.\<close>

definition chan_inv :: "chans \<Rightarrow> bool" where
  "chan_inv s \<longleftrightarrow> core_ok s \<and> invites_ok s \<and> zombies_ok s \<and> (\<forall>c. \<forall>m \<in> set (mem_of s c). may_join s (m_user (membership s m)))"

lemma chan_invD:
  assumes "chan_inv s"
  shows "core_ok s" "invites_ok s" "zombies_ok s" "m \<in> set (mem_of s c) \<Longrightarrow> may_join s (m_user (membership s m))"
  using assms by (simp_all add: chan_inv_def)

lemma cut_name_props:
  assumes "cut_name feat mine n = Inr n'" "n \<noteq> []" "cstring n"
  shows "n' \<noteq> []" "cstring n'" "length n' \<le> length n"
  using assms by (auto simp: cut_name_def CHANNELLEN_def cstring_take split: if_splits)

lemma get_channel_ok:
  assumes ok: "chan_inv s" and n: "cstring chname" and run: "get_channel feat now u chname flag s = Inr (s', r)"
  shows "chan_inv s' \<and> links s' = links s \<and> (case r of
      None \<Rightarrow> dom (channel_at s') = dom (channel_at s) \<and> (chname = [] \<or> flag = CGT_NO_CREATE)
    | Some c \<Rightarrow> c \<in> dom (channel_at s') \<and> (\<exists>n. cut_name feat (MyUser s u) chname = Inr n \<and> lower (name_of s' c) = lower n)
        \<and> dom (channel_at s') = insert c (dom (channel_at s)) \<and> (c \<in> dom (channel_at s) \<or> flag = CGT_CREATE))"
proof (cases "chname = []")
  case True
  then show ?thesis using ok run by (simp add: get_channel_def)
next
  case False
  note d = core_okD [OF chan_invD(1) [OF ok]]
  obtain n' where n': "cut_name feat (MyUser s u) chname = Inr n'" using run False by (auto simp: get_channel_def res_bind_Inr_iff)
  note np = cut_name_props [OF n' False n]
  have ti: "table_inv (crc32hash s) (name_of s) (channelTable s)" "members (channelTable s) = dom (channel_at s)"
    using d(4) by (simp_all add: channels_ok_def)
  obtain t f where t: "hSeekChannel (crc32hash s) (name_of s) (channelTable s) n' = Inr (t, f)"
    "table_inv (crc32hash s) (name_of s) t" "members t = members (channelTable s)"
    and f: "case f of None \<Rightarrow> \<forall>e \<in> members (channelTable s). True \<longrightarrow> lower (name_of s e) \<noteq> lower n'
           | Some e \<Rightarrow> e \<in> members (channelTable s) \<and> True \<and> lower (name_of s e) = lower n'"
    using channels.seek_law [OF ti(1) np(1,2)] by blast
  let ?s1 = "s\<lparr>channelTable := t\<rparr>"
  have ok1: "channels_ok ?s1" "counts_ok ?s1" "invites_ok ?s1" "zombies_ok ?s1" "matrix_ok ?s1"
    using channels_ok_table [OF d(4) t(2,3)] d(3,5) ok by (simp_all add: chan_inv_def invites_ok_def zombies_ok_def matrix_ok_def)
  have inv1: "chan_inv ?s1" using ok1 ok by (simp add: chan_inv_def core_ok_def may_join_def)
  show ?thesis
  proof (cases f)
    case (Some c)
    then have "s' = ?s1" "r = Some c" using run False n' t(1) by (simp_all add: get_channel_def)
    then show ?thesis using inv1 f Some n' ti(2) by auto
  next
    case None
    show ?thesis
    proof (cases "flag = CGT_CREATE")
      case True
      then have nc: "new_channel feat now u n' ?s1 = Inr (s', r)" using run False n' t(1) None by (simp add: get_channel_def)
      have fr: "\<forall>c \<in> dom (channel_at ?s1). lower (name_of ?s1 c) \<noteq> lower n'" using f None ti(2) by simp
      obtain c where c: "r = Some c" "c \<notin> dom (channel_at s)" "dom (channel_at s') = insert c (dom (channel_at s))" "name_of s' c = n'"
        "channels_ok s'" "counts_ok s'" "invites_ok s'" "links s' = links s" "\<forall>x \<noteq> c. persist s' x = persist s x"
        using new_channel_ok [OF ok1(1-3) np(1,2) fr nc] by auto
      have e: "mem_of s c = []" using c(2) by (auto simp: mem_of_def split: option.splits)
      have l: "mem_of s' = mem_of s" "membership s' = membership s" "clients s' = clients s" "dom (cli_user s') = dom (cli_user s)"
        using c(8) by (simp_all add: links_def)
      have "zombies_at s' x" for x
        using chan_invD(3) [OF ok] c(9) e l by (cases "x = c") (auto simp: zombies_ok_at zombies_at_def)
      then have "chan_inv s'" using ok c(5-7) links_matrix [OF c(8)] l
        by (simp add: chan_inv_def core_ok_def zombies_ok_at may_join_def)
      then show ?thesis using c n' True by simp
    next
      case False
      then have "s' = ?s1" "r = None" using run \<open>chname \<noteq> []\<close> n' t(1) None by (simp_all add: get_channel_def)
      then show ?thesis using inv1 False by (cases flag) simp_all
    qed
  qed
qed

text \<open>Inviting a user to a channel, at most \<open>MAXCHANNELSPERUSER\<close> at a time.\<close>

lemma add_invite_ok:
  assumes i: "invites_ok s" and c: "c \<in> dom (channel_at s)" and u: "u \<in> dom (cli_user s)"
    and lim: "feat_MAXCHANNELSPERUSER feat \<noteq> 0"
  shows "\<exists>s'. add_invite feat u c s = Inr s' \<and> invites_ok s' \<and> uninvited s' = uninvited s
    \<and> c \<in> set (invd_of s' u)
    \<and> (length (invd_of s u) \<le> unat (feat_MAXCHANNELSPERUSER feat) \<longrightarrow> length (invd_of s' u) \<le> unat (feat_MAXCHANNELSPERUSER feat))
    \<and> (\<forall>v. v \<noteq> u \<longrightarrow> invd_of s' v = invd_of s v)"
proof -
  let ?max = "feat_MAXCHANNELSPERUSER feat"
  obtain s1 where s1: "del_invite u c s = Inr s1" "invites_ok s1" "uninvited s1 = uninvited s"
    "invd_of s1 = (invd_of s)(u := remove1 c (invd_of s u))"
    using del_invite_ok [OF i] c u by blast
  have dom1: "dom (channel_at s1) = dom (channel_at s)" "dom (cli_user s1) = dom (cli_user s)" using uninvited_eq [OF s1(3)] by simp_all
  obtain us1 where us1: "cli_user s1 u = Some us1" using u dom1(2) by blast
  have inv1: "invd_of s1 u = u_invited us1" using us1 by (simp add: invd_of_def)
  have c1: "c \<notin> set (invd_of s1 u)" using s1(4) invites_okD(2) [OF i, of u] by simp
  have "u_invited us1 = remove1 c (invd_of s u)" using inv1 s1(4) by simp
  then have len1: "length (u_invited us1) \<le> length (invd_of s u)" by (auto simp: length_remove1)
  have cnt1: "u_invites us1 = of_nat (length (u_invited us1))" by (rule invites_okD(4) [OF s1(2) us1])
  have full: "length (u_invited us1) < unat ?max"
    if "length (u_invited us1) \<le> unat ?max" "\<not> ?max \<le> u_invites us1"
    using that cnt1 unat_u32_less [of ?max] by (simp add: word_le_nat_alt unat_of_nat)
  have "\<exists>s2. (if ?max \<le> u_invites us1 then (case u_invited us1 of [] \<Rightarrow> Inl NullDeref | c # cs \<Rightarrow> del_invite u c s1) else Inr s1) = Inr s2
      \<and> invites_ok s2 \<and> uninvited s2 = uninvited s1 \<and> (\<forall>v. v \<noteq> u \<longrightarrow> invd_of s2 v = invd_of s1 v)
      \<and> set (invd_of s2 u) \<subseteq> set (invd_of s1 u) \<and> (length (u_invited us1) \<le> unat ?max \<longrightarrow> length (invd_of s2 u) < unat ?max)"
  proof (cases "?max \<le> u_invites us1")
    case True
    then obtain c' cs where cs: "u_invited us1 = c' # cs" using cnt1 lim by (cases "u_invited us1") (auto simp: word_le_nat_alt unat_eq_0)
    then have "u \<in> set (inv_of s1 c')" using invites_okD(3) [OF s1(2)] inv1 by simp
    then obtain ch' where "channel_at s1 c' = Some ch'" by (cases "channel_at s1 c'") (auto simp: inv_of_def)
    then obtain s2 where s2: "del_invite u c' s1 = Inr s2" "invites_ok s2" "uninvited s2 = uninvited s1"
      "invd_of s2 = (invd_of s1)(u := remove1 c' (invd_of s1 u))"
      using del_invite_ok [OF s1(2) _ us1] by blast
    moreover have "remove1 c' (invd_of s1 u) = cs" using cs inv1 by simp
    ultimately show ?thesis using True cs inv1 by auto
  next
    case False
    then show ?thesis using s1 inv1 full by simp
  qed
  then obtain s2 where s2: "(if ?max \<le> u_invites us1 then (case u_invited us1 of [] \<Rightarrow> Inl NullDeref | c # cs \<Rightarrow> del_invite u c s1) else Inr s1) = Inr s2"
    "invites_ok s2" "uninvited s2 = uninvited s1" "\<forall>v. v \<noteq> u \<longrightarrow> invd_of s2 v = invd_of s1 v"
    "set (invd_of s2 u) \<subseteq> set (invd_of s1 u)" "length (u_invited us1) \<le> unat ?max \<longrightarrow> length (invd_of s2 u) < unat ?max" by blast
  have dom2: "dom (channel_at s2) = dom (channel_at s1)" "dom (cli_user s2) = dom (cli_user s1)" using uninvited_eq [OF s2(3)] by simp_all
  obtain ch where ch: "channel_at s2 c = Some ch" using c dom1 dom2 by blast
  obtain us2 where us2: "cli_user s2 u = Some us2" using u dom1 dom2 by blast
  have v2: "inv_of s2 c = ch_invites ch" "invd_of s2 u = u_invited us2" using ch us2 by (simp_all add: views)
  have new: "c \<notin> set (u_invited us2)" "u \<notin> set (ch_invites ch)"
    using c1 s2(5) v2 invites_okD(3) [OF s2(2), of u c] by auto
  let ?us = "us2\<lparr>u_invited := u_invited us2 @ [c], u_invites := u_invites us2 + 1\<rparr>"
  let ?s = "set_user u ?us (set_channel c (ch\<lparr>ch_invites := u # ch_invites ch\<rparr>) s2)"
  have "add_invite feat u c s = Inr ?s"
    using s1(1) us1 cnt1 s2(1) ch us2 by (simp add: add_invite_def Let_def)
  moreover have "invites_ok ?s"
  proof (rule invites_okI [OF s2(2)])
    show "distinct (u # ch_invites ch)" "distinct (u_invited us2 @ [c])"
      using invites_okD(1) [OF s2(2), of c] invites_okD(2) [OF s2(2), of u] v2 new by simp_all
    show "set (u # ch_invites ch) - {u} = set (inv_of s2 c) - {u}" "set (u_invited us2 @ [c]) - {c} = set (invd_of s2 u) - {c}"
      using v2 by auto
    show "u_invites ?us = of_nat (length (u_invited ?us))" using invites_okD(4) [OF s2(2) us2] by simp
  qed simp_all
  moreover have "uninvited ?s = uninvited s"
    using uninvited_set_user [of _ u us2] uninvited_set_channel [OF ch] us2 s1(3) s2(3) by simp
  moreover have "invd_of ?s u = u_invited us2 @ [c]" "\<forall>v. v \<noteq> u \<longrightarrow> invd_of ?s v = invd_of s v" using s2(4) s1(4) by simp_all
  ultimately show ?thesis using s2(6) v2(2) len1 by (intro exI [of _ ?s]) auto
qed

section \<open>Kicks\<close>

lemma matrix_status:
  "(\<And>k. m_user (M' k) = m_user (M k) \<and> m_channel (M' k) = m_channel (M k)) \<Longrightarrow>
     matrix_inv mem chs M' free nxt = matrix_inv mem chs M free nxt"
  by (simp add: matrix_inv_def)

text \<open>Every chain of uplinks ends at this server.\<close>

definition up_chain :: "chans \<Rightarrow> client \<Rightarrow> bool" where
  "up_chain s a \<longleftrightarrow> (\<exists>n. ((\<lambda>x. cc_up (clients s x)) ^^ n) a = me s)"

text \<open>
  The server \<open>goal\<close> is \<open>a\<close> itself or one of the servers that follow on the chain of uplinks from \<open>a\<close>
  before this server: messages of \<open>a\<close> come through \<open>goal\<close>.
\<close>

definition comes_through :: "chans \<Rightarrow> client \<Rightarrow> client \<Rightarrow> bool" where
  "comes_through s goal a \<longleftrightarrow>
     (\<exists>n. ((\<lambda>x. cc_up (clients s x)) ^^ n) a = goal \<and> (\<forall>i \<le> n. ((\<lambda>x. cc_up (clients s x)) ^^ i) a \<noteq> me s))"

lemma comes_through_step:
  "comes_through s goal a \<longleftrightarrow> a \<noteq> me s \<and> (a = goal \<or> comes_through s goal (cc_up (clients s a)))"
proof -
  let ?up = "\<lambda>x. cc_up (clients s x)"
  have up: "(?up ^^ Suc i) a = (?up ^^ i) (cc_up (clients s a))" for i by (simp add: funpow_Suc_right del: funpow.simps)
  have all: "(\<forall>i \<le> Suc n. (?up ^^ i) a \<noteq> me s) \<longleftrightarrow> a \<noteq> me s \<and> (\<forall>i \<le> n. (?up ^^ i) (cc_up (clients s a)) \<noteq> me s)" for n
    unfolding up [symmetric] by (metis Suc_le_mono funpow_0 not0_implies_Suc zero_le)
  show ?thesis (is "_ \<longleftrightarrow> ?r")
  proof
    assume "comes_through s goal a"
    then obtain n where n: "(?up ^^ n) a = goal" "\<forall>i \<le> n. (?up ^^ i) a \<noteq> me s" by (auto simp: comes_through_def)
    show ?r
    proof (cases n)
      case 0
      then show ?thesis using n by simp
    next
      case (Suc k)
      then show ?thesis using n all [of k] up [of k] by (auto simp: comes_through_def)
    qed
  next
    assume r: ?r
    show "comes_through s goal a"
    proof (cases "a = goal")
      case True
      then show ?thesis using r unfolding comes_through_def by (intro exI [of _ 0]) simp
    next
      case False
      then obtain n where "(?up ^^ n) (cc_up (clients s a)) = goal" "\<forall>i \<le> n. (?up ^^ i) (cc_up (clients s a)) \<noteq> me s"
        using r by (auto simp: comes_through_def)
      then show ?thesis using r all [of n] up [of n] unfolding comes_through_def by (intro exI [of _ "Suc n"]) simp
    qed
  qed
qed

lemma on_path_correct:
  assumes "up_chain s a"
  shows "on_path (\<lambda>x. cc_up (clients s x)) (me s) goal a = Some (comes_through s goal a)"
proof -
  obtain n where "((\<lambda>x. cc_up (clients s x)) ^^ n) a = me s" using assms by (auto simp: up_chain_def)
  then show ?thesis
  proof (induction n arbitrary: a)
    case 0
    then show ?case using comes_through_step [of s goal "me s"] by (subst on_path.simps) simp
  next
    case (Suc n)
    have "((\<lambda>x. cc_up (clients s x)) ^^ n) (cc_up (clients s a)) = me s"
      using Suc.prems by (simp add: funpow_Suc_right del: funpow.simps)
    then show ?case using Suc.IH by (subst on_path.simps) (simp add: comes_through_step [of s goal a])
  qed
qed

text \<open>Whether the kick removes the user at once, rather than leave a zombie.\<close>

definition kick_removes :: "client \<Rightarrow> client \<Rightarrow> client \<Rightarrow> chans \<Rightarrow> bool" where
  "kick_removes who cptr sptr s \<longleftrightarrow> MyUser s who
     \<or> cc_from (clients s who) = cptr
         \<and> (\<exists>us. cli_user s who = Some us \<and> comes_through s (u_server us)
               (if IsServer (clients s sptr) then sptr else case cli_user s sptr of Some su \<Rightarrow> u_server su | None \<Rightarrow> me s))"

definition source_ok :: "chans \<Rightarrow> client \<Rightarrow> bool" where
  "source_ok s sptr \<longleftrightarrow> (if IsServer (clients s sptr) then up_chain s sptr
     else case cli_user s sptr of None \<Rightarrow> False | Some us \<Rightarrow> up_chain s (u_server us))"

definition zombified :: "member \<Rightarrow> chans \<Rightarrow> chans" where
  "zombified m s = s\<lparr>membership := (membership s)(m := SetZombie (membership s m))\<rparr>"

lemma zombified_views [simp]:
  "mem_of (zombified m s) = mem_of s" "chan_of (zombified m s) = chan_of s" "inv_of (zombified m s) = inv_of s"
  "invd_of (zombified m s) = invd_of s" "name_of (zombified m s) = name_of s" "persist (zombified m s) = persist s"
  "counts_but C (zombified m s) = counts_but C s" "clients (zombified m s) = clients s" "me (zombified m s) = me s"
  "cli_user (zombified m s) = cli_user s" "channel_at (zombified m s) = channel_at s" "MyUser (zombified m s) = MyUser s"
  "membership (zombified m s) = (membership s)(m := SetZombie (membership s m))"
  "crc32hash (zombified m s) = crc32hash s" "channelTable (zombified m s) = channelTable s" "next_channel (zombified m s) = next_channel s"
  "GlobalChannelList (zombified m s) = GlobalChannelList s" "UserStats_channels (zombified m s) = UserStats_channels s"
  by (auto simp: zombified_def views fun_eq_iff counts_but_def MyUser_def MyConnect_def)

lemma zombified_ok [simp]:
  "channels_ok (zombified m s) = channels_ok s" "invites_ok (zombified m s) = invites_ok s" "may_join (zombified m s) = may_join s"
  by (simp_all add: channels_ok_def invites_ok_def may_join_def fun_eq_iff)

lemma SetZombie_fields [simp]:
  "m_user (SetZombie x) = m_user x" "m_channel (SetZombie x) = m_channel x" "IsZombie (SetZombie x)"
proof -
  have "(m_status x OR CHFL_ZOMBIE) AND CHFL_ZOMBIE = CHFL_ZOMBIE" by (simp add: bit.conj_disj_distrib2)
  then show "IsZombie (SetZombie x)" by (simp add: IsZombie_def SetZombie_def CHFL_ZOMBIE_def)
qed (simp_all add: SetZombie_def)

lemma zombified_user [simp]:
  "m_user (membership (zombified m s) k) = m_user (membership s k)" "m_channel (membership (zombified m s) k) = m_channel (membership s k)"
  by simp_all

lemma zombified_core: "core_ok (zombified m s) = core_ok s"
proof -
  have "matrix_inv (mem_of s) (chan_of s) (membership (zombified m s)) (membershipFreeList s) (next_member s)
      = matrix_inv (mem_of s) (chan_of s) (membership s) (membershipFreeList s) (next_member s)"
    by (rule matrix_status) simp
  moreover have "membershipFreeList (zombified m s) = membershipFreeList s" "next_member (zombified m s) = next_member s"
    by (simp_all add: zombified_def)
  ultimately show ?thesis by (simp add: core_ok_def matrix_ok_def del: zombified_views(13))
qed

lemma views_parts [simp]:
  "mem_of (s\<lparr>parts_sent := p\<rparr>) = mem_of s" "chan_of (s\<lparr>parts_sent := p\<rparr>) = chan_of s" "inv_of (s\<lparr>parts_sent := p\<rparr>) = inv_of s"
  "invd_of (s\<lparr>parts_sent := p\<rparr>) = invd_of s" "name_of (s\<lparr>parts_sent := p\<rparr>) = name_of s" "persist (s\<lparr>parts_sent := p\<rparr>) = persist s"
  "counts_but C (s\<lparr>parts_sent := p\<rparr>) = counts_but C s"
  by (auto simp: views fun_eq_iff counts_but_def)

lemma parts_ok [simp]:
  "core_ok (s\<lparr>parts_sent := p\<rparr>) = core_ok s" "invites_ok (s\<lparr>parts_sent := p\<rparr>) = invites_ok s" "may_join (s\<lparr>parts_sent := p\<rparr>) = may_join s"
  "fixed (s\<lparr>parts_sent := p\<rparr>) = fixed s" "staying (s\<lparr>parts_sent := p\<rparr>) = staying s" "on_channel (s\<lparr>parts_sent := p\<rparr>) = on_channel s"
  by (auto simp: core_ok_def matrix_ok_def channels_ok_def invites_ok_def may_join_def fixed_def staying_def on_channel_def fun_eq_iff)

lemma staying_zombified:
  assumes "m_user (membership s m) = who"
  shows "staying (zombified m s) who c = staying s who c"
proof -
  have "(\<forall>k \<in> set (filter (\<lambda>k. m_user (membership s k) \<noteq> who) (mem_of s c)). IsZombie (membership (zombified m s) k))
      = (\<forall>k \<in> set (filter (\<lambda>k. m_user (membership s k) \<noteq> who) (mem_of s c)). IsZombie (membership s k))"
    using assms by auto
  then show ?thesis by (simp only: staying_def zombified_views(1,6) zombified_user Let_def)
qed

lemma remove_kicked:
  assumes ok: "chan_inv s" and m: "m \<in> set (mem_of s c)"
    and s1: "core_ok s1" "invites_ok s1" "fixed s1 = fixed (zombified m s)" "mem_of s1 = mem_of s" "dom (channel_at s1) = dom (channel_at s)"
  shows "\<exists>s'. remove_user_from_channel (m_user (membership s m)) c s1 = returning s' \<and> chan_inv s'
    \<and> mem_of s' = (mem_of s)(c := staying s (m_user (membership s m)) c)"
proof -
  let ?who = "m_user (membership s m)"
  note f = fixed_eq [OF s1(3)]
  have mj: "may_join s1 ?who" using chan_invD(4) [OF ok m] f by (simp add: may_join_def)
  have c: "c \<in> dom (channel_at s1)" using m s1(5) by (cases "channel_at s c") (auto simp: mem_of_def)
  have on: "on_channel s1 ?who c" using m f(1) s1(4) by (auto simp: on_channel_def)
  obtain s' where s': "remove_user_from_channel ?who c s1 = returning s'" "left_state s1 ?who c s'"
    using remove_user_ok [OF s1(1,2) mj c] on by auto
  have st: "staying s1 ?who c = staying s ?who c"
    using staying_cong(1) [of s1 "zombified m s" c ?who, OF s1(3)] s1(4) staying_zombified [of s m ?who c] by simp
  then have mem: "mem_of s' = (mem_of s)(c := staying s ?who c)" using s'(2) s1(4) by (simp add: left_state_def)
  have f': "fixed s' = fixed (zombified m s)" using s'(2) s1(3) by (simp add: left_state_def)
  note f2 = fixed_eq [OF f']
  have "zombies_at s' x" for x
  proof (cases "x = c")
    case False
    then have "m \<notin> set (mem_of s x)" using matrix_invD(3) [OF core_okD(1) [OF chan_invD(1) [OF ok]]] m by blast
    then have "zombies_at s1 x \<longleftrightarrow> zombies_at s x" using f s1(4) by (simp add: zombies_at_def) (metis)
    then show ?thesis using left_zombies [OF s'(2)] chan_invD(3) [OF ok] by (simp add: zombies_ok_at)
  qed (simp add: left_zombies [OF s'(2)])
  moreover have "may_join s' (m_user (membership s' k))" if k: "k \<in> set (mem_of s' x)" for k x
  proof -
    have "k \<in> set (mem_of s x)" using k mem staying_left [of k s ?who c] by (auto split: if_splits)
    then have "may_join s (m_user (membership s k))" by (rule chan_invD(4) [OF ok])
    then show ?thesis using f2 by (auto simp: may_join_def)
  qed
  ultimately have "chan_inv s'" using s'(2) by (simp add: chan_inv_def left_state_def zombies_ok_at)
  then show ?thesis using s'(1) mem by blast
qed

lemma zombified_all:
  assumes "matrix_inv (mem_of s) chs (membership s) free nxt" "m \<in> set (mem_of s c)" "m_user (membership s m) = who" "\<not> persist s c"
  shows "(\<forall>k \<in> set (mem_of s c). IsZombie (membership (zombified m s) k)) \<longleftrightarrow> staying s who c = []"
proof -
  let ?rest = "filter (\<lambda>k. m_user (membership s k) \<noteq> who) (mem_of s c)"
  have "m_user (membership s k) \<noteq> who \<longleftrightarrow> k \<noteq> m" if "k \<in> set (mem_of s c)" for k
    using matrix_unique [OF assms(1,2) that] assms(3) by metis
  then have "(\<forall>k \<in> set (mem_of s c). IsZombie (membership (zombified m s) k)) \<longleftrightarrow> (\<forall>k \<in> set ?rest. IsZombie (membership s k))"
    by auto
  also have "\<dots> \<longleftrightarrow> staying s who c = []" using assms(4) by (simp add: staying_def Let_def filter_empty_conv) blast
  finally show ?thesis .
qed

lemma make_zombie_ok:
  assumes ok: "chan_inv s" and m: "m \<in> set (mem_of s c)" "m_user (membership s m) = who" and src: "source_ok s sptr"
  shows "\<exists>s'. make_zombie m who cptr sptr c s = returning s' \<and> chan_inv s'
    \<and> (if kick_removes who cptr sptr s \<or> staying s who c = [] \<and> \<not> persist s c
       then mem_of s' = (mem_of s)(c := staying s who c) else s' = zombified m s)"
proof -
  let ?s1 = "zombified m s"
  have mz: "m_user (membership s m) = who" by (rule m)
  note d = chan_invD [OF ok]
  note i = core_okD(1) [OF d(1)]
  have core: "core_ok ?s1" "invites_ok ?s1" using d by (simp_all add: zombified_core)
  obtain us where us: "cli_user s who = Some us" using d(4) [OF m(1)] m(2) by (auto simp: may_join_def)
  have c: "c \<in> dom (channel_at s)" using m(1) by (cases "channel_at s c") (auto simp: mem_of_def)
  obtain s' where gone: "remove_user_from_channel who c ?s1 = returning s'" "chan_inv s'" "mem_of s' = (mem_of s)(c := staying s who c)"
    using remove_kicked [OF ok m(1) core refl zombified_views(1)] m(2) by auto
  define act where "act = (if IsServer (clients s sptr) then sptr else case cli_user s sptr of Some su \<Rightarrow> u_server su | None \<Rightarrow> me s)"
  have src': "(if IsServer (clients s sptr) then Inr sptr else res_bind (the_user s sptr) (\<lambda>us. Inr (u_server us))) = Inr act" "up_chain s act"
    using src by (auto simp: act_def source_ok_def the_user_def split: option.splits if_splits)
  define b where "b = comes_through s (u_server us) act"
  have b: "on_path (\<lambda>x. cc_up (clients s x)) (me s) (u_server us) act = Some b" using on_path_correct [OF src'(2)] by (simp add: b_def)
  show ?thesis
  proof (cases "MyUser s who")
    case True
    show ?thesis
    proof (cases "IsServer (clients s cptr)")
      case srv: True
      let ?s2 = "?s1\<lparr>parts_sent := parts_sent ?s1 @ [(who, cptr, c)]\<rparr>"
      obtain s2 where "remove_user_from_channel who c ?s2 = returning s2" "chan_inv s2" "mem_of s2 = (mem_of s)(c := staying s who c)"
        using remove_kicked [OF ok m(1), of ?s2] core m(2) by auto
      then show ?thesis using True srv by (simp add: make_zombie_def zombified_def [symmetric] kick_removes_def)
    next
      case False
      then show ?thesis using True gone by (simp add: make_zombie_def zombified_def [symmetric] kick_removes_def)
    qed
  next
    case False
    have kr: "kick_removes who cptr sptr s \<longleftrightarrow> cc_from (clients s who) = cptr \<and> b"
      using False us by (simp add: kick_removes_def act_def b_def)
    have "on_path (\<lambda>x. cc_up (clients s x)) (me s) (u_server us) (me s) = Some False" by (subst on_path.simps) simp
    then have run: "make_zombie m who cptr sptr c s =
       (if cc_from (clients s who) = cptr \<and> b then remove_user_from_channel who c ?s1
        else run_bind (Some (channel_all_zombies ?s1 c)) (\<lambda>zombies. if zombies then remove_user_from_channel who c ?s1 else returning ?s1))"
      using False us b src'(1)
      by (auto simp: make_zombie_def zombified_def [symmetric] Let_def the_user_def)
    have z: "channel_all_zombies ?s1 c = Inr (staying s who c = [] \<and> \<not> persist s c)"
      using all_zombies_view [of c ?s1] c zombified_all [OF i m] by (auto simp del: zombified_views(13))
    show ?thesis
    proof (cases "kick_removes who cptr sptr s \<or> staying s who c = [] \<and> \<not> persist s c")
      case True
      then have "make_zombie m who cptr sptr c s = returning s'" using run z gone(1) kr by auto
      then show ?thesis using True gone by simp
    next
      case stay: False
      then have "make_zombie m who cptr sptr c s = returning ?s1" using run z kr by auto
      moreover have "zombies_at ?s1 x" for x
      proof (cases "x = c")
        case True
        then show ?thesis using stay zombified_all [OF i m] by (auto simp: zombies_at_def simp del: zombified_views(13))
      next
        case False
        then have "m \<notin> set (mem_of s x)" using matrix_invD(3) [OF i] m by blast
        then have "zombies_at ?s1 x \<longleftrightarrow> zombies_at s x" by (auto simp: zombies_at_def)
        then show ?thesis using d(3) by (simp add: zombies_ok_at)
      qed
      moreover have "\<forall>x. \<forall>k \<in> set (mem_of ?s1 x). may_join ?s1 (m_user (membership ?s1 k))"
        using d(4) by (simp del: zombified_views(13))
      ultimately have "chan_inv ?s1" "make_zombie m who cptr sptr c s = returning ?s1"
        using core by (simp_all add: chan_inv_def zombies_ok_at)
      then show ?thesis using stay by auto
    qed
  qed
qed

section \<open>All operations together\<close>

lemma remove_user_inv:
  assumes ok: "chan_inv s" and u: "may_join s u" and c: "c \<in> dom (channel_at s)"
  shows "\<exists>s'. remove_user_from_channel u c s = returning s' \<and> chan_inv s' \<and> fixed s' = fixed s
    \<and> mem_of s' = (mem_of s)(c := if on_channel s u c then staying s u c else mem_of s c)
    \<and> dom (channel_at s') = dom (channel_at s) - (if on_channel s u c \<and> staying s u c = [] \<and> \<not> persist s c then {c} else {})"
proof (cases "on_channel s u c")
  case False
  then show ?thesis using remove_user_ok [OF chan_invD(1,2) [OF ok] u c] ok by (auto simp: fun_upd_idem)
next
  case True
  note d = chan_invD [OF ok]
  obtain s' where s': "remove_user_from_channel u c s = returning s'" "left_state s u c s'"
    using remove_user_ok [OF d(1,2) u c] True by auto
  then have l: "core_ok s'" "invites_ok s'" "fixed s' = fixed s" "mem_of s' = (mem_of s)(c := staying s u c)"
    "dom (channel_at s') = dom (channel_at s) - (if staying s u c = [] \<and> \<not> persist s c then {c} else {})"
    by (simp_all add: left_state_def)
  have "may_join s' (m_user (membership s' m))" if "m \<in> set (mem_of s' x)" for m x
    using that d(4) [of m x] l(4) staying_left [of m s u c] fixed_eq [OF l(3)] by (auto simp: may_join_def split: if_splits)
  moreover have "zombies_ok s'" using left_zombies [OF s'(2)] d(3) by (simp add: zombies_ok_at)
  ultimately have "chan_inv s'" using l(1,2) by (simp add: chan_inv_def)
  then show ?thesis using s'(1) l(3-5) True by (intro exI [of _ s']) simp
qed

lemma remove_user_from_all_inv:
  assumes ok: "chan_inv s" and u: "may_join s u"
  shows "\<exists>s'. remove_user_from_all_channels u s = returning s' \<and> chan_inv s' \<and> fixed s' = fixed s
    \<and> mem_of s' = (\<lambda>c. if on_channel s u c then staying s u c else mem_of s c) \<and> chan_of s' u = []"
proof -
  note d = chan_invD [OF ok]
  obtain s' where s': "remove_user_from_all_channels u s = returning s'" "core_ok s'" "invites_ok s'" "zombies_ok s'" "fixed s' = fixed s"
    "mem_of s' = (\<lambda>c. if on_channel s u c then staying s u c else mem_of s c)" "chan_of s' u = []"
    using remove_user_from_all_ok [OF d(1-3) u] by blast
  have "may_join s' (m_user (membership s' m))" if "m \<in> set (mem_of s' x)" for m x
    using that d(4) [of m x] s'(6) staying_left [of m s u x] fixed_eq [OF s'(5)] by (auto simp: may_join_def split: if_splits)
  then show ?thesis using s' by (intro exI [of _ s']) (simp add: chan_inv_def)
qed

lemma add_user_inv:
  assumes ok: "chan_inv s" and u: "may_join s u" and c: "c \<in> dom (channel_at s)" "\<not> on_channel s u c"
    and f: "f AND CHFL_ZOMBIE = 0" and room: "Suc (next_member s) < 2 ^ 32"
  shows "\<exists>s' m. add_user_to_channel c u f s = Inr s' \<and> chan_inv s' \<and> mem_of s' = (mem_of s)(c := m # mem_of s c)
    \<and> membership s' m = \<lparr>m_user = u, m_channel = c, m_status = f\<rparr>"
proof -
  note d = chan_invD [OF ok]
  have ud: "u \<in> dom (cli_user s)" using u by (simp add: may_join_def)
  obtain s' m where s': "add_user_to_channel c u f s = Inr s'" "core_ok s'" "invites_ok s'"
    "mem_of s' = (mem_of s)(c := m # mem_of s c)" "membership s' = (membership s)(m := \<lparr>m_user = u, m_channel = c, m_status = f\<rparr>)"
    "persist s' = persist s" "clients s' = clients s" "dom (cli_user s') = dom (cli_user s)" "\<forall>x. m \<notin> set (mem_of s x)"
    using add_user_ok [OF d(1,2) ud c room, of f] by blast
  have "zombies_at s' x" for x
  proof (cases "x = c")
    case True
    then show ?thesis using s'(4,5) f by (simp add: zombies_at_def IsZombie_def)
  next
    case False
    then have "zombies_at s' x \<longleftrightarrow> zombies_at s x" using s'(4-6,9) by (auto simp: zombies_at_def)
    then show ?thesis using d(3) by (simp add: zombies_ok_at)
  qed
  moreover have "may_join s' (m_user (membership s' k))" if "k \<in> set (mem_of s' x)" for k x
    using that u d(4) [of k x] s'(4,5,7,8) by (auto simp: may_join_def split: if_splits)
  ultimately have "chan_inv s'" using s'(2,3) by (simp add: chan_inv_def zombies_ok_at)
  then show ?thesis using s'(1,4,5) by (intro exI [of _ s'] exI [of _ m]) simp
qed

lemma uninvited_inv: "uninvited s' = uninvited s \<Longrightarrow> invites_ok s' \<Longrightarrow> chan_inv s \<Longrightarrow> chan_inv s'"
  using uninvited_ok [of s' s] uninvited_eq [of s' s] by (simp add: chan_inv_def may_join_def)

text \<open>
  The calls the message handlers make: they create channels, let users join that are not on the
  channel, part, quit, kick and invite.
\<close>

inductive chan_step :: "chfeat \<Rightarrow> chans \<Rightarrow> chans \<Rightarrow> bool" for feat where
  create: "cstring name \<Longrightarrow> get_channel feat now u name flag s = Inr (s', r) \<Longrightarrow> chan_step feat s s'"
| join: "may_join s u \<Longrightarrow> c \<in> dom (channel_at s) \<Longrightarrow> \<not> on_channel s u c \<Longrightarrow> f AND CHFL_ZOMBIE = 0 \<Longrightarrow> Suc (next_member s) < 2 ^ 32
    \<Longrightarrow> add_user_to_channel c u f s = Inr s' \<Longrightarrow> chan_step feat s s'"
| part: "may_join s u \<Longrightarrow> c \<in> dom (channel_at s) \<Longrightarrow> remove_user_from_channel u c s = returning s' \<Longrightarrow> chan_step feat s s'"
| quit: "may_join s u \<Longrightarrow> remove_user_from_all_channels u s = returning s' \<Longrightarrow> chan_step feat s s'"
| kick: "m \<in> set (mem_of s c) \<Longrightarrow> source_ok s sptr \<Longrightarrow> make_zombie m (m_user (membership s m)) cptr sptr c s = returning s'
    \<Longrightarrow> chan_step feat s s'"
| invite: "c \<in> dom (channel_at s) \<Longrightarrow> u \<in> dom (cli_user s) \<Longrightarrow> add_invite feat u c s = Inr s' \<Longrightarrow> chan_step feat s s'"
| uninvite: "c \<in> dom (channel_at s) \<Longrightarrow> u \<in> dom (cli_user s) \<Longrightarrow> del_invite u c s = Inr s' \<Longrightarrow> chan_step feat s s'"

inductive_cases chan_stepE: "chan_step feat s s'"

lemma chan_step_inv:
  assumes "chan_step feat s s'" "chan_inv s" "feat_MAXCHANNELSPERUSER feat \<noteq> 0"
  shows "chan_inv s'"
  using assms(1)
proof cases
  case (create name now u flag r)
  then show ?thesis using get_channel_ok [OF assms(2)] by blast
next
  case (join u c f)
  then show ?thesis using add_user_inv [OF assms(2), of u c f] by auto
next
  case (part u c)
  then show ?thesis using remove_user_inv [OF assms(2), of u c] by auto
next
  case (quit u)
  then show ?thesis using remove_user_from_all_inv [OF assms(2), of u] by auto
next
  case (kick m c sptr cptr)
  then show ?thesis using make_zombie_ok [OF assms(2) kick(1) refl kick(2), of cptr] by auto
next
  case (invite c u)
  then show ?thesis using add_invite_ok [OF chan_invD(2) [OF assms(2)] invite(1,2) assms(3)] uninvited_inv [OF _ _ assms(2)] by auto
next
  case (uninvite c u)
  then show ?thesis using del_invite_ok [OF chan_invD(2) [OF assms(2)]] uninvited_inv [OF _ _ assms(2)] by fastforce
qed

definition no_channels :: "chans \<Rightarrow> bool" where
  "no_channels s \<longleftrightarrow> channel_at s = Map.empty \<and> GlobalChannelList s = [] \<and> UserStats_channels s = 0 \<and> channelTable s = (\<lambda>_. [])
     \<and> membershipFreeList s = [] \<and> next_member s = 0
     \<and> (\<forall>u us. cli_user s u = Some us \<longrightarrow> u_channel us = [] \<and> joined us = 0 \<and> u_invited us = [] \<and> u_invites us = 0)"

lemma no_channels_inv:
  assumes "no_channels s"
  shows "chan_inv s"
proof -
  have e: "channel_at s = Map.empty" using assms by (simp add: no_channels_def)
  then have v: "mem_of s c = []" "inv_of s c = []" for c by (simp_all add: views)
  have w: "chan_of s u = []" "invd_of s u = []" for u
    using assms by (cases "cli_user s u"; simp add: views no_channels_def)+
  have "matrix_ok s" using assms v w by (simp add: matrix_ok_def matrix_inv_def no_channels_def)
  moreover have "counts_ok s" using assms e by (auto simp: counts_but_def no_channels_def split: option.splits)
  moreover have "channels_ok s" using assms e by (simp add: channels_ok_def no_channels_def table_inv_def members_def)
  moreover have "invites_ok s" using assms v w by (auto simp: invites_ok_def no_channels_def)
  ultimately show ?thesis using v by (simp add: chan_inv_def core_ok_def zombies_ok_def)
qed

lemma reachable_inv:
  "(chan_step feat)\<^sup>*\<^sup>* s0 s \<Longrightarrow> no_channels s0 \<Longrightarrow> feat_MAXCHANNELSPERUSER feat \<noteq> 0 \<Longrightarrow> chan_inv s"
  by (induction rule: rtranclp_induct) (auto simp: no_channels_inv intro: chan_step_inv)

section \<open>An example\<close>

text \<open>A channel with two members: client 1, and client 2 that was kicked.\<close>

definition example_user :: "member \<Rightarrow> User" where
  "example_user m = \<lparr>u_server = 0, u_channel = [m], u_invited = [], joined = 1, u_invites = 0,
     u_host = ''h'', u_realusername = ''u'', u_realhost = ''h'', u_fakehost = [], u_account = [], u_virthost = ''v''\<rparr>"

definition example :: chans where
  "example = \<lparr>me = 0,
     clients = (\<lambda>x. \<lparr>cli_status = STAT_USER, cli_flags = [], cli_since = 0, cli_lasttime = 0, cli_error = 0, cc_from = x, cc_up = 0,
       cc_name = ''n'', cc_info = ''i'', cc_ip = 0, cc_killmark = [], cc_sdnsbls = []\<rparr>),
     cli_user = [1 \<mapsto> example_user 0, 2 \<mapsto> example_user 1],
     membership = (\<lambda>m. \<lparr>m_user = Suc m, m_channel = 0, m_status = if m = 1 then CHFL_ZOMBIE else 0\<rparr>),
     membershipFreeList = [], membershipAllocCount = 2, next_member = 2,
     channel_at = [0 \<mapsto> \<lparr>ch_name = ''#x'', creationtime = 9, last_message = 0, ch_users = 2, ch_members = [1, 0],
       ch_invites = [], ch_mode = 0, ch_marker = 0, ch_banlist = [], ch_exceptlist = [], ch_limit = 0, ch_key = [], ch_redirect = []\<rparr>],
     next_channel = 1, GlobalChannelList = [0], UserStats_channels = 1, crc32hash = replicate 256 0,
     channelTable = (\<lambda>_. [])(0 := [0]), parts_sent = []\<rparr>"

lemma example_views:
  "mem_of example c = (if c = 0 then [1, 0] else [])" "chan_of example u = (if u = 1 then [0] else if u = 2 then [1] else [])"
  "inv_of example c = []" "invd_of example u = []" "name_of example c = (if c = 0 then ''#x'' else [])" "persist example c = False"
  by (simp_all add: example_def views example_user_def)

lemma example_zombie: "IsZombie (membership example m) \<longleftrightarrow> m = 1"
  by (simp add: example_def IsZombie_def CHFL_ZOMBIE_def)

lemma example_fields:
  "m_user (membership example m) = Suc m" "m_channel (membership example m) = 0" "membershipFreeList example = []" "next_member example = 2"
  "dom (channel_at example) = {0}" "dom (cli_user example) = {1, 2}" "cli_status (clients example u) = STAT_USER" "me example = 0"
  by (auto simp: example_def)

lemma example_join: "may_join example u \<longleftrightarrow> u = 1 \<or> u = 2"
  by (auto simp: may_join_def example_fields IsServer_def IsMe_def stat_defs)

lemma strhash_zero:
  assumes "n \<noteq> []"
  shows "strhash (replicate 256 0) n = Inr 0"
proof -
  have b: "unat (w AND 255) < 256" for w :: u32
    using word_and_le1 [of w 255] by (simp add: word_le_nat_alt less_Suc_eq_le)
  have "fold (\<lambda>c hash. (drop_bit 8 hash) XOR replicate 256 (0::u32) ! unat ((hash XOR of_nat (lowbyte c)) AND 255)) cs 0 = 0" for cs
    by (induction cs) (simp_all add: b)
  then show ?thesis using assms by (cases n) (simp_all add: strhash_def lowbyte_def)
qed

lemma example_table: "table_inv (crc32hash example) (name_of example) (channelTable example)" "members (channelTable example) = {0}"
proof -
  show "table_inv (crc32hash example) (name_of example) (channelTable example)"
    using strhash_zero [of "''#x''"]
    by (simp add: table_inv_def example_def name_of_def)
qed (auto simp: example_def members_def)

lemma example_inv: "chan_inv example"
proof -
  have "matrix_ok example"
    by (simp add: matrix_ok_def matrix_inv_def example_views example_fields inj_on_def)
  moreover have "counts_ok example" by (simp add: counts_but_def example_def example_user_def)
  moreover have "channels_ok example"
    using example_table by (simp add: channels_ok_def example_fields example_views) (simp add: example_def)
  moreover have "invites_ok example"
    unfolding invites_ok_def example_views by (auto simp: example_def example_user_def split: if_splits)
  moreover have "zombies_ok example" by (auto simp: zombies_ok_def example_views example_zombie)
  ultimately show ?thesis by (auto simp: chan_inv_def core_ok_def example_views example_join example_fields split: if_splits)
qed

lemma example_staying: "on_channel example 2 0" "staying example 2 0 = [0]"
  by (auto simp: on_channel_def staying_def Let_def example_views example_fields example_zombie)

section \<open>Theorems\<close>

text \<open>
  C1: However channels are created and users join, part, quit, are kicked and invited, the members
  of the channels and the channels of the users are two views of the same memberships, both
  counters count them, the global list holds the allocated channels, invitations are recorded on
  both sides, and no channel that is not persistent is left to zombies only.
\<close>

theorem channel_state_invariant:
  assumes "(chan_step feat)\<^sup>*\<^sup>* s0 s" "no_channels s0" "feat_MAXCHANNELSPERUSER feat \<noteq> 0"
  shows "(\<forall>c m. m \<in> set (mem_of s c) \<longleftrightarrow> m \<in> set (chan_of s (m_user (membership s m))) \<and> m_channel (membership s m) = c)
    \<and> (\<forall>c ch. channel_at s c = Some ch \<longrightarrow> unat (ch_users ch) = length (ch_members ch))
    \<and> (\<forall>u us. cli_user s u = Some us \<longrightarrow> unat (joined us) = length (u_channel us))
    \<and> set (GlobalChannelList s) = dom (channel_at s) \<and> UserStats_channels s = of_nat (card (dom (channel_at s)))
    \<and> (\<forall>u c. u \<in> set (inv_of s c) \<longleftrightarrow> c \<in> set (invd_of s u))
    \<and> (\<forall>c. mem_of s c \<noteq> [] \<longrightarrow> \<not> persist s c \<longrightarrow> (\<exists>m \<in> set (mem_of s c). \<not> IsZombie (membership s m)))"
proof -
  note d = chan_invD [OF reachable_inv [OF assms]]
  note k = core_okD [OF d(1)]
  note i = matrix_invD [OF k(1)]
  have "m \<in> set (mem_of s c) \<longleftrightarrow> m \<in> set (chan_of s (m_user (membership s m))) \<and> m_channel (membership s m) = c" for c m
    using i(3) [of m c] i(4) [of m "m_user (membership s m)"] by auto
  moreover have "unat (ch_users ch) = length (ch_members ch)" if c: "channel_at s c = Some ch" for c ch
  proof -
    have "mem_of s c = ch_members ch" using c by (simp add: mem_of_def)
    then have "length (ch_members ch) < 2 ^ 32" using matrix_length [OF k(1), of c] k(2) by simp
    then show ?thesis using counts_butD(1) [OF k(5) _ c] by (simp add: unat_of_nat)
  qed
  moreover have "unat (joined us) = length (u_channel us)" if u: "cli_user s u = Some us" for u us
  proof -
    have "chan_of s u = u_channel us" using u by (simp add: chan_of_def)
    then have "length (u_channel us) < 2 ^ 32" using matrix_length_user [OF k(1), of u] k(2) by simp
    then show ?thesis using counts_butD(2) [OF k(5) u] by (simp add: unat_of_nat)
  qed
  moreover have "set (GlobalChannelList s) = dom (channel_at s)" "UserStats_channels s = of_nat (card (dom (channel_at s)))"
    using k(4) distinct_card [of "GlobalChannelList s"] by (simp_all add: channels_ok_def)
  moreover have "u \<in> set (inv_of s c) \<longleftrightarrow> c \<in> set (invd_of s u)" for u c by (rule invites_okD(3) [OF d(2)])
  ultimately show ?thesis using d(3) by (simp add: zombies_ok_def)
qed

definition example_start :: chans where
  "example_start = example\<lparr>channel_at := Map.empty, GlobalChannelList := [], UserStats_channels := 0, channelTable := (\<lambda>_. []),
     next_member := 0, cli_user := [1 \<mapsto> (example_user 0)\<lparr>u_channel := [], joined := 0\<rparr>]\<rparr>"

definition example_feat :: chfeat where
  "example_feat = \<lparr>feat_CHANNELLEN = 200, feat_AUTOCHANMODES = False, feat_AUTOCHANMODES_LIST = None,
     feat_SET_ACTIVE_ON_CREATE = False, feat_MAXCHANNELSPERUSER = 10\<rparr>"

lemma example_start_ok: "no_channels example_start" "feat_MAXCHANNELSPERUSER example_feat \<noteq> 0"
  by (simp_all add: no_channels_def example_start_def example_def example_user_def example_feat_def)

lemma example_create: "\<exists>s' c. get_channel example_feat 5 1 ''#y'' CGT_CREATE example_start = Inr (s', Some c) \<and> c \<in> dom (channel_at s')"
  by (simp add: get_channel_def cut_name_def example_feat_def hSeekChannel_def hAddChannel_def example_start_def example_def
      strhash_zero chain_seek_def new_channel_def Let_def CHANNELLEN_def set_channel_def name_of_def)

theorem channel_state_invariant_witness:
  "\<exists>s c. (chan_step example_feat)\<^sup>*\<^sup>* example_start s \<and> c \<in> dom (channel_at s)
    \<and> set (GlobalChannelList s) = dom (channel_at s)"
proof -
  obtain s' c where s': "get_channel example_feat 5 1 ''#y'' CGT_CREATE example_start = Inr (s', Some c)" "c \<in> dom (channel_at s')"
    using example_create by blast
  have "chan_step example_feat example_start s'" by (rule chan_step.create [OF _ s'(1)]) simp
  then have r: "(chan_step example_feat)\<^sup>*\<^sup>* example_start s'" by simp
  show ?thesis using channel_state_invariant [OF r example_start_ok] r s'(2) by blast
qed

text \<open>
  C5: \<open>find_member_link\<close> gives the membership of a user on a channel, whether it searches the members
  of the channel (services) or the channels of the user, and no more than one exists.
\<close>

theorem find_member_link_correct:
  assumes "chan_inv s" "may_join s u" "c \<in> dom (channel_at s)"
  shows "(\<forall>m. find_member_link s c u = Inr (Some m) \<longleftrightarrow> m \<in> set (mem_of s c) \<and> m_user (membership s m) = u)
    \<and> (find_member_link s c u = Inr None \<longleftrightarrow> \<not> on_channel s u c)"
proof (intro conjI allI)
  note k = core_okD [OF chan_invD(1) [OF assms(1)]]
  note f = find_member_link_ok [OF chan_invD(1) [OF assms(1)] assms(2,3)]
  show "find_member_link s c u = Inr None \<longleftrightarrow> \<not> on_channel s u c"
    unfolding f by (auto simp: find_None_iff on_channel_def)
  fix m
  show "find_member_link s c u = Inr (Some m) \<longleftrightarrow> m \<in> set (mem_of s c) \<and> m_user (membership s m) = u"
  proof
    assume "find_member_link s c u = Inr (Some m)"
    then show "m \<in> set (mem_of s c) \<and> m_user (membership s m) = u" unfolding f by (auto simp: find_Some_iff)
  next
    assume m: "m \<in> set (mem_of s c) \<and> m_user (membership s m) = u"
    then have "List.find (\<lambda>m. m_user (membership s m) = u) (mem_of s c) = Some m"
      using matrix_unique [OF k(1), of _ c m] by (intro find_unique) auto
    then show "find_member_link s c u = Inr (Some m)" unfolding f by simp
  qed
qed

theorem find_member_link_correct_witness:
  "find_member_link example 0 2 = Inr (Some 1)"
  using find_member_link_correct [OF example_inv, of 2 0] by (simp add: example_join example_fields example_views)

text \<open>
  C2: A user who leaves a channel is removed from it; the others stay, unless only zombies would be
  left on a channel that is not persistent: then the channel is emptied and freed. The loops end,
  nothing freed is used, and the state stays consistent.
\<close>

theorem part_correct:
  assumes "chan_inv s" "may_join s u" "c \<in> dom (channel_at s)" "on_channel s u c"
  shows "\<exists>s'. remove_user_from_channel u c s = returning s' \<and> chan_inv s' \<and> membership s' = membership s
    \<and> (let rest = filter (\<lambda>m. m_user (membership s m) \<noteq> u) (mem_of s c)
        in if persist s c \<or> (\<exists>m \<in> set rest. \<not> IsZombie (membership s m))
           then mem_of s' = (mem_of s)(c := rest) \<and> dom (channel_at s') = dom (channel_at s)
           else mem_of s' = (mem_of s)(c := []) \<and> dom (channel_at s') = dom (channel_at s) - {c})"
proof -
  obtain s' where s': "remove_user_from_channel u c s = returning s'" "chan_inv s'" "fixed s' = fixed s"
    "mem_of s' = (mem_of s)(c := staying s u c)"
    "dom (channel_at s') = dom (channel_at s) - (if staying s u c = [] \<and> \<not> persist s c then {c} else {})"
    using remove_user_inv [OF assms(1-3)] assms(4) by auto
  have "let rest = filter (\<lambda>m. m_user (membership s m) \<noteq> u) (mem_of s c)
      in if persist s c \<or> (\<exists>m \<in> set rest. \<not> IsZombie (membership s m)) then staying s u c = rest \<and> (staying s u c = [] \<longrightarrow> persist s c)
         else staying s u c = [] \<and> \<not> persist s c"
    by (auto simp: staying_def Let_def filter_empty_conv)
  then show ?thesis using s' fixed_eq(1) [OF s'(3)] by (intro exI [of _ s']) (auto simp: Let_def split: if_splits)
qed

theorem part_correct_witness:
  "\<exists>s'. remove_user_from_channel 1 0 example = returning s' \<and> chan_inv s' \<and> dom (channel_at s') = {}"
  using part_correct [OF example_inv, of 1 0]
  by (auto simp: example_join example_fields example_views example_zombie on_channel_def)

text \<open>
  C4: \<open>remove_user_from_all_channels\<close> ends; the user is then on no channel, and each channel the user
  was on holds those who stay.
\<close>

theorem quit_correct:
  assumes "chan_inv s" "may_join s u"
  shows "\<exists>s'. remove_user_from_all_channels u s = returning s' \<and> chan_inv s' \<and> chan_of s' u = []
    \<and> mem_of s' = (\<lambda>c. if on_channel s u c then staying s u c else mem_of s c)"
  using remove_user_from_all_inv [OF assms] by blast

theorem quit_correct_witness:
  "\<exists>s'. remove_user_from_all_channels 2 example = returning s' \<and> chan_inv s' \<and> mem_of s' 0 = [0]"
proof -
  obtain s' where s': "remove_user_from_all_channels 2 example = returning s'" "chan_inv s'"
    "mem_of s' = (\<lambda>c. if on_channel example 2 c then staying example 2 c else mem_of example c)"
    using quit_correct [OF example_inv, of 2] by (auto simp: example_join)
  then show ?thesis using example_staying by (intro exI [of _ s']) simp
qed

text \<open>
  C3: A kick: the user is removed when local, or when the kick comes from the link the user is reached
  by and the server of the user is the source of the kick or lies on the chain of uplinks from there
  to this server, or when nobody else is left on a channel that is not persistent; otherwise the member becomes a
  zombie and stays until the \<open>PART\<close> arrives. The state stays consistent.
\<close>

theorem kick_correct:
  assumes "chan_inv s" "m \<in> set (mem_of s c)" "source_ok s sptr"
  defines "who \<equiv> m_user (membership s m)"
  shows "\<exists>s'. make_zombie m who cptr sptr c s = returning s' \<and> chan_inv s'
    \<and> (if kick_removes who cptr sptr s \<or> staying s who c = [] \<and> \<not> persist s c
       then mem_of s' = (mem_of s)(c := staying s who c)
       else mem_of s' = mem_of s \<and> membership s' = (membership s)(m := SetZombie (membership s m)))"
proof -
  obtain s' where "make_zombie m who cptr sptr c s = returning s'" "chan_inv s'"
    "if kick_removes who cptr sptr s \<or> staying s who c = [] \<and> \<not> persist s c
     then mem_of s' = (mem_of s)(c := staying s who c) else s' = zombified m s"
    using make_zombie_ok [OF assms(1,2) _ assms(3), of who cptr] by (auto simp: who_def)
  then show ?thesis by (intro exI [of _ s']) (auto split: if_splits)
qed

theorem kick_correct_witness:
  "\<exists>s'. make_zombie 1 2 1 1 0 example = returning s' \<and> chan_inv s' \<and> mem_of s' 0 = [0]"
proof -
  have src: "source_ok example 1"
    by (auto simp: source_ok_def up_chain_def example_def example_user_def IsServer_def stat_defs intro: exI [of _ 0])
  have k: "kick_removes 2 1 1 example" by (simp add: kick_removes_def MyUser_def MyConnect_def example_def IsUser_def)
  have m: "1 \<in> set (mem_of example 0)" "m_user (membership example 1) = 2" by (simp_all add: example_views example_fields)
  obtain s' where "make_zombie 1 2 1 1 0 example = returning s'" "chan_inv s'"
    "if kick_removes 2 1 1 example \<or> staying example 2 0 = [] \<and> \<not> persist example 0
     then mem_of s' = (mem_of example)(0 := staying example 2 0)
     else mem_of s' = mem_of example \<and> membership s' = (membership example)(1 := SetZombie (membership example 1))"
    using kick_correct [OF example_inv m(1) src, of 1] unfolding m(2) by blast
  then show ?thesis using k example_staying(2) by (intro exI [of _ s']) simp
qed



text \<open>
  An invitation is recorded on both sides and withdraws the oldest one when the user already has
  \<open>MAXCHANNELSPERUSER\<close> of them, so that the bound is kept.
\<close>

theorem add_invite_correct:
  assumes "chan_inv s" "c \<in> dom (channel_at s)" "u \<in> dom (cli_user s)" "feat_MAXCHANNELSPERUSER feat \<noteq> 0"
  shows "\<exists>s'. add_invite feat u c s = Inr s' \<and> chan_inv s' \<and> IsInvited s' u c = Inr True \<and> u \<in> set (inv_of s' c)
    \<and> (length (invd_of s u) \<le> unat (feat_MAXCHANNELSPERUSER feat) \<longrightarrow> length (invd_of s' u) \<le> unat (feat_MAXCHANNELSPERUSER feat))"
proof -
  obtain s' where s': "add_invite feat u c s = Inr s'" "invites_ok s'" "uninvited s' = uninvited s" "c \<in> set (invd_of s' u)"
    "length (invd_of s u) \<le> unat (feat_MAXCHANNELSPERUSER feat) \<longrightarrow> length (invd_of s' u) \<le> unat (feat_MAXCHANNELSPERUSER feat)"
    using add_invite_ok [OF chan_invD(2) [OF assms(1)] assms(2-4)] by blast
  have "IsInvited s' u c = Inr True" using s'(4) by (cases "cli_user s' u") (simp_all add: IsInvited_def invd_of_def)
  then show ?thesis using s' uninvited_inv [OF s'(3,2) assms(1)] invites_okD(3) [OF s'(2)] by blast
qed

theorem add_invite_correct_witness:
  "\<exists>s'. add_invite example_feat 2 0 example = Inr s' \<and> chan_inv s' \<and> IsInvited s' 2 0 = Inr True"
  using add_invite_correct [OF example_inv, of 0 2 example_feat] by (auto simp: example_fields example_feat_def)

text \<open>
  On a persistent channel without users, as \<open>m_join\<close> may have just created it, the user count goes
  below zero to 2^32 - 1 in \<open>sub1_from_channel\<close>, and the channel is then reported destroyed by
  \<open>destroy_unregistered_channel\<close> although it still exists. A letter that is no channel mode in
  \<open>AUTOCHANMODES_LIST\<close> makes \<open>SetAutoChanModes\<close> read past the end of its table.
\<close>

theorem channel_defects:
  assumes "channel_at s c = Some ch" "ch_users ch = 0" "ch_members ch = []" "persist s c"
  defines "s1 \<equiv> set_channel c (ch\<lparr>ch_users := 0xFFFFFFFF\<rparr>) s"
  shows "sub1_from_channel c s = returning (s1, False) \<and> destroy_unregistered_channel c s1 = returning (s1, True)
    \<and> SetAutoChanModes (feat\<lparr>feat_AUTOCHANMODES := True, feat_AUTOCHANMODES_LIST := Some ''nx''\<rparr>) ch = Inl OutOfBounds"
proof -
  have "ch_mode ch AND MODE_PERSIST \<noteq> 0" using assms(1,4) by (simp add: persist_def)
  moreover have w: "(0xFFFFFFFF :: u32) = - 1" by simp
  ultimately have "sub1_from_channel c s = returning (s1, False)"
    using assms(1,2) unfolding s1_def w by (simp add: sub1_from_channel_def)
  moreover have "destroy_unregistered_channel c s1 = returning (s1, True)"
    using assms(3) by (simp add: destroy_unregistered_channel_def s1_def)
  moreover have "auto_modes ''nx'' 0 = Inl OutOfBounds" by (simp add: chan_flags_def)
  ultimately show ?thesis by (simp add: SetAutoChanModes_def)
qed

theorem channel_defects_witness:
  "sub1_from_channel 0 (example_start\<lparr>channel_at := [0 \<mapsto> \<lparr>ch_name = ''#p'', creationtime = 9, last_message = 0, ch_users = 0,
       ch_members = [], ch_invites = [], ch_mode = MODE_PERSIST, ch_marker = 0, ch_banlist = [], ch_exceptlist = [], ch_limit = 0, ch_key = [], ch_redirect = []\<rparr>]\<rparr>)
   = returning (example_start\<lparr>channel_at := [0 \<mapsto> \<lparr>ch_name = ''#p'', creationtime = 9, last_message = 0, ch_users = 0xFFFFFFFF,
       ch_members = [], ch_invites = [], ch_mode = MODE_PERSIST, ch_marker = 0, ch_banlist = [], ch_exceptlist = [], ch_limit = 0, ch_key = [], ch_redirect = []\<rparr>]\<rparr>, False)"
  using channel_defects [of "example_start\<lparr>channel_at := [0 \<mapsto> \<lparr>ch_name = ''#p'', creationtime = 9, last_message = 0, ch_users = 0,
       ch_members = [], ch_invites = [], ch_mode = MODE_PERSIST, ch_marker = 0, ch_banlist = [], ch_exceptlist = [], ch_limit = 0, ch_key = [], ch_redirect = []\<rparr>]\<rparr>" 0]
  by (simp add: persist_def MODE_PERSIST_def set_channel_def)

end
