(* ===== verification/Bans.thy ===== *)
theory Bans
  imports Hostmask
begin

text \<open>
  Is a user banned from a channel, excepted from its bans, silenced? (\<open>is_banned\<close>, \<open>is_excepted\<close>,
  \<open>is_ext_banned\<close> and \<open>is_ext_excepted\<close> of \<open>ircd/channel.c\<close>.)

  The four functions run the same tests on the entries of a list; each test is a definition here.
  A test that reads a missing string or matches an empty mask is a fault. Only two things change
  in the state: looking up the channel of a shared list moves it to the front of its hash bucket,
  and the result is noted in the status of a member.
\<close>

section \<open>Flags\<close>

definition EXTBAN_CHAN :: u32 where "EXTBAN_CHAN = 0x002"
definition EXTBAN_REAL :: u32 where "EXTBAN_REAL = 0x004"
definition EXTBAN_QUIET :: u32 where "EXTBAN_QUIET = 0x008"
definition EXTBAN_REVERSE :: u32 where "EXTBAN_REVERSE = 0x010"
definition EXTBAN_SHARE :: u32 where "EXTBAN_SHARE = 0x020"
definition EXTBAN_ACCOUNT :: u32 where "EXTBAN_ACCOUNT = 0x040"
definition EXTEXCEPT_CHAN :: u32 where "EXTEXCEPT_CHAN = 0x002"
definition EXTEXCEPT_REAL :: u32 where "EXTEXCEPT_REAL = 0x004"
definition EXTEXCEPT_SHARE :: u32 where "EXTEXCEPT_SHARE = 0x020"
definition EXTEXCEPT_ACCOUNT :: u32 where "EXTEXCEPT_ACCOUNT = 0x040"

definition CHFL_CHANOP :: u32 where "CHFL_CHANOP = 0x0001"
definition CHFL_VOICE :: u32 where "CHFL_VOICE = 0x0002"
definition CHFL_BAN_IPMASK :: u32 where "CHFL_BAN_IPMASK = 0x0040"
definition CHFL_BANVALID :: u32 where "CHFL_BANVALID = 0x0800"
definition CHFL_BANNED :: u32 where "CHFL_BANNED = 0x1000"
definition CHFL_HALFOP :: u32 where "CHFL_HALFOP = 0x8000"
definition CHFL_EXCEPT :: u32 where "CHFL_EXCEPT = 0x10000"
definition CHFL_EXCEPT_IPMASK :: u32 where "CHFL_EXCEPT_IPMASK = 0x20000"
definition CHFL_EXCEPTVALID :: u32 where "CHFL_EXCEPTVALID = 0x200000"
definition CHFL_VOICED_OR_OPPED :: u32 where "CHFL_VOICED_OR_OPPED = CHFL_CHANOP OR CHFL_HALFOP OR CHFL_VOICE"

definition IsChanOp :: "Membership \<Rightarrow> bool" where "IsChanOp x \<longleftrightarrow> m_status x AND CHFL_CHANOP \<noteq> 0"
definition HasVoice :: "Membership \<Rightarrow> bool" where "HasVoice x \<longleftrightarrow> m_status x AND CHFL_VOICE \<noteq> 0"
definition IsHalfOp :: "Membership \<Rightarrow> bool" where "IsHalfOp x \<longleftrightarrow> m_status x AND CHFL_HALFOP \<noteq> 0"
definition IsVoicedOrOpped :: "Membership \<Rightarrow> bool" where "IsVoicedOrOpped x \<longleftrightarrow> m_status x AND CHFL_VOICED_OR_OPPED \<noteq> 0"
definition IsBanValid :: "Membership \<Rightarrow> bool" where "IsBanValid x \<longleftrightarrow> m_status x AND CHFL_BANVALID \<noteq> 0"
definition IsBanned :: "Membership \<Rightarrow> bool" where "IsBanned x \<longleftrightarrow> m_status x AND CHFL_BANNED \<noteq> 0"
definition IsExceptValid :: "Membership \<Rightarrow> bool" where "IsExceptValid x \<longleftrightarrow> m_status x AND CHFL_EXCEPTVALID \<noteq> 0"
definition IsExcepted :: "Membership \<Rightarrow> bool" where "IsExcepted x \<longleftrightarrow> m_status x AND CHFL_EXCEPT \<noteq> 0"

definition SetBanValid :: "Membership \<Rightarrow> Membership" where "SetBanValid x = x\<lparr>m_status := m_status x OR CHFL_BANVALID\<rparr>"
definition SetBanned :: "Membership \<Rightarrow> Membership" where "SetBanned x = x\<lparr>m_status := m_status x OR CHFL_BANNED\<rparr>"
definition ClearBanned :: "Membership \<Rightarrow> Membership" where "ClearBanned x = x\<lparr>m_status := m_status x AND NOT CHFL_BANNED\<rparr>"
definition ClearBanValid :: "Membership \<Rightarrow> Membership" where "ClearBanValid x = x\<lparr>m_status := m_status x AND NOT CHFL_BANVALID\<rparr>"
definition SetExceptValid :: "Membership \<Rightarrow> Membership" where "SetExceptValid x = x\<lparr>m_status := m_status x OR CHFL_EXCEPTVALID\<rparr>"
definition SetExcepted :: "Membership \<Rightarrow> Membership" where "SetExcepted x = x\<lparr>m_status := m_status x OR CHFL_EXCEPT\<rparr>"
definition ClearExcepted :: "Membership \<Rightarrow> Membership" where "ClearExcepted x = x\<lparr>m_status := m_status x AND NOT CHFL_EXCEPT\<rparr>"
definition ClearExceptValid :: "Membership \<Rightarrow> Membership" where "ClearExceptValid x = x\<lparr>m_status := m_status x AND NOT CHFL_EXCEPTVALID\<rparr>"

section \<open>Tests on one entry\<close>

definition or_else :: "bool run \<Rightarrow> bool run \<Rightarrow> bool run" where
  "or_else a b = run_bind a (\<lambda>x. if x then returning True else b)"

definition matches :: "string \<Rightarrow> string \<Rightarrow> bool run" where
  "matches m s = run_bind (match m s) (\<lambda>r. returning (r = 0))"

definition mmatches :: "string \<Rightarrow> string \<Rightarrow> bool run" where
  "mmatches m s = run_bind (mmatch m s) (\<lambda>r. returning (r = 0))"

definition the_str :: "string option \<Rightarrow> string run" where
  "the_str p = (case p of None \<Rightarrow> Some (Inl NullDeref) | Some s \<Rightarrow> returning s)"

fun any_match :: "string \<Rightarrow> string list \<Rightarrow> bool run" where
  "any_match str [] = returning False"
| "any_match str (s # ss) = or_else (matches str s) (any_match str ss)"

text \<open>An address mask against \<open>nick!user@address\<close>, first as text, then as a network.\<close>

definition ip_hit :: "cclient \<Rightarrow> User \<Rightarrow> string \<Rightarrow> bool run" where
  "ip_hit c us str =
     (let ip_s = make_nick_user_ip (cc_name c) (u_realusername us) (cc_ip c);
          cli_addr = (case last_at ip_s of None \<Rightarrow> 0 | Some (_, addr) \<Rightarrow> inet_addr addr)
      in or_else (matches str ip_s)
          (case last_at str of None \<Rightarrow> returning False
           | Some (who, addr) \<Rightarrow>
               if CHR ''/'' \<notin> set addr \<or> CHR ''@'' \<notin> set ip_s then returning False
               else (let net = takeWhile (\<lambda>x. x \<noteq> CHR ''/'') addr;
                         bits = atoi (tl (dropWhile (\<lambda>x. x \<noteq> CHR ''/'') addr))
                     in run_bind (matches who (takeWhile (\<lambda>x. x \<noteq> CHR ''@'') ip_s)) (\<lambda>m.
                          returning (m \<and> 0 < bits \<and> bits < 33 \<and> NETMASK bits AND cli_addr = inet_addr net)))))"

definition dnsbl_hit :: "cclient \<Rightarrow> User \<Rightarrow> string \<Rightarrow> bool run" where
  "dnsbl_hit c us str =
     (if IsDNSBLMarked c then any_match str (map (marked_mask c us) (cc_sdnsbls c)) else returning False)"

definition killmark_hit :: "cclient \<Rightarrow> User \<Rightarrow> string \<Rightarrow> bool run" where
  "killmark_hit c us str = (if cc_killmark c \<noteq> [] then matches str (marked_mask c us (cc_killmark c)) else returning False)"

text \<open>Is the user on a channel that matches, with the status the first character asks for?\<close>

definition chan_entry :: "chans \<Rightarrow> string \<Rightarrow> member \<Rightarrow> bool run" where
  "chan_entry s ext m =
     run_bind (Some (the_channel s (m_channel (membership s m)))) (\<lambda>ch.
       case ext of
         [] \<Rightarrow> Some (Inl OutOfBounds)
       | p # name \<Rightarrow>
           if p = CHR ''#'' then mmatches ext (ch_name ch)
           else run_bind (mmatches name (ch_name ch)) (\<lambda>x.
                  returning (x \<and> (p = CHR ''@'' \<and> IsChanOp (membership s m) \<or> p = CHR ''%'' \<and> IsHalfOp (membership s m)
                     \<or> p = CHR ''+'' \<and> HasVoice (membership s m)))))"

fun chan_hit :: "chans \<Rightarrow> string option \<Rightarrow> member list \<Rightarrow> bool run" where
  "chan_hit s ext [] = returning False"
| "chan_hit s ext (m # ms) = or_else (run_bind (the_str ext) (\<lambda>e. chan_entry s e m)) (chan_hit s ext ms)"

definition real_hit :: "cclient \<Rightarrow> string option \<Rightarrow> bool run" where
  "real_hit c ext = run_bind (the_str ext) (\<lambda>e. mmatches (decodespace e) (cc_info c))"

definition account_hit :: "User \<Rightarrow> string option \<Rightarrow> bool run" where
  "account_hit us ext = run_bind (the_str ext) (\<lambda>e. matches e (u_account us))"

definition when_flag :: "u32 \<Rightarrow> u32 \<Rightarrow> bool run \<Rightarrow> bool run" where
  "when_flag flags f a = (if flags AND f \<noteq> 0 then a else returning False)"

definition reversed :: "Ban \<Rightarrow> bool run \<Rightarrow> bool run" where
  "reversed b a = run_bind a (\<lambda>x. returning (x \<noteq> (extflag b AND EXTBAN_REVERSE \<noteq> 0)))"

text \<open>The host tests of the four functions, on \<open>banstr\<close> or on \<open>extstr\<close>.\<close>

definition host_hit :: "u32 \<Rightarrow> cclient \<Rightarrow> User \<Rightarrow> Ban \<Rightarrow> string \<Rightarrow> bool run" where
  "host_hit ipmask c us b str =
     or_else (when_flag (ban_flags b) ipmask (ip_hit c us str)) (or_else (dnsbl_hit c us str) (killmark_hit c us str))"

definition ban_hit :: "chans \<Rightarrow> cclient \<Rightarrow> User \<Rightarrow> Ban \<Rightarrow> bool run" where
  "ban_hit s c us b =
     or_else (host_hit CHFL_BAN_IPMASK c us b (banstr b))
      (or_else (when_flag (extflag b) EXTBAN_CHAN (reversed b (chan_hit s (extstr b) (u_channel us))))
        (or_else (when_flag (extflag b) EXTBAN_REAL (reversed b (real_hit c (extstr b))))
          (when_flag (extflag b) EXTBAN_ACCOUNT (reversed b (account_hit us (extstr b))))))"

definition except_hit :: "chans \<Rightarrow> cclient \<Rightarrow> User \<Rightarrow> Ban \<Rightarrow> bool run" where
  "except_hit s c us b =
     or_else (host_hit CHFL_EXCEPT_IPMASK c us b (banstr b))
      (or_else (when_flag (extflag b) EXTEXCEPT_CHAN (chan_hit s (extstr b) (u_channel us)))
        (or_else (when_flag (extflag b) EXTEXCEPT_ACCOUNT (account_hit us (extstr b)))
          (when_flag (extflag b) EXTEXCEPT_REAL (real_hit c (extstr b)))))"

section \<open>The lists\<close>

type_synonym decision = "chans \<Rightarrow> (chans \<times> bool) run"

definition FindChannel :: "string option \<Rightarrow> chans \<Rightarrow> (chans \<times> channel option) res" where
  "FindChannel name s =
     (case name of
        None \<Rightarrow> Inr (s, None)
      | Some n \<Rightarrow>
          if n = [] then Inr (s, None)
          else res_bind (hSeekChannel (crc32hash s) (name_of s) (channelTable s) n) (\<lambda>(table, found).
                 Inr (s\<lparr>channelTable := table\<rparr>, found)))"

text \<open>The shared list of another channel: \<open>again\<close> is the recursive call.\<close>

definition share_hit :: "(channel \<Rightarrow> decision) \<Rightarrow> Ban \<Rightarrow> decision" where
  "share_hit again b s =
     run_bind (Some (FindChannel (extstr b) s)) (\<lambda>(s1, found).
       case found of None \<Rightarrow> returning (s1, False) | Some tchptr \<Rightarrow> again tchptr s1)"

definition no_share :: "Ban \<Rightarrow> decision" where
  "no_share b s = returning (s, False)"

fun scan_list :: "(Ban \<Rightarrow> decision) \<Rightarrow> Ban list \<Rightarrow> decision" where
  "scan_list test [] s = returning (s, False)"
| "scan_list test (b # bs) s = run_bind (test b s) (\<lambda>(s1, hit). if hit then returning (s1, True) else scan_list test bs s1)"

definition entry_test :: "bool run \<Rightarrow> bool \<Rightarrow> (Ban \<Rightarrow> decision) \<Rightarrow> string list \<Rightarrow> Ban \<Rightarrow> decision" where
  "entry_test pre sharing share masks b s =
     run_bind pre (\<lambda>hit.
       if hit then returning (s, True)
       else run_bind (if sharing then share b s else returning (s, False)) (\<lambda>(s1, hit1).
              if hit1 then returning (s1, True)
              else run_bind (any_match (banstr b) masks) (\<lambda>hit2. returning (s1, hit2))))"

definition note_banned :: "member option \<Rightarrow> chans \<times> bool \<Rightarrow> chans \<times> bool" where
  "note_banned mo r = (case r of (s, banned) \<Rightarrow>
     (case mo of None \<Rightarrow> s
      | Some m \<Rightarrow> s\<lparr>membership := (membership s)(m :=
          (if banned then SetBanned else ClearBanned) (SetBanValid (membership s m)))\<rparr>, banned))"

definition note_excepted :: "member option \<Rightarrow> chans \<times> bool \<Rightarrow> chans \<times> bool" where
  "note_excepted mo r = (case r of (s, excepted) \<Rightarrow>
     (case mo of None \<Rightarrow> s
      | Some m \<Rightarrow> s\<lparr>membership := (membership s)(m :=
          (if excepted then SetExcepted else ClearExcepted) (SetExceptValid (membership s m)))\<rparr>, excepted))"

definition is_banned_with :: "banfeat \<Rightarrow> client \<Rightarrow> (Ban \<Rightarrow> decision) \<Rightarrow> channel \<Rightarrow> member option \<Rightarrow> decision" where
  "is_banned_with feat cptr share chptr mo s =
     (let c = clients s cptr
      in if \<not> IsUser c then returning (s, False)
         else if (case mo of None \<Rightarrow> False | Some m \<Rightarrow> IsBanValid (membership s m))
         then returning (s, case mo of None \<Rightarrow> False | Some m \<Rightarrow> IsBanned (membership s m))
         else
           run_bind (Some (the_user s cptr)) (\<lambda>us.
           run_bind (Some (user_masks feat c us)) (\<lambda>masks.
           run_bind (Some (the_channel s chptr)) (\<lambda>ch.
           run_bind (scan_list (\<lambda>b. entry_test (ban_hit s c us b) (extflag b AND EXTBAN_SHARE \<noteq> 0) share masks b)
             (ch_banlist ch) s) (\<lambda>r. returning (note_banned mo r))))))"

definition is_banned :: "banfeat \<Rightarrow> client \<Rightarrow> channel \<Rightarrow> member option \<Rightarrow> bool \<Rightarrow> decision" where
  "is_banned feat cptr chptr mo shared =
     is_banned_with feat cptr
       (if shared then no_share else share_hit (\<lambda>t. is_banned_with feat cptr no_share t None)) chptr mo"

definition is_excepted_with :: "banfeat \<Rightarrow> client \<Rightarrow> (Ban \<Rightarrow> decision) \<Rightarrow> channel \<Rightarrow> member option \<Rightarrow> decision" where
  "is_excepted_with feat cptr share chptr mo s =
     (let c = clients s cptr
      in if \<not> IsUser c then returning (s, False)
         else if (case mo of None \<Rightarrow> False | Some m \<Rightarrow> IsExceptValid (membership s m))
         then returning (s, case mo of None \<Rightarrow> False | Some m \<Rightarrow> IsExcepted (membership s m))
         else
           run_bind (Some (the_user s cptr)) (\<lambda>us.
           run_bind (Some (user_masks feat c us)) (\<lambda>masks.
           run_bind (Some (the_channel s chptr)) (\<lambda>ch.
           run_bind (scan_list (\<lambda>b. entry_test (except_hit s c us b) (extflag b AND EXTEXCEPT_SHARE \<noteq> 0) share masks b)
             (ch_exceptlist ch) s) (\<lambda>r. returning (note_excepted mo r))))))"

definition is_excepted :: "banfeat \<Rightarrow> client \<Rightarrow> channel \<Rightarrow> member option \<Rightarrow> bool \<Rightarrow> decision" where
  "is_excepted feat cptr chptr mo shared =
     is_excepted_with feat cptr
       (if shared then no_share else share_hit (\<lambda>t. is_excepted_with feat cptr no_share t None)) chptr mo"

text \<open>The extended lists look only at the entries of one kind, and match their \<open>extstr\<close>.\<close>

definition ext_entry :: "u32 \<Rightarrow> cclient \<Rightarrow> User \<Rightarrow> string list \<Rightarrow> Ban \<Rightarrow> bool run" where
  "ext_entry ipmask c us masks b =
     run_bind (the_str (extstr b)) (\<lambda>e. or_else (host_hit ipmask c us b e) (any_match e masks))"

fun ext_scan :: "(Ban \<Rightarrow> bool run) \<Rightarrow> u32 \<Rightarrow> Ban list \<Rightarrow> bool run" where
  "ext_scan test flags [] = returning False"
| "ext_scan test flags (b # bs) = or_else (when_flag (extflag b) flags (test b)) (ext_scan test flags bs)"

definition is_ext_banned :: "banfeat \<Rightarrow> client \<Rightarrow> channel \<Rightarrow> u32 \<Rightarrow> chans \<Rightarrow> bool run" where
  "is_ext_banned feat cptr chptr flags s =
     (let c = clients s cptr
      in if \<not> IsUser c then returning False
         else
           run_bind (Some (the_user s cptr)) (\<lambda>us.
           run_bind (Some (user_masks feat c us)) (\<lambda>masks.
           run_bind (Some (the_channel s chptr)) (\<lambda>ch.
             ext_scan (ext_entry CHFL_BAN_IPMASK c us masks) flags (ch_banlist ch)))))"

definition is_ext_excepted :: "banfeat \<Rightarrow> client \<Rightarrow> channel \<Rightarrow> u32 \<Rightarrow> chans \<Rightarrow> bool run" where
  "is_ext_excepted feat cptr chptr flags s =
     (let c = clients s cptr
      in if \<not> IsUser c then returning False
         else
           run_bind (Some (the_user s cptr)) (\<lambda>us.
           run_bind (Some (user_masks feat c us)) (\<lambda>masks.
           run_bind (Some (the_channel s chptr)) (\<lambda>ch.
             ext_scan (ext_entry CHFL_EXCEPT_IPMASK c us masks) flags (ch_exceptlist ch)))))"

end
