(* ===== verification/Access.thy ===== *)
theory Access
  imports Bans
begin

text \<open>
  Who may join a channel, speak on it or change nick while on it (\<open>can_join\<close>,
  \<open>member_can_send_to_channel\<close>, \<open>client_can_send_to_channel\<close>, \<open>find_no_nickchange_channel\<close> of
  \<open>ircd/channel.c\<close>), and the text of the channel modes.

  A key that is missing and an empty key are treated alike by the code; both are the empty string
  here. Whether the user holds the privilege to walk through local channels is an argument.
\<close>

section \<open>Modes and numerics\<close>

definition MODE_PRIVATE :: u32 where "MODE_PRIVATE = 0x0004"
definition MODE_SECRET :: u32 where "MODE_SECRET = 0x0008"
definition MODE_MODERATED :: u32 where "MODE_MODERATED = 0x0010"
definition MODE_TOPICLIMIT :: u32 where "MODE_TOPICLIMIT = 0x0020"
definition MODE_INVITEONLY :: u32 where "MODE_INVITEONLY = 0x0040"
definition MODE_NOPRIVMSGS :: u32 where "MODE_NOPRIVMSGS = 0x0080"
definition MODE_REGONLY :: u32 where "MODE_REGONLY = 0x0800"
definition MODE_NOCOLOUR :: u32 where "MODE_NOCOLOUR = 0x1000"
definition MODE_NOCTCP :: u32 where "MODE_NOCTCP = 0x2000"
definition MODE_NOQUITPARTS :: u32 where "MODE_NOQUITPARTS = 0x4000"
definition MODE_SSLONLY :: u32 where "MODE_SSLONLY = 0x8000"
definition MODE_ACCONLY :: u32 where "MODE_ACCONLY = 0x10000"
definition MODE_OPERONLY :: u32 where "MODE_OPERONLY = 0x20000"
definition MODE_NONOTICE :: u32 where "MODE_NONOTICE = 0x40000"
definition MODE_STRIP :: u32 where "MODE_STRIP = 0x80000"
definition MODE_NOAMSG :: u32 where "MODE_NOAMSG = 0x100000"
definition MODE_ADMINONLY :: u32 where "MODE_ADMINONLY = 0x800000"

definition ERR_NEEDACCCHAN :: int where "ERR_NEEDACCCHAN = 446"
definition ERR_SSLONLYCHAN :: int where "ERR_SSLONLYCHAN = 469"
definition ERR_OPERONLYCHAN :: int where "ERR_OPERONLYCHAN = 470"
definition ERR_CHANNELISFULL :: int where "ERR_CHANNELISFULL = 471"
definition ERR_INVITEONLYCHAN :: int where "ERR_INVITEONLYCHAN = 473"
definition ERR_BANNEDFROMCHAN :: int where "ERR_BANNEDFROMCHAN = 474"
definition ERR_BADCHANNELKEY :: int where "ERR_BADCHANNELKEY = 475"
definition ERR_NEEDREGGEDNICK :: int where "ERR_NEEDREGGEDNICK = 477"
definition ERR_ADMINONLYCHAN :: int where "ERR_ADMINONLYCHAN = 480"
definition ERR_DONTCHEAT :: int where "ERR_DONTCHEAT = 516"
definition MAGIC_OPER_OVERRIDE :: int where "MAGIC_OPER_OVERRIDE = 1000"

definition IsXtraOp :: "'z cli_scheme \<Rightarrow> bool" where "IsXtraOp x \<longleftrightarrow> HasFlag x FLAG_XTRAOP"
definition IsSSL :: "'z cli_scheme \<Rightarrow> bool" where "IsSSL x \<longleftrightarrow> HasFlag x FLAG_SSL"
definition IsAdmin :: "banfeat \<Rightarrow> 'z cli_scheme \<Rightarrow> bool" where "IsAdmin feat x \<longleftrightarrow> HasFlag x FLAG_ADMIN \<and> feat_OPERFLAGS feat"

definition has_mode :: "Channel \<Rightarrow> u32 \<Rightarrow> bool" where
  "has_mode ch f \<longleftrightarrow> ch_mode ch AND f \<noteq> 0"

definition IsLocalChannel :: "string \<Rightarrow> bool" where
  "IsLocalChannel name \<longleftrightarrow> name \<noteq> [] \<and> hd name = CHR ''&''"

section \<open>Joining\<close>

text \<open>A condition \<open>first && !is_excepted(...) && rest\<close>.\<close>

definition unless_excepted :: "banfeat \<Rightarrow> client \<Rightarrow> channel \<Rightarrow> bool \<Rightarrow> bool \<Rightarrow> decision" where
  "unless_excepted feat u c first rest s =
     (if first then run_bind (is_excepted feat u c None False s) (\<lambda>(t, excepted). returning (t, \<not> excepted \<and> rest))
      else returning (s, False))"

definition refuse :: "(chans \<times> bool) run \<Rightarrow> int \<Rightarrow> (chans \<Rightarrow> (chans \<times> int) run) \<Rightarrow> (chans \<times> int) run" where
  "refuse cond err rest = run_bind cond (\<lambda>(s, b). if b then returning (s, err) else rest s)"

definition can_join :: "banfeat \<Rightarrow> bool \<Rightarrow> client \<Rightarrow> channel \<Rightarrow> string \<Rightarrow> chans \<Rightarrow> (chans \<times> int) run" where
  "can_join feat walk_lchan sptr chptr key s =
     (let c = clients s sptr
      in if IsXtraOp c then returning (s, 0)
      else run_bind (Some (the_channel s chptr)) (\<lambda>ch.
        if has_mode ch MODE_SSLONLY \<and> \<not> IsSSL c then returning (s, ERR_SSLONLYCHAN)
        else run_bind (Some (IsInvited s sptr chptr)) (\<lambda>invited.
        if invited then returning (s, 0)
        else
          let overrideJoin = (if IsLocalChannel (ch_name ch) \<and> walk_lchan \<and> key \<noteq> [] \<and> compall ''OVERRIDE'' key = 0
                                \<and> compall ''OVERRIDE'' (ch_key ch) \<noteq> 0 then MAGIC_OPER_OVERRIDE else 0)
          in run_bind (if feat_CHMODE_e_CHMODEEXCEPTION feat then is_excepted feat sptr chptr None False s
                       else returning (s, False)) (\<lambda>(s1, exception_join).
          refuse (unless_excepted feat sptr chptr (ch_key ch \<noteq> []) ((key = [] \<or> compall (ch_key ch) key \<noteq> 0) \<and> \<not> exception_join) s1)
            (overrideJoin + ERR_BADCHANNELKEY) (\<lambda>s2.
          let keyv = (ch_key ch \<noteq> [] \<and> \<not> exception_join); flex = (\<not> keyv \<or> \<not> feat_FLEXABLEKEYS feat)
          in refuse (unless_excepted feat sptr chptr (has_mode ch MODE_INVITEONLY) (flex \<and> \<not> exception_join) s2)
            (overrideJoin + ERR_INVITEONLYCHAN) (\<lambda>s3.
          refuse (unless_excepted feat sptr chptr (ch_limit ch \<noteq> 0 \<and> ch_limit ch \<le> ch_users ch) (flex \<and> \<not> exception_join) s3)
            (overrideJoin + ERR_CHANNELISFULL) (\<lambda>s4.
          refuse (unless_excepted feat sptr chptr (has_mode ch MODE_REGONLY \<and> \<not> IsAccount c) flex s4)
            (overrideJoin + ERR_NEEDREGGEDNICK) (\<lambda>s5.
          refuse (returning (s5, has_mode ch MODE_OPERONLY \<and> \<not> IsAnOper c \<and> flex)) (overrideJoin + ERR_OPERONLYCHAN) (\<lambda>s6.
          refuse (returning (s6, has_mode ch MODE_ADMINONLY \<and> \<not> IsAdmin feat c \<and> flex)) (overrideJoin + ERR_ADMINONLYCHAN) (\<lambda>s7.
          refuse (run_bind (is_banned feat sptr chptr None False s7) (\<lambda>(s8, banned). unless_excepted feat sptr chptr banned True s8))
            (overrideJoin + ERR_BANNEDFROMCHAN) (\<lambda>s9.
          returning (s9, if overrideJoin \<noteq> 0 then ERR_DONTCHEAT else if keyv then - 1 else 0))))))))))))"

section \<open>Speaking\<close>

definition member_can_send_to_channel :: "banfeat \<Rightarrow> member \<Rightarrow> decision" where
  "member_can_send_to_channel feat m s =
     (let u = m_user (membership s m); c = m_channel (membership s m)
      in if IsVoicedOrOpped (membership s m) then returning (s, True)
      else
        run_bind (is_ext_banned feat u c EXTBAN_QUIET s) (\<lambda>quiet.
        run_bind (if quiet then
                    run_bind (is_excepted feat u c (Some m) False s) (\<lambda>(s1, excepted).
                      if \<not> excepted then returning (s1, True)
                      else run_bind (is_ext_excepted feat u c EXTBAN_QUIET s1) (\<lambda>x. returning (s1, x)))
                  else returning (s, False)) (\<lambda>(s1, silent).
        if silent then returning (s1, False)
        else run_bind (Some (the_channel s1 c)) (\<lambda>ch.
          if has_mode ch MODE_MODERATED then returning (s1, False)
          else if \<not> MyUser s1 u then returning (s1, True)
          else run_bind (is_banned feat u c (Some m) False s1) (\<lambda>(s2, banned).
            if \<not> banned then returning (s2, True)
            else run_bind (is_excepted feat u c (Some m) False s2) (\<lambda>(s3, excepted). returning (s3, excepted)))))))"

text \<open>The reply to the client is the third component.\<close>

definition client_can_send_to_channel :: "banfeat \<Rightarrow> client \<Rightarrow> channel \<Rightarrow> chans \<Rightarrow> (chans \<times> bool \<times> (client \<times> int) list) run" where
  "client_can_send_to_channel feat cptr chptr s =
     (let x = clients s cptr
      in if IsServer x \<or> IsChannelService x \<or> IsXtraOp x then returning (s, True, [])
      else
        run_bind (Some (find_channel_member s cptr chptr)) (\<lambda>mo.
        case mo of
          None \<Rightarrow>
            run_bind (Some (the_channel s chptr)) (\<lambda>ch.
              if has_mode ch (MODE_NOPRIVMSGS OR MODE_MODERATED) \<or> has_mode ch MODE_REGONLY \<and> \<not> IsAccount x
                 \<or> has_mode ch MODE_OPERONLY \<and> \<not> IsAnOper x \<or> has_mode ch MODE_ADMINONLY \<and> \<not> IsAdmin feat x
                 \<or> has_mode ch MODE_SSLONLY \<and> \<not> IsSSL x
              then returning (s, False, [])
              else run_bind (is_banned feat cptr chptr None False s) (\<lambda>(t, banned). returning (t, \<not> banned, [])))
        | Some m \<Rightarrow>
            run_bind (Some (the_channel s (m_channel (membership s m)))) (\<lambda>ch.
              if has_mode ch MODE_ACCONLY \<and> \<not> IsVoicedOrOpped (membership s m) \<and> \<not> IsAccount x
              then returning (s, False, [(cptr, ERR_NEEDACCCHAN)])
              else run_bind (member_can_send_to_channel feat m s) (\<lambda>(t, ok). returning (t, ok, [])))))"

section \<open>Changing nick\<close>

fun no_nickchange_among :: "banfeat \<Rightarrow> client \<Rightarrow> member list \<Rightarrow> chans \<Rightarrow> (chans \<times> string option) run" where
  "no_nickchange_among feat cptr [] s = returning (s, None)"
| "no_nickchange_among feat cptr (m # ms) s =
     (let c = m_channel (membership s m)
      in run_bind (if IsVoicedOrOpped (membership s m) then returning (s, False)
                   else run_bind (is_banned feat cptr c (Some m) False s) (\<lambda>(s1, banned).
                     if \<not> banned then returning (s1, False)
                     else run_bind (is_excepted feat cptr c (Some m) False s1) (\<lambda>(s2, excepted). returning (s2, \<not> excepted)))) (\<lambda>(s2, stop).
           if stop then run_bind (Some (the_channel s2 c)) (\<lambda>ch. returning (s2, Some (ch_name ch)))
           else no_nickchange_among feat cptr ms s2))"

definition find_no_nickchange_channel :: "banfeat \<Rightarrow> client \<Rightarrow> chans \<Rightarrow> (chans \<times> string option) run" where
  "find_no_nickchange_channel feat cptr s =
     (if MyUser s cptr then run_bind (Some (the_user s cptr)) (\<lambda>us. no_nickchange_among feat cptr (u_channel us) s)
      else returning (s, None))"

section \<open>Mode text\<close>

definition is_chan_op :: "chans \<Rightarrow> client \<Rightarrow> channel \<Rightarrow> bool res" where
  "is_chan_op s cptr chptr =
     res_bind (find_member_link s chptr cptr) (\<lambda>mo.
       Inr (case mo of None \<Rightarrow> False | Some m \<Rightarrow> \<not> IsZombie (membership s m) \<and> IsChanOp (membership s m)))"

definition has_voice :: "chans \<Rightarrow> client \<Rightarrow> channel \<Rightarrow> bool res" where
  "has_voice s cptr chptr =
     res_bind (find_member_link s chptr cptr) (\<lambda>mo.
       Inr (case mo of None \<Rightarrow> False | Some m \<Rightarrow> \<not> IsZombie (membership s m) \<and> HasVoice (membership s m)))"

definition is_half_op :: "chans \<Rightarrow> client \<Rightarrow> channel \<Rightarrow> bool res" where
  "is_half_op s cptr chptr =
     res_bind (find_member_link s chptr cptr) (\<lambda>mo.
       Inr (case mo of None \<Rightarrow> False | Some m \<Rightarrow> \<not> IsZombie (membership s m) \<and> IsHalfOp (membership s m)))"

definition mode_letters :: "Channel \<Rightarrow> string" where
  "mode_letters ch =
     (if has_mode ch MODE_SECRET then ''s'' else if has_mode ch MODE_PRIVATE then ''p'' else [])
     @ (if has_mode ch MODE_MODERATED then ''m'' else [])
     @ (if has_mode ch MODE_TOPICLIMIT then ''t'' else [])
     @ (if has_mode ch MODE_INVITEONLY then ''i'' else [])
     @ (if has_mode ch MODE_NOPRIVMSGS then ''n'' else [])
     @ (if has_mode ch MODE_REGONLY then ''r'' else [])
     @ (if has_mode ch MODE_NOCOLOUR then ''c'' else if has_mode ch MODE_STRIP then ''S'' else [])
     @ (if has_mode ch MODE_NOCTCP then ''C'' else [])
     @ (if has_mode ch MODE_ACCONLY then ''M'' else [])
     @ (if has_mode ch MODE_NONOTICE then ''N'' else [])
     @ (if has_mode ch MODE_OPERONLY then ''O'' else [])
     @ (if has_mode ch MODE_ADMINONLY then ''a'' else [])
     @ (if has_mode ch MODE_NOQUITPARTS then ''Q'' else [])
     @ (if has_mode ch MODE_SSLONLY then ''Z'' else [])
     @ (if has_mode ch MODE_NOAMSG then ''T'' else [])
     @ (if has_mode ch MODE_PERSIST then ''z'' else [])"

text \<open>
  \<open>pbuf\<close> is the text already in the parameter buffer; only a limit overwrites it. The field
  \<open>redirect\<close> is an array, so the test before the key is always true.
\<close>

definition channel_modes :: "nat \<Rightarrow> chans \<Rightarrow> client \<Rightarrow> Channel \<Rightarrow> channel \<Rightarrow> string \<Rightarrow> (string \<times> string) res" where
  "channel_modes buflen s cptr ch chptr pbuf =
     (let letters = CHR ''+'' # mode_letters ch;
          (m1, p1) = (if ch_limit ch \<noteq> 0 then (letters @ ''l'', take (buflen - 1) (decimal (unat (ch_limit ch)))) else (letters, pbuf));
          (m2, p2) = (if ch_redirect ch \<noteq> [] then (m1 @ ''L'', p1 @ (if ch_limit ch \<noteq> 0 then '' '' else []) @ ch_redirect ch) else (m1, p1))
      in if ch_key ch \<noteq> [] then
           res_bind (is_chan_op s cptr chptr) (\<lambda>op.
             Inr (m2 @ ''k'', p2 @ '' '' @ (if op \<or> IsServer (clients s cptr) \<or> IsOper (clients s cptr) then ch_key ch else ''*'')))
         else Inr (m2, p2))"

end
