(* ===== verification/Bans_Correct.thy ===== *)
theory Bans_Correct
  imports Bans Channel_Inv
begin

text \<open>
  What the ban checks decide: the tests on strings are resolved into the wildcard relation \<open>glob\<close>,
  networks and the names a user is known under.
\<close>

section \<open>What an entry means\<close>

definition mask_ok :: "string \<Rightarrow> bool" where
  "mask_ok m \<longleftrightarrow> m \<noteq> [] \<and> cstring m \<and> (\<forall>c \<in> set m. c \<noteq> CHR 0x5C)"

definition superset :: "string \<Rightarrow> string \<Rightarrow> bool" where
  "superset old new \<longleftrightarrow> mmatch old new = returning 0"

text \<open>The hosts a user is known under, and the marks before the real host.\<close>

definition hidden_host :: "banfeat \<Rightarrow> cclient \<Rightarrow> User \<Rightarrow> string" where
  "hidden_host feat c us =
     (if HasFakeHost c then take HOSTLEN (u_fakehost us)
      else take (HOSTLEN - 1) (u_account us @ ''.''
        @ (if IsAnOper c \<and> feat_OPERHOST_HIDING feat then feat_HIDDEN_OPERHOST feat else feat_HIDDEN_HOST feat)))"

definition known_hosts :: "banfeat \<Rightarrow> cclient \<Rightarrow> User \<Rightarrow> string set" where
  "known_hosts feat c us =
     {u_host us} \<union> (if HasSetHost c then {u_realhost us} else {}) \<union> (if HasFakeHost c then {u_fakehost us} else {})
     \<union> (if feat_HOST_HIDING_STYLE feat = 1
        then (if IsAccount c then {if HasHiddenHost c \<and> \<not> HasSetHost c then u_realhost us else hidden_host feat c us} else {})
        else {if IsHiddenHost c \<and> \<not> HasSetHost c then u_realhost us else take (HOSTLEN - 1) (u_virthost us)})"

definition marks :: "cclient \<Rightarrow> string set" where
  "marks c = (if IsDNSBLMarked c then set (cc_sdnsbls c) else {}) \<union> (if cc_killmark c \<noteq> [] then {cc_killmark c} else {})"

definition known_as :: "banfeat \<Rightarrow> cclient \<Rightarrow> User \<Rightarrow> string set" where
  "known_as feat c us = make_nick_user_host (cc_name c) (u_realusername us) ` known_hosts feat c us"

definition in_network :: "int \<Rightarrow> u32 \<Rightarrow> u32 \<Rightarrow> bool" where
  "in_network bits net ip \<longleftrightarrow> 0 < bits \<and> bits < 33
     \<and> drop_bit (nat (32 - bits)) ip = drop_bit (nat (32 - bits)) net \<and> take_bit (nat (32 - bits)) net = 0"

definition nick_user :: "cclient \<Rightarrow> User \<Rightarrow> string" where
  "nick_user c us = cc_name c @ ''!'' @ u_realusername us"

definition address_hit :: "cclient \<Rightarrow> User \<Rightarrow> string \<Rightarrow> bool" where
  "address_hit c us str \<longleftrightarrow> glob str (nick_user c us @ ''@'' @ ip_text (cc_ip c))
     \<or> (case last_at str of None \<Rightarrow> False
        | Some (who, addr) \<Rightarrow> CHR ''/'' \<in> set addr \<and> glob who (nick_user c us)
            \<and> in_network (atoi (tl (dropWhile (\<lambda>x. x \<noteq> CHR ''/'') addr))) (inet_addr (takeWhile (\<lambda>x. x \<noteq> CHR ''/'') addr)) (cc_ip c))"

definition host_applies :: "u32 \<Rightarrow> cclient \<Rightarrow> User \<Rightarrow> u32 \<Rightarrow> string \<Rightarrow> bool" where
  "host_applies ipmask c us flags str \<longleftrightarrow>
     flags AND ipmask \<noteq> 0 \<and> address_hit c us str \<or> (\<exists>k \<in> marks c. glob str (marked_mask c us k))"

definition names_applies :: "banfeat \<Rightarrow> cclient \<Rightarrow> User \<Rightarrow> string \<Rightarrow> bool" where
  "names_applies feat c us str \<longleftrightarrow> (\<exists>n \<in> known_as feat c us. glob str n)"

definition channel_applies :: "chans \<Rightarrow> User \<Rightarrow> string \<Rightarrow> bool" where
  "channel_applies s us e \<longleftrightarrow> (\<exists>m \<in> set (u_channel us).
     let name = name_of s (m_channel (membership s m))
     in if hd e = CHR ''#'' then superset e name
        else superset (tl e) name \<and> (hd e = CHR ''@'' \<and> IsChanOp (membership s m) \<or> hd e = CHR ''%'' \<and> IsHalfOp (membership s m)
           \<or> hd e = CHR ''+'' \<and> HasVoice (membership s m)))"

text \<open>The extended kinds of entry, with the sense of a reversed entry turned around.\<close>

definition ext_applies :: "bool \<Rightarrow> chans \<Rightarrow> cclient \<Rightarrow> User \<Rightarrow> Ban \<Rightarrow> bool" where
  "ext_applies turned s c us b \<longleftrightarrow>
     extflag b AND EXTBAN_CHAN \<noteq> 0 \<and> channel_applies s us (the (extstr b)) \<noteq> turned
     \<or> extflag b AND EXTBAN_REAL \<noteq> 0 \<and> superset (decodespace (the (extstr b))) (cc_info c) \<noteq> turned
     \<or> extflag b AND EXTBAN_ACCOUNT \<noteq> 0 \<and> glob (the (extstr b)) (u_account us) \<noteq> turned"

definition ban_applies :: "banfeat \<Rightarrow> chans \<Rightarrow> client \<Rightarrow> User \<Rightarrow> Ban \<Rightarrow> bool" where
  "ban_applies feat s u us b \<longleftrightarrow> host_applies CHFL_BAN_IPMASK (clients s u) us (ban_flags b) (banstr b)
     \<or> ext_applies (extflag b AND EXTBAN_REVERSE \<noteq> 0) s (clients s u) us b \<or> names_applies feat (clients s u) us (banstr b)"

definition except_applies :: "banfeat \<Rightarrow> chans \<Rightarrow> client \<Rightarrow> User \<Rightarrow> Ban \<Rightarrow> bool" where
  "except_applies feat s u us b \<longleftrightarrow> host_applies CHFL_EXCEPT_IPMASK (clients s u) us (ban_flags b) (banstr b)
     \<or> ext_applies False s (clients s u) us b \<or> names_applies feat (clients s u) us (banstr b)"

text \<open>Entries and users the checks are meant for.\<close>

definition addr_ok :: "string \<Rightarrow> bool" where
  "addr_ok str \<longleftrightarrow> mask_ok str \<and> (\<forall>who addr. last_at str = Some (who, addr) \<longrightarrow> who \<noteq> [])"

definition ban_ok :: "Ban \<Rightarrow> bool" where
  "ban_ok b \<longleftrightarrow> addr_ok (banstr b)
     \<and> (extflag b \<noteq> 0 \<longrightarrow> (\<exists>e. extstr b = Some e \<and> addr_ok e \<and> (hd e = CHR ''#'' \<or> tl e \<noteq> [])))"

definition person_ok :: "banfeat \<Rightarrow> cclient \<Rightarrow> User \<Rightarrow> bool" where
  "person_ok feat c us \<longleftrightarrow> length (cc_name c) \<le> NICKLEN \<and> length (u_realusername us) \<le> USERLEN
     \<and> CHR ''@'' \<notin> set (cc_name c @ u_realusername us) \<and> cstring (cc_info c) \<and> CHR 0x5C \<notin> set (cc_info c)
     \<and> (\<forall>x \<in> set ([cc_name c, u_realusername us, u_host us, u_realhost us, u_fakehost us, u_account us, u_virthost us,
           cc_killmark c, feat_HIDDEN_OPERHOST feat, feat_HIDDEN_HOST feat] @ cc_sdnsbls c). cstring x)"

section \<open>Tests\<close>

lemma or_else_returning [simp]: "or_else (returning a) (returning b) = returning (a \<or> b)"
  by (cases a) (simp_all add: or_else_def)

lemma when_flag_returning: "when_flag flags f (returning a) = returning (flags AND f \<noteq> 0 \<and> a)"
  by (simp add: when_flag_def)

lemma matches_glob: "mask_ok m \<Longrightarrow> cstring s \<Longrightarrow> matches m s = returning (glob m s)"
  using match_exact [of m s] by (simp add: matches_def mask_ok_def returning_def)

lemma any_match_glob: "mask_ok m \<Longrightarrow> \<forall>s \<in> set ss. cstring s \<Longrightarrow> any_match m ss = returning (\<exists>s \<in> set ss. glob m s)"
  by (induction ss) (simp_all add: matches_glob)

lemma mmatches_superset:
  "mask_ok m \<Longrightarrow> cstring s \<Longrightarrow> CHR 0x5C \<notin> set s \<Longrightarrow> mmatches m s = returning (superset m s)"
proof -
  assume "mask_ok m" "cstring s" "CHR 0x5C \<notin> set s"
  then consider "mmatch m s = returning 1" | "mmatch m s = returning 0"
    using mmatch_covers [of m s] unfolding mask_ok_def by blast
  then show ?thesis by cases (simp_all add: mmatches_def superset_def)
qed

lemma decodespace_ok:
  assumes "mask_ok m"
  shows "mask_ok (decodespace m)"
proof -
  have "set (decodespace m) \<subseteq> insert (CHR '' '') (set m)" unfolding decodespace_def by (rule decode_set)
  moreover have "decodespace m \<noteq> []" unfolding decodespace_def by (rule decode_ne) (use assms in \<open>simp_all add: mask_ok_def\<close>)
  ultimately show ?thesis using assms by (auto simp: mask_ok_def cstring_def)
qed

lemma nuh_cstring: "cstring n \<Longrightarrow> cstring u \<Longrightarrow> cstring h \<Longrightarrow> cstring (make_nick_user_host n u h)"
  by (simp add: make_nick_user_host_def cstring_take)

lemma person_strings:
  assumes "person_ok feat c us"
  shows "cstring (cc_name c)" "cstring (u_realusername us)" "cstring (u_host us)" "cstring (u_realhost us)" "cstring (u_fakehost us)"
    "cstring (u_account us)" "cstring (u_virthost us)" "cstring (cc_killmark c)" "cstring (feat_HIDDEN_OPERHOST feat)"
    "cstring (feat_HIDDEN_HOST feat)" "k \<in> set (cc_sdnsbls c) \<Longrightarrow> cstring k"
  using assms by (simp_all add: person_ok_def)

lemma marked_mask_cstring: "person_ok feat c us \<Longrightarrow> cstring k \<Longrightarrow> cstring (marked_mask c us k)"
  using person_strings [of feat c us] by (simp add: marked_mask_def nuh_cstring cstring_take)

lemma known_cstring: "person_ok feat c us \<Longrightarrow> n \<in> known_as feat c us \<Longrightarrow> cstring n"
  using person_strings [of feat c us]
  by (auto simp: known_as_def known_hosts_def hidden_host_def nuh_cstring cstring_take split: if_splits)

lemma user_masks_known: "\<exists>ms. user_masks feat c us = Inr ms \<and> set ms = known_as feat c us"
proof -
  let ?nuh = "make_nick_user_host (cc_name c) (u_realusername us)"
  have "\<exists>sa. account_mask feat c us = Inr sa \<and> set_option sa = ?nuh ` (if feat_HOST_HIDING_STYLE feat = 1
        then (if IsAccount c then {if HasHiddenHost c \<and> \<not> HasSetHost c then u_realhost us else hidden_host feat c us} else {})
        else {if IsHiddenHost c \<and> \<not> HasSetHost c then u_realhost us else take (HOSTLEN - 1) (u_virthost us)})"
    by (simp add: account_mask_def make_hidden_hostmask_def hidden_host_def Let_def)
  then obtain sa where sa: "account_mask feat c us = Inr sa" and "set_option sa = ?nuh ` (if feat_HOST_HIDING_STYLE feat = 1
        then (if IsAccount c then {if HasHiddenHost c \<and> \<not> HasSetHost c then u_realhost us else hidden_host feat c us} else {})
        else {if IsHiddenHost c \<and> \<not> HasSetHost c then u_realhost us else take (HOSTLEN - 1) (u_virthost us)})" by blast
  then have "set (case sa of None \<Rightarrow> [] | Some m \<Rightarrow> [m]) = ?nuh ` (if feat_HOST_HIDING_STYLE feat = 1
        then (if IsAccount c then {if HasHiddenHost c \<and> \<not> HasSetHost c then u_realhost us else hidden_host feat c us} else {})
        else {if IsHiddenHost c \<and> \<not> HasSetHost c then u_realhost us else take (HOSTLEN - 1) (u_virthost us)})"
    by (cases sa) simp_all
  then show ?thesis using sa unfolding known_as_def known_hosts_def image_Un
    by (simp add: user_masks_def Let_def)
qed

lemma ip_text_props: "length (ip_text ip) < 16" "CHR ''@'' \<notin> set (ip_text ip)" "cstring (ip_text ip)"
proof -
  have d: "length (decimal (unat x)) \<le> 3" for x :: u8
    using unat_u8_less [of x] by (intro length_decimal) simp
  have c: "c \<noteq> CHR ''@'' \<and> c \<noteq> NUL" if "c \<in> set (decimal n)" for c n using decimal_digits [OF that] by auto
  show "length (ip_text ip) < 16"
    using d [of "ucast (drop_bit 24 ip)"] d [of "ucast (drop_bit 16 ip)"] d [of "ucast (drop_bit 8 ip)"] d [of "ucast ip"]
    by (simp add: ip_text_def ircd_ntoa_r_def)
  show "CHR ''@'' \<notin> set (ip_text ip)" "cstring (ip_text ip)"
    using c by (auto simp: ip_text_def ircd_ntoa_r_def cstring_def)
qed

lemma ip_mask_form:
  assumes "person_ok feat c us"
  shows "make_nick_user_ip (cc_name c) (u_realusername us) (cc_ip c) = nick_user c us @ CHR ''@'' # ip_text (cc_ip c)"
    "CHR ''@'' \<notin> set (nick_user c us)" "cstring (nick_user c us)"
proof -
  have l: "length (cc_name c) \<le> NICKLEN" "length (u_realusername us) \<le> USERLEN" "CHR ''@'' \<notin> set (cc_name c @ u_realusername us)"
    using assms by (simp_all add: person_ok_def)
  then have "length (cc_name c @ ''!'' @ u_realusername us @ ''@'' @ ip_text (cc_ip c)) \<le> NUI_BUFSIZE - 1"
    using ip_text_props(1) [of "cc_ip c"] by (simp add: NUI_BUFSIZE_def)
  then show "make_nick_user_ip (cc_name c) (u_realusername us) (cc_ip c) = nick_user c us @ CHR ''@'' # ip_text (cc_ip c)"
    unfolding make_nick_user_ip_def nick_user_def by (subst take_all) simp_all
  show "CHR ''@'' \<notin> set (nick_user c us)" "cstring (nick_user c us)"
    using l person_strings(1,2) [OF assms] by (simp_all add: nick_user_def)
qed

lemma mask_ok_part: "mask_ok (u @ CHR ''@'' # h) \<Longrightarrow> u \<noteq> [] \<Longrightarrow> mask_ok u"
  by (simp add: mask_ok_def)

lemma ip_hit_address:
  assumes p: "person_ok feat c us" and a: "addr_ok str"
  shows "ip_hit c us str = returning (address_hit c us str)"
proof -
  let ?nu = "nick_user c us" and ?ip = "ip_text (cc_ip c)"
  note f = ip_mask_form [OF p]
  have whole: "matches str (?nu @ CHR ''@'' # ?ip) = returning (glob str (?nu @ CHR ''@'' # ?ip))"
    using a f(3) ip_text_props(3) by (intro matches_glob) (simp_all add: addr_ok_def)
  have la: "last_at (?nu @ CHR ''@'' # ?ip) = Some (?nu, ?ip)" by (rule last_at_split [OF ip_text_props(2)])
  have tw: "takeWhile (\<lambda>x. x \<noteq> CHR ''@'') (?nu @ CHR ''@'' # ?ip) = ?nu"
    using f(2) by (auto simp: takeWhile_append)
  show ?thesis
  proof (cases "last_at str")
    case None
    then show ?thesis using whole by (simp add: ip_hit_def f(1) la address_hit_def Let_def)
  next
    case (Some wa)
    then obtain who addr where wa: "last_at str = Some (who, addr)" by (cases wa) auto
    have "str = who @ CHR ''@'' # addr" using last_at_Some [OF wa] by simp
    then have "mask_ok who" using a wa mask_ok_part [of who addr] by (auto simp: addr_ok_def)
    then have "matches who ?nu = returning (glob who ?nu)" using f(3) by (rule matches_glob)
    moreover have "0 < bits \<and> bits < 33 \<and> NETMASK bits AND cc_ip c = net \<longleftrightarrow> in_network bits net (cc_ip c)" for bits net
      using NETMASK_prefix [of bits "cc_ip c" net] by (auto simp: in_network_def)
    ultimately show ?thesis using whole
      by (simp add: ip_hit_def f(1) la tw wa address_hit_def Let_def inet_addr_ip_text)
  qed
qed

lemma host_hit_applies:
  assumes p: "person_ok feat c us" and a: "addr_ok str"
  shows "host_hit ipmask c us b str = returning (host_applies ipmask c us (ban_flags b) str)"
proof -
  have m: "mask_ok str" using a by (simp add: addr_ok_def)
  have "dnsbl_hit c us str = returning (\<exists>k \<in> (if IsDNSBLMarked c then set (cc_sdnsbls c) else {}). glob str (marked_mask c us k))"
    using any_match_glob [OF m, of "map (marked_mask c us) (cc_sdnsbls c)"] marked_mask_cstring [OF p] person_strings(11) [OF p]
    by (simp add: dnsbl_hit_def)
  moreover have "killmark_hit c us str = returning (cc_killmark c \<noteq> [] \<and> glob str (marked_mask c us (cc_killmark c)))"
    using matches_glob [OF m marked_mask_cstring [OF p person_strings(8) [OF p]]] by (simp add: killmark_hit_def)
  ultimately show ?thesis using ip_hit_address [OF p a]
    by (auto simp: host_hit_def host_applies_def when_flag_returning marks_def)
qed

text \<open>The memberships of the user, on channels that exist.\<close>

definition member_ok :: "chans \<Rightarrow> member \<Rightarrow> bool" where
  "member_ok s m \<longleftrightarrow> (\<exists>ch. channel_at s (m_channel (membership s m)) = Some ch \<and> cstring (ch_name ch) \<and> CHR 0x5C \<notin> set (ch_name ch))"

lemma mask_ok_tl: "mask_ok e \<Longrightarrow> tl e \<noteq> [] \<Longrightarrow> mask_ok (tl e)"
  by (cases e) (simp_all add: mask_ok_def)

lemma chan_entry_applies:
  assumes "member_ok s m" "mask_ok e" "hd e = CHR ''#'' \<or> tl e \<noteq> []"
  shows "chan_entry s e m = returning (channel_applies s (us\<lparr>u_channel := [m]\<rparr>) e)"
proof -
  obtain ch where ch: "channel_at s (m_channel (membership s m)) = Some ch" "cstring (ch_name ch)" "CHR 0x5C \<notin> set (ch_name ch)"
    using assms(1) by (auto simp: member_ok_def)
  obtain p name where e: "e = p # name" using assms(2) by (cases e) (auto simp: mask_ok_def)
  have "mmatches e (ch_name ch) = returning (superset e (ch_name ch))" by (rule mmatches_superset [OF assms(2) ch(2,3)])
  moreover have "mmatches name (ch_name ch) = returning (superset name (ch_name ch))" if "p \<noteq> CHR ''#''"
    using assms(2,3) that e mask_ok_tl [of e] by (intro mmatches_superset [OF _ ch(2,3)]) simp
  ultimately show ?thesis using ch(1) e
    by (cases "p = CHR ''#''") (simp_all add: chan_entry_def channel_applies_def name_of_def Let_def)
qed

lemma chan_hit_applies:
  assumes "\<forall>m \<in> set ms. member_ok s m" "mask_ok e" "hd e = CHR ''#'' \<or> tl e \<noteq> []"
  shows "chan_hit s (Some e) ms = returning (channel_applies s (us\<lparr>u_channel := ms\<rparr>) e)"
  using assms(1)
proof (induction ms)
  case Nil
  then show ?case by (simp add: channel_applies_def)
next
  case (Cons m ms)
  then have "chan_entry s e m = returning (channel_applies s (us\<lparr>u_channel := [m]\<rparr>) e)"
    by (intro chan_entry_applies [OF _ assms(2,3)]) simp
  then show ?case using Cons by (simp add: the_str_def channel_applies_def)
qed

lemma ext_hits:
  assumes "person_ok feat c us" "\<forall>m \<in> set (u_channel us). member_ok s m" "ban_ok b" "extflag b \<noteq> 0"
  shows "chan_hit s (extstr b) (u_channel us) = returning (channel_applies s us (the (extstr b)))"
    "real_hit c (extstr b) = returning (superset (decodespace (the (extstr b))) (cc_info c))"
    "account_hit us (extstr b) = returning (glob (the (extstr b)) (u_account us))"
proof -
  obtain e where e: "extstr b = Some e" "mask_ok e" "hd e = CHR ''#'' \<or> tl e \<noteq> []" using assms(3,4) by (auto simp: ban_ok_def addr_ok_def)
  show "chan_hit s (extstr b) (u_channel us) = returning (channel_applies s us (the (extstr b)))"
    using chan_hit_applies [OF assms(2) e(2,3), of us] e(1) by simp
  show "real_hit c (extstr b) = returning (superset (decodespace (the (extstr b))) (cc_info c))"
    using assms(1) mmatches_superset [OF decodespace_ok [OF e(2)], of "cc_info c"] e(1) by (simp add: real_hit_def the_str_def person_ok_def)
  show "account_hit us (extstr b) = returning (glob (the (extstr b)) (u_account us))"
    using matches_glob [OF e(2) person_strings(6) [OF assms(1)]] e(1) by (simp add: account_hit_def the_str_def)
qed

section \<open>Lists\<close>

text \<open>A list of entries is scanned by a test that decides one entry and keeps the state good.\<close>

locale list_check =
  fixes good :: "chans \<Rightarrow> bool" and test :: "Ban \<Rightarrow> decision" and applies :: "Ban \<Rightarrow> bool" and entry_ok :: "Ban \<Rightarrow> bool"
  assumes test_law: "good s \<Longrightarrow> entry_ok b \<Longrightarrow> \<exists>s'. test b s = returning (s', applies b) \<and> good s'"
begin

lemma scan:
  "good s \<Longrightarrow> \<forall>b \<in> set bs. entry_ok b \<Longrightarrow> \<exists>s'. scan_list test bs s = returning (s', \<exists>b \<in> set bs. applies b) \<and> good s'"
proof (induction bs arbitrary: s)
  case (Cons b bs)
  obtain s1 where s1: "test b s = returning (s1, applies b)" "good s1" using test_law [of s b] Cons.prems by auto
  then show ?case using Cons.IH [OF s1(2)] Cons.prems(2) by (cases "applies b") auto
qed simp

end

text \<open>States that differ in the order of the hash buckets only.\<close>

definition retabled :: "chans \<Rightarrow> chans \<Rightarrow> bool" where
  "retabled s0 s \<longleftrightarrow> (\<exists>t. s = s0\<lparr>channelTable := t\<rparr> \<and> table_inv (crc32hash s0) (name_of s0) t \<and> members t = members (channelTable s0))"

lemma retabled_views:
  assumes "retabled s0 s"
  shows "channel_at s = channel_at s0" "cli_user s = cli_user s0" "clients s = clients s0" "membership s = membership s0"
    "name_of s = name_of s0" "crc32hash s = crc32hash s0" "members (channelTable s) = members (channelTable s0)"
proof -
  obtain t where t: "s = s0\<lparr>channelTable := t\<rparr>" "members t = members (channelTable s0)" using assms unfolding retabled_def by blast
  show "channel_at s = channel_at s0" "cli_user s = cli_user s0" "clients s = clients s0" "membership s = membership s0"
    "name_of s = name_of s0" "crc32hash s = crc32hash s0" "members (channelTable s) = members (channelTable s0)"
    unfolding t(1) using t(2) by simp_all
qed

lemma retabled_refl: "core_ok s \<Longrightarrow> retabled s s"
  by (auto simp: retabled_def core_ok_def channels_ok_def intro!: exI [of _ "channelTable s"])

lemma retabled_trans: "retabled s0 s1 \<Longrightarrow> retabled s1 s2 \<Longrightarrow> retabled s0 s2"
  by (auto simp: retabled_def)

lemma retabled_core: "retabled s0 s \<Longrightarrow> core_ok s0 \<Longrightarrow> core_ok s"
proof -
  assume "retabled s0 s" "core_ok s0"
  then obtain t where t: "s = s0\<lparr>channelTable := t\<rparr>" "table_inv (crc32hash s0) (name_of s0) t" "members t = members (channelTable s0)"
    "matrix_ok s0" "counts_ok s0" "channels_ok s0"
    unfolding retabled_def core_ok_def by blast
  then show ?thesis using channels_ok_table [OF t(6,2,3)] by (simp add: core_ok_def matrix_ok_def)
qed

definition bans_at :: "chans \<Rightarrow> channel \<Rightarrow> Ban list" where
  "bans_at s c = (case channel_at s c of None \<Rightarrow> [] | Some ch \<Rightarrow> ch_banlist ch)"

definition excepts_at :: "chans \<Rightarrow> channel \<Rightarrow> Ban list" where
  "excepts_at s c = (case channel_at s c of None \<Rightarrow> [] | Some ch \<Rightarrow> ch_exceptlist ch)"

definition ban_state :: "banfeat \<Rightarrow> client \<Rightarrow> User \<Rightarrow> chans \<Rightarrow> bool" where
  "ban_state feat u us s \<longleftrightarrow> core_ok s \<and> cli_user s u = Some us \<and> IsUser (clients s u) \<and> person_ok feat (clients s u) us
     \<and> (\<forall>c \<in> dom (channel_at s). CHR 0x5C \<notin> set (name_of s c) \<and> (\<forall>b \<in> set (bans_at s c) \<union> set (excepts_at s c). ban_ok b))"

lemma ban_stateD:
  assumes "ban_state feat u us s"
  shows "core_ok s" "cli_user s u = Some us" "IsUser (clients s u)" "person_ok feat (clients s u) us"
    "channel_at s c = Some ch \<Longrightarrow> CHR 0x5C \<notin> set (ch_name ch) \<and> (\<forall>b \<in> set (ch_banlist ch). ban_ok b) \<and> (\<forall>b \<in> set (ch_exceptlist ch). ban_ok b)"
  using assms by (auto simp: ban_state_def bans_at_def excepts_at_def name_of_def dest!: bspec [of _ _ c])

lemma ban_state_retabled: "ban_state feat u us s0 \<Longrightarrow> retabled s0 s \<Longrightarrow> ban_state feat u us s"
  using retabled_views [of s0 s] retabled_core [of s0 s] by (simp add: ban_state_def bans_at_def excepts_at_def)

lemma name_cstring:
  assumes "core_ok s" "channel_at s c = Some ch"
  shows "cstring (ch_name ch)"
proof -
  have "c \<in> members (channelTable s)" "table_inv (crc32hash s) (name_of s) (channelTable s)"
    using assms by (auto simp: core_ok_def channels_ok_def)
  then have "cstring (name_of s c)" by (auto simp: table_inv_def members_def)
  then show ?thesis using assms(2) by (simp add: name_of_def)
qed

lemma ban_state_members:
  assumes "ban_state feat u us s" "m \<in> set (u_channel us)"
  shows "member_ok s m"
proof -
  note b = ban_stateD [OF assms(1)]
  have "m \<in> set (chan_of s u)" using b(2) assms(2) by (simp add: chan_of_def)
  then have "m \<in> set (mem_of s (m_channel (membership s m)))" using matrix_invD(4) [OF core_okD(1) [OF b(1)]] by blast
  then obtain ch where ch: "channel_at s (m_channel (membership s m)) = Some ch"
    by (cases "channel_at s (m_channel (membership s m))") (simp_all add: mem_of_def)
  then show ?thesis using name_cstring [OF b(1) ch] b(5) [OF ch] by (simp add: member_ok_def)
qed

lemma flag_zero: "extflag b AND f \<noteq> 0 \<Longrightarrow> extflag b \<noteq> 0"
  by auto

lemma when_ext: "(extflag b \<noteq> 0 \<Longrightarrow> a = returning x) \<Longrightarrow> when_flag (extflag b) f a = returning (extflag b AND f \<noteq> 0 \<and> x)"
  using flag_zero by (auto simp: when_flag_def)

lemmas ext_kind_defs = EXTBAN_CHAN_def EXTBAN_REAL_def EXTBAN_ACCOUNT_def EXTEXCEPT_CHAN_def EXTEXCEPT_REAL_def EXTEXCEPT_ACCOUNT_def

lemma ban_hit_applies:
  assumes "ban_state feat u us s" "ban_ok b"
  shows "ban_hit s (clients s u) us b = returning (host_applies CHFL_BAN_IPMASK (clients s u) us (ban_flags b) (banstr b)
     \<or> ext_applies (extflag b AND EXTBAN_REVERSE \<noteq> 0) s (clients s u) us b)"
proof -
  note d = ban_stateD [OF assms(1)]
  note e = ext_hits [OF d(4) _ assms(2), of s]
  have m: "\<forall>m \<in> set (u_channel us). member_ok s m" using ban_state_members [OF assms(1)] by blast
  have h: "host_hit CHFL_BAN_IPMASK (clients s u) us b (banstr b) = returning (host_applies CHFL_BAN_IPMASK (clients s u) us (ban_flags b) (banstr b))"
    using assms(2) by (intro host_hit_applies [OF d(4)]) (simp add: ban_ok_def)
  show ?thesis unfolding ban_hit_def h
    using when_ext [of b "reversed b (chan_hit s (extstr b) (u_channel us))" _ EXTBAN_CHAN]
      when_ext [of b "reversed b (real_hit (clients s u) (extstr b))" _ EXTBAN_REAL]
      when_ext [of b "reversed b (account_hit us (extstr b))" _ EXTBAN_ACCOUNT]
    by (simp add: reversed_def e [OF m] ext_applies_def)
qed

lemma except_hit_applies:
  assumes "ban_state feat u us s" "ban_ok b"
  shows "except_hit s (clients s u) us b = returning (host_applies CHFL_EXCEPT_IPMASK (clients s u) us (ban_flags b) (banstr b)
     \<or> ext_applies False s (clients s u) us b)"
proof -
  note d = ban_stateD [OF assms(1)]
  note e = ext_hits [OF d(4) _ assms(2), of s]
  have m: "\<forall>m \<in> set (u_channel us). member_ok s m" using ban_state_members [OF assms(1)] by blast
  have h: "host_hit CHFL_EXCEPT_IPMASK (clients s u) us b (banstr b) = returning (host_applies CHFL_EXCEPT_IPMASK (clients s u) us (ban_flags b) (banstr b))"
    using assms(2) by (intro host_hit_applies [OF d(4)]) (simp add: ban_ok_def)
  have k: "EXTEXCEPT_CHAN = EXTBAN_CHAN" "EXTEXCEPT_REAL = EXTBAN_REAL" "EXTEXCEPT_ACCOUNT = EXTBAN_ACCOUNT"
    by (simp_all add: ext_kind_defs)
  show ?thesis unfolding except_hit_def h k
    using when_ext [of b "chan_hit s (extstr b) (u_channel us)" _ EXTBAN_CHAN]
      when_ext [of b "real_hit (clients s u) (extstr b)" _ EXTBAN_REAL]
      when_ext [of b "account_hit us (extstr b)" _ EXTBAN_ACCOUNT]
    by (auto simp: e [OF m] ext_applies_def)
qed

lemma names_match:
  assumes "ban_state feat u us s" "mask_ok str" "user_masks feat (clients s u) us = Inr ms"
  shows "any_match str ms = returning (names_applies feat (clients s u) us str)"
  using any_match_glob [OF assms(2), of ms] user_masks_known [of feat "clients s u" us] known_cstring [OF ban_stateD(4) [OF assms(1)]] assms(3)
  by (auto simp: names_applies_def)

text \<open>One entry: its own tests, the list it shares, the names of the user.\<close>

lemma entry_test_applies:
  assumes "pre = returning P" "sharing \<Longrightarrow> \<exists>t. share b s = returning (t, S) \<and> good t" "good s"
    "any_match (banstr b) ms = returning N"
  shows "\<exists>t. entry_test pre sharing share ms b s = returning (t, P \<or> sharing \<and> S \<or> N) \<and> good t"
proof -
  consider "P" | "\<not> P" "sharing" | "\<not> P" "\<not> sharing" by blast
  then show ?thesis
  proof cases
    case 2
    then obtain t where "share b s = returning (t, S)" "good t" using assms(2) by blast
    then show ?thesis using 2 assms(1,4) by (cases S) (simp_all add: entry_test_def)
  qed (use assms in \<open>simp_all add: entry_test_def\<close>)
qed

text \<open>
  What a scan starts from: the state, the user, the masks, and the decision \<open>S\<close> of the shared list
  of an entry.
\<close>

definition scan_start :: "banfeat \<Rightarrow> client \<Rightarrow> User \<Rightarrow> chans \<Rightarrow> string list \<Rightarrow> (Ban \<Rightarrow> decision) \<Rightarrow> (Ban \<Rightarrow> bool) \<Rightarrow> bool" where
  "scan_start feat u us s0 ms share S \<longleftrightarrow> ban_state feat u us s0 \<and> user_masks feat (clients s0 u) us = Inr ms
     \<and> (\<forall>b s. ban_ok b \<and> extflag b AND EXTBAN_SHARE \<noteq> 0 \<and> retabled s0 s \<longrightarrow> (\<exists>t. share b s = returning (t, S b) \<and> retabled s0 t))"

lemma EXTEXCEPT_SHARE_same: "EXTEXCEPT_SHARE = EXTBAN_SHARE"
  by (simp add: EXTEXCEPT_SHARE_def EXTBAN_SHARE_def)

lemma entry_law:
  assumes st: "scan_start feat u us s0 ms share S" and r: "retabled s0 s" and b: "ban_ok b" and pre: "pre = returning P"
  shows "\<exists>t. entry_test pre (extflag b AND EXTBAN_SHARE \<noteq> 0) share ms b s
      = returning (t, P \<or> extflag b AND EXTBAN_SHARE \<noteq> 0 \<and> S b \<or> names_applies feat (clients s0 u) us (banstr b)) \<and> retabled s0 t"
proof (rule entry_test_applies [OF pre])
  show "\<exists>t. share b s = returning (t, S b) \<and> retabled s0 t" if "extflag b AND EXTBAN_SHARE \<noteq> 0"
    using st b r that unfolding scan_start_def by blast
  show "any_match (banstr b) ms = returning (names_applies feat (clients s0 u) us (banstr b))"
    using st b unfolding scan_start_def ban_ok_def addr_ok_def by (blast intro: names_match)
qed (rule r)

interpretation ban_scan: list_check "\<lambda>s. scan_start feat u us s0 ms share S \<and> retabled s0 s"
    "\<lambda>b. entry_test (ban_hit s0 (clients s0 u) us b) (extflag b AND EXTBAN_SHARE \<noteq> 0) share ms b"
    "\<lambda>b. ban_applies feat s0 u us b \<or> extflag b AND EXTBAN_SHARE \<noteq> 0 \<and> S b" ban_ok
    for feat u us s0 ms share S
proof
  fix s b
  assume g: "scan_start feat u us s0 ms share S \<and> retabled s0 s" and b: "ban_ok b"
  then have "ban_state feat u us s0" by (simp add: scan_start_def)
  from entry_law [of feat u us s0 ms share S s b, OF _ _ b ban_hit_applies [OF this b]] g
  show "\<exists>s'. entry_test (ban_hit s0 (clients s0 u) us b) (extflag b AND EXTBAN_SHARE \<noteq> 0) share ms b s
      = returning (s', ban_applies feat s0 u us b \<or> extflag b AND EXTBAN_SHARE \<noteq> 0 \<and> S b)
      \<and> (scan_start feat u us s0 ms share S \<and> retabled s0 s')"
    by (auto simp: ban_applies_def disj_ac)
qed

interpretation except_scan: list_check "\<lambda>s. scan_start feat u us s0 ms share S \<and> retabled s0 s"
    "\<lambda>b. entry_test (except_hit s0 (clients s0 u) us b) (extflag b AND EXTEXCEPT_SHARE \<noteq> 0) share ms b"
    "\<lambda>b. except_applies feat s0 u us b \<or> extflag b AND EXTEXCEPT_SHARE \<noteq> 0 \<and> S b" ban_ok
    for feat u us s0 ms share S
proof
  fix s b
  assume g: "scan_start feat u us s0 ms share S \<and> retabled s0 s" and b: "ban_ok b"
  then have "ban_state feat u us s0" by (simp add: scan_start_def)
  from entry_law [of feat u us s0 ms share S s b, OF _ _ b except_hit_applies [OF this b]] g
  show "\<exists>s'. entry_test (except_hit s0 (clients s0 u) us b) (extflag b AND EXTEXCEPT_SHARE \<noteq> 0) share ms b s
      = returning (s', except_applies feat s0 u us b \<or> extflag b AND EXTEXCEPT_SHARE \<noteq> 0 \<and> S b)
      \<and> (scan_start feat u us s0 ms share S \<and> retabled s0 s')"
    by (auto simp: except_applies_def disj_ac EXTEXCEPT_SHARE_same)
qed

section \<open>Decisions\<close>

definition named :: "chans \<Rightarrow> string \<Rightarrow> channel \<Rightarrow> bool" where
  "named s e t \<longleftrightarrow> t \<in> dom (channel_at s) \<and> lower (name_of s t) = lower e"

definition ban_listed :: "banfeat \<Rightarrow> chans \<Rightarrow> client \<Rightarrow> User \<Rightarrow> channel \<Rightarrow> bool" where
  "ban_listed feat s u us c \<longleftrightarrow> (\<exists>b \<in> set (bans_at s c). ban_applies feat s u us b)"

definition except_listed :: "banfeat \<Rightarrow> chans \<Rightarrow> client \<Rightarrow> User \<Rightarrow> channel \<Rightarrow> bool" where
  "except_listed feat s u us c \<longleftrightarrow> (\<exists>b \<in> set (excepts_at s c). except_applies feat s u us b)"

definition banned_from :: "banfeat \<Rightarrow> chans \<Rightarrow> client \<Rightarrow> User \<Rightarrow> channel \<Rightarrow> bool" where
  "banned_from feat s u us c \<longleftrightarrow> (\<exists>b \<in> set (bans_at s c). ban_applies feat s u us b
     \<or> extflag b AND EXTBAN_SHARE \<noteq> 0 \<and> (\<exists>t. named s (the (extstr b)) t \<and> ban_listed feat s u us t))"

definition excepted_from :: "banfeat \<Rightarrow> chans \<Rightarrow> client \<Rightarrow> User \<Rightarrow> channel \<Rightarrow> bool" where
  "excepted_from feat s u us c \<longleftrightarrow> (\<exists>b \<in> set (excepts_at s c). except_applies feat s u us b
     \<or> extflag b AND EXTEXCEPT_SHARE \<noteq> 0 \<and> (\<exists>t. named s (the (extstr b)) t \<and> except_listed feat s u us t))"

lemma applies_retabled:
  assumes "retabled s0 s"
  shows "ban_applies feat s u us b = ban_applies feat s0 u us b" "except_applies feat s u us b = except_applies feat s0 u us b"
  using retabled_views [OF assms] by (simp_all add: ban_applies_def except_applies_def ext_applies_def channel_applies_def)

lemma listed_retabled:
  assumes "retabled s0 s"
  shows "ban_listed feat s u us c = ban_listed feat s0 u us c" "except_listed feat s u us c = except_listed feat s0 u us c"
  using retabled_views [OF assms] applies_retabled [OF assms]
  by (simp_all add: ban_listed_def except_listed_def bans_at_def excepts_at_def)

definition ban_cached :: "chans \<Rightarrow> member option \<Rightarrow> bool option" where
  "ban_cached s mo = (case mo of None \<Rightarrow> None | Some m \<Rightarrow> if IsBanValid (membership s m) then Some (IsBanned (membership s m)) else None)"

definition except_cached :: "chans \<Rightarrow> member option \<Rightarrow> bool option" where
  "except_cached s mo = (case mo of None \<Rightarrow> None | Some m \<Rightarrow> if IsExceptValid (membership s m) then Some (IsExcepted (membership s m)) else None)"

lemma is_banned_with_ok:
  assumes st: "scan_start feat u us s ms share S" and ch: "channel_at s c = Some ch"
  shows "case ban_cached s mo of Some r \<Rightarrow> is_banned_with feat u share c mo s = returning (s, r)
     | None \<Rightarrow> \<exists>t. is_banned_with feat u share c mo s = returning (note_banned mo (t, \<exists>b \<in> set (ch_banlist ch).
           ban_applies feat s u us b \<or> extflag b AND EXTBAN_SHARE \<noteq> 0 \<and> S b)) \<and> retabled s t"
proof -
  have bs: "ban_state feat u us s" "user_masks feat (clients s u) us = Inr ms" using st by (simp_all add: scan_start_def)
  note d = ban_stateD [OF bs(1)]
  obtain t where t: "scan_list (\<lambda>b. entry_test (ban_hit s (clients s u) us b) (extflag b AND EXTBAN_SHARE \<noteq> 0) share ms b) (ch_banlist ch) s
      = returning (t, \<exists>b \<in> set (ch_banlist ch). ban_applies feat s u us b \<or> extflag b AND EXTBAN_SHARE \<noteq> 0 \<and> S b)" "retabled s t"
    using ban_scan.scan [of feat u us s ms share S s "ch_banlist ch"] st retabled_refl [OF d(1)] d(5) [OF ch] by blast
  show ?thesis
  proof (cases "ban_cached s mo")
    case (Some r)
    then show ?thesis using d(3) by (auto simp: ban_cached_def is_banned_with_def Let_def split: option.splits if_splits)
  next
    case None
    then have v: "\<not> (case mo of None \<Rightarrow> False | Some m \<Rightarrow> IsBanValid (membership s m))"
      by (auto simp: ban_cached_def split: option.splits if_splits)
    have "is_banned_with feat u share c mo s = returning (note_banned mo (t, \<exists>b \<in> set (ch_banlist ch).
           ban_applies feat s u us b \<or> extflag b AND EXTBAN_SHARE \<noteq> 0 \<and> S b))"
      unfolding is_banned_with_def Let_def if_not_P [OF v] using d(2,3) bs(2) ch t(1) by simp
    then show ?thesis using None t(2) by auto
  qed
qed

lemma is_excepted_with_ok:
  assumes st: "scan_start feat u us s ms share S" and ch: "channel_at s c = Some ch"
  shows "case except_cached s mo of Some r \<Rightarrow> is_excepted_with feat u share c mo s = returning (s, r)
     | None \<Rightarrow> \<exists>t. is_excepted_with feat u share c mo s = returning (note_excepted mo (t, \<exists>b \<in> set (ch_exceptlist ch).
           except_applies feat s u us b \<or> extflag b AND EXTEXCEPT_SHARE \<noteq> 0 \<and> S b)) \<and> retabled s t"
proof -
  have bs: "ban_state feat u us s" "user_masks feat (clients s u) us = Inr ms" using st by (simp_all add: scan_start_def)
  note d = ban_stateD [OF bs(1)]
  obtain t where t: "scan_list (\<lambda>b. entry_test (except_hit s (clients s u) us b) (extflag b AND EXTEXCEPT_SHARE \<noteq> 0) share ms b) (ch_exceptlist ch) s
      = returning (t, \<exists>b \<in> set (ch_exceptlist ch). except_applies feat s u us b \<or> extflag b AND EXTEXCEPT_SHARE \<noteq> 0 \<and> S b)" "retabled s t"
    using except_scan.scan [of feat u us s ms share S s "ch_exceptlist ch"] st retabled_refl [OF d(1)] d(5) [OF ch] by blast
  show ?thesis
  proof (cases "except_cached s mo")
    case (Some r)
    then show ?thesis using d(3) by (auto simp: except_cached_def is_excepted_with_def Let_def split: option.splits if_splits)
  next
    case None
    then have v: "\<not> (case mo of None \<Rightarrow> False | Some m \<Rightarrow> IsExceptValid (membership s m))"
      by (auto simp: except_cached_def split: option.splits if_splits)
    have "is_excepted_with feat u share c mo s = returning (note_excepted mo (t, \<exists>b \<in> set (ch_exceptlist ch).
           except_applies feat s u us b \<or> extflag b AND EXTEXCEPT_SHARE \<noteq> 0 \<and> S b))"
      unfolding is_excepted_with_def Let_def if_not_P [OF v] using d(2,3) bs(2) ch t(1) by simp
    then show ?thesis using None t(2) by auto
  qed
qed

text \<open>The lookup of a shared channel.\<close>

lemma FindChannel_named:
  assumes "core_ok s" "e \<noteq> []" "cstring e"
  shows "\<exists>t r. FindChannel (Some e) s = Inr (t, r) \<and> retabled s t \<and> (case r of None \<Rightarrow> \<forall>x. \<not> named s e x | Some x \<Rightarrow> \<forall>y. named s e y \<longleftrightarrow> y = x)"
proof -
  have ti: "table_inv (crc32hash s) (name_of s) (channelTable s)" "members (channelTable s) = dom (channel_at s)"
    "inj_on (\<lambda>c. lower (name_of s c)) (dom (channel_at s))"
    using assms(1) by (simp_all add: core_ok_def channels_ok_def)
  obtain t r where t: "hSeekChannel (crc32hash s) (name_of s) (channelTable s) e = Inr (t, r)"
    "table_inv (crc32hash s) (name_of s) t" "members t = members (channelTable s)"
    and r: "case r of None \<Rightarrow> \<forall>x \<in> members (channelTable s). True \<longrightarrow> lower (name_of s x) \<noteq> lower e
           | Some x \<Rightarrow> x \<in> members (channelTable s) \<and> True \<and> lower (name_of s x) = lower e"
    using channels.seek_law [OF ti(1) assms(2,3)] by blast
  have "retabled s (s\<lparr>channelTable := t\<rparr>)" unfolding retabled_def using t(2,3) by blast
  moreover have "case r of None \<Rightarrow> \<forall>x. \<not> named s e x | Some x \<Rightarrow> \<forall>y. named s e y \<longleftrightarrow> y = x"
  proof (cases r)
    case None
    then show ?thesis using r ti(2) by (auto simp: named_def)
  next
    case (Some x)
    then have x: "x \<in> dom (channel_at s)" "lower (name_of s x) = lower e" using r ti(2) by auto
    have "y = x" if "named s e y" for y using inj_onD [OF ti(3), of y x] that x by (simp add: named_def)
    moreover have "named s e x" using x by (simp add: named_def)
    ultimately have "\<forall>y. named s e y \<longleftrightarrow> y = x" by blast
    then show ?thesis using Some by simp
  qed
  ultimately show ?thesis using t(1) assms(2) by (auto simp: FindChannel_def)
qed

lemma share_hit_ok:
  assumes bs: "ban_state feat u us s0" and r: "retabled s0 s" and b: "ban_ok b" "extflag b AND EXTBAN_SHARE \<noteq> 0"
    and again: "\<And>c s. retabled s0 s \<Longrightarrow> c \<in> dom (channel_at s0) \<Longrightarrow> \<exists>t. again c s = returning (t, L c) \<and> retabled s0 t"
  shows "\<exists>t. share_hit again b s = returning (t, \<exists>c. named s0 (the (extstr b)) c \<and> L c) \<and> retabled s0 t"
proof -
  obtain e where e: "extstr b = Some e" "e \<noteq> []" "cstring e"
    using b flag_zero [of b] by (auto simp: ban_ok_def addr_ok_def mask_ok_def)
  have c: "core_ok s" using retabled_core [OF r] ban_stateD(1) [OF bs] by simp
  obtain t x where t: "FindChannel (Some e) s = Inr (t, x)" "retabled s t"
    "case x of None \<Rightarrow> \<forall>y. \<not> named s e y | Some c \<Rightarrow> \<forall>y. named s e y \<longleftrightarrow> y = c"
    using FindChannel_named [OF c e(2,3)] by blast
  have n: "named s e = named s0 e" by (intro ext) (simp add: named_def retabled_views [OF r])
  have t0: "retabled s0 t" using retabled_trans [OF r t(2)] .
  show ?thesis
  proof (cases x)
    case None
    then have no: "\<not> (\<exists>c. named s0 e c \<and> L c)" using t(3) n by simp
    have "share_hit again b s = returning (t, False)" using e(1) t(1) None by (simp add: share_hit_def)
    then show ?thesis using t0 no e(1) by simp
  next
    case (Some c)
    then have y: "\<forall>y. named s0 e y \<longleftrightarrow> y = c" using t(3) n by simp
    then have "c \<in> dom (channel_at s0)" by (auto simp: named_def)
    then obtain t' where t': "again c t = returning (t', L c)" "retabled s0 t'" using again [OF t0] by blast
    have "share_hit again b s = returning (t', L c)" using e(1) t(1) Some t' by (simp add: share_hit_def)
    moreover have "(\<exists>c. named s0 (the (extstr b)) c \<and> L c) = L c" using y e(1) by simp
    ultimately show ?thesis using t'(2) by simp
  qed
qed

lemma start_alone:
  assumes "ban_state feat u us s" "user_masks feat (clients s u) us = Inr ms"
  shows "scan_start feat u us s ms no_share (\<lambda>_. False)"
  using assms by (simp add: scan_start_def no_share_def)

lemma bans_alone:
  assumes bs: "ban_state feat u us s0" and r: "retabled s0 s" and c: "c \<in> dom (channel_at s0)"
  shows "\<exists>t. is_banned_with feat u no_share c None s = returning (t, ban_listed feat s0 u us c) \<and> retabled s0 t"
    "\<exists>t. is_excepted_with feat u no_share c None s = returning (t, except_listed feat s0 u us c) \<and> retabled s0 t"
proof -
  have b: "ban_state feat u us s" by (rule ban_state_retabled [OF bs r])
  obtain ms where ms: "user_masks feat (clients s u) us = Inr ms" using user_masks_known by blast
  obtain ch where ch: "channel_at s c = Some ch" using c retabled_views(1) [OF r] by auto
  have l: "(\<exists>b \<in> set (ch_banlist ch). ban_applies feat s u us b) = ban_listed feat s u us c"
    "(\<exists>b \<in> set (ch_exceptlist ch). except_applies feat s u us b) = except_listed feat s u us c"
    using ch by (simp_all add: ban_listed_def except_listed_def bans_at_def excepts_at_def)
  note st = start_alone [OF b ms]
  obtain t where "is_banned_with feat u no_share c None s = returning (t, ban_listed feat s u us c)" "retabled s t"
    using is_banned_with_ok [OF st ch, of None] l(1) by (auto simp: ban_cached_def note_banned_def)
  then show "\<exists>t. is_banned_with feat u no_share c None s = returning (t, ban_listed feat s0 u us c) \<and> retabled s0 t"
    using listed_retabled(1) [OF r] retabled_trans [OF r] by auto
  obtain t where "is_excepted_with feat u no_share c None s = returning (t, except_listed feat s u us c)" "retabled s t"
    using is_excepted_with_ok [OF st ch, of None] l(2) by (auto simp: except_cached_def note_excepted_def)
  then show "\<exists>t. is_excepted_with feat u no_share c None s = returning (t, except_listed feat s0 u us c) \<and> retabled s0 t"
    using listed_retabled(2) [OF r] retabled_trans [OF r] by auto
qed

lemma start_sharing:
  assumes bs: "ban_state feat u us s" and ms: "user_masks feat (clients s u) us = Inr ms"
  shows "scan_start feat u us s ms (share_hit (\<lambda>t. is_banned_with feat u no_share t None))
      (\<lambda>b. \<exists>c. named s (the (extstr b)) c \<and> ban_listed feat s u us c)"
    "scan_start feat u us s ms (share_hit (\<lambda>t. is_excepted_with feat u no_share t None))
      (\<lambda>b. \<exists>c. named s (the (extstr b)) c \<and> except_listed feat s u us c)"
proof -
  have "\<exists>t. share_hit (\<lambda>t. is_banned_with feat u no_share t None) b s1
      = returning (t, \<exists>c. named s (the (extstr b)) c \<and> ban_listed feat s u us c) \<and> retabled s t"
    "\<exists>t. share_hit (\<lambda>t. is_excepted_with feat u no_share t None) b s1
      = returning (t, \<exists>c. named s (the (extstr b)) c \<and> except_listed feat s u us c) \<and> retabled s t"
    if "ban_ok b" "extflag b AND EXTBAN_SHARE \<noteq> 0" "retabled s s1" for b s1
    using that by (intro share_hit_ok [OF bs], simp_all add: bans_alone [OF bs])+
  then show "scan_start feat u us s ms (share_hit (\<lambda>t. is_banned_with feat u no_share t None))
      (\<lambda>b. \<exists>c. named s (the (extstr b)) c \<and> ban_listed feat s u us c)"
    "scan_start feat u us s ms (share_hit (\<lambda>t. is_excepted_with feat u no_share t None))
      (\<lambda>b. \<exists>c. named s (the (extstr b)) c \<and> except_listed feat s u us c)"
    using assms unfolding scan_start_def by blast+
qed

text \<open>The decision, with or without a membership to note it in.\<close>

lemma is_banned_ok:
  assumes bs: "ban_state feat u us s" and c: "c \<in> dom (channel_at s)"
  shows "case ban_cached s mo of Some r \<Rightarrow> is_banned feat u c mo False s = returning (s, r)
     | None \<Rightarrow> \<exists>t. is_banned feat u c mo False s = returning (note_banned mo (t, banned_from feat s u us c)) \<and> retabled s t"
proof -
  obtain ms where ms: "user_masks feat (clients s u) us = Inr ms" using user_masks_known by blast
  obtain ch where ch: "channel_at s c = Some ch" using c by auto
  have l: "bans_at s c = ch_banlist ch" using ch by (simp add: bans_at_def)
  show ?thesis unfolding is_banned_def banned_from_def l if_False by (rule is_banned_with_ok [OF start_sharing(1) [OF bs ms] ch])
qed

lemma is_excepted_ok:
  assumes bs: "ban_state feat u us s" and c: "c \<in> dom (channel_at s)"
  shows "case except_cached s mo of Some r \<Rightarrow> is_excepted feat u c mo False s = returning (s, r)
     | None \<Rightarrow> \<exists>t. is_excepted feat u c mo False s = returning (note_excepted mo (t, excepted_from feat s u us c)) \<and> retabled s t"
proof -
  obtain ms where ms: "user_masks feat (clients s u) us = Inr ms" using user_masks_known by blast
  obtain ch where ch: "channel_at s c = Some ch" using c by auto
  have l: "excepts_at s c = ch_exceptlist ch" using ch by (simp add: excepts_at_def)
  show ?thesis unfolding is_excepted_def excepted_from_def l if_False by (rule is_excepted_with_ok [OF start_sharing(2) [OF bs ms] ch])
qed

text \<open>The extended lists.\<close>

definition ext_listed :: "banfeat \<Rightarrow> u32 \<Rightarrow> chans \<Rightarrow> client \<Rightarrow> User \<Rightarrow> u32 \<Rightarrow> Ban list \<Rightarrow> bool" where
  "ext_listed feat ipmask s u us flags bs \<longleftrightarrow> (\<exists>b \<in> set bs. extflag b AND flags \<noteq> 0
     \<and> (host_applies ipmask (clients s u) us (ban_flags b) (the (extstr b)) \<or> names_applies feat (clients s u) us (the (extstr b))))"

lemma ext_scan_listed:
  assumes bs: "ban_state feat u us s" and ms: "user_masks feat (clients s u) us = Inr ms" and ok: "\<forall>b \<in> set bs. ban_ok b"
  shows "ext_scan (ext_entry ipmask (clients s u) us ms) flags bs = returning (ext_listed feat ipmask s u us flags bs)"
  using ok
proof (induction bs)
  case Nil
  then show ?case by (simp add: ext_listed_def)
next
  case (Cons b bs)
  have "ext_entry ipmask (clients s u) us ms b = returning (host_applies ipmask (clients s u) us (ban_flags b) (the (extstr b))
       \<or> names_applies feat (clients s u) us (the (extstr b)))" if ne: "extflag b \<noteq> 0"
  proof -
    obtain e where e: "extstr b = Some e" "addr_ok e" "mask_ok e" using Cons.prems ne by (auto simp: ban_ok_def addr_ok_def)
    show ?thesis using host_hit_applies [OF ban_stateD(4) [OF assms(1)] e(2), of ipmask b] names_match [OF assms(1) e(3) ms] e(1)
      by (simp add: ext_entry_def the_str_def)
  qed
  then have "when_flag (extflag b) flags (ext_entry ipmask (clients s u) us ms b) = returning (extflag b AND flags \<noteq> 0
      \<and> (host_applies ipmask (clients s u) us (ban_flags b) (the (extstr b)) \<or> names_applies feat (clients s u) us (the (extstr b))))"
    by (rule when_ext)
  then show ?case using Cons by (simp add: ext_listed_def)
qed

lemma is_ext_ok:
  assumes bs: "ban_state feat u us s" and c: "c \<in> dom (channel_at s)"
  shows "is_ext_banned feat u c flags s = returning (ext_listed feat CHFL_BAN_IPMASK s u us flags (bans_at s c))"
    "is_ext_excepted feat u c flags s = returning (ext_listed feat CHFL_EXCEPT_IPMASK s u us flags (excepts_at s c))"
proof -
  note d = ban_stateD [OF bs]
  obtain ms where ms: "user_masks feat (clients s u) us = Inr ms" using user_masks_known by blast
  obtain ch where ch: "channel_at s c = Some ch" using c by auto
  show "is_ext_banned feat u c flags s = returning (ext_listed feat CHFL_BAN_IPMASK s u us flags (bans_at s c))"
    using ext_scan_listed [OF bs ms, of "ch_banlist ch"] d(2,3) d(5) [OF ch] ms ch by (simp add: is_ext_banned_def bans_at_def Let_def)
  show "is_ext_excepted feat u c flags s = returning (ext_listed feat CHFL_EXCEPT_IPMASK s u us flags (excepts_at s c))"
    using ext_scan_listed [OF bs ms, of "ch_exceptlist ch"] d(2,3) d(5) [OF ch] ms ch by (simp add: is_ext_excepted_def excepts_at_def Let_def)
qed

end
