(* ===== verification/Bans_Thms.thy ===== *)
theory Bans_Thms
  imports Bans_Correct
begin

text \<open>
  The theorems about the ban checks, with a concrete channel on which they are applied.
\<close>

section \<open>Updates that keep the matrix\<close>

text \<open>Statuses of memberships, and anything of a channel but its name, members, user count and mode.\<close>

lemma restatus_core:
  assumes "\<And>m. m_user (M m) = m_user (membership s m) \<and> m_channel (M m) = m_channel (membership s m)"
  shows "core_ok (s\<lparr>membership := M\<rparr>) = core_ok s"
proof -
  have v: "mem_of (s\<lparr>membership := M\<rparr>) = mem_of s" "chan_of (s\<lparr>membership := M\<rparr>) = chan_of s" "name_of (s\<lparr>membership := M\<rparr>) = name_of s"
    "counts_but {} (s\<lparr>membership := M\<rparr>) = counts_but {} s"
    by (auto simp: views fun_eq_iff counts_but_def)
  have "matrix_inv (mem_of s) (chan_of s) M (membershipFreeList s) (next_member s)
      = matrix_inv (mem_of s) (chan_of s) (membership s) (membershipFreeList s) (next_member s)"
    by (rule matrix_status) (use assms in simp)
  then show ?thesis by (simp add: core_ok_def matrix_ok_def channels_ok_def v)
qed

lemma relist_core:
  assumes "channel_at s c = Some ch" "ch_name ch' = ch_name ch" "ch_members ch' = ch_members ch" "ch_users ch' = ch_users ch"
  shows "core_ok (set_channel c ch' s) = core_ok s"
proof -
  have "mem_of (set_channel c ch' s) = mem_of s" "name_of (set_channel c ch' s) = name_of s"
    using assms by (auto simp: views fun_eq_iff)
  moreover have "(case channel_at (set_channel c ch' s) x of None \<Rightarrow> True | Some k \<Rightarrow> ch_users k = of_nat (length (ch_members k)))
      = (case channel_at s x of None \<Rightarrow> True | Some k \<Rightarrow> ch_users k = of_nat (length (ch_members k)))" for x
    using assms by (cases "x = c") simp_all
  then have "counts_but {} (set_channel c ch' s) = counts_but {} s" unfolding counts_but_def by simp
  moreover have "dom (channel_at (set_channel c ch' s)) = dom (channel_at s)" using assms(1) by auto
  ultimately show ?thesis by (simp add: core_ok_def matrix_ok_def channels_ok_def)
qed

section \<open>Status bits\<close>

lemmas status_defs = CHFL_BANVALID_def CHFL_BANNED_def CHFL_EXCEPTVALID_def CHFL_EXCEPT_def CHFL_ZOMBIE_def CHFL_CHANOP_def CHFL_VOICE_def CHFL_HALFOP_def

lemma and_or_same: "(w OR f) AND f = (f :: u32)"
  by (simp add: bit.conj_disj_distrib2)

lemma and_or_other: "f AND g = 0 \<Longrightarrow> (w OR f) AND g = w AND (g :: u32)"
  by (simp add: bit.conj_disj_distrib2)

lemma and_not_same: "(w AND NOT f) AND f = (0 :: u32)"
  by (simp add: and.assoc)

lemma and_not_other: "f AND g = 0 \<Longrightarrow> (w AND NOT f) AND g = w AND (g :: u32)"
proof -
  assume "f AND g = 0"
  then have "\<not> (bit f i \<and> bit g i)" for i by (metis bit_0_eq bit_and_iff bot_apply bot_bool_def)
  then show ?thesis by (intro bit_eqI) (auto simp: bit_and_iff bit_not_iff)
qed

lemma status_bits:
  "CHFL_BANVALID AND CHFL_BANNED = 0" "CHFL_BANNED AND CHFL_BANVALID = 0" "CHFL_EXCEPTVALID AND CHFL_EXCEPT = 0" "CHFL_EXCEPT AND CHFL_EXCEPTVALID = 0"
  "CHFL_BANVALID \<noteq> 0" "CHFL_BANNED \<noteq> 0" "CHFL_EXCEPTVALID \<noteq> 0" "CHFL_EXCEPT \<noteq> 0"
  by (simp_all add: status_defs)

lemma note_status:
  "IsBanValid ((if r then SetBanned else ClearBanned) (SetBanValid x))" "IsBanned ((if r then SetBanned else ClearBanned) (SetBanValid x)) = r"
  "IsExceptValid ((if r then SetExcepted else ClearExcepted) (SetExceptValid x))"
  "IsExcepted ((if r then SetExcepted else ClearExcepted) (SetExceptValid x)) = r"
  by (simp_all add: IsBanValid_def IsBanned_def SetBanned_def ClearBanned_def SetBanValid_def IsExceptValid_def IsExcepted_def
      SetExcepted_def ClearExcepted_def SetExceptValid_def and_or_same and_not_same and_or_other and_not_other status_bits)

lemma note_other:
  "CHFL_BANVALID AND f = 0 \<Longrightarrow> CHFL_BANNED AND f = 0 \<Longrightarrow>
     m_status ((if r then SetBanned else ClearBanned) (SetBanValid x)) AND f = m_status x AND f"
  "CHFL_EXCEPTVALID AND f = 0 \<Longrightarrow> CHFL_EXCEPT AND f = 0 \<Longrightarrow>
     m_status ((if r then SetExcepted else ClearExcepted) (SetExceptValid x)) AND f = m_status x AND f"
  by (simp_all add: SetBanned_def ClearBanned_def SetBanValid_def SetExcepted_def ClearExcepted_def SetExceptValid_def
      and_or_other and_not_other)

lemma note_links:
  "m_user ((if r then SetBanned else ClearBanned) (SetBanValid x)) = m_user x" "m_channel ((if r then SetBanned else ClearBanned) (SetBanValid x)) = m_channel x"
  "m_user ((if r then SetExcepted else ClearExcepted) (SetExceptValid x)) = m_user x"
  "m_channel ((if r then SetExcepted else ClearExcepted) (SetExceptValid x)) = m_channel x"
  by (simp_all add: SetBanned_def ClearBanned_def SetBanValid_def SetExcepted_def ClearExcepted_def SetExceptValid_def)

section \<open>An example\<close>

definition example_banfeat :: banfeat where
  "example_banfeat = \<lparr>feat_HOST_HIDING_STYLE = 1, feat_OPERHOST_HIDING = False, feat_HIDDEN_OPERHOST = [], feat_HIDDEN_HOST = ''hide'',
     feat_OPERFLAGS = True, feat_MAXBANS = 30, feat_AVBANLEN = 40, feat_MAXEXCEPTS = 30, feat_AVEXCEPTLEN = 40, feat_HIS_BANWHO = False,
     feat_HIS_EXCEPTWHO = False, feat_CHMODE_e_CHMODEEXCEPTION = False, feat_FLEXABLEKEYS = False\<rparr>"

definition plain_ban :: "string \<Rightarrow> Ban" where
  "plain_ban str = \<lparr>banstr = str, extstr = None, extflag = 0, ban_who = ''op'', ban_when = 5, ban_flags = 0x20\<rparr>"

definition example_bans :: "Ban list \<Rightarrow> Ban list \<Rightarrow> chans" where
  "example_bans bs es = set_channel 0 ((the (channel_at example 0))\<lparr>ch_banlist := bs, ch_exceptlist := es\<rparr>) example"

lemma example_bans_views:
  "channel_at (example_bans bs es) 0 = Some ((the (channel_at example 0))\<lparr>ch_banlist := bs, ch_exceptlist := es\<rparr>)"
  "dom (channel_at (example_bans bs es)) = {0}" "bans_at (example_bans bs es) 0 = bs" "excepts_at (example_bans bs es) 0 = es"
  "cli_user (example_bans bs es) = cli_user example" "clients (example_bans bs es) = clients example"
  "membership (example_bans bs es) = membership example" "name_of (example_bans bs es) 0 = ''#x''"
  using example_fields(5) by (auto simp: example_bans_def bans_at_def excepts_at_def example_def)

lemma example_core: "core_ok (example_bans bs es)"
proof -
  obtain ch where ch: "channel_at example 0 = Some ch" using example_fields(5) by auto
  show ?thesis using relist_core [OF ch, of "ch\<lparr>ch_banlist := bs, ch_exceptlist := es\<rparr>"] chan_invD(1) [OF example_inv] ch
    by (simp add: example_bans_def)
qed

lemma example_person: "person_ok example_banfeat (clients example 1) (example_user 0)"
  by (simp add: person_ok_def example_def example_user_def example_banfeat_def NICKLEN_def USERLEN_def)

lemma example_ban_state:
  assumes "\<forall>b \<in> set bs \<union> set es. ban_ok b"
  shows "ban_state example_banfeat 1 (example_user 0) (example_bans bs es)"
proof -
  have "IsUser (clients example 1)" "cli_user example 1 = Some (example_user 0)" by (simp_all add: example_def IsUser_def)
  then show ?thesis using assms example_person example_core [of bs es] by (simp add: ban_state_def example_bans_views)
qed

lemma plain_ban_ok: "ban_ok (plain_ban str) \<longleftrightarrow> addr_ok str"
  by (simp add: ban_ok_def plain_ban_def)

lemma addr_ok_at: "who \<noteq> [] \<Longrightarrow> mask_ok who \<Longrightarrow> mask_ok host \<Longrightarrow> CHR ''@'' \<notin> set host \<Longrightarrow> addr_ok (who @ CHR ''@'' # host)"
  using last_at_split [of host who] by (auto simp: addr_ok_def mask_ok_def)

lemma example_mask: "addr_ok ''*!*@h''"
  using addr_ok_at [of "''*!*''" "''h''"] by (simp add: mask_ok_def)

lemma example_known: "''n!u@h'' \<in> known_as example_banfeat (clients example 1) (example_user 0)"
  by (auto simp: known_as_def known_hosts_def example_def example_user_def make_nick_user_host_def len_defs intro!: image_eqI [of _ _ "''h''"])

lemma example_banned: "banned_from example_banfeat (example_bans [plain_ban ''*!*@h''] []) 1 (example_user 0) 0"
proof -
  have "names_applies example_banfeat (clients example 1) (example_user 0) ''*!*@h''"
    using example_known by (auto simp: names_applies_def chattr_simps intro!: bexI [of _ "''n!u@h''"])
  then have "ban_applies example_banfeat (example_bans [plain_ban ''*!*@h''] []) 1 (example_user 0) (plain_ban ''*!*@h'')"
    by (simp add: ban_applies_def plain_ban_def example_bans_views)
  then show ?thesis by (simp add: banned_from_def example_bans_views)
qed

section \<open>Theorems\<close>

text \<open>
  C7: For well formed lists, \<open>is_banned\<close> and \<open>is_excepted\<close> end without a fault and decide whether an
  entry applies: one of the names the user is known under matches its mask, the address lies in
  its network, or its extended condition holds, its sense reversed where the entry says so, on the
  list of the channel itself or on a list it shares. Nothing changes but the order of the hash
  buckets.
\<close>

theorem ban_decisions_correct:
  assumes "ban_state feat u us s" "c \<in> dom (channel_at s)"
  shows "(\<exists>t. is_banned feat u c None False s = returning (t, banned_from feat s u us c) \<and> retabled s t)
    \<and> (\<exists>t. is_excepted feat u c None False s = returning (t, excepted_from feat s u us c) \<and> retabled s t)"
  using is_banned_ok [OF assms, of None] is_excepted_ok [OF assms, of None]
  by (simp add: ban_cached_def except_cached_def note_banned_def note_excepted_def)

theorem ban_decisions_correct_witness:
  "\<exists>t. is_banned example_banfeat 1 0 None False (example_bans [plain_ban ''*!*@h''] []) = returning (t, True)"
  using ban_decisions_correct [OF example_ban_state [of "[plain_ban ''*!*@h'']" "[]"], of 0] example_mask example_banned
  by (auto simp: plain_ban_ok example_bans_views)

text \<open>
  C14: Asked about a member, \<open>is_banned\<close> marks the membership as checked and notes its answer there, in
  no other membership and no other bit. Asked again, it gives the noted answer and changes nothing,
  whatever has become of the lists in between.
\<close>

theorem ban_cache_correct:
  assumes "ban_state feat u us s" "c \<in> dom (channel_at s)" "\<not> IsBanValid (membership s m)"
  shows "\<exists>t. is_banned feat u c (Some m) False s = returning (t, banned_from feat s u us c)
    \<and> IsBanValid (membership t m) \<and> IsBanned (membership t m) = banned_from feat s u us c
    \<and> (\<forall>lists. is_banned feat u c (Some m) False (t\<lparr>channel_at := lists\<rparr>) = returning (t\<lparr>channel_at := lists\<rparr>, banned_from feat s u us c))
    \<and> (\<forall>f. CHFL_BANVALID AND f = 0 \<and> CHFL_BANNED AND f = 0 \<longrightarrow> m_status (membership t m) AND f = m_status (membership s m) AND f)
    \<and> (\<forall>k. k \<noteq> m \<longrightarrow> membership t k = membership s k)"
proof -
  let ?r = "banned_from feat s u us c"
  obtain t where t: "is_banned feat u c (Some m) False s = returning (note_banned (Some m) (t, ?r))" "retabled s t"
    using is_banned_ok [OF assms(1,2), of "Some m"] assms(3) by (auto simp: ban_cached_def)
  define s' where "s' = t\<lparr>membership := (membership t)(m := (if ?r then SetBanned else ClearBanned) (SetBanValid (membership t m)))\<rparr>"
  have run: "is_banned feat u c (Some m) False s = returning (s', ?r)" using t(1) by (simp add: note_banned_def s'_def)
  have m: "membership s' m = (if ?r then SetBanned else ClearBanned) (SetBanValid (membership s m))" "\<forall>k. k \<noteq> m \<longrightarrow> membership s' k = membership s k"
    "clients s' = clients s"
    using retabled_views [OF t(2)] by (simp_all add: s'_def)
  have n: "IsBanValid (membership s' m)" "IsBanned (membership s' m) = ?r" using m(1) note_status(1,2) [of ?r "membership s m"] by simp_all
  then have "is_banned feat u c (Some m) False (s'\<lparr>channel_at := lists\<rparr>) = returning (s'\<lparr>channel_at := lists\<rparr>, ?r)" for lists
    using ban_stateD(3) [OF assms(1)] m(3) by (simp add: is_banned_def is_banned_with_def Let_def)
  then show ?thesis using run m n note_other(1) [of _ ?r "membership s m"] by (intro exI [of _ s']) simp
qed

lemma example_valid: "\<not> IsBanValid (membership example 0)"
  by (simp add: example_def IsBanValid_def)

theorem ban_cache_correct_witness:
  "\<exists>t. is_banned example_banfeat 1 0 (Some 0) False (example_bans [plain_ban ''*!*@h''] []) = returning (t, True)
    \<and> IsBanned (membership t 0) \<and> is_banned example_banfeat 1 0 (Some 0) False (t\<lparr>channel_at := Map.empty\<rparr>) = returning (t\<lparr>channel_at := Map.empty\<rparr>, True)"
  using ban_cache_correct [OF example_ban_state [of "[plain_ban ''*!*@h'']" "[]"], of 0 0] example_mask example_banned example_valid
  by (auto simp: plain_ban_ok example_bans_views)

text \<open>
  C15: An address ban with a prefix length \<open>n\<close> from 1 to 32 and an address whose bits beyond the prefix
  are zero holds for exactly the users whose nick and user name match and whose address agrees with
  the ban in the leading \<open>n\<close> bits. With any other length, or with a bit set beyond the prefix, as in
  \<open>10.1.2.3/8\<close>, the network test holds for nobody. A ban whose whole text matches holds in any case.
\<close>

theorem network_ban_correct:
  assumes "person_ok feat c us" "mask_ok who" "n < 100"
  shows "ip_hit c us (who @ ''@'' @ ip_text net @ ''/'' @ decimal n)
    = returning (glob (who @ ''@'' @ ip_text net @ ''/'' @ decimal n) (nick_user c us @ ''@'' @ ip_text (cc_ip c))
        \<or> glob who (nick_user c us) \<and> 0 < n \<and> n \<le> 32 \<and> take_bit (32 - n) net = 0
            \<and> drop_bit (32 - n) (cc_ip c) = drop_bit (32 - n) net)"
proof -
  have "nat (32 - int n) = 32 - n" by simp
  then have net: "in_network (int n) net (cc_ip c) \<longleftrightarrow> 0 < n \<and> n \<le> 32 \<and> take_bit (32 - n) net = 0
      \<and> drop_bit (32 - n) (cc_ip c) = drop_bit (32 - n) net"
    by (auto simp: in_network_def)
  let ?host = "ip_text net @ CHR ''/'' # decimal n"
  have ch: "x \<noteq> CHR ''/'' \<and> x \<noteq> CHR ''@'' \<and> x \<noteq> NUL \<and> x \<noteq> CHR 0x5C" if "x \<in> set (decimal k)" for x k
    using decimal_digits [OF that] by auto
  have no: "CHR ''/'' \<notin> set (ip_text net)" "CHR 0x5C \<notin> set (ip_text net)"
    using ch by (auto simp: ip_text_def ircd_ntoa_r_def)
  have at: "CHR ''@'' \<notin> set ?host" using ip_text_props(2) ch by auto
  have "mask_ok ?host" using ip_text_props(3) no ch by (auto simp: mask_ok_def cstring_def)
  then have a: "addr_ok (who @ CHR ''@'' # ?host)"
    using assms(2) at by (intro addr_ok_at) (simp_all add: mask_ok_def)
  have "takeWhile (\<lambda>x. x \<noteq> CHR ''/'') ?host = ip_text net" "dropWhile (\<lambda>x. x \<noteq> CHR ''/'') ?host = CHR ''/'' # decimal n"
    using no(1) by (auto simp: takeWhile_append dropWhile_append)
  then show ?thesis
    using ip_hit_address [OF assms(1) a] last_at_split [OF at, of who] atoi_decimal [OF assms(3)]
    by (simp add: address_hit_def inet_addr_ip_text net)
qed

theorem network_ban_correct_witness:
  "ip_hit (clients example 1) (example_user 0) (''*'' @ ''@'' @ ip_text 0 @ ''/'' @ decimal 8) = returning True"
proof -
  have n: "0 < (8 :: nat) \<and> 8 \<le> (32 :: nat) \<and> take_bit (32 - 8) (0 :: u32) = 0
      \<and> drop_bit (32 - 8) (cc_ip (clients example 1)) = drop_bit (32 - 8) 0" by (simp add: example_def)
  have g: "glob ''*'' x" for x by (auto simp: glob_star intro: exI [of _ "length x"])
  have "mask_ok ''*''" by (simp add: mask_ok_def)
  then have "ip_hit (clients example 1) (example_user 0) (''*'' @ ''@'' @ ip_text 0 @ ''/'' @ decimal 8)
      = returning (glob (''*'' @ ''@'' @ ip_text 0 @ ''/'' @ decimal 8) (nick_user (clients example 1) (example_user 0) @ ''@'' @ ip_text (cc_ip (clients example 1)))
        \<or> glob ''*'' (nick_user (clients example 1) (example_user 0)) \<and> 0 < (8 :: nat) \<and> 8 \<le> (32 :: nat) \<and> take_bit (32 - 8) (0 :: u32) = 0
            \<and> drop_bit (32 - 8) (cc_ip (clients example 1)) = drop_bit (32 - 8) 0)"
    by (intro network_ban_correct [OF example_person]) simp_all
  then show ?thesis by (simp only: n g simp_thms)
qed

text \<open>
  C17: The mask with the real host is overwritten in its buffer before it is used, so a ban on the
  real host of a user with a fake host, neither logged in nor given a host, has no effect when
  accounts determine the hidden host.
\<close>

theorem real_host_ban_evaded:
  assumes "ban_state feat u us s" "channel_at s c = Some ch" "ch_banlist ch = [b]" "ban_flags b AND CHFL_BAN_IPMASK = 0" "extflag b = 0"
    and "feat_HOST_HIDING_STYLE feat = 1" "HasFakeHost (clients s u)" "\<not> IsAccount (clients s u)" "\<not> HasSetHost (clients s u)"
      "marks (clients s u) = {}"
    and "banstr b = ''*!*@'' @ u_realhost us" "\<not> glob (banstr b) (make_nick_user_host (cc_name (clients s u)) (u_realusername us) (u_host us))"
      "\<not> glob (banstr b) (make_nick_user_host (cc_name (clients s u)) (u_realusername us) (u_fakehost us))"
  shows "\<exists>t. is_banned feat u c None False s = returning (t, False)"
proof -
  have "known_hosts feat (clients s u) us = {u_host us, u_fakehost us}" using assms(6-9) by (auto simp: known_hosts_def)
  then have "\<not> ban_applies feat s u us b"
    using assms by (simp add: ban_applies_def host_applies_def ext_applies_def names_applies_def known_as_def)
  then have "\<not> banned_from feat s u us c" using assms(2,3,5) by (simp add: banned_from_def bans_at_def)
  then show ?thesis using is_banned_ok [OF assms(1), of c None] assms(2) by (auto simp: ban_cached_def note_banned_def)
qed

definition evader :: User where
  "evader = (example_user 0)\<lparr>u_host := ''f'', u_realhost := ''r'', u_fakehost := ''f''\<rparr>"

definition evader_state :: chans where
  "evader_state = (example_bans [plain_ban ''*!*@r''] [])\<lparr>
     clients := (\<lambda>x. (clients example x)\<lparr>cli_flags := [FLAG_FAKEHOST, FLAG_HIDDENHOST]\<rparr>), cli_user := (cli_user example)(1 \<mapsto> evader)\<rparr>"

lemma evader_views:
  "channel_at evader_state = channel_at (example_bans [plain_ban ''*!*@r''] [])" "cli_user evader_state 1 = Some evader"
  "name_of evader_state = name_of (example_bans [plain_ban ''*!*@r''] [])" "bans_at evader_state 0 = [plain_ban ''*!*@r'']" "excepts_at evader_state 0 = []"
  using example_bans_views(3,4) [of "[plain_ban ''*!*@r'']" "[]"]
  by (simp_all add: evader_state_def name_of_def bans_at_def excepts_at_def fun_eq_iff)

lemma evader_core: "core_ok evader_state"
proof -
  have k: "core_ok (example_bans [plain_ban ''*!*@r''] [])" by (rule example_core)
  have "chan_of evader_state = chan_of (example_bans [plain_ban ''*!*@r''] [])"
    by (auto simp: evader_state_def chan_of_def example_bans_views evader_def example_def fun_eq_iff)
  moreover have "counts_but {} evader_state"
    using k unfolding core_ok_def counts_but_def by (auto simp: evader_state_def evader_def example_user_def example_bans_views split: option.splits)
  moreover have "mem_of evader_state = mem_of (example_bans [plain_ban ''*!*@r''] [])" by (simp add: mem_of_def evader_views fun_eq_iff)
  ultimately show ?thesis using k
    by (simp add: core_ok_def matrix_ok_def channels_ok_def evader_views) (simp add: evader_state_def)
qed

lemma evader_ok: "ban_state example_banfeat 1 evader evader_state"
proof -
  have "IsUser (clients evader_state 1)" by (simp add: evader_state_def example_def IsUser_def)
  moreover have "person_ok example_banfeat (clients evader_state 1) evader"
    by (simp add: person_ok_def evader_state_def evader_def example_def example_user_def example_banfeat_def NICKLEN_def USERLEN_def)
  moreover have "ban_ok (plain_ban ''*!*@r'')" using addr_ok_at [of "''*!*''" "''r''"] by (simp add: mask_ok_def plain_ban_ok)
  ultimately show ?thesis using evader_core by (simp add: ban_state_def evader_views [unfolded One_nat_def] example_bans_views)
qed

theorem real_host_ban_evaded_witness:
  "\<exists>t. is_banned example_banfeat 1 0 None False evader_state = returning (t, False)"
proof -
  have c: "HasFakeHost (clients evader_state 1)" "\<not> IsAccount (clients evader_state 1)" "\<not> HasSetHost (clients evader_state 1)"
    "marks (clients evader_state 1) = {}" "cc_name (clients evader_state 1) = ''n''"
    by (simp_all add: evader_state_def HasFakeHost_def IsAccount_def HasSetHost_def HasFlag_def marks_def IsDNSBLMarked_def example_def)
  have u: "u_realhost evader = ''r''" "u_host evader = ''f''" "u_fakehost evader = ''f''" "u_realusername evader = ''u''"
    by (simp_all add: evader_def example_user_def)
  have g: "\<not> glob ''*!*@r'' ''n!u@f''" by (simp add: chattr_simps)
  have f: "make_nick_user_host ''n'' ''u'' ''f'' = ''n!u@f''" by (simp add: make_nick_user_host_def len_defs)
  define ch where "ch = (the (channel_at example 0))\<lparr>ch_banlist := [plain_ban ''*!*@r''], ch_exceptlist := []\<rparr>"
  have ch: "channel_at evader_state 0 = Some ch" "ch_banlist ch = [plain_ban ''*!*@r'']"
    by (simp_all add: evader_views example_bans_views ch_def)
  show ?thesis
    by (rule real_host_ban_evaded [OF evader_ok ch])
      (use c u f g in \<open>simp_all add: plain_ban_def CHFL_BAN_IPMASK_def example_banfeat_def\<close>)
qed

end
