(* ===== verification/Access_Inv.thy ===== *)
theory Access_Inv
  imports Access Bans_Thms
begin

text \<open>
  What the access checks decide, in terms of the meaning of the lists, and how noted answers keep
  agreeing with them.
\<close>

section \<open>States after checks\<close>

text \<open>
  Checks reorder hash buckets and note answers in the status of memberships: four bits of it may
  change.
\<close>

definition noted_bits :: u32 where
  "noted_bits = CHFL_BANVALID OR CHFL_BANNED OR CHFL_EXCEPTVALID OR CHFL_EXCEPT"

definition same_link :: "Membership \<Rightarrow> Membership \<Rightarrow> bool" where
  "same_link x y \<longleftrightarrow> m_user y = m_user x \<and> m_channel y = m_channel x \<and> m_status y AND NOT noted_bits = m_status x AND NOT noted_bits"

definition rechecked :: "chans \<Rightarrow> chans \<Rightarrow> bool" where
  "rechecked s t \<longleftrightarrow> (\<exists>tab M. t = s\<lparr>channelTable := tab, membership := M\<rparr> \<and> table_inv (crc32hash s) (name_of s) tab
     \<and> members tab = members (channelTable s) \<and> (\<forall>k. same_link (membership s k) (M k)))"

lemma rechecked_views:
  assumes "rechecked s t"
  shows "channel_at t = channel_at s" "cli_user t = cli_user s" "clients t = clients s" "name_of t = name_of s" "MyUser t = MyUser s"
    "same_link (membership s k) (membership t k)"
proof -
  obtain tab M where t: "t = s\<lparr>channelTable := tab, membership := M\<rparr>" "\<forall>k. same_link (membership s k) (M k)" using assms unfolding rechecked_def by blast
  show "channel_at t = channel_at s" "cli_user t = cli_user s" "clients t = clients s" "name_of t = name_of s" "MyUser t = MyUser s"
    "same_link (membership s k) (membership t k)"
    unfolding t(1) using t(2) by (auto simp: name_of_def MyUser_def MyConnect_def fun_eq_iff)
qed

lemma same_link_refl: "same_link x x"
  by (simp add: same_link_def)

lemma rechecked_retabled: "retabled s t \<Longrightarrow> rechecked s t"
proof -
  assume "retabled s t"
  then obtain tab where "t = s\<lparr>channelTable := tab\<rparr>" "table_inv (crc32hash s) (name_of s) tab" "members tab = members (channelTable s)"
    unfolding retabled_def by blast
  then show ?thesis unfolding rechecked_def by (intro exI [of _ tab] exI [of _ "membership s"]) (simp add: same_link_refl)
qed

lemma rechecked_trans:
  assumes "rechecked s t" "rechecked t v"
  shows "rechecked s v"
proof -
  obtain tab M where t: "t = s\<lparr>channelTable := tab, membership := M\<rparr>" "members tab = members (channelTable s)" "\<forall>k. same_link (membership s k) (M k)"
    using assms(1) unfolding rechecked_def by blast
  obtain tab' M' where v: "v = t\<lparr>channelTable := tab', membership := M'\<rparr>" "table_inv (crc32hash t) (name_of t) tab'"
    "members tab' = members (channelTable t)" "\<forall>k. same_link (membership t k) (M' k)"
    using assms(2) unfolding rechecked_def by blast
  have "v = s\<lparr>channelTable := tab', membership := M'\<rparr>" using v(1) t(1) by simp
  moreover have "table_inv (crc32hash s) (name_of s) tab'" using v(2) rechecked_views(4) [OF assms(1)] t(1) by simp
  moreover have "members tab' = members (channelTable s)" using v(3) t(1,2) by simp
  moreover have "same_link (membership s k) (M' k)" for k using v(4) t(1,3) by (auto simp: same_link_def)
  ultimately show ?thesis unfolding rechecked_def by blast
qed

lemma rechecked_core: "rechecked s t \<Longrightarrow> core_ok s \<Longrightarrow> core_ok t"
proof -
  assume a: "rechecked s t" "core_ok s"
  obtain tab M where t: "t = s\<lparr>channelTable := tab, membership := M\<rparr>" "table_inv (crc32hash s) (name_of s) tab"
    "members tab = members (channelTable s)" "\<forall>k. same_link (membership s k) (M k)"
    using a(1) unfolding rechecked_def by blast
  have r: "retabled s (s\<lparr>channelTable := tab\<rparr>)" unfolding retabled_def using t(2,3) by blast
  have "core_ok (s\<lparr>channelTable := tab, membership := M\<rparr>) = core_ok (s\<lparr>channelTable := tab\<rparr>)"
    by (rule restatus_core) (use t(4) in \<open>simp add: same_link_def\<close>)
  then show ?thesis using retabled_core [OF r a(2)] t(1) by simp
qed

lemma kept_bits:
  assumes "same_link x y" "f AND noted_bits = 0"
  shows "m_status y AND f = m_status x AND f"
proof -
  have "f = f AND NOT noted_bits" using and_not_other [of noted_bits f "- 1"] assms(2) by (simp add: and.commute)
  then have "m_status z AND f = (m_status z AND NOT noted_bits) AND f" for z by (metis and.assoc and.commute)
  then show ?thesis using assms(1) by (metis same_link_def)
qed

lemma kept_status:
  assumes "same_link x y"
  shows "IsChanOp y = IsChanOp x" "IsHalfOp y = IsHalfOp x" "HasVoice y = HasVoice x" "IsVoicedOrOpped y = IsVoicedOrOpped x" "IsZombie y = IsZombie x"
  using kept_bits [OF assms, of CHFL_CHANOP] kept_bits [OF assms, of CHFL_HALFOP] kept_bits [OF assms, of CHFL_VOICE]
    kept_bits [OF assms, of CHFL_VOICED_OR_OPPED] kept_bits [OF assms, of CHFL_ZOMBIE]
  by (simp_all add: IsChanOp_def IsHalfOp_def HasVoice_def IsVoicedOrOpped_def IsZombie_def CHFL_VOICED_OR_OPPED_def noted_bits_def status_defs)

lemma rechecked_decisions:
  assumes "rechecked s t"
  shows "ban_applies feat t u us b = ban_applies feat s u us b" "except_applies feat t u us b = except_applies feat s u us b"
    "ban_listed feat t u us c = ban_listed feat s u us c" "except_listed feat t u us c = except_listed feat s u us c"
    "banned_from feat t u us c = banned_from feat s u us c" "excepted_from feat t u us c = excepted_from feat s u us c"
    "ext_listed feat ipmask t u us flags bs = ext_listed feat ipmask s u us flags bs"
    "bans_at t = bans_at s" "excepts_at t = excepts_at s"
proof -
  note v = rechecked_views [OF assms]
  have m: "m_channel (membership t k) = m_channel (membership s k)" "IsChanOp (membership t k) = IsChanOp (membership s k)"
    "IsHalfOp (membership t k) = IsHalfOp (membership s k)" "HasVoice (membership t k) = HasVoice (membership s k)" for k
    using v(6) [of k] kept_status [OF v(6), of k] by (simp_all add: same_link_def)
  have e: "ext_applies turned t x us b = ext_applies turned s x us b" for turned x b
    unfolding ext_applies_def channel_applies_def m v(3,4) ..
  show a: "ban_applies feat t u us b = ban_applies feat s u us b" "except_applies feat t u us b = except_applies feat s u us b" for b
    by (simp_all add: ban_applies_def except_applies_def e v(3))
  show l: "bans_at t = bans_at s" "excepts_at t = excepts_at s" by (simp_all add: bans_at_def excepts_at_def v(1) fun_eq_iff)
  show k: "ban_listed feat t u us c = ban_listed feat s u us c" "except_listed feat t u us c = except_listed feat s u us c" for c
    by (simp_all add: ban_listed_def except_listed_def a l)
  have n: "named t = named s" by (intro ext) (simp add: named_def v(1,4))
  show "banned_from feat t u us c = banned_from feat s u us c" "excepted_from feat t u us c = excepted_from feat s u us c"
    by (simp_all add: banned_from_def excepted_from_def a l k n)
  show "ext_listed feat ipmask t u us flags bs = ext_listed feat ipmask s u us flags bs" by (simp add: ext_listed_def v(3))
qed

lemma rechecked_ban_state: "rechecked s t \<Longrightarrow> ban_state feat u us s \<Longrightarrow> ban_state feat u us t"
  using rechecked_views [of s t] rechecked_core [of s t] rechecked_decisions(8,9) [of s t] by (simp add: ban_state_def)

section \<open>Noted answers\<close>

text \<open>The answers noted for a membership agree with the lists.\<close>

definition cache_ok :: "banfeat \<Rightarrow> client \<Rightarrow> User \<Rightarrow> chans \<Rightarrow> member \<Rightarrow> bool" where
  "cache_ok feat u us s m \<longleftrightarrow>
     (IsBanValid (membership s m) \<longrightarrow> IsBanned (membership s m) = banned_from feat s u us (m_channel (membership s m)))
     \<and> (IsExceptValid (membership s m) \<longrightarrow> IsExcepted (membership s m) = excepted_from feat s u us (m_channel (membership s m)))"

lemma noted_disjoint:
  "CHFL_EXCEPTVALID AND CHFL_BANVALID = 0" "CHFL_EXCEPTVALID AND CHFL_BANNED = 0" "CHFL_EXCEPT AND CHFL_BANVALID = 0" "CHFL_EXCEPT AND CHFL_BANNED = 0"
  "CHFL_BANVALID AND CHFL_EXCEPTVALID = 0" "CHFL_BANVALID AND CHFL_EXCEPT = 0" "CHFL_BANNED AND CHFL_EXCEPTVALID = 0" "CHFL_BANNED AND CHFL_EXCEPT = 0"
  "CHFL_BANVALID AND NOT noted_bits = 0" "CHFL_BANNED AND NOT noted_bits = 0" "CHFL_EXCEPTVALID AND NOT noted_bits = 0" "CHFL_EXCEPT AND NOT noted_bits = 0"
  by (simp_all add: status_defs noted_bits_def)

lemma noted_links:
  "same_link x ((if r then SetBanned else ClearBanned) (SetBanValid x))" "same_link x ((if r then SetExcepted else ClearExcepted) (SetExceptValid x))"
  using note_links [of r x] note_other [of "NOT noted_bits" r x] noted_disjoint by (simp_all add: same_link_def)

lemma noted_other_half:
  "IsExceptValid ((if r then SetBanned else ClearBanned) (SetBanValid x)) = IsExceptValid x"
  "IsExcepted ((if r then SetBanned else ClearBanned) (SetBanValid x)) = IsExcepted x"
  "IsBanValid ((if r then SetExcepted else ClearExcepted) (SetExceptValid x)) = IsBanValid x"
  "IsBanned ((if r then SetExcepted else ClearExcepted) (SetExceptValid x)) = IsBanned x"
  using note_other(1) [of CHFL_EXCEPTVALID r x] note_other(1) [of CHFL_EXCEPT r x] note_other(2) [of CHFL_BANVALID r x] note_other(2) [of CHFL_BANNED r x]
    noted_disjoint
  by (simp_all add: IsExceptValid_def IsExcepted_def IsBanValid_def IsBanned_def)

lemma noted_recheck:
  assumes "retabled s t" "same_link (membership s m) y"
  shows "rechecked s (t\<lparr>membership := (membership t)(m := y)\<rparr>)"
proof -
  obtain tab where t: "t = s\<lparr>channelTable := tab\<rparr>" "table_inv (crc32hash s) (name_of s) tab" "members tab = members (channelTable s)"
    using assms(1) unfolding retabled_def by blast
  show ?thesis unfolding rechecked_def
    by (intro exI [of _ tab] exI [of _ "(membership s)(m := y)"]) (use t assms(2) in \<open>auto simp: same_link_refl\<close>)
qed

text \<open>The status of no other membership changes.\<close>

definition only_noted :: "member \<Rightarrow> chans \<Rightarrow> chans \<Rightarrow> bool" where
  "only_noted m s t \<longleftrightarrow> (\<forall>k. k \<noteq> m \<longrightarrow> membership t k = membership s k)"

lemma only_noted_refl [simp]: "only_noted m s s" by (simp add: only_noted_def)

lemma only_noted_trans: "only_noted m s t \<Longrightarrow> only_noted m t v \<Longrightarrow> only_noted m s v" by (simp add: only_noted_def)

text \<open>Asking about a member gives the right answer and keeps every noted answer right.\<close>

lemma is_banned_noted:
  assumes bs: "ban_state feat u us s" and c: "m_channel (membership s m) \<in> dom (channel_at s)" and ok: "cache_ok feat u us s m"
  shows "\<exists>t. is_banned feat u (m_channel (membership s m)) (Some m) False s = returning (t, banned_from feat s u us (m_channel (membership s m)))
    \<and> rechecked s t \<and> (\<forall>k. cache_ok feat u us s k \<longrightarrow> cache_ok feat u us t k) \<and> only_noted m s t"
proof (cases "IsBanValid (membership s m)")
  case True
  then show ?thesis using is_banned_ok [OF bs c, of "Some m"] ok rechecked_retabled [OF retabled_refl [OF ban_stateD(1) [OF bs]]]
    by (simp add: ban_cached_def cache_ok_def only_noted_def)
next
  case False
  let ?c = "m_channel (membership s m)" and ?r = "banned_from feat s u us (m_channel (membership s m))"
  let ?y = "(if ?r then SetBanned else ClearBanned) (SetBanValid (membership s m))"
  obtain t where t: "is_banned feat u ?c (Some m) False s = returning (note_banned (Some m) (t, ?r))" "retabled s t"
    using is_banned_ok [OF bs c, of "Some m"] False by (auto simp: ban_cached_def)
  define v where "v = t\<lparr>membership := (membership t)(m := ?y)\<rparr>"
  have run: "is_banned feat u ?c (Some m) False s = returning (v, ?r)"
    using t(1) retabled_views(4) [OF t(2)] by (simp add: note_banned_def v_def)
  have rc: "rechecked s v" unfolding v_def by (rule noted_recheck [OF t(2) noted_links(1)])
  have mv: "membership v k = (if k = m then ?y else membership s k)" for k using retabled_views(4) [OF t(2)] by (simp add: v_def)
  have "cache_ok feat u us v k" if "cache_ok feat u us s k" for k
  proof (cases "k = m")
    case True
    then show ?thesis using that note_status(1,2) [of ?r "membership s m"] noted_other_half(1,2) [of ?r "membership s m"] note_links(2) [of ?r "membership s m"]
      by (simp add: cache_ok_def mv rechecked_decisions [OF rc])
  next
    case False
    then show ?thesis using that by (simp add: cache_ok_def mv rechecked_decisions [OF rc])
  qed
  moreover have "only_noted m s v" by (simp add: only_noted_def mv)
  ultimately show ?thesis using run rc by blast
qed

lemma is_excepted_noted:
  assumes bs: "ban_state feat u us s" and c: "m_channel (membership s m) \<in> dom (channel_at s)" and ok: "cache_ok feat u us s m"
  shows "\<exists>t. is_excepted feat u (m_channel (membership s m)) (Some m) False s = returning (t, excepted_from feat s u us (m_channel (membership s m)))
    \<and> rechecked s t \<and> (\<forall>k. cache_ok feat u us s k \<longrightarrow> cache_ok feat u us t k) \<and> only_noted m s t"
proof (cases "IsExceptValid (membership s m)")
  case True
  then show ?thesis using is_excepted_ok [OF bs c, of "Some m"] ok rechecked_retabled [OF retabled_refl [OF ban_stateD(1) [OF bs]]]
    by (simp add: except_cached_def cache_ok_def only_noted_def)
next
  case False
  let ?c = "m_channel (membership s m)" and ?r = "excepted_from feat s u us (m_channel (membership s m))"
  let ?y = "(if ?r then SetExcepted else ClearExcepted) (SetExceptValid (membership s m))"
  obtain t where t: "is_excepted feat u ?c (Some m) False s = returning (note_excepted (Some m) (t, ?r))" "retabled s t"
    using is_excepted_ok [OF bs c, of "Some m"] False by (auto simp: except_cached_def)
  define v where "v = t\<lparr>membership := (membership t)(m := ?y)\<rparr>"
  have run: "is_excepted feat u ?c (Some m) False s = returning (v, ?r)"
    using t(1) retabled_views(4) [OF t(2)] by (simp add: note_excepted_def v_def)
  have rc: "rechecked s v" unfolding v_def by (rule noted_recheck [OF t(2) noted_links(2)])
  have mv: "membership v k = (if k = m then ?y else membership s k)" for k using retabled_views(4) [OF t(2)] by (simp add: v_def)
  have "cache_ok feat u us v k" if "cache_ok feat u us s k" for k
  proof (cases "k = m")
    case True
    then show ?thesis using that note_status(3,4) [of ?r "membership s m"] noted_other_half(3,4) [of ?r "membership s m"] note_links(4) [of ?r "membership s m"]
      by (simp add: cache_ok_def mv rechecked_decisions [OF rc])
  next
    case False
    then show ?thesis using that by (simp add: cache_ok_def mv rechecked_decisions [OF rc])
  qed
  moreover have "only_noted m s v" by (simp add: only_noted_def mv)
  ultimately show ?thesis using run rc by blast
qed

end
