(* ===== verification/Access_Thms.thy ===== *)
theory Access_Thms
  imports Access_Inv
begin

text \<open>
  Theorems on joining, speaking and changing nick.
\<close>

section \<open>Joining\<close>

text \<open>The obstacles to joining, in the order in which they are reported.\<close>

definition override_key :: "bool \<Rightarrow> Channel \<Rightarrow> string \<Rightarrow> bool" where
  "override_key walk ch key \<longleftrightarrow> IsLocalChannel (ch_name ch) \<and> walk \<and> key \<noteq> [] \<and> compall ''OVERRIDE'' key = 0 \<and> compall ''OVERRIDE'' (ch_key ch) \<noteq> 0"

text \<open>An exempted user needs no key, and then the key does not stand in for the other conditions either.\<close>

definition key_counts :: "banfeat \<Rightarrow> bool \<Rightarrow> Channel \<Rightarrow> bool" where
  "key_counts feat excepted ch \<longleftrightarrow> ch_key ch \<noteq> [] \<and> \<not> (feat_CHMODE_e_CHMODEEXCEPTION feat \<and> excepted)"

definition key_opens :: "banfeat \<Rightarrow> bool \<Rightarrow> Channel \<Rightarrow> bool" where
  "key_opens feat excepted ch \<longleftrightarrow> key_counts feat excepted ch \<and> feat_FLEXABLEKEYS feat"

definition join_obstacles :: "banfeat \<Rightarrow> cclient \<Rightarrow> Channel \<Rightarrow> string \<Rightarrow> bool \<Rightarrow> bool \<Rightarrow> (int \<times> bool) list" where
  "join_obstacles feat c ch key excepted banned =
     [(ERR_BADCHANNELKEY, ch_key ch \<noteq> [] \<and> (key = [] \<or> compall (ch_key ch) key \<noteq> 0) \<and> \<not> excepted),
      (ERR_INVITEONLYCHAN, has_mode ch MODE_INVITEONLY \<and> \<not> key_opens feat excepted ch \<and> \<not> excepted),
      (ERR_CHANNELISFULL, ch_limit ch \<noteq> 0 \<and> ch_limit ch \<le> ch_users ch \<and> \<not> key_opens feat excepted ch \<and> \<not> excepted),
      (ERR_NEEDREGGEDNICK, has_mode ch MODE_REGONLY \<and> \<not> IsAccount c \<and> \<not> key_opens feat excepted ch \<and> \<not> excepted),
      (ERR_OPERONLYCHAN, has_mode ch MODE_OPERONLY \<and> \<not> IsAnOper c \<and> \<not> key_opens feat excepted ch),
      (ERR_ADMINONLYCHAN, has_mode ch MODE_ADMINONLY \<and> \<not> IsAdmin feat c \<and> \<not> key_opens feat excepted ch),
      (ERR_BANNEDFROMCHAN, banned \<and> \<not> excepted)]"

definition join_verdict :: "banfeat \<Rightarrow> bool \<Rightarrow> cclient \<Rightarrow> Channel \<Rightarrow> string \<Rightarrow> bool \<Rightarrow> bool \<Rightarrow> bool \<Rightarrow> int" where
  "join_verdict feat walk c ch key invited excepted banned =
     (if IsXtraOp c then 0
      else if has_mode ch MODE_SSLONLY \<and> \<not> IsSSL c then ERR_SSLONLYCHAN
      else if invited then 0
      else (case List.find snd (join_obstacles feat c ch key excepted banned) of
              Some (err, _) \<Rightarrow> (if override_key walk ch key then MAGIC_OPER_OVERRIDE else 0) + err
            | None \<Rightarrow> if override_key walk ch key then ERR_DONTCHEAT else if key_counts feat excepted ch then - 1 else 0))"

lemma excepted_none:
  assumes bs: "ban_state feat u us s0" and c: "c \<in> dom (channel_at s0)" and r: "retabled s0 s"
  shows "\<exists>t. is_excepted feat u c None False s = returning (t, excepted_from feat s0 u us c) \<and> retabled s0 t"
    "\<exists>t. is_banned feat u c None False s = returning (t, banned_from feat s0 u us c) \<and> retabled s0 t"
proof -
  have b: "ban_state feat u us s" by (rule ban_state_retabled [OF bs r])
  have c': "c \<in> dom (channel_at s)" using c retabled_views(1) [OF r] by simp
  note d = rechecked_decisions [OF rechecked_retabled [OF r]]
  show "\<exists>t. is_excepted feat u c None False s = returning (t, excepted_from feat s0 u us c) \<and> retabled s0 t"
    using is_excepted_ok [OF b c', of None] d(6) retabled_trans [OF r] by (auto simp: except_cached_def note_excepted_def)
  show "\<exists>t. is_banned feat u c None False s = returning (t, banned_from feat s0 u us c) \<and> retabled s0 t"
    using is_banned_ok [OF b c', of None] d(5) retabled_trans [OF r] by (auto simp: ban_cached_def note_banned_def)
qed

lemma unless_excepted_ok:
  assumes "ban_state feat u us s0" "c \<in> dom (channel_at s0)" "retabled s0 s"
  shows "\<exists>t. unless_excepted feat u c first rest s = returning (t, first \<and> \<not> excepted_from feat s0 u us c \<and> rest) \<and> retabled s0 t"
  using excepted_none(1) [OF assms] assms(3) by (auto simp: unless_excepted_def)

text \<open>A step of the chain of refusals.\<close>

lemma refuse_ok:
  assumes "\<exists>t. cond = returning (t, b) \<and> retabled s0 t" "\<And>t. retabled s0 t \<Longrightarrow> \<exists>t'. rest t = returning (t', v) \<and> retabled s0 t'"
  shows "\<exists>t'. refuse cond err rest = returning (t', if b then err else v) \<and> retabled s0 t'"
proof -
  obtain t where "cond = returning (t, b)" "retabled s0 t" using assms(1) by blast
  then show ?thesis using assms(2) by (cases b) (auto simp: refuse_def)
qed

lemma find_chain:
  "(case List.find snd ((e, b) # xs) of Some (err, _) \<Rightarrow> k + err | None \<Rightarrow> d)
   = (if b then k + e else case List.find snd xs of Some (err, _) \<Rightarrow> k + err | None \<Rightarrow> (d :: int))"
  by simp

lemma obstacle_chain:
  "(case List.find snd (join_obstacles feat x ch key e b) of Some (err, _) \<Rightarrow> ov + err | None \<Rightarrow> d)
   = (let ej = feat_CHMODE_e_CHMODEEXCEPTION feat \<and> e; flex = \<not> (ch_key ch \<noteq> [] \<and> \<not> ej) \<or> \<not> feat_FLEXABLEKEYS feat
      in if ch_key ch \<noteq> [] \<and> \<not> e \<and> (key = [] \<or> compall (ch_key ch) key \<noteq> 0) \<and> \<not> ej then ov + ERR_BADCHANNELKEY
          else if has_mode ch MODE_INVITEONLY \<and> \<not> e \<and> flex \<and> \<not> ej then ov + ERR_INVITEONLYCHAN
          else if (ch_limit ch \<noteq> 0 \<and> ch_limit ch \<le> ch_users ch) \<and> \<not> e \<and> flex \<and> \<not> ej then ov + ERR_CHANNELISFULL
          else if (has_mode ch MODE_REGONLY \<and> \<not> IsAccount x) \<and> \<not> e \<and> flex then ov + ERR_NEEDREGGEDNICK
          else if has_mode ch MODE_OPERONLY \<and> \<not> IsAnOper x \<and> flex then ov + ERR_OPERONLYCHAN
          else if has_mode ch MODE_ADMINONLY \<and> \<not> IsAdmin feat x \<and> flex then ov + ERR_ADMINONLYCHAN
          else if b \<and> \<not> e \<and> True then ov + ERR_BANNEDFROMCHAN
          else d)"
proof -
  have base: "(case List.find snd [] of Some (err, _) \<Rightarrow> ov + err | None \<Rightarrow> d) = d" for ov d :: int by simp
  show ?thesis unfolding join_obstacles_def find_chain base Let_def
    by (intro if_cong refl) (auto simp: key_opens_def key_counts_def)
qed

lemma early_exits:
  "\<exists>t'. C = returning (t', V) \<and> R t' \<Longrightarrow> R s \<Longrightarrow>
   \<exists>t. (if p then returning (s, e1) else if q then returning (s, e2) else if i then returning (s, e3) else C)
      = returning (t, if p then e1 else if q then e2 else if i then e3 else V) \<and> R t"
  by auto

lemma can_join_verdict:
  assumes bs: "ban_state feat u us s" and ch: "channel_at s c = Some ch"
  shows "\<exists>t. can_join feat walk u c key s
      = returning (t, join_verdict feat walk (clients s u) ch key (c \<in> set (u_invited us)) (excepted_from feat s u us c) (banned_from feat s u us c))
    \<and> retabled s t"
proof -
  let ?x = "clients s u" and ?e = "excepted_from feat s u us c" and ?b = "banned_from feat s u us c"
  let ?ov = "if override_key walk ch key then MAGIC_OPER_OVERRIDE else 0" and ?ej = "feat_CHMODE_e_CHMODEEXCEPTION feat \<and> ?e"
  have c: "c \<in> dom (channel_at s)" using ch by auto
  have r0: "retabled s s" by (rule retabled_refl [OF ban_stateD(1) [OF bs]])
  note un = unless_excepted_ok [OF bs c]
  have start: "\<exists>t. (if feat_CHMODE_e_CHMODEEXCEPTION feat then is_excepted feat u c None False s else returning (s, False)) = returning (t, ?ej) \<and> retabled s t"
    using excepted_none(1) [OF bs c r0] r0 by auto
  have ban: "\<exists>t'. run_bind (is_banned feat u c None False t) (\<lambda>(v, banned). unless_excepted feat u c banned True v) = returning (t', ?b \<and> \<not> ?e \<and> True) \<and> retabled s t'"
    if "retabled s t" for t
    using excepted_none(2) [OF bs c that] un [of _ ?b True] by fastforce
  have pass: "\<exists>t'. returning (t, y) = returning (t', y) \<and> retabled s t'" if "retabled s t" for t and y :: bool using that by blast
  have fin: "\<exists>t'. returning (t, y) = returning (t', y) \<and> retabled s t'" if "retabled s t" for t and y :: int using that by blast
  let ?keyv = "ch_key ch \<noteq> [] \<and> \<not> ?ej" and ?flex = "\<not> (ch_key ch \<noteq> [] \<and> \<not> ?ej) \<or> \<not> feat_FLEXABLEKEYS feat"
  have chain: "\<exists>t'. (refuse (unless_excepted feat u c (ch_key ch \<noteq> []) ((key = [] \<or> compall (ch_key ch) key \<noteq> 0) \<and> \<not> ?ej) s1) (?ov + ERR_BADCHANNELKEY) (\<lambda>s2.
          refuse (unless_excepted feat u c (has_mode ch MODE_INVITEONLY) (?flex \<and> \<not> ?ej) s2) (?ov + ERR_INVITEONLYCHAN) (\<lambda>s3.
          refuse (unless_excepted feat u c (ch_limit ch \<noteq> 0 \<and> ch_limit ch \<le> ch_users ch) (?flex \<and> \<not> ?ej) s3) (?ov + ERR_CHANNELISFULL) (\<lambda>s4.
          refuse (unless_excepted feat u c (has_mode ch MODE_REGONLY \<and> \<not> IsAccount ?x) ?flex s4) (?ov + ERR_NEEDREGGEDNICK) (\<lambda>s5.
          refuse (returning (s5, has_mode ch MODE_OPERONLY \<and> \<not> IsAnOper ?x \<and> ?flex)) (?ov + ERR_OPERONLYCHAN) (\<lambda>s6.
          refuse (returning (s6, has_mode ch MODE_ADMINONLY \<and> \<not> IsAdmin feat ?x \<and> ?flex)) (?ov + ERR_ADMINONLYCHAN) (\<lambda>s7.
          refuse (run_bind (is_banned feat u c None False s7) (\<lambda>(s8, banned). unless_excepted feat u c banned True s8)) (?ov + ERR_BANNEDFROMCHAN) (\<lambda>s9.
          returning (s9, if ?ov \<noteq> 0 then ERR_DONTCHEAT else if ?keyv then - 1 else 0)))))))))
      = returning (t',
          if ch_key ch \<noteq> [] \<and> \<not> ?e \<and> (key = [] \<or> compall (ch_key ch) key \<noteq> 0) \<and> \<not> ?ej then ?ov + ERR_BADCHANNELKEY
          else if has_mode ch MODE_INVITEONLY \<and> \<not> ?e \<and> ?flex \<and> \<not> ?ej then ?ov + ERR_INVITEONLYCHAN
          else if (ch_limit ch \<noteq> 0 \<and> ch_limit ch \<le> ch_users ch) \<and> \<not> ?e \<and> ?flex \<and> \<not> ?ej then ?ov + ERR_CHANNELISFULL
          else if (has_mode ch MODE_REGONLY \<and> \<not> IsAccount ?x) \<and> \<not> ?e \<and> ?flex then ?ov + ERR_NEEDREGGEDNICK
          else if has_mode ch MODE_OPERONLY \<and> \<not> IsAnOper ?x \<and> ?flex then ?ov + ERR_OPERONLYCHAN
          else if has_mode ch MODE_ADMINONLY \<and> \<not> IsAdmin feat ?x \<and> ?flex then ?ov + ERR_ADMINONLYCHAN
          else if ?b \<and> \<not> ?e \<and> True then ?ov + ERR_BANNEDFROMCHAN
          else if ?ov \<noteq> 0 then ERR_DONTCHEAT else if ?keyv then - 1 else 0) \<and> retabled s t'" (is "\<exists>t'. ?chain s1 = returning (t', ?verdict) \<and> _") if "retabled s s1" for s1
    by (intro refuse_ok un pass ban fin that) assumption+
  obtain s1 where s1: "(if feat_CHMODE_e_CHMODEEXCEPTION feat then is_excepted feat u c None False s else returning (s, False)) = returning (s1, ?ej)"
    "retabled s s1" using start by blast
  have run: "can_join feat walk u c key s =
      (if IsXtraOp ?x then returning (s, 0) else if has_mode ch MODE_SSLONLY \<and> \<not> IsSSL ?x then returning (s, ERR_SSLONLYCHAN)
       else if c \<in> set (u_invited us) then returning (s, 0) else ?chain s1)"
    using ban_stateD(2) [OF bs] ch s1(1) unfolding can_join_def Let_def override_key_def IsInvited_def by simp
  have d: "(if ?ov \<noteq> 0 then ERR_DONTCHEAT else if ?keyv then - 1 else 0)
      = (if override_key walk ch key then ERR_DONTCHEAT else if key_counts feat ?e ch then - 1 else 0)"
    by (simp add: MAGIC_OPER_OVERRIDE_def key_counts_def)
  have "\<exists>t'. ?chain s1 = returning (t', case List.find snd (join_obstacles feat ?x ch key ?e ?b) of Some (err, _) \<Rightarrow> ?ov + err
      | None \<Rightarrow> if override_key walk ch key then ERR_DONTCHEAT else if key_counts feat ?e ch then - 1 else 0) \<and> retabled s t'"
    unfolding obstacle_chain Let_def using chain [OF s1(2)] unfolding d .
  then show ?thesis unfolding run join_verdict_def by (rule early_exits [where R = "retabled s", OF _ r0])
qed

section \<open>Speaking\<close>

definition quieted :: "banfeat \<Rightarrow> chans \<Rightarrow> client \<Rightarrow> User \<Rightarrow> channel \<Rightarrow> bool" where
  "quieted feat s u us c \<longleftrightarrow> ext_listed feat CHFL_BAN_IPMASK s u us EXTBAN_QUIET (bans_at s c)"

definition unquieted :: "banfeat \<Rightarrow> chans \<Rightarrow> client \<Rightarrow> User \<Rightarrow> channel \<Rightarrow> bool" where
  "unquieted feat s u us c \<longleftrightarrow> ext_listed feat CHFL_EXCEPT_IPMASK s u us EXTBAN_QUIET (excepts_at s c)"

text \<open>A member and the state in which it is asked about.\<close>

definition speaker :: "banfeat \<Rightarrow> client \<Rightarrow> User \<Rightarrow> chans \<Rightarrow> member \<Rightarrow> bool" where
  "speaker feat u us s m \<longleftrightarrow> ban_state feat u us s \<and> m_user (membership s m) = u \<and> m_channel (membership s m) \<in> dom (channel_at s)
     \<and> cache_ok feat u us s m"

lemma speaker_rechecked:
  assumes "speaker feat u us s m" "rechecked s t" "cache_ok feat u us t m"
  shows "speaker feat u us t m" "m_channel (membership t m) = m_channel (membership s m)"
  using assms rechecked_ban_state [OF assms(2)] rechecked_views [OF assms(2)] rechecked_views(6) [OF assms(2), of m]
  by (simp_all add: speaker_def same_link_def)

lemma speaker_checks:
  assumes "speaker feat u us s m"
  defines "c \<equiv> m_channel (membership s m)"
  shows "\<exists>t. is_banned feat u c (Some m) False s = returning (t, banned_from feat s u us c) \<and> rechecked s t
      \<and> (\<forall>k. speaker feat u us s k \<longrightarrow> speaker feat u us t k) \<and> m_channel (membership t m) = c \<and> only_noted m s t"
    "\<exists>t. is_excepted feat u c (Some m) False s = returning (t, excepted_from feat s u us c) \<and> rechecked s t
      \<and> (\<forall>k. speaker feat u us s k \<longrightarrow> speaker feat u us t k) \<and> m_channel (membership t m) = c \<and> only_noted m s t"
proof -
  have a: "ban_state feat u us s" "m_channel (membership s m) \<in> dom (channel_at s)" "cache_ok feat u us s m" using assms(1) by (simp_all add: speaker_def)
  have k: "(\<forall>k. speaker feat u us s k \<longrightarrow> speaker feat u us t k) \<and> m_channel (membership t m) = c"
    if "rechecked s t" "\<forall>k. cache_ok feat u us s k \<longrightarrow> cache_ok feat u us t k" for t
  proof -
    have "speaker feat u us t k" if k: "speaker feat u us s k" for k
      using speaker_rechecked(1) [OF k \<open>rechecked s t\<close>] \<open>\<forall>k. cache_ok feat u us s k \<longrightarrow> cache_ok feat u us t k\<close> k by (simp add: speaker_def)
    then show ?thesis using speaker_rechecked(2) [OF assms(1) that(1)] that(2) a(3) by (simp add: c_def)
  qed
  show "\<exists>t. is_banned feat u c (Some m) False s = returning (t, banned_from feat s u us c) \<and> rechecked s t
      \<and> (\<forall>k. speaker feat u us s k \<longrightarrow> speaker feat u us t k) \<and> m_channel (membership t m) = c \<and> only_noted m s t"
    using is_banned_noted [OF a] k unfolding c_def by blast
  show "\<exists>t. is_excepted feat u c (Some m) False s = returning (t, excepted_from feat s u us c) \<and> rechecked s t
      \<and> (\<forall>k. speaker feat u us s k \<longrightarrow> speaker feat u us t k) \<and> m_channel (membership t m) = c \<and> only_noted m s t"
    using is_excepted_noted [OF a] k unfolding c_def by blast
qed

text \<open>
  Who may speak: voiced and opped members; of the others, those not silenced, on a channel that
  is not moderated, and, when local, not banned without an exception.
\<close>

definition silenced :: "banfeat \<Rightarrow> chans \<Rightarrow> client \<Rightarrow> User \<Rightarrow> channel \<Rightarrow> bool" where
  "silenced feat s u us c \<longleftrightarrow> quieted feat s u us c \<and> (\<not> excepted_from feat s u us c \<or> unquieted feat s u us c)"

definition may_speak :: "banfeat \<Rightarrow> chans \<Rightarrow> client \<Rightarrow> User \<Rightarrow> member \<Rightarrow> Channel \<Rightarrow> bool" where
  "may_speak feat s u us m ch \<longleftrightarrow> IsVoicedOrOpped (membership s m)
     \<or> \<not> silenced feat s u us (m_channel (membership s m)) \<and> \<not> has_mode ch MODE_MODERATED
       \<and> \<not> (MyUser s u \<and> banned_from feat s u us (m_channel (membership s m)) \<and> \<not> excepted_from feat s u us (m_channel (membership s m)))"

lemma quiet_stage:
  assumes sp: "speaker feat u us s m"
  defines "c \<equiv> m_channel (membership s m)"
  shows "\<exists>t. (if quieted feat s u us c then
        run_bind (is_excepted feat u c (Some m) False s) (\<lambda>(s1, excepted).
          if \<not> excepted then returning (s1, True)
          else run_bind (is_ext_excepted feat u c EXTBAN_QUIET s1) (\<lambda>x. returning (s1, x)))
      else returning (s, False)) = returning (t, silenced feat s u us c)
    \<and> rechecked s t \<and> speaker feat u us t m \<and> m_channel (membership t m) = c \<and> only_noted m s t"
proof (cases "quieted feat s u us c")
  case False
  have "ban_state feat u us s" using sp by (simp add: speaker_def)
  then have "rechecked s s" by (intro rechecked_retabled retabled_refl ban_stateD(1))
  then show ?thesis using False sp by (simp add: silenced_def c_def)
next
  case True
  obtain t where t: "is_excepted feat u c (Some m) False s = returning (t, excepted_from feat s u us c)" "rechecked s t" "speaker feat u us t m"
    "m_channel (membership t m) = c" "only_noted m s t"
    using speaker_checks(2) [OF sp] sp unfolding c_def by blast
  have "is_ext_excepted feat u c EXTBAN_QUIET t = returning (unquieted feat s u us c)"
    using is_ext_ok(2) [of feat u us t c EXTBAN_QUIET] t(3,4) rechecked_decisions(7,9) [OF t(2)] by (simp add: unquieted_def speaker_def)
  then show ?thesis using True t by (auto simp: silenced_def)
qed

lemma member_can_send_ok:
  assumes sp: "speaker feat u us s m" and ch: "channel_at s (m_channel (membership s m)) = Some ch"
  shows "\<exists>t. member_can_send_to_channel feat m s = returning (t, may_speak feat s u us m ch) \<and> rechecked s t \<and> speaker feat u us t m \<and> only_noted m s t"
proof -
  let ?c = "m_channel (membership s m)"
  have u: "m_user (membership s m) = u" "ban_state feat u us s" "?c \<in> dom (channel_at s)" using sp by (simp_all add: speaker_def)
  have rs: "rechecked s s" by (intro rechecked_retabled retabled_refl ban_stateD(1) [OF u(2)])
  show ?thesis
  proof (cases "IsVoicedOrOpped (membership s m)")
    case True
    then show ?thesis using rs sp by (simp add: member_can_send_to_channel_def may_speak_def Let_def)
  next
    case nv: False
    have q: "is_ext_banned feat u ?c EXTBAN_QUIET s = returning (quieted feat s u us ?c)"
      using is_ext_ok(1) [OF u(2,3)] by (simp add: quieted_def)
    obtain t where t: "(if quieted feat s u us ?c then
        run_bind (is_excepted feat u ?c (Some m) False s) (\<lambda>(s1, excepted).
          if \<not> excepted then returning (s1, True)
          else run_bind (is_ext_excepted feat u ?c EXTBAN_QUIET s1) (\<lambda>x. returning (s1, x)))
      else returning (s, False)) = returning (t, silenced feat s u us ?c)" "rechecked s t" "speaker feat u us t m" "m_channel (membership t m) = ?c" "only_noted m s t"
      using quiet_stage [OF sp] by blast
    note v = rechecked_views [OF t(2)] and d = rechecked_decisions [OF t(2)]
    obtain t2 where t2: "is_banned feat u ?c (Some m) False t = returning (t2, banned_from feat s u us ?c)" "rechecked t t2" "speaker feat u us t2 m"
      "m_channel (membership t2 m) = ?c" "only_noted m t t2"
      using speaker_checks(1) [OF t(3)] t(3) unfolding t(4) d(5) by blast
    obtain t3 where t3: "is_excepted feat u ?c (Some m) False t2 = returning (t3, excepted_from feat s u us ?c)" "rechecked t2 t3" "speaker feat u us t3 m" "only_noted m t2 t3"
      using speaker_checks(2) [OF t2(3)] t2(3) unfolding t2(4) rechecked_decisions(6) [OF t2(2)] d(6) by blast
    have run: "member_can_send_to_channel feat m s = (if silenced feat s u us ?c then returning (t, False)
        else if has_mode ch MODE_MODERATED then returning (t, False) else if \<not> MyUser s u then returning (t, True)
        else if \<not> banned_from feat s u us ?c then returning (t2, True) else returning (t3, excepted_from feat s u us ?c))"
      using nv u(1) q t(1) ch v(1,5) t2(1) t3(1) by (simp add: member_can_send_to_channel_def Let_def)
    have r2: "rechecked s t2" "rechecked s t3" using rechecked_trans [OF t(2) t2(2)] rechecked_trans [OF _ t3(2)] by simp_all
    have o: "only_noted m s t2" "only_noted m s t3" using only_noted_trans [OF t(5) t2(5)] only_noted_trans [OF _ t3(4)] by simp_all
    show ?thesis unfolding run may_speak_def using nv t(2,3,5) t2(3) t3(3) r2 o by auto
  qed
qed

text \<open>Clients that are not servers, on the channel or not.\<close>

definition outsider_barred :: "banfeat \<Rightarrow> cclient \<Rightarrow> Channel \<Rightarrow> bool" where
  "outsider_barred feat x ch \<longleftrightarrow> has_mode ch (MODE_NOPRIVMSGS OR MODE_MODERATED) \<or> has_mode ch MODE_REGONLY \<and> \<not> IsAccount x
     \<or> has_mode ch MODE_OPERONLY \<and> \<not> IsAnOper x \<or> has_mode ch MODE_ADMINONLY \<and> \<not> IsAdmin feat x \<or> has_mode ch MODE_SSLONLY \<and> \<not> IsSSL x"

definition present :: "chans \<Rightarrow> client \<Rightarrow> channel \<Rightarrow> member option" where
  "present s u c = List.find (\<lambda>m. m_user (membership s m) = u \<and> \<not> IsZombie (membership s m)) (mem_of s c)"

definition may_send :: "banfeat \<Rightarrow> chans \<Rightarrow> client \<Rightarrow> User \<Rightarrow> channel \<Rightarrow> Channel \<Rightarrow> bool" where
  "may_send feat s u us c ch \<longleftrightarrow> IsChannelService (clients s u) \<or> IsXtraOp (clients s u)
     \<or> (case present s u c of
          None \<Rightarrow> \<not> outsider_barred feat (clients s u) ch \<and> \<not> banned_from feat s u us c
        | Some m \<Rightarrow> \<not> (has_mode ch MODE_ACCONLY \<and> \<not> IsVoicedOrOpped (membership s m) \<and> \<not> IsAccount (clients s u))
            \<and> may_speak feat s u us m ch)"

lemma find_filtered:
  "distinct xs \<Longrightarrow> inj_on f {x \<in> set xs. P x} \<Longrightarrow> (\<And>x. P x \<Longrightarrow> f x = k) \<Longrightarrow>
   List.find (\<lambda>x. P x \<and> Q x) xs = (case List.find P xs of None \<Rightarrow> None | Some x \<Rightarrow> if Q x then Some x else None)"
proof (induction xs)
  case (Cons a xs)
  show ?case
  proof (cases "P a \<and> \<not> Q a")
    case True
    then have "\<not> P x" if "x \<in> set xs" for x
      using Cons.prems that inj_onD [OF Cons.prems(2), of a x] by auto
    then have "List.find (\<lambda>x. P x \<and> Q x) xs = None" by (auto simp: find_None_iff)
    then show ?thesis using True by simp
  next
    case False
    have "inj_on f {x \<in> set xs. P x}" using Cons.prems(2) by (auto simp: inj_on_def)
    then show ?thesis using False Cons by auto
  qed
qed simp

lemma find_channel_member_present:
  assumes "core_ok s" "may_join s u" "c \<in> dom (channel_at s)"
  shows "find_channel_member s u c = Inr (present s u c)"
proof -
  note d = matrix_invD [OF core_okD(1) [OF assms(1)]]
  have "inj_on (\<lambda>m. m_user (membership s m)) {m \<in> set (mem_of s c). m_user (membership s m) = u}"
    using matrix_unique [OF core_okD(1) [OF assms(1)]] by (intro inj_onI) blast
  then have "present s u c = (case List.find (\<lambda>m. m_user (membership s m) = u) (mem_of s c) of None \<Rightarrow> None | Some m \<Rightarrow> if \<not> IsZombie (membership s m) then Some m else None)"
    unfolding present_def by (rule find_filtered [OF d(1)]) simp
  then show ?thesis using find_member_link_ok [OF assms] by (auto simp: find_channel_member_def split: option.splits)
qed

lemma present_member:
  assumes "core_ok s" "present s u c = Some m"
  shows "m_user (membership s m) = u" "m_channel (membership s m) = c"
proof -
  have m: "m \<in> set (mem_of s c)" "m_user (membership s m) = u" using assms(2) by (auto simp: present_def find_Some_iff)
  show "m_user (membership s m) = u" by (rule m(2))
  show "m_channel (membership s m) = c" using matrix_invD(3) [OF core_okD(1) [OF assms(1)] m(1)] by simp
qed

lemma client_can_send_ok:
  assumes bs: "ban_state feat u us s" and ch: "channel_at s c = Some ch" and ok: "\<forall>m. present s u c = Some m \<longrightarrow> cache_ok feat u us s m"
  shows "\<exists>t replies. client_can_send_to_channel feat u c s = returning (t, may_send feat s u us c ch, replies) \<and> rechecked s t
    \<and> (\<forall>m. present s u c = Some m \<longrightarrow> cache_ok feat u us t m)
    \<and> (\<forall>k. present s u c \<noteq> Some k \<longrightarrow> membership t k = membership s k)"
proof -
  let ?x = "clients s u"
  note d = ban_stateD [OF bs]
  have c: "c \<in> dom (channel_at s)" using ch by auto
  have ns: "\<not> IsServer ?x" "\<not> IsMe ?x" using d(3) by (simp_all add: IsUser_def IsServer_def IsMe_def stat_defs)
  have rs: "rechecked s s" by (intro rechecked_retabled retabled_refl d(1))
  show ?thesis
  proof (cases "IsChannelService ?x \<or> IsXtraOp ?x")
    case True
    then show ?thesis using rs ok by (auto simp: client_can_send_to_channel_def may_send_def Let_def)
  next
    case no: False
    have mj: "may_join s u" using d(2) ns by (auto simp: may_join_def)
    note f = find_channel_member_present [OF d(1) mj c]
    show ?thesis
    proof (cases "present s u c")
      case None
      obtain t where t: "is_banned feat u c None False s = returning (t, banned_from feat s u us c)" "retabled s t"
        using excepted_none(2) [OF bs c retabled_refl [OF d(1)]] by blast
      have "client_can_send_to_channel feat u c s = (if outsider_barred feat ?x ch then returning (s, False, []) else returning (t, \<not> banned_from feat s u us c, []))"
        using no ns None f ch t(1) by (simp add: client_can_send_to_channel_def outsider_barred_def Let_def)
      then show ?thesis using rs rechecked_retabled [OF t(2)] no None retabled_views(4) [OF t(2)] by (auto simp: may_send_def)
    next
      case (Some m)
      have m: "m_user (membership s m) = u" "m_channel (membership s m) = c" by (rule present_member [OF d(1) Some])+
      have sp: "speaker feat u us s m" using bs m c ok Some by (simp add: speaker_def)
      obtain t where t: "member_can_send_to_channel feat m s = returning (t, may_speak feat s u us m ch)" "rechecked s t" "cache_ok feat u us t m" "only_noted m s t"
        using member_can_send_ok [OF sp] m(2) ch by (auto simp: speaker_def)
      have "client_can_send_to_channel feat u c s = (if has_mode ch MODE_ACCONLY \<and> \<not> IsVoicedOrOpped (membership s m) \<and> \<not> IsAccount ?x
          then returning (s, False, [(u, ERR_NEEDACCCHAN)]) else returning (t, may_speak feat s u us m ch, []))"
        using no ns Some f ch m(2) t(1) by (simp add: client_can_send_to_channel_def Let_def)
      then show ?thesis using rs t(2-4) no Some ok by (auto simp: may_send_def only_noted_def)
    qed
  qed
qed

section \<open>Changing nick\<close>

definition stops_nick :: "banfeat \<Rightarrow> chans \<Rightarrow> client \<Rightarrow> User \<Rightarrow> member \<Rightarrow> bool" where
  "stops_nick feat s u us m \<longleftrightarrow> \<not> IsVoicedOrOpped (membership s m) \<and> banned_from feat s u us (m_channel (membership s m))
     \<and> \<not> excepted_from feat s u us (m_channel (membership s m))"

lemma stops_rechecked: "rechecked s t \<Longrightarrow> stops_nick feat t u us m = stops_nick feat s u us m"
  using rechecked_views(6) [of s t m] kept_status(4) [of "membership s m" "membership t m"] rechecked_decisions(5,6) [of s t]
  by (simp add: stops_nick_def same_link_def)

lemma one_nick_check:
  assumes sp: "speaker feat u us s m"
  defines "c \<equiv> m_channel (membership s m)"
  shows "\<exists>t. (if IsVoicedOrOpped (membership s m) then returning (s, False)
       else run_bind (is_banned feat u c (Some m) False s) (\<lambda>(s1, banned).
         if \<not> banned then returning (s1, False)
         else run_bind (is_excepted feat u c (Some m) False s1) (\<lambda>(s2, excepted). returning (s2, \<not> excepted))))
     = returning (t, stops_nick feat s u us m) \<and> rechecked s t \<and> (\<forall>k. speaker feat u us s k \<longrightarrow> speaker feat u us t k)"
proof -
  have bs: "ban_state feat u us s" using sp by (simp add: speaker_def)
  have rs: "rechecked s s" by (intro rechecked_retabled retabled_refl ban_stateD(1) [OF bs])
  obtain t where t: "is_banned feat u c (Some m) False s = returning (t, banned_from feat s u us c)" "rechecked s t"
    "\<forall>k. speaker feat u us s k \<longrightarrow> speaker feat u us t k" "m_channel (membership t m) = c"
    using speaker_checks(1) [OF sp] unfolding c_def by blast
  obtain v where v: "is_excepted feat u c (Some m) False t = returning (v, excepted_from feat s u us c)" "rechecked t v"
    "\<forall>k. speaker feat u us t k \<longrightarrow> speaker feat u us v k"
    using speaker_checks(2) [of feat u us t m] t(3) sp unfolding t(4) rechecked_decisions(6) [OF t(2)] by blast
  show ?thesis using rs t v rechecked_trans [OF t(2) v(2)] by (auto simp: stops_nick_def c_def)
qed

lemma no_nickchange_ok:
  assumes "core_ok s" "\<forall>m \<in> set ms. speaker feat u us s m"
  shows "\<exists>t. no_nickchange_among feat u ms s
      = returning (t, map_option (\<lambda>m. name_of s (m_channel (membership s m))) (List.find (stops_nick feat s u us) ms)) \<and> rechecked s t"
  using assms
proof (induction ms arbitrary: s)
  case Nil
  then show ?case by (simp add: rechecked_retabled retabled_refl)
next
  case (Cons m ms)
  have sp: "speaker feat u us s m" using Cons.prems by simp
  let ?c = "m_channel (membership s m)"
  obtain t where t: "(if IsVoicedOrOpped (membership s m) then returning (s, False)
       else run_bind (is_banned feat u ?c (Some m) False s) (\<lambda>(s1, banned).
         if \<not> banned then returning (s1, False)
         else run_bind (is_excepted feat u ?c (Some m) False s1) (\<lambda>(s2, excepted). returning (s2, \<not> excepted))))
     = returning (t, stops_nick feat s u us m)" "rechecked s t" "\<forall>k. speaker feat u us s k \<longrightarrow> speaker feat u us t k"
    using one_nick_check [OF sp] by blast
  note v = rechecked_views [OF t(2)]
  have run: "no_nickchange_among feat u (m # ms) s = (if stops_nick feat s u us m then run_bind (Some (the_channel t ?c)) (\<lambda>ch. returning (t, Some (ch_name ch)))
      else no_nickchange_among feat u ms t)"
    using t(1) by (simp add: Let_def)
  show ?case
  proof (cases "stops_nick feat s u us m")
    case True
    obtain ch where "channel_at s ?c = Some ch" using sp by (auto simp: speaker_def)
    then show ?thesis using True t(2) v(1) unfolding run by (simp add: name_of_def)
  next
    case False
    obtain v' where v': "no_nickchange_among feat u ms t
      = returning (v', map_option (\<lambda>m. name_of t (m_channel (membership t m))) (List.find (stops_nick feat t u us) ms))" "rechecked t v'"
      using Cons.IH [OF rechecked_core [OF t(2) Cons.prems(1)]] Cons.prems(2) t(3) by auto
    have "stops_nick feat t u us = stops_nick feat s u us" by (intro ext) (rule stops_rechecked [OF t(2)])
    moreover have "m_channel (membership t k) = m_channel (membership s k)" for k using v(6) [of k] by (simp add: same_link_def)
    ultimately show ?thesis using False v' rechecked_trans [OF t(2) v'(2)] v(4) unfolding run by simp
  qed
qed

section \<open>Theorems\<close>

text \<open>
  C8: \<open>can_join\<close> ends without a fault and reports the first obstacle, in the documented order; operators
  with extra privileges pass everything, an invitation everything but the need for SSL, and a
  local operator's override is recognised and reported as such. Nothing but the order of the hash
  buckets changes.
\<close>

theorem can_join_correct:
  assumes "ban_state feat u us s" "channel_at s c = Some ch"
  shows "\<exists>t. can_join feat walk u c key s
      = returning (t, join_verdict feat walk (clients s u) ch key (c \<in> set (u_invited us)) (excepted_from feat s u us c) (banned_from feat s u us c))
    \<and> retabled s t"
  by (rule can_join_verdict [OF assms])

lemma example_channel: "channel_at (example_bans bs es) 0 = Some ((the (channel_at example 0))\<lparr>ch_banlist := bs, ch_exceptlist := es\<rparr>)"
  by (rule example_bans_views(1))

lemma example_modes:
  "has_mode ((the (channel_at example 0))\<lparr>ch_banlist := bs, ch_exceptlist := es\<rparr>) f = False"
  "ch_key ((the (channel_at example 0))\<lparr>ch_banlist := bs, ch_exceptlist := es\<rparr>) = []"
  "ch_limit ((the (channel_at example 0))\<lparr>ch_banlist := bs, ch_exceptlist := es\<rparr>) = 0"
  "ch_name ((the (channel_at example 0))\<lparr>ch_banlist := bs, ch_exceptlist := es\<rparr>) = ''#x''"
  by (simp_all add: has_mode_def example_def)

lemma example_not_excepted: "\<not> excepted_from example_banfeat (example_bans bs []) 1 us 0"
  by (simp add: excepted_from_def example_bans_views)

lemma example_plain: "\<not> IsXtraOp (clients (example_bans bs es) u)" "\<not> IsAccount (clients (example_bans bs es) u)"
    "\<not> IsChannelService (clients (example_bans bs es) u)" "u_invited (example_user m) = []"
  by (simp_all add: example_bans_views IsXtraOp_def IsAccount_def IsChannelService_def HasFlag_def example_user_def)
    (simp_all add: example_def)

theorem can_join_correct_witness:
  "\<exists>t. can_join example_banfeat False 1 0 [] (example_bans [plain_ban ''*!*@h''] []) = returning (t, ERR_BANNEDFROMCHAN)"
proof -
  have "ban_ok (plain_ban ''*!*@h'')" using example_mask by (simp add: plain_ban_ok)
  then have bs: "ban_state example_banfeat 1 (example_user 0) (example_bans [plain_ban ''*!*@h''] [])" by (intro example_ban_state) simp
  note j = can_join_correct [OF bs example_channel, of False "[]"]
  show ?thesis using j example_banned example_not_excepted example_plain
    by (auto simp: join_verdict_def join_obstacles_def example_modes override_key_def)
qed

text \<open>
  C9: Whether a client may send to a channel: channel services and operators with extra privileges
  always; outsiders unless the modes or a ban keep them out; members unless they are silenced, the
  channel is moderated or, for local users, a ban holds without an exception. If the answers noted in
  the membership of the client agree with the lists, they still do afterwards, with those the check has
  added; no other membership changes, and of the rest of the state only the order of hash buckets.
\<close>

theorem can_send_correct:
  assumes "ban_state feat u us s" "channel_at s c = Some ch" "\<forall>m. present s u c = Some m \<longrightarrow> cache_ok feat u us s m"
  shows "\<exists>t replies. client_can_send_to_channel feat u c s = returning (t, may_send feat s u us c ch, replies) \<and> rechecked s t
    \<and> (\<forall>m. present s u c = Some m \<longrightarrow> cache_ok feat u us t m)
    \<and> (\<forall>k. present s u c \<noteq> Some k \<longrightarrow> membership t k = membership s k)"
  by (rule client_can_send_ok [OF assms])

lemma example_present: "present (example_bans bs es) 1 0 = Some 0"
proof -
  have "mem_of (example_bans bs es) 0 = [1, 0]" using example_views(1) [of 0] by (simp add: mem_of_def example_bans_views) (simp add: example_def)
  then show ?thesis by (simp add: present_def example_bans_views example_fields example_zombie)
qed

lemma example_cache: "cache_ok example_banfeat 1 us (example_bans bs es) 0"
  by (simp add: cache_ok_def example_bans_views) (simp add: example_def IsBanValid_def IsExceptValid_def)

theorem can_send_correct_witness:
  "\<exists>t replies. client_can_send_to_channel example_banfeat 1 0 (example_bans [plain_ban ''*!*@h''] []) = returning (t, False, replies)"
proof -
  have "ban_ok (plain_ban ''*!*@h'')" using example_mask by (simp add: plain_ban_ok)
  then have bs: "ban_state example_banfeat 1 (example_user 0) (example_bans [plain_ban ''*!*@h''] [])" by (intro example_ban_state) simp
  have c: "\<forall>m. present (example_bans [plain_ban ''*!*@h''] []) 1 0 = Some m \<longrightarrow> cache_ok example_banfeat 1 (example_user 0) (example_bans [plain_ban ''*!*@h''] []) m"
    using example_present example_cache by simp
  have "MyUser (example_bans [plain_ban ''*!*@h''] []) 1" "\<not> IsVoicedOrOpped (membership (example_bans [plain_ban ''*!*@h''] []) 0)"
    "m_channel (membership (example_bans [plain_ban ''*!*@h''] []) 0) = 0"
    by (simp_all add: MyUser_def MyConnect_def example_bans_views IsVoicedOrOpped_def) (simp_all add: example_def IsUser_def)
  then have "\<not> may_send example_banfeat (example_bans [plain_ban ''*!*@h''] []) 1 (example_user 0) 0
      ((the (channel_at example 0))\<lparr>ch_banlist := [plain_ban ''*!*@h''], ch_exceptlist := []\<rparr>)"
    using example_banned example_not_excepted example_plain by (simp add: may_send_def example_present [unfolded One_nat_def] may_speak_def)
  then show ?thesis using can_send_correct [OF bs example_channel c] by auto
qed

text \<open>
  C18: A user on a ban exception that is quieted may speak on a channel that is not moderated, until the
  quiet itself is excepted: an entry meant to lift the quiet enforces it.
\<close>

theorem quiet_exception_reversed:
  assumes "speaker feat u us s m" "channel_at s (m_channel (membership s m)) = Some ch" "\<not> has_mode ch MODE_MODERATED"
    "\<not> IsVoicedOrOpped (membership s m)" "quieted feat s u us (m_channel (membership s m))" "excepted_from feat s u us (m_channel (membership s m))"
  shows "\<exists>t. member_can_send_to_channel feat m s = returning (t, \<not> unquieted feat s u us (m_channel (membership s m)))"
  using member_can_send_ok [OF assms(1,2)] assms(3-6) by (auto simp: may_speak_def silenced_def)

definition quiet_entry :: Ban where
  "quiet_entry = \<lparr>banstr = ''~q:*!*@h'', extstr = Some ''*!*@h'', extflag = EXTBAN_QUIET, ban_who = ''op'', ban_when = 5, ban_flags = 0x20\<rparr>"

lemma quiet_entry_ok: "ban_ok quiet_entry"
proof -
  have "addr_ok ''~q:*!*@h''" using addr_ok_at [of "''~q:*!*''" "''h''"] by (simp add: mask_ok_def)
  then show ?thesis using example_mask by (simp add: ban_ok_def quiet_entry_def)
qed

lemma example_names: "names_applies example_banfeat (clients example 1) (example_user 0) ''*!*@h''"
  using example_known by (auto simp: names_applies_def chattr_simps intro!: bexI [of _ "''n!u@h''"])

lemma example_quieted:
  "quieted example_banfeat (example_bans (quiet_entry # bs) es) 1 (example_user 0) 0"
  "unquieted example_banfeat (example_bans bs (e # quiet_entry # es)) 1 (example_user 0) 0"
  "excepted_from example_banfeat (example_bans bs (plain_ban ''*!*@h'' # es)) 1 (example_user 0) 0"
  using example_names
  by (simp_all add: quieted_def unquieted_def ext_listed_def example_bans_views excepted_from_def except_applies_def)
    (simp_all add: quiet_entry_def plain_ban_def EXTBAN_QUIET_def)

theorem quiet_exception_reversed_witness:
  "\<exists>t. member_can_send_to_channel example_banfeat 0 (example_bans [quiet_entry] [plain_ban ''*!*@h'', quiet_entry]) = returning (t, False)"
proof -
  let ?s = "example_bans [quiet_entry] [plain_ban ''*!*@h'', quiet_entry]"
  have "ban_state example_banfeat 1 (example_user 0) ?s" using quiet_entry_ok example_mask by (intro example_ban_state) (simp add: plain_ban_ok)
  moreover have m: "m_user (membership ?s 0) = 1" "m_channel (membership ?s 0) = 0" "\<not> IsVoicedOrOpped (membership ?s 0)"
    by (simp_all add: example_bans_views example_fields IsVoicedOrOpped_def) (simp add: example_def)
  ultimately have "speaker example_banfeat 1 (example_user 0) ?s 0" using example_cache by (simp add: speaker_def example_bans_views)
  then show ?thesis
    using quiet_exception_reversed [of example_banfeat 1 "example_user 0" ?s 0] m example_channel [of "[quiet_entry]"] example_modes(1)
      example_quieted [of "[]"] example_quieted(2,3) [of "[quiet_entry]"] by simp
qed

text \<open>
  An exception lifts the key, the invitation, the limit and the need to be registered whether or
  not the feature meant to enable that is set.
\<close>

theorem exception_always_admits:
  assumes "ban_state feat u us s" "channel_at s c = Some ch" "excepted_from feat s u us c" "\<not> feat_CHMODE_e_CHMODEEXCEPTION feat"
    "\<not> has_mode ch MODE_SSLONLY" "\<not> has_mode ch MODE_OPERONLY" "\<not> has_mode ch MODE_ADMINONLY"
  shows "\<exists>t r. can_join feat False u c [] s = returning (t, r) \<and> r \<in> {0, - 1}"
  using can_join_verdict [OF assms(1,2), of False "[]"] assms(3-7)
  by (auto simp: join_verdict_def join_obstacles_def override_key_def)

theorem exception_always_admits_witness:
  "\<exists>t r. can_join example_banfeat False 1 0 [] (example_bans [] [plain_ban ''*!*@h'']) = returning (t, r) \<and> r \<in> {0, - 1}"
proof -
  have "ban_state example_banfeat 1 (example_user 0) (example_bans [] [plain_ban ''*!*@h''])"
    using example_mask by (intro example_ban_state) (simp add: plain_ban_ok)
  moreover have "\<not> feat_CHMODE_e_CHMODEEXCEPTION example_banfeat" by (simp add: example_banfeat_def)
  ultimately show ?thesis
    using exception_always_admits [OF _ example_channel example_quieted(3)] example_modes(1) by metis
qed

end
