(* ===== verification/Mode_Text.thy ===== *)
theory Mode_Text
  imports Access_Thms
begin

text \<open>
  The mode letters of a channel, and the defects of the parameters printed with them.
\<close>

lemma auto_modes_append: "auto_modes (a @ b) t = res_bind (auto_modes a t) (auto_modes b)"
  by (induction a arbitrary: t) (auto split: option.splits)

definition one_bit :: "u32 \<Rightarrow> bool" where
  "one_bit f \<longleftrightarrow> (\<forall>w. w AND f = 0 \<or> w AND f = f)"

lemma one_bit_exp: "one_bit (2 ^ n)"
proof -
  have "w AND 2 ^ n = (if bit w n then 2 ^ n else 0)" for w :: u32
    by (rule bit_word_eqI) (auto simp: bit_simps)
  then show ?thesis by (auto simp: one_bit_def)
qed

text \<open>One letter adds its flag exactly when the mode has it.\<close>

lemma auto_modes_letter:
  assumes "map_of chan_flags l = Some f" "one_bit f"
  shows "auto_modes (if has_mode ch f then [l] else []) t = Inr (t OR ch_mode ch AND f)"
  using assms(1) assms(2) [unfolded one_bit_def, rule_format, of "ch_mode ch"] by (auto simp: has_mode_def)

lemma auto_modes_either:
  assumes "map_of chan_flags l = Some f" "one_bit f" "map_of chan_flags k = Some g" "one_bit g" "\<not> (has_mode ch f \<and> has_mode ch g)"
  shows "auto_modes (if has_mode ch f then [l] else if has_mode ch g then [k] else []) t = Inr (t OR ch_mode ch AND (f OR g))"
proof -
  have d: "ch_mode ch AND (f OR g) = (ch_mode ch AND f) OR (ch_mode ch AND g)" by (rule bit.conj_disj_distrib)
  show ?thesis unfolding d using assms(1,3,5) assms(2,4) [unfolded one_bit_def, rule_format, of "ch_mode ch"] by (auto simp: has_mode_def)
qed

lemmas mode_bit_defs =
  MODE_PRIVATE_def MODE_SECRET_def MODE_MODERATED_def MODE_TOPICLIMIT_def MODE_INVITEONLY_def MODE_NOPRIVMSGS_def MODE_REGONLY_def
  MODE_NOCOLOUR_def MODE_NOCTCP_def MODE_NOQUITPARTS_def MODE_SSLONLY_def MODE_ACCONLY_def MODE_OPERONLY_def MODE_NONOTICE_def
  MODE_STRIP_def MODE_NOAMSG_def MODE_ADMINONLY_def MODE_PERSIST_def

lemma mode_bits:
  "one_bit MODE_PRIVATE" "one_bit MODE_SECRET" "one_bit MODE_MODERATED" "one_bit MODE_TOPICLIMIT" "one_bit MODE_INVITEONLY" "one_bit MODE_NOPRIVMSGS"
  "one_bit MODE_REGONLY" "one_bit MODE_NOCOLOUR" "one_bit MODE_NOCTCP" "one_bit MODE_NOQUITPARTS" "one_bit MODE_SSLONLY" "one_bit MODE_ACCONLY"
  "one_bit MODE_OPERONLY" "one_bit MODE_NONOTICE" "one_bit MODE_STRIP" "one_bit MODE_NOAMSG" "one_bit MODE_ADMINONLY" "one_bit MODE_PERSIST"
  using one_bit_exp [of 2] one_bit_exp [of 3] one_bit_exp [of 4] one_bit_exp [of 5] one_bit_exp [of 6] one_bit_exp [of 7] one_bit_exp [of 11]
    one_bit_exp [of 12] one_bit_exp [of 13] one_bit_exp [of 14] one_bit_exp [of 15] one_bit_exp [of 16] one_bit_exp [of 17] one_bit_exp [of 18]
    one_bit_exp [of 19] one_bit_exp [of 20] one_bit_exp [of 23] one_bit_exp [of 24]
  by (simp_all add: mode_bit_defs)

definition printed_modes :: u32 where
  "printed_modes = (MODE_SECRET OR MODE_PRIVATE) OR MODE_MODERATED OR MODE_TOPICLIMIT OR MODE_INVITEONLY OR MODE_NOPRIVMSGS OR MODE_REGONLY
     OR (MODE_NOCOLOUR OR MODE_STRIP) OR MODE_NOCTCP OR MODE_ACCONLY OR MODE_NONOTICE OR MODE_OPERONLY OR MODE_ADMINONLY OR MODE_NOQUITPARTS
     OR MODE_SSLONLY OR MODE_NOAMSG OR MODE_PERSIST"

lemma chan_flags_letters:
  "map_of chan_flags (CHR ''s'') = Some MODE_SECRET" "map_of chan_flags (CHR ''p'') = Some MODE_PRIVATE" "map_of chan_flags (CHR ''m'') = Some MODE_MODERATED"
  "map_of chan_flags (CHR ''t'') = Some MODE_TOPICLIMIT" "map_of chan_flags (CHR ''i'') = Some MODE_INVITEONLY" "map_of chan_flags (CHR ''n'') = Some MODE_NOPRIVMSGS"
  "map_of chan_flags (CHR ''r'') = Some MODE_REGONLY" "map_of chan_flags (CHR ''c'') = Some MODE_NOCOLOUR" "map_of chan_flags (CHR ''S'') = Some MODE_STRIP"
  "map_of chan_flags (CHR ''C'') = Some MODE_NOCTCP" "map_of chan_flags (CHR ''M'') = Some MODE_ACCONLY" "map_of chan_flags (CHR ''N'') = Some MODE_NONOTICE"
  "map_of chan_flags (CHR ''O'') = Some MODE_OPERONLY" "map_of chan_flags (CHR ''a'') = Some MODE_ADMINONLY" "map_of chan_flags (CHR ''Q'') = Some MODE_NOQUITPARTS"
  "map_of chan_flags (CHR ''Z'') = Some MODE_SSLONLY" "map_of chan_flags (CHR ''T'') = Some MODE_NOAMSG" "map_of chan_flags (CHR ''z'') = Some MODE_PERSIST"
  by (simp_all add: chan_flags_def mode_bit_defs)

lemma mode_letters_parse:
  assumes "\<not> (has_mode ch MODE_SECRET \<and> has_mode ch MODE_PRIVATE)" "\<not> (has_mode ch MODE_NOCOLOUR \<and> has_mode ch MODE_STRIP)"
  shows "auto_modes (mode_letters ch) 0 = Inr (ch_mode ch AND printed_modes)"
  unfolding mode_letters_def auto_modes_append
  by (simp add: auto_modes_letter [OF chan_flags_letters(3) mode_bits(3)] auto_modes_letter [OF chan_flags_letters(4) mode_bits(4)]
      auto_modes_letter [OF chan_flags_letters(5) mode_bits(5)] auto_modes_letter [OF chan_flags_letters(6) mode_bits(6)]
      auto_modes_letter [OF chan_flags_letters(7) mode_bits(7)] auto_modes_letter [OF chan_flags_letters(10) mode_bits(9)]
      auto_modes_letter [OF chan_flags_letters(11) mode_bits(12)] auto_modes_letter [OF chan_flags_letters(12) mode_bits(14)]
      auto_modes_letter [OF chan_flags_letters(13) mode_bits(13)] auto_modes_letter [OF chan_flags_letters(14) mode_bits(17)]
      auto_modes_letter [OF chan_flags_letters(15) mode_bits(10)] auto_modes_letter [OF chan_flags_letters(16) mode_bits(11)]
      auto_modes_letter [OF chan_flags_letters(17) mode_bits(16)] auto_modes_letter [OF chan_flags_letters(18) mode_bits(18)]
      auto_modes_either [OF chan_flags_letters(1) mode_bits(2) chan_flags_letters(2) mode_bits(1) assms(1)]
      auto_modes_either [OF chan_flags_letters(8) mode_bits(8) chan_flags_letters(9) mode_bits(15) assms(2)]
      printed_modes_def bit.conj_disj_distrib or.assoc)

text \<open>
  The mode letters printed for a channel without parameters, read back as automatic channel
  modes, give the same modes, when no two modes exclude each other.
\<close>

theorem channel_modes_roundtrip:
  assumes "ch_limit ch = 0" "ch_redirect ch = []" "ch_key ch = []" "ch_mode ch AND printed_modes = ch_mode ch"
    "\<not> (has_mode ch MODE_SECRET \<and> has_mode ch MODE_PRIVATE)" "\<not> (has_mode ch MODE_NOCOLOUR \<and> has_mode ch MODE_STRIP)"
  shows "\<exists>letters. channel_modes n s u ch c pbuf = Inr (''+'' @ letters, pbuf) \<and> auto_modes letters 0 = Inr (ch_mode ch)"
  using mode_letters_parse [OF assms(5,6)] assms(1-4) by (simp add: channel_modes_def)

theorem channel_modes_roundtrip_witness:
  "\<exists>letters. channel_modes 512 example 1 ((the (channel_at example 0))\<lparr>ch_mode := MODE_SECRET OR MODE_NOPRIVMSGS\<rparr>) 0 [] = Inr (''+'' @ letters, [])
    \<and> auto_modes letters 0 = Inr (MODE_SECRET OR MODE_NOPRIVMSGS)"
  using channel_modes_roundtrip [of "(the (channel_at example 0))\<lparr>ch_mode := MODE_SECRET OR MODE_NOPRIVMSGS\<rparr>" 512 example 1 0 "[]"]
  by (simp add: example_def has_mode_def printed_modes_def mode_bit_defs)

text \<open>A key that is the only parameter is printed with a space before it.\<close>

lemma channel_modes_key_space:
  assumes "ch_limit ch = 0" "ch_redirect ch = []" "ch_key ch \<noteq> []" "is_chan_op s u c = Inr True"
  shows "channel_modes n s u ch c [] = Inr (''+'' @ mode_letters ch @ ''k'', CHR '' '' # ch_key ch)"
  using assms by (simp add: channel_modes_def)

end
