(* ===== verification/Msgq.thy ===== *)
theory Msgq
  imports Client "HOL-Library.Multiset"
begin

text \<open>
  Outbound message queues (\<open>ircd/msgq.c\<close>): reference counted message buffers in five sizes, shared
  between the queues of all receivers, and the two-priority queue of one receiver.

  Buffers live at addresses (\<open>mbufs\<close>, with \<open>next_buf\<close> the next address \<open>MyMalloc\<close> returns); a freed
  address has no buffer. The linked lists are lists of addresses: \<open>prev_p\<close> is set exactly while a
  buffer is on \<open>msglist\<close>. The bytes of a buffer are those before its \<open>length\<close>, which therefore is
  the length of the list \<open>mb_msg\<close>. Counters of objects in memory are unbounded integers; the length
  and the number of messages of a queue are 32-bit words.
\<close>

definition MB_BASE_SHIFT :: nat where "MB_BASE_SHIFT = 5"
definition MB_MAX_SHIFT :: nat where "MB_MAX_SHIFT = 9"

lemmas shift_defs = MB_BASE_SHIFT_def MB_MAX_SHIFT_def

record MsgBuf =
  mb_real :: "nat option"
  mb_ref :: nat
  mb_power :: nat
  mb_msg :: string

definition bufsize :: "MsgBuf \<Rightarrow> nat" where
  "bufsize b = 2 ^ mb_power b"

record Msg =
  msg_sent :: nat
  msg_buf :: nat

text \<open>\<open>bufs_alloc\<close>, \<open>bufs_used\<close> and \<open>bufs_free\<close> are the array \<open>msgBufs\<close>, by the power of two.\<close>

record MQData =
  msglist :: "nat list"
  msgs_alloc :: int
  msgs_used :: int
  msgs_free :: nat
  tot_bufsize :: int
  bufs_alloc :: "nat \<Rightarrow> int"
  bufs_used :: "nat \<Rightarrow> int"
  bufs_free :: "nat \<Rightarrow> nat list"
  sizes_msgs :: u32
  sizes :: "nat \<Rightarrow> u32"
  mbufs :: "nat \<rightharpoonup> MsgBuf"
  next_buf :: nat

record MsgQ =
  mq_length :: u32
  mq_count :: u32
  mq_queue :: "Msg list"
  mq_prio :: "Msg list"

definition put_buf :: "nat \<Rightarrow> MsgBuf \<Rightarrow> 'z MQData_scheme \<Rightarrow> 'z MQData_scheme" where
  "put_buf a b st = st\<lparr>mbufs := (mbufs st)(a \<mapsto> b)\<rparr>"

section \<open>Buffers\<close>

definition mb_power_for :: "nat \<Rightarrow> nat" where
  "mb_power_for len =
     (case find (\<lambda>p. 0 < len \<and> (len - 1) div 2 ^ p = 0) [MB_BASE_SHIFT..<MB_MAX_SHIFT + 1] of
        Some p \<Rightarrow> p | None \<Rightarrow> MB_MAX_SHIFT + 1)"

text \<open>A buffer from the free list of its size, or a new one while the pool is not used up.\<close>

definition mb_obtain :: "nat \<Rightarrow> nat \<Rightarrow> 'z MQData_scheme \<Rightarrow> 'z MQData_scheme \<times> nat option" where
  "mb_obtain bufferpool pw st =
     (case bufs_free st pw of
        mb # free \<Rightarrow> (st\<lparr>bufs_free := (bufs_free st)(pw := free)\<rparr>, Some mb)
      | [] \<Rightarrow>
          if tot_bufsize st < int bufferpool then
            (st\<lparr>mbufs := (mbufs st)(next_buf st \<mapsto> \<lparr>mb_real = None, mb_ref = 0, mb_power = pw, mb_msg = []\<rparr>),
               next_buf := Suc (next_buf st),
               bufs_alloc := (bufs_alloc st)(pw := bufs_alloc st pw + 1),
               tot_bufsize := tot_bufsize st + 2 ^ pw\<rparr>, Some (next_buf st))
          else (st, None))"

definition set_real :: "nat option \<Rightarrow> nat \<Rightarrow> 'z MQData_scheme \<Rightarrow> 'z MQData_scheme" where
  "set_real in_mb r st =
     (case in_mb of None \<Rightarrow> st
      | Some a \<Rightarrow> (case mbufs st a of None \<Rightarrow> st | Some b \<Rightarrow> put_buf a (b\<lparr>mb_real := Some r\<rparr>) st))"

definition msgq_alloc :: "nat \<Rightarrow> nat option \<Rightarrow> nat \<Rightarrow> 'z MQData_scheme \<Rightarrow> ('z MQData_scheme \<times> nat option) res" where
  "msgq_alloc bufferpool in_mb len st =
     (let pw = mb_power_for len in
      if \<not> (len \<le> 2 ^ pw \<and> 2 ^ pw \<le> (512 :: nat)) then Inl Aborted
      else if (case in_mb of None \<Rightarrow> False | Some a \<Rightarrow> mbufs st a = None) then Inl NullDeref
      else if (case in_mb of None \<Rightarrow> False | Some a \<Rightarrow> mb_power (the (mbufs st a)) = pw) then
        Inr (set_real in_mb (the in_mb) st, in_mb)
      else
        (case mb_obtain bufferpool pw st of
           (st1, Some mb) \<Rightarrow>
             (case mbufs st1 mb of None \<Rightarrow> Inl NullDeref
              | Some b \<Rightarrow>
                  Inr (set_real in_mb mb
                         (put_buf mb (b\<lparr>mb_real := None, mb_ref := 1\<rparr>)
                            (st1\<lparr>bufs_used := (bufs_used st1)(pw := bufs_used st1 pw + 1)\<rparr>)), Some mb))
         | (st1, None) \<Rightarrow>
             (case in_mb of None \<Rightarrow> Inr (st1, None) | Some a \<Rightarrow> Inr (set_real in_mb a st1, Some a))))"

text \<open>One size class of \<open>msgq_clear_freembs\<close>.\<close>

fun clear_free :: "nat \<Rightarrow> nat list \<Rightarrow> 'z MQData_scheme \<Rightarrow> 'z MQData_scheme" where
  "clear_free i [] st = st"
| "clear_free i (mb # free) st =
     clear_free i free
       (st\<lparr>bufs_free := (bufs_free st)(i := free), bufs_alloc := (bufs_alloc st)(i := bufs_alloc st i - 1),
          tot_bufsize := tot_bufsize st - 2 ^ i, mbufs := (mbufs st)(mb := None)\<rparr>)"

definition msgq_clear_freembs :: "'z MQData_scheme \<Rightarrow> 'z MQData_scheme" where
  "msgq_clear_freembs st = fold (\<lambda>i st. clear_free i (bufs_free st i) st) [MB_BASE_SHIFT..<MB_MAX_SHIFT + 1] st"

text \<open>
  \<open>ircd_vsnprintf\<close> with \<open>text\<close> as what the format and its arguments stand for: \<open>addc\<close> stores a
  character while there is room and counts it otherwise. The result is what was stored and the number
  returned.
\<close>

fun addc :: "nat \<Rightarrow> char \<Rightarrow> string \<times> nat \<Rightarrow> string \<times> nat" where
  "addc buf_size c (buf, buf_overflow) =
     (if buf_size \<le> length buf then (buf, Suc buf_overflow) else (buf @ [c], buf_overflow))"

definition ircd_vsnprintf :: "nat \<Rightarrow> string \<Rightarrow> string \<times> nat" where
  "ircd_vsnprintf buf_len text =
     (let (buf, buf_overflow) = fold (addc (buf_len - 1)) text ([], 0) in (buf, length buf + buf_overflow))"

text \<open>
  The end of \<open>msgq_vmake\<close> and \<open>msgq_append\<close>: \<open>head\<close> is in the buffer already, \<open>len\<close> is the length
  after formatting; it is cut, CR and LF are stored, and the terminating NUL must fit as well (the
  structure has one byte more than the size of the buffer).
\<close>

definition finish_line :: "nat \<Rightarrow> string \<Rightarrow> nat \<Rightarrow> string res" where
  "finish_line sz body len =
     (let n = (if sz - 2 < len then sz - 2 else len);
          msg = take n body @ [CHR 0x0D, CHR 0x0A]
      in if sz < length msg then Inl OutOfBounds
         else if length body < n then Inl Indeterminate
         else Inr msg)"

text \<open>What is done when there is no memory for a message.\<close>

record 'w starve =
  ferguson_flusher :: bool
  flush_all :: "'w \<Rightarrow> 'w run"
  kill_sendq :: "bool \<Rightarrow> 'w \<Rightarrow> 'w run"

definition res_run :: "'a res \<Rightarrow> 'a run" where
  "res_run r = Some r"

text \<open>\<open>if (!mb) { ...; mb = msgq_alloc(0, BUFSIZE); }\<close>\<close>

definition retry_alloc :: "nat \<Rightarrow> ('z MQData_scheme \<Rightarrow> 'z MQData_scheme run) \<Rightarrow> 'z MQData_scheme \<times> nat option
    \<Rightarrow> ('z MQData_scheme \<times> nat option) run" where
  "retry_alloc bufferpool recover r =
     (case r of (st, Some mb) \<Rightarrow> returning (st, Some mb)
      | (st, None) \<Rightarrow> run_bind (recover st) (\<lambda>st1. res_run (msgq_alloc bufferpool None BUFSIZE st1)))"

definition msgq_vmake :: "nat \<Rightarrow> 'z MQData_scheme starve \<Rightarrow> string \<Rightarrow> 'z MQData_scheme \<Rightarrow> ('z MQData_scheme \<times> nat) run" where
  "msgq_vmake bufferpool e text st =
     run_bind (res_run (msgq_alloc bufferpool None BUFSIZE st)) (\<lambda>r.
     run_bind (if ferguson_flusher e then retry_alloc bufferpool (flush_all e) r else returning r) (\<lambda>r.
     run_bind (retry_alloc bufferpool (\<lambda>w. returning (msgq_clear_freembs w)) r) (\<lambda>r.
     run_bind (retry_alloc bufferpool (\<lambda>w. run_bind (kill_sendq e False w) (\<lambda>w. returning (msgq_clear_freembs w))) r) (\<lambda>r.
     run_bind (retry_alloc bufferpool (\<lambda>w. run_bind (kill_sendq e True w) (\<lambda>w. returning (msgq_clear_freembs w))) r) (\<lambda>(st1, found).
       case found of None \<Rightarrow> Some (Inl Aborted)
       | Some mb \<Rightarrow>
           (case mbufs st1 mb of None \<Rightarrow> Some (Inl NullDeref)
            | Some b \<Rightarrow>
                (let (body, n) = ircd_vsnprintf (bufsize b - 1) text in
                 run_bind (res_run (finish_line (bufsize b) body n)) (\<lambda>msg.
                   returning ((put_buf mb (b\<lparr>mb_msg := msg\<rparr>) st1)\<lparr>msglist := mb # msglist st1\<rparr>, mb)))))))))"

definition msgq_append :: "nat \<Rightarrow> string \<Rightarrow> 'z MQData_scheme \<Rightarrow> 'z MQData_scheme res" where
  "msgq_append mb text st =
     (case mbufs st mb of None \<Rightarrow> Inl NullDeref
      | Some b \<Rightarrow>
          if mb_real b \<noteq> None \<or> length (mb_msg b) \<le> 2 \<or> bufsize b < length (mb_msg b) then Inl Aborted
          else
            (let old = take (length (mb_msg b) - 2) (mb_msg b);
                 (new, n) = ircd_vsnprintf (bufsize b - length old - 1) text
             in res_bind (finish_line (bufsize b) (old @ new) (length old + n)) (\<lambda>msg.
                  Inr (put_buf mb (b\<lparr>mb_msg := msg\<rparr>) st))))"

definition msgq_bufleft :: "nat \<Rightarrow> 'z MQData_scheme \<Rightarrow> nat res" where
  "msgq_bufleft mb st = (case mbufs st mb of None \<Rightarrow> Inl NullDeref | Some b \<Rightarrow> Inr (bufsize b - length (mb_msg b)))"

text \<open>The unused buffer goes to the free list of its size.\<close>

definition free_mb :: "nat \<Rightarrow> 'z MQData_scheme \<Rightarrow> 'z MQData_scheme run" where
  "free_mb mb st =
     (case mbufs st mb of None \<Rightarrow> Some (Inl NullDeref)
      | Some b \<Rightarrow>
          returning (st\<lparr>bufs_free := (bufs_free st)(mb_power b := mb # bufs_free st (mb_power b)),
                       bufs_used := (bufs_used st)(mb_power b := bufs_used st (mb_power b) - 1)\<rparr>))"

partial_function (option) msgq_clean :: "nat \<Rightarrow> 'z MQData_scheme \<Rightarrow> 'z MQData_scheme run" where
  "msgq_clean mb st =
     (case mbufs st mb of None \<Rightarrow> Some (Inl NullDeref)
      | Some b \<Rightarrow>
          if mb_ref b = 0 then Some (Inl Aborted)
          else if mb_ref b \<noteq> 1 then returning (put_buf mb (b\<lparr>mb_ref := mb_ref b - 1\<rparr>) st)
          else
            (let st1 = (put_buf mb (b\<lparr>mb_ref := 0\<rparr>) st)\<lparr>msglist := remove1 mb (msglist st)\<rparr> in
             run_bind (case mb_real b of None \<Rightarrow> returning st1
                       | Some r \<Rightarrow> if r \<noteq> mb then msgq_clean r st1 else returning st1)
               (free_mb mb)))"

section \<open>Queues\<close>

definition msgq_init :: MsgQ where
  "msgq_init = \<lparr>mq_length = 0, mq_count = 0, mq_queue = [], mq_prio = []\<rparr>"

definition qlist :: "bool \<Rightarrow> MsgQ \<Rightarrow> Msg list" where
  "qlist prio mq = (if prio then mq_prio mq else mq_queue mq)"

definition set_qlist :: "bool \<Rightarrow> Msg list \<Rightarrow> MsgQ \<Rightarrow> MsgQ" where
  "set_qlist prio ms mq = (if prio then mq\<lparr>mq_prio := ms\<rparr> else mq\<lparr>mq_queue := ms\<rparr>)"

definition msgq_delmsg :: "bool \<Rightarrow> MsgQ \<Rightarrow> nat \<Rightarrow> 'z MQData_scheme \<Rightarrow> (MsgQ \<times> nat \<times> 'z MQData_scheme) run" where
  "msgq_delmsg prio mq len st =
     (case qlist prio mq of [] \<Rightarrow> Some (Inl Aborted)
      | m # ms \<Rightarrow>
          (case mbufs st (msg_buf m) of None \<Rightarrow> Some (Inl NullDeref)
           | Some b \<Rightarrow>
               (let msglen = length (mb_msg b) - msg_sent m in
                if msglen \<le> len then
                  run_bind (msgq_clean (msg_buf m) st) (\<lambda>st1.
                    returning (set_qlist prio ms (mq\<lparr>mq_length := mq_length mq - of_nat msglen, mq_count := mq_count mq - 1\<rparr>),
                               len - msglen, st1\<lparr>msgs_used := msgs_used st1 - 1, msgs_free := Suc (msgs_free st1)\<rparr>))
                else
                  returning (set_qlist prio (m\<lparr>msg_sent := msg_sent m + len\<rparr> # ms) (mq\<lparr>mq_length := mq_length mq - of_nat len\<rparr>), 0, st))))"

partial_function (option) msgq_delete :: "MsgQ \<Rightarrow> nat \<Rightarrow> 'z MQData_scheme \<Rightarrow> (MsgQ \<times> 'z MQData_scheme) run" where
  "msgq_delete mq len st =
     (if len = 0 then returning (mq, st)
      else if mq_queue mq \<noteq> [] \<and> 0 < msg_sent (hd (mq_queue mq)) then
        run_bind (msgq_delmsg False mq len st) (\<lambda>(mq1, len1, st1). msgq_delete mq1 len1 st1)
      else if mq_prio mq \<noteq> [] then
        run_bind (msgq_delmsg True mq len st) (\<lambda>(mq1, len1, st1). msgq_delete mq1 len1 st1)
      else if mq_queue mq \<noteq> [] then
        run_bind (msgq_delmsg False mq len st) (\<lambda>(mq1, len1, st1). msgq_delete mq1 len1 st1)
      else returning (mq, st))"

definition MsgQClear :: "MsgQ \<Rightarrow> 'z MQData_scheme \<Rightarrow> (MsgQ \<times> 'z MQData_scheme) run" where
  "MsgQClear mq st = msgq_delete mq (unat (mq_length mq)) st"

text \<open>
  \<open>msgq_mapiov\<close> fills entries with the bytes they point to; the number of entries left is 0 when it
  returns early.
\<close>

type_synonym iovec = "string list \<times> nat \<times> u32"

definition fill_iov :: "'z MQData_scheme \<Rightarrow> nat \<Rightarrow> Msg \<Rightarrow> iovec \<Rightarrow> iovec res" where
  "fill_iov st off m v =
     (case mbufs st (msg_buf m) of None \<Rightarrow> Inl NullDeref
      | Some b \<Rightarrow>
          (let (iov, room, len) = v; bytes = drop off (mb_msg b)
           in Inr (iov @ [bytes], room - 1, len + of_nat (length bytes))))"

fun fill_loop :: "'z MQData_scheme \<Rightarrow> Msg list \<Rightarrow> iovec \<Rightarrow> iovec res" where
  "fill_loop st [] v = Inr v"
| "fill_loop st (m # ms) v =
     res_bind (fill_iov st 0 m v) (\<lambda>v'. if fst (snd v') = 0 then Inr v' else fill_loop st ms v')"

text \<open>A partly sent message at the head of a list, and where the list is continued later.\<close>

definition fill_partial :: "'z MQData_scheme \<Rightarrow> Msg list \<Rightarrow> iovec \<Rightarrow> (iovec \<times> Msg list) res" where
  "fill_partial st ms v =
     (case ms of [] \<Rightarrow> Inr (v, [])
      | m # ms' \<Rightarrow>
          if 0 < msg_sent m then res_bind (fill_iov st (msg_sent m) m v) (\<lambda>v'. Inr (v', ms')) else Inr (v, ms))"

definition msgq_mapiov :: "MsgQ \<Rightarrow> nat \<Rightarrow> u32 \<Rightarrow> 'z MQData_scheme \<Rightarrow> (string list \<times> u32) res" where
  "msgq_mapiov mq room len st =
     (if room = 0 then Inl Aborted
      else if mq_length mq = 0 then Inr ([], len)
      else
        res_bind (fill_partial st (mq_queue mq) ([], room, len)) (\<lambda>(v, queue).
        if fst (snd v) = 0 then Inr (fst v, snd (snd v))
        else res_bind (fill_partial st (mq_prio mq) v) (\<lambda>(v, prio).
        if fst (snd v) = 0 then Inr (fst v, snd (snd v))
        else res_bind (fill_loop st prio v) (\<lambda>v.
        if fst (snd v) = 0 then Inr (fst v, snd (snd v))
        else res_bind (fill_loop st queue v) (\<lambda>v. Inr (fst v, snd (snd v)))))))"

text \<open>The real buffer of a message is chosen when it is first queued.\<close>

definition choose_real :: "nat \<Rightarrow> nat \<Rightarrow> MsgBuf \<Rightarrow> 'z MQData_scheme \<Rightarrow> 'z MQData_scheme res" where
  "choose_real bufferpool mb b st =
     (let st1 = st\<lparr>sizes_msgs := sizes_msgs st + 1,
                  sizes := (sizes st)(length (mb_msg b) - 1 := sizes st (length (mb_msg b) - 1) + 1)\<rparr>
      in if BUFSIZE \<le> length (mb_msg b) - 1 then Inl OutOfBounds
         else res_bind (msgq_alloc bufferpool (Some mb) (length (mb_msg b)) st1) (\<lambda>(st2, found).
           case found of None \<Rightarrow> Inl NullDeref
           | Some tmp \<Rightarrow>
               if tmp = mb then Inr st2
               else
                 (case mbufs st2 tmp of None \<Rightarrow> Inl NullDeref
                  | Some t \<Rightarrow>
                      if bufsize t < length (mb_msg b) then Inl OutOfBounds
                      else if mb \<notin> set (msglist st2) then Inl NullDeref
                      else Inr ((put_buf tmp (t\<lparr>mb_msg := mb_msg b\<rparr>) st2)
                             \<lparr>msglist := map (\<lambda>a. if a = mb then tmp else a) (msglist st2)\<rparr>))))"

definition msgq_add :: "nat \<Rightarrow> MsgQ \<Rightarrow> nat \<Rightarrow> bool \<Rightarrow> 'z MQData_scheme \<Rightarrow> (MsgQ \<times> 'z MQData_scheme) res" where
  "msgq_add bufferpool mq mb prio st =
     (case mbufs st mb of None \<Rightarrow> Inl NullDeref
      | Some b \<Rightarrow>
          if mb_ref b = 0 \<or> mb_msg b = [] then Inl Aborted
          else
            (let st1 = (if msgs_free st = 0 then st\<lparr>msgs_alloc := msgs_alloc st + 1\<rparr> else st\<lparr>msgs_free := msgs_free st - 1\<rparr>);
                 st2 = st1\<lparr>msgs_used := msgs_used st1 + 1\<rparr>
             in res_bind (if mb_real b = None then choose_real bufferpool mb b st2 else Inr st2) (\<lambda>st3.
                case Option.bind (mbufs st3 mb) mb_real of None \<Rightarrow> Inl NullDeref
                | Some r \<Rightarrow>
                    (case mbufs st3 r of None \<Rightarrow> Inl NullDeref
                     | Some rb \<Rightarrow>
                         Inr ((set_qlist prio (qlist prio mq @ [\<lparr>msg_sent = 0, msg_buf = r\<rparr>]) mq)
                                \<lparr>mq_length := mq_length mq + of_nat (length (mb_msg rb)), mq_count := mq_count mq + 1\<rparr>,
                              put_buf r (rb\<lparr>mb_ref := Suc (mb_ref rb)\<rparr>) st3)))))"

end
