(* ===== verification/Msgq_Inv.thy ===== *)
theory Msgq_Inv
  imports Msgq
begin

text \<open>
  Message buffers are released exactly when nobody refers to them any more: the invariant behind the
  reference counts of \<open>ircd/msgq.c\<close>, kept by every operation.
\<close>

type_synonym mb_heap = "nat \<rightharpoonup> MsgBuf"

definition refcount :: "mb_heap \<Rightarrow> nat \<Rightarrow> nat" where
  "refcount h a = (case h a of None \<Rightarrow> 0 | Some b \<Rightarrow> mb_ref b)"

text \<open>The other buffer that a buffer in use keeps alive as its real one.\<close>

definition owner :: "mb_heap \<Rightarrow> nat \<Rightarrow> nat option" where
  "owner h a = (case h a of None \<Rightarrow> None | Some b \<Rightarrow> if 0 < mb_ref b \<and> mb_real b \<noteq> Some a then mb_real b else None)"

lemma refcount_upd [simp]: "refcount (h(a \<mapsto> b)) = (refcount h)(a := mb_ref b)"
  by (auto simp: refcount_def fun_eq_iff)

lemma owner_upd:
  "owner (h(a \<mapsto> b)) = (owner h)(a := if 0 < mb_ref b \<and> mb_real b \<noteq> Some a then mb_real b else None)"
  by (auto simp: owner_def fun_eq_iff)

lemma owner_upd_same [simp]:
  "h a = Some b \<Longrightarrow> mb_real b' = mb_real b \<Longrightarrow> 0 < mb_ref b \<longleftrightarrow> 0 < mb_ref b' \<Longrightarrow> owner (h(a \<mapsto> b')) = owner h"
  by (auto simp: owner_def fun_eq_iff)

lemma refcount_pos: "0 < refcount h a \<longleftrightarrow> (\<exists>b. h a = Some b \<and> 0 < mb_ref b)"
  by (auto simp: refcount_def split: option.splits)

lemma owner_pos: "owner h a = Some r \<Longrightarrow> 0 < refcount h a \<and> r \<noteq> a"
  by (auto simp: owner_def refcount_def split: option.splits if_splits)

text \<open>
  \<open>H\<close> are the references held by the functions that make messages, \<open>Q\<close> those in queues.
\<close>

definition mb_text :: "mb_heap \<Rightarrow> nat \<Rightarrow> string" where
  "mb_text h a = (case h a of None \<Rightarrow> [] | Some b \<Rightarrow> mb_msg b)"

definition is_real :: "mb_heap \<Rightarrow> nat \<Rightarrow> bool" where
  "is_real h a \<longleftrightarrow> (\<exists>b. h a = Some b \<and> mb_real b = None)"

definition heap_inv :: "mb_heap \<Rightarrow> nat multiset \<Rightarrow> nat multiset \<Rightarrow> bool" where
  "heap_inv h H Q \<longleftrightarrow>
     (\<forall>a. refcount h a = count H a + count Q a + (if a \<in> ran (owner h) then 1 else 0))
     \<and> (\<forall>a b r. owner h a = Some r \<longrightarrow> owner h b = Some r \<longrightarrow> a = b)
     \<and> (\<forall>a r. owner h a = Some r \<longrightarrow> is_real h r \<and> mb_text h r = mb_text h a)
     \<and> (\<forall>a \<in># H. a \<notin> ran (owner h) \<and> (is_real h a \<longrightarrow> a \<notin># Q))
     \<and> (\<forall>a b. h a = Some b \<longrightarrow> 0 < mb_ref b \<longrightarrow> 2 \<le> length (mb_msg b) \<and> length (mb_msg b) \<le> bufsize b)"

lemma heap_invD:
  assumes "heap_inv h H Q"
  shows "refcount h a = count H a + count Q a + (if a \<in> ran (owner h) then 1 else 0)"
    "owner h a = Some r \<Longrightarrow> owner h b = Some r \<Longrightarrow> a = b"
    "owner h a = Some r \<Longrightarrow> is_real h r" "owner h a = Some r \<Longrightarrow> mb_text h r = mb_text h a"
    "a \<in># H \<Longrightarrow> a \<notin> ran (owner h)" "a \<in># H \<Longrightarrow> is_real h a \<Longrightarrow> a \<notin># Q"
    "h a = Some c \<Longrightarrow> 0 < mb_ref c \<Longrightarrow> 2 \<le> length (mb_msg c) \<and> length (mb_msg c) \<le> bufsize c"
  using assms unfolding heap_inv_def by blast+

lemma heap_invI:
  assumes "\<And>a. refcount h a = count H a + count Q a + (if a \<in> ran (owner h) then 1 else 0)"
    "\<And>a b r. owner h a = Some r \<Longrightarrow> owner h b = Some r \<Longrightarrow> a = b"
    "\<And>a r. owner h a = Some r \<Longrightarrow> is_real h r \<and> mb_text h r = mb_text h a"
    "\<And>a. a \<in># H \<Longrightarrow> a \<notin> ran (owner h)" "\<And>a. a \<in># H \<Longrightarrow> is_real h a \<Longrightarrow> a \<notin># Q"
    "\<And>a b. h a = Some b \<Longrightarrow> 0 < mb_ref b \<Longrightarrow> 2 \<le> length (mb_msg b) \<and> length (mb_msg b) \<le> bufsize b"
  shows "heap_inv h H Q"
  using assms unfolding heap_inv_def by blast

lemma is_real_not_owner: "is_real h a \<Longrightarrow> owner h a = None"
  by (auto simp: is_real_def owner_def)

text \<open>A referenced buffer exists.\<close>

lemma referenced:
  assumes "heap_inv h H Q" "a \<in># H + Q"
  obtains b where "h a = Some b" "0 < mb_ref b"
proof -
  have "0 < refcount h a" using heap_invD(1) [OF assms(1), of a] assms(2) by (auto simp: count_greater_zero_iff [symmetric] simp del: count_greater_zero_iff)
  then show ?thesis using that by (auto simp: refcount_pos)
qed

section \<open>Steps on the heap\<close>

lemma mb_text_upd [simp]: "mb_text (h(a \<mapsto> b)) = (mb_text h)(a := mb_msg b)"
  by (auto simp: mb_text_def fun_eq_iff)

lemma is_real_upd [simp]: "is_real (h(a \<mapsto> b)) = (is_real h)(a := mb_real b = None)"
  by (auto simp: is_real_def fun_eq_iff)

lemma heap_at: "h a = Some b \<Longrightarrow> refcount h a = mb_ref b \<and> mb_text h a = mb_msg b \<and> (is_real h a \<longleftrightarrow> mb_real b = None)"
  by (simp add: refcount_def mb_text_def is_real_def)

text \<open>One reference less, and others left.\<close>

lemma heap_dec:
  assumes i: "heap_inv h H Q" and a: "h a = Some b" "mb_ref b = Suc n" "0 < n" and R: "H + Q = add_mset a (H' + Q')" "H' \<subseteq># H" "Q' \<subseteq># Q"
  shows "heap_inv (h(a \<mapsto> b\<lparr>mb_ref := n\<rparr>)) H' Q'"
proof -
  have o: "owner (h(a \<mapsto> b\<lparr>mb_ref := n\<rparr>)) = owner h" using a by simp
  have sub: "x \<in># H' \<Longrightarrow> x \<in># H" "x \<in># Q' \<Longrightarrow> x \<in># Q" for x using R(2,3) by (auto dest: mset_subset_eqD)
  have c: "count H x + count Q x = count H' x + count Q' x + (if x = a then 1 else 0)" for x
    using arg_cong [OF R(1), of "\<lambda>m. count m x"] by auto
  have m: "mb_text (h(a \<mapsto> b\<lparr>mb_ref := n\<rparr>)) = mb_text h" "is_real (h(a \<mapsto> b\<lparr>mb_ref := n\<rparr>)) = is_real h"
    using heap_at [of h a b, OF a(1)] by (auto simp: fun_eq_iff)
  have "refcount (h(a \<mapsto> b\<lparr>mb_ref := n\<rparr>)) x = count H' x + count Q' x + (if x \<in> ran (owner h) then 1 else 0)" for x
    using heap_invD(1) [OF i, of x] c [of x] heap_at [of h a b, OF a(1)] a(2) by (auto split: if_splits)
  then show ?thesis
  proof (intro heap_invI, unfold o m)
    show "x \<notin> ran (owner h)" if "x \<in># H'" for x using heap_invD(5) [OF i] sub(1) that by blast
    show "x \<notin># Q'" if "x \<in># H'" "is_real h x" for x using heap_invD(6) [OF i] sub that by blast
    show "2 \<le> length (mb_msg c) \<and> length (mb_msg c) \<le> bufsize c" if "(h(a \<mapsto> b\<lparr>mb_ref := n\<rparr>)) x = Some c" "0 < mb_ref c" for x c
      using that heap_invD(7) [OF i, of x] heap_invD(7) [OF i a(1)] a(2) by (auto simp: bufsize_def split: if_splits)
  qed (use heap_invD(2-4) [OF i] in blast)+
qed

text \<open>The last reference goes: the real buffer is handed over to be released in turn.\<close>

definition handed_over :: "mb_heap \<Rightarrow> nat \<Rightarrow> nat multiset" where
  "handed_over h a = (case owner h a of None \<Rightarrow> {#} | Some r \<Rightarrow> {#r#})"

lemma heap_drop:
  assumes i: "heap_inv h H Q" and a: "h a = Some b" "mb_ref b = 1" and R: "H + Q = add_mset a (H' + Q')" "H' \<subseteq># H" "Q' \<subseteq># Q"
  shows "heap_inv (h(a \<mapsto> b\<lparr>mb_ref := 0\<rparr>)) H' (Q' + handed_over h a)" "a \<notin># H' + Q'" "a \<notin> ran (owner h)"
proof -
  let ?h = "h(a \<mapsto> b\<lparr>mb_ref := 0\<rparr>)"
  have o: "owner ?h = (owner h)(a := None)" by (simp add: owner_upd)
  have sub: "x \<in># H' \<Longrightarrow> x \<in># H" "x \<in># Q' \<Longrightarrow> x \<in># Q" for x using R(2,3) by (auto dest: mset_subset_eqD)
  have c: "count H x + count Q x = count H' x + count Q' x + (if x = a then 1 else 0)" for x
    using arg_cong [OF R(1), of "\<lambda>m. count m x"] by auto
  have m: "mb_text ?h = mb_text h" "is_real ?h = is_real h"
    using heap_at [of h a b, OF a(1)] by (auto simp: fun_eq_iff)
  have ra: "refcount h a = 1" using heap_at [of h a b, OF a(1)] a(2) by simp
  show na: "a \<notin># H' + Q'" and nr: "a \<notin> ran (owner h)"
    using heap_invD(1) [OF i, of a] c [of a] ra by (auto simp: count_eq_zero_iff split: if_splits)
  have ho: "x \<in># handed_over h a \<longleftrightarrow> owner h a = Some x" for x
    by (auto simp: handed_over_def split: option.splits)
  have hand: "x \<in> ran (owner h) \<longleftrightarrow> x \<in> ran ((owner h)(a := None)) \<or> x \<in># handed_over h a" for x
    unfolding ho by (auto simp: ran_def)
  have once: "x \<notin> ran ((owner h)(a := None))" if "x \<in># handed_over h a" for x
  proof
    assume "x \<in> ran ((owner h)(a := None))"
    then obtain y where "y \<noteq> a" "owner h y = Some x" by (auto simp: ran_def split: if_splits)
    then show False using that heap_invD(2) [OF i, of a x y] by (simp add: ho)
  qed
  have one: "count (handed_over h a) x = (if x \<in># handed_over h a then 1 else 0)" for x
    by (auto simp: handed_over_def split: option.splits)
  show "heap_inv ?h H' (Q' + handed_over h a)"
  proof (intro heap_invI, unfold o m)
    fix x
    have "a \<notin> ran ((owner h)(a := None))" "a \<notin># handed_over h a"
      using nr hand by blast+
    moreover have "(if x \<in> ran (owner h) then 1 else 0 :: nat)
        = count (handed_over h a) x + (if x \<in> ran ((owner h)(a := None)) then 1 else 0)"
      unfolding one using once [of x] hand [of x] by auto
    ultimately show "refcount ?h x = count H' x + count (Q' + handed_over h a) x + (if x \<in> ran ((owner h)(a := None)) then 1 else 0)"
      using heap_invD(1) [OF i, of x] c [of x] na by (cases "x = a") (simp_all add: not_in_iff)
    show "x \<notin> ran ((owner h)(a := None))" if "x \<in># H'" using heap_invD(5) [OF i, of x] sub(1) that hand by blast
    show "x \<notin># Q' + handed_over h a" if "x \<in># H'" "is_real h x"
      using heap_invD(5,6) [OF i, of x] sub that hand by auto
    show "2 \<le> length (mb_msg d) \<and> length (mb_msg d) \<le> bufsize d" if "?h x = Some d" "0 < mb_ref d" for d
      using that heap_invD(7) [OF i, of x] by (auto split: if_splits)
  qed (use heap_invD(2-4) [OF i] in \<open>auto split: if_splits\<close>)
qed

lemma unused_unowned:
  assumes "heap_inv h H Q" "refcount h a = 0"
  shows "a \<notin> ran (owner h)" "owner h a = None" "a \<notin># H" "a \<notin># Q"
  using heap_invD(1) [OF assms(1), of a] assms(2) owner_pos [of h a]
  by (cases "owner h a"; auto simp: count_eq_zero_iff split: if_splits)+

lemma heap_make:
  assumes i: "heap_inv h H Q" and z: "refcount h a = 0" and b: "b = \<lparr>mb_real = None, mb_ref = 1, mb_power = pw, mb_msg = text\<rparr>"
    and l: "2 \<le> length text" "length text \<le> 2 ^ pw"
  shows "heap_inv (h(a \<mapsto> b)) (add_mset a H) Q"
proof -
  note u = unused_unowned [OF i z]
  have o: "owner (h(a \<mapsto> b)) = owner h" using u(2) by (auto simp: owner_upd b fun_eq_iff)
  show ?thesis
  proof (intro heap_invI, unfold o)
    fix x
    show "refcount (h(a \<mapsto> b)) x = count (add_mset a H) x + count Q x + (if x \<in> ran (owner h) then 1 else 0)"
      using heap_invD(1) [OF i, of x] z u by (auto simp: b count_eq_zero_iff)
    show "x \<notin> ran (owner h)" if "x \<in># add_mset a H" using that u heap_invD(5) [OF i, of x] by auto
    show "x \<notin># Q" if "x \<in># add_mset a H" "is_real (h(a \<mapsto> b)) x" using that u heap_invD(6) [OF i, of x] by (auto split: if_splits)
    show "is_real (h(a \<mapsto> b)) r \<and> mb_text (h(a \<mapsto> b)) r = mb_text (h(a \<mapsto> b)) x" if "owner h x = Some r" for r
      using heap_invD(3,4) [OF i that] that u by (auto simp: ran_def)
    show "2 \<le> length (mb_msg d) \<and> length (mb_msg d) \<le> bufsize d" if "(h(a \<mapsto> b)) x = Some d" "0 < mb_ref d" for d
      using that heap_invD(7) [OF i, of x] l by (auto simp: b bufsize_def split: if_splits)
  qed (use heap_invD(2) [OF i] in blast)
qed

text \<open>A handle changes its text, or becomes its own real buffer.\<close>

lemma heap_handle:
  assumes i: "heap_inv h H Q" and a: "a \<in># H" "h a = Some b" "mb_real b = None" and b': "mb_ref b' = mb_ref b" "mb_real b' \<in> {None, Some a}"
    and l: "2 \<le> length (mb_msg b')" "length (mb_msg b') \<le> bufsize b'"
  shows "heap_inv (h(a \<mapsto> b')) H Q"
proof -
  have ow: "owner h a = None" "a \<notin> ran (owner h)" using a heap_invD(5) [OF i a(1)] by (auto simp: owner_def)
  have o: "owner (h(a \<mapsto> b')) = owner h" using ow b'(2) by (auto simp: owner_upd fun_eq_iff)
  have re: "refcount (h(a \<mapsto> b')) = refcount h" using heap_at [of h a b, OF a(2)] b'(1) by (auto simp: fun_eq_iff)
  show ?thesis
  proof (intro heap_invI, unfold o re)
    fix x
    show "x \<notin># Q" if "x \<in># H" "is_real (h(a \<mapsto> b')) x"
      using that a heap_invD(6) [OF i, of x] heap_at [of h a b, OF a(2)] by (auto split: if_splits)
    show "is_real (h(a \<mapsto> b')) r \<and> mb_text (h(a \<mapsto> b')) r = mb_text (h(a \<mapsto> b')) x" if "owner h x = Some r" for r
      using heap_invD(3,4) [OF i that] that ow by (auto simp: ran_def)
    show "2 \<le> length (mb_msg d) \<and> length (mb_msg d) \<le> bufsize d" if "(h(a \<mapsto> b')) x = Some d" "0 < mb_ref d" for d
      using that heap_invD(7) [OF i, of x] l by (auto split: if_splits)
  qed (use heap_invD(1,2,5) [OF i] in blast)+
qed

lemma heap_copy:
  assumes i: "heap_inv h H Q" and a: "a \<in># H" "h a = Some b" "mb_real b = None" and z: "refcount h t = 0"
    and t: "c = \<lparr>mb_real = None, mb_ref = 1, mb_power = pw, mb_msg = mb_msg b\<rparr>" and l: "length (mb_msg b) \<le> 2 ^ pw"
  shows "heap_inv (h(a \<mapsto> b\<lparr>mb_real := Some t\<rparr>, t \<mapsto> c)) H Q"
proof -
  let ?h = "h(a \<mapsto> b\<lparr>mb_real := Some t\<rparr>, t \<mapsto> c)"
  note u = unused_unowned [OF i z]
  have rb: "0 < mb_ref b" using referenced [OF i, of a] a by (metis option.inject union_iff)
  have ta: "t \<noteq> a" using z heap_at [of h a b, OF a(2)] rb by auto
  have ow: "owner h a = None" "a \<notin> ran (owner h)" using a heap_invD(5) [OF i a(1)] by (auto simp: owner_def)
  have o: "owner ?h = (owner h)(a \<mapsto> t)" using u(2) ta rb by (auto simp: owner_upd t fun_eq_iff)
  have rn: "ran ((owner h)(a \<mapsto> t)) = insert t (ran (owner h))" using ow(1) by (simp add: ran_map_upd)
  show ?thesis
  proof (intro heap_invI, unfold o rn)
    fix x
    show "refcount ?h x = count H x + count Q x + (if x \<in> insert t (ran (owner h)) then 1 else 0)"
      using heap_invD(1) [OF i, of x] z u ta heap_at [of h a b, OF a(2)] by (auto simp: t count_eq_zero_iff)
    show "x \<notin> insert t (ran (owner h))" if "x \<in># H" using that u heap_invD(5) [OF i, of x] by auto
    show "x \<notin># Q" if "x \<in># H" "is_real ?h x" using that u heap_invD(6) [OF i, of x] ta by (auto split: if_splits)
    show "is_real ?h r \<and> mb_text ?h r = mb_text ?h x" if "((owner h)(a \<mapsto> t)) x = Some r" for r
      using heap_invD(3,4) [OF i, of x r] that u ow ta by (auto simp: ran_def t split: if_splits)
    show "2 \<le> length (mb_msg d) \<and> length (mb_msg d) \<le> bufsize d" if "?h x = Some d" "0 < mb_ref d" for d
      using that heap_invD(7) [OF i, of x] heap_invD(7) [OF i a(2) rb] l by (auto simp: t bufsize_def split: if_splits)
    show "x = y" if "((owner h)(a \<mapsto> t)) x = Some r" "((owner h)(a \<mapsto> t)) y = Some r" for y r
      using that heap_invD(2) [OF i, of x r y] u(1) by (auto simp: ran_def split: if_splits)
  qed
qed

lemma heap_inc:
  assumes i: "heap_inv h H Q" and r: "h r = Some b" "0 < mb_ref b" "\<not> (r \<in># H \<and> is_real h r)"
  shows "heap_inv (h(r \<mapsto> b\<lparr>mb_ref := Suc (mb_ref b)\<rparr>)) H (add_mset r Q)"
proof -
  let ?h = "h(r \<mapsto> b\<lparr>mb_ref := Suc (mb_ref b)\<rparr>)"
  have o: "owner ?h = owner h" using r by simp
  have m: "mb_text ?h = mb_text h" "is_real ?h = is_real h"
    using heap_at [of h r b, OF r(1)] by (auto simp: fun_eq_iff)
  show ?thesis
  proof (intro heap_invI, unfold o m)
    fix x
    show "refcount ?h x = count H x + count (add_mset r Q) x + (if x \<in> ran (owner h) then 1 else 0)"
      using heap_invD(1) [OF i, of x] heap_at [of h r b, OF r(1)] by auto
    show "x \<notin># add_mset r Q" if "x \<in># H" "is_real h x" using that r(3) heap_invD(6) [OF i, of x] by auto
    show "2 \<le> length (mb_msg d) \<and> length (mb_msg d) \<le> bufsize d" if "?h x = Some d" "0 < mb_ref d" for d
      using that heap_invD(7) [OF i, of x] heap_invD(7) [OF i r(1,2)] by (auto simp: bufsize_def split: if_splits)
  qed (use heap_invD(2-5) [OF i] in blast)+
qed

text \<open>A buffer nobody refers to is freed, or a new one appears.\<close>

lemma heap_unused:
  assumes i: "heap_inv h H Q" and z: "refcount h a = 0" "refcount h' a = 0" and eq: "\<And>x. x \<noteq> a \<Longrightarrow> h' x = h x"
  shows "heap_inv h' H Q"
proof -
  note u = unused_unowned [OF i z(1)]
  have "owner h' a = None" using z(2) owner_pos [of h' a] by (cases "owner h' a") auto
  then have o: "owner h' = owner h" using u(2) eq by (auto simp: fun_eq_iff owner_def) (metis (no_types) owner_def u(2))+
  have re: "refcount h' = refcount h" using z eq by (auto simp: fun_eq_iff refcount_def) (metis (no_types) refcount_def)+
  show ?thesis
  proof (intro heap_invI, unfold o re)
    fix x
    show "is_real h' r \<and> mb_text h' r = mb_text h' x" if "owner h x = Some r" for r
    proof -
      have "x \<noteq> a" "r \<noteq> a" using that u(1,2) by (auto simp: ran_def)
      then show ?thesis using heap_invD(3,4) [OF i that] eq [of x] eq [of r] by (simp add: is_real_def mb_text_def)
    qed
    show "x \<notin># Q" if "x \<in># H" "is_real h' x" using that u(3,4) eq [of x] heap_invD(6) [OF i, of x] by (cases "x = a") (simp_all add: is_real_def)
    show "2 \<le> length (mb_msg d) \<and> length (mb_msg d) \<le> bufsize d" if "h' x = Some d" "0 < mb_ref d" for d
      using that heap_invD(7) [OF i, of x] eq [of x] z(2) by (cases "x = a") (auto simp: refcount_def)
  qed (use heap_invD(1,2,5) [OF i] in blast)+
qed

section \<open>Lists and counters\<close>

text \<open>
  Every buffer in use whose text is still its own is on \<open>msglist\<close>; every other buffer is on the free
  list of its size, but for those in \<open>L\<close>, which an operation has in its hands. Those in \<open>C\<close> are
  neither free nor counted as used.
\<close>

definition sized :: "mb_heap \<Rightarrow> nat \<Rightarrow> nat set" where
  "sized h p = {a. \<exists>b. h a = Some b \<and> mb_power b = p}"

definition listed :: "mb_heap \<Rightarrow> nat set" where
  "listed h = {a. 0 < refcount h a \<and> owner h a = None}"

definition free_inv :: "mb_heap \<Rightarrow> (nat \<Rightarrow> nat list) \<Rightarrow> nat set \<Rightarrow> bool" where
  "free_inv h free L \<longleftrightarrow>
     (\<forall>p. distinct (free p) \<and> set (free p) = {a \<in> sized h p. refcount h a = 0} - L)
     \<and> (\<forall>a \<in> L. a \<in> dom h \<and> refcount h a = 0)
     \<and> (\<forall>a b. h a = Some b \<longrightarrow> MB_BASE_SHIFT \<le> mb_power b \<and> mb_power b \<le> MB_MAX_SHIFT)"

definition count_inv :: "'z MQData_scheme \<Rightarrow> nat set \<Rightarrow> bool" where
  "count_inv st L \<longleftrightarrow>
     finite (dom (mbufs st)) \<and> (\<forall>a \<in> dom (mbufs st). a < next_buf st)
     \<and> (\<forall>p. bufs_alloc st p = int (card (sized (mbufs st) p)))
     \<and> (\<forall>p. bufs_alloc st p = bufs_used st p + int (length (bufs_free st p)) + int (card (L \<inter> sized (mbufs st) p)))
     \<and> tot_bufsize st = (\<Sum>p \<in> {MB_BASE_SHIFT..MB_MAX_SHIFT}. bufs_alloc st p * 2 ^ p)"

lemma count_invD:
  assumes "count_inv st L"
  shows "finite (dom (mbufs st))" "a \<in> dom (mbufs st) \<Longrightarrow> a < next_buf st" "bufs_alloc st p = int (card (sized (mbufs st) p))"
    "bufs_alloc st p = bufs_used st p + int (length (bufs_free st p)) + int (card (L \<inter> sized (mbufs st) p))"
    "tot_bufsize st = (\<Sum>p \<in> {MB_BASE_SHIFT..MB_MAX_SHIFT}. bufs_alloc st p * 2 ^ p)"
  using assms unfolding count_inv_def by blast+

lemma count_invI:
  assumes "finite (dom (mbufs st))" "\<And>a. a \<in> dom (mbufs st) \<Longrightarrow> a < next_buf st" "\<And>p. bufs_alloc st p = int (card (sized (mbufs st) p))"
    "\<And>p. bufs_alloc st p = bufs_used st p + int (length (bufs_free st p)) + int (card (L \<inter> sized (mbufs st) p))"
    "tot_bufsize st = (\<Sum>p \<in> {MB_BASE_SHIFT..MB_MAX_SHIFT}. bufs_alloc st p * 2 ^ p)"
  shows "count_inv st L"
  using assms unfolding count_inv_def by blast

definition mq_inv :: "'z MQData_scheme \<Rightarrow> nat multiset \<Rightarrow> nat multiset \<Rightarrow> nat set \<Rightarrow> nat set \<Rightarrow> bool" where
  "mq_inv st H Q L C \<longleftrightarrow>
     heap_inv (mbufs st) H Q \<and> free_inv (mbufs st) (bufs_free st) L \<and> count_inv st C
     \<and> distinct (msglist st) \<and> set (msglist st) = listed (mbufs st)"

lemma sized_upd [simp]: "h a = Some b \<Longrightarrow> mb_power b' = mb_power b \<Longrightarrow> sized (h(a \<mapsto> b')) = sized h"
  by (auto simp: sized_def fun_eq_iff)

text \<open>Updates that keep sizes, and use or not, of all buffers keep the free lists and counters.\<close>

lemma free_inv_upd:
  assumes "free_inv h free L" "h a = Some b" "mb_power b' = mb_power b" "mb_ref b' = 0 \<longleftrightarrow> mb_ref b = 0"
  shows "free_inv (h(a \<mapsto> b')) free L"
proof -
  have "refcount (h(a \<mapsto> b')) x = 0 \<longleftrightarrow> refcount h x = 0" for x
    using assms heap_at [of h a b] by auto
  then show ?thesis using assms unfolding free_inv_def by (auto split: if_splits)
qed

lemma count_inv_put [simp]:
  assumes "mbufs st a = Some b" "mb_power b' = mb_power b"
  shows "count_inv (put_buf a b' st) L = count_inv st L"
  using assms by (auto simp: count_inv_def put_buf_def insert_absorb)

lemma count_inv_msglist [simp]: "count_inv (st\<lparr>msglist := l\<rparr>) L = count_inv st L"
  by (simp add: count_inv_def)

lemma put_buf_sel [simp]:
  "mbufs (put_buf a b st) = (mbufs st)(a \<mapsto> b)" "bufs_free (put_buf a b st) = bufs_free st" "msglist (put_buf a b st) = msglist st"
  "bufs_used (put_buf a b st) = bufs_used st" "bufs_alloc (put_buf a b st) = bufs_alloc st"
  "tot_bufsize (put_buf a b st) = tot_bufsize st" "next_buf (put_buf a b st) = next_buf st"
  by (simp_all add: put_buf_def)

text \<open>A buffer goes out of use: it is in hand until it is on its free list.\<close>

lemma free_inv_drop:
  assumes "free_inv h free L" "h a = Some b" "0 < mb_ref b"
  shows "free_inv (h(a \<mapsto> b\<lparr>mb_ref := 0\<rparr>)) free (insert a L)"
proof -
  have "a \<notin> L" using assms heap_at [of h a b] by (auto simp: free_inv_def)
  then show ?thesis using assms heap_at [of h a b] unfolding free_inv_def by (auto split: if_splits)
qed

lemma count_inv_hand:
  assumes "count_inv st L" "mbufs st a = Some b"
  shows "count_inv (st\<lparr>bufs_free := (bufs_free st)(mb_power b := a # bufs_free st (mb_power b)),
                      bufs_used := (bufs_used st)(mb_power b := bufs_used st (mb_power b) - 1)\<rparr>) L"
  using assms by (auto simp: count_inv_def)

text \<open>What releasing a reference leaves alone.\<close>

definition frame :: "'z MQData_scheme \<Rightarrow> 'z MQData_scheme \<Rightarrow> bool" where
  "frame st st' \<longleftrightarrow> MQData.more st' = MQData.more st \<and> msgs_alloc st' = msgs_alloc st \<and> msgs_used st' = msgs_used st \<and> msgs_free st' = msgs_free st"

definition dying :: "mb_heap \<Rightarrow> mb_heap \<Rightarrow> bool" where
  "dying h h' \<longleftrightarrow> (\<forall>x. 0 < refcount h' x \<longrightarrow> 0 < refcount h x \<and> mb_text h' x = mb_text h x \<and> is_real h' x = is_real h x \<and> owner h' x = owner h x)"

lemma frame_refl [simp]: "frame st st" by (simp add: frame_def)

lemma frame_trans [trans]: "frame s t \<Longrightarrow> frame t u \<Longrightarrow> frame s u" by (simp add: frame_def)

lemma dying_refl [simp]: "dying h h" by (simp add: dying_def)

lemma dying_trans [trans]: "dying f g \<Longrightarrow> dying g h \<Longrightarrow> dying f h" by (simp add: dying_def)

lemma free_mb_ok:
  assumes i: "mq_inv st H Q (insert a L) C" and a: "a \<notin> L"
  obtains st' where "free_mb a st = returning st'" "mq_inv st' H Q L C" "mbufs st' = mbufs st" "frame st st'"
proof -
  obtain b where b: "mbufs st a = Some b" using i by (auto simp: mq_inv_def free_inv_def)
  then have r: "refcount (mbufs st) a = 0" using i by (auto simp: mq_inv_def free_inv_def)
  have eq: "{x \<in> sized (mbufs st) (mb_power b). refcount (mbufs st) x = 0} - L
      = insert a ({x \<in> sized (mbufs st) (mb_power b). refcount (mbufs st) x = 0} - insert a L)"
    using a b r by (auto simp: sized_def)
  have ne: "{x \<in> sized (mbufs st) p. refcount (mbufs st) x = 0} - L = {x \<in> sized (mbufs st) p. refcount (mbufs st) x = 0} - insert a L"
    if "p \<noteq> mb_power b" for p using b that by (auto simp: sized_def)
  let ?st = "st\<lparr>bufs_free := (bufs_free st)(mb_power b := a # bufs_free st (mb_power b)),
                bufs_used := (bufs_used st)(mb_power b := bufs_used st (mb_power b) - 1)\<rparr>"
  have "free_inv (mbufs st) (bufs_free ?st) L"
    using i ne unfolding mq_inv_def free_inv_def by (auto simp: eq)
  moreover have "count_inv ?st C" using count_inv_hand [OF _ b] i by (simp add: mq_inv_def)
  ultimately have "mq_inv ?st H Q L C" using i by (simp add: mq_inv_def)
  then show ?thesis by (intro that [of ?st]) (simp_all add: free_mb_def b frame_def)
qed

text \<open>One reference less.\<close>

lemma clean_dec:
  assumes i: "mq_inv st H Q L C" and b: "mbufs st a = Some b" "mb_ref b = Suc n" "0 < n"
    and R: "H + Q = add_mset a (H' + Q')" "H' \<subseteq># H" "Q' \<subseteq># Q"
  obtains st' where "msgq_clean a st = returning st'" "mq_inv st' H' Q' L C" "dying (mbufs st) (mbufs st')" "frame st st'"
proof (rule that)
  let ?b = "b\<lparr>mb_ref := n\<rparr>"
  have h: "heap_inv (mbufs st) H Q" using i by (simp add: mq_inv_def)
  have o: "owner ((mbufs st)(a \<mapsto> ?b)) = owner (mbufs st)" using b by simp
  show "msgq_clean a st = returning (put_buf a ?b st)"
    using b by (simp add: msgq_clean.simps [of a st])
  have "listed ((mbufs st)(a \<mapsto> ?b)) = listed (mbufs st)"
    using b heap_at [of "mbufs st" a b] by (auto simp: listed_def o)
  then show "mq_inv (put_buf a ?b st) H' Q' L C"
    using i heap_dec [OF h b R] free_inv_upd [of "mbufs st" "bufs_free st" L a b ?b] b by (simp add: mq_inv_def)
  show "dying (mbufs st) (mbufs (put_buf a ?b st))"
    unfolding dying_def put_buf_sel o using b heap_at [of "mbufs st" a b] by auto
  show "frame st (put_buf a ?b st)" by (simp add: frame_def put_buf_def)
qed

text \<open>The last reference: the buffer is in hand and its real buffer, if it has another one, is released next.\<close>

lemma clean_drop:
  assumes i: "mq_inv st H Q L C" and b: "mbufs st a = Some b" "mb_ref b = 1"
    and R: "H + Q = add_mset a (H' + Q')" "H' \<subseteq># H" "Q' \<subseteq># Q"
    and st1: "st1 = (put_buf a (b\<lparr>mb_ref := 0\<rparr>) st)\<lparr>msglist := remove1 a (msglist st)\<rparr>"
  shows "mq_inv st1 H' (Q' + handed_over (mbufs st) a) (insert a L) C" "dying (mbufs st) (mbufs st1)" "frame st st1" "a \<notin> L"
proof -
  let ?b = "b\<lparr>mb_ref := 0\<rparr>"
  have o: "owner ((mbufs st)(a \<mapsto> ?b)) = (owner (mbufs st))(a := None)" by (simp add: owner_upd)
  have h: "heap_inv (mbufs st) H Q" using i by (simp add: mq_inv_def)
  have "listed ((mbufs st)(a \<mapsto> ?b)) = listed (mbufs st) - {a}"
    by (auto simp: listed_def o)
  then show "mq_inv st1 H' (Q' + handed_over (mbufs st) a) (insert a L) C"
    using i heap_drop(1) [OF h b R] free_inv_drop [of "mbufs st" "bufs_free st" L a b] b by (simp add: mq_inv_def st1)
  show "dying (mbufs st) (mbufs st1)"
    using b heap_at [of "mbufs st" a b] by (auto simp: dying_def st1 o)
  show "frame st st1" by (simp add: frame_def put_buf_def st1)
  show "a \<notin> L" using i b heap_at [of "mbufs st" a b] by (auto simp: mq_inv_def free_inv_def)
qed

lemma clean_leaf:
  assumes i: "mq_inv st H Q L C" and a: "owner (mbufs st) a = None"
    and R: "H + Q = add_mset a (H' + Q')" "H' \<subseteq># H" "Q' \<subseteq># Q"
  obtains st' where "msgq_clean a st = returning st'" "mq_inv st' H' Q' L C" "dying (mbufs st) (mbufs st')" "frame st st'"
proof -
  have h: "heap_inv (mbufs st) H Q" using i by (simp add: mq_inv_def)
  obtain b where b: "mbufs st a = Some b" "0 < mb_ref b"
    using referenced [OF h, of a] R(1) by auto
  show ?thesis
  proof (cases "mb_ref b = 1")
    case True
    let ?st1 = "(put_buf a (b\<lparr>mb_ref := 0\<rparr>) st)\<lparr>msglist := remove1 a (msglist st)\<rparr>"
    note d = clean_drop [OF i b(1) True R refl]
    have "handed_over (mbufs st) a = {#}" using a by (simp add: handed_over_def)
    with d(1) have "mq_inv ?st1 H' Q' (insert a L) C" by simp
    then obtain st2 where f: "free_mb a ?st1 = returning st2" "mq_inv st2 H' Q' L C" "mbufs st2 = mbufs ?st1" "frame ?st1 st2"
      using free_mb_ok d(4) by blast
    have "mb_real b = None \<or> mb_real b = Some a" using a b by (auto simp: owner_def split: if_splits)
    then have "msgq_clean a st = returning st2"
      using b(1) True f(1) by (auto simp: msgq_clean.simps [of a st])
    then show ?thesis using that f d frame_trans by metis
  next
    case False
    then obtain n where "mb_ref b = Suc n" "0 < n" using b(2) by (cases "mb_ref b") auto
    then show ?thesis using clean_dec [OF i b(1) _ _ R] that by metis
  qed
qed

text \<open>Releasing a reference ends, and gives up exactly that reference.\<close>

lemma clean_ok:
  assumes i: "mq_inv st H Q L C" and R: "H + Q = add_mset a (H' + Q')" "H' \<subseteq># H" "Q' \<subseteq># Q"
  obtains st' where "msgq_clean a st = returning st'" "mq_inv st' H' Q' L C" "dying (mbufs st) (mbufs st')" "frame st st'"
proof (cases "owner (mbufs st) a")
  case None
  then show ?thesis using clean_leaf [OF i _ R] that by metis
next
  case (Some r)
  have h: "heap_inv (mbufs st) H Q" using i by (simp add: mq_inv_def)
  obtain b where b: "mbufs st a = Some b" "0 < mb_ref b"
    using referenced [OF h, of a] R(1) by auto
  have r: "mb_real b = Some r" "r \<noteq> a" using Some b by (auto simp: owner_def split: if_splits)
  show ?thesis
  proof (cases "mb_ref b = 1")
    case True
    let ?st1 = "(put_buf a (b\<lparr>mb_ref := 0\<rparr>) st)\<lparr>msglist := remove1 a (msglist st)\<rparr>"
    note d = clean_drop [OF i b(1) True R refl]
    have "handed_over (mbufs st) a = {#r#}" using Some by (simp add: handed_over_def)
    with d(1) have i1: "mq_inv ?st1 H' (add_mset r Q') (insert a L) C" by simp
    have "owner (mbufs ?st1) r = None"
      using heap_invD(3) [OF h Some] r(2) is_real_not_owner by (simp add: owner_upd)
    then obtain st2 where s2: "msgq_clean r ?st1 = returning st2" "mq_inv st2 H' Q' (insert a L) C" "dying (mbufs ?st1) (mbufs st2)" "frame ?st1 st2"
      using clean_leaf [OF i1, of r H' Q'] by auto
    obtain st3 where f: "free_mb a st2 = returning st3" "mq_inv st3 H' Q' L C" "mbufs st3 = mbufs st2" "frame st2 st3"
      using free_mb_ok [OF s2(2) d(4)] by blast
    have "msgq_clean a st = returning st3"
      using b(1) True s2(1) f(1) r by (simp add: msgq_clean.simps [of a st])
    moreover have "dying (mbufs st) (mbufs st3)" using dying_trans [OF d(2) s2(3)] f(3) by simp
    moreover have "frame st st3" using frame_trans [OF d(3) frame_trans [OF s2(4) f(4)]] .
    ultimately show ?thesis using that f(2) by blast
  next
    case False
    then obtain n where "mb_ref b = Suc n" "0 < n" using b(2) by (cases "mb_ref b") auto
    then show ?thesis using clean_dec [OF i b(1) _ _ R] that by metis
  qed
qed

section \<open>Allocation\<close>

text \<open>The memory in buffers exceeds the pool by less than one buffer of the largest size.\<close>

definition mbpool_ok :: "nat \<Rightarrow> 'z MQData_scheme \<Rightarrow> bool" where
  "mbpool_ok bufferpool st \<longleftrightarrow> tot_bufsize st < int bufferpool + 2 ^ MB_MAX_SHIFT"

lemma sum_upd:
  fixes f :: "nat \<Rightarrow> int"
  assumes "finite A" "i \<in> A"
  shows "(\<Sum>p \<in> A. (f(i := f i + d)) p * 2 ^ p) = (\<Sum>p \<in> A. f p * 2 ^ p) + d * 2 ^ i"
proof -
  have "(\<Sum>p \<in> A. (f(i := f i + d)) p * 2 ^ p) = (\<Sum>p \<in> A. f p * 2 ^ p + (if p = i then d * 2 ^ i else 0))"
    by (intro sum.cong) (auto simp: algebra_simps)
  then show ?thesis using assms by (simp add: sum.distrib)
qed

lemma finite_sized: "finite (dom h) \<Longrightarrow> finite (sized h p)"
  by (rule finite_subset [of _ "dom h"]) (auto simp: sized_def)

lemma sized_new: "h a = None \<Longrightarrow> sized (h(a \<mapsto> b)) p = (if p = mb_power b then insert a (sized h p) else sized h p)"
  by (auto simp: sized_def)

lemma sized_gone: "h a = Some b \<Longrightarrow> sized (h(a := None)) p = (if p = mb_power b then sized h p - {a} else sized h p)"
  by (auto simp: sized_def)

lemma sized_in: "h a = Some b \<Longrightarrow> a \<in> sized h p \<longleftrightarrow> p = mb_power b"
  by (auto simp: sized_def)

lemma obtain_popped:
  assumes i: "mq_inv st H Q {} {}" and f: "bufs_free st p = a # free"
  shows "mq_inv (st\<lparr>bufs_free := (bufs_free st)(p := free)\<rparr>) H Q {a} {a}"
    "\<exists>b. mbufs st a = Some b \<and> mb_power b = p \<and> mb_ref b = 0"
proof -
  have fr: "set (bufs_free st p) = {x \<in> sized (mbufs st) p. refcount (mbufs st) x = 0}" "distinct (bufs_free st p)" for p
    using i by (simp_all add: mq_inv_def free_inv_def)
  have "a \<in> {x \<in> sized (mbufs st) p. refcount (mbufs st) x = 0}" using fr(1) [of p] unfolding f by auto
  then obtain b where b: "mbufs st a = Some b" "mb_power b = p" "mb_ref b = 0"
    by (auto simp: sized_def refcount_def)
  then show "\<exists>b. mbufs st a = Some b \<and> mb_power b = p \<and> mb_ref b = 0" by blast
  let ?free = "(bufs_free st)(p := free)"
  have "set (?free q) = {x \<in> sized (mbufs st) q. refcount (mbufs st) x = 0} - {a}" for q
    using fr [of p] fr(1) [of q] b unfolding f by (cases "q = p") (auto simp: sized_in)
  moreover have "distinct (?free q)" for q using fr(2) [of p] fr(2) [of q] f by auto
  ultimately have "free_inv (mbufs st) ?free {a}"
    using i b by (auto simp: mq_inv_def free_inv_def refcount_def)
  moreover have "count_inv (st\<lparr>bufs_free := ?free\<rparr>) {a}"
  proof -
    have "{a} \<inter> sized (mbufs st) q = (if q = p then {a} else {})" for q using b by (auto simp: sized_in)
    moreover have "length (bufs_free st p) = Suc (length free)" using f by simp
    ultimately show ?thesis using i unfolding mq_inv_def count_inv_def by (auto split: if_splits dest: spec [of _ p])
  qed
  ultimately show "mq_inv (st\<lparr>bufs_free := ?free\<rparr>) H Q {a} {a}" using i by (simp add: mq_inv_def)
qed

lemma obtain_new:
  assumes i: "mq_inv st H Q {} {}" and p: "MB_BASE_SHIFT \<le> p" "p \<le> MB_MAX_SHIFT" and b: "b = \<lparr>mb_real = None, mb_ref = 0, mb_power = p, mb_msg = []\<rparr>"
    and st': "st' = st\<lparr>mbufs := (mbufs st)(next_buf st \<mapsto> b), next_buf := Suc (next_buf st),
               bufs_alloc := (bufs_alloc st)(p := bufs_alloc st p + 1), tot_bufsize := tot_bufsize st + 2 ^ p\<rparr>"
  shows "mq_inv st' H Q {next_buf st} {next_buf st}" "mbufs st (next_buf st) = None"
proof -
  let ?a = "next_buf st"
  have c: "count_inv st {}" "free_inv (mbufs st) (bufs_free st) {}" "heap_inv (mbufs st) H Q" using i by (simp_all add: mq_inv_def)
  show n: "mbufs st ?a = None" using c(1) by (fastforce simp: count_inv_def)
  then have z: "refcount (mbufs st) ?a = 0" "owner (mbufs st) ?a = None" by (simp_all add: refcount_def owner_def)
  have re: "refcount ((mbufs st)(?a \<mapsto> b)) = refcount (mbufs st)" "owner ((mbufs st)(?a \<mapsto> b)) = owner (mbufs st)"
    using z by (auto simp: b owner_upd fun_eq_iff)
  have "heap_inv (mbufs st') H Q"
    by (rule heap_unused [OF c(3), of ?a]) (auto simp: st' z b)
  moreover have "free_inv (mbufs st') (bufs_free st') {?a}"
  proof -
    have "{x \<in> sized ((mbufs st)(?a \<mapsto> b)) q. refcount (mbufs st) x = 0} - {?a} = {x \<in> sized (mbufs st) q. refcount (mbufs st) x = 0}" for q
      using n by (auto simp: sized_new sized_def)
    then show ?thesis using c(2) p z by (auto simp: free_inv_def st' re b refcount_def)
  qed
  moreover have "count_inv st' {?a}"
  proof -
    have f: "finite (sized (mbufs st) q)" for q using c(1) finite_sized by (auto simp: count_inv_def)
    have na: "?a \<notin> sized (mbufs st) q" for q using n by (simp add: sized_def)
    have pw: "mb_power b = p" by (simp add: b)
    have "{?a} \<inter> sized ((mbufs st)(?a \<mapsto> b)) q = (if q = p then {?a} else {})" for q
      using n na by (auto simp: sized_new pw)
    note I = this
    note d = count_invD [OF c(1)]
    show ?thesis
    proof (rule count_invI)
      show "finite (dom (mbufs st'))" using d(1) by (simp add: st')
      show "x < next_buf st'" if "x \<in> dom (mbufs st')" for x using that d(2) [of x] by (cases "x = ?a") (simp_all add: st' less_Suc_eq domIff)
      show A: "bufs_alloc st' q = int (card (sized (mbufs st') q))" for q
        using d(3) [of q] f [of q] na [of q] by (auto simp: st' sized_new [of "mbufs st", OF n] pw)
      show "bufs_alloc st' q = bufs_used st' q + int (length (bufs_free st' q)) + int (card ({?a} \<inter> sized (mbufs st') q))" for q
        using d(4) [of q] I [of q] by (cases "q = p") (simp_all add: st')
      show "tot_bufsize st' = (\<Sum>q \<in> {MB_BASE_SHIFT..MB_MAX_SHIFT}. bufs_alloc st' q * 2 ^ q)"
        using d(5) sum_upd [of "{MB_BASE_SHIFT..MB_MAX_SHIFT}" p "bufs_alloc st" 1] p by (simp add: st')
    qed
  qed
  moreover have "listed (mbufs st') = listed (mbufs st)" by (simp add: listed_def re st' del: refcount_upd)
  ultimately show "mq_inv st' H Q {?a} {?a}" using i by (simp add: mq_inv_def st')
qed

lemma mb_obtain_ok:
  assumes i: "mq_inv st H Q {} {}" and p: "MB_BASE_SHIFT \<le> p" "p \<le> MB_MAX_SHIFT" and r: "mb_obtain pool p st = (st1, Some a)"
  obtains b where "mq_inv st1 H Q {a} {a}" "mbufs st1 a = Some b" "mb_power b = p" "mb_ref b = 0" "refcount (mbufs st) a = 0"
    "\<forall>x. x \<noteq> a \<longrightarrow> mbufs st1 x = mbufs st x" "frame st st1" "mbpool_ok pool st \<longrightarrow> mbpool_ok pool st1" "msglist st1 = msglist st"
proof (cases "bufs_free st p")
  case (Cons m free)
  then have s: "st1 = st\<lparr>bufs_free := (bufs_free st)(p := free)\<rparr>" "a = m" using r by (auto simp: mb_obtain_def)
  show ?thesis using obtain_popped [OF i Cons] that s by (auto simp: frame_def mbpool_ok_def refcount_def)
next
  case Nil
  have t: "tot_bufsize st < int pool" using r Nil by (auto simp: mb_obtain_def split: if_splits)
  let ?b = "\<lparr>mb_real = None, mb_ref = 0, mb_power = p, mb_msg = []\<rparr>"
  have s: "st1 = st\<lparr>mbufs := (mbufs st)(next_buf st \<mapsto> ?b), next_buf := Suc (next_buf st),
               bufs_alloc := (bufs_alloc st)(p := bufs_alloc st p + 1), tot_bufsize := tot_bufsize st + 2 ^ p\<rparr>" "a = next_buf st"
    using r Nil t by (auto simp: mb_obtain_def)
  have "(2 :: int) ^ p \<le> 2 ^ MB_MAX_SHIFT" using p(2) by simp
  then have "tot_bufsize st + 2 ^ p < int pool + 2 ^ MB_MAX_SHIFT" using t by linarith
  then show ?thesis using obtain_new [OF i p refl s(1)] s(2) by (intro that [of ?b]) (auto simp: s(1) frame_def mbpool_ok_def refcount_def)
qed

lemma mb_obtain_None: "mb_obtain pool p st = (st1, None) \<Longrightarrow> st1 = st"
  by (auto simp: mb_obtain_def split: list.splits if_splits)

text \<open>A buffer in hand is put to use.\<close>

lemma revive:
  assumes "free_inv h free {a}" "h a = Some b" "mb_power b' = mb_power b" "0 < mb_ref b'"
  shows "free_inv (h(a \<mapsto> b')) free {}"
  using assms by (auto simp: free_inv_def)

lemma count_revive:
  assumes c: "count_inv st {a}" and b: "mbufs st a = Some b" "mb_power b' = mb_power b" "mb_power b = p"
  shows "count_inv (put_buf a b' (st\<lparr>bufs_used := (bufs_used st)(p := bufs_used st p + 1)\<rparr>)) {}"
proof -
  have "{a} \<inter> sized (mbufs st) q = (if q = p then {a} else {})" for q using b by (auto simp: sized_in)
  note I = this
  note d = count_invD [OF c]
  let ?st = "put_buf a b' (st\<lparr>bufs_used := (bufs_used st)(p := bufs_used st p + 1)\<rparr>)"
  have sz: "sized (mbufs ?st) = sized (mbufs st)" using b by simp
  show ?thesis
  proof (rule count_invI, unfold sz)
    show "bufs_alloc ?st q = bufs_used ?st q + int (length (bufs_free ?st q)) + int (card ({} \<inter> sized (mbufs st) q))" for q
      using d(4) [of q] I [of q] by simp
  qed (use d(1-3,5) b in \<open>auto simp: insert_absorb\<close>)
qed

lemma mb_power_for_ok:
  assumes "0 < len" "len \<le> 512"
  shows "MB_BASE_SHIFT \<le> mb_power_for len" "mb_power_for len \<le> MB_MAX_SHIFT" "len \<le> 2 ^ mb_power_for len" "2 ^ mb_power_for len \<le> (512 :: nat)"
proof -
  have e: "mb_power_for len = (if len \<le> 32 then 5 else if len \<le> 64 then 6 else if len \<le> 128 then 7 else if len \<le> 256 then 8 else 9)"
    using assms by (auto simp: mb_power_for_def shift_defs upt_rec div_eq_0_iff)
  show "MB_BASE_SHIFT \<le> mb_power_for len" "mb_power_for len \<le> MB_MAX_SHIFT" "len \<le> 2 ^ mb_power_for len" "2 ^ mb_power_for len \<le> (512 :: nat)"
    using assms unfolding e by (auto simp: shift_defs)
qed

lemma mb_reset: "b\<lparr>mb_real := None, mb_ref := Suc 0, mb_msg := text\<rparr> = \<lparr>mb_real = None, mb_ref = Suc 0, mb_power = mb_power b, mb_msg = text\<rparr>"
  by (cases b) simp

text \<open>A buffer for a new message is in hand, with one reference but nothing in it yet.\<close>

lemma alloc_fresh:
  assumes i: "mq_inv st H Q {} {}" and r: "msgq_alloc pool None BUFSIZE st = Inr (st1, Some a)" and t: "2 \<le> length text" "length text \<le> 512"
    and st2: "st2 = (put_buf a ((the (mbufs st1 a))\<lparr>mb_msg := text\<rparr>) st1)\<lparr>msglist := a # msglist st1\<rparr>"
  shows "\<exists>b. mbufs st1 a = Some b \<and> mb_power b = 9" "mq_inv st2 (add_mset a H) Q {} {}" "frame st st2" "mbpool_ok pool st \<Longrightarrow> mbpool_ok pool st2"
    "refcount (mbufs st) a = 0" "\<And>x. x \<noteq> a \<Longrightarrow> mbufs st2 x = mbufs st x" "mb_text (mbufs st2) a = text" "is_real (mbufs st2) a"
proof -
  have p: "mb_power_for BUFSIZE = 9" using mb_power_for_ok [of BUFSIZE] by (simp add: mb_power_for_def shift_defs upt_rec BUFSIZE_def)
  obtain st0 where o: "mb_obtain pool 9 st = (st0, Some a)"
    using r by (auto simp: msgq_alloc_def p Let_def split: if_splits prod.splits option.splits)
  have p9: "MB_BASE_SHIFT \<le> 9" "9 \<le> MB_MAX_SHIFT" by (simp_all add: shift_defs)
  obtain b where b: "mq_inv st0 H Q {a} {a}" "mbufs st0 a = Some b" "mb_power b = 9" "mb_ref b = 0" "refcount (mbufs st) a = 0"
    "\<forall>x. x \<noteq> a \<longrightarrow> mbufs st0 x = mbufs st x" "frame st st0" "mbpool_ok pool st \<longrightarrow> mbpool_ok pool st0" "msglist st0 = msglist st"
    using mb_obtain_ok [OF i p9 o] by blast
  let ?st = "st0\<lparr>bufs_used := (bufs_used st0)(9 := bufs_used st0 9 + 1)\<rparr>"
  let ?b = "\<lparr>mb_real = None, mb_ref = 1, mb_power = 9, mb_msg = text\<rparr>"
  have s1: "st1 = put_buf a (b\<lparr>mb_real := None, mb_ref := 1\<rparr>) ?st"
    using r b(2) p o by (auto simp: msgq_alloc_def set_real_def BUFSIZE_def Let_def)
  then show "\<exists>b. mbufs st1 a = Some b \<and> mb_power b = 9" using b(3) by simp
  have s2: "st2 = (put_buf a ?b ?st)\<lparr>msglist := a # msglist st\<rparr>"
    by (simp add: st2 s1 put_buf_def mb_reset b(3,9))
  have hp: "heap_inv (mbufs st0) H Q" "free_inv (mbufs st0) (bufs_free st0) {a}" "count_inv st0 {a}" "distinct (msglist st0)" "set (msglist st0) = listed (mbufs st0)"
    using b(1) by (simp_all add: mq_inv_def)
  have z: "refcount (mbufs st0) a = 0" using b(2,4) by (simp add: refcount_def)
  have "listed ((mbufs st0)(a \<mapsto> ?b)) = insert a (listed (mbufs st0))"
    by (auto simp: listed_def owner_upd)
  moreover have "a \<notin> listed (mbufs st0)" using z by (simp add: listed_def)
  ultimately show "mq_inv st2 (add_mset a H) Q {} {}"
    using heap_make [OF hp(1) z refl t(1), of 9] t(2) revive [of "mbufs st0" "bufs_free st0" a b ?b, OF hp(2) b(2)]
      count_revive [OF hp(3) b(2), of ?b 9] b(3,9) hp(4,5) by (simp add: mq_inv_def s2)
  show "frame st st2" using b(7) by (simp add: frame_def s2 put_buf_def)
  show "mbpool_ok pool st \<Longrightarrow> mbpool_ok pool st2" using b(8) by (simp add: mbpool_ok_def s2)
  show "refcount (mbufs st) a = 0" by (rule b(5))
  show "mbufs st2 x = mbufs st x" if "x \<noteq> a" for x using b(6) that by (simp add: s2)
  show "mb_text (mbufs st2) a = text" "is_real (mbufs st2) a" by (simp_all add: s2)
qed

text \<open>Releasing free memory keeps everything in use.\<close>

definition same_used :: "mb_heap \<Rightarrow> mb_heap \<Rightarrow> bool" where
  "same_used h h' \<longleftrightarrow> (\<forall>x. 0 < refcount h x \<longrightarrow> h' x = h x) \<and> (\<forall>x. refcount h x = 0 \<longrightarrow> refcount h' x = 0)"

lemma same_used_refl [simp]: "same_used h h" by (simp add: same_used_def)

lemma same_used_trans [trans]: "same_used f g \<Longrightarrow> same_used g h \<Longrightarrow> same_used f h"
  unfolding same_used_def by (metis refcount_def)

lemma clear_one:
  assumes i: "mq_inv st H Q {} {}" and f: "bufs_free st p = a # free"
    and st': "st' = st\<lparr>bufs_free := (bufs_free st)(p := free), bufs_alloc := (bufs_alloc st)(p := bufs_alloc st p - 1),
          tot_bufsize := tot_bufsize st - 2 ^ p, mbufs := (mbufs st)(a := None)\<rparr>"
  shows "mq_inv st' H Q {} {}" "same_used (mbufs st) (mbufs st')" "frame st st'"
proof -
  note o = obtain_popped [OF i f]
  obtain b where b: "mbufs st a = Some b" "mb_power b = p" "mb_ref b = 0" using o(2) by blast
  have inv: "heap_inv (mbufs st) H Q" "free_inv (mbufs st) ((bufs_free st)(p := free)) {a}" "count_inv (st\<lparr>bufs_free := (bufs_free st)(p := free)\<rparr>) {a}"
    using o(1) by (simp_all add: mq_inv_def)
  have z: "refcount (mbufs st) a = 0" "refcount (mbufs st') a = 0" using b by (simp_all add: refcount_def st')
  have re: "refcount (mbufs st') = refcount (mbufs st)" using z by (auto simp: fun_eq_iff st' refcount_def)
  have ow: "owner (mbufs st') = owner (mbufs st)" using b by (auto simp: fun_eq_iff st' owner_def)
  have pr: "MB_BASE_SHIFT \<le> p" "p \<le> MB_MAX_SHIFT" using inv(2) b(1,2) by (auto simp: free_inv_def)
  have "heap_inv (mbufs st') H Q" by (rule heap_unused [OF inv(1) z]) (simp add: st')
  moreover have "free_inv (mbufs st') (bufs_free st') {}"
  proof -
    have "{x \<in> sized (mbufs st') q. refcount (mbufs st) x = 0} = {x \<in> sized (mbufs st) q. refcount (mbufs st) x = 0} - {a}" for q
      by (auto simp: sized_def st')
    moreover have "MB_BASE_SHIFT \<le> mb_power c \<and> mb_power c \<le> MB_MAX_SHIFT" if "mbufs st' x = Some c" for x c
      using that inv(2) by (auto simp: free_inv_def st' split: if_splits)
    ultimately show ?thesis using inv(2) unfolding free_inv_def re by (simp add: st')
  qed
  moreover have "count_inv st' {}"
  proof -
    note d = count_invD [OF inv(3)]
    have n: "{a} \<inter> sized (mbufs st) q = (if q = p then {a} else {})" for q using b by (auto simp: sized_in)
    have fin: "finite (sized (mbufs st) q)" for q using d(1) finite_sized by simp
    have sz: "sized (mbufs st') q = (if q = p then sized (mbufs st) q - {a} else sized (mbufs st) q)" for q
      using b by (auto simp: sized_def st')
    have "a \<in> sized (mbufs st) p" using b by (simp add: sized_def)
    then have "0 < card (sized (mbufs st) p)" using fin card_gt_0_iff by blast
    then have cd: "int (card (sized (mbufs st) p - {a})) = int (card (sized (mbufs st) p)) - 1"
      using \<open>a \<in> sized (mbufs st) p\<close> by simp
    show ?thesis
    proof (rule count_invI)
      show "finite (dom (mbufs st'))" using d(1) by (simp add: st')
      show "x < next_buf st'" if "x \<in> dom (mbufs st')" for x using that d(2) [of x] by (simp add: st' domIff split: if_splits)
      show "bufs_alloc st' q = int (card (sized (mbufs st') q))" for q
        using d(3) [of q] cd by (cases "q = p") (simp_all add: sz, simp_all add: st')
      show "bufs_alloc st' q = bufs_used st' q + int (length (bufs_free st' q)) + int (card ({} \<inter> sized (mbufs st') q))" for q
        using d(4) [of q] n [of q] by (cases "q = p") (simp_all add: st')
      show "tot_bufsize st' = (\<Sum>q \<in> {MB_BASE_SHIFT..MB_MAX_SHIFT}. bufs_alloc st' q * 2 ^ q)"
        using d(5) sum_upd [of "{MB_BASE_SHIFT..MB_MAX_SHIFT}" p "bufs_alloc st" "-1"] pr by (simp add: st')
    qed
  qed
  moreover have "listed (mbufs st') = listed (mbufs st)" by (simp add: listed_def re ow)
  ultimately show "mq_inv st' H Q {} {}" using i by (simp add: mq_inv_def) (simp add: st')
  show "same_used (mbufs st) (mbufs st')" unfolding same_used_def re using z by (auto simp: st')
  show "frame st st'" by (simp add: frame_def st')
qed

lemma clear_free_ok:
  assumes "mq_inv st H Q {} {}" "bufs_free st p = free"
  shows "mq_inv (clear_free p free st) H Q {} {} \<and> same_used (mbufs st) (mbufs (clear_free p free st)) \<and> frame st (clear_free p free st)
     \<and> tot_bufsize (clear_free p free st) \<le> tot_bufsize st"
  using assms
proof (induction free arbitrary: st)
  case (Cons a free)
  define st' where st': "st' = st\<lparr>bufs_free := (bufs_free st)(p := free), bufs_alloc := (bufs_alloc st)(p := bufs_alloc st p - 1),
          tot_bufsize := tot_bufsize st - 2 ^ p, mbufs := (mbufs st)(a := None)\<rparr>"
  note c = clear_one [OF Cons.prems st']
  have f: "bufs_free st' p = free" and t: "tot_bufsize st' \<le> tot_bufsize st" by (simp_all add: st')
  have e: "clear_free p (a # free) st = clear_free p free st'" by (simp add: st')
  note IH = Cons.IH [OF c(1) f]
  show ?case unfolding e
    using IH same_used_trans [OF c(2)] frame_trans [OF c(3)] t by (meson order_trans)
qed simp

lemma clear_freembs_ok:
  assumes "mq_inv st H Q {} {}"
  shows "mq_inv (msgq_clear_freembs st) H Q {} {}" "same_used (mbufs st) (mbufs (msgq_clear_freembs st))"
    "frame st (msgq_clear_freembs st)" "mbpool_ok pool st \<Longrightarrow> mbpool_ok pool (msgq_clear_freembs st)"
proof -
  have "mq_inv (fold (\<lambda>i st. clear_free i (bufs_free st i) st) ps st) H Q {} {}
     \<and> same_used (mbufs st) (mbufs (fold (\<lambda>i st. clear_free i (bufs_free st i) st) ps st)) \<and> frame st (fold (\<lambda>i st. clear_free i (bufs_free st i) st) ps st)
     \<and> tot_bufsize (fold (\<lambda>i st. clear_free i (bufs_free st i) st) ps st) \<le> tot_bufsize st" for ps
    using assms
  proof (induction ps arbitrary: st)
    case (Cons p ps)
    let ?st = "clear_free p (bufs_free st p) st"
    note c = clear_free_ok [OF Cons.prems refl, of p]
    have "mq_inv ?st H Q {} {}" using c by blast
    from Cons.IH [OF this] c show ?case
      using same_used_trans [of "mbufs st" "mbufs ?st"] frame_trans [of st ?st] by (auto intro: order_trans)
  qed simp
  then show "mq_inv (msgq_clear_freembs st) H Q {} {}" "same_used (mbufs st) (mbufs (msgq_clear_freembs st))"
    "frame st (msgq_clear_freembs st)" "mbpool_ok pool st \<Longrightarrow> mbpool_ok pool (msgq_clear_freembs st)"
    unfolding msgq_clear_freembs_def mbpool_ok_def by (blast intro: order.strict_trans1)+
qed

section \<open>Making messages\<close>

lemma vsnprintf_eq: "ircd_vsnprintf n body = (take (n - 1) body, length body)"
proof -
  have "fold (addc k) body (buf, ov) = (buf @ take (k - length buf) body, ov + (length body - (k - length buf)))"
    if "length buf \<le> k" for k buf ov
    using that
  proof (induction body arbitrary: buf ov)
    case (Cons c body)
    show ?case
    proof (cases "k = length buf")
      case False
      then have "k - length buf = Suc (k - length (buf @ [c]))" "length (buf @ [c]) \<le> k" using Cons.prems by auto
      then show ?thesis using Cons.IH [of "buf @ [c]" ov] False Cons.prems by simp
    qed (use Cons.IH [of buf "Suc ov"] in auto)
  qed simp
  from this [of "[]" "n - 1" 0] show ?thesis by (simp add: ircd_vsnprintf_def min_def)
qed

text \<open>The text of a message: what was formatted, cut to 510 bytes, and CR LF.\<close>

definition crlf :: string where "crlf = [CHR 0x0D, CHR 0x0A]"

lemma length_crlf [simp]: "length crlf = 2" by (simp add: crlf_def)

lemma finish_line_512:
  "finish_line 512 (take 510 body) (length body) = Inr (take 510 body @ crlf)"
  by (auto simp: finish_line_def crlf_def min_def)

definition with_text :: "nat \<Rightarrow> string \<Rightarrow> 'z MQData_scheme \<Rightarrow> 'z MQData_scheme" where
  "with_text a msg st1 = (put_buf a ((the (mbufs st1 a))\<lparr>mb_msg := msg\<rparr>) st1)\<lparr>msglist := a # msglist st1\<rparr>"

lemma alloc_no_fault:
  assumes i: "mq_inv st H Q {} {}"
  obtains st1 r where "msgq_alloc pool None BUFSIZE st = Inr (st1, r)" "r = None \<longrightarrow> st1 = st"
    "r = None \<longrightarrow> bufs_free st 9 = [] \<and> int pool \<le> tot_bufsize st"
proof -
  have p: "mb_power_for BUFSIZE = 9" by (simp add: mb_power_for_def shift_defs upt_rec BUFSIZE_def)
  have p9: "MB_BASE_SHIFT \<le> 9" "9 \<le> MB_MAX_SHIFT" by (simp_all add: shift_defs)
  obtain st0 r where o: "mb_obtain pool 9 st = (st0, r)" by fastforce
  show ?thesis
  proof (cases r)
    case None
    have "msgq_alloc pool None BUFSIZE st = Inr (st0, None)" using p o None by (simp add: msgq_alloc_def BUFSIZE_def)
    moreover have "bufs_free st 9 = [] \<and> int pool \<le> tot_bufsize st" using o None by (auto simp: mb_obtain_def split: list.splits if_splits)
    moreover have "st0 = st" using o None by (intro mb_obtain_None) simp
    ultimately show ?thesis using that by blast
  next
    case (Some a)
    obtain b where "mbufs st0 a = Some b" using mb_obtain_ok [OF i p9 o [unfolded Some]] by blast
    then obtain st1 where "msgq_alloc pool None BUFSIZE st = Inr (st1, Some a)" using p o Some by (auto simp: msgq_alloc_def BUFSIZE_def set_real_def)
    then show ?thesis using that [of st1 "Some a"] by blast
  qed
qed

text \<open>
  Whatever is tried to obtain memory keeps a property \<open>P\<close> of the state; then \<open>msgq_vmake\<close> either
  gives up, or makes the message in a state with that property.
\<close>

definition alloc_tried :: "('z MQData_scheme \<Rightarrow> bool) \<Rightarrow> nat \<Rightarrow> 'z MQData_scheme \<times> nat option \<Rightarrow> bool" where
  "alloc_tried P pool r \<longleftrightarrow> (\<exists>s0. P s0 \<and> msgq_alloc pool None BUFSIZE s0 = Inr r \<and> (snd r = None \<longrightarrow> fst r = s0))"

definition keeps_inv :: "('z MQData_scheme \<Rightarrow> bool) \<Rightarrow> bool" where
  "keeps_inv P \<longleftrightarrow> (\<forall>st. P st \<longrightarrow> (\<exists>H Q. mq_inv st H Q {} {}))"

lemma first_alloc:
  assumes "keeps_inv P" "P st"
  obtains r where "msgq_alloc pool None BUFSIZE st = Inr r" "alloc_tried P pool r"
proof -
  obtain H Q where i: "mq_inv st H Q {} {}" using assms by (auto simp: keeps_inv_def)
  obtain st1 r where "msgq_alloc pool None BUFSIZE st = Inr (st1, r)" "r = None \<longrightarrow> st1 = st"
    using alloc_no_fault [OF i] by metis
  then show ?thesis using that [of "(st1, r)"] assms(2) by (auto simp: alloc_tried_def)
qed

lemma res_run_Inr [simp]: "res_run (Inr x) = returning x"
  by (simp add: res_run_def returning_def)

text \<open>A recovery that returns and keeps the property.\<close>

definition keeps :: "('w \<Rightarrow> bool) \<Rightarrow> ('w \<Rightarrow> 'w run) \<Rightarrow> bool" where
  "keeps P f \<longleftrightarrow> (\<forall>w. P w \<longrightarrow> (\<exists>w'. f w = returning w' \<and> P w'))"

lemma keeps_bind: "keeps P f \<Longrightarrow> keeps P g \<Longrightarrow> keeps P (\<lambda>w. run_bind (f w) g)"
  by (fastforce simp: keeps_def)

lemma keeps_pure: "(\<And>w. P w \<Longrightarrow> P (f w)) \<Longrightarrow> keeps P (\<lambda>w. returning (f w))"
  by (simp add: keeps_def)

lemma retry_alloc_ok:
  assumes P: "keeps P rec" and inv: "keeps_inv P" and r: "alloc_tried P pool r"
  obtains r' where "retry_alloc pool rec r = returning r'" "alloc_tried P pool r'"
proof (cases "snd r")
  case None
  obtain s0 where s0: "P s0" "fst r = s0" using r None by (auto simp: alloc_tried_def)
  then obtain s1 where s1: "rec s0 = returning s1" "P s1" using P by (auto simp: keeps_def)
  then have e: "retry_alloc pool rec r = res_run (msgq_alloc pool None BUFSIZE s1)" using None s0(2) by (cases r) (auto simp: retry_alloc_def)
  obtain r' where "msgq_alloc pool None BUFSIZE s1 = Inr r'" "alloc_tried P pool r'" using first_alloc [OF inv s1(2)] by metis
  then show ?thesis using that e by (simp add: res_run_def returning_def)
next
  case (Some a)
  then have "retry_alloc pool rec r = returning r" by (cases r) (auto simp: retry_alloc_def)
  then show ?thesis using r that by simp
qed

lemma vmake_cases:
  assumes inv: "keeps_inv P" and P: "keeps P (flush_all e)" "\<And>st. P st \<Longrightarrow> P (msgq_clear_freembs st)"
      "\<And>b. keeps P (kill_sendq e b)" and st: "P st"
  shows "msgq_vmake pool e body st = Some (Inl Aborted)
    \<or> (\<exists>s0 s1 mb. P s0 \<and> msgq_alloc pool None BUFSIZE s0 = Inr (s1, Some mb)
         \<and> msgq_vmake pool e body st = returning (with_text mb (take 510 body @ crlf) s1, mb))"
proof -
  let ?clear = "\<lambda>w. returning (msgq_clear_freembs w)"
  have P2: "keeps P ?clear" by (rule keeps_pure) (rule P(2))
  have P4: "keeps P (\<lambda>w. run_bind (kill_sendq e b w) ?clear)" for b by (rule keeps_bind [OF P(3) P2])
  obtain r1 where r1: "msgq_alloc pool None BUFSIZE st = Inr r1" "alloc_tried P pool r1" using first_alloc [OF inv st] by metis
  have r0: "res_run (msgq_alloc pool None BUFSIZE st) = returning r1" using r1(1) by (simp add: res_run_def returning_def)
  obtain r2 where r2: "(if ferguson_flusher e then retry_alloc pool (flush_all e) r1 else returning r1) = returning r2" "alloc_tried P pool r2"
    using retry_alloc_ok [OF P(1) inv r1(2)] r1(2) by (metis (full_types))
  obtain r3 where r3: "retry_alloc pool ?clear r2 = returning r3" "alloc_tried P pool r3"
    using retry_alloc_ok [OF P2 inv r2(2)] by metis
  obtain r4 where r4: "retry_alloc pool (\<lambda>w. run_bind (kill_sendq e False w) ?clear) r3 = returning r4" "alloc_tried P pool r4"
    using retry_alloc_ok [OF P4 inv r3(2)] by metis
  obtain r5 where r5: "retry_alloc pool (\<lambda>w. run_bind (kill_sendq e True w) ?clear) r4 = returning r5" "alloc_tried P pool r5"
    using retry_alloc_ok [OF P4 inv r4(2)] by metis
  obtain s1 found where f: "r5 = (s1, found)" by fastforce
  show ?thesis
  proof (cases found)
    case None
    then have "msgq_vmake pool e body st = Some (Inl Aborted)" by (simp add: msgq_vmake_def r0 r2 r3 r4 r5 f)
    then show ?thesis ..
  next
    case (Some mb)
    obtain s0 where s0: "P s0" "msgq_alloc pool None BUFSIZE s0 = Inr (s1, Some mb)" using r5(2) unfolding f Some by (auto simp: alloc_tried_def)
    obtain H Q where i: "mq_inv s0 H Q {} {}" using inv s0(1) by (auto simp: keeps_inv_def)
    obtain b where b: "mbufs s1 mb = Some b" "mb_power b = 9"
      using alloc_fresh(1) [OF i s0(2), of crlf] by auto
    then have "bufsize b = 512" by (simp add: bufsize_def)
    then have "msgq_vmake pool e body st = returning (with_text mb (take 510 body @ crlf) s1, mb)"
      using b by (simp add: msgq_vmake_def r0 r2 r3 r4 r5 f Some vsnprintf_eq finish_line_512 with_text_def)
    then show ?thesis using s0 by blast
  qed
qed

lemma finish_line_ok:
  assumes "2 \<le> sz" "length old \<le> sz - 2"
  shows "finish_line sz (old @ take (sz - 2 - length old) body) (length old + length body) = Inr (take (sz - 2) (old @ body) @ crlf)"
proof -
  define w where w: "w = take (sz - 2) (old @ body)"
  have e: "old @ take (sz - 2 - length old) body = w" using assms(2) by (simp add: w)
  have l: "length w = min (sz - 2) (length old + length body)" by (simp add: w)
  show ?thesis unfolding e w [symmetric]
    using assms(1) l by (cases "sz - 2 < length old + length body") (auto simp: finish_line_def crlf_def Let_def)
qed

text \<open>Text is appended only before the message is queued for the first time.\<close>

definition chop :: "string \<Rightarrow> string" where "chop m = take (length m - 2) m"

lemma append_ok:
  assumes i: "mq_inv st H Q {} {}" and a: "a \<in># H" "is_real (mbufs st) a" "2 < length (mb_text (mbufs st) a)"
  obtains st' b where "msgq_append a body st = Inr st'" "mq_inv st' H Q {} {}" "mbufs st a = Some b"
    "mb_text (mbufs st') a = take (bufsize b - 2) (chop (mb_msg b) @ body) @ crlf"
    "\<forall>x. x \<noteq> a \<longrightarrow> mbufs st' x = mbufs st x" "frame st st'"
proof -
  have h: "heap_inv (mbufs st) H Q" "free_inv (mbufs st) (bufs_free st) {}" "count_inv st {}" using i by (simp_all add: mq_inv_def)
  obtain b where b: "mbufs st a = Some b" "0 < mb_ref b" using referenced [OF h(1), of a] a(1) by auto
  have r: "mb_real b = None" "2 < length (mb_msg b)" "length (mb_msg b) \<le> bufsize b"
    using a b heap_invD(7) [OF h(1) b] by (auto simp: is_real_def mb_text_def)
  define m where m: "m = take (bufsize b - 2) (chop (mb_msg b) @ body) @ crlf"
  let ?b = "b\<lparr>mb_msg := m\<rparr>"
  have l: "length m \<le> bufsize b" "2 \<le> length m" using r by (auto simp: min_def m)
  have "length (chop (mb_msg b)) \<le> bufsize b - 2" using r by (auto simp: chop_def)
  moreover have "bufsize b - length (chop (mb_msg b)) - 1 - 1 = bufsize b - 2 - length (chop (mb_msg b))" by simp
  ultimately have "finish_line (bufsize b) (chop (mb_msg b) @ take (bufsize b - length (chop (mb_msg b)) - 1 - 1) body)
      (length (chop (mb_msg b)) + length body) = Inr m"
    unfolding m using finish_line_ok [of "bufsize b" "chop (mb_msg b)" body] r by simp
  then have e: "msgq_append a body st = Inr (put_buf a ?b st)"
    using b r unfolding msgq_append_def chop_def [symmetric] by (simp add: vsnprintf_eq Let_def)
  have o: "owner ((mbufs st)(a \<mapsto> ?b)) = owner (mbufs st)" using b by simp
  have "listed ((mbufs st)(a \<mapsto> ?b)) = listed (mbufs st)" using heap_at [of "mbufs st" a b, OF b(1)] by (auto simp: listed_def o)
  then have "mq_inv (put_buf a ?b st) H Q {} {}"
    using i heap_handle [OF h(1) a(1) b(1) r(1), of ?b] r(1) l free_inv_upd [OF h(2) b(1), of ?b] b(1)
    by (simp add: mq_inv_def bufsize_def)
  then show ?thesis using e b(1) m by (intro that [of "put_buf a ?b st" b]) (simp_all add: frame_def put_buf_def)
qed

lemma append_queued: "mbufs st a = Some b \<Longrightarrow> mb_real b \<noteq> None \<Longrightarrow> msgq_append a body st = Inl Aborted"
  by (simp add: msgq_append_def)

section \<open>Queueing\<close>

text \<open>The real buffer: the message's own, or a copy in a smaller one.\<close>

definition realized :: "mb_heap \<Rightarrow> mb_heap \<Rightarrow> nat \<Rightarrow> nat \<Rightarrow> bool" where
  "realized h h' a r \<longleftrightarrow>
     (\<exists>b'. h' a = Some b' \<and> mb_real b' = Some r \<and> mb_ref b' = refcount h a) \<and> mb_text h' a = mb_text h a \<and> mb_text h' r = mb_text h a
     \<and> 0 < refcount h' r \<and> (r = a \<or> refcount h r = 0) \<and> (\<forall>x. x \<noteq> a \<longrightarrow> x \<noteq> r \<longrightarrow> h' x = h x)"

lemma self_real_ok:
  assumes i: "mq_inv st H Q {} {}" and a: "a \<in># H" "mbufs st a = Some b" "mb_real b = None"
  shows "mq_inv (set_real (Some a) a st) H Q {} {}" "realized (mbufs st) (mbufs (set_real (Some a) a st)) a a" "frame st (set_real (Some a) a st)"
    "tot_bufsize (set_real (Some a) a st) = tot_bufsize st"
proof -
  have h: "heap_inv (mbufs st) H Q" "free_inv (mbufs st) (bufs_free st) {}" using i by (simp_all add: mq_inv_def)
  have rb: "0 < mb_ref b" using referenced [OF h(1), of a] a by (metis option.inject union_iff)
  let ?b = "b\<lparr>mb_real := Some a\<rparr>"
  have s: "set_real (Some a) a st = put_buf a ?b st" by (simp add: set_real_def a(2))
  have o: "owner ((mbufs st)(a \<mapsto> ?b)) = owner (mbufs st)" using a by (auto simp: owner_upd fun_eq_iff) (simp add: owner_def)
  have "listed ((mbufs st)(a \<mapsto> ?b)) = listed (mbufs st)" using heap_at [of "mbufs st" a b, OF a(2)] by (auto simp: listed_def o)
  then show "mq_inv (set_real (Some a) a st) H Q {} {}"
    unfolding s using i heap_handle [OF h(1) a, of ?b] heap_invD(7) [OF h(1) a(2) rb] free_inv_upd [OF h(2) a(2), of ?b] a(2)
    by (simp add: mq_inv_def bufsize_def)
  show "realized (mbufs st) (mbufs (set_real (Some a) a st)) a a"
    using a rb by (auto simp: realized_def s refcount_def mb_text_def)
  show "frame st (set_real (Some a) a st)" "tot_bufsize (set_real (Some a) a st) = tot_bufsize st" by (simp_all add: s frame_def put_buf_def)
qed

lemma copy_ok:
  assumes i: "mq_inv st H Q {} {}" and a: "a \<in># H" "mbufs st a = Some b" "mb_real b = None"
    and o: "mb_obtain pool p st = (st0, Some t)" and p: "MB_BASE_SHIFT \<le> p" "p \<le> MB_MAX_SHIFT" "length (mb_msg b) \<le> 2 ^ p"
  obtains c st3 where "mbufs st0 t = Some c" "mb_power c = p" "mbufs st0 a = Some b" "t \<noteq> a" "a \<in> set (msglist st0)" "mbpool_ok pool st \<longrightarrow> mbpool_ok pool st0"
    "st3 = (put_buf t (c\<lparr>mb_real := None, mb_ref := 1, mb_msg := mb_msg b\<rparr>)
              (put_buf a (b\<lparr>mb_real := Some t\<rparr>) (st0\<lparr>bufs_used := (bufs_used st0)(p := bufs_used st0 p + 1)\<rparr>)))
              \<lparr>msglist := map (\<lambda>x. if x = a then t else x) (msglist st0)\<rparr>"
    "mq_inv st3 H Q {} {}" "realized (mbufs st) (mbufs st3) a t" "frame st st3"
proof -
  have h: "heap_inv (mbufs st) H Q" using i by (simp add: mq_inv_def)
  have rb: "0 < mb_ref b" using referenced [OF h, of a] a by (metis option.inject union_iff)
  obtain c where c: "mq_inv st0 H Q {t} {t}" "mbufs st0 t = Some c" "mb_power c = p" "mb_ref c = 0" "refcount (mbufs st) t = 0"
    "\<forall>x. x \<noteq> t \<longrightarrow> mbufs st0 x = mbufs st x" "frame st st0" "mbpool_ok pool st \<longrightarrow> mbpool_ok pool st0" "msglist st0 = msglist st"
    using mb_obtain_ok [OF i p(1,2) o] by blast
  have ta: "t \<noteq> a" using c(5) a(2) rb by (auto simp: refcount_def)
  have a0: "mbufs st0 a = Some b" using c(6) ta a(2) by simp
  have hp: "heap_inv (mbufs st0) H Q" "free_inv (mbufs st0) (bufs_free st0) {t}" "count_inv st0 {t}" "distinct (msglist st0)" "set (msglist st0) = listed (mbufs st0)"
    using c(1) by (simp_all add: mq_inv_def)
  have z: "refcount (mbufs st0) t = 0" using c(2,4) by (simp add: refcount_def)
  have al: "a \<in> listed (mbufs st0)" "t \<notin> listed (mbufs st0)" using a0 a(3) rb z by (auto simp: listed_def refcount_def owner_def)
  let ?t = "\<lparr>mb_real = None, mb_ref = 1, mb_power = p, mb_msg = mb_msg b\<rparr>" and ?a = "b\<lparr>mb_real := Some t\<rparr>"
  let ?h = "(mbufs st0)(a \<mapsto> ?a, t \<mapsto> ?t)"
  let ?l = "map (\<lambda>x. if x = a then t else x) (msglist st0)"
  have "listed ?h = insert t (listed (mbufs st0) - {a})"
    using ta rb by (auto simp: listed_def owner_upd)
  moreover have "set ?l = insert t (listed (mbufs st0) - {a})" using al(1) hp(5) by auto
  moreover have "distinct ?l" using hp(4,5) al(2) by (auto simp: distinct_map inj_on_def)
  moreover have "free_inv ?h (bufs_free st0) {}"
    using revive [of "(mbufs st0)(a \<mapsto> ?a)" "bufs_free st0" t c ?t] free_inv_upd [OF hp(2) a0, of ?a] c(2,3) ta by simp
  moreover have "heap_inv ?h H Q" by (rule heap_copy [OF hp(1) a(1) a0 a(3) z refl p(3)])
  moreover have "count_inv (put_buf t ?t (put_buf a ?a (st0\<lparr>bufs_used := (bufs_used st0)(p := bufs_used st0 p + 1)\<rparr>))) {}"
  proof -
    have "count_inv (put_buf a ?a st0) {t}" using hp(3) a0 by simp
    from count_revive [OF this, of c ?t p] show ?thesis using c(2,3) ta by (simp add: put_buf_def)
  qed
  ultimately have "mq_inv ((put_buf t ?t (put_buf a ?a (st0\<lparr>bufs_used := (bufs_used st0)(p := bufs_used st0 p + 1)\<rparr>)))\<lparr>msglist := ?l\<rparr>) H Q {} {}"
    by (simp add: mq_inv_def)
  moreover have "realized (mbufs st) ?h a t"
    using ta a(2) rb c(5,6) by (auto simp: realized_def refcount_def mb_text_def)
  ultimately show ?thesis
    using c ta a0 al(1) hp(5) by (intro that [of c, OF _ _ _ _ _ _ refl]) (simp_all add: frame_def put_buf_def mb_reset)
qed

lemma mq_inv_stats [simp]:
  "mq_inv (st\<lparr>sizes_msgs := n, sizes := f\<rparr>) H Q L C = mq_inv st H Q L C"
  "mq_inv (st\<lparr>msgs_used := k\<rparr>) H Q L C = mq_inv st H Q L C"
  "mq_inv (st\<lparr>msgs_alloc := k\<rparr>) H Q L C = mq_inv st H Q L C"
  "mq_inv (st\<lparr>msgs_free := j\<rparr>) H Q L C = mq_inv st H Q L C"
  by (simp_all add: mq_inv_def count_inv_def)

lemma put_buf_shadow: "t \<noteq> a \<Longrightarrow> put_buf t x (put_buf a y (put_buf t z st)) = put_buf t x (put_buf a y st)"
  by (simp add: put_buf_def)

lemma choose_real_ok:
  assumes i: "mq_inv st H Q {} {}" and a: "a \<in># H" "mbufs st a = Some b" "mb_real b = None"
  obtains st' r where "choose_real pool a b st = Inr st'" "mq_inv st' H Q {} {}" "realized (mbufs st) (mbufs st') a r" "frame st st'"
    "mbpool_ok pool st \<longrightarrow> mbpool_ok pool st'"
proof -
  define s1 where s1: "s1 = st\<lparr>sizes_msgs := sizes_msgs st + 1, sizes := (sizes st)(length (mb_msg b) - 1 := sizes st (length (mb_msg b) - 1) + 1)\<rparr>"
  let ?p = "mb_power_for (length (mb_msg b))"
  have i1: "mq_inv s1 H Q {} {}" and a1: "mbufs s1 a = Some b" and fr: "frame st s1" "mbufs s1 = mbufs st" "tot_bufsize s1 = tot_bufsize st"
    using i a(2) by (simp_all add: s1 frame_def)
  have h: "heap_inv (mbufs st) H Q" "free_inv (mbufs st) (bufs_free st) {}" using i by (simp_all add: mq_inv_def)
  have rb: "0 < mb_ref b" using referenced [OF h(1), of a] a by (metis option.inject union_iff)
  have "mb_power b \<le> 9" using h(2) a(2) by (auto simp: free_inv_def shift_defs)
  then have "bufsize b \<le> 2 ^ 9" unfolding bufsize_def by (rule power_increasing) simp
  then have l: "2 \<le> length (mb_msg b)" "length (mb_msg b) \<le> 512" using heap_invD(7) [OF h(1) a(2) rb] by auto
  have pw: "MB_BASE_SHIFT \<le> ?p" "?p \<le> MB_MAX_SHIFT" "length (mb_msg b) \<le> 2 ^ ?p" "2 ^ ?p \<le> (512 :: nat)"
    by (rule mb_power_for_ok; use l in linarith)+
  have nb: "\<not> BUFSIZE \<le> length (mb_msg b) - 1" unfolding BUFSIZE_def using l by linarith
  have cr: "choose_real pool a b st = res_bind (msgq_alloc pool (Some a) (length (mb_msg b)) s1) (\<lambda>(st2, found).
           case found of None \<Rightarrow> Inl NullDeref
           | Some tmp \<Rightarrow>
               if tmp = a then Inr st2
               else
                 (case mbufs st2 tmp of None \<Rightarrow> Inl NullDeref
                  | Some t \<Rightarrow>
                      if bufsize t < length (mb_msg b) then Inl OutOfBounds
                      else if a \<notin> set (msglist st2) then Inl NullDeref
                      else Inr ((put_buf tmp (t\<lparr>mb_msg := mb_msg b\<rparr>) st2)
                             \<lparr>msglist := map (\<lambda>x. if x = a then tmp else x) (msglist st2)\<rparr>)))"
    unfolding choose_real_def Let_def s1 by (simp only: nb if_False)
  note result = that
  have self: thesis if al: "msgq_alloc pool (Some a) (length (mb_msg b)) s1 = Inr (set_real (Some a) a s1, Some a)"
  proof (rule result)
    show "choose_real pool a b st = Inr (set_real (Some a) a s1)" unfolding cr by (simp add: al)
    show "mq_inv (set_real (Some a) a s1) H Q {} {}" by (rule self_real_ok(1) [OF i1 a(1) a1 a(3)])
    show "realized (mbufs st) (mbufs (set_real (Some a) a s1)) a a" using self_real_ok(2) [OF i1 a(1) a1 a(3)] fr(2) by simp
    show "frame st (set_real (Some a) a s1)" using frame_trans [OF fr(1) self_real_ok(3) [OF i1 a(1) a1 a(3)]] .
    show "mbpool_ok pool st \<longrightarrow> mbpool_ok pool (set_real (Some a) a s1)" using self_real_ok(4) [OF i1 a(1) a1 a(3)] fr(3) by (simp add: mbpool_ok_def)
  qed
  show ?thesis
  proof (cases "mb_power b = ?p")
    case True
    show ?thesis by (rule self) (use pw a1 True in \<open>simp add: msgq_alloc_def Let_def\<close>)
  next
    case False
    obtain st0 f where o: "mb_obtain pool ?p s1 = (st0, f)" by fastforce
    show ?thesis
    proof (cases f)
      case None
      then have "st0 = s1" using o mb_obtain_None by blast
      then show ?thesis by (intro self) (use pw a1 False o None in \<open>simp add: msgq_alloc_def Let_def\<close>)
    next
      case (Some t)
      obtain c st3 where c: "mbufs st0 t = Some c" "mb_power c = ?p" "mbufs st0 a = Some b" "t \<noteq> a" "a \<in> set (msglist st0)"
        "mbpool_ok pool s1 \<longrightarrow> mbpool_ok pool st0" and
        fin: "st3 = (put_buf t (c\<lparr>mb_real := None, mb_ref := 1, mb_msg := mb_msg b\<rparr>)
              (put_buf a (b\<lparr>mb_real := Some t\<rparr>) (st0\<lparr>bufs_used := (bufs_used st0)(?p := bufs_used st0 ?p + 1)\<rparr>)))
              \<lparr>msglist := map (\<lambda>x. if x = a then t else x) (msglist st0)\<rparr>"
        "mq_inv st3 H Q {} {}" "realized (mbufs s1) (mbufs st3) a t" "frame s1 st3"
        using copy_ok [OF i1 a(1) a1 a(3) o [unfolded Some] pw(1-3)] by blast
      have "choose_real pool a b st = Inr st3"
      proof -
        let ?u = "st0\<lparr>bufs_used := (bufs_used st0)(?p := bufs_used st0 ?p + 1)\<rparr>"
        have "msgq_alloc pool (Some a) (length (mb_msg b)) s1
            = Inr (put_buf a (b\<lparr>mb_real := Some t\<rparr>) (put_buf t (c\<lparr>mb_real := None, mb_ref := 1\<rparr>) ?u), Some t)"
          using pw(3,4) a1 False o Some c(1,3,4) by (simp add: msgq_alloc_def Let_def set_real_def)
        then show ?thesis unfolding cr fin(1) using c(1,2,4,5) pw(3) by (simp add: put_buf_shadow bufsize_def)
      qed
      then show ?thesis using fin(2-) c(6) fr frame_trans [OF fr(1)]
        by (intro result [of st3 t]) (simp_all add: mbpool_ok_def fin(1))
    qed
  qed
qed

end
