(* ===== verification/Msgq_Thms.thy ===== *)
theory Msgq_Thms
  imports Msgq_Inv
begin

text \<open>
  What a receiver gets: the messages queued for it, each whole, those of the priority list first but
  never inside another message.
\<close>

section \<open>Adding a message\<close>

lemma queue_ref:
  assumes i: "mq_inv st H Q {} {}" and a: "a \<in># H" "mbufs st a = Some b" "mb_real b = Some r"
  obtains rb where "mbufs st r = Some rb" "mb_msg rb = mb_text (mbufs st) a"
    "mq_inv (put_buf r (rb\<lparr>mb_ref := Suc (mb_ref rb)\<rparr>) st) H (add_mset r Q) {} {}"
proof -
  have h: "heap_inv (mbufs st) H Q" "free_inv (mbufs st) (bufs_free st) {}" using i by (simp_all add: mq_inv_def)
  have rb: "0 < mb_ref b" using referenced [OF h(1), of a] a by (metis option.inject union_iff)
  have ow: "r \<noteq> a \<Longrightarrow> owner (mbufs st) a = Some r" using a rb by (simp add: owner_def)
  have "0 < refcount (mbufs st) r"
  proof (cases "r = a")
    case False
    then have "r \<in> ran (owner (mbufs st))" using ow ranI by metis
    then show ?thesis using heap_invD(1) [OF h(1), of r] by simp
  qed (use a rb in \<open>simp add: refcount_def\<close>)
  then obtain c where c: "mbufs st r = Some c" "0 < mb_ref c" by (auto simp: refcount_pos)
  have t: "mb_msg c = mb_text (mbufs st) a" using heap_invD(4) [OF h(1) ow] a c by (cases "r = a") (auto simp: mb_text_def)
  have "\<not> (r \<in># H \<and> is_real (mbufs st) r)"
  proof (cases "r = a")
    case False
    then have "r \<in> ran (owner (mbufs st))" using ow ranI by metis
    then show ?thesis using heap_invD(5) [OF h(1), of r] by blast
  qed (use a in \<open>simp add: is_real_def\<close>)
  note inc = heap_inc [OF h(1) c this]
  let ?c = "c\<lparr>mb_ref := Suc (mb_ref c)\<rparr>"
  have o: "owner ((mbufs st)(r \<mapsto> ?c)) = owner (mbufs st)" using c by simp
  have "listed ((mbufs st)(r \<mapsto> ?c)) = listed (mbufs st)" using c heap_at [of "mbufs st" r c, OF c(1)] by (auto simp: listed_def o)
  then have "mq_inv (put_buf r ?c st) H (add_mset r Q) {} {}"
    using i inc free_inv_upd [OF h(2) c(1), of ?c] c by (simp add: mq_inv_def)
  then show ?thesis using that c(1) t by blast
qed

definition growing :: "mb_heap \<Rightarrow> mb_heap \<Rightarrow> bool" where
  "growing h h' \<longleftrightarrow> (\<forall>x. 0 < refcount h x \<longrightarrow> 0 < refcount h' x \<and> mb_text h' x = mb_text h x)"

lemma growing_trans: "growing f g \<Longrightarrow> growing g h \<Longrightarrow> growing f h" by (simp add: growing_def)

lemma growing_refl [simp]: "growing h h" by (simp add: growing_def)

lemma realized_growing:
  assumes r: "realized h h' a r" and a: "0 < refcount h a"
  shows "growing h h'"
proof -
  have "0 < refcount h' x \<and> mb_text h' x = mb_text h x" if "0 < refcount h x" for x
  proof (cases "x = a")
    case True
    then show ?thesis using r a by (auto simp: realized_def refcount_def)
  next
    case False
    then have "x \<noteq> r" using r that by (auto simp: realized_def)
    then have "h' x = h x" using r False by (auto simp: realized_def)
    then show ?thesis using that by (simp add: refcount_def mb_text_def)
  qed
  then show ?thesis by (simp add: growing_def)
qed

definition msgs_slack :: "'z MQData_scheme \<Rightarrow> int" where
  "msgs_slack st = msgs_alloc st - msgs_used st - int (msgs_free st)"

definition queued :: "MsgQ \<Rightarrow> bool \<Rightarrow> nat \<Rightarrow> nat \<Rightarrow> MsgQ" where
  "queued mq prio r len = (set_qlist prio (qlist prio mq @ [\<lparr>msg_sent = 0, msg_buf = r\<rparr>]) mq)
     \<lparr>mq_length := mq_length mq + of_nat len, mq_count := mq_count mq + 1\<rparr>"

lemma add_ok:
  assumes i: "mq_inv st H Q {} {}" and a: "a \<in># H"
  obtains st' r where "msgq_add pool mq a prio st = Inr (queued mq prio r (length (mb_text (mbufs st) a)), st')"
    "mq_inv st' H (add_mset r Q) {} {}" "mb_text (mbufs st') r = mb_text (mbufs st) a" "growing (mbufs st) (mbufs st')"
    "MQData.more st' = MQData.more st" "msgs_used st' = msgs_used st + 1" "msgs_slack st' = msgs_slack st"
    "mbpool_ok pool st \<longrightarrow> mbpool_ok pool st'"
proof -
  have h: "heap_inv (mbufs st) H Q" using i by (simp add: mq_inv_def)
  obtain b where b: "mbufs st a = Some b" "0 < mb_ref b" using referenced [OF h, of a] a by auto
  have ne: "mb_msg b \<noteq> []" using heap_invD(7) [OF h b] by auto
  have ra: "0 < refcount (mbufs st) a" using b by (auto simp: refcount_pos)
  define st1 where st1: "st1 = (if msgs_free st = 0 then st\<lparr>msgs_alloc := msgs_alloc st + 1\<rparr> else st\<lparr>msgs_free := msgs_free st - 1\<rparr>)"
  define st2 where st2: "st2 = st1\<lparr>msgs_used := msgs_used st1 + 1\<rparr>"
  have i2: "mq_inv st2 H Q {} {}" "mbufs st2 = mbufs st" "MQData.more st2 = MQData.more st" "msgs_used st2 = msgs_used st + 1"
    "msgs_slack st2 = msgs_slack st" "tot_bufsize st2 = tot_bufsize st"
    using i by (auto simp: st2 st1 msgs_slack_def)
  obtain st3 b3 r where s3: "(if mb_real b = None then choose_real pool a b st2 else Inr st2) = Inr st3"
      "mq_inv st3 H Q {} {}" "mbufs st3 a = Some b3" "mb_real b3 = Some r" "growing (mbufs st) (mbufs st3)" "frame st2 st3"
      "mbpool_ok pool st2 \<longrightarrow> mbpool_ok pool st3"
  proof (cases "mb_real b")
    case None
    obtain st3 r where c: "choose_real pool a b st2 = Inr st3" "mq_inv st3 H Q {} {}" "realized (mbufs st2) (mbufs st3) a r" "frame st2 st3"
      "mbpool_ok pool st2 \<longrightarrow> mbpool_ok pool st3"
      using choose_real_ok [OF i2(1) a _ None] b(1) i2(2) by metis
    obtain b3 where "mbufs st3 a = Some b3" "mb_real b3 = Some r" using c(3) by (auto simp: realized_def)
    then show ?thesis using c realized_growing [OF c(3)] ra i2(2) None by (intro that [of st3 b3 r]) simp_all
  qed (use that i2 b in auto)
  obtain rb where rb: "mbufs st3 r = Some rb" "mb_msg rb = mb_text (mbufs st3) a"
    "mq_inv (put_buf r (rb\<lparr>mb_ref := Suc (mb_ref rb)\<rparr>) st3) H (add_mset r Q) {} {}"
    using queue_ref [OF s3(2) a s3(3,4)] by blast
  let ?st = "put_buf r (rb\<lparr>mb_ref := Suc (mb_ref rb)\<rparr>) st3"
  have t: "mb_text (mbufs st3) a = mb_text (mbufs st) a" using s3(5) ra by (simp add: growing_def)
  have "msgq_add pool mq a prio st = Inr (queued mq prio r (length (mb_text (mbufs st) a)), ?st)"
    using b ne rb(1,2) t unfolding msgq_add_def Let_def st1 [symmetric] st2 [symmetric] s3(1)
    by (simp add: queued_def s3(1,3,4))
  moreover have "growing (mbufs st3) (mbufs ?st)" using heap_at [of "mbufs st3" r rb, OF rb(1)] by (auto simp: growing_def)
  moreover have "mb_text (mbufs ?st) r = mb_text (mbufs st) a" using rb(2) t by simp
  ultimately show ?thesis using rb(3) growing_trans [OF s3(5)] s3(6,7) i2
    by (intro that [of r ?st]) (simp_all add: frame_def msgs_slack_def mbpool_ok_def put_buf_def)
qed

section \<open>What is still to be sent\<close>

definition rest_of :: "mb_heap \<Rightarrow> Msg \<Rightarrow> string" where
  "rest_of h m = drop (msg_sent m) (mb_text h (msg_buf m))"

definition partial :: "Msg list \<Rightarrow> bool" where
  "partial ms \<longleftrightarrow> ms \<noteq> [] \<and> 0 < msg_sent (hd ms)"

text \<open>The remaining texts in the order in which they go out.\<close>

definition order :: "MsgQ \<Rightarrow> Msg list" where
  "order mq = (if partial (mq_queue mq) then hd (mq_queue mq) # mq_prio mq @ tl (mq_queue mq) else mq_prio mq @ mq_queue mq)"

definition pending :: "mb_heap \<Rightarrow> MsgQ \<Rightarrow> string list" where
  "pending h mq = map (rest_of h) (order mq)"

definition refs :: "MsgQ \<Rightarrow> nat multiset" where
  "refs mq = mset (map msg_buf (mq_queue mq @ mq_prio mq))"

definition q_inv :: "mb_heap \<Rightarrow> MsgQ \<Rightarrow> bool" where
  "q_inv h mq \<longleftrightarrow>
     (\<forall>m \<in> set (order mq). rest_of h m \<noteq> []) \<and> (\<forall>m \<in> set (tl (order mq)). msg_sent m = 0)
     \<and> mq_length mq = of_nat (length (concat (pending h mq))) \<and> mq_count mq = of_nat (length (order mq))"

lemma mset_order: "mset (map msg_buf (order mq)) = refs mq"
  by (cases "mq_queue mq") (auto simp: order_def refs_def partial_def)

lemma set_order: "set (order mq) = set (mq_queue mq) \<union> set (mq_prio mq)"
  by (cases "mq_queue mq") (auto simp: order_def partial_def)

lemma refs_order: "m \<in> set (order mq) \<Longrightarrow> msg_buf m \<in># refs mq"
  unfolding mset_order [symmetric] by simp

text \<open>Texts of referenced buffers determine what is pending.\<close>

lemma pending_cong:
  assumes "\<And>a. a \<in># refs mq \<Longrightarrow> mb_text h' a = mb_text h a"
  shows "pending h' mq = pending h mq" "q_inv h' mq = q_inv h mq"
proof -
  have r: "rest_of h' m = rest_of h m" if "m \<in> set (order mq)" for m
    using assms [OF refs_order [OF that]] by (simp add: rest_of_def)
  show "pending h' mq = pending h mq" using r by (simp add: pending_def)
  then show "q_inv h' mq = q_inv h mq" using r by (simp add: q_inv_def)
qed

text \<open>The list \<open>msgq_delete\<close> works on, and the queue with another list in its place.\<close>

definition turn :: "MsgQ \<Rightarrow> bool" where
  "turn mq \<longleftrightarrow> \<not> partial (mq_queue mq) \<and> mq_prio mq \<noteq> []"

lemma delete_step:
  "msgq_delete mq len st =
     (if len = 0 \<or> order mq = [] then returning (mq, st)
      else run_bind (msgq_delmsg (turn mq) mq len st) (\<lambda>(mq1, len1, st1). msgq_delete mq1 len1 st1))"
  unfolding msgq_delete.simps [of mq len st] by (auto simp: turn_def partial_def order_def)

lemma order_turn:
  assumes "order mq \<noteq> []" "\<forall>m \<in> set (tl (order mq)). msg_sent m = 0"
  obtains m ms where "qlist (turn mq) mq = m # ms" "order mq = m # order (set_qlist (turn mq) ms mq)"
    "\<And>k. 0 < k \<Longrightarrow> order (set_qlist (turn mq) (m\<lparr>msg_sent := k\<rparr> # ms) mq) = m\<lparr>msg_sent := k\<rparr> # tl (order mq)"
proof (cases "turn mq")
  case True
  then obtain m ms where p: "mq_prio mq = m # ms" by (cases "mq_prio mq") (auto simp: turn_def)
  show ?thesis by (rule that [of m ms]) (use True p in \<open>auto simp: qlist_def set_qlist_def order_def turn_def\<close>)
next
  case False
  then obtain m ms where q: "mq_queue mq = m # ms" using assms(1) by (cases "mq_queue mq") (auto simp: turn_def order_def partial_def)
  have "partial (mq_queue mq) \<or> mq_prio mq = []" using False by (auto simp: turn_def)
  then have o: "order mq = m # mq_prio mq @ ms" using q by (auto simp: order_def)
  then have z: "\<not> partial ms" using assms(2) by (cases ms) (auto simp: partial_def)
  show ?thesis by (rule that [of m ms]) (use False q z o in \<open>auto simp: qlist_def set_qlist_def order_def partial_def\<close>)
qed

fun drop_bytes :: "nat \<Rightarrow> string list \<Rightarrow> string list" where
  "drop_bytes n [] = []"
| "drop_bytes n (s # l) = (if n = 0 then s # l else if length s \<le> n then drop_bytes (n - length s) l else drop n s # l)"

lemma concat_drop_bytes: "concat (drop_bytes n l) = drop n (concat l)"
  by (induction n l rule: drop_bytes.induct) auto

section \<open>Removing what was sent\<close>

lemma clean_pool:
  assumes "msgq_clean a st = Some r"
  shows "\<forall>st'. r = Inr st' \<longrightarrow> tot_bufsize st' = tot_bufsize st"
proof (rule msgq_clean.raw_induct [where P = "\<lambda>a st r. \<forall>st'. r = Inr st' \<longrightarrow> tot_bufsize st' = tot_bufsize st", OF _ assms], goal_cases)
  case (1 clean a st r)
  have hyp: "tot_bufsize s' = tot_bufsize s" if "clean x s = Some (Inr s')" for x s s'
    using 1(1) [OF that] by simp
  show ?case
  proof (cases "mbufs st a")
    case (Some b)
    show ?thesis
    proof (cases "mb_ref b \<le> 1")
      case True
      then show ?thesis using 1(2) Some hyp
        by (auto simp: returning_def Let_def free_mb_def run_bind_def split: if_splits option.splits sum.splits)
    qed (use 1(2) Some in \<open>auto simp: returning_def Let_def\<close>)
  qed (use 1(2) in auto)
qed

lemma clean_returning_pool: "msgq_clean a st = returning st' \<Longrightarrow> tot_bufsize st' = tot_bufsize st"
  using clean_pool [of a st "Inr st'"] by (simp add: returning_def)

text \<open>What a step on a queue leaves alone: other queues and counters.\<close>

definition q_frame :: "'z MQData_scheme \<Rightarrow> MsgQ \<Rightarrow> 'z MQData_scheme \<Rightarrow> MsgQ \<Rightarrow> bool" where
  "q_frame st mq st' mq' \<longleftrightarrow>
     dying (mbufs st) (mbufs st') \<and> MQData.more st' = MQData.more st \<and> msgs_slack st' = msgs_slack st
     \<and> msgs_used st' - int (size (refs mq')) = msgs_used st - int (size (refs mq)) \<and> tot_bufsize st' = tot_bufsize st"

lemma q_frame_refl [simp]: "q_frame st mq st mq" by (simp add: q_frame_def)

lemma q_frame_trans: "q_frame s p t q \<Longrightarrow> q_frame t q u r \<Longrightarrow> q_frame s p u r"
  unfolding q_frame_def by (metis dying_trans)

lemma pending_dying:
  assumes "mq_inv st' H (refs mq + Qo) {} {}" "dying (mbufs st) (mbufs st')"
  shows "pending (mbufs st') mq = pending (mbufs st) mq" "q_inv (mbufs st') mq = q_inv (mbufs st) mq"
proof -
  have "mb_text (mbufs st') a = mb_text (mbufs st) a" if "a \<in># refs mq" for a
  proof -
    have "heap_inv (mbufs st') H (refs mq + Qo)" using assms(1) by (simp add: mq_inv_def)
    then have "0 < refcount (mbufs st') a" using that referenced [of "mbufs st'" H "refs mq + Qo" a] by (auto simp: refcount_pos)
    then show ?thesis using assms(2) by (simp add: dying_def)
  qed
  then show "pending (mbufs st') mq = pending (mbufs st) mq" "q_inv (mbufs st') mq = q_inv (mbufs st) mq"
    by (simp_all add: pending_cong(1) [of mq "mbufs st'" "mbufs st"] pending_cong(2) [of mq "mbufs st'" "mbufs st"])
qed

text \<open>The first message in the order is removed, or a part of it.\<close>

lemma delmsg_whole:
  assumes i: "mq_inv st H (refs mq + Qo) {} {}" and q: "q_inv (mbufs st) mq"
    and m: "qlist (turn mq) mq = m # ms" "order mq = m # order (set_qlist (turn mq) ms mq)" and n: "length (rest_of (mbufs st) m) \<le> n"
  obtains mq1 st1 where "msgq_delmsg (turn mq) mq n st = returning (mq1, n - length (rest_of (mbufs st) m), st1)"
    "mq_inv st1 H (refs mq1 + Qo) {} {}" "q_inv (mbufs st1) mq1" "order mq = m # order mq1"
    "pending (mbufs st1) mq1 = map (rest_of (mbufs st)) (order mq1)" "q_frame st mq st1 mq1"
proof -
  let ?l = "length (rest_of (mbufs st) m)"
  define mq1 where mq1: "mq1 = set_qlist (turn mq) ms (mq\<lparr>mq_length := mq_length mq - of_nat ?l, mq_count := mq_count mq - 1\<rparr>)"
  have o: "order mq1 = order (set_qlist (turn mq) ms mq)" "order mq = m # order mq1"
    using m(2) by (auto simp: set_qlist_def order_def mq1)
  have sel: "mq_length mq1 = mq_length mq - of_nat ?l" "mq_count mq1 = mq_count mq - 1" by (simp_all add: mq1 set_qlist_def)
  have rf: "refs mq = add_mset (msg_buf m) (refs mq1)" unfolding mset_order [symmetric] o(2) by simp
  have h: "heap_inv (mbufs st) H (refs mq + Qo)" using i by (simp add: mq_inv_def)
  obtain b where b: "mbufs st (msg_buf m) = Some b" using referenced [OF h, of "msg_buf m"] rf by auto
  have l: "?l = length (mb_msg b) - msg_sent m" using b by (simp add: rest_of_def mb_text_def)
  have R: "H + (refs mq + Qo) = add_mset (msg_buf m) (H + (refs mq1 + Qo))" "H \<subseteq># H" "refs mq1 + Qo \<subseteq># refs mq + Qo" by (simp_all add: rf)
  obtain st0 where c: "msgq_clean (msg_buf m) st = returning st0" "mq_inv st0 H (refs mq1 + Qo) {} {}" "dying (mbufs st) (mbufs st0)" "frame st st0"
    by (rule clean_ok [OF i R])
  let ?st1 = "st0\<lparr>msgs_used := msgs_used st0 - 1, msgs_free := Suc (msgs_free st0)\<rparr>"
  have i1: "mq_inv ?st1 H (refs mq1 + Qo) {} {}" using c(2) by simp
  have p: "pending (mbufs ?st1) mq1 = pending (mbufs st) mq1" and qq: "q_inv (mbufs ?st1) mq1 = q_inv (mbufs st) mq1"
    using pending_dying [OF i1, of st] c(3) by simp_all
  have "msgq_delmsg (turn mq) mq n st = returning (mq1, n - ?l, ?st1)"
    using m(1) b c(1) n l by (simp add: msgq_delmsg_def Let_def mq1)
  moreover have "q_inv (mbufs ?st1) mq1"
  proof -
    have "mq_length mq1 = of_nat (length (concat (pending (mbufs st) mq1)))" "mq_count mq1 = of_nat (length (order mq1))"
      unfolding sel using q unfolding q_inv_def pending_def o(2) by simp_all
    moreover have "\<forall>m' \<in> set (order mq1). rest_of (mbufs st) m' \<noteq> []" "\<forall>m' \<in> set (tl (order mq1)). msg_sent m' = 0"
      using q unfolding q_inv_def o(2) by (cases "order mq1"; auto)+
    ultimately have "q_inv (mbufs st) mq1" unfolding q_inv_def by blast
    then show ?thesis using qq by simp
  qed
  moreover have "q_frame st mq ?st1 mq1"
    using c(3,4) clean_returning_pool [OF c(1)] rf by (simp add: q_frame_def frame_def msgs_slack_def)
  ultimately show ?thesis using i1 o(2) p by (intro that) (auto simp: pending_def)
qed

lemma in_set_tl: "x \<in> set (tl l) \<Longrightarrow> x \<in> set l"
  by (cases l) auto

lemma delmsg_part:
  assumes i: "mq_inv st H (refs mq + Qo) {} {}" and q: "q_inv (mbufs st) mq"
    and m: "qlist (turn mq) mq = m # ms" "order mq = m # order (set_qlist (turn mq) ms mq)"
      "\<And>k. 0 < k \<Longrightarrow> order (set_qlist (turn mq) (m\<lparr>msg_sent := k\<rparr> # ms) mq) = m\<lparr>msg_sent := k\<rparr> # tl (order mq)"
    and n: "n < length (rest_of (mbufs st) m)" "0 < n"
  obtains mq1 where "msgq_delmsg (turn mq) mq n st = returning (mq1, 0, st)" "refs mq1 = refs mq" "q_inv (mbufs st) mq1"
    "pending (mbufs st) mq1 = drop n (rest_of (mbufs st) m) # tl (pending (mbufs st) mq)"
proof -
  let ?m = "m\<lparr>msg_sent := msg_sent m + n\<rparr>"
  define mq1 where mq1: "mq1 = set_qlist (turn mq) (?m # ms) (mq\<lparr>mq_length := mq_length mq - of_nat n\<rparr>)"
  have "order mq1 = order (set_qlist (turn mq) (?m # ms) mq)" by (auto simp: set_qlist_def order_def mq1)
  then have o: "order mq1 = ?m # tl (order mq)" using m(3) [of "msg_sent m + n"] n(2) by simp
  have tm: "order mq = m # tl (order mq)" using m(2) by (metis list.sel(3))
  have rf: "refs mq1 = refs mq"
    unfolding mset_order [symmetric] o by (subst (2) tm) simp
  have h: "heap_inv (mbufs st) H (refs mq + Qo)" using i by (simp add: mq_inv_def)
  have "msg_buf m \<in># refs mq" using refs_order [of m mq] tm by (metis list.set_intros(1))
  then obtain b where b: "mbufs st (msg_buf m) = Some b" using referenced [OF h, of "msg_buf m"] by auto
  have r: "rest_of (mbufs st) ?m = drop n (rest_of (mbufs st) m)" by (simp add: rest_of_def add.commute)
  have pm: "pending (mbufs st) mq = rest_of (mbufs st) m # tl (pending (mbufs st) mq)"
    unfolding pending_def by (subst tm) (simp add: map_tl)
  have p: "pending (mbufs st) mq1 = drop n (rest_of (mbufs st) m) # tl (pending (mbufs st) mq)"
    unfolding pending_def o by (simp add: r map_tl)
  have ml: "mq_length mq1 = mq_length mq - of_nat n" "mq_count mq1 = mq_count mq" by (simp_all add: mq1 set_qlist_def)
  have "msgq_delmsg (turn mq) mq n st = returning (mq1, 0, st)"
    using m(1) b n by (simp add: msgq_delmsg_def rest_of_def mb_text_def mq1)
  moreover have "q_inv (mbufs st) mq1"
  proof -
    have "of_nat (length (concat (pending (mbufs st) mq))) = (of_nat (length (concat (pending (mbufs st) mq1))) + of_nat n :: u32)"
      unfolding p by (subst pm) (use n in \<open>simp flip: of_nat_add\<close>)
    then have "mq_length mq1 = of_nat (length (concat (pending (mbufs st) mq1)))" using q unfolding ml q_inv_def by (metis add_diff_cancel_right')
    moreover have "mq_count mq1 = of_nat (length (order mq1))"
    proof -
      have "length (order mq1) = length (order mq)" unfolding o by (subst (2) tm) simp
      then show ?thesis using q unfolding q_inv_def ml by simp
    qed
    moreover have "\<forall>m' \<in> set (order mq1). rest_of (mbufs st) m' \<noteq> []" "\<forall>m' \<in> set (tl (order mq1)). msg_sent m' = 0"
      using q n unfolding q_inv_def o by (auto simp: r dest: in_set_tl)
    ultimately show ?thesis unfolding q_inv_def by blast
  qed
  ultimately show ?thesis using rf p that by blast
qed

lemma delete_ok:
  assumes "mq_inv st H (refs mq + Qo) {} {}" "q_inv (mbufs st) mq"
  shows "\<exists>mq' st'. msgq_delete mq n st = returning (mq', st') \<and> mq_inv st' H (refs mq' + Qo) {} {} \<and> q_inv (mbufs st') mq'
    \<and> pending (mbufs st') mq' = drop_bytes n (pending (mbufs st) mq) \<and> q_frame st mq st' mq'"
  using assms
proof (induction "length (order mq)" arbitrary: mq st n)
  case 0
  then show ?case by (simp add: delete_step pending_def)
next
  case (Suc k)
  have ne: "order mq \<noteq> []" using Suc.hyps(2) by auto
  have q: "\<forall>m \<in> set (tl (order mq)). msg_sent m = 0" "\<forall>m \<in> set (order mq). rest_of (mbufs st) m \<noteq> []" using Suc.prems(2) by (auto simp: q_inv_def)
  obtain m ms where m: "qlist (turn mq) mq = m # ms" "order mq = m # order (set_qlist (turn mq) ms mq)"
    "\<And>k. 0 < k \<Longrightarrow> order (set_qlist (turn mq) (m\<lparr>msg_sent := k\<rparr> # ms) mq) = m\<lparr>msg_sent := k\<rparr> # tl (order mq)"
    using order_turn [OF ne q(1)] by metis
  have pm: "pending (mbufs st) mq = rest_of (mbufs st) m # map (rest_of (mbufs st)) (tl (order mq))"
  proof -
    have "order mq = m # tl (order mq)" using m(2) by (metis list.sel(3))
    then show ?thesis unfolding pending_def by (metis list.simps(9))
  qed
  show ?case
  proof (cases "n = 0")
    case True
    then show ?thesis using Suc.prems pm by (simp add: delete_step [of mq 0])
  next
    case n: False
    show ?thesis
    proof (cases "length (rest_of (mbufs st) m) \<le> n")
      case True
      obtain mq1 st1 where s: "msgq_delmsg (turn mq) mq n st = returning (mq1, n - length (rest_of (mbufs st) m), st1)"
        "mq_inv st1 H (refs mq1 + Qo) {} {}" "q_inv (mbufs st1) mq1" "order mq = m # order mq1"
        "pending (mbufs st1) mq1 = map (rest_of (mbufs st)) (order mq1)" "q_frame st mq st1 mq1"
        by (rule delmsg_whole [OF Suc.prems m(1,2) True])
      have k: "k = length (order mq1)" using Suc.hyps(2) s(4) by simp
      have dp: "drop_bytes n (pending (mbufs st) mq) = drop_bytes (n - length (rest_of (mbufs st) m)) (pending (mbufs st1) mq1)"
        unfolding pm s(5) using n True by (simp add: s(4))
      obtain mq' st' where f: "msgq_delete mq1 (n - length (rest_of (mbufs st) m)) st1 = returning (mq', st')"
        "mq_inv st' H (refs mq' + Qo) {} {}" "q_inv (mbufs st') mq'"
        "pending (mbufs st') mq' = drop_bytes (n - length (rest_of (mbufs st) m)) (pending (mbufs st1) mq1)" "q_frame st1 mq1 st' mq'"
        using Suc.hyps(1) [OF k s(2,3)] by blast
      have "msgq_delete mq n st = returning (mq', st')" using n ne s(1) f(1) by (simp add: delete_step [of mq n])
      then show ?thesis using f dp q_frame_trans [OF s(6) f(5)] by auto
    next
      case False
      obtain mq1 where s: "msgq_delmsg (turn mq) mq n st = returning (mq1, 0, st)" "refs mq1 = refs mq" "q_inv (mbufs st) mq1"
        "pending (mbufs st) mq1 = drop n (rest_of (mbufs st) m) # tl (pending (mbufs st) mq)"
        using delmsg_part [OF Suc.prems m(1,2), of n] m(3) False n by auto
      have "msgq_delete mq n st = returning (mq1, st)"
        using n ne s(1) by (simp add: delete_step [of mq n] delete_step [of mq1 0])
      moreover have "q_frame st mq st mq1" using s(2) by (simp add: q_frame_def)
      ultimately show ?thesis using Suc.prems(1) s pm n False by auto
    qed
  qed
qed

section \<open>What is offered to the socket\<close>

lemma fill_iov_ok:
  assumes "mbufs st (msg_buf m) = Some b" "0 < room" "off = msg_sent m"
  shows "fill_iov st off m (iov, room, len)
    = Inr (iov @ [rest_of (mbufs st) m], room - 1, len + of_nat (length (rest_of (mbufs st) m)))"
  using assms by (simp add: fill_iov_def rest_of_def mb_text_def Let_def)

lemma fill_loop_ok:
  assumes "\<forall>m \<in> set ms. \<exists>b. mbufs st (msg_buf m) = Some b" "\<forall>m \<in> set ms. msg_sent m = 0" "0 < room"
  shows "fill_loop st ms (iov, room, len)
    = Inr (iov @ take room (map (rest_of (mbufs st)) ms), room - length ms, len + of_nat (length (concat (take room (map (rest_of (mbufs st)) ms)))))"
  using assms
proof (induction ms arbitrary: iov room len)
  case (Cons m ms)
  obtain b where "mbufs st (msg_buf m) = Some b" using Cons.prems(1) by auto
  then have f: "fill_iov st 0 m (iov, room, len) = Inr (iov @ [rest_of (mbufs st) m], room - 1, len + of_nat (length (rest_of (mbufs st) m)))"
    using fill_iov_ok [of st m b room 0] Cons.prems by simp
  obtain r where r: "room = Suc r" using Cons.prems(3) by (cases room) auto
  show ?case
  proof (cases "r = 0")
    case False
    then show ?thesis using Cons.IH [of r] Cons.prems f r by simp
  qed (use f r in simp)
qed simp

lemma fill_partial_no: "\<not> partial ms \<Longrightarrow> fill_partial st ms v = Inr (v, ms)"
  by (cases ms) (auto simp: fill_partial_def partial_def)

lemma fill_partial_yes:
  assumes "partial ms" "\<forall>m \<in> set ms. \<exists>b. mbufs st (msg_buf m) = Some b" "0 < room"
  shows "fill_partial st ms (iov, room, len)
    = Inr ((iov @ [rest_of (mbufs st) (hd ms)], room - 1, len + of_nat (length (rest_of (mbufs st) (hd ms)))), tl ms)"
proof (cases ms)
  case (Cons m ms')
  then obtain b where "mbufs st (msg_buf m) = Some b" using assms(2) by auto
  then show ?thesis using assms Cons fill_iov_ok [of st m b room "msg_sent m"] by (simp add: fill_partial_def partial_def)
qed (use assms in \<open>simp add: partial_def\<close>)

text \<open>The end of \<open>msgq_mapiov\<close>: two lists of messages not yet begun.\<close>

lemma fill_both:
  assumes b: "\<forall>m \<in> set (ps @ qs). \<exists>b. mbufs st (msg_buf m) = Some b" and z: "\<forall>m \<in> set (ps @ qs). msg_sent m = 0"
  shows "(if room = 0 then Inr (iov, len)
     else res_bind (fill_loop st ps (iov, room, len)) (\<lambda>v.
       if fst (snd v) = 0 then Inr (fst v, snd (snd v))
       else res_bind (fill_loop st qs v) (\<lambda>v. Inr (fst v, snd (snd v)))))
   = Inr (iov @ take room (map (rest_of (mbufs st)) (ps @ qs)), len + of_nat (length (concat (take room (map (rest_of (mbufs st)) (ps @ qs))))))"
proof (cases "room = 0")
  case False
  have p: "\<forall>m \<in> set ps. \<exists>b. mbufs st (msg_buf m) = Some b" "\<forall>m \<in> set ps. msg_sent m = 0" "0 < room"
    and q: "\<forall>m \<in> set qs. \<exists>b. mbufs st (msg_buf m) = Some b" "\<forall>m \<in> set qs. msg_sent m = 0" using b z False by auto
  show ?thesis
  proof (cases "room \<le> length ps")
    case True
    then show ?thesis using False by (simp add: fill_loop_ok [OF p])
  next
    case f: False
    then have "0 < room - length ps" by simp
    then show ?thesis using f False by (simp add: fill_loop_ok [OF p] fill_loop_ok [OF q] add.assoc)
  qed
qed simp

lemma mapiov_ok:
  assumes i: "mq_inv st H (refs mq + Qo) {} {}" and q: "q_inv (mbufs st) mq" and room: "0 < room"
    and small: "length (concat (pending (mbufs st) mq)) < 2 ^ 32"
  shows "msgq_mapiov mq room 0 st = Inr (take room (pending (mbufs st) mq), of_nat (length (concat (take room (pending (mbufs st) mq)))))"
proof -
  have h: "heap_inv (mbufs st) H (refs mq + Qo)" using i by (simp add: mq_inv_def)
  have ex: "\<forall>m \<in> set (order mq). \<exists>b. mbufs st (msg_buf m) = Some b"
    using refs_order referenced [OF h] by (metis union_iff)
  have tz: "\<forall>m \<in> set (tl (order mq)). msg_sent m = 0" and ne: "\<forall>m \<in> set (order mq). rest_of (mbufs st) m \<noteq> []"
    using q by (auto simp: q_inv_def)
  show ?thesis
  proof (cases "mq_length mq = 0")
    case True
    then have "unat (of_nat (length (concat (pending (mbufs st) mq))) :: u32) = 0" using q by (simp add: q_inv_def)
    then have "concat (pending (mbufs st) mq) = []" using small by (simp add: unat_of_nat take_bit_eq_mod)
    then have "pending (mbufs st) mq = []" using ne by (cases "order mq") (auto simp: pending_def)
    then show ?thesis using room True by (simp add: msgq_mapiov_def)
  next
    case False
    note unf = msgq_mapiov_def res_bind_simps
    show ?thesis
    proof (cases "partial (mq_queue mq)")
      case pq: True
      then have o: "order mq = hd (mq_queue mq) # mq_prio mq @ tl (mq_queue mq)" by (simp add: order_def)
      have "\<not> partial (mq_prio mq)" using tz unfolding o by (cases "mq_prio mq") (auto simp: partial_def)
      moreover have "\<forall>m \<in> set (mq_queue mq). \<exists>b. mbufs st (msg_buf m) = Some b" using ex by (auto simp: set_order)
      ultimately show ?thesis
        using room False fill_both [of "mq_prio mq" "tl (mq_queue mq)" st "room - 1"] ex tz
        by (cases room) (auto simp: unf fill_partial_yes [OF pq] fill_partial_no pending_def o)
    next
      case nq: False
      then have o: "order mq = mq_prio mq @ mq_queue mq" by (simp add: order_def)
      show ?thesis
      proof (cases "partial (mq_prio mq)")
        case pp: True
        then have o2: "order mq = hd (mq_prio mq) # tl (mq_prio mq) @ mq_queue mq" unfolding o by (cases "mq_prio mq") (auto simp: partial_def)
        have "\<forall>m \<in> set (mq_prio mq). \<exists>b. mbufs st (msg_buf m) = Some b" using ex by (auto simp: set_order)
        then show ?thesis
          using room False fill_both [of "tl (mq_prio mq)" "mq_queue mq" st "room - 1"] ex tz
          by (cases room) (auto simp: unf fill_partial_no [OF nq] fill_partial_yes [OF pp] pending_def o2)
      next
        case False
        then have "\<forall>m \<in> set (order mq). msg_sent m = 0" using tz nq unfolding o by (cases "mq_prio mq"; cases "mq_queue mq") (auto simp: partial_def)
        then show ?thesis
          using room \<open>mq_length mq \<noteq> 0\<close> fill_both [of "mq_prio mq" "mq_queue mq" st room] ex
          by (simp add: unf fill_partial_no [OF nq] fill_partial_no [OF False] pending_def o)
      qed
    qed
  qed
qed

section \<open>Where a new message goes\<close>

text \<open>The messages a new priority message has to wait for.\<close>

definition urgent :: "MsgQ \<Rightarrow> nat" where
  "urgent mq = (if partial (mq_queue mq) then 1 else 0) + length (mq_prio mq)"

definition insert_at :: "nat \<Rightarrow> 'a \<Rightarrow> 'a list \<Rightarrow> 'a list" where
  "insert_at k x l = take k l @ x # drop k l"

definition place :: "MsgQ \<Rightarrow> bool \<Rightarrow> nat" where
  "place mq prio = (if prio then urgent mq else length (order mq))"

lemma order_queued:
  "order (queued mq prio r len) = insert_at (place mq prio) \<lparr>msg_sent = 0, msg_buf = r\<rparr> (order mq)"
proof (cases "mq_queue mq")
  case (Cons m ms)
  then show ?thesis by (auto simp: order_def queued_def set_qlist_def qlist_def insert_at_def place_def urgent_def partial_def)
qed (auto simp: order_def queued_def set_qlist_def qlist_def insert_at_def place_def urgent_def partial_def)

lemma insert_at_map: "map f (insert_at k x l) = insert_at k (f x) (map f l)"
  by (simp add: insert_at_def take_map drop_map)

lemma set_insert_at: "set (insert_at k x l) = insert x (set l)"
proof -
  have "set (take k l) \<union> set (drop k l) = set l" by (metis append_take_drop_id set_append)
  then show ?thesis by (auto simp: insert_at_def)
qed

lemma length_insert_at: "length (insert_at k x l) = Suc (length l)"
  by (simp add: insert_at_def)

lemma length_concat_insert_at: "length (concat (insert_at k x l)) = length (concat l) + length x"
proof -
  have "length (concat l) = length (concat (take k l)) + length (concat (drop k l))"
    by (metis append_take_drop_id concat_append length_append)
  then show ?thesis by (simp add: insert_at_def)
qed

lemma set_tl_insert_at:
  assumes "\<forall>y \<in> set (tl l). P y" "P x" "k = 0 \<longrightarrow> (\<forall>y \<in> set l. P y)"
  shows "\<forall>y \<in> set (tl (insert_at k x l)). P y"
proof (cases k)
  case (Suc j)
  show ?thesis
  proof (cases l)
    case (Cons y l')
    then have "tl (insert_at k x l) = insert_at j x l'" using Suc by (simp add: insert_at_def)
    then show ?thesis using assms Cons by (simp add: set_insert_at)
  qed (use Suc in \<open>simp add: insert_at_def\<close>)
qed (use assms in \<open>simp add: insert_at_def\<close>)

lemma refs_queued: "refs (queued mq prio r len) = add_mset r (refs mq)"
  by (auto simp: refs_def queued_def set_qlist_def qlist_def)

text \<open>A message that is not begun may be overtaken, so nothing else is at the head with a part sent.\<close>

lemma place_0:
  assumes "place mq prio = 0" "\<forall>m \<in> set (tl (order mq)). msg_sent m = 0"
  shows "\<forall>m \<in> set (order mq). msg_sent m = 0"
proof (cases prio)
  case True
  then have "\<not> partial (mq_queue mq)" "mq_prio mq = []" using assms(1) by (auto simp: place_def urgent_def split: if_splits)
  then have "\<not> partial (order mq)" by (simp add: order_def)
  then show ?thesis using assms(2) by (cases "order mq") (simp_all add: partial_def)
qed (use assms(1) in \<open>simp add: place_def\<close>)

lemma add_q_inv:
  assumes q: "q_inv h mq" and g: "\<And>a. a \<in># refs mq \<Longrightarrow> mb_text h' a = mb_text h a" and t: "mb_text h' r \<noteq> []"
  shows "pending h' (queued mq prio r (length (mb_text h' r))) = insert_at (place mq prio) (mb_text h' r) (pending h mq)"
    "q_inv h' (queued mq prio r (length (mb_text h' r)))"
proof -
  let ?mq = "queued mq prio r (length (mb_text h' r))"
  have p: "pending h' mq = pending h mq" and q': "q_inv h' mq" using pending_cong [of mq h' h] g q by blast+
  have m: "rest_of h' \<lparr>msg_sent = 0, msg_buf = r\<rparr> = mb_text h' r" by (simp add: rest_of_def)
  show pp: "pending h' ?mq = insert_at (place mq prio) (mb_text h' r) (pending h mq)"
    unfolding p [symmetric] by (simp add: pending_def order_queued insert_at_map m)
  have "mq_length ?mq = mq_length mq + of_nat (length (mb_text h' r))" "mq_count ?mq = mq_count mq + 1" by (simp_all add: queued_def)
  then have "mq_length ?mq = of_nat (length (concat (pending h' ?mq)))" "mq_count ?mq = of_nat (length (order ?mq))"
    using q' unfolding q_inv_def pp p by (simp_all add: length_concat_insert_at order_queued length_insert_at)
  moreover have "\<forall>x \<in> set (order ?mq). rest_of h' x \<noteq> []" using q' t by (simp add: order_queued set_insert_at q_inv_def m)
  moreover have "\<forall>x \<in> set (tl (order ?mq)). msg_sent x = 0"
  proof -
    have z: "\<forall>x \<in> set (tl (order mq)). msg_sent x = 0" using q' by (simp add: q_inv_def)
    show ?thesis unfolding order_queued by (rule set_tl_insert_at [OF z]) (use place_0 [of mq prio, OF _ z] in simp_all)
  qed
  ultimately show "q_inv h' ?mq" unfolding q_inv_def by blast
qed

end
