(* ===== verification/Send.thy ===== *)
theory Send
  imports Msgq_Thms Dbuf Ircd_String
begin

text \<open>
  Sending (\<open>ircd/send.c\<close>, \<open>deliver_it\<close> of \<open>ircd/s_bsd.c\<close>, \<open>os_sendv_nonb\<close>, the list of connections with
  queued data of \<open>ircd/client.c\<close>), in the build without TLS.

  \<open>con_wire\<close> records the bytes a socket has taken; the program has no such variable. \<open>writev\<close> is
  the system call; \<open>get_sendq\<close> the limit from the configuration; \<open>oper_notice\<close> stands for the notices
  to operators, which are messages of their own.
\<close>

datatype IOResult = IO_FAILURE | IO_BLOCKED | IO_SUCCESS

record sconn = cli +
  con_fd :: int
  con_sendQ :: MsgQ
  con_recvQ :: DBuf
  con_lastsq :: u16
  con_sendM :: u32
  con_sendK :: u32
  con_sendB :: u16
  con_listing :: bool
  con_serv :: bool
  con_from :: "client option"
  con_info :: string
  con_want_write :: bool
  con_wire :: string

record sworld = MQData +
  conn :: "client \<Rightarrow> sconn"
  send_queues :: "client list"
  dbufs :: pool
  LocalClientArray :: "client option list"
  me :: client

record senv =
  env_pool :: nat
  env_flush :: bool
  IOV_MAX :: nat
  writev :: "sworld \<Rightarrow> client \<Rightarrow> string list \<Rightarrow> int \<times> int"
  get_sendq :: "client \<Rightarrow> nat"
  strerror :: "int \<Rightarrow> string option"
  oper_notice :: "sworld \<Rightarrow> sworld"

definition on_conn :: "client \<Rightarrow> (sconn \<Rightarrow> sconn) \<Rightarrow> sworld \<Rightarrow> sworld" where
  "on_conn c f w = w\<lparr>conn := (conn w)(c := f (conn w c))\<rparr>"

section \<open>The list of connections with queued data\<close>

definition client_drop_sendq :: "client \<Rightarrow> sworld \<Rightarrow> sworld" where
  "client_drop_sendq c w = w\<lparr>send_queues := remove1 c (send_queues w)\<rparr>"

definition client_add_sendq :: "client \<Rightarrow> sworld \<Rightarrow> sworld" where
  "client_add_sendq c w = (if c \<in> set (send_queues w) then w else w\<lparr>send_queues := c # send_queues w\<rparr>)"

definition update_write :: "client \<Rightarrow> sworld \<Rightarrow> sworld" where
  "update_write c = on_conn c (\<lambda>x. x\<lparr>con_want_write := mq_length (con_sendQ x) \<noteq> 0 \<or> con_listing x\<rparr>)"

section \<open>Writing to the socket\<close>

definition EAGAIN :: int where "EAGAIN = 11"
definition ENOMEM :: int where "ENOMEM = 12"
definition ENOBUFS :: int where "ENOBUFS = 105"

definition os_sendv_nonb :: "senv \<Rightarrow> client \<Rightarrow> sworld \<Rightarrow> (sworld \<times> IOResult \<times> u32 \<times> u32 \<times> int) res" where
  "os_sendv_nonb e c w =
     res_bind (msgq_mapiov (con_sendQ (conn w c)) (IOV_MAX e) 0 w) (\<lambda>(iov, count_in).
       let (r, errno) = writev e w c iov in
       if -1 < r then
         Inr (on_conn c (\<lambda>x. x\<lparr>con_wire := con_wire x @ take (nat r) (concat iov)\<rparr>) w, IO_SUCCESS, count_in, of_int r, errno)
       else if errno \<in> {EAGAIN, ENOMEM, ENOBUFS} then Inr (w, IO_BLOCKED, count_in, 0, errno)
       else Inr (w, IO_FAILURE, count_in, 0, errno))"

definition count_sent :: "u32 \<Rightarrow> sconn \<Rightarrow> sconn" where
  "count_sent n x =
     (let b = con_sendB x + ucast n
      in if 1023 < b then x\<lparr>con_sendK := con_sendK x + ucast (drop_bit 10 b), con_sendB := b AND 0x3ff\<rparr>
         else x\<lparr>con_sendB := b\<rparr>)"

definition deliver_it :: "senv \<Rightarrow> client \<Rightarrow> sworld \<Rightarrow> (sworld \<times> u32) res" where
  "deliver_it e c w =
     res_bind (os_sendv_nonb e c w) (\<lambda>(w1, io, bytes_count, bytes_written, errno).
       case io of
         IO_SUCCESS \<Rightarrow>
           (let w2 = on_conn c (\<lambda>x. ClrFlag x FLAG_BLOCKED) w1;
                w3 = on_conn (me w) (count_sent bytes_written) (on_conn c (count_sent bytes_written) w2)
            in Inr (if bytes_written < bytes_count then on_conn c (\<lambda>x. SetFlag x FLAG_BLOCKED) w3 else w3, bytes_written))
       | IO_BLOCKED \<Rightarrow> Inr (on_conn c (\<lambda>x. SetFlag x FLAG_BLOCKED) w1, bytes_written)
       | IO_FAILURE \<Rightarrow> Inr (on_conn c (\<lambda>x. SetFlag (x\<lparr>cli_error := errno\<rparr>) FLAG_DEADSOCKET) w1, bytes_written))"

section \<open>Sending\<close>

definition REALLEN :: nat where "REALLEN = 50"

definition dead_link :: "senv \<Rightarrow> client \<Rightarrow> string \<Rightarrow> sworld \<Rightarrow> sworld run" where
  "dead_link e to notice w =
     (let w1 = on_conn to (\<lambda>x. SetFlag x FLAG_DEADSOCKET) w;
          rq = con_recvQ (conn w1 to);
          (p, rq') = dbuf_delete (dbufs w1) rq (dyn_length rq);
          w2 = on_conn to (\<lambda>x. x\<lparr>con_recvQ := rq'\<rparr>) (w1\<lparr>dbufs := p\<rparr>)
      in run_bind (MsgQClear (con_sendQ (conn w2 to)) w2) (\<lambda>(mq, w3).
           let w4 = client_drop_sendq to (on_conn to (\<lambda>x. x\<lparr>con_sendQ := mq\<rparr>) w3);
               w5 = on_conn to (\<lambda>x. x\<lparr>con_info := take REALLEN notice\<rparr>) w4;
               x = conn w5 to
           in returning (if \<not> IsUser x \<and> \<not> IsUnknown x \<and> \<not> HasFlag x FLAG_CLOSING then oper_notice e w5 else w5)))"

definition can_send :: "sconn \<Rightarrow> bool" where
  "can_send x \<longleftrightarrow> \<not> (IsDead x \<or> IsMe x \<or> con_fd x = -1)"

partial_function (option) send_loop :: "senv \<Rightarrow> client \<Rightarrow> sworld \<Rightarrow> sworld run" where
  "send_loop e to w =
     (if mq_length (con_sendQ (conn w to)) = 0 then returning (update_write to (client_drop_sendq to w))
      else
        (case deliver_it e to w of Inl f \<Rightarrow> Some (Inl f)
         | Inr (w1, len) \<Rightarrow>
             if len \<noteq> 0 then
               run_bind (msgq_delete (con_sendQ (conn w1 to)) (unat len) w1) (\<lambda>(mq, w2).
                 let w3 = on_conn to (\<lambda>x. x\<lparr>con_sendQ := mq, con_lastsq := ucast (mq_length mq div 1024)\<rparr>) w2
                 in if IsBlocked (conn w3 to) then returning (update_write to w3) else send_loop e to w3)
             else if IsDead (conn w1 to) then
               dead_link e to (''Write error: '' @ (case strerror e (cli_error (conn w1 to)) of Some s \<Rightarrow> s | None \<Rightarrow> ''Unknown error'')) w1
             else returning w1))"

definition send_queued :: "senv \<Rightarrow> client \<Rightarrow> sworld \<Rightarrow> sworld run" where
  "send_queued e to w = (if IsBlocked (conn w to) \<or> \<not> can_send (conn w to) then returning w else send_loop e to w)"

text \<open>The connection after \<open>c\<close> in the list, as it is read after \<open>c\<close> was served: off the list there is none.\<close>

definition con_next :: "client \<Rightarrow> client list \<Rightarrow> client option" where
  "con_next c l = (case dropWhile (\<lambda>x. x \<noteq> c) l of c' # d # _ \<Rightarrow> Some d | _ \<Rightarrow> None)"

partial_function (option) flush_conns :: "senv \<Rightarrow> client option \<Rightarrow> sworld \<Rightarrow> sworld run" where
  "flush_conns e con w =
     (case con of None \<Rightarrow> returning w
      | Some c \<Rightarrow>
          if mq_length (con_sendQ (conn w c)) = 0 then Some (Inl Aborted)
          else run_bind (send_queued e c w) (\<lambda>w1. flush_conns e (con_next c (send_queues w1)) w1))"

definition flush_connections :: "senv \<Rightarrow> client option \<Rightarrow> sworld \<Rightarrow> sworld run" where
  "flush_connections e cptr w =
     (case cptr of Some c \<Rightarrow> send_queued e c w
      | None \<Rightarrow> flush_conns e (case send_queues w of [] \<Rightarrow> None | c # _ \<Rightarrow> Some c) w)"

definition highest_step :: "bool \<Rightarrow> sworld \<Rightarrow> client option \<Rightarrow> u32 \<times> client option \<Rightarrow> u32 \<times> client option" where
  "highest_step servers_too w slot acc =
     (case slot of None \<Rightarrow> acc
      | Some c \<Rightarrow>
          if \<not> servers_too \<and> con_serv (conn w c) then acc
          else if fst acc < mq_length (con_sendQ (conn w c)) then (mq_length (con_sendQ (conn w c)), Some c)
          else acc)"

definition kill_highest_sendq :: "senv \<Rightarrow> bool \<Rightarrow> sworld \<Rightarrow> sworld run" where
  "kill_highest_sendq e servers_too w =
     (case snd (fold (highest_step servers_too w) (rev (LocalClientArray w)) (0, None)) of
        None \<Rightarrow> returning w
      | Some c \<Rightarrow> dead_link e c ''Buffer allocation error'' w)"

definition send_buffer :: "senv \<Rightarrow> client \<Rightarrow> nat \<Rightarrow> bool \<Rightarrow> sworld \<Rightarrow> sworld run" where
  "send_buffer e target buf prio w =
     (let to = (case con_from (conn w target) of None \<Rightarrow> target | Some c \<Rightarrow> c) in
      if \<not> can_send (conn w to) then returning w
      else if get_sendq e to < unat (mq_length (con_sendQ (conn w to))) then
        dead_link e to ''Max sendQ exceeded'' (if IsServer (conn w to) then oper_notice e w else w)
      else
        run_bind (res_run (msgq_add (env_pool e) (con_sendQ (conn w to)) buf prio w)) (\<lambda>(mq, w1).
          let w2 = on_conn to (\<lambda>x. x\<lparr>con_sendQ := mq\<rparr>) w1;
              w3 = update_write to (client_add_sendq to w2);
              w4 = on_conn (me w3) (\<lambda>x. x\<lparr>con_sendM := con_sendM x + 1\<rparr>)
                     (on_conn to (\<lambda>x. x\<lparr>con_sendM := con_sendM x + 1\<rparr>) w3)
          in if unat (con_lastsq (conn w4 to)) < unat (mq_length (con_sendQ (conn w4 to)) div 1024)
             then send_queued e to w4 else returning w4))"

definition starving :: "senv \<Rightarrow> sworld starve" where
  "starving e = \<lparr>ferguson_flusher = env_flush e, flush_all = flush_connections e None, kill_sendq = kill_highest_sendq e\<rparr>"

definition sendrawto_one :: "senv \<Rightarrow> client \<Rightarrow> string \<Rightarrow> sworld \<Rightarrow> sworld run" where
  "sendrawto_one e to text w =
     run_bind (msgq_vmake (env_pool e) (starving e) text w) (\<lambda>(w1, mb).
     run_bind (send_buffer e to mb False w1) (msgq_clean mb))"

end
