(* ===== verification/Send_Inv.thy ===== *)
theory Send_Inv
  imports Send
begin

text \<open>
  The state of all outgoing queues, and what the operations of \<open>ircd/send.c\<close> keep of it.
\<close>

definition sendq :: "sworld \<Rightarrow> client \<Rightarrow> MsgQ" where
  "sendq w c = con_sendQ (conn w c)"

definition qrefs :: "sworld \<Rightarrow> nat multiset" where
  "qrefs w = (\<Sum>c \<in> set (send_queues w). refs (sendq w c))"

definition others :: "sworld \<Rightarrow> client \<Rightarrow> nat multiset" where
  "others w c = (\<Sum>d \<in> set (send_queues w) - {c}. refs (sendq w d))"

abbreviation unsent :: "sworld \<Rightarrow> client \<Rightarrow> string list" where
  "unsent w c \<equiv> pending (mbufs w) (sendq w c)"

text \<open>\<open>H\<close> are the messages that are being made.\<close>

definition sw_inv :: "senv \<Rightarrow> sworld \<Rightarrow> nat multiset \<Rightarrow> bool" where
  "sw_inv e w H \<longleftrightarrow>
     mq_inv w H (qrefs w) {} {} \<and> distinct (send_queues w) \<and> mbpool_ok (env_pool e) w
     \<and> msgs_used w = int (size (qrefs w)) \<and> msgs_slack w = 0
     \<and> (\<forall>c. q_inv (mbufs w) (sendq w c)
          \<and> (c \<in> set (send_queues w) \<longleftrightarrow> unsent w c \<noteq> [])
          \<and> length (concat (unsent w c)) \<le> get_sendq e c + 512
          \<and> (unsent w c \<noteq> [] \<and> \<not> IsDead (conn w c) \<longrightarrow> con_want_write (conn w c)))"

lemma sw_invD:
  assumes "sw_inv e w H"
  shows "mq_inv w H (qrefs w) {} {}" "distinct (send_queues w)" "mbpool_ok (env_pool e) w" "msgs_used w = int (size (qrefs w))" "msgs_slack w = 0"
    "q_inv (mbufs w) (sendq w c)" "c \<in> set (send_queues w) \<longleftrightarrow> unsent w c \<noteq> []" "length (concat (unsent w c)) \<le> get_sendq e c + 512"
    "unsent w c \<noteq> [] \<Longrightarrow> \<not> IsDead (conn w c) \<Longrightarrow> con_want_write (conn w c)"
  using assms unfolding sw_inv_def by blast+

lemma pending_Nil: "pending h mq = [] \<longleftrightarrow> refs mq = {#}"
  unfolding mset_order [symmetric] by (simp add: pending_def)

lemma qrefs_split:
  assumes "\<And>d. d \<in> set (send_queues w) \<longleftrightarrow> unsent w d \<noteq> []"
  shows "qrefs w = refs (sendq w c) + others w c"
proof (cases "c \<in> set (send_queues w)")
  case True
  then show ?thesis by (simp add: qrefs_def others_def sum.remove)
next
  case False
  then have "refs (sendq w c) = {#}" using assms pending_Nil by metis
  then show ?thesis using False by (simp add: qrefs_def others_def)
qed

text \<open>Of a connection, only these parts matter for the invariant.\<close>

definition same_conn :: "sconn \<Rightarrow> sconn \<Rightarrow> bool" where
  "same_conn x y \<longleftrightarrow> con_sendQ x = con_sendQ y \<and> con_want_write x = con_want_write y \<and> IsDead x = IsDead y \<and> con_wire x = con_wire y"

lemma same_conn_refl [simp]: "same_conn x x" by (simp add: same_conn_def)

text \<open>One connection changes.\<close>

lemma sw_change:
  assumes i: "sw_inv e w H" and o: "\<And>d. d \<noteq> c \<Longrightarrow> same_conn (conn w' d) (conn w d)"
    and m: "mq_inv w' H' (refs (sendq w' c) + others w c) {} {}"
    and t: "\<And>a. a \<in># others w c \<Longrightarrow> mb_text (mbufs w') a = mb_text (mbufs w) a"
    and q: "q_inv (mbufs w') (sendq w' c)"
    and l: "distinct (send_queues w')" "set (send_queues w') = (if unsent w' c = [] then set (send_queues w) - {c} else insert c (set (send_queues w)))"
    and s: "length (concat (unsent w' c)) \<le> get_sendq e c + 512"
    and ww: "unsent w' c \<noteq> [] \<Longrightarrow> \<not> IsDead (conn w' c) \<Longrightarrow> con_want_write (conn w' c)"
    and p: "mbpool_ok (env_pool e) w'" and u: "msgs_used w' - int (size (refs (sendq w' c))) = msgs_used w - int (size (refs (sendq w c)))" "msgs_slack w' = msgs_slack w"
  shows "sw_inv e w' H'"
proof -
  note D = sw_invD [OF i]
  have sq: "sendq w' d = sendq w d" if "d \<noteq> c" for d using o [OF that] by (simp add: sendq_def same_conn_def)
  have "others w' c = others w c"
  proof -
    have "set (send_queues w') - {c} = set (send_queues w) - {c}" using l(2) by (auto split: if_splits)
    then show ?thesis unfolding others_def by (simp add: sq)
  qed
  note oth = this
  have sub: "refs (sendq w d) \<subseteq># others w c" if "d \<noteq> c" "d \<in> set (send_queues w)" for d
    using that by (simp add: others_def sum.remove [of _ d])
  have same: "unsent w' d = unsent w d" "q_inv (mbufs w') (sendq w' d) = q_inv (mbufs w) (sendq w d)" if "d \<noteq> c" for d
  proof -
    have "mb_text (mbufs w') a = mb_text (mbufs w) a" if "a \<in># refs (sendq w d)" for a
    proof -
      have "unsent w d \<noteq> []" using that unfolding pending_Nil by auto
      then have "refs (sendq w d) \<subseteq># others w c" using sub [OF \<open>d \<noteq> c\<close>] D(7) by blast
      then show ?thesis using t that by (meson mset_subset_eqD)
    qed
    then show "unsent w' d = unsent w d" "q_inv (mbufs w') (sendq w' d) = q_inv (mbufs w) (sendq w d)"
      using pending_cong [of "sendq w d" "mbufs w'" "mbufs w"] by (simp_all add: sq [OF that])
  qed
  have mem: "d \<in> set (send_queues w') \<longleftrightarrow> unsent w' d \<noteq> []" for d
    using l(2) same(1) [of d] D(7) [of d] by (cases "d = c") (auto split: if_splits)
  have Q: "qrefs w' = refs (sendq w' c) + others w c" using qrefs_split [OF mem, of c] oth by simp
  have Q0: "qrefs w = refs (sendq w c) + others w c" using qrefs_split [OF D(7), of c] .
  have "q_inv (mbufs w') (sendq w' d) \<and> (d \<in> set (send_queues w') \<longleftrightarrow> unsent w' d \<noteq> []) \<and> length (concat (unsent w' d)) \<le> get_sendq e d + 512
      \<and> (unsent w' d \<noteq> [] \<and> \<not> IsDead (conn w' d) \<longrightarrow> con_want_write (conn w' d))" for d
    using mem [of d] q s ww same [of d] D(6,8,9) [of d] o [of d] by (cases "d = c") (auto simp: same_conn_def)
  then show ?thesis unfolding sw_inv_def using m l(1) p u D(4,5) by (simp add: Q Q0)
qed

section \<open>Changes of connections\<close>

lemma on_conn_sel [simp]:
  "mbufs (on_conn c f w) = mbufs w" "send_queues (on_conn c f w) = send_queues w" "me (on_conn c f w) = me w"
  "msgs_used (on_conn c f w) = msgs_used w" "msgs_slack (on_conn c f w) = msgs_slack w" "mbpool_ok n (on_conn c f w) = mbpool_ok n w"
  "mq_inv (on_conn c f w) H Q L C = mq_inv w H Q L C" "conn (on_conn c f w) d = (if d = c then f (conn w c) else conn w d)"
  by (simp_all add: on_conn_def msgs_slack_def mbpool_ok_def mq_inv_def count_inv_def)

lemma flag_conn_sel [simp]:
  "con_sendQ (SetFlag x f) = con_sendQ x" "con_sendQ (ClrFlag x f) = con_sendQ x" "con_wire (SetFlag x f) = con_wire x" "con_wire (ClrFlag x f) = con_wire x"
  "con_want_write (SetFlag x f) = con_want_write x" "con_want_write (ClrFlag x f) = con_want_write x"
  "con_recvQ (SetFlag x f) = con_recvQ x" "con_fd (SetFlag x f) = con_fd x" "con_fd (ClrFlag x f) = con_fd x"
  by (simp_all add: SetFlag_def ClrFlag_def)

lemma HasFlag_upd [simp]:
  "HasFlag (x\<lparr>con_wire := a\<rparr>) f = HasFlag x f" "HasFlag (x\<lparr>con_sendQ := b\<rparr>) f = HasFlag x f" "HasFlag (x\<lparr>con_want_write := d\<rparr>) f = HasFlag x f"
  "HasFlag (x\<lparr>con_lastsq := l\<rparr>) f = HasFlag x f" "HasFlag (x\<lparr>con_sendM := n\<rparr>) f = HasFlag x f" "HasFlag (y\<lparr>cli_error := er\<rparr>) f = HasFlag y f"
  by (simp_all add: HasFlag_def)

lemma drop_sendq_sel [simp]:
  "mbufs (client_drop_sendq c w) = mbufs w" "send_queues (client_drop_sendq c w) = remove1 c (send_queues w)" "me (client_drop_sendq c w) = me w"
  "msgs_used (client_drop_sendq c w) = msgs_used w" "msgs_slack (client_drop_sendq c w) = msgs_slack w"
  "mbpool_ok n (client_drop_sendq c w) = mbpool_ok n w" "mq_inv (client_drop_sendq c w) H Q L C = mq_inv w H Q L C"
  "conn (client_drop_sendq c w) = conn w"
  by (simp_all add: client_drop_sendq_def msgs_slack_def mbpool_ok_def mq_inv_def count_inv_def)

lemma add_sendq_sel [simp]:
  "mbufs (client_add_sendq c w) = mbufs w" "set (send_queues (client_add_sendq c w)) = insert c (set (send_queues w))" "me (client_add_sendq c w) = me w"
  "distinct (send_queues (client_add_sendq c w)) = distinct (send_queues w)"
  "msgs_used (client_add_sendq c w) = msgs_used w" "msgs_slack (client_add_sendq c w) = msgs_slack w"
  "mbpool_ok n (client_add_sendq c w) = mbpool_ok n w" "mq_inv (client_add_sendq c w) H Q L C = mq_inv w H Q L C"
  "conn (client_add_sendq c w) = conn w"
  by (auto simp: client_add_sendq_def msgs_slack_def mbpool_ok_def mq_inv_def count_inv_def)

lemma dbufs_sel [simp]:
  "mbufs (w\<lparr>dbufs := p\<rparr>) = mbufs w" "msgs_slack (w\<lparr>dbufs := p\<rparr>) = msgs_slack w" "mbpool_ok n (w\<lparr>dbufs := p\<rparr>) = mbpool_ok n w"
  "mq_inv (w\<lparr>dbufs := p\<rparr>) H Q L C = mq_inv w H Q L C"
  by (simp_all add: msgs_slack_def mbpool_ok_def mq_inv_def count_inv_def)

text \<open>What an operation on the messages of one queue leaves of the rest.\<close>

lemma more_sel:
  assumes "MQData.more w' = MQData.more w"
  shows "conn w' = conn w" "send_queues w' = send_queues w" "me w' = me w" "dbufs w' = dbufs w" "LocalClientArray w' = LocalClientArray w"
  using assms by (cases w; cases w'; simp)+

text \<open>
  What is relied on: \<open>writev\<close> takes no more than it is offered, limits are below \<open>2 ^ 32\<close>, and notices
  keep the invariant, as other messages do, and are not queued for dead connections.
\<close>

definition env_ok :: "senv \<Rightarrow> bool" where
  "env_ok e \<longleftrightarrow>
     0 < IOV_MAX e \<and> (\<forall>w c iov. fst (writev e w c iov) \<le> int (length (concat iov)))
     \<and> (\<forall>c. get_sendq e c + 512 < 2 ^ 32) \<and> (\<forall>w H. sw_inv e w H \<longrightarrow> sw_inv e (oper_notice e w) H)
     \<and> (\<forall>w c. IsDead (conn w c) \<longrightarrow> c \<notin> set (send_queues w) \<longrightarrow> c \<notin> set (send_queues (oper_notice e w)))"

lemma unsent_small: "env_ok e \<Longrightarrow> sw_inv e w H \<Longrightarrow> length (concat (unsent w c)) < 2 ^ 32"
  using sw_invD(8) [of e w H c] by (metis env_ok_def le_less_trans)

lemma drop_bytes_all:
  assumes "\<forall>x \<in> set l. x \<noteq> []"
  shows "drop_bytes (length (concat l)) l = []"
  using assms by (induction l) auto

lemma dying_text: "mq_inv w' H (Q + R) {} {} \<Longrightarrow> dying (mbufs w) (mbufs w') \<Longrightarrow> a \<in># R \<Longrightarrow> mb_text (mbufs w') a = mb_text (mbufs w) a"
proof -
  assume i: "mq_inv w' H (Q + R) {} {}" and d: "dying (mbufs w) (mbufs w')" and a: "a \<in># R"
  have "heap_inv (mbufs w') H (Q + R)" using i by (simp add: mq_inv_def)
  then have "0 < refcount (mbufs w') a" using a referenced [of "mbufs w'" H "Q + R" a] by (auto simp: refcount_pos)
  then show ?thesis using d by (simp add: dying_def)
qed

lemma mq_length_unat:
  assumes "q_inv h mq" "length (concat (pending h mq)) < 2 ^ 32"
  shows "unat (mq_length mq) = length (concat (pending h mq))"
  using assms by (simp add: q_inv_def unat_of_nat take_bit_eq_mod)

lemma MsgQClear_ok:
  assumes i: "mq_inv w H (refs mq + Qo) {} {}" and q: "q_inv (mbufs w) mq" and s: "length (concat (pending (mbufs w) mq)) < 2 ^ 32"
  obtains mq' w' where "MsgQClear mq w = returning (mq', w')" "mq_inv w' H (refs mq' + Qo) {} {}" "q_inv (mbufs w') mq'" "refs mq' = {#}" "q_frame w mq w' mq'"
proof -
  have l: "unat (mq_length mq) = length (concat (pending (mbufs w) mq))" by (rule mq_length_unat [OF q s])
  obtain mq' w' where d: "msgq_delete mq (unat (mq_length mq)) w = returning (mq', w')" "mq_inv w' H (refs mq' + Qo) {} {}" "q_inv (mbufs w') mq'"
    "pending (mbufs w') mq' = drop_bytes (unat (mq_length mq)) (pending (mbufs w) mq)" "q_frame w mq w' mq'"
    using delete_ok [OF i q] by blast
  have "\<forall>x \<in> set (pending (mbufs w) mq). x \<noteq> []" using q by (auto simp: q_inv_def pending_def)
  then have "pending (mbufs w') mq' = []" using d(4) drop_bytes_all l by simp
  then show ?thesis using that d by (simp add: MsgQClear_def pending_Nil)
qed

lemma dead_link_ok:
  assumes e: "env_ok e" and i: "sw_inv e w H"
  obtains w' where "dead_link e c n w = returning w'" "sw_inv e w' H" "c \<notin> set (send_queues w')"
proof -
  note D = sw_invD [OF i]
  let ?w1 = "on_conn c (\<lambda>x. SetFlag x FLAG_DEADSOCKET) w"
  let ?rq = "con_recvQ (conn ?w1 c)"
  obtain p rq where dd: "dbuf_delete (dbufs ?w1) ?rq (dyn_length ?rq) = (p, rq)" by force
  define w2 where w2: "w2 = on_conn c (\<lambda>x. x\<lparr>con_recvQ := rq\<rparr>) (?w1\<lparr>dbufs := p\<rparr>)"
  have c2: "sendq w2 d = sendq w d" "IsDead (conn w2 d) \<longleftrightarrow> d = c \<or> IsDead (conn w d)" "con_want_write (conn w2 d) = con_want_write (conn w d)"
    "con_wire (conn w2 d) = con_wire (conn w d)" for d
    by (auto simp: w2 on_conn_def sendq_def SetFlag_def HasFlag_def)
  have m2: "mbufs w2 = mbufs w" "send_queues w2 = send_queues w" "msgs_used w2 = msgs_used w" "msgs_slack w2 = msgs_slack w" "mbpool_ok n w2 = mbpool_ok n w"
    "mq_inv w2 H Q L C = mq_inv w H Q L C" for n H Q L C by (simp_all add: w2)
  have Q: "qrefs w = refs (sendq w c) + others w c" by (rule qrefs_split [OF D(7)])
  have i2: "mq_inv w2 H (refs (sendq w c) + others w c) {} {}" using D(1) Q by (simp add: m2)
  obtain mq w3 where k: "MsgQClear (sendq w c) w2 = returning (mq, w3)" "mq_inv w3 H (refs mq + others w c) {} {}" "q_inv (mbufs w3) mq" "refs mq = {#}"
    "q_frame w2 (sendq w c) w3 mq"
    using MsgQClear_ok [OF i2, unfolded m2, OF D(6) unsent_small [OF e i]] by blast
  have fr: "conn w3 = conn w2" "send_queues w3 = send_queues w" using more_sel [of w3 w2] k(5) m2(2) by (auto simp: q_frame_def)
  define w5 where w5: "w5 = on_conn c (\<lambda>x. x\<lparr>con_info := take REALLEN n\<rparr>) (client_drop_sendq c (on_conn c (\<lambda>x. x\<lparr>con_sendQ := mq\<rparr>) w3))"
  have sq: "sendq w5 c = mq" by (simp add: w5 sendq_def)
  have un: "unsent w5 c = []" using k(4) by (simp add: sq pending_Nil)
  have "sw_inv e w5 H"
  proof (rule sw_change [OF i, where c = c])
    show "same_conn (conn w5 d) (conn w d)" if "d \<noteq> c" for d
      using that c2 [of d] by (simp add: w5 fr same_conn_def sendq_def)
    show "mq_inv w5 H (refs (sendq w5 c) + others w c) {} {}" using k(2) by (simp add: sq) (simp add: w5)
    show "q_inv (mbufs w5) (sendq w5 c)" using k(3) by (simp add: sq) (simp add: w5)
    show "mb_text (mbufs w5) a = mb_text (mbufs w) a" if "a \<in># others w c" for a
      using dying_text [OF k(2) _ that, of w2] k(5) m2(1) by (simp add: q_frame_def w5)
    show "distinct (send_queues w5)" "set (send_queues w5) = (if unsent w5 c = [] then set (send_queues w) - {c} else insert c (set (send_queues w)))"
      using D(2) un by (simp_all add: w5 fr)
    show "mbpool_ok (env_pool e) w5" using D(3) k(5) m2(5) by (simp add: w5) (simp add: q_frame_def mbpool_ok_def)
    show "msgs_used w5 - int (size (refs (sendq w5 c))) = msgs_used w - int (size (refs (sendq w c)))"
      using k(5) m2(3) by (simp add: sq) (simp add: w5 q_frame_def)
    show "msgs_slack w5 = msgs_slack w" using k(5) m2(4) by (simp add: w5 q_frame_def)
  qed (simp_all add: un)
  moreover have "conn w5 c = (conn w3 c)\<lparr>con_sendQ := mq, con_info := take REALLEN n\<rparr>" by (simp add: w5)
  then have "dead_link e c n w = returning (let x = conn w5 c in if \<not> IsUser x \<and> \<not> IsUnknown x \<and> \<not> HasFlag x FLAG_CLOSING then oper_notice e w5 else w5)"
    using dd k(1) c2(1) [of c] by (simp add: dead_link_def Let_def w2 [symmetric] w5 [symmetric] sendq_def)
  moreover have "sw_inv e (oper_notice e w5) H" if "sw_inv e w5 H" using e that by (simp add: env_ok_def)
  moreover have "c \<notin> set (send_queues w5)" "IsDead (conn w5 c)" using un sw_invD(7) [OF \<open>sw_inv e w5 H\<close>, of c] c2(2) [of c] by (simp, simp add: w5 fr HasFlag_def)
  moreover from this have "c \<notin> set (send_queues (oper_notice e w5))" using e by (simp add: env_ok_def)
  ultimately show ?thesis using that [OF _ \<open>sw_inv e w5 H\<close>] that by (simp add: Let_def split: if_splits)
qed

section \<open>Serving one connection\<close>

text \<open>The bytes of \<open>c\<close> move from its queue to its socket in order; nothing else changes hands.\<close>

definition served :: "client \<Rightarrow> sworld \<Rightarrow> sworld \<Rightarrow> bool" where
  "served c w w' \<longleftrightarrow>
     con_wire (conn w' c) @ concat (unsent w' c) = con_wire (conn w c) @ concat (unsent w c) \<and> (IsDead (conn w' c) = IsDead (conn w c))
     \<and> (\<forall>d. d \<noteq> c \<longrightarrow> same_conn (conn w' d) (conn w d) \<and> unsent w' d = unsent w d) \<and> dying (mbufs w) (mbufs w')"

lemma served_refl [simp]: "served c w w" by (simp add: served_def)

lemma served_trans: "served c u v \<Longrightarrow> served c v w \<Longrightarrow> served c u w"
  by (auto simp: served_def same_conn_def intro: dying_trans)

definition sound_socket :: "senv \<Rightarrow> client \<Rightarrow> bool" where
  "sound_socket e c \<longleftrightarrow> (\<forall>w iov. -1 < fst (writev e w c iov) \<or> snd (writev e w c iov) \<in> {EAGAIN, ENOMEM, ENOBUFS})"

text \<open>A socket that always takes everything.\<close>

definition eager_socket :: "senv \<Rightarrow> client \<Rightarrow> bool" where
  "eager_socket e c \<longleftrightarrow> (\<forall>w iov. fst (writev e w c iov) = int (length (concat iov)))"

lemma eager_sound: "eager_socket e c \<Longrightarrow> sound_socket e c"
  by (simp add: eager_socket_def sound_socket_def)

lemma count_sent_sel [simp]:
  "con_sendQ (count_sent n x) = con_sendQ x" "con_wire (count_sent n x) = con_wire x" "con_want_write (count_sent n x) = con_want_write x"
  "HasFlag (count_sent n x) f = HasFlag x f"
  by (simp_all add: count_sent_def Let_def HasFlag_def)

lemma take_concat_take:
  assumes "n \<le> length (concat (take k l))"
  shows "take n (concat (take k l)) = take n (concat l)"
proof -
  have "concat l = concat (take k l) @ concat (drop k l)" by (metis append_take_drop_id concat_append)
  then show ?thesis using assms by simp
qed

lemma concat_take_le: "length (concat (take k l)) \<le> length (concat l)"
  by (metis append_take_drop_id concat_append length_append le_add1)

text \<open>\<open>deliver_it\<close> changes flags and statistics, and gives the socket the first bytes of the queue.\<close>

lemma deliver_ok:
  assumes e: "env_ok e" and i: "sw_inv e w H" and ne: "unsent w c \<noteq> []"
  obtains w1 len where "deliver_it e c w = Inr (w1, len)" "unat len \<le> length (concat (unsent w c))"
    "con_wire (conn w1 c) = con_wire (conn w c) @ take (unat len) (concat (unsent w c))"
    "mbufs w1 = mbufs w" "send_queues w1 = send_queues w" "sendq w1 = sendq w" "\<forall>d. d \<noteq> c \<longrightarrow> same_conn (conn w1 d) (conn w d)"
    "con_want_write (conn w1 c) = con_want_write (conn w c)" "IsDead (conn w c) \<longrightarrow> IsDead (conn w1 c)" "sound_socket e c \<longrightarrow> IsDead (conn w1 c) = IsDead (conn w c)"
    "len = 0 \<longrightarrow> IsBlocked (conn w1 c) \<or> IsDead (conn w1 c)" "0 < len \<longrightarrow> IsBlocked (conn w1 c) \<longrightarrow> unat len < length (concat (unsent w c))" "0 < len \<longrightarrow> IsDead (conn w1 c) = IsDead (conn w c)"
    "\<forall>H Q L C. mq_inv w1 H Q L C = mq_inv w H Q L C" "msgs_used w1 = msgs_used w" "msgs_slack w1 = msgs_slack w" "\<forall>n. mbpool_ok n w1 = mbpool_ok n w"
    "eager_socket e c \<longrightarrow> \<not> IsBlocked (conn w1 c)"
proof -
  note D = sw_invD [OF i]
  let ?iov = "take (IOV_MAX e) (unsent w c)"
  have room: "0 < IOV_MAX e" using e by (simp add: env_ok_def)
  have m: "msgq_mapiov (sendq w c) (IOV_MAX e) 0 w = Inr (?iov, of_nat (length (concat ?iov)))"
  proof (rule mapiov_ok [OF _ D(6) room unsent_small [OF e i]])
    show "mq_inv w H (refs (sendq w c) + others w c) {} {}" using D(1) qrefs_split [OF D(7), of c] by simp
  qed
  obtain r errno where wr: "writev e w c ?iov = (r, errno)" by fastforce
  have rl: "r \<le> int (length (concat ?iov))" using e wr by (metis env_ok_def fst_conv)
  have tl: "length (concat ?iov) \<le> length (concat (unsent w c))" by (rule concat_take_le)
  have small: "length (concat ?iov) < 2 ^ 32" using tl unsent_small [OF e i, of c] by linarith
  show ?thesis
  proof (cases "-1 < r")
    case True
    let ?w1 = "on_conn c (\<lambda>x. x\<lparr>con_wire := con_wire x @ take (nat r) (concat ?iov)\<rparr>) w"
    let ?w3 = "on_conn (me w) (count_sent (of_int r)) (on_conn c (count_sent (of_int r)) (on_conn c (\<lambda>x. ClrFlag x FLAG_BLOCKED) ?w1))"
    let ?w4 = "if (of_int r :: u32) < of_nat (length (concat ?iov)) then on_conn c (\<lambda>x. SetFlag x FLAG_BLOCKED) ?w3 else ?w3"
    have n: "nat r \<le> length (concat ?iov)" "(of_int r :: u32) = of_nat (nat r)" using rl True by (simp_all add: nat_le_iff)
    have un: "unat (of_int r :: u32) = nat r" unfolding n(2) using n(1) small by (simp add: unat_of_nat take_bit_eq_mod)
    have lt: "(of_int r :: u32) < of_nat (length (concat ?iov)) \<longleftrightarrow> nat r < length (concat ?iov)"
      unfolding word_less_nat_alt un using small by (simp add: unat_of_nat take_bit_eq_mod)
    have "hd (unsent w c) \<noteq> []" using D(6) [of c] ne by (cases "order (sendq w c)") (auto simp: q_inv_def pending_def)
    then have "0 < length (concat ?iov)" using ne room by (cases "unsent w c"; cases "IOV_MAX e") auto
    then have bl: "(of_int r :: u32) = 0 \<longrightarrow> IsBlocked (conn ?w4 c)" using un lt by auto
    have "deliver_it e c w = Inr (?w4, of_int r)"
      using m wr True by (simp add: deliver_it_def os_sendv_nonb_def sendq_def)
    moreover have "con_wire (conn ?w4 c) = con_wire (conn w c) @ take (nat r) (concat (unsent w c))"
      using take_concat_take [OF n(1)] by simp
    moreover have "IsBlocked (conn ?w4 c) \<longrightarrow> nat r < length (concat (unsent w c))" using lt tl by auto
    moreover have "eager_socket e c \<longrightarrow> \<not> IsBlocked (conn ?w4 c)"
    proof
      assume "eager_socket e c"
      then have "r = int (length (concat ?iov))" using wr unfolding eager_socket_def by (metis fst_conv)
      then show "\<not> IsBlocked (conn ?w4 c)" using lt by simp
    qed
    ultimately show ?thesis using n(1) tl un bl
      by (intro that [of ?w4 "of_int r"]) (simp_all add: fun_eq_iff sendq_def same_conn_def)
  next
    case False
    have ne: "\<not> eager_socket e c"
    proof
      assume "eager_socket e c"
      then have "r = int (length (concat ?iov))" using wr unfolding eager_socket_def by (metis fst_conv)
      then show False using False by simp
    qed
    show ?thesis
    proof (cases "errno \<in> {EAGAIN, ENOMEM, ENOBUFS}")
      case True
      let ?w4 = "on_conn c (\<lambda>x. SetFlag x FLAG_BLOCKED) w"
      have "deliver_it e c w = Inr (?w4, 0)"
        using m wr False True by (auto simp: deliver_it_def os_sendv_nonb_def sendq_def)
      then show ?thesis using ne by (intro that [of ?w4 0]) (simp_all add: fun_eq_iff sendq_def same_conn_def)
    next
      case f: False
      let ?w4 = "on_conn c (\<lambda>x. SetFlag (x\<lparr>cli_error := errno\<rparr>) FLAG_DEADSOCKET) w"
      have "deliver_it e c w = Inr (?w4, 0)"
        using m wr False f by (auto simp: deliver_it_def os_sendv_nonb_def sendq_def)
      moreover have "\<not> sound_socket e c" using wr False f unfolding sound_socket_def by (metis fst_conv snd_conv)
      ultimately show ?thesis using ne by (intro that [of ?w4 0]) (simp_all add: fun_eq_iff sendq_def same_conn_def)
    qed
  qed
qed

text \<open>Between two rounds of the loop an emptied queue is still on the list.\<close>

definition tidy :: "client \<Rightarrow> sworld \<Rightarrow> sworld" where
  "tidy c w = (if unsent w c = [] then client_drop_sendq c w else w)"

lemma tidy_sel [simp]: "conn (tidy c w) = conn w" "mbufs (tidy c w) = mbufs w" "sendq (tidy c w) = sendq w"
  by (simp_all add: tidy_def sendq_def fun_eq_iff)

lemma tidy_id: "unsent w c \<noteq> [] \<Longrightarrow> tidy c w = w" by (simp add: tidy_def)

lemma mq_length_0:
  assumes "q_inv h mq" "length (concat (pending h mq)) < 2 ^ 32"
  shows "mq_length mq = 0 \<longleftrightarrow> pending h mq = []"
proof -
  have "mq_length mq = 0 \<longleftrightarrow> concat (pending h mq) = []" using mq_length_unat [OF assms] by (metis length_0_conv unat_eq_zero)
  also have "\<dots> \<longleftrightarrow> pending h mq = []" using assms(1) by (cases "order mq") (auto simp: q_inv_def pending_def)
  finally show ?thesis .
qed

lemma update_write_sel [simp]:
  "mbufs (update_write c w) = mbufs w" "send_queues (update_write c w) = send_queues w" "sendq (update_write c w) = sendq w"
  "con_wire (conn (update_write c w) d) = con_wire (conn w d)" "HasFlag (conn (update_write c w) d) f = HasFlag (conn w d) f"
  "d \<noteq> c \<Longrightarrow> conn (update_write c w) d = conn w d"
  by (simp_all add: update_write_def sendq_def fun_eq_iff)

text \<open>Changes that touch no queue.\<close>

lemma sw_stay:
  assumes i: "sw_inv e w H" and m: "mbufs w' = mbufs w" "send_queues w' = send_queues w" "sendq w' = sendq w"
    "\<forall>H Q L C. mq_inv w' H Q L C = mq_inv w H Q L C" "msgs_used w' = msgs_used w" "msgs_slack w' = msgs_slack w" "\<forall>n. mbpool_ok n w' = mbpool_ok n w"
    and d: "\<And>d. unsent w d \<noteq> [] \<Longrightarrow> \<not> IsDead (conn w' d) \<Longrightarrow> con_want_write (conn w' d)"
  shows "sw_inv e w' H"
proof -
  have "qrefs w' = qrefs w" using m by (simp add: qrefs_def)
  then show ?thesis using i d unfolding sw_inv_def by (simp add: m)
qed

lemma update_write_ok:
  assumes "env_ok e" "sw_inv e w H"
  shows "sw_inv e (update_write c w) H"
proof (rule sw_stay [OF assms(2)])
  show "con_want_write (conn (update_write c w) d)" if "unsent w d \<noteq> []" "\<not> IsDead (conn (update_write c w) d)" for d
    using that mq_length_0 [OF sw_invD(6) [OF assms(2), of d] unsent_small [OF assms]] sw_invD(9) [OF assms(2), of d]
    by (cases "d = c") (auto simp: update_write_def sendq_def)
qed (simp_all, simp_all add: update_write_def)

lemma deliver_inv:
  assumes i: "sw_inv e w H" and "mbufs w1 = mbufs w" "send_queues w1 = send_queues w" "sendq w1 = sendq w" "\<forall>d. d \<noteq> c \<longrightarrow> same_conn (conn w1 d) (conn w d)"
    "con_want_write (conn w1 c) = con_want_write (conn w c)" "IsDead (conn w c) \<longrightarrow> IsDead (conn w1 c)"
    "\<forall>H Q L C. mq_inv w1 H Q L C = mq_inv w H Q L C" "msgs_used w1 = msgs_used w" "msgs_slack w1 = msgs_slack w" "\<forall>n. mbpool_ok n w1 = mbpool_ok n w"
  shows "sw_inv e w1 H"
proof (rule sw_stay [OF i assms(2-4,8-11)])
  show "con_want_write (conn w1 d)" if "unsent w d \<noteq> []" "\<not> IsDead (conn w1 d)" for d
    using that assms(5-7) sw_invD(9) [OF i, of d] by (cases "d = c") (auto simp: same_conn_def)
qed

text \<open>One round: the queue loses what the socket took.\<close>

lemma delete_round:
  assumes e: "env_ok e" and i: "sw_inv e w H" and c: "c \<in> set (send_queues w)" and len: "n \<le> length (concat (unsent w c))"
  obtains mq w2 where "msgq_delete (sendq w c) n w = returning (mq, w2)"
    "\<And>q w3. w3 = on_conn c (\<lambda>x. x\<lparr>con_sendQ := mq, con_lastsq := q\<rparr>) w2 \<Longrightarrow>
       sw_inv e (tidy c w3) H \<and> concat (unsent w3 c) = drop n (concat (unsent w c)) \<and> send_queues w3 = send_queues w
       \<and> (\<forall>d. d \<noteq> c \<longrightarrow> conn w3 d = conn w d \<and> unsent w3 d = unsent w d) \<and> con_wire (conn w3 c) = con_wire (conn w c)
       \<and> (\<forall>f. HasFlag (conn w3 c) f = HasFlag (conn w c) f) \<and> dying (mbufs w) (mbufs w3)"
proof -
  note D = sw_invD [OF i]
  have Q: "qrefs w = refs (sendq w c) + others w c" by (rule qrefs_split [OF D(7)])
  have i1: "mq_inv w H (refs (sendq w c) + others w c) {} {}" using D(1) Q by simp
  obtain mq w2 where d: "msgq_delete (sendq w c) n w = returning (mq, w2)" "mq_inv w2 H (refs mq + others w c) {} {}" "q_inv (mbufs w2) mq"
    "pending (mbufs w2) mq = drop_bytes n (unsent w c)" "q_frame w (sendq w c) w2 mq"
    using delete_ok [OF i1 D(6)] by blast
  have fr: "conn w2 = conn w" "send_queues w2 = send_queues w" "dying (mbufs w) (mbufs w2)" using more_sel [of w2 w] d(5) by (auto simp: q_frame_def)
  have main: "sw_inv e (tidy c w3) H \<and> concat (unsent w3 c) = drop n (concat (unsent w c)) \<and> send_queues w3 = send_queues w
       \<and> (\<forall>d. d \<noteq> c \<longrightarrow> conn w3 d = conn w d \<and> unsent w3 d = unsent w d) \<and> con_wire (conn w3 c) = con_wire (conn w c)
       \<and> (\<forall>f. HasFlag (conn w3 c) f = HasFlag (conn w c) f) \<and> dying (mbufs w) (mbufs w3)"
    if w3: "w3 = on_conn c (\<lambda>x. x\<lparr>con_sendQ := mq, con_lastsq := q\<rparr>) w2" for q w3
  proof -
    have sq: "sendq w3 c = mq" "mbufs w3 = mbufs w2" by (simp_all add: w3 sendq_def)
    have cat: "concat (unsent w3 c) = drop n (concat (unsent w c))" using d(4) by (simp add: sq concat_drop_bytes)
    have tx: "mb_text (mbufs w2) a = mb_text (mbufs w) a" if "a \<in># others w c" for a using dying_text [OF d(2) fr(3) that] .
    have un: "unsent w3 x = unsent w x" if "x \<noteq> c" for x
    proof -
      have "refs (sendq w x) \<subseteq># others w c" if "unsent w x \<noteq> []"
        using that D(7) [of x] \<open>x \<noteq> c\<close> by (simp add: others_def sum.remove [of _ x])
      then have "\<And>a. a \<in># refs (sendq w x) \<Longrightarrow> mb_text (mbufs w2) a = mb_text (mbufs w) a"
        using tx pending_Nil [of "mbufs w" "sendq w x"] by (metis empty_iff mset_subset_eqD set_mset_empty)
      then have "pending (mbufs w2) (sendq w x) = unsent w x" by (rule pending_cong(1))
      then show ?thesis using that by (simp add: w3 sendq_def fr)
    qed
    have "sw_inv e (tidy c w3) H"
    proof (rule sw_change [OF i, where c = c])
      show "same_conn (conn (tidy c w3) x) (conn w x)" if "x \<noteq> c" for x using that by (simp add: w3 fr)
      show "mq_inv (tidy c w3) H (refs (sendq (tidy c w3) c) + others w c) {} {}" unfolding tidy_sel sq using d(2) by (simp add: tidy_def w3)
      show "q_inv (mbufs (tidy c w3)) (sendq (tidy c w3) c)" using d(3) by (simp add: sq)
      show "mb_text (mbufs (tidy c w3)) a = mb_text (mbufs w) a" if "a \<in># others w c" for a using tx [OF that] by (simp add: sq)
      show "distinct (send_queues (tidy c w3))" using D(2) by (simp add: tidy_def w3 fr)
      show "set (send_queues (tidy c w3)) = (if unsent (tidy c w3) c = [] then set (send_queues w) - {c} else insert c (set (send_queues w)))"
        unfolding tidy_sel using c D(2) by (auto simp: tidy_def) (auto simp: w3 fr)
      show "length (concat (unsent (tidy c w3) c)) \<le> get_sendq e c + 512" using D(8) [of c] cat by simp
      show "con_want_write (conn (tidy c w3) c)" if "unsent (tidy c w3) c \<noteq> []" "\<not> IsDead (conn (tidy c w3) c)"
        using that D(9) [of c] c D(7) [of c] by (simp add: w3 fr)
      show "mbpool_ok (env_pool e) (tidy c w3)" using D(3) d(5) by (simp add: tidy_def w3) (simp add: q_frame_def mbpool_ok_def)
      show "msgs_used (tidy c w3) - int (size (refs (sendq (tidy c w3) c))) = msgs_used w - int (size (refs (sendq w c)))"
        unfolding tidy_sel sq using d(5) by (simp add: tidy_def w3 q_frame_def)
      show "msgs_slack (tidy c w3) = msgs_slack w" using d(5) by (simp add: tidy_def w3 q_frame_def)
    qed
    then show ?thesis using cat un by (simp add: w3 fr)
  qed
  show ?thesis using that [OF d(1) main] .
qed

lemma send_loop_ok:
  assumes "env_ok e" "sw_inv e (tidy c w) H" "unsent w c \<noteq> [] \<longrightarrow> c \<in> set (send_queues w)" "\<not> IsDead (conn w c)"
  shows "\<exists>w'. send_loop e c w = returning w' \<and> sw_inv e w' H
     \<and> (sound_socket e c \<longrightarrow> served c w w' \<and> (unsent w' c = [] \<or> IsBlocked (conn w' c)))
     \<and> (c \<in> set (send_queues w') \<longrightarrow> send_queues w' = send_queues w)
     \<and> (eager_socket e c \<longrightarrow> \<not> IsBlocked (conn w c) \<longrightarrow> \<not> IsBlocked (conn w' c))"
  using assms
proof (induction "length (concat (unsent w c))" arbitrary: w rule: less_induct)
  case (less w)
  note e = less.prems(1) and i = less.prems(2)
  have len0: "mq_length (con_sendQ (conn w c)) = 0 \<longleftrightarrow> unsent w c = []"
    using mq_length_0 [OF sw_invD(6) [OF i, of c]] unsent_small [OF e i, of c] by (simp add: sendq_def)
  show ?case
  proof (cases "unsent w c = []")
    case True
    then have l: "send_loop e c w = returning (update_write c (tidy c w))" using len0 by (simp add: send_loop.simps [of e c w] tidy_def)
    have "served c w (update_write c (tidy c w))" by (simp add: served_def)
    moreover have "c \<notin> set (send_queues (tidy c w))" using sw_invD(7) [OF i, of c] True by simp
    ultimately show ?thesis using l update_write_ok [OF e i, of c] True by simp
  next
    case ne: False
    then have i: "sw_inv e w H" and c: "c \<in> set (send_queues w)" using i less.prems(3) by (simp_all add: tidy_id)
    obtain w1 len where d: "deliver_it e c w = Inr (w1, len)" "unat len \<le> length (concat (unsent w c))"
      "con_wire (conn w1 c) = con_wire (conn w c) @ take (unat len) (concat (unsent w c))"
      "mbufs w1 = mbufs w" "send_queues w1 = send_queues w" "sendq w1 = sendq w" "\<forall>d. d \<noteq> c \<longrightarrow> same_conn (conn w1 d) (conn w d)"
      "con_want_write (conn w1 c) = con_want_write (conn w c)" "IsDead (conn w c) \<longrightarrow> IsDead (conn w1 c)" "sound_socket e c \<longrightarrow> IsDead (conn w1 c) = IsDead (conn w c)"
      "len = 0 \<longrightarrow> IsBlocked (conn w1 c) \<or> IsDead (conn w1 c)" "0 < len \<longrightarrow> IsBlocked (conn w1 c) \<longrightarrow> unat len < length (concat (unsent w c))"
      "0 < len \<longrightarrow> IsDead (conn w1 c) = IsDead (conn w c)"
      "\<forall>H Q L C. mq_inv w1 H Q L C = mq_inv w H Q L C" "msgs_used w1 = msgs_used w" "msgs_slack w1 = msgs_slack w" "\<forall>n. mbpool_ok n w1 = mbpool_ok n w"
      "eager_socket e c \<longrightarrow> \<not> IsBlocked (conn w1 c)"
      using deliver_ok [OF e i ne] by blast
    have i1: "sw_inv e w1 H" by (rule deliver_inv [OF i d(4-9,14-17)])
    have s1: "unsent w1 x = unsent w x" for x using d(4,6) by simp
    have q1: "con_sendQ (conn w1 c) = sendq w1 c" by (simp add: sendq_def)
    show ?thesis
    proof (cases "len = 0")
      case True
      show ?thesis
      proof (cases "IsDead (conn w1 c)")
        case dead: True
        obtain w' where "dead_link e c (''Write error: '' @ (case strerror e (cli_error (conn w1 c)) of Some s \<Rightarrow> s | None \<Rightarrow> ''Unknown error'')) w1 = returning w'"
          "sw_inv e w' H" "c \<notin> set (send_queues w')" using dead_link_ok [OF e i1] by blast
        moreover have "\<not> sound_socket e c" using d(10) dead less.prems(4) by blast
        moreover from this have "\<not> eager_socket e c" using eager_sound by blast
        ultimately show ?thesis using len0 ne d(1) True dead by (simp add: send_loop.simps [of e c w])
      next
        case False
        have "served c w w1" using d(3,4,7,10) True False less.prems(4) s1 by (simp add: served_def)
        then show ?thesis using len0 ne d(1,5,11,18) True False i1 by (simp add: send_loop.simps [of e c w])
      qed
    next
      case pos: False
      have c1: "c \<in> set (send_queues w1)" "unat len \<le> length (concat (unsent w1 c))" using c d(2,5) s1 by simp_all
      obtain mq w2 where dl: "msgq_delete (sendq w1 c) (unat len) w1 = returning (mq, w2)" and
        k: "\<And>q w3. w3 = on_conn c (\<lambda>x. x\<lparr>con_sendQ := mq, con_lastsq := q\<rparr>) w2 \<Longrightarrow>
             sw_inv e (tidy c w3) H \<and> concat (unsent w3 c) = drop (unat len) (concat (unsent w1 c)) \<and> send_queues w3 = send_queues w1
             \<and> (\<forall>d. d \<noteq> c \<longrightarrow> conn w3 d = conn w1 d \<and> unsent w3 d = unsent w1 d) \<and> con_wire (conn w3 c) = con_wire (conn w1 c)
             \<and> (\<forall>f. HasFlag (conn w3 c) f = HasFlag (conn w1 c) f) \<and> dying (mbufs w1) (mbufs w3)"
        by (rule delete_round [OF e i1 c1]) (rule that)
      define w3 where w3: "w3 = on_conn c (\<lambda>x. x\<lparr>con_sendQ := mq, con_lastsq := ucast (mq_length mq div 1024)\<rparr>) w2"
      have f: "sw_inv e (tidy c w3) H" "concat (unsent w3 c) = drop (unat len) (concat (unsent w c))" "send_queues w3 = send_queues w"
        "\<forall>d. d \<noteq> c \<longrightarrow> conn w3 d = conn w1 d \<and> unsent w3 d = unsent w d" "con_wire (conn w3 c) = con_wire (conn w1 c)"
        "HasFlag (conn w3 c) g = HasFlag (conn w1 c) g" "dying (mbufs w) (mbufs w3)" for g
        using k [OF w3] d(4,5) s1 by (simp_all del: tidy_sel)
      have alive: "\<not> IsDead (conn w1 c)" using d(13) pos less.prems(4) by (simp add: word_greater_zero_iff)
      have sv: "served c w w3" using f(2,4-7) d(3,7) alive less.prems(4) by (auto simp: served_def)
      have step: "send_loop e c w = (if IsBlocked (conn w3 c) then returning (update_write c w3) else send_loop e c w3)"
      proof -
        have "IsBlocked (conn w3 c) = IsBlocked (conn w2 c)" by (simp add: w3)
        then show ?thesis using len0 ne d(1) pos dl by (simp add: send_loop.simps [of e c w] q1 w3 [symmetric] Let_def)
      qed
      show ?thesis
      proof (cases "IsBlocked (conn w3 c)")
        case True
        then have "unsent w3 c \<noteq> []" using d(12) f(2,6) pos by (auto simp: word_greater_zero_iff)
        then have "sw_inv e w3 H" using f(1) by (simp add: tidy_id)
        moreover have "served c w (update_write c w3)" using sv by (auto simp: served_def)
        ultimately show ?thesis using step True update_write_ok [OF e] f(3,6) d(18) by simp
      next
        case False
        have "0 < unat len" using pos by (simp add: unat_gt_0)
        then have "length (concat (unsent w3 c)) < length (concat (unsent w c))" using f(2) d(2) by simp
        moreover have "unsent w3 c \<noteq> [] \<longrightarrow> c \<in> set (send_queues w3)" using c f(3) by simp
        ultimately obtain w' where "send_loop e c w3 = returning w'" "sw_inv e w' H"
          "sound_socket e c \<longrightarrow> served c w3 w' \<and> (unsent w' c = [] \<or> IsBlocked (conn w' c))"
          "c \<in> set (send_queues w') \<longrightarrow> send_queues w' = send_queues w3"
          "eager_socket e c \<longrightarrow> \<not> IsBlocked (conn w3 c) \<longrightarrow> \<not> IsBlocked (conn w' c)"
          using less.hyps [of w3] e f(1,6) alive by blast
        then show ?thesis using step False served_trans [OF sv] f(3) by auto
      qed
    qed
  qed
qed

lemma send_queued_ok:
  assumes e: "env_ok e" and i: "sw_inv e w H"
  obtains w' where "send_queued e c w = returning w'" "sw_inv e w' H" "sound_socket e c \<longrightarrow> served c w w'"
    "sound_socket e c \<longrightarrow> can_send (conn w c) \<longrightarrow> unsent w' c = [] \<or> IsBlocked (conn w' c)"
    "c \<in> set (send_queues w') \<longrightarrow> send_queues w' = send_queues w"
    "eager_socket e c \<longrightarrow> can_send (conn w c) \<longrightarrow> \<not> IsBlocked (conn w c) \<longrightarrow> unsent w' c = []"
proof (cases "IsBlocked (conn w c) \<or> \<not> can_send (conn w c)")
  case True
  then have "send_queued e c w = returning w" by (simp add: send_queued_def)
  then show ?thesis using that [of w] True i by auto
next
  case False
  then have s: "send_queued e c w = send_loop e c w" by (auto simp: send_queued_def)
  have m: "unsent w c \<noteq> [] \<longrightarrow> c \<in> set (send_queues w)" using sw_invD(7) [OF i] by blast
  have t: "tidy c w = w"
  proof (cases "unsent w c = []")
    case True
    then have "c \<notin> set (send_queues w)" using sw_invD(7) [OF i] by blast
    then show ?thesis by (simp add: tidy_def client_drop_sendq_def remove1_idem)
  qed (simp add: tidy_id)
  have "\<not> IsDead (conn w c)" using False by (simp add: can_send_def)
  then obtain w' where "send_loop e c w = returning w'" "sw_inv e w' H"
    "sound_socket e c \<longrightarrow> served c w w' \<and> (unsent w' c = [] \<or> IsBlocked (conn w' c))" "c \<in> set (send_queues w') \<longrightarrow> send_queues w' = send_queues w"
    "eager_socket e c \<longrightarrow> \<not> IsBlocked (conn w c) \<longrightarrow> \<not> IsBlocked (conn w' c)"
    using send_loop_ok [OF e _ m, of H] t i by auto
  then show ?thesis using that s eager_sound by auto
qed

section \<open>Sending a message\<close>

lemma set_sendq:
  assumes i: "sw_inv e w H" and m: "mq_inv w1 H (refs mq + others w c) {} {}" "q_inv (mbufs w1) mq" "growing (mbufs w) (mbufs w1)"
    "MQData.more w1 = MQData.more w" "msgs_used w1 - int (size (refs mq)) = msgs_used w - int (size (refs (sendq w c)))" "msgs_slack w1 = msgs_slack w" "mbpool_ok (env_pool e) w1"
    and ne: "pending (mbufs w1) mq \<noteq> []" and l: "length (concat (pending (mbufs w1) mq)) \<le> get_sendq e c + 512" and e: "env_ok e"
    and w3: "w3 = update_write c (client_add_sendq c (on_conn c (\<lambda>x. x\<lparr>con_sendQ := mq\<rparr>) w1))"
  shows "sw_inv e w3 H" "unsent w3 c = pending (mbufs w1) mq" "\<And>d. d \<noteq> c \<Longrightarrow> conn w3 d = conn w d \<and> unsent w3 d = unsent w d"
    "con_wire (conn w3 c) = con_wire (conn w c)" "HasFlag (conn w3 c) f = HasFlag (conn w c) f"
proof -
  note D = sw_invD [OF i]
  have fr: "conn w1 = conn w" "send_queues w1 = send_queues w" using more_sel [OF m(4)] by simp_all
  have sq: "sendq w3 c = mq" "mbufs w3 = mbufs w1" by (simp_all add: w3 sendq_def)
  show un: "unsent w3 c = pending (mbufs w1) mq" by (simp add: sq)
  have Q: "qrefs w = refs (sendq w c) + others w c" by (rule qrefs_split [OF D(7)])
  have h: "heap_inv (mbufs w) H (qrefs w)" using D(1) by (simp add: mq_inv_def)
  have tx: "mb_text (mbufs w1) a = mb_text (mbufs w) a" if "a \<in># qrefs w" for a
  proof -
    have "0 < refcount (mbufs w) a" using that referenced [OF h, of a] by (auto simp: refcount_pos)
    then show ?thesis using m(3) by (simp add: growing_def)
  qed
  show "conn w3 d = conn w d \<and> unsent w3 d = unsent w d" if "d \<noteq> c" for d
  proof -
    have "mb_text (mbufs w1) a = mb_text (mbufs w) a" if "a \<in># refs (sendq w d)" for a
      using tx that qrefs_split [OF D(7), of d] by simp
    then have "pending (mbufs w1) (sendq w d) = unsent w d" by (rule pending_cong(1))
    then show ?thesis using that by (simp add: w3 sendq_def fr)
  qed
  show "con_wire (conn w3 c) = con_wire (conn w c)" "HasFlag (conn w3 c) f = HasFlag (conn w c) f" by (simp_all add: w3 fr)
  let ?w2 = "client_add_sendq c (on_conn c (\<lambda>x. x\<lparr>con_sendQ := mq\<rparr>) w1)"
  have small: "length (concat (pending (mbufs w1) mq)) < 2 ^ 32" using l e by (metis env_ok_def le_less_trans)
  show "sw_inv e w3 H"
  proof (rule sw_change [OF i, where c = c])
    show "same_conn (conn w3 d) (conn w d)" if "d \<noteq> c" for d using that by (simp add: w3 fr)
    show "mq_inv w3 H (refs (sendq w3 c) + others w c) {} {}" unfolding sq using m(1) by (simp add: w3 update_write_def)
    show "q_inv (mbufs w3) (sendq w3 c)" unfolding sq by (rule m(2))
    show "mb_text (mbufs w3) a = mb_text (mbufs w) a" if "a \<in># others w c" for a using tx that by (simp add: sq Q)
    show "distinct (send_queues w3)" using D(2) by (simp add: w3 fr)
    show "set (send_queues w3) = (if unsent w3 c = [] then set (send_queues w) - {c} else insert c (set (send_queues w)))"
      using ne un by (simp add: w3 fr)
    show "length (concat (unsent w3 c)) \<le> get_sendq e c + 512" using l un by simp
    show "con_want_write (conn w3 c)" using mq_length_0 [OF m(2) small] ne by (simp add: w3 update_write_def)
    show "mbpool_ok (env_pool e) w3" "msgs_slack w3 = msgs_slack w" using m(6,7) by (simp_all add: w3 update_write_def)
    show "msgs_used w3 - int (size (refs (sendq w3 c))) = msgs_used w - int (size (refs (sendq w c)))"
      unfolding sq using m(5) by (simp add: w3 update_write_def)
  qed
qed

end
