(* ===== verification/Send_Thms.thy ===== *)
theory Send_Thms
  imports Send_Inv
begin

text \<open>
  Theorems on outgoing messages: their buffers, the queue of a receiver and the delivery to its socket.
\<close>

section \<open>Sending a buffer\<close>

definition receiver :: "sworld \<Rightarrow> client \<Rightarrow> client" where
  "receiver w c = (case con_from (conn w c) of None \<Rightarrow> c | Some d \<Rightarrow> d)"

text \<open>A message is placed whole into what is to be sent to \<open>c\<close>.\<close>

definition placed :: "client \<Rightarrow> bool \<Rightarrow> string \<Rightarrow> sworld \<Rightarrow> sworld \<Rightarrow> bool" where
  "placed c prio msg w w' \<longleftrightarrow>
     con_wire (conn w' c) @ concat (unsent w' c)
       = con_wire (conn w c) @ concat (insert_at (place (sendq w c) prio) msg (unsent w c))
     \<and> (\<forall>d. d \<noteq> c \<longrightarrow> con_wire (conn w' d) = con_wire (conn w d) \<and> unsent w' d = unsent w d)"

lemma on_conn_stay:
  assumes i: "sw_inv e w H" and f: "\<And>x. same_conn (f x) x"
  shows "sw_inv e (on_conn c f w) H"
proof (rule sw_stay [OF i])
  show "sendq (on_conn c f w) = sendq w" using f by (auto simp: fun_eq_iff sendq_def same_conn_def)
  show "con_want_write (conn (on_conn c f w) d)" if "unsent w d \<noteq> []" "\<not> IsDead (conn (on_conn c f w) d)" for d
    using that sw_invD(9) [OF i, of d] f [of "conn w c"] by (auto simp: same_conn_def split: if_splits)
qed simp_all

lemma max_length:
  assumes "mq_inv w H Q {} {}" "a \<in># H"
  shows "2 \<le> length (mb_text (mbufs w) a)" "length (mb_text (mbufs w) a) \<le> 512"
proof -
  have h: "heap_inv (mbufs w) H Q" "free_inv (mbufs w) (bufs_free w) {}" using assms(1) by (simp_all add: mq_inv_def)
  obtain b where b: "mbufs w a = Some b" "0 < mb_ref b" using referenced [OF h(1), of a] assms(2) by auto
  have "mb_power b \<le> 9" using h(2) b(1) by (auto simp: free_inv_def shift_defs)
  then have "bufsize b \<le> 2 ^ 9" unfolding bufsize_def by (rule power_increasing) simp
  then show "2 \<le> length (mb_text (mbufs w) a)" "length (mb_text (mbufs w) a) \<le> 512" using heap_invD(7) [OF h(1) b] b(1) by (auto simp: mb_text_def)
qed

lemma send_buffer_ok:
  assumes e: "env_ok e" and i: "sw_inv e w H" and b: "buf \<in># H"
  obtains w' where "send_buffer e c buf prio w = returning w'" "sw_inv e w' H"
    "sound_socket e (receiver w c) \<longrightarrow> can_send (conn w (receiver w c)) \<longrightarrow> unat (mq_length (sendq w (receiver w c))) \<le> get_sendq e (receiver w c)
       \<longrightarrow> placed (receiver w c) prio (mb_text (mbufs w) buf) w w' \<and> mb_text (mbufs w') buf = mb_text (mbufs w) buf"
    "\<not> can_send (conn w (receiver w c)) \<longrightarrow> w' = w"
proof -
  note D = sw_invD [OF i]
  define to where to: "to = receiver w c"
  have sb: "send_buffer e c buf prio w =
     (if \<not> can_send (conn w to) then returning w
      else if get_sendq e to < unat (mq_length (sendq w to)) then dead_link e to ''Max sendQ exceeded'' (if IsServer (conn w to) then oper_notice e w else w)
      else
        run_bind (res_run (msgq_add (env_pool e) (sendq w to) buf prio w)) (\<lambda>(mq, w1).
          let w2 = on_conn to (\<lambda>x. x\<lparr>con_sendQ := mq\<rparr>) w1;
              w3 = update_write to (client_add_sendq to w2);
              w4 = on_conn (me w3) (\<lambda>x. x\<lparr>con_sendM := con_sendM x + 1\<rparr>)
                     (on_conn to (\<lambda>x. x\<lparr>con_sendM := con_sendM x + 1\<rparr>) w3)
          in if unat (con_lastsq (conn w4 to)) < unat (mq_length (con_sendQ (conn w4 to)) div 1024)
             then send_queued e to w4 else returning w4))"
    unfolding send_buffer_def to receiver_def sendq_def Let_def by simp
  show ?thesis
  proof (cases "can_send (conn w to)")
    case False
    then show ?thesis using that [of w] i by (simp add: sb to)
  next
    case cs: True
    show ?thesis
    proof (cases "get_sendq e to < unat (mq_length (sendq w to))")
      case True
      have "sw_inv e (if IsServer (conn w to) then oper_notice e w else w) H" using i e by (simp add: env_ok_def)
      then obtain w' where "dead_link e to ''Max sendQ exceeded'' (if IsServer (conn w to) then oper_notice e w else w) = returning w'" "sw_inv e w' H"
        using dead_link_ok [OF e] by blast
      then show ?thesis using that [of w'] cs True by (simp add: sb to)
    next
      case lim: False
      obtain w1 r where a: "msgq_add (env_pool e) (sendq w to) buf prio w = Inr (queued (sendq w to) prio r (length (mb_text (mbufs w) buf)), w1)"
        "mq_inv w1 H (add_mset r (qrefs w)) {} {}" "mb_text (mbufs w1) r = mb_text (mbufs w) buf" "growing (mbufs w) (mbufs w1)"
        "MQData.more w1 = MQData.more w" "msgs_used w1 = msgs_used w + 1" "msgs_slack w1 = msgs_slack w" "mbpool_ok (env_pool e) w \<longrightarrow> mbpool_ok (env_pool e) w1"
        using add_ok [OF D(1) b] by blast
      let ?mq = "queued (sendq w to) prio r (length (mb_text (mbufs w) buf))"
      note ml = max_length [OF D(1) b]
      have h: "heap_inv (mbufs w) H (qrefs w)" using D(1) by (simp add: mq_inv_def)
      have Q: "qrefs w = refs (sendq w to) + others w to" by (rule qrefs_split [OF D(7)])
      have tx: "mb_text (mbufs w1) x = mb_text (mbufs w) x" if "x \<in># refs (sendq w to)" for x
      proof -
        have "0 < refcount (mbufs w) x" using that referenced [OF h, of x] by (auto simp: refcount_pos Q)
        then show ?thesis using a(4) by (simp add: growing_def)
      qed
      have "mb_text (mbufs w1) r \<noteq> []" using ml(1) a(3) by auto
      then have aq: "pending (mbufs w1) ?mq = insert_at (place (sendq w to) prio) (mb_text (mbufs w) buf) (unsent w to)" "q_inv (mbufs w1) ?mq"
        using add_q_inv [where prio = prio and r = r and h' = "mbufs w1", OF D(6), of to, unfolded a(3)] tx a(3) by simp_all
      have small: "length (concat (unsent w to)) \<le> get_sendq e to"
        using lim mq_length_unat [OF D(6) unsent_small [OF e i]] by simp
      have len: "length (concat (pending (mbufs w1) ?mq)) \<le> get_sendq e to + 512"
        using small ml(2) by (simp add: aq(1) length_concat_insert_at)
      have ne: "pending (mbufs w1) ?mq \<noteq> []" by (simp add: aq(1) insert_at_def)
      define w3 where w3: "w3 = update_write to (client_add_sendq to (on_conn to (\<lambda>x. x\<lparr>con_sendQ := ?mq\<rparr>) w1))"
      have mi: "mq_inv w1 H (refs ?mq + others w to) {} {}" using a(2) by (simp add: refs_queued Q)
      have us: "msgs_used w1 - int (size (refs ?mq)) = msgs_used w - int (size (refs (sendq w to)))" using a(6) by (simp add: refs_queued)
      have po: "mbpool_ok (env_pool e) w1" using a(8) D(3) by blast
      note ss = set_sendq [OF i mi aq(2) a(4,5) us a(7) po ne len e w3]
      define w4 where w4: "w4 = on_conn (me w3) (\<lambda>x. x\<lparr>con_sendM := con_sendM x + 1\<rparr>) (on_conn to (\<lambda>x. x\<lparr>con_sendM := con_sendM x + 1\<rparr>) w3)"
      have i4: "sw_inv e w4 H" unfolding w4 by (intro on_conn_stay ss(1)) (simp_all add: same_conn_def)
      have c4: "con_wire (conn w4 d) = con_wire (conn w3 d)" "unsent w4 d = unsent w3 d" "mbufs w4 = mbufs w1" for d
        by (auto simp: w4 sendq_def) (simp add: w3)
      have pl: "con_wire (conn w4 to) @ concat (unsent w4 to) = con_wire (conn w to) @ concat (insert_at (place (sendq w to) prio) (mb_text (mbufs w) buf) (unsent w to))"
        by (simp add: c4(1,2) ss(2,4) aq(1))
      have ot: "con_wire (conn w4 d) = con_wire (conn w d) \<and> unsent w4 d = unsent w d" if "d \<noteq> to" for d
        using ss(3) [OF that] by (simp add: c4(1,2))
      have bt: "mb_text (mbufs w4) buf = mb_text (mbufs w) buf"
      proof -
        have "0 < refcount (mbufs w) buf" using b referenced [OF h, of buf] by (auto simp: refcount_pos)
        then show ?thesis using a(4) by (simp add: growing_def c4(3))
      qed
      have e4: "send_buffer e c buf prio w = (if unat (con_lastsq (conn w4 to)) < unat (mq_length (con_sendQ (conn w4 to)) div 1024)
             then send_queued e to w4 else returning w4)"
        unfolding sb using cs lim a(1) by (simp add: w4 w3 Let_def)
      show ?thesis
      proof (cases "unat (con_lastsq (conn w4 to)) < unat (mq_length (con_sendQ (conn w4 to)) div 1024)")
        case False
        then show ?thesis using that [of w4] e4 i4 pl ot bt cs by (simp add: to [symmetric] placed_def)
      next
        case True
        obtain w' where q: "send_queued e to w4 = returning w'" "sw_inv e w' H" "sound_socket e to \<longrightarrow> served to w4 w'"
          using send_queued_ok [OF e i4, of to] by blast
        have "mb_text (mbufs w') buf = mb_text (mbufs w4) buf" if "served to w4 w'"
        proof -
          have "heap_inv (mbufs w') H (qrefs w')" using sw_invD(1) [OF q(2)] by (simp add: mq_inv_def)
          then have "0 < refcount (mbufs w') buf" using b referenced [of "mbufs w'" H "qrefs w'" buf] by (auto simp: refcount_pos)
          then show ?thesis using that by (simp add: served_def dying_def)
        qed
        then show ?thesis using that [of w'] e4 True q pl ot bt cs
          by (simp add: to [symmetric] placed_def served_def same_conn_def)
      qed
    qed
  qed
qed

section \<open>Flushing and killing connections\<close>

lemma kill_highest_ok:
  assumes "env_ok e" "sw_inv e w H"
  obtains w' where "kill_highest_sendq e servers_too w = returning w'" "sw_inv e w' H"
proof (cases "snd (fold (highest_step servers_too w) (rev (LocalClientArray w)) (0, None))")
  case None
  then show ?thesis using that assms by (simp add: kill_highest_sendq_def)
next
  case (Some c)
  obtain w' where "dead_link e c ''Buffer allocation error'' w = returning w'" "sw_inv e w' H" using dead_link_ok [OF assms] by blast
  then show ?thesis using that Some by (simp add: kill_highest_sendq_def)
qed

lemma con_next_split:
  assumes "distinct (pre @ c # post)"
  shows "con_next c (pre @ c # post) = (case post of [] \<Rightarrow> None | d # _ \<Rightarrow> Some d)"
proof -
  have "dropWhile (\<lambda>x. x \<noteq> c) (pre @ c # post) = c # post" using assms by (simp add: dropWhile_append)
  then show ?thesis by (simp add: con_next_def split: list.splits)
qed

lemma con_next_gone: "c \<notin> set l \<Longrightarrow> con_next c l = None"
proof -
  assume "c \<notin> set l"
  then have "dropWhile (\<lambda>x. x \<noteq> c) l = []" by (auto simp: dropWhile_eq_Nil_conv)
  then show ?thesis unfolding con_next_def by (simp only: list.case)
qed

lemma flush_conns_None [simp]: "flush_conns e None w = returning w"
  by (simp add: flush_conns.simps)

text \<open>A step of the loop: it goes on only when the connection just served is still on the list.\<close>

lemma flush_step:
  assumes e: "env_ok e" and i: "sw_inv e w H" and l: "send_queues w = pre @ c # post"
  obtains w1 where "send_queued e c w = returning w1" "sw_inv e w1 H"
    "flush_conns e (Some c) w = (if c \<in> set (send_queues w1) then flush_conns e (case post of [] \<Rightarrow> None | d # _ \<Rightarrow> Some d) w1 else returning w1)"
    "c \<in> set (send_queues w1) \<longrightarrow> send_queues w1 = send_queues w" "sound_socket e c \<longrightarrow> served c w w1"
proof -
  obtain w1 where q: "send_queued e c w = returning w1" "sw_inv e w1 H" "sound_socket e c \<longrightarrow> served c w w1" "c \<in> set (send_queues w1) \<longrightarrow> send_queues w1 = send_queues w"
    using send_queued_ok [OF e i, of c] by metis
  have "unsent w c \<noteq> []" using sw_invD(7) [OF i, of c] l by simp
  then have "mq_length (con_sendQ (conn w c)) \<noteq> 0" using mq_length_0 [OF sw_invD(6) [OF i] unsent_small [OF e i]] by (simp add: sendq_def)
  moreover have "con_next c (send_queues w1) = (if c \<in> set (send_queues w1) then case post of [] \<Rightarrow> None | d # _ \<Rightarrow> Some d else None)"
    using q(4) l con_next_split [of pre c post] con_next_gone [of c "send_queues w1"] sw_invD(2) [OF i] by auto
  ultimately have "flush_conns e (Some c) w = (if c \<in> set (send_queues w1) then flush_conns e (case post of [] \<Rightarrow> None | d # _ \<Rightarrow> Some d) w1 else returning w1)"
    using q(1) by (simp add: flush_conns.simps [of e "Some c"])
  then show ?thesis using that q by blast
qed

lemma flush_conns_ok:
  assumes "env_ok e" "sw_inv e w H" "send_queues w = pre @ post"
  shows "\<exists>w'. flush_conns e (case post of [] \<Rightarrow> None | d # _ \<Rightarrow> Some d) w = returning w' \<and> sw_inv e w' H"
  using assms
proof (induction post arbitrary: pre w)
  case (Cons c post)
  obtain w1 where f: "sw_inv e w1 H" "flush_conns e (Some c) w = (if c \<in> set (send_queues w1) then flush_conns e (case post of [] \<Rightarrow> None | d # _ \<Rightarrow> Some d) w1 else returning w1)"
    "c \<in> set (send_queues w1) \<longrightarrow> send_queues w1 = send_queues w"
    using flush_step [OF Cons.prems] by metis
  show ?case
  proof (cases "c \<in> set (send_queues w1)")
    case True
    then have "send_queues w1 = (pre @ [c]) @ post" using f(3) Cons.prems(3) by simp
    then show ?thesis using Cons.IH [OF Cons.prems(1) f(1)] f(2) True by simp
  qed (use f in simp)
qed simp

lemma flush_connections_ok:
  assumes e: "env_ok e" and i: "sw_inv e w H"
  obtains w' where "flush_connections e cptr w = returning w'" "sw_inv e w' H"
proof (cases cptr)
  case None
  then show ?thesis using flush_conns_ok [OF e i, of "[]" "send_queues w"] that by (auto simp: flush_connections_def)
next
  case (Some c)
  then show ?thesis using send_queued_ok [OF e i, of c] that by (metis flush_connections_def option.simps(5))
qed

section \<open>Making and releasing messages\<close>

text \<open>Changes to buffers that no queue refers to.\<close>

lemma sw_quiet:
  assumes i: "sw_inv e w H" and m: "mq_inv w' H' (qrefs w) {} {}" "MQData.more w' = MQData.more w" "msgs_used w' = msgs_used w" "msgs_slack w' = msgs_slack w"
      "mbpool_ok (env_pool e) w'" and t: "\<And>a. a \<in># qrefs w \<Longrightarrow> mb_text (mbufs w') a = mb_text (mbufs w) a"
  shows "sw_inv e w' H'" "unsent w' c = unsent w c" "conn w' = conn w"
proof -
  note D = sw_invD [OF i]
  have fr: "conn w' = conn w" "send_queues w' = send_queues w" using more_sel [OF m(2)] by simp_all
  have sq: "sendq w' = sendq w" by (simp add: sendq_def fr fun_eq_iff)
  have p: "pending (mbufs w') (sendq w d) = unsent w d" "q_inv (mbufs w') (sendq w d) = q_inv (mbufs w) (sendq w d)" for d
  proof -
    have "mb_text (mbufs w') a = mb_text (mbufs w) a" if "a \<in># refs (sendq w d)" for a
      using t that qrefs_split [OF D(7), of d] by simp
    then show "pending (mbufs w') (sendq w d) = unsent w d" "q_inv (mbufs w') (sendq w d) = q_inv (mbufs w) (sendq w d)"
      by (simp_all add: pending_cong(1) [of "sendq w d" "mbufs w'" "mbufs w"] pending_cong(2) [of "sendq w d" "mbufs w'" "mbufs w"])
  qed
  show "unsent w' c = unsent w c" "conn w' = conn w" by (simp_all add: sq p fr)
  have "qrefs w' = qrefs w" by (simp add: qrefs_def fr sq)
  then show "sw_inv e w' H'" using i m unfolding sw_inv_def by (simp add: fr sq p)
qed

lemma clear_world:
  assumes i: "sw_inv e w H"
  shows "sw_inv e (msgq_clear_freembs w) H"
proof (rule sw_quiet [OF i])
  note c = clear_freembs_ok [OF sw_invD(1) [OF i]]
  show "mq_inv (msgq_clear_freembs w) H (qrefs w) {} {}" by (rule c(1))
  show "mbpool_ok (env_pool e) (msgq_clear_freembs w)" by (rule c(4) [OF sw_invD(3) [OF i]])
  show "MQData.more (msgq_clear_freembs w) = MQData.more w" "msgs_used (msgq_clear_freembs w) = msgs_used w" "msgs_slack (msgq_clear_freembs w) = msgs_slack w"
    using c(3) by (simp_all add: frame_def msgs_slack_def)
  show "mb_text (mbufs (msgq_clear_freembs w)) a = mb_text (mbufs w) a" if "a \<in># qrefs w" for a
  proof -
    have "heap_inv (mbufs w) H (qrefs w)" using sw_invD(1) [OF i] by (simp add: mq_inv_def)
    then have "0 < refcount (mbufs w) a" using that referenced [of "mbufs w" H "qrefs w" a] by (auto simp: refcount_pos)
    then show ?thesis using c(2) by (simp add: same_used_def mb_text_def)
  qed
qed

lemma vmake_world:
  assumes e: "env_ok e" and i: "sw_inv e w H"
  shows "msgq_vmake (env_pool e) (starving e) body w = Some (Inl Aborted)
    \<or> (\<exists>w0 w1 mb. msgq_vmake (env_pool e) (starving e) body w = returning (w1, mb) \<and> sw_inv e w0 H \<and> sw_inv e w1 (add_mset mb H)
        \<and> mb_text (mbufs w1) mb = take 510 body @ crlf \<and> mb \<notin># H \<and> is_real (mbufs w1) mb \<and> conn w1 = conn w0 \<and> (\<forall>c. unsent w1 c = unsent w0 c)
        \<and> (bufs_free w 9 \<noteq> [] \<or> tot_bufsize w < int (env_pool e) \<longrightarrow> w0 = w))"
proof -
  let ?P = "\<lambda>w0. sw_inv e w0 H \<and> (bufs_free w 9 \<noteq> [] \<or> tot_bufsize w < int (env_pool e) \<longrightarrow> w0 = w)"
  let ?msg = "take 510 body @ crlf"
  have ml: "2 \<le> length ?msg" "length ?msg \<le> 512" by simp_all
  have made: "sw_inv e (with_text mb ?msg s1) (add_mset mb H) \<and> mb_text (mbufs (with_text mb ?msg s1)) mb = ?msg \<and> mb \<notin># H
      \<and> is_real (mbufs (with_text mb ?msg s1)) mb \<and> conn (with_text mb ?msg s1) = conn s0 \<and> (\<forall>c. unsent (with_text mb ?msg s1) c = unsent s0 c)"
    if i0: "sw_inv e s0 H" and al: "msgq_alloc (env_pool e) None BUFSIZE s0 = Inr (s1, Some mb)" for s0 s1 mb
  proof -
    note D = sw_invD [OF i0]
    note f = alloc_fresh [OF D(1) al ml with_text_def]
    have hp: "heap_inv (mbufs s0) H (qrefs s0)" using D(1) by (simp add: mq_inv_def)
    have u: "mb \<notin># H" "mb \<notin># qrefs s0" using unused_unowned [OF hp f(5)] by blast+
    note q = sw_quiet [OF i0 f(2)]
    have "mb_text (mbufs (with_text mb ?msg s1)) a = mb_text (mbufs s0) a" if "a \<in># qrefs s0" for a
      using f(6) [of a] that u by (cases "a = mb") (auto simp: mb_text_def)
    then have "sw_inv e (with_text mb ?msg s1) (add_mset mb H)" "unsent (with_text mb ?msg s1) c = unsent s0 c" "conn (with_text mb ?msg s1) = conn s0" for c
      using q f(3,4) D(3) by (simp_all add: frame_def msgs_slack_def)
    then show ?thesis using f(7,8) u by blast
  qed
  show ?thesis
  proof (cases "bufs_free w 9 \<noteq> [] \<or> tot_bufsize w < int (env_pool e)")
    case True
    obtain s1 r where al: "msgq_alloc (env_pool e) None BUFSIZE w = Inr (s1, r)" "r = None \<longrightarrow> bufs_free w 9 = [] \<and> int (env_pool e) \<le> tot_bufsize w"
      using alloc_no_fault [OF sw_invD(1) [OF i]] by metis
    then obtain mb where mb: "r = Some mb" using True by (cases r) auto
    note m = made [OF i al(1) [unfolded mb]]
    obtain b where b: "mbufs s1 mb = Some b" "mb_power b = 9" using alloc_fresh(1) [OF sw_invD(1) [OF i] al(1) [unfolded mb] ml refl] by blast
    have "msgq_vmake (env_pool e) (starving e) body w = returning (with_text mb ?msg s1, mb)"
      using al(1) mb b by (simp add: msgq_vmake_def retry_alloc_def bufsize_def vsnprintf_eq finish_line_512 with_text_def)
    then show ?thesis using m i by blast
  next
    case no: False
    have "keeps_inv (\<lambda>w0. sw_inv e w0 H)" unfolding keeps_inv_def using sw_invD(1) by blast
    moreover have "keeps (\<lambda>w0. sw_inv e w0 H) (flush_all (starving e))"
      using flush_connections_ok [OF e, of _ H None] by (auto simp: keeps_def starving_def)
    moreover have "keeps (\<lambda>w0. sw_inv e w0 H) (kill_sendq (starving e) b)" for b
      using kill_highest_ok [OF e, of _ H b] by (auto simp: keeps_def starving_def)
    ultimately have "msgq_vmake (env_pool e) (starving e) body w = Some (Inl Aborted)
        \<or> (\<exists>s0 s1 mb. sw_inv e s0 H \<and> msgq_alloc (env_pool e) None BUFSIZE s0 = Inr (s1, Some mb)
             \<and> msgq_vmake (env_pool e) (starving e) body w = returning (with_text mb ?msg s1, mb))"
      using vmake_cases [of "\<lambda>w0. sw_inv e w0 H" "starving e" w "env_pool e" body] clear_world i by blast
    then show ?thesis using made no by blast
  qed
qed

lemma clean_world:
  assumes i: "sw_inv e w H" and a: "mb \<in># H"
  obtains w' where "msgq_clean mb w = returning w'" "sw_inv e w' (H - {#mb#})" "\<forall>c. unsent w' c = unsent w c" "conn w' = conn w"
    "\<forall>x \<in># H - {#mb#}. mb_text (mbufs w') x = mb_text (mbufs w) x"
proof -
  note D = sw_invD [OF i]
  have R: "H + qrefs w = add_mset mb ((H - {#mb#}) + qrefs w)" "H - {#mb#} \<subseteq># H" "qrefs w \<subseteq># qrefs w" using a by simp_all
  obtain w' where c: "msgq_clean mb w = returning w'" "mq_inv w' (H - {#mb#}) (qrefs w) {} {}" "dying (mbufs w) (mbufs w')" "frame w w'"
    by (rule clean_ok [OF D(1) R])
  have t: "mb_text (mbufs w') x = mb_text (mbufs w) x" if "x \<in># (H - {#mb#}) + qrefs w" for x
  proof -
    have "heap_inv (mbufs w') (H - {#mb#}) (qrefs w)" using c(2) by (simp add: mq_inv_def)
    then have "0 < refcount (mbufs w') x" using that referenced [of "mbufs w'" "H - {#mb#}" "qrefs w" x] by (auto simp: refcount_pos)
    then show ?thesis using c(3) by (simp add: dying_def)
  qed
  have p: "mbpool_ok (env_pool e) w'" using D(3) clean_returning_pool [OF c(1)] by (simp add: mbpool_ok_def)
  have f: "MQData.more w' = MQData.more w" "msgs_used w' = msgs_used w" "msgs_slack w' = msgs_slack w" using c(4) by (simp_all add: frame_def msgs_slack_def)
  have "mb_text (mbufs w') x = mb_text (mbufs w) x" if "x \<in># qrefs w" for x using t that by simp
  then show ?thesis using that [OF c(1)] sw_quiet [OF i c(2) f p] t by simp
qed

lemma append_world:
  assumes i: "sw_inv e w H" and a: "mb \<in># H" and r: "msgq_append mb body w = Inr w'"
  shows "sw_inv e w' H"
proof -
  note D = sw_invD [OF i]
  have h: "heap_inv (mbufs w) H (qrefs w)" using D(1) by (simp add: mq_inv_def)
  obtain b where b: "mbufs w mb = Some b" "0 < mb_ref b" using referenced [OF h, of mb] a by auto
  have ok: "mb_real b = None" "2 < length (mb_msg b)" using r b(1) by (auto simp: msgq_append_def split: if_splits)
  then have re: "is_real (mbufs w) mb" "2 < length (mb_text (mbufs w) mb)" using b(1) by (simp_all add: is_real_def mb_text_def)
  obtain w1 where w1: "msgq_append mb body w = Inr w1" "mq_inv w1 H (qrefs w) {} {}" "\<forall>x. x \<noteq> mb \<longrightarrow> mbufs w1 x = mbufs w x" "frame w w1"
    using append_ok [OF D(1) a re, of body] by metis
  have "w1 = w'" using r w1(1) by simp
  moreover have "mb \<notin># qrefs w" using heap_invD(6) [OF h a re(1)] .
  moreover have "tot_bufsize w' = tot_bufsize w"
    using r b(1) ok by (auto simp: msgq_append_def Let_def res_bind_Inr_iff put_buf_def split: prod.splits if_splits)
  ultimately show ?thesis
    using w1 D(3) sw_quiet(1) [OF i, of w' H] by (fastforce simp: frame_def msgs_slack_def mbpool_ok_def mb_text_def)
qed

text \<open>The operations on messages and queues, in any order.\<close>

inductive send_step :: "senv \<Rightarrow> sworld \<times> nat multiset \<Rightarrow> sworld \<times> nat multiset \<Rightarrow> bool" for e where
  make: "msgq_vmake (env_pool e) (starving e) body w = returning (w', mb) \<Longrightarrow> send_step e (w, H) (w', add_mset mb H)"
| append: "mb \<in># H \<Longrightarrow> msgq_append mb body w = Inr w' \<Longrightarrow> send_step e (w, H) (w', H)"
| send: "mb \<in># H \<Longrightarrow> send_buffer e c mb prio w = returning w' \<Longrightarrow> send_step e (w, H) (w', H)"
| clean: "mb \<in># H \<Longrightarrow> msgq_clean mb w = returning w' \<Longrightarrow> send_step e (w, H) (w', H - {#mb#})"
| flush: "flush_connections e cptr w = returning w' \<Longrightarrow> send_step e (w, H) (w', H)"
| kill: "kill_highest_sendq e servers_too w = returning w' \<Longrightarrow> send_step e (w, H) (w', H)"
| writable: "send_queued e c (on_conn c (\<lambda>x. ClrFlag x FLAG_BLOCKED) w) = returning w' \<Longrightarrow> send_step e (w, H) (w', H)"

lemma writable_inv: "sw_inv e w H \<Longrightarrow> sw_inv e (on_conn c (\<lambda>x. ClrFlag x FLAG_BLOCKED) w) H"
  by (erule on_conn_stay) (simp add: same_conn_def)

lemma send_step_inv:
  assumes e: "env_ok e" and s: "send_step e x y" and i: "sw_inv e (fst x) (snd x)"
  shows "sw_inv e (fst y) (snd y)"
  using s i
proof cases
  case (make body w w' mb H)
  then show ?thesis using vmake_world [OF e, of w H body] i by (auto simp: returning_def)
next
  case (append mb H body w w')
  then show ?thesis using append_world [of e w H mb body w'] i by simp
next
  case (send mb H c prio w w')
  then have "sw_inv e w H" using i by simp
  from send_buffer_ok [OF e this send(3), of c prio] show ?thesis using send by (metis fst_conv snd_conv returning_inject)
next
  case (clean mb H w w')
  then have "sw_inv e w H" using i by simp
  from clean_world [OF this clean(3)] show ?thesis using clean by (metis fst_conv snd_conv returning_inject)
next
  case (flush cptr w w' H)
  then have "sw_inv e w H" using i by simp
  from flush_connections_ok [OF e this, of cptr] show ?thesis using flush by (metis fst_conv snd_conv returning_inject)
next
  case (kill servers_too w w' H)
  then have "sw_inv e w H" using i by simp
  from kill_highest_ok [OF e this, of servers_too] show ?thesis using kill by (metis fst_conv snd_conv returning_inject)
next
  case (writable c w w' H)
  then have "sw_inv e w H" using i by simp
  from send_queued_ok [OF e writable_inv [OF this], of c] show ?thesis using writable by (metis fst_conv snd_conv returning_inject)
qed

lemma send_steps_inv:
  assumes "env_ok e" "(send_step e)\<^sup>*\<^sup>* x y" "sw_inv e (fst x) (snd x)"
  shows "sw_inv e (fst y) (snd y)"
  using assms(2,3) by (induction rule: rtranclp_induct) (use send_step_inv [OF assms(1)] in blast)+

lemma vmake_enough:
  assumes i: "mq_inv w H Q {} {}" and m: "bufs_free w 9 \<noteq> [] \<or> tot_bufsize w < int pool"
  shows "msgq_vmake pool e body w \<noteq> Some (Inl Aborted)"
proof -
  obtain s1 r where al: "msgq_alloc pool None BUFSIZE w = Inr (s1, r)" "r = None \<longrightarrow> bufs_free w 9 = [] \<and> int pool \<le> tot_bufsize w"
    using alloc_no_fault [OF i] by metis
  then obtain mb where mb: "r = Some mb" using m by (cases r) auto
  obtain b where b: "mbufs s1 mb = Some b" "mb_power b = 9" using alloc_fresh(1) [OF i al(1) [unfolded mb] _ _ refl, of crlf] by auto
  have "msgq_vmake pool e body w = returning (with_text mb (take 510 body @ crlf) s1, mb)"
    using al(1) mb b by (simp add: msgq_vmake_def retry_alloc_def bufsize_def vsnprintf_eq finish_line_512 with_text_def)
  then show ?thesis by (simp add: returning_def)
qed

section \<open>An example\<close>

text \<open>Two connections, each with one message queued, and sockets that take everything.\<close>

definition env0 :: senv where
  "env0 = \<lparr>env_pool = 4096, env_flush = False, IOV_MAX = 16, writev = (\<lambda>w c iov. (int (length (concat iov)), 0)),
     get_sendq = (\<lambda>c. 40000), strerror = (\<lambda>n. None), oper_notice = (\<lambda>w. w)\<rparr>"

definition conn0 :: "client \<Rightarrow> MsgQ \<Rightarrow> sconn" where
  "conn0 c mq = \<lparr>cli_status = STAT_USER, cli_flags = [], cli_since = 0, cli_lasttime = 0, cli_error = 0, con_fd = 5, con_sendQ = mq,
     con_recvQ = \<lparr>dyn_length = 0, bufs = []\<rparr>, con_lastsq = 0, con_sendM = 0, con_sendK = 0, con_sendB = 0, con_listing = False,
     con_serv = False, con_from = Some c, con_info = [], con_want_write = True, con_wire = []\<rparr>"

definition one_message :: "nat \<Rightarrow> MsgQ" where
  "one_message a = \<lparr>mq_length = 3, mq_count = 1, mq_queue = [\<lparr>msg_sent = 0, msg_buf = a\<rparr>], mq_prio = []\<rparr>"

definition buf0 :: "char \<Rightarrow> nat \<Rightarrow> MsgBuf" where
  "buf0 x a = \<lparr>mb_real = Some a, mb_ref = 1, mb_power = 5, mb_msg = x # crlf\<rparr>"

definition two_waiting :: sworld where
  "two_waiting = \<lparr>msglist = [0, 1], msgs_alloc = 2, msgs_used = 2, msgs_free = 0, tot_bufsize = 64,
     bufs_alloc = (\<lambda>_. 0)(5 := 2), bufs_used = (\<lambda>_. 0)(5 := 2), bufs_free = (\<lambda>_. []), sizes_msgs = 0, sizes = (\<lambda>_. 0),
     mbufs = [0 \<mapsto> buf0 CHR ''a'' 0, 1 \<mapsto> buf0 CHR ''b'' 1], next_buf = 2,
     conn = (\<lambda>c. conn0 c msgq_init)(1 := conn0 1 (one_message 0), 2 := conn0 2 (one_message 1)), send_queues = [1, 2],
     dbufs = \<lparr>DBufAllocCount = 0, DBufUsedCount = 0, dbufFreeList = 0\<rparr>, LocalClientArray = [None, Some 1, Some 2], me = 0\<rparr>"

lemma env0_ok: "env_ok env0" "eager_socket env0 c"
  by (simp_all add: env_ok_def env0_def eager_socket_def)

lemma two_waiting_sel:
  "mbufs two_waiting = [0 \<mapsto> buf0 CHR ''a'' 0, 1 \<mapsto> buf0 CHR ''b'' 1]" "send_queues two_waiting = [1, 2]" "msglist two_waiting = [0, 1]"
  "bufs_free two_waiting = (\<lambda>_. [])" "bufs_alloc two_waiting = (\<lambda>_. 0)(5 := 2)" "bufs_used two_waiting = (\<lambda>_. 0)(5 := 2)" "tot_bufsize two_waiting = 64"
  "next_buf two_waiting = 2" "msgs_alloc two_waiting = 2" "msgs_used two_waiting = 2" "msgs_free two_waiting = 0"
  "conn two_waiting = (\<lambda>c. conn0 c msgq_init)(1 := conn0 1 (one_message 0), 2 := conn0 2 (one_message 1))"
  by (simp_all add: two_waiting_def)

lemma conn0_sel: "con_sendQ (conn0 c mq) = mq" "con_want_write (conn0 c mq)" "con_wire (conn0 c mq) = []" "HasFlag (conn0 c mq) f = False" "can_send (conn0 c mq)" "con_from (conn0 c mq) = Some c"
  by (simp_all add: conn0_def HasFlag_def can_send_def IsMe_def stat_defs)

lemma two_waiting_sendq: "sendq two_waiting c = (if c = 1 then one_message 0 else if c = 2 then one_message 1 else msgq_init)"
  by (simp add: sendq_def two_waiting_sel conn0_sel)

lemma two_waiting_refs: "qrefs two_waiting = {#0, 1#}"
  by (simp add: qrefs_def two_waiting_sendq two_waiting_sel) (simp add: refs_def one_message_def)

lemma order_example: "order (one_message a) = [\<lparr>msg_sent = 0, msg_buf = a\<rparr>]" "order msgq_init = []"
  by (simp_all add: order_def partial_def one_message_def msgq_init_def)

lemma text_example: "mb_text (mbufs two_waiting) 0 = ''a'' @ crlf" "mb_text (mbufs two_waiting) 1 = ''b'' @ crlf"
  by (simp_all add: mb_text_def two_waiting_sel buf0_def)

lemma two_waiting_unsent: "unsent two_waiting c = (if c = 1 then [''a'' @ crlf] else if c = 2 then [''b'' @ crlf] else [])"
  by (simp add: two_waiting_sendq pending_def order_example rest_of_def text_example [unfolded One_nat_def])

lemma two_waiting_own:
  "owner (mbufs two_waiting) a = None" "refcount (mbufs two_waiting) a = (if a \<le> 1 then 1 else 0)" "sized (mbufs two_waiting) p = (if p = 5 then {0, 1} else {})"
  by (auto simp: owner_def refcount_def sized_def two_waiting_sel buf0_def le_Suc_eq split: if_splits)

lemma two_waiting_heap: "heap_inv (mbufs two_waiting) {#} {#0, 1#}"
proof -
  have "ran (owner (mbufs two_waiting)) = {}" using two_waiting_own(1) by (auto simp: ran_def)
  then show ?thesis using two_waiting_own(1,2)
    by (intro heap_invI) (auto simp: two_waiting_sel buf0_def bufsize_def split: if_splits)
qed

lemma two_waiting_mq: "mq_inv two_waiting {#} {#0, 1#} {} {}"
proof -
  note r = two_waiting_own
  have "listed (mbufs two_waiting) = {0, 1}" by (auto simp: listed_def r)
  moreover have "free_inv (mbufs two_waiting) (bufs_free two_waiting) {}"
    unfolding free_inv_def r by (auto simp: two_waiting_sel buf0_def shift_defs split: if_splits)
  moreover have "count_inv two_waiting {}"
  proof (rule count_invI, unfold r)
    have "{MB_BASE_SHIFT..MB_MAX_SHIFT} = {5, 6, 7, 8, 9}" by (auto simp: shift_defs)
    then show "tot_bufsize two_waiting = (\<Sum>p \<in> {MB_BASE_SHIFT..MB_MAX_SHIFT}. bufs_alloc two_waiting p * 2 ^ p)"
      by (simp add: two_waiting_sel)
  qed (auto simp: two_waiting_sel split: if_splits)
  ultimately show ?thesis using two_waiting_heap by (simp add: mq_inv_def two_waiting_sel)
qed

lemma two_waiting_inv: "sw_inv env0 two_waiting {#}"
proof -
  have "q_inv (mbufs two_waiting) (sendq two_waiting c)" for c
    unfolding q_inv_def two_waiting_unsent unfolding two_waiting_sendq
    by (simp add: order_example rest_of_def text_example [unfolded One_nat_def]) (simp add: one_message_def msgq_init_def)
  then show ?thesis
    unfolding sw_inv_def two_waiting_refs two_waiting_unsent using two_waiting_mq
    by (simp add: two_waiting_sel conn0_sel mbpool_ok_def msgs_slack_def env0_def shift_defs)
qed

section \<open>Theorems\<close>

definition fresh_world :: "sworld \<Rightarrow> bool" where
  "fresh_world w \<longleftrightarrow>
     mbufs w = Map.empty \<and> msglist w = [] \<and> bufs_free w = (\<lambda>_. []) \<and> bufs_alloc w = (\<lambda>_. 0) \<and> bufs_used w = (\<lambda>_. 0) \<and> tot_bufsize w = 0
     \<and> msgs_alloc w = 0 \<and> msgs_used w = 0 \<and> msgs_free w = 0 \<and> send_queues w = [] \<and> (\<forall>c. sendq w c = msgq_init)"

lemma fresh_world_inv:
  assumes "fresh_world w"
  shows "sw_inv e w {#}"
proof -
  have h: "mbufs w = Map.empty" using assms by (simp add: fresh_world_def)
  have o: "owner (mbufs w) a = None" "refcount (mbufs w) a = 0" "sized (mbufs w) p = {}" for a p by (simp_all add: h owner_def refcount_def sized_def)
  then have ran: "ran (owner (mbufs w)) = {}" by (auto simp: ran_def)
  have "heap_inv (mbufs w) {#} {#}" by (rule heap_invI) (auto simp: o ran, simp_all add: h)
  moreover have "free_inv (mbufs w) (bufs_free w) {}" using assms by (simp add: free_inv_def o) (simp add: fresh_world_def)
  moreover have "count_inv w {}" by (rule count_invI) (use assms in \<open>simp_all add: o [unfolded h] h, simp_all add: fresh_world_def\<close>)
  moreover have "listed (mbufs w) = {}" by (simp add: listed_def o)
  ultimately have "mq_inv w {#} {#} {} {}" using assms by (simp add: mq_inv_def fresh_world_def)
  moreover have "qrefs w = {#}" using assms by (simp add: qrefs_def fresh_world_def)
  moreover have "order (sendq w c) = []" "mq_length (sendq w c) = 0" "mq_count (sendq w c) = 0" for c
    using assms by (simp_all add: fresh_world_def order_example) (simp_all add: msgq_init_def)
  ultimately show ?thesis
    using assms unfolding sw_inv_def by (simp add: q_inv_def pending_def) (simp add: fresh_world_def mbpool_ok_def msgs_slack_def shift_defs)
qed

text \<open>Without references no buffer is in use.\<close>

lemma no_leak:
  assumes i: "mq_inv w {#} {#} {} {}"
  shows "bufs_used w p = 0"
proof -
  have h: "heap_inv (mbufs w) {#} {#}" "free_inv (mbufs w) (bufs_free w) {}" "count_inv w {}" using i by (simp_all add: mq_inv_def)
  have dead: "refcount (mbufs w) a = 0" for a
  proof (rule ccontr)
    assume "refcount (mbufs w) a \<noteq> 0"
    then have "a \<in> ran (owner (mbufs w))" using heap_invD(1) [OF h(1), of a] by (auto split: if_splits)
    then obtain b where b: "owner (mbufs w) b = Some a" by (auto simp: ran_def)
    then have "0 < refcount (mbufs w) b" using owner_pos by blast
    then have "b \<in> ran (owner (mbufs w))" using heap_invD(1) [OF h(1), of b] by (auto split: if_splits)
    then obtain c where "owner (mbufs w) c = Some b" by (auto simp: ran_def)
    then have "owner (mbufs w) b = None" using heap_invD(3) [OF h(1)] is_real_not_owner by blast
    then show False using b by simp
  qed
  have "set (bufs_free w p) = sized (mbufs w) p" "distinct (bufs_free w p)" using h(2) dead by (auto simp: free_inv_def)
  then have "length (bufs_free w p) = card (sized (mbufs w) p)" using distinct_card by fastforce
  then show ?thesis using count_invD(3,4) [OF h(3), of p] by simp
qed

text \<open>
  C10: However messages are made, appended to, queued, released, flushed and sent, no buffer is freed
  while something refers to it and every other buffer is on the free list of its size; memory in
  buffers stays below the pool plus one buffer, and once nothing is queued or in hand no buffer and no
  queue entry is in use. A connection is on the list of queues to be flushed exactly when something
  is queued for it, the length it keeps is the number of unsent bytes, and then the event engine has
  been asked for writability unless the connection is dead.
\<close>

theorem send_state_invariant:
  assumes "env_ok e" "fresh_world w0" "(send_step e)\<^sup>*\<^sup>* (w0, {#}) (w, H)"
  shows "(\<forall>a \<in># H + qrefs w. 0 < refcount (mbufs w) a)
    \<and> (\<forall>a b. mbufs w a = Some b \<longrightarrow> (mb_ref b = 0 \<longleftrightarrow> a \<in> set (bufs_free w (mb_power b))))
    \<and> tot_bufsize w < int (env_pool e) + 512
    \<and> (H = {#} \<and> send_queues w = [] \<longrightarrow> (\<forall>p. bufs_used w p = 0) \<and> msgs_used w = 0)
    \<and> (\<forall>c. (c \<in> set (send_queues w) \<longleftrightarrow> unsent w c \<noteq> []) \<and> unat (mq_length (sendq w c)) = length (concat (unsent w c))
          \<and> (unsent w c \<noteq> [] \<and> \<not> IsDead (conn w c) \<longrightarrow> con_want_write (conn w c)))"
proof -
  have i: "sw_inv e w H" using send_steps_inv [OF assms(1,3)] fresh_world_inv [OF assms(2)] by simp
  note D = sw_invD [OF i]
  have h: "heap_inv (mbufs w) H (qrefs w)" "free_inv (mbufs w) (bufs_free w) {}" using D(1) by (simp_all add: mq_inv_def)
  have "0 < refcount (mbufs w) a" if "a \<in># H + qrefs w" for a using referenced [OF h(1) that] by (auto simp: refcount_pos)
  moreover have "mb_ref b = 0 \<longleftrightarrow> a \<in> set (bufs_free w (mb_power b))" if "mbufs w a = Some b" for a b
    using h(2) that heap_at [of "mbufs w" a b] by (auto simp: free_inv_def sized_in)
  moreover have "tot_bufsize w < int (env_pool e) + 512" using D(3) by (simp add: mbpool_ok_def shift_defs)
  moreover have "(\<forall>p. bufs_used w p = 0) \<and> msgs_used w = 0" if "H = {#}" "send_queues w = []"
  proof -
    have "mq_inv w {#} {#} {} {}" using that D(1) by (simp add: qrefs_def)
    then show ?thesis using that D(4) no_leak by (auto simp: qrefs_def)
  qed
  moreover have "unat (mq_length (sendq w c)) = length (concat (unsent w c))" for c
    by (rule mq_length_unat [OF D(6) unsent_small [OF assms(1) i]])
  ultimately show ?thesis using D(7,9) by blast
qed

theorem send_state_invariant_witness:
  "\<exists>w H. (send_step env0)\<^sup>*\<^sup>* (two_waiting\<lparr>mbufs := Map.empty, msglist := [], bufs_alloc := (\<lambda>_. 0), bufs_used := (\<lambda>_. 0), tot_bufsize := 0,
       msgs_alloc := 0, msgs_used := 0, send_queues := [], conn := (\<lambda>c. conn0 c msgq_init)\<rparr>, {#}) (w, H)
     \<and> H \<noteq> {#} \<and> tot_bufsize w < int (env_pool env0) + 512"
proof -
  let ?w = "two_waiting\<lparr>mbufs := Map.empty, msglist := [], bufs_alloc := (\<lambda>_. 0), bufs_used := (\<lambda>_. 0), tot_bufsize := 0,
       msgs_alloc := 0, msgs_used := 0, send_queues := [], conn := (\<lambda>c. conn0 c msgq_init)\<rparr>"
  have f: "fresh_world ?w" by (simp add: fresh_world_def sendq_def two_waiting_def conn0_sel)
  have "tot_bufsize ?w < int (env_pool env0)" by (simp add: env0_def)
  moreover have "msgq_vmake (env_pool env0) (starving env0) ''PING'' ?w \<noteq> Some (Inl Aborted)"
    by (simp add: msgq_vmake_def msgq_alloc_def mb_power_for_def shift_defs upt_rec BUFSIZE_def mb_obtain_def two_waiting_def env0_def set_real_def
        starving_def retry_alloc_def res_run_def finish_line_def ircd_vsnprintf_def bufsize_def put_buf_def returning_def)
  ultimately obtain w mb where v: "msgq_vmake (env_pool env0) (starving env0) ''PING'' ?w = returning (w, mb)"
    using vmake_world [OF env0_ok(1) fresh_world_inv [OF f], of "''PING''"] by blast
  have s: "(send_step env0)\<^sup>*\<^sup>* (?w, {#}) (w, {#mb#})" using send_step.make [OF v, of "{#}"] by blast
  have "tot_bufsize w < int (env_pool env0) + 512" using send_state_invariant [OF env0_ok(1) f s] by blast
  with s show ?thesis by (intro exI [of _ w] exI [of _ "{#mb#}"]) simp
qed

text \<open>
  C11: Serving a connection whose socket does not fail ends. The bytes its socket has taken followed by
  those still queued are what they were before: nothing is lost, repeated or put in another order,
  whatever parts the socket takes at a time. It stops only when the queue is empty or the socket is
  blocked, and other connections are left alone.
\<close>

theorem send_queued_in_order:
  assumes "env_ok e" "sw_inv e w H" "sound_socket e c"
  shows "\<exists>w'. send_queued e c w = returning w' \<and> sw_inv e w' H
    \<and> con_wire (conn w' c) @ concat (unsent w' c) = con_wire (conn w c) @ concat (unsent w c)
    \<and> (can_send (conn w c) \<longrightarrow> unsent w' c = [] \<or> IsBlocked (conn w' c))
    \<and> (\<forall>d. d \<noteq> c \<longrightarrow> con_wire (conn w' d) = con_wire (conn w d) \<and> unsent w' d = unsent w d)"
proof -
  obtain w' where q: "send_queued e c w = returning w'" "sw_inv e w' H" "sound_socket e c \<longrightarrow> served c w w'"
    "sound_socket e c \<longrightarrow> can_send (conn w c) \<longrightarrow> unsent w' c = [] \<or> IsBlocked (conn w' c)"
    using send_queued_ok [OF assms(1,2), of c] by metis
  then show ?thesis using assms(3) by (intro exI [of _ w']) (auto simp: served_def same_conn_def)
qed

theorem send_queued_in_order_witness:
  "\<exists>w'. send_queued env0 1 two_waiting = returning w' \<and> con_wire (conn w' 1) @ concat (unsent w' 1) = ''a'' @ crlf"
proof -
  obtain w' where "send_queued env0 1 two_waiting = returning w'"
    "con_wire (conn w' 1) @ concat (unsent w' 1) = con_wire (conn two_waiting 1) @ concat (unsent two_waiting 1)"
    using send_queued_in_order [OF env0_ok(1) two_waiting_inv eager_sound [OF env0_ok(2)], of 1] by blast
  then show ?thesis unfolding two_waiting_unsent by (simp add: two_waiting_sel(12) conn0_sel)
qed

text \<open>
  C13: A raw message to a client, whose connection (its own, or that of the server it is reached by) can be
  written to, is below its limit and with buffers left, is sent whole: what the socket has taken and what
  is queued grow by the text, cut to 510 bytes, and CR LF, at the end. No reference to its buffer is
  left behind and the other connections are untouched.
\<close>

theorem sendrawto_one_whole:
  assumes e: "env_ok e" "sound_socket e c" and i: "sw_inv e w H" and c: "receiver w to = c" "can_send (conn w c)" "length (concat (unsent w c)) \<le> get_sendq e c"
    and m: "bufs_free w 9 \<noteq> [] \<or> tot_bufsize w < int (env_pool e)"
  shows "\<exists>w'. sendrawto_one e to body w = returning w' \<and> sw_inv e w' H
    \<and> con_wire (conn w' c) @ concat (unsent w' c) = con_wire (conn w c) @ concat (unsent w c) @ take 510 body @ crlf
    \<and> (\<forall>d. d \<noteq> c \<longrightarrow> con_wire (conn w' d) = con_wire (conn w d) \<and> unsent w' d = unsent w d)"
proof -
  have "msgq_vmake (env_pool e) (starving e) body w \<noteq> Some (Inl Aborted)"
    by (rule vmake_enough [OF sw_invD(1) [OF i] m])
  then obtain w1 mb where v: "msgq_vmake (env_pool e) (starving e) body w = returning (w1, mb)" "sw_inv e w1 (add_mset mb H)"
    "mb_text (mbufs w1) mb = take 510 body @ crlf" "conn w1 = conn w" "\<forall>c. unsent w1 c = unsent w c"
    using vmake_world [OF e(1) i, of body] m by blast
  have r: "receiver w1 to = c" using c(1) v(4) by (simp add: receiver_def)
  have l: "unat (mq_length (sendq w1 c)) \<le> get_sendq e c"
    using mq_length_unat [OF sw_invD(6) [OF v(2), of c] unsent_small [OF e(1) v(2)]] c(3) v(5) by simp
  obtain w2 where s: "send_buffer e to mb False w1 = returning w2" "sw_inv e w2 (add_mset mb H)" "placed c False (take 510 body @ crlf) w1 w2"
    using send_buffer_ok [OF e(1) v(2), of mb to False] r e(2) c(2) v(3,4) l by auto
  obtain w3 where k: "msgq_clean mb w2 = returning w3" "sw_inv e w3 H" "\<forall>c. unsent w3 c = unsent w2 c" "conn w3 = conn w2"
  proof -
    have "mb \<in># add_mset mb H" by simp
    from clean_world [OF s(2) this] show ?thesis using that by (metis add_mset_remove_trivial)
  qed
  have "sendrawto_one e to body w = returning w3" using v(1) s(1) k(1) by (simp add: sendrawto_one_def)
  moreover have "place (sendq w1 c) False = length (unsent w c)" using v(5) by (metis length_map pending_def place_def)
  ultimately show ?thesis using s(3) v(4,5) k by (intro exI [of _ w3]) (simp add: placed_def insert_at_def)
qed

theorem sendrawto_one_whole_witness:
  "\<exists>w'. sendrawto_one env0 1 ''PING'' two_waiting = returning w' \<and> con_wire (conn w' 1) @ concat (unsent w' 1) = ''a'' @ crlf @ ''PING'' @ crlf"
proof -
  have l: "length (concat (unsent two_waiting 1)) \<le> get_sendq env0 1" unfolding two_waiting_unsent by (simp add: env0_def)
  have "receiver two_waiting 1 = 1" "can_send (conn two_waiting 1)" "tot_bufsize two_waiting < int (env_pool env0)"
    by (simp_all add: receiver_def two_waiting_sel conn0_sel env0_def)
  then obtain w' where "sendrawto_one env0 1 ''PING'' two_waiting = returning w'"
    "con_wire (conn w' 1) @ concat (unsent w' 1) = con_wire (conn two_waiting 1) @ concat (unsent two_waiting 1) @ take 510 ''PING'' @ crlf"
    using sendrawto_one_whole [OF env0_ok(1) eager_sound [OF env0_ok(2)] two_waiting_inv _ _ l, of 1 "''PING''"] by blast
  then show ?thesis unfolding two_waiting_unsent by (simp add: two_waiting_sel(12) conn0_sel)
qed

text \<open>
  C12: A message given to \<open>send_buffer\<close> reaches the connection of its receiver whole: a normal message
  behind everything queued, a priority message behind the other priority messages and behind a message
  that was begun, never inside one. A connection that cannot be written to is left alone. The buffer of the
  message keeps its text, so that it can be sent to the next receiver.
\<close>

theorem send_buffer_whole:
  assumes "env_ok e" "sw_inv e w H" "buf \<in># H" "sound_socket e (receiver w c)"
  shows "\<exists>w'. send_buffer e c buf prio w = returning w' \<and> sw_inv e w' H
    \<and> (if can_send (conn w (receiver w c))
       then length (concat (unsent w (receiver w c))) \<le> get_sendq e (receiver w c) \<longrightarrow>
         placed (receiver w c) prio (mb_text (mbufs w) buf) w w' \<and> mb_text (mbufs w') buf = mb_text (mbufs w) buf
       else w' = w)"
  using send_buffer_ok [OF assms(1-3), of c prio] assms(4) mq_length_unat [OF sw_invD(6) [OF assms(2)] unsent_small [OF assms(1,2)]]
  by (metis (full_types))

theorem send_buffer_whole_witness:
  "\<exists>w mb w'. send_buffer env0 1 mb True w = returning w' \<and> con_wire (conn w' 1) @ concat (unsent w' 1) = ''PING'' @ crlf @ ''a'' @ crlf"
proof -
  have m: "tot_bufsize two_waiting < int (env_pool env0)" by (simp add: two_waiting_sel env0_def)
  have "msgq_vmake (env_pool env0) (starving env0) ''PING'' two_waiting \<noteq> Some (Inl Aborted)"
    by (rule vmake_enough [OF sw_invD(1) [OF two_waiting_inv]]) (use m in blast)
  then obtain w1 mb where v: "sw_inv env0 w1 {#mb#}" "mb_text (mbufs w1) mb = ''PING'' @ crlf" "conn w1 = conn two_waiting" "\<forall>c. unsent w1 c = unsent two_waiting c"
    using vmake_world [OF env0_ok(1) two_waiting_inv, of "''PING''"] m by auto
  have r: "receiver w1 1 = 1" "can_send (conn w1 1)" "con_wire (conn w1 1) = []" by (simp_all add: receiver_def v(3) two_waiting_sel(12) conn0_sel)
  have u: "unsent w1 1 = [''a'' @ crlf]" using v(4) two_waiting_unsent [of 1] by (metis (full_types))
  have p: "place (sendq w1 1) True = 0" using two_waiting_sendq [of 1] v(3) by (simp add: place_def urgent_def sendq_def one_message_def partial_def)
  have "length (concat (unsent w1 1)) \<le> get_sendq env0 1" unfolding u by (simp add: env0_def)
  then obtain w' where "send_buffer env0 1 mb True w1 = returning w'" "placed 1 True (''PING'' @ crlf) w1 w'"
    using send_buffer_whole [OF env0_ok(1) v(1), of mb 1 True] eager_sound [OF env0_ok(2)] r(1,2) v(2) by auto
  then show ?thesis using u r(3) p by (intro exI [of _ w1] exI [of _ mb] exI [of _ w']) (simp add: placed_def insert_at_def)
qed

text \<open>
  C19: Flushing all connections stops after the first one whose queue it empties: taking a connection off the
  list clears the pointer by which the loop would go on. With a socket that takes everything
  the first connection on the list is served and all the others keep their data, although they could be
  written to.
\<close>

theorem flush_stops_early:
  assumes "env_ok e" "sw_inv e w H" "send_queues w = c # rest" "eager_socket e c" "can_send (conn w c)" "\<not> IsBlocked (conn w c)"
  shows "\<exists>w'. flush_connections e None w = returning w' \<and> unsent w' c = []
    \<and> (\<forall>d \<in> set rest. unsent w' d = unsent w d \<and> unsent w' d \<noteq> [] \<and> con_wire (conn w' d) = con_wire (conn w d))"
proof -
  obtain w1 where q: "send_queued e c w = returning w1" "sw_inv e w1 H" "sound_socket e c \<longrightarrow> served c w w1" "unsent w1 c = []"
    using send_queued_ok [OF assms(1,2), of c] assms(4-6) by metis
  have n: "c \<notin> set (send_queues w1)" using sw_invD(7) [OF q(2), of c] q(4) by blast
  obtain w2 where f: "send_queued e c w = returning w2"
    "flush_conns e (Some c) w = (if c \<in> set (send_queues w2) then flush_conns e (case rest of [] \<Rightarrow> None | d # _ \<Rightarrow> Some d) w2 else returning w2)"
    using flush_step [OF assms(1,2), of "[]" c rest] assms(3) by (metis append_Nil)
  have "flush_connections e None w = returning w1" using f q(1) n assms(3) by (simp add: flush_connections_def)
  moreover have "unsent w1 d = unsent w d \<and> unsent w1 d \<noteq> [] \<and> con_wire (conn w1 d) = con_wire (conn w d)" if "d \<in> set rest" for d
  proof -
    have "d \<noteq> c" "d \<in> set (send_queues w)" using that sw_invD(2) [OF assms(2)] assms(3) by auto
    then show ?thesis using q(3) eager_sound [OF assms(4)] sw_invD(7) [OF assms(2), of d] by (simp add: served_def same_conn_def)
  qed
  ultimately show ?thesis using q(4) by blast
qed

theorem flush_stops_early_witness:
  "\<exists>w'. flush_connections env0 None two_waiting = returning w' \<and> unsent w' 1 = [] \<and> unsent w' 2 = [''b'' @ crlf] \<and> con_wire (conn w' 2) = []"
proof -
  have "send_queues two_waiting = 1 # [2]" "can_send (conn two_waiting 1)" "\<not> IsBlocked (conn two_waiting 1)" by (simp_all add: two_waiting_sel conn0_sel)
  from flush_stops_early [OF env0_ok(1) two_waiting_inv this(1) env0_ok(2) this(2,3)]
  obtain w' where "flush_connections env0 None two_waiting = returning w'" "unsent w' 1 = []" "unsent w' 2 = unsent two_waiting 2"
    "con_wire (conn w' 2) = con_wire (conn two_waiting 2)" by auto
  then show ?thesis unfolding two_waiting_unsent by (simp add: two_waiting_sel(12) conn0_sel)
qed

end
