(* ===== verification/Spec2Isabelle.thy ===== *)
theory Spec2Isabelle
  imports Numnicks Packet Match IPcheck Whowas Hash Crule Parse Events Channel_Inv Mode_Text Send_Thms
begin

text \<open>
  Verification of the Nefarious IRC daemon.

  \<^bold>\<open>The program.\<close> \<open>ircd\<close> is one process that serves users and links to other servers. A socket that
  becomes readable is handled by \<open>read_packet\<close> (\<open>s_bsd.c\<close>): the bytes of a user go into a receive
  buffer (\<open>dbuf.c\<close>) and are taken out line by line, the bytes of a server are cut into lines by
  \<open>server_dopacket\<close> (\<open>packet.c\<close>). A line goes to \<open>parse_client\<close> or \<open>parse_server\<close> (\<open>parse.c\<close>), which
  finds the sender by name (\<open>hash.c\<close>) or by numeric (\<open>numnicks.c\<close>), the command in a trie, splits the
  parameters and calls a handler. Handlers change the membership of channels and ask who may join or
  speak (\<open>channel.c\<close>), which compares masks with the names and addresses of users (\<open>match.c\<close>). What they
  say to clients is put in reference counted buffers, queued for each receiver (\<open>msgq.c\<close>) and written
  when sockets take it (\<open>send.c\<close>). On the side there are the count of connections per address (\<open>IPcheck.c\<close>), the history of nicknames
  (\<open>whowas.c\<close>), the rules that decide on automatic connects (\<open>crule.c\<close>) and the timers
  (\<open>ircd_events.c\<close>).

  \<^bold>\<open>How C is modelled.\<close> Theory \<open>Prelude\<close> has the conventions. Integers whose width matters are words;
  \<open>char\<close> is a byte. A string is a list of bytes without the final NUL, and a pointer into it an index
  or the rest of the list. What C leaves undefined and what stops the program (a read or write out of
  bounds, a null pointer, a failed assertion, a value never written) is an error value of type \<open>res\<close>.
  A loop whose end depends on the data is a \<open>partial_function (option)\<close>, so that not ending is the
  value \<open>None\<close>; that it ends is then part of the theorem. The recursive descent of \<open>crule.c\<close> runs on
  fuel, with \<open>3 * length text + 3\<close> steps for a text, which is proved to be enough (each call either
  consumes a character or is one of three nested calls at the same place). Functions of the source that
  are outside a component (the handlers, sockets, the configuration) are arguments of its definitions.

  \<^bold>\<open>The parts.\<close>

  \<^item> \<open>Chattr\<close>: character classes and case folding (\<open>ircd_chattr.h\<close>, \<open>table_gen.c\<close>): the generated
    tables agree with the classes they stand for.
  \<^item> \<open>Ircd_String\<close>: \<open>ircd_string.c\<close> except for regular expressions and text bans: comparisons, address
    printing, lists of names.
  \<^item> \<open>Numnicks\<close>: \<open>numnicks.c\<close>: base 64 round trip; the numeric given to a local client leads back to it,
    and a full table ends the program at an assertion.
  \<^item> \<open>Dbuf\<close>, \<open>Client\<close>, \<open>Packet\<close>: a chain of blocks refines a byte string, and no block of the pool is
    lost (\<open>pool_ok k\<close>: the used blocks are those of the buffer and \<open>k\<close> others); the parse loop of
    \<open>read_packet\<close> refines reading lines from that string and ends, lines of servers arrive once and
    in order. The message handlers are arguments (\<open>rhandlers\<close>) that may clear the receive queue, as
    \<open>close_connection\<close> and \<open>dead_link\<close> do, and give blocks of other connections back (\<open>handlers_ok\<close>).
    The overrun of the message buffer by a long line of a server is a fault of its own, \<open>Overrun\<close>.
  \<^item> \<open>Registry\<close>: the locale of tables keyed by a name or an address, interpreted in \<open>Hash\<close> and \<open>IPcheck\<close>.
  \<^item> \<open>Hash\<close>: \<open>hash.c\<close>: chained tables and the open-addressed table of juped nicks.
  \<^item> \<open>IPcheck\<close>: the counter of an address is the number of its counted clients modulo \<open>2 ^ 16\<close>, as a
    step relation over connects, refusals of local and of remote clients, disconnects and expiry.
  \<^item> \<open>Whowas\<close>: the doubly linked history refines a bounded list of records copied from clients.
  \<^item> \<open>Match\<close>, \<open>Mmatch\<close>: \<open>match\<close> decides the wildcard relation \<open>glob\<close>, \<open>collapse\<close> keeps it, \<open>mmatch\<close> is
    sound for inclusion.
  \<^item> \<open>Crule\<close>: scanner, parser, evaluation, release and printing of connection rules; the meaning of a
    rule is given for the code's reading and for the documented one, which leaves this server out.
  \<^item> \<open>Msgtree\<close>, \<open>Parse\<close>: the command table, its trie, and both line parsers up to the handler.
  \<^item> \<open>Events\<close>: the timer queue; callbacks may add, change and delete timers while it runs. The order
    of the queue needs no condition on them; that a run ends needs that they add for the future only.
  \<^item> \<open>Channel\<close>, \<open>Channel_Inv\<close>: memberships as blocks on two lists, joins, parts, kicks, zombies,
    invitations; the invariant over all sequences of them.
  \<^item> \<open>Chan_Text\<close>, \<open>Mode_Text\<close>: key rings, canonical ban masks, channel names, printed modes.
  \<^item> \<open>Hostmask\<close>, \<open>Bans\<close>, \<open>Bans_Correct\<close>, \<open>Bans_Thms\<close>: the texts a user is known by, the checks of ban
    and exception lists with the answers noted in memberships, and what they decide.
  \<^item> \<open>Access\<close>, \<open>Access_Inv\<close>, \<open>Access_Thms\<close>: \<open>can_join\<close>, who may send to a channel, nick changes.
  \<^item> \<open>Msgq\<close>, \<open>Msgq_Inv\<close>, \<open>Msgq_Thms\<close>: message buffers shared between queues, their free lists and the
    pool limit; making, appending, queueing, deleting and gathering for output; the invariant of the
    heap (a buffer is free exactly when nothing refers to it) and what each operation does to the
    bytes of a queue.
  \<^item> \<open>Send\<close>, \<open>Send_Inv\<close>, \<open>Send_Thms\<close>: delivery to sockets, the list of connections with queued data,
    dead links, and the fall-back when buffers run out; the invariant over all sequences of these
    operations, order and completeness of what sockets take. The build is the one without TLS;
    \<open>writev\<close>, the limit of a queue and the notices to operators are fields of \<open>senv\<close>, and \<open>env_ok\<close>
    says what is expected of them (\<open>writev\<close> takes at most what it is given, notices keep the
    invariant, being messages sent the same way, and queue nothing for a dead connection).

  \<^bold>\<open>What is not modelled.\<close> System calls and the event engines, the resolver, TLS, configuration files
  (\<open>bison\<close> and \<open>flex\<close> inputs), the formatting of messages and the choice of their receivers
  (\<open>ircd_snprintf.c\<close>, the \<open>sendcmdto_\<close> functions of \<open>send.c\<close>), the
  parser of channel modes and its propagation, network bans (\<open>gline.c\<close>, \<open>zline.c\<close>, \<open>shun.c\<close>,
  \<open>jupe.c\<close>), user registration and modes (\<open>s_user.c\<close>), and the command handlers \<open>m_*.c\<close>: their
  effects are mostly messages to clients, and where they change state they do it through the operations
  modelled here.
\<close>

end
